(* ===== verification/Prelude.thy ===== *)
theory Prelude
  imports Main "HOL-Library.AList" "HOL-Library.Multiset" "HOL-Library.Word"
    "HOL-Library.Monad_Syntax"
begin

text \<open>
  Shared vocabulary of the development: the identifiers the engine passes between its
  parts, the association-list view of its hash maps, and the generic lemmas on lists,
  multisets and options that the component theories use.

  A function whose Rust original can panic returns an \<open>option\<close>; \<open>None\<close> is the panic. Rust
  \<open>u64\<close> and \<open>usize\<close> counters that only ever grow by one (entity ids, revisions,
  generations of the evaluator) are natural numbers; integers whose width decides a branch
  (the generation of an execution slot, the words of the presence index) keep their width.
  A \<open>HashMap\<close> is an association list with distinct keys: lookups go through \<open>map_of\<close>, and
  where the code iterates a map or a set, the order of the list stands for the unspecified
  iteration order, so a theorem for all lists is a theorem for all orders.
\<close>

section \<open>Collections\<close>

named_theorems alist_simps \<open>lookups in updated association lists\<close>
named_theorems inv_intros \<open>preservation of component invariants\<close>

section \<open>Identifiers\<close>

text \<open>Raw entity ids (\<open>Entity\<close> of entity.rs is a \<open>u64\<close> with a phantom facet).\<close>

type_synonym entity = nat

text \<open>
  \<open>TypeId\<close> of a component type. Two component types belong to the engine itself,
  \<open>DerivedFrom\<close> and \<open>Singleton\<close> (component.rs); every other one is a user type.
\<close>

datatype type_id = UserTy nat | DerivedFromTy | SingletonTy type_id

text \<open>Identity of one memoized system invocation: system id and query entity keys.\<close>

record system_invocation =
  inv_system :: nat
  inv_keys :: "entity list"

section \<open>Association lists\<close>

declare map_of_eq_Some_iff [simp del]

lemmas map_of_update [alist_simps] = update_conv'
lemmas map_of_delete_fun [alist_simps] = delete_conv'

lemma map_of_filter_key [alist_simps]:
  "map_of (filter (\<lambda>p. P (fst p)) xs) = (\<lambda>k. if P k then map_of xs k else None)"
  by (induction xs) auto

lemma distinct_map_fst_filter:
  "distinct (map fst xs) \<Longrightarrow> distinct (map fst (filter P xs))"
  by (induction xs) auto

lemma in_set_map_of_iff:
  "distinct (map fst xs) \<Longrightarrow> (k, v) \<in> set xs \<longleftrightarrow> map_of xs k = Some v"
  by (metis map_of_SomeD map_of_is_SomeI)

lemma map_of_dom: "map_of xs k = None \<longleftrightarrow> k \<notin> set (map fst xs)"
  by (auto simp: map_of_eq_None_iff)

text \<open>A property of every value of a map.\<close>

definition vals_all :: "('v \<Rightarrow> bool) \<Rightarrow> ('k \<times> 'v) list \<Rightarrow> bool" where
  "vals_all Q xs \<longleftrightarrow> (\<forall>k v. map_of xs k = Some v \<longrightarrow> Q v)"

lemma vals_allD: "vals_all Q xs \<Longrightarrow> map_of xs k = Some v \<Longrightarrow> Q v"
  by (simp add: vals_all_def)

lemma vals_all_update: "vals_all Q xs \<Longrightarrow> Q v \<Longrightarrow> vals_all Q (AList.update k v xs)"
  unfolding vals_all_def map_of_update by (auto simp only: fun_upd_apply split: if_splits)

lemma vals_all_delete: "vals_all Q xs \<Longrightarrow> vals_all Q (AList.delete k xs)"
  unfolding vals_all_def map_of_delete_fun by (auto simp only: fun_upd_apply split: if_splits)

lemma vals_all_Nil [simp]: "vals_all Q []"
  by (simp add: vals_all_def)

lemma bind_SomeE:
  assumes "Option.bind x f = Some y"
  obtains z where "x = Some z" "f z = Some y"
  using assms by (cases x) auto

section \<open>Folds that may panic\<close>

primrec fold_opt :: "('a \<Rightarrow> 's \<Rightarrow> 's option) \<Rightarrow> 'a list \<Rightarrow> 's \<Rightarrow> 's option" where
  "fold_opt f [] s = Some s"
| "fold_opt f (x # xs) s = Option.bind (f x s) (fold_opt f xs)"

lemma fold_opt_append:
  "fold_opt f (xs @ ys) s = Option.bind (fold_opt f xs s) (fold_opt f ys)"
  by (induction xs arbitrary: s) (auto split: Option.bind_splits)

lemma fold_opt_invariant:
  assumes "fold_opt f xs s = Some s'" and "P s"
    and "\<And>x s s'. x \<in> set xs \<Longrightarrow> P s \<Longrightarrow> f x s = Some s' \<Longrightarrow> P s'"
  shows "P s'"
  using assms
proof (induction xs arbitrary: s)
  case Nil
  then show ?case by simp
next
  case (Cons x xs)
  then obtain s1 where s1: "f x s = Some s1" "fold_opt f xs s1 = Some s'"
    by (auto split: Option.bind_splits)
  show ?case
    by (rule Cons.IH [OF s1(2)]) (use Cons.prems s1 in \<open>auto\<close>)
qed

section \<open>Lists and multisets\<close>

lemma sum_list_mset_update:
  fixes xs :: "'a multiset list"
  assumes "i < length xs"
  shows "sum_list (xs[i := m]) + xs ! i = sum_list xs + m"
  using assms
proof (induction xs arbitrary: i)
  case Nil
  then show ?case by simp
next
  case (Cons x xs)
  then show ?case by (cases i) (auto simp: ac_simps)
qed

lemma sum_list_mset_member:
  fixes xs :: "'a multiset list"
  shows "a \<in># sum_list xs \<longleftrightarrow> (\<exists>x \<in> set xs. a \<in># x)"
  by (induction xs) auto

lemma sum_list_mset_update_empty:
  fixes xs :: "'a multiset list"
  assumes "i < length xs" and "xs ! i = {#}"
  shows "sum_list (xs[i := m]) = sum_list xs + m"
  using sum_list_mset_update [OF assms(1), of m] assms(2) by simp

lemma sum_list_mset_clear:
  fixes xs :: "'a multiset list"
  assumes "i < length xs"
  shows "sum_list xs = sum_list (xs[i := {#}]) + xs ! i"
  using sum_list_mset_update [OF assms, of "{#}"] by simp

lemma sorted_insort_insert_set [simp]:
  "set (insort_insert x xs) = insert x (set xs)"
  by (rule set_insort_insert)

section \<open>Checked arithmetic\<close>

text \<open>Rust's \<open>u32::checked_add(1)\<close>: \<open>None\<close> at the largest value.\<close>

definition checked_inc32 :: "32 word \<Rightarrow> 32 word option" where
  "checked_inc32 g = (if g = - 1 then None else Some (g + 1))"

lemma checked_inc32_Some:
  assumes "checked_inc32 g = Some g'"
  shows "unat g' = unat g + 1"
proof -
  have "g \<noteq> - 1" "g' = g + 1" using assms by (auto simp: checked_inc32_def split: if_splits)
  moreover from this(1) have "1 + g \<noteq> 0" by (metis add.commute add_eq_0_iff)
  ultimately show ?thesis using unatSuc [of g] by (simp add: add.commute)
qed

text \<open>Rust's \<open>u32::try_from\<close> on a length.\<close>

definition fits_u32 :: "nat \<Rightarrow> bool" where
  "fits_u32 n \<longleftrightarrow> n < 2 ^ 32"

lemma fits_u32_code [code]: "fits_u32 n \<longleftrightarrow> int n < 4294967296"
  by (simp add: fits_u32_def)

end
