(* ===== verification/Reservations.thy ===== *)
theory Reservations
  imports Prelude
begin

text \<open>
  The row and store reservations of one evaluator phase (access.rs) with the access records
  of query.rs: per-component reader and writer counters, the dense execution records with
  their generation-checked ids, and admission, completion and cancellation.

  The counters are related to the multiset of accesses held by live records
  (\<open>live_accesses\<close>); the pairwise conflict rule \<open>access_conflicts\<close>, which the source keeps
  as an independent oracle, is the specification they are proved to implement.
\<close>

section \<open>Accesses\<close>

datatype access_kind = Read | Write

record access =
  acc_kind :: access_kind
  acc_component :: type_id
  acc_entity :: "entity option"

definition access_read :: "type_id \<Rightarrow> entity \<Rightarrow> access" where
  "access_read ty e = \<lparr>acc_kind = Read, acc_component = ty, acc_entity = Some e\<rparr>"

definition access_write :: "type_id \<Rightarrow> entity \<Rightarrow> access" where
  "access_write ty e = \<lparr>acc_kind = Write, acc_component = ty, acc_entity = Some e\<rparr>"

definition access_read_all :: "type_id \<Rightarrow> access" where
  "access_read_all ty = \<lparr>acc_kind = Read, acc_component = ty, acc_entity = None\<rparr>"

definition access_write_all :: "type_id \<Rightarrow> access" where
  "access_write_all ty = \<lparr>acc_kind = Write, acc_component = ty, acc_entity = None\<rparr>"

text \<open>\<open>Access::conflicts\<close>, the pairwise rule.\<close>

definition rows_overlap :: "entity option \<Rightarrow> entity option \<Rightarrow> bool" where
  "rows_overlap a b = (case (a, b) of (Some x, Some y) \<Rightarrow> x = y | _ \<Rightarrow> True)"

definition access_conflicts :: "access \<Rightarrow> access \<Rightarrow> bool" where
  "access_conflicts a b \<longleftrightarrow>
     acc_component a = acc_component b
     \<and> (acc_kind a = Write \<or> acc_kind b = Write)
     \<and> rows_overlap (acc_entity a) (acc_entity b)"

section \<open>Counters\<close>

record counts =
  readers :: nat
  writers :: nat

definition counts_default :: counts where
  "counts_default = \<lparr>readers = 0, writers = 0\<rparr>"

definition counts_any :: "counts \<Rightarrow> bool" where
  "counts_any c \<longleftrightarrow> readers c \<noteq> 0 \<or> writers c \<noteq> 0"

definition counts_conflicts :: "counts \<Rightarrow> access_kind \<Rightarrow> bool" where
  "counts_conflicts c k = (case k of Read \<Rightarrow> writers c \<noteq> 0 | Write \<Rightarrow> counts_any c)"

definition counts_add :: "access_kind \<Rightarrow> counts \<Rightarrow> counts" where
  "counts_add k c = (case k of
      Read \<Rightarrow> c\<lparr>readers := readers c + 1\<rparr>
    | Write \<Rightarrow> c\<lparr>writers := writers c + 1\<rparr>)"

text \<open>The decrement of a zero \<open>usize\<close> counter panics.\<close>

definition counts_remove :: "access_kind \<Rightarrow> counts \<Rightarrow> counts option" where
  "counts_remove k c = (case k of
      Read \<Rightarrow> if readers c = 0 then None else Some (c\<lparr>readers := readers c - 1\<rparr>)
    | Write \<Rightarrow> if writers c = 0 then None else Some (c\<lparr>writers := writers c - 1\<rparr>))"

record component_access =
  total :: counts
  whole_store :: counts
  rows :: "(entity \<times> counts) list"

definition component_access_default :: component_access where
  "component_access_default =
     \<lparr>total = counts_default, whole_store = counts_default, rows = []\<rparr>"

record resolved_access =
  ra_component :: nat
  ra_entity :: "entity option"
  ra_kind :: access_kind

definition component_conflicts :: "component_access \<Rightarrow> resolved_access \<Rightarrow> bool" where
  "component_conflicts ca a = (case ra_entity a of
      None \<Rightarrow> counts_conflicts (total ca) (ra_kind a)
    | Some e \<Rightarrow> counts_conflicts (whole_store ca) (ra_kind a)
        \<or> (case map_of (rows ca) e of
             None \<Rightarrow> False
           | Some row \<Rightarrow> counts_conflicts row (ra_kind a)))"

definition component_add :: "resolved_access \<Rightarrow> component_access \<Rightarrow> component_access" where
  "component_add a ca =
     (let ca = ca\<lparr>total := counts_add (ra_kind a) (total ca)\<rparr> in
      case ra_entity a of
        Some e \<Rightarrow>
          let row = (case map_of (rows ca) e of None \<Rightarrow> counts_default | Some r \<Rightarrow> r) in
          ca\<lparr>rows := AList.update e (counts_add (ra_kind a) row) (rows ca)\<rparr>
      | None \<Rightarrow> ca\<lparr>whole_store := counts_add (ra_kind a) (whole_store ca)\<rparr>)"

text \<open>A row entry that becomes empty is dropped; a missing row entry panics.\<close>

definition component_remove :: "resolved_access \<Rightarrow> component_access \<Rightarrow> component_access option" where
  "component_remove a ca = do {
     t \<leftarrow> counts_remove (ra_kind a) (total ca);
     let ca = ca\<lparr>total := t\<rparr>;
     case ra_entity a of
       None \<Rightarrow> do {
         w \<leftarrow> counts_remove (ra_kind a) (whole_store ca);
         Some (ca\<lparr>whole_store := w\<rparr>) }
     | Some e \<Rightarrow> do {
         row \<leftarrow> map_of (rows ca) e;
         row \<leftarrow> counts_remove (ra_kind a) row;
         Some (if counts_any row
               then ca\<lparr>rows := AList.update e row (rows ca)\<rparr>
               else ca\<lparr>rows := AList.delete e (rows ca)\<rparr>) } }"

section \<open>Component slots\<close>

record components =
  schema :: "(type_id \<times> nat) list"
  extra :: "(type_id \<times> nat) list"
  slots :: "component_access list"

definition slot_of :: "components \<Rightarrow> type_id \<Rightarrow> nat option" where
  "slot_of cs ty = (case map_of (schema cs) ty of Some s \<Rightarrow> Some s | None \<Rightarrow> map_of (extra cs) ty)"

definition resolve :: "components \<Rightarrow> access \<Rightarrow> components \<times> resolved_access" where
  "resolve cs a =
     (case map_of (schema cs) (acc_component a) of
        Some s \<Rightarrow> (cs, \<lparr>ra_component = s, ra_entity = acc_entity a, ra_kind = acc_kind a\<rparr>)
      | None \<Rightarrow>
          (case map_of (extra cs) (acc_component a) of
             Some s \<Rightarrow> (cs, \<lparr>ra_component = s, ra_entity = acc_entity a, ra_kind = acc_kind a\<rparr>)
           | None \<Rightarrow>
               let s = length (slots cs) in
               (cs\<lparr>slots := slots cs @ [component_access_default],
                   extra := AList.update (acc_component a) s (extra cs)\<rparr>,
                \<lparr>ra_component = s, ra_entity = acc_entity a, ra_kind = acc_kind a\<rparr>)))"

text \<open>The \<open>map\<close> over the requested accesses threads the slot table.\<close>

fun resolve_all :: "components \<Rightarrow> access list \<Rightarrow> components \<times> resolved_access list" where
  "resolve_all cs [] = (cs, [])"
| "resolve_all cs (a # as) =
     (let (cs, r) = resolve cs a; (cs, rs) = resolve_all cs as in (cs, r # rs))"

section \<open>Execution records\<close>

record run_id =
  run_slot :: nat
  run_generation :: "32 word"

record exec_record =
  rec_owner :: system_invocation
  rec_accesses :: "resolved_access list"
  rec_writer :: bool

record exec_slot =
  slot_generation :: "32 word"
  slot_record :: "exec_record option"

text \<open>\<open>free\<close> is the stack of reusable slots; its head is the end of the vector.\<close>

record records =
  rec_slots :: "exec_slot list"
  free :: "nat list"

definition records_default :: records where
  "records_default = \<lparr>rec_slots = [], free = []\<rparr>"

definition records_insert :: "exec_record \<Rightarrow> records \<Rightarrow> (records \<times> run_id) option" where
  "records_insert r rs = do {
     (rs, index) \<leftarrow>
       (case free rs of
          i # is \<Rightarrow> Some (rs\<lparr>free := is\<rparr>, i)
        | [] \<Rightarrow>
            if fits_u32 (length (rec_slots rs))
            then Some (rs\<lparr>rec_slots := rec_slots rs @ [\<lparr>slot_generation = 0, slot_record = None\<rparr>]\<rparr>,
                       length (rec_slots rs))
            else None);
     if index < length (rec_slots rs) then
       let slot = rec_slots rs ! index in
       Some (rs\<lparr>rec_slots := (rec_slots rs)[index := slot\<lparr>slot_record := Some r\<rparr>]\<rparr>,
             \<lparr>run_slot = index, run_generation = slot_generation slot\<rparr>)
     else None }"

definition records_get :: "records \<Rightarrow> run_id \<Rightarrow> exec_record option" where
  "records_get rs i =
     (if run_slot i < length (rec_slots rs) then
        let slot = rec_slots rs ! run_slot i in
        if slot_generation slot = run_generation i then slot_record slot else None
      else None)"

text \<open>
  Completion empties the slot. Its generation advances with \<open>checked_add\<close>: a slot whose
  generation is exhausted is retired for good instead of wrapping.
\<close>

definition records_remove :: "run_id \<Rightarrow> records \<Rightarrow> (records \<times> exec_record) option" where
  "records_remove i rs =
     (if run_slot i < length (rec_slots rs) then
        let slot = rec_slots rs ! run_slot i in
        if slot_generation slot \<noteq> run_generation i then None
        else (case slot_record slot of
                None \<Rightarrow> None
              | Some r \<Rightarrow>
                  Some (case checked_inc32 (slot_generation slot) of
                      Some g \<Rightarrow>
                        (rs\<lparr>rec_slots := (rec_slots rs)[run_slot i :=
                              \<lparr>slot_generation = g, slot_record = None\<rparr>],
                            free := run_slot i # free rs\<rparr>, r)
                    | None \<Rightarrow>
                        (rs\<lparr>rec_slots := (rec_slots rs)[run_slot i :=
                              slot\<lparr>slot_record := None\<rparr>]\<rparr>, r)))
      else None)"

section \<open>Reservations\<close>

record reservations =
  owners :: "(system_invocation \<times> run_id) list"
  records :: records
  components :: components

datatype rejected = Duplicate | Conflict system_invocation

definition reservations_new :: "(type_id \<times> nat) list \<Rightarrow> reservations" where
  "reservations_new sch =
     \<lparr>owners = [], records = records_default,
      components = \<lparr>schema = sch, extra = [],
                    slots = replicate (length sch) component_access_default\<rparr>\<rparr>"

text \<open>Indexing \<open>slots[access.component]\<close>: out of range is a panic.\<close>

definition slot_at :: "component_access list \<Rightarrow> nat \<Rightarrow> component_access option" where
  "slot_at ss c = (if c < length ss then Some (ss ! c) else None)"

definition slots_conflict :: "component_access list \<Rightarrow> resolved_access \<Rightarrow> bool option" where
  "slots_conflict ss a = do {
     ca \<leftarrow> slot_at ss (ra_component a);
     Some (component_conflicts ca a) }"

definition slots_add ::
  "resolved_access \<Rightarrow> component_access list \<Rightarrow> component_access list option" where
  "slots_add a ss = do {
     ca \<leftarrow> slot_at ss (ra_component a);
     Some (ss[ra_component a := component_add a ca]) }"

definition slots_remove ::
  "resolved_access \<Rightarrow> component_access list \<Rightarrow> component_access list option" where
  "slots_remove a ss = do {
     ca \<leftarrow> slot_at ss (ra_component a);
     ca \<leftarrow> component_remove a ca;
     Some (ss[ra_component a := ca]) }"

fun any_conflict :: "component_access list \<Rightarrow> resolved_access list \<Rightarrow> bool option" where
  "any_conflict ss [] = Some False"
| "any_conflict ss (a # as) = do {
     c \<leftarrow> slots_conflict ss a;
     if c then Some True else any_conflict ss as }"

definition admit ::
  "system_invocation \<Rightarrow> access list \<Rightarrow> reservations \<Rightarrow> (reservations \<times> (rejected + run_id)) option" where
  "admit ow as r =
     (if map_of (owners r) ow \<noteq> None then Some (r, Inl Duplicate)
      else
        let (cs, ras) = resolve_all (components r) as; r = r\<lparr>components := cs\<rparr> in do {
        conflict \<leftarrow> any_conflict (slots cs) ras;
        if conflict then Some (r, Inl (Conflict ow))
        else do {
          ss \<leftarrow> fold_opt slots_add ras (slots cs);
          (recs, i) \<leftarrow> records_insert
             \<lparr>rec_owner = ow, rec_accesses = ras, rec_writer = (\<exists>a \<in> set ras. ra_kind a = Write)\<rparr>
             (records r);
          Some (r\<lparr>components := cs\<lparr>slots := ss\<rparr>, records := recs,
                  owners := AList.update ow i (owners r)\<rparr>, Inr i) } })"

definition contains :: "reservations \<Rightarrow> run_id \<Rightarrow> bool" where
  "contains r i \<longleftrightarrow> records_get (records r) i \<noteq> None"

definition is_writer :: "reservations \<Rightarrow> run_id \<Rightarrow> bool option" where
  "is_writer r i = map_option rec_writer (records_get (records r) i)"

text \<open>
  \<open>Reservations::remove\<close>: the outer option is the panic, the inner one the \<open>Option\<close> the code
  returns for an id that is not live.
\<close>

definition release :: "run_id \<Rightarrow> reservations \<Rightarrow> (reservations \<times> system_invocation option) option" where
  "release i r =
     (case records_remove i (records r) of
        None \<Rightarrow> Some (r, None)
      | Some (recs, rc) \<Rightarrow> do {
          ss \<leftarrow> fold_opt slots_remove (rec_accesses rc) (slots (components r));
          Some (r\<lparr>records := recs, owners := AList.delete (rec_owner rc) (owners r),
                  components := (components r)\<lparr>slots := ss\<rparr>\<rparr>, Some (rec_owner rc)) })"

definition reader_ids :: "reservations \<Rightarrow> run_id list" where
  "reader_ids r =
     [\<lparr>run_slot = n, run_generation = slot_generation (rec_slots (records r) ! n)\<rparr>.
        n \<leftarrow> [0..<length (rec_slots (records r))],
        (case slot_record (rec_slots (records r) ! n) of
           None \<Rightarrow> False | Some rc \<Rightarrow> \<not> rec_writer rc)]"

fun release_all :: "run_id list \<Rightarrow> reservations \<Rightarrow> reservations option" where
  "release_all [] r = Some r"
| "release_all (i # is) r = do { (r, _) \<leftarrow> release i r; release_all is r }"

definition cancel_readers :: "reservations \<Rightarrow> reservations option" where
  "cancel_readers r = release_all (reader_ids r) r"


section \<open>The counters as an index of held accesses\<close>

definition ra_overlap :: "resolved_access \<Rightarrow> resolved_access \<Rightarrow> bool" where
  "ra_overlap a b \<longleftrightarrow>
     (ra_kind a = Write \<or> ra_kind b = Write) \<and> rows_overlap (ra_entity a) (ra_entity b)"

definition ra_conflicts :: "resolved_access \<Rightarrow> resolved_access \<Rightarrow> bool" where
  "ra_conflicts a b \<longleftrightarrow> ra_component a = ra_component b \<and> ra_overlap a b"

lemma ra_conflicts_sym: "ra_conflicts a b \<longleftrightarrow> ra_conflicts b a"
  by (auto simp: ra_conflicts_def ra_overlap_def rows_overlap_def split: option.splits)

text \<open>
  What admission relies on: an index of a multiset of held accesses that answers conflict
  queries, and never panics on an access in its domain or on the release of a held one.
\<close>

locale access_index =
  fixes ok :: "'s \<Rightarrow> resolved_access multiset \<Rightarrow> bool"
    and dom :: "'s \<Rightarrow> resolved_access \<Rightarrow> bool"
    and clash :: "resolved_access \<Rightarrow> resolved_access \<Rightarrow> bool"
    and conflict :: "'s \<Rightarrow> resolved_access \<Rightarrow> bool option"
    and add :: "resolved_access \<Rightarrow> 's \<Rightarrow> 's option"
    and remove :: "resolved_access \<Rightarrow> 's \<Rightarrow> 's option"
  assumes conflict_iff: "ok s M \<Longrightarrow> dom s a \<Longrightarrow> conflict s a = Some (\<exists>b \<in># M. clash a b)"
    and add_ok: "ok s M \<Longrightarrow> dom s a \<Longrightarrow>
      \<exists>s'. add a s = Some s' \<and> ok s' (add_mset a M) \<and> dom s' = dom s"
    and remove_ok: "ok s M \<Longrightarrow> a \<in># M \<Longrightarrow>
      \<exists>s'. remove a s = Some s' \<and> ok s' (M - {#a#}) \<and> dom s' = dom s"
begin

lemma add_list:
  assumes "ok s M" and "\<forall>a \<in> set as. dom s a"
  shows "\<exists>s'. fold_opt add as s = Some s' \<and> ok s' (M + mset as) \<and> dom s' = dom s"
  using assms
proof (induction as arbitrary: s M)
  case Nil
  then show ?case by simp
next
  case (Cons a as)
  obtain s1 where s1: "add a s = Some s1" "ok s1 (add_mset a M)" "dom s1 = dom s"
    using add_ok [OF Cons.prems(1), of a] Cons.prems(2) by auto
  have "\<exists>s'. fold_opt add as s1 = Some s' \<and> ok s' (add_mset a M + mset as) \<and> dom s' = dom s1"
    by (rule Cons.IH [OF s1(2)]) (use Cons.prems(2) s1(3) in auto)
  with s1 show ?case by auto
qed

lemma remove_list:
  assumes "ok s (M + mset as)"
  shows "\<exists>s'. fold_opt remove as s = Some s' \<and> ok s' M \<and> dom s' = dom s"
  using assms
proof (induction as arbitrary: s)
  case Nil
  then show ?case by simp
next
  case (Cons a as)
  obtain s1 where s1: "remove a s = Some s1" "ok s1 (M + mset (a # as) - {#a#})" "dom s1 = dom s"
    using remove_ok [OF Cons.prems, of a] by auto
  then have "ok s1 (M + mset as)" by simp
  from Cons.IH [OF this] s1 show ?case by auto
qed

end


section \<open>One component's counters\<close>

definition counts_of :: "resolved_access multiset \<Rightarrow> counts" where
  "counts_of M = \<lparr>readers = size {#a \<in># M. ra_kind a = Read#},
                  writers = size {#a \<in># M. ra_kind a = Write#}\<rparr>"

text \<open>A row's counters are present exactly while some access to the row is held.\<close>

definition row_entry :: "resolved_access multiset \<Rightarrow> counts option" where
  "row_entry N = (if N = {#} then None else Some (counts_of N))"

definition component_ok :: "component_access \<Rightarrow> resolved_access multiset \<Rightarrow> bool" where
  "component_ok ca M \<longleftrightarrow>
     total ca = counts_of M
     \<and> whole_store ca = counts_of {#a \<in># M. ra_entity a = None#}
     \<and> (\<forall>e. map_of (rows ca) e = row_entry {#a \<in># M. ra_entity a = Some e#})"

lemma counts_of_empty [simp]: "counts_of {#} = counts_default"
  by (simp add: counts_of_def counts_default_def)

lemma counts_of_add [simp]: "counts_of (add_mset a M) = counts_add (ra_kind a) (counts_of M)"
  by (cases "ra_kind a") (simp_all add: counts_of_def counts_add_def)

lemma counts_of_remove:
  assumes "a \<in># M"
  shows "counts_remove (ra_kind a) (counts_of M) = Some (counts_of (M - {#a#}))"
proof -
  obtain N where "M = add_mset a N" using assms by (metis insert_DiffM)
  then show ?thesis
    by (cases "ra_kind a")
       (simp_all add: counts_remove_def counts_add_def counts_of_def)
qed

lemma kind_filters_empty:
  "{#a \<in># M. ra_kind a = Read#} = {#} \<and> {#a \<in># M. ra_kind a = Write#} = {#} \<longleftrightarrow> M = {#}"
  by (induction M) (auto, metis access_kind.exhaust)

lemma counts_of_any: "counts_any (counts_of M) \<longleftrightarrow> M \<noteq> {#}"
  using kind_filters_empty [of M] by (auto simp: counts_any_def counts_of_def)

lemma counts_of_conflicts:
  "counts_conflicts (counts_of M) k \<longleftrightarrow> (\<exists>b \<in># M. k = Write \<or> ra_kind b = Write)"
proof (cases k)
  case Read
  have "{#a \<in># M. ra_kind a = Write#} \<noteq> {#} \<longleftrightarrow> (\<exists>b \<in># M. ra_kind b = Write)"
    by (induction M) auto
  with Read show ?thesis by (simp add: counts_conflicts_def counts_of_def)
next
  case Write
  then show ?thesis
    by (auto simp: counts_conflicts_def counts_of_any elim: multiset_nonemptyE)
qed

lemma row_entry_add [simp]:
  "row_entry (add_mset a N) =
     Some (counts_add (ra_kind a) (case row_entry N of None \<Rightarrow> counts_default | Some r \<Rightarrow> r))"
  by (simp add: row_entry_def)

lemma row_entry_conflicts:
  "(case row_entry N of None \<Rightarrow> False | Some r \<Rightarrow> counts_conflicts r k) \<longleftrightarrow>
     (\<exists>b \<in># N. k = Write \<or> ra_kind b = Write)"
  by (simp add: row_entry_def counts_of_conflicts)

lemma component_ok_conflicts:
  assumes "component_ok ca M"
  shows "component_conflicts ca a \<longleftrightarrow> (\<exists>b \<in># M. ra_overlap a b)"
proof (cases "ra_entity a")
  case None
  with assms show ?thesis
    by (simp add: component_conflicts_def component_ok_def counts_of_conflicts ra_overlap_def
        rows_overlap_def)
next
  case (Some e)
  with assms have "component_conflicts ca a \<longleftrightarrow>
      (\<exists>b \<in># {#b \<in># M. ra_entity b = None#}. ra_kind a = Write \<or> ra_kind b = Write)
      \<or> (\<exists>b \<in># {#b \<in># M. ra_entity b = Some e#}. ra_kind a = Write \<or> ra_kind b = Write)"
    by (simp add: component_conflicts_def component_ok_def counts_of_conflicts
        row_entry_conflicts)
  also have "\<dots> \<longleftrightarrow> (\<exists>b \<in># M. (ra_entity b = None \<or> ra_entity b = Some e) \<and>
      (ra_kind a = Write \<or> ra_kind b = Write))"
    by auto
  also have "\<dots> \<longleftrightarrow> (\<exists>b \<in># M. ra_overlap a b)"
    using Some by (intro bex_cong) (auto simp: ra_overlap_def rows_overlap_def split: option.splits)
  finally show ?thesis .
qed

lemma component_ok_add:
  assumes "component_ok ca M"
  shows "component_ok (component_add a ca) (add_mset a M)"
  using assms
  by (cases "ra_entity a")
     (auto simp: component_ok_def component_add_def Let_def alist_simps)

lemma component_ok_remove:
  assumes ok: "component_ok ca M" and a: "a \<in># M"
  shows "\<exists>ca'. component_remove a ca = Some ca' \<and> component_ok ca' (M - {#a#})"
proof (cases "ra_entity a")
  case None
  have "a \<in># {#b \<in># M. ra_entity b = None#}" using a None by simp
  from counts_of_remove [OF this] counts_of_remove [OF a] ok None show ?thesis
    by (auto simp: component_remove_def component_ok_def)
next
  case (Some e)
  let ?N = "{#b \<in># M. ra_entity b = Some e#}"
  have in_N: "a \<in># ?N" using a Some by simp
  then have "?N \<noteq> {#}" by (metis empty_iff set_mset_empty)
  with ok have "map_of (rows ca) e = Some (counts_of ?N)"
    by (simp add: component_ok_def row_entry_def)
  with counts_of_remove [OF in_N] counts_of_remove [OF a] Some
  have eq: "component_remove a ca = Some (let ca = ca\<lparr>total := counts_of (M - {#a#})\<rparr> in
      if ?N - {#a#} \<noteq> {#} then ca\<lparr>rows := AList.update e (counts_of (?N - {#a#})) (rows ca)\<rparr>
      else ca\<lparr>rows := AList.delete e (rows ca)\<rparr>)"
    using ok by (simp add: component_remove_def component_ok_def counts_of_any Let_def)
  show ?thesis
    unfolding eq using ok Some
    by (auto simp: component_ok_def alist_simps Let_def row_entry_def)
qed

interpretation component_index: access_index component_ok "\<lambda>_ _. True" ra_overlap
  "\<lambda>ca a. Some (component_conflicts ca a)" "\<lambda>a ca. Some (component_add a ca)" component_remove
  by unfold_locales
     (auto simp: component_ok_conflicts component_ok_add component_ok_remove)

section \<open>The slot table\<close>

definition slots_ok :: "component_access list \<Rightarrow> resolved_access multiset \<Rightarrow> bool" where
  "slots_ok ss M \<longleftrightarrow>
     (\<forall>a \<in># M. ra_component a < length ss)
     \<and> (\<forall>c < length ss. component_ok (ss ! c) {#a \<in># M. ra_component a = c#})"

definition slot_in_range :: "component_access list \<Rightarrow> resolved_access \<Rightarrow> bool" where
  "slot_in_range ss a \<longleftrightarrow> ra_component a < length ss"

lemma slots_ok_conflict:
  assumes "slots_ok ss M" and "slot_in_range ss a"
  shows "slots_conflict ss a = Some (\<exists>b \<in># M. ra_conflicts a b)"
proof -
  let ?c = "ra_component a"
  have "component_ok (ss ! ?c) {#b \<in># M. ra_component b = ?c#}"
    using assms by (auto simp: slots_ok_def slot_in_range_def)
  from component_ok_conflicts [OF this, of a]
  have "component_conflicts (ss ! ?c) a \<longleftrightarrow> (\<exists>b \<in># M. ra_conflicts a b)"
    unfolding ra_conflicts_def by (simp add: conj_commute) (metis (no_types, lifting))
  with assms(2) show ?thesis
    by (simp add: slots_conflict_def slot_at_def slot_in_range_def)
qed

lemma slots_ok_add:
  assumes "slots_ok ss M" and "slot_in_range ss a"
  shows "\<exists>ss'. slots_add a ss = Some ss' \<and> slots_ok ss' (add_mset a M)
    \<and> slot_in_range ss' = slot_in_range ss"
  using assms
  by (auto simp: slots_ok_def slot_in_range_def slots_add_def slot_at_def nth_list_update
      component_ok_add fun_eq_iff)

lemma slots_ok_remove:
  assumes ok: "slots_ok ss M" and a: "a \<in># M"
  shows "\<exists>ss'. slots_remove a ss = Some ss' \<and> slots_ok ss' (M - {#a#})
    \<and> slot_in_range ss' = slot_in_range ss"
proof -
  let ?c = "ra_component a"
  have c: "?c < length ss" using assms by (auto simp: slots_ok_def)
  then have "component_ok (ss ! ?c) {#b \<in># M. ra_component b = ?c#}"
    using ok by (auto simp: slots_ok_def)
  moreover have "a \<in># {#b \<in># M. ra_component b = ?c#}" using a by simp
  ultimately obtain ca where ca: "component_remove a (ss ! ?c) = Some ca"
    "component_ok ca ({#b \<in># M. ra_component b = ?c#} - {#a#})"
    using component_ok_remove by blast
  have "slots_ok (ss[?c := ca]) (M - {#a#})"
    using ok ca(2) c by (auto simp: slots_ok_def nth_list_update dest: in_diffD)
  with ca(1) c show ?thesis
    by (auto simp: slots_remove_def slot_at_def slot_in_range_def fun_eq_iff)
qed

interpretation slot_index: access_index slots_ok slot_in_range ra_conflicts
  slots_conflict slots_add slots_remove
  by unfold_locales (simp_all add: slots_ok_conflict slots_ok_add slots_ok_remove)


section \<open>Execution slots\<close>

definition live_at :: "records \<Rightarrow> nat \<Rightarrow> exec_record option" where
  "live_at rs n = (if n < length (rec_slots rs) then slot_record (rec_slots rs ! n) else None)"

definition records_ok :: "records \<Rightarrow> bool" where
  "records_ok rs \<longleftrightarrow> distinct (free rs)
     \<and> (\<forall>n \<in> set (free rs). n < length (rec_slots rs) \<and> live_at rs n = None)"

definition held_by :: "exec_record option \<Rightarrow> resolved_access multiset" where
  "held_by o' = (case o' of None \<Rightarrow> {#} | Some rc \<Rightarrow> mset (rec_accesses rc))"

definition live_accesses :: "records \<Rightarrow> resolved_access multiset" where
  "live_accesses rs = sum_list (map (\<lambda>sl. held_by (slot_record sl)) (rec_slots rs))"

text \<open>
  An id is retired when its slot has moved past the id's generation, or when the slot
  stopped at the last generation and can never be handed out again.
\<close>

definition retired :: "records \<Rightarrow> run_id \<Rightarrow> bool" where
  "retired rs i \<longleftrightarrow> run_slot i < length (rec_slots rs) \<and>
     (let sl = rec_slots rs ! run_slot i in
      unat (run_generation i) < unat (slot_generation sl)
      \<or> (run_generation i = slot_generation sl \<and> slot_record sl = None \<and> run_slot i \<notin> set (free rs)))"

lemma records_get_live: "records_get rs i = Some rc \<Longrightarrow> live_at rs (run_slot i) = Some rc"
  by (auto simp: records_get_def live_at_def Let_def split: if_splits)

lemma live_get:
  "live_at rs n = Some rc \<Longrightarrow>
     records_get rs \<lparr>run_slot = n, run_generation = slot_generation (rec_slots rs ! n)\<rparr> = Some rc"
  by (auto simp: records_get_def live_at_def split: if_splits)

lemma records_get_inj:
  "records_get rs i = Some rc \<Longrightarrow> records_get rs j = Some rc' \<Longrightarrow> run_slot i = run_slot j \<Longrightarrow> i = j"
  by (auto simp: records_get_def Let_def split: if_splits intro: run_id.equality)

lemma retired_not_live: "retired rs i \<Longrightarrow> records_get rs i = None"
  by (auto simp: retired_def records_get_def Let_def)

lemma in_live_accesses:
  "a \<in># live_accesses rs \<longleftrightarrow> (\<exists>n rc. live_at rs n = Some rc \<and> a \<in> set (rec_accesses rc))"
proof
  assume "a \<in># live_accesses rs"
  then obtain sl where "sl \<in> set (rec_slots rs)" "a \<in># held_by (slot_record sl)"
    by (auto simp: live_accesses_def sum_list_mset_member)
  then obtain n where "n < length (rec_slots rs)" "a \<in># held_by (live_at rs n)"
    by (auto simp: in_set_conv_nth live_at_def)
  then show "\<exists>n rc. live_at rs n = Some rc \<and> a \<in> set (rec_accesses rc)"
    by (auto simp: held_by_def split: option.splits)
next
  assume "\<exists>n rc. live_at rs n = Some rc \<and> a \<in> set (rec_accesses rc)"
  then show "a \<in># live_accesses rs"
    by (force simp: live_accesses_def sum_list_mset_member held_by_def live_at_def in_set_conv_nth
        split: if_splits)
qed

subsection \<open>Filling and emptying a slot\<close>

lemma records_insert_cases:
  assumes "records_insert rc rs = Some (rs', i)" and "records_ok rs"
  obtains sl where
    "free rs = run_slot i # free rs'" "run_slot i < length (rec_slots rs)"
    "sl = rec_slots rs ! run_slot i" "slot_record sl = None" "run_generation i = slot_generation sl"
    "rec_slots rs' = (rec_slots rs)[run_slot i := sl\<lparr>slot_record := Some rc\<rparr>]"
  | "free rs = []" "free rs' = []" "run_slot i = length (rec_slots rs)" "run_generation i = 0"
    "fits_u32 (length (rec_slots rs))"
    "rec_slots rs' = rec_slots rs @ [\<lparr>slot_generation = 0, slot_record = Some rc\<rparr>]"
proof (cases "free rs")
  case Nil
  with assms(1) show ?thesis
    by (intro that(2)) (auto simp: records_insert_def Let_def split: if_splits)
next
  case (Cons n ns)
  with assms show ?thesis
    by (intro that(1) [where sl = "rec_slots rs ! n"])
       (auto simp: records_insert_def records_ok_def live_at_def Let_def split: if_splits)
qed

lemma records_insert_live:
  assumes "records_insert rc rs = Some (rs', i)" and "records_ok rs"
  shows "live_at rs' n = (if n = run_slot i then Some rc else live_at rs n)"
    and "live_at rs (run_slot i) = None"
    and "records_get rs' i = Some rc"
  by (rule records_insert_cases [OF assms];
      auto simp: live_at_def records_get_def nth_list_update nth_append)+

lemma records_insert_ok:
  assumes "records_insert rc rs = Some (rs', i)" and "records_ok rs"
  shows "records_ok rs'"
  using assms(2)
  by (rule_tac records_insert_cases [OF assms])
     (auto simp: records_ok_def live_at_def nth_list_update)

lemma records_insert_held:
  assumes "records_insert rc rs = Some (rs', i)" and "records_ok rs"
  shows "live_accesses rs' = live_accesses rs + mset (rec_accesses rc)"
proof (rule records_insert_cases [OF assms])
  fix sl
  assume sl: "run_slot i < length (rec_slots rs)" "sl = rec_slots rs ! run_slot i"
    "slot_record sl = None"
    "rec_slots rs' = (rec_slots rs)[run_slot i := sl\<lparr>slot_record := Some rc\<rparr>]"
  let ?xs = "map (\<lambda>sl. held_by (slot_record sl)) (rec_slots rs)"
  have "sum_list (?xs[run_slot i := mset (rec_accesses rc)]) = sum_list ?xs + mset (rec_accesses rc)"
    by (rule sum_list_mset_update_empty) (use sl in \<open>auto simp: held_by_def\<close>)
  with sl show ?thesis by (simp add: live_accesses_def map_update held_by_def)
qed (simp add: live_accesses_def held_by_def)

lemma records_remove_cases:
  assumes "records_remove i rs = Some (rs', rc)"
  obtains sl where "run_slot i < length (rec_slots rs)" "sl = rec_slots rs ! run_slot i"
    "slot_generation sl = run_generation i" "slot_record sl = Some rc"
    "checked_inc32 (run_generation i) = None \<Longrightarrow> free rs' = free rs \<and>
       rec_slots rs' = (rec_slots rs)[run_slot i := sl\<lparr>slot_record := None\<rparr>]"
    "\<And>g. checked_inc32 (run_generation i) = Some g \<Longrightarrow> free rs' = run_slot i # free rs \<and>
       rec_slots rs' = (rec_slots rs)[run_slot i := \<lparr>slot_generation = g, slot_record = None\<rparr>]"
  using assms
  by (auto simp: records_remove_def Let_def split: if_splits option.splits)

lemma records_remove_live:
  assumes "records_remove i rs = Some (rs', rc)"
  shows "live_at rs' n = (if n = run_slot i then None else live_at rs n)"
    and "records_get rs i = Some rc"
  by (rule records_remove_cases [OF assms];
      cases "checked_inc32 (run_generation i)";
      auto simp: live_at_def records_get_def nth_list_update)+

lemma records_remove_None: "records_remove i rs = None \<longleftrightarrow> records_get rs i = None"
  by (auto simp: records_remove_def records_get_def Let_def split: option.splits)

lemma records_remove_ok:
  assumes "records_remove i rs = Some (rs', rc)" and "records_ok rs"
  shows "records_ok rs'"
  using assms(2)
  by (rule_tac records_remove_cases [OF assms(1)], cases "checked_inc32 (run_generation i)")
     (auto simp: records_ok_def live_at_def nth_list_update)

lemma records_remove_held:
  assumes "records_remove i rs = Some (rs', rc)"
  shows "live_accesses rs = live_accesses rs' + mset (rec_accesses rc)"
proof (rule records_remove_cases [OF assms])
  fix sl
  assume sl: "run_slot i < length (rec_slots rs)" "sl = rec_slots rs ! run_slot i"
      "slot_record sl = Some rc"
    and none: "checked_inc32 (run_generation i) = None \<Longrightarrow> free rs' = free rs \<and>
       rec_slots rs' = (rec_slots rs)[run_slot i := sl\<lparr>slot_record := None\<rparr>]"
    and some: "\<And>g. checked_inc32 (run_generation i) = Some g \<Longrightarrow> free rs' = run_slot i # free rs \<and>
       rec_slots rs' = (rec_slots rs)[run_slot i := \<lparr>slot_generation = g, slot_record = None\<rparr>]"
  let ?xs = "map (\<lambda>sl. held_by (slot_record sl)) (rec_slots rs)"
  have "sum_list ?xs = sum_list (?xs[run_slot i := {#}]) + ?xs ! run_slot i"
    by (rule sum_list_mset_clear) (use sl in simp)
  with sl none some show ?thesis
    by (cases "checked_inc32 (run_generation i)")
       (auto simp: live_accesses_def map_update held_by_def)
qed

subsection \<open>Retired ids stay retired\<close>

lemma records_insert_retired:
  assumes "records_insert rc rs = Some (rs', i)" and "records_ok rs" and "retired rs j"
  shows "retired rs' j"
  using assms(2,3)
  by (rule_tac records_insert_cases [OF assms(1,2)])
     (auto simp: retired_def Let_def nth_list_update nth_append)

lemma records_remove_retired:
  assumes "records_remove i rs = Some (rs', rc)" and "retired rs j"
  shows "retired rs' j"
  using assms(2)
  by (rule_tac records_remove_cases [OF assms(1)], cases "checked_inc32 (run_generation i)")
     (auto simp: retired_def Let_def nth_list_update dest: checked_inc32_Some)

lemma records_remove_retires:
  assumes "records_remove i rs = Some (rs', rc)" and "records_ok rs"
  shows "retired rs' i"
  using assms(2)
  by (rule_tac records_remove_cases [OF assms(1)], cases "checked_inc32 (run_generation i)")
     (auto simp: retired_def Let_def records_ok_def live_at_def dest: checked_inc32_Some)


section \<open>Resolving component types to slots\<close>

definition slot_table_ok :: "components \<Rightarrow> bool" where
  "slot_table_ok cs \<longleftrightarrow>
     (\<forall>ty s. slot_of cs ty = Some s \<longrightarrow> s < length (slots cs))
     \<and> (\<forall>ty ty' s. slot_of cs ty = Some s \<longrightarrow> slot_of cs ty' = Some s \<longrightarrow> ty = ty')"

definition resolved_as :: "components \<Rightarrow> access \<Rightarrow> resolved_access \<Rightarrow> bool" where
  "resolved_as cs a ra \<longleftrightarrow> slot_of cs (acc_component a) = Some (ra_component ra)
     \<and> ra_entity ra = acc_entity a \<and> ra_kind ra = acc_kind a"

text \<open>The table only grows, and a new type gets a slot past the old end.\<close>

definition table_le :: "components \<Rightarrow> components \<Rightarrow> bool" where
  "table_le cs cs' \<longleftrightarrow> length (slots cs) \<le> length (slots cs')
     \<and> (\<forall>ty. slot_of cs ty = slot_of cs' ty
          \<or> (slot_of cs ty = None \<and> (\<exists>s \<ge> length (slots cs). slot_of cs' ty = Some s)))"

lemma table_le_refl [simp]: "table_le cs cs"
  by (simp add: table_le_def)

lemma table_le_trans:
  assumes "table_le a b" and "table_le b c"
  shows "table_le a c"
proof -
  have "slot_of a ty = slot_of c ty \<or>
      (slot_of a ty = None \<and> (\<exists>s \<ge> length (slots a). slot_of c ty = Some s))" for ty
    using assms unfolding table_le_def by (metis order_trans)
  with assms show ?thesis by (auto simp: table_le_def)
qed

lemma resolved_as_mono: "table_le cs cs' \<Longrightarrow> resolved_as cs a ra \<Longrightarrow> resolved_as cs' a ra"
  by (auto simp: table_le_def resolved_as_def) (metis option.distinct(1))

lemma resolved_as_cong: "slot_of cs' = slot_of cs \<Longrightarrow> resolved_as cs' = resolved_as cs"
  by (simp add: resolved_as_def fun_eq_iff)

lemma resolved_conflict_iff:
  assumes "slot_table_ok cs" and "resolved_as cs a ra" and "resolved_as cs b rb"
  shows "ra_conflicts ra rb \<longleftrightarrow> access_conflicts a b"
  using assms
  by (auto simp: slot_table_ok_def resolved_as_def ra_conflicts_def ra_overlap_def
      access_conflicts_def)

lemma component_default_ok: "component_ok component_access_default {#}"
  by (simp add: component_ok_def component_access_default_def row_entry_def)

lemma slots_ok_extend:
  assumes "slots_ok ss M"
  shows "slots_ok (ss @ [component_access_default]) M"
proof -
  have empty: "{#a \<in># M. ra_component a = length ss#} = {#}"
    using assms by (auto simp: slots_ok_def)
  have "component_ok component_access_default {#a \<in># M. ra_component a = length ss#}"
    unfolding empty by (rule component_default_ok)
  with assms show ?thesis
    by (auto simp: slots_ok_def nth_append less_Suc_eq)
qed

lemma resolve_spec:
  assumes "slot_table_ok cs" and "slots_ok (slots cs) M" and "resolve cs a = (cs', ra)"
  shows "slot_table_ok cs' \<and> slots_ok (slots cs') M \<and> resolved_as cs' a ra \<and> table_le cs cs'"
proof (cases "slot_of cs (acc_component a)")
  case None
  then have eq: "cs' = cs\<lparr>slots := slots cs @ [component_access_default],
      extra := AList.update (acc_component a) (length (slots cs)) (extra cs)\<rparr>"
    "ra = \<lparr>ra_component = length (slots cs), ra_entity = acc_entity a, ra_kind = acc_kind a\<rparr>"
    using assms(3) by (auto simp: resolve_def slot_of_def Let_def split: option.splits)
  have slot: "slot_of cs' ty =
      (if ty = acc_component a then Some (length (slots cs)) else slot_of cs ty)" for ty
    using None by (auto simp: eq slot_of_def alist_simps split: option.splits)
  have len: "slots cs' = slots cs @ [component_access_default]" by (simp add: eq(1))
  have "slot_table_ok cs'"
    using assms(1) unfolding slot_table_ok_def slot len by (auto simp: less_Suc_eq)
  moreover have "resolved_as cs' a ra"
    unfolding resolved_as_def slot by (simp add: eq(2))
  moreover have "table_le cs cs'"
    using None unfolding table_le_def slot len by auto
  ultimately show ?thesis using slots_ok_extend [OF assms(2)] len by simp
next
  case (Some s)
  then show ?thesis
    using assms by (auto simp: resolve_def slot_of_def resolved_as_def split: option.splits)
qed

lemma resolve_all_spec:
  assumes "slot_table_ok cs" and "slots_ok (slots cs) M" and "resolve_all cs as = (cs', ras)"
  shows "slot_table_ok cs' \<and> slots_ok (slots cs') M \<and> list_all2 (resolved_as cs') as ras
    \<and> table_le cs cs'"
  using assms
proof (induction as arbitrary: cs ras)
  case Nil
  then show ?case by simp
next
  case (Cons a as)
  obtain c1 r1 where r1: "resolve cs a = (c1, r1)" by fastforce
  obtain rs1 where rs1: "resolve_all c1 as = (cs', rs1)" "ras = r1 # rs1"
    using Cons.prems(3) r1 by (auto split: prod.splits)
  note step = resolve_spec [OF Cons.prems(1,2) r1]
  note rest = Cons.IH [OF _ _ rs1(1)]
  from step rest show ?case
    by (auto simp: rs1(2) intro: table_le_trans resolved_as_mono)
qed

lemma any_conflict_spec:
  assumes "slots_ok ss M" and "\<forall>a \<in> set as. slot_in_range ss a"
  shows "any_conflict ss as = Some (\<exists>a \<in> set as. \<exists>b \<in># M. ra_conflicts a b)"
  using assms by (induction as) (auto simp: slot_index.conflict_iff)

section \<open>The invariant of the reservations\<close>

definition writer_flags_ok :: "records \<Rightarrow> bool" where
  "writer_flags_ok rs \<longleftrightarrow> (\<forall>n rc. live_at rs n = Some rc \<longrightarrow>
     rec_writer rc = (\<exists>a \<in> set (rec_accesses rc). ra_kind a = Write))"

definition exclusive_runs :: "records \<Rightarrow> bool" where
  "exclusive_runs rs \<longleftrightarrow> (\<forall>n m rc rc'. live_at rs n = Some rc \<longrightarrow> live_at rs m = Some rc' \<longrightarrow>
     n \<noteq> m \<longrightarrow> (\<forall>a \<in> set (rec_accesses rc). \<forall>b \<in> set (rec_accesses rc'). \<not> ra_conflicts a b))"

definition owners_ok :: "(system_invocation \<times> run_id) list \<Rightarrow> records \<Rightarrow> bool" where
  "owners_ok os rs \<longleftrightarrow> (\<forall>ow i. map_of os ow = Some i \<longleftrightarrow>
     (\<exists>rc. records_get rs i = Some rc \<and> rec_owner rc = ow))"

lemma writer_flags_mono:
  "writer_flags_ok rs \<Longrightarrow> (\<And>n rc. live_at rs' n = Some rc \<Longrightarrow> live_at rs n = Some rc) \<Longrightarrow>
     writer_flags_ok rs'"
  unfolding writer_flags_ok_def by meson

lemma exclusive_runs_mono:
  "exclusive_runs rs \<Longrightarrow> (\<And>n rc. live_at rs' n = Some rc \<Longrightarrow> live_at rs n = Some rc) \<Longrightarrow>
     exclusive_runs rs'"
  unfolding exclusive_runs_def by meson

lemma exclusive_runsD:
  "exclusive_runs rs \<Longrightarrow> live_at rs n = Some rc \<Longrightarrow> live_at rs m = Some rc' \<Longrightarrow> n \<noteq> m \<Longrightarrow>
     a \<in> set (rec_accesses rc) \<Longrightarrow> b \<in> set (rec_accesses rc') \<Longrightarrow> \<not> ra_conflicts a b"
  by (auto simp: exclusive_runs_def)

definition reservations_ok :: "reservations \<Rightarrow> bool" where
  "reservations_ok r \<longleftrightarrow>
     slot_table_ok (components r)
     \<and> slots_ok (slots (components r)) (live_accesses (records r))
     \<and> records_ok (records r)
     \<and> owners_ok (owners r) (records r)
     \<and> writer_flags_ok (records r)
     \<and> exclusive_runs (records r)"

lemmas reservations_parts = reservations_ok_def owners_ok_def writer_flags_ok_def exclusive_runs_def

text \<open>The component registry of a schema: dense, injective slot numbers.\<close>

definition registry_ok :: "(type_id \<times> nat) list \<Rightarrow> bool" where
  "registry_ok reg \<longleftrightarrow> distinct (map fst reg) \<and> distinct (map snd reg)
     \<and> (\<forall>s \<in> set (map snd reg). s < length reg)"

lemma reservations_new_dense:
  assumes inj: "\<And>ty ty' s. map_of sch ty = Some s \<Longrightarrow> map_of sch ty' = Some s \<Longrightarrow> ty = ty'"
    and range: "\<And>ty s. map_of sch ty = Some s \<Longrightarrow> s < length sch"
  shows "reservations_ok (reservations_new sch)"
  using inj range
  by (auto simp: reservations_parts reservations_new_def slot_table_ok_def slot_of_def
      slots_ok_def component_ok_def component_access_default_def row_entry_def records_ok_def
      records_default_def live_at_def live_accesses_def records_get_def split: option.splits)

lemma reservations_new_ok:
  assumes "registry_ok sch"
  shows "reservations_ok (reservations_new sch)"
proof (rule reservations_new_dense)
  show "map_of sch ty = Some s \<Longrightarrow> map_of sch ty' = Some s \<Longrightarrow> ty = ty'" for ty ty' s
    using assms
    by (metis (no_types, lifting) distinct_map inj_on_def map_of_SomeD old.prod.inject registry_ok_def
        snd_conv)
  show "map_of sch ty = Some s \<Longrightarrow> s < length sch" for ty s
    using assms by (force simp: registry_ok_def dest: map_of_SomeD)
qed

definition room :: "reservations \<Rightarrow> bool" where
  "room r \<longleftrightarrow> free (records r) \<noteq> [] \<or> fits_u32 (length (rec_slots (records r)))"

lemma records_insert_room:
  assumes "records_ok rs" and "free rs \<noteq> [] \<or> fits_u32 (length (rec_slots rs))"
  shows "\<exists>rs' i. records_insert rc rs = Some (rs', i)"
  using assms
  by (cases "free rs") (auto simp: records_insert_def records_ok_def Let_def)


subsection \<open>Admission\<close>

lemma list_all2_in_range:
  assumes "list_all2 (resolved_as cs) as ras" and "slot_table_ok cs"
  shows "\<forall>ra \<in> set ras. slot_in_range (slots cs) ra"
  using assms
  by (induction rule: list_all2_induct)
     (auto simp: resolved_as_def slot_table_ok_def slot_in_range_def)

text \<open>
  Past the duplicate check, admission resolves the accesses, and either every counter query is
  negative and the run is recorded, or a conflict is reported; nothing panics while the slot
  space lasts.
\<close>

lemma admit_new:
  assumes ok: "reservations_ok r" and new: "map_of (owners r) ow = None"
    and res: "resolve_all (components r) as = (cs, ras)"
  shows "(\<exists>a \<in> set ras. \<exists>b \<in># live_accesses (records r). ra_conflicts a b) \<Longrightarrow>
      admit ow as r = Some (r\<lparr>components := cs\<rparr>, Inl (Conflict ow))"
    and "\<not> (\<exists>a \<in> set ras. \<exists>b \<in># live_accesses (records r). ra_conflicts a b) \<Longrightarrow>
      \<exists>ss. slots_ok ss (live_accesses (records r) + mset ras) \<and> length ss = length (slots cs) \<and>
      admit ow as r = do {
        (recs, i) \<leftarrow> records_insert \<lparr>rec_owner = ow, rec_accesses = ras,
            rec_writer = (\<exists>a \<in> set ras. ra_kind a = Write)\<rparr> (records r);
        Some (r\<lparr>components := cs\<lparr>slots := ss\<rparr>, records := recs,
                owners := AList.update ow i (owners r)\<rparr>, Inr i) }"
proof -
  have cs: "slot_table_ok cs" "slots_ok (slots cs) (live_accesses (records r))"
    "list_all2 (resolved_as cs) as ras"
    using resolve_all_spec [OF _ _ res] ok by (auto simp: reservations_ok_def)
  note rng = list_all2_in_range [OF cs(3,1)]
  note any = any_conflict_spec [OF cs(2) rng]
  show "admit ow as r = Some (r\<lparr>components := cs\<rparr>, Inl (Conflict ow))"
    if "\<exists>a \<in> set ras. \<exists>b \<in># live_accesses (records r). ra_conflicts a b"
    using that new any by (simp add: admit_def res)
  assume "\<not> (\<exists>a \<in> set ras. \<exists>b \<in># live_accesses (records r). ra_conflicts a b)"
  then have none: "any_conflict (slots cs) ras = Some False" using any by simp
  obtain ss where ss: "fold_opt slots_add ras (slots cs) = Some ss"
    "slots_ok ss (live_accesses (records r) + mset ras)" "slot_in_range ss = slot_in_range (slots cs)"
    using slot_index.add_list [OF cs(2) rng] by blast
  have "length ss = length (slots cs)"
  proof -
    have "n < length ss \<longleftrightarrow> n < length (slots cs)" for n
      using fun_cong [OF ss(3), of "\<lparr>ra_component = n, ra_entity = None, ra_kind = Read\<rparr>"]
      by (simp add: slot_in_range_def)
    then show ?thesis by (metis nat_neq_iff)
  qed
  with ss none new show "\<exists>ss. slots_ok ss (live_accesses (records r) + mset ras) \<and>
      length ss = length (slots cs) \<and>
      admit ow as r = do {
        (recs, i) \<leftarrow> records_insert \<lparr>rec_owner = ow, rec_accesses = ras,
            rec_writer = (\<exists>a \<in> set ras. ra_kind a = Write)\<rparr> (records r);
        Some (r\<lparr>components := cs\<lparr>slots := ss\<rparr>, records := recs,
                owners := AList.update ow i (owners r)\<rparr>, Inr i) }"
    by (intro exI [of _ ss]) (simp add: admit_def res)
qed

lemma slot_of_cong:
  "schema cs' = schema cs \<Longrightarrow> extra cs' = extra cs \<Longrightarrow> slot_of cs' = slot_of cs"
  by (rule ext) (simp only: slot_of_def)

lemma slot_table_ok_cong:
  assumes "schema cs' = schema cs" and "extra cs' = extra cs"
    and "length (slots cs') = length (slots cs)" and "slot_table_ok cs"
  shows "slot_table_ok cs'"
  using assms(3,4) unfolding slot_table_ok_def slot_of_cong [OF assms(1,2)] by simp

lemma admit_accepts:
  assumes ok: "reservations_ok r" and adm: "admit ow as r = Some (r', Inr i)"
  obtains cs ras rc where
    "map_of (owners r) ow = None" "resolve_all (components r) as = (cs, ras)"
    "\<forall>a \<in> set ras. \<forall>b \<in># live_accesses (records r). \<not> ra_conflicts a b"
    "rc = \<lparr>rec_owner = ow, rec_accesses = ras, rec_writer = (\<exists>a \<in> set ras. ra_kind a = Write)\<rparr>"
    "records_insert rc (records r) = Some (records r', i)"
    "owners r' = AList.update ow i (owners r)"
    "schema (components r') = schema cs" "extra (components r') = extra cs"
    "length (slots (components r')) = length (slots cs)"
    "slots_ok (slots (components r')) (live_accesses (records r) + mset ras)"
proof -
  have new: "map_of (owners r) ow = None"
    using adm by (auto simp: admit_def split: if_splits)
  obtain cs ras where res: "resolve_all (components r) as = (cs, ras)" by fastforce
  have clear: "\<not> (\<exists>a \<in> set ras. \<exists>b \<in># live_accesses (records r). ra_conflicts a b)"
    using admit_new(1) [OF ok new res] adm by auto
  obtain ss where "slots_ok ss (live_accesses (records r) + mset ras)" "length ss = length (slots cs)"
    and eq: "admit ow as r = do {
        (recs, i) \<leftarrow> records_insert \<lparr>rec_owner = ow, rec_accesses = ras,
            rec_writer = (\<exists>a \<in> set ras. ra_kind a = Write)\<rparr> (records r);
        Some (r\<lparr>components := cs\<lparr>slots := ss\<rparr>, records := recs,
                owners := AList.update ow i (owners r)\<rparr>, Inr i) }"
    using admit_new(2) [OF ok new res clear] by blast
  with adm obtain recs where "records_insert \<lparr>rec_owner = ow, rec_accesses = ras,
      rec_writer = (\<exists>a \<in> set ras. ra_kind a = Write)\<rparr> (records r) = Some (recs, i)"
    "r' = r\<lparr>components := cs\<lparr>slots := ss\<rparr>, records := recs,
            owners := AList.update ow i (owners r)\<rparr>"
    by (auto split: Option.bind_splits)
  with \<open>slots_ok ss _\<close> \<open>length ss = _\<close> new res clear show thesis
    by (intro that) auto
qed

lemma admit_accepts_ok:
  assumes ok: "reservations_ok r" and adm: "admit ow as r = Some (r', Inr i)"
  shows "reservations_ok r'"
proof (rule admit_accepts [OF ok adm])
  fix cs ras rc
  assume a: "map_of (owners r) ow = None" "resolve_all (components r) as = (cs, ras)"
    "\<forall>a \<in> set ras. \<forall>b \<in># live_accesses (records r). \<not> ra_conflicts a b"
    "rc = \<lparr>rec_owner = ow, rec_accesses = ras, rec_writer = (\<exists>a \<in> set ras. ra_kind a = Write)\<rparr>"
    "records_insert rc (records r) = Some (records r', i)"
    "owners r' = AList.update ow i (owners r)"
    "schema (components r') = schema cs" "extra (components r') = extra cs"
    "length (slots (components r')) = length (slots cs)"
    "slots_ok (slots (components r')) (live_accesses (records r) + mset ras)"
  have rok: "records_ok (records r)" using ok by (simp add: reservations_ok_def)
  note live = records_insert_live [OF a(5) rok]
  have get: "records_get (records r') j = (if j = i then Some rc else records_get (records r) j)" for j
    by (rule records_insert_cases [OF a(5) rok])
       (auto simp: records_get_def nth_list_update nth_append intro: run_id.equality)
  have "slot_table_ok cs"
    using resolve_all_spec [OF _ _ a(2)] ok by (auto simp: reservations_ok_def)
  with a(7-9) have "slot_table_ok (components r')"
    by (rule slot_table_ok_cong)
  moreover have "live_accesses (records r') = live_accesses (records r) + mset ras"
    using records_insert_held [OF a(5) rok] a(4) by simp
  moreover have "owners_ok (owners r') (records r')"
    unfolding owners_ok_def
  proof (intro allI)
    fix ow' j
    have "records_get (records r) i = None"
      using live(2) records_get_live by (metis option.exhaust option.distinct(1))
    moreover have "map_of (owners r) ow' = Some j \<longleftrightarrow>
        (\<exists>rc. records_get (records r) j = Some rc \<and> rec_owner rc = ow')"
      using ok by (simp add: reservations_ok_def owners_ok_def)
    ultimately show "map_of (owners r') ow' = Some j \<longleftrightarrow>
        (\<exists>rc. records_get (records r') j = Some rc \<and> rec_owner rc = ow')"
      using a(1,4,6) get [of j] by (auto simp: alist_simps)
  qed
  moreover have "exclusive_runs (records r')"
    unfolding exclusive_runs_def
  proof (intro allI impI ballI)
    fix n m rc1 rc2 a b
    assume that: "live_at (records r') n = Some rc1" "live_at (records r') m = Some rc2" "n \<noteq> m"
      "a \<in> set (rec_accesses rc1)" "b \<in> set (rec_accesses rc2)"
    have old: "\<not> ra_conflicts x y \<and> \<not> ra_conflicts y x" if "x \<in> set ras"
      "live_at (records r) k = Some rc'" "y \<in> set (rec_accesses rc')" for x y k rc'
      using a(3) that in_live_accesses ra_conflicts_sym by blast
    have "exclusive_runs (records r)" using ok by (simp add: reservations_ok_def)
    from exclusive_runsD [OF this, of n rc1 m rc2 a b] show "\<not> ra_conflicts a b"
      using that live(1) a(4) old [of b n rc1 a] old [of a m rc2 b]
      by (auto split: if_splits)
  qed
  moreover have "writer_flags_ok (records r')"
    using ok live(1) a(4) by (auto simp: reservations_ok_def writer_flags_ok_def split: if_splits)
  ultimately show ?thesis
    using ok a(10) records_insert_ok [OF a(5) rok] by (simp add: reservations_ok_def)
qed

lemma admit_rejects_ok:
  assumes ok: "reservations_ok r" and adm: "admit ow as r = Some (r', Inl e)"
  shows "reservations_ok r' \<and> records r' = records r \<and> owners r' = owners r"
proof (cases "map_of (owners r) ow")
  case None
  obtain cs ras where res: "resolve_all (components r) as = (cs, ras)" by fastforce
  have "slot_table_ok cs \<and> slots_ok (slots cs) (live_accesses (records r))"
    using resolve_all_spec [OF _ _ res] ok by (auto simp: reservations_ok_def)
  moreover have "r' = r\<lparr>components := cs\<rparr>"
  proof (cases "\<exists>a \<in> set ras. \<exists>b \<in># live_accesses (records r). ra_conflicts a b")
    case True
    from admit_new(1) [OF ok None res this] adm show ?thesis by simp
  next
    case False
    from admit_new(2) [OF ok None res this] adm show ?thesis
      by (auto split: Option.bind_splits)
  qed
  ultimately show ?thesis using ok by (auto simp: reservations_ok_def)
next
  case (Some i)
  with adm ok show ?thesis by (auto simp: admit_def)
qed


subsection \<open>Completion and cancellation\<close>

lemma release_not_live:
  "records_get (records r) i = None \<Longrightarrow> release i r = Some (r, None)"
  by (simp add: release_def records_remove_None [THEN iffD2])

lemma release_live:
  assumes ok: "reservations_ok r" and get: "records_get (records r) i = Some rc"
  shows "\<exists>r'. release i r = Some (r', Some (rec_owner rc)) \<and> reservations_ok r'
    \<and> (\<forall>n. live_at (records r') n = (if n = run_slot i then None else live_at (records r) n))
    \<and> retired (records r') i \<and> slot_of (components r') = slot_of (components r)
    \<and> (\<forall>j. run_slot j \<noteq> run_slot i \<longrightarrow> records_get (records r') j = records_get (records r) j)"
proof -
  obtain recs rc' where rem: "records_remove i (records r) = Some (recs, rc')"
    using get records_remove_None [of i "records r"] by (cases "records_remove i (records r)") auto
  note live = records_remove_live [OF rem]
  have rc': "rc' = rc" using live(2) get by simp
  have rok: "records_ok (records r)" using ok by (simp add: reservations_ok_def)
  have "slots_ok (slots (components r)) (live_accesses recs + mset (rec_accesses rc))"
    using ok records_remove_held [OF rem] rc' by (simp add: reservations_ok_def)
  from slot_index.remove_list [OF this] obtain ss where
    ss: "fold_opt slots_remove (rec_accesses rc) (slots (components r)) = Some ss"
      "slots_ok ss (live_accesses recs)" "slot_in_range ss = slot_in_range (slots (components r))"
    by blast
  have len: "length ss = length (slots (components r))"
  proof -
    have "n < length ss \<longleftrightarrow> n < length (slots (components r))" for n
      using fun_cong [OF ss(3), of "\<lparr>ra_component = n, ra_entity = None, ra_kind = Read\<rparr>"]
      by (simp add: slot_in_range_def)
    then show ?thesis by (metis nat_neq_iff)
  qed
  define r' where "r' = r\<lparr>records := recs, owners := AList.delete (rec_owner rc) (owners r),
    components := (components r)\<lparr>slots := ss\<rparr>\<rparr>"
  have rel: "release i r = Some (r', Some (rec_owner rc))"
    using rem ss(1) rc' by (simp add: release_def r'_def)
  have slot: "slot_of (components r') = slot_of (components r)"
    unfolding r'_def by (rule slot_of_cong) simp_all
  have get': "records_get recs j = (if run_slot j = run_slot i then None else records_get (records r) j)"
    for j
  proof (cases "run_slot j = run_slot i")
    case True
    have "live_at recs (run_slot i) = None" using live(1) by simp
    with True records_get_live [of recs j] show ?thesis by (cases "records_get recs j") auto
  next
    case False
    then show ?thesis
      by (rule_tac records_remove_cases [OF rem], cases "checked_inc32 (run_generation i)")
         (auto simp: records_get_def nth_list_update)
  qed
  have own: "owners_ok (owners r') recs"
    unfolding owners_ok_def
  proof (intro allI)
    fix ow j
    have old: "map_of (owners r) ow = Some j \<longleftrightarrow>
        (\<exists>rc. records_get (records r) j = Some rc \<and> rec_owner rc = ow)" for ow j
      using ok by (simp add: reservations_ok_def owners_ok_def)
    have del: "map_of (owners r') ow = (if ow = rec_owner rc then None else map_of (owners r) ow)"
      by (simp add: r'_def alist_simps)
    show "map_of (owners r') ow = Some j \<longleftrightarrow>
        (\<exists>rc. records_get recs j = Some rc \<and> rec_owner rc = ow)"
    proof (cases "ow = rec_owner rc")
      case True
      have "j = i" if "records_get (records r) j = Some rc1" "rec_owner rc1 = rec_owner rc" for rc1
        using old [of "rec_owner rc" j] old [of "rec_owner rc" i] get that by simp
      with True del get' [of j] show ?thesis by auto
    next
      case False
      have "run_slot j \<noteq> run_slot i" if "records_get (records r) j = Some rc1" "rec_owner rc1 = ow"
        for rc1
        using records_get_inj [OF that(1) get] get that False by auto
      with False del old [of ow j] get' [of j] show ?thesis by auto
    qed
  qed
  have "slot_table_ok (components r')"
    by (rule slot_table_ok_cong [where cs = "components r"])
       (use ok len in \<open>auto simp: r'_def reservations_ok_def\<close>)
  moreover have sub: "\<And>n rc. live_at recs n = Some rc \<Longrightarrow> live_at (records r) n = Some rc"
    using live(1) by (simp split: if_splits)
  ultimately have "reservations_ok r'"
    using ok ss(2) records_remove_ok [OF rem rok] own
      writer_flags_mono [OF _ sub] exclusive_runs_mono [OF _ sub]
    by (simp add: reservations_ok_def r'_def)
  moreover have "records r' = recs" by (simp add: r'_def)
  ultimately show ?thesis
    using rel live(1) slot get' records_remove_retires [OF rem rok] by (intro exI [of _ r']) simp
qed

lemma release_ok:
  assumes "reservations_ok r" and "release i r = Some (r', o')"
  shows "reservations_ok r'"
  using assms release_not_live [of r i] release_live [OF assms(1), of i]
  by (cases "records_get (records r) i") auto

lemma release_retired:
  assumes "reservations_ok r" and "release i r = Some (r', o')" and "retired (records r) j"
  shows "retired (records r') j"
proof (cases "records_remove i (records r)")
  case None
  with assms show ?thesis by (simp add: release_def)
next
  case (Some p)
  then obtain recs rc where rem: "records_remove i (records r) = Some (recs, rc)" by (cases p) auto
  with assms(2) have "records r' = recs" by (auto simp: release_def split: Option.bind_splits)
  with records_remove_retired [OF rem assms(3)] show ?thesis by simp
qed

lemma release_all_live:
  assumes "reservations_ok r" and "distinct (map run_slot is)"
    and "\<forall>i \<in> set is. records_get (records r) i \<noteq> None"
  shows "\<exists>r'. release_all is r = Some r' \<and> reservations_ok r' \<and>
    (\<forall>n. live_at (records r') n =
       (if n \<in> run_slot ` set is then None else live_at (records r) n))"
  using assms
proof (induction "is" arbitrary: r)
  case Nil
  then show ?case by simp
next
  case (Cons i "is")
  obtain rc where "records_get (records r) i = Some rc" using Cons.prems(3) by auto
  from release_live [OF Cons.prems(1) this] obtain r1 where r1:
    "release i r = Some (r1, Some (rec_owner rc))" "reservations_ok r1"
    "\<forall>n. live_at (records r1) n = (if n = run_slot i then None else live_at (records r) n)"
    "\<forall>j. run_slot j \<noteq> run_slot i \<longrightarrow> records_get (records r1) j = records_get (records r) j"
    by blast
  have "\<forall>j \<in> set is. records_get (records r1) j \<noteq> None"
  proof
    fix j assume "j \<in> set is"
    then have "run_slot j \<in> run_slot ` set is" by (rule imageI)
    with Cons.prems(2) have "run_slot j \<noteq> run_slot i" by auto
    with r1(4) Cons.prems(3) \<open>j \<in> set is\<close> show "records_get (records r1) j \<noteq> None" by simp
  qed
  with Cons.IH [OF r1(2)] Cons.prems(2) obtain r2 where r2: "release_all is r1 = Some r2"
    "reservations_ok r2"
    "\<forall>n. live_at (records r2) n =
       (if n \<in> run_slot ` set is then None else live_at (records r1) n)"
    by auto
  with r1 show ?case by auto
qed

lemma reader_ids_slots:
  "map run_slot (reader_ids r) =
     filter (\<lambda>n. case live_at (records r) n of None \<Rightarrow> False | Some rc \<Rightarrow> \<not> rec_writer rc)
       [0..<length (rec_slots (records r))]"
proof -
  have "map run_slot (concat (map (\<lambda>n. if P n then [\<lparr>run_slot = n, run_generation = g n\<rparr>] else []) ns))
      = filter P ns" for P :: "nat \<Rightarrow> bool" and g ns
    by (induction ns) auto
  moreover have "filter (\<lambda>n. case slot_record (rec_slots (records r) ! n) of
        None \<Rightarrow> False | Some rc \<Rightarrow> \<not> rec_writer rc) [0..<length (rec_slots (records r))]
     = filter (\<lambda>n. case live_at (records r) n of None \<Rightarrow> False | Some rc \<Rightarrow> \<not> rec_writer rc)
        [0..<length (rec_slots (records r))]"
    by (rule filter_cong) (auto simp: live_at_def)
  ultimately show ?thesis by (simp add: reader_ids_def)
qed

lemma reader_ids_live: "i \<in> set (reader_ids r) \<Longrightarrow> records_get (records r) i \<noteq> None"
  by (auto simp: reader_ids_def records_get_def split: option.splits if_splits)

lemma cancel_readers_live:
  assumes "reservations_ok r"
  shows "\<exists>r'. cancel_readers r = Some r' \<and> reservations_ok r' \<and>
    (\<forall>n. live_at (records r') n =
       (case live_at (records r) n of
          None \<Rightarrow> None | Some rc \<Rightarrow> if rec_writer rc then Some rc else None))"
proof -
  have "distinct (map run_slot (reader_ids r))"
    by (simp add: reader_ids_slots)
  from release_all_live [OF assms this] reader_ids_live obtain r' where
    r': "release_all (reader_ids r) r = Some r'" "reservations_ok r'"
      "\<forall>n. live_at (records r') n =
         (if n \<in> run_slot ` set (reader_ids r) then None else live_at (records r) n)"
    by blast
  have "run_slot ` set (reader_ids r) =
      {n. case live_at (records r) n of None \<Rightarrow> False | Some rc \<Rightarrow> \<not> rec_writer rc}"
    unfolding set_map [symmetric] reader_ids_slots
    by (auto simp: live_at_def split: option.splits if_splits)
  with r' show ?thesis by (auto simp: cancel_readers_def split: option.splits)
qed


text \<open>What is left after a completion and after a cancellation, by id.\<close>

lemma release_get:
  assumes "reservations_ok r" and "release i r = Some (r', o')"
  shows "records_get (records r') j = (if j = i then None else records_get (records r) j)"
proof (cases "records_get (records r) i")
  case None
  then show ?thesis using assms(2) by (simp add: release_not_live)
next
  case (Some rc)
  have r': "\<forall>n. live_at (records r') n = (if n = run_slot i then None else live_at (records r) n)"
    "\<forall>j. run_slot j \<noteq> run_slot i \<longrightarrow> records_get (records r') j = records_get (records r) j"
    using release_live [OF assms(1) Some] assms(2) by auto
  show ?thesis
  proof (cases "run_slot j = run_slot i")
    case True
    then have "records_get (records r') j = None" using r'(1) records_get_live by (metis not_None_eq option.distinct(1))
    moreover have "j \<noteq> i \<Longrightarrow> records_get (records r) j = None"
      using records_get_inj [OF Some _ True [symmetric]] by (cases "records_get (records r) j") auto
    ultimately show ?thesis by auto
  next
    case False
    then show ?thesis using r'(2) by auto
  qed
qed

lemma release_all_get:
  "release_all is r = Some r' \<Longrightarrow> reservations_ok r \<Longrightarrow>
    records_get (records r') j = (if j \<in> set is then None else records_get (records r) j)"
proof (induction "is" arbitrary: r)
  case (Cons i "is")
  then obtain r1 o' where r1: "release i r = Some (r1, o')" "release_all is r1 = Some r'" by (auto elim!: bind_SomeE)
  show ?case using Cons.IH [OF r1(2) release_ok [OF Cons.prems(2) r1(1)]] release_get [OF Cons.prems(2) r1(1)] by auto
qed simp

lemma reader_ids_iff: "i \<in> set (reader_ids r) \<longleftrightarrow> (\<exists>rc. records_get (records r) i = Some rc \<and> \<not> rec_writer rc)"
proof
  show "i \<in> set (reader_ids r) \<Longrightarrow> \<exists>rc. records_get (records r) i = Some rc \<and> \<not> rec_writer rc"
    by (auto simp: reader_ids_def records_get_def split: option.splits if_splits)
  assume "\<exists>rc. records_get (records r) i = Some rc \<and> \<not> rec_writer rc"
  then show "i \<in> set (reader_ids r)"
    by (auto simp: reader_ids_def records_get_def Let_def split: if_splits intro!: bexI [of _ "run_slot i"])
qed

lemma cancel_readers_get:
  assumes "cancel_readers r = Some r'" and "reservations_ok r"
  shows "records_get (records r') i = (case records_get (records r) i of None \<Rightarrow> None
    | Some rc \<Rightarrow> if rec_writer rc then Some rc else None)"
  using release_all_get [OF assms [unfolded cancel_readers_def], of i] reader_ids_iff [of i r] by (auto split: option.splits)

section \<open>A phase as a sequence of steps\<close>

text \<open>What one evaluator phase does with its reservations, in any order.\<close>

inductive res_step :: "reservations \<Rightarrow> reservations \<Rightarrow> bool" where
  admit_step: "admit ow as r = Some (r', res) \<Longrightarrow> res_step r r'"
| release_step: "release i r = Some (r', o') \<Longrightarrow> res_step r r'"
| cancel_step: "cancel_readers r = Some r' \<Longrightarrow> res_step r r'"

lemma admit_ok: "reservations_ok r \<Longrightarrow> admit ow as r = Some (r', res) \<Longrightarrow> reservations_ok r'"
  by (cases res) (auto dest: admit_accepts_ok admit_rejects_ok)

lemma cancel_readers_ok:
  "reservations_ok r \<Longrightarrow> cancel_readers r = Some r' \<Longrightarrow> reservations_ok r'"
  using cancel_readers_live [of r] by auto

lemma res_step_ok:
  assumes "res_step r r'" and "reservations_ok r"
  shows "reservations_ok r'"
  using assms
  by (cases rule: res_step.cases) (auto dest: admit_ok release_ok cancel_readers_ok)

lemma res_steps_ok: "res_step\<^sup>*\<^sup>* r r' \<Longrightarrow> reservations_ok r \<Longrightarrow> reservations_ok r'"
  by (induction rule: rtranclp_induct) (auto dest: res_step_ok)

lemma admit_retired:
  assumes ok: "reservations_ok r" and adm: "admit ow as r = Some (r', res)"
    and ret: "retired (records r) j"
  shows "retired (records r') j"
proof (cases res)
  case (Inl e)
  with admit_rejects_ok [OF ok] adm ret show ?thesis by simp
next
  case (Inr i)
  have rok: "records_ok (records r)" using ok by (simp add: reservations_ok_def)
  from adm Inr have "admit ow as r = Some (r', Inr i)" by simp
  then show ?thesis
    by (rule admit_accepts [OF ok]) (use records_insert_retired [OF _ rok ret] in blast)
qed

lemma release_all_retired:
  "release_all is r = Some r' \<Longrightarrow> reservations_ok r \<Longrightarrow> retired (records r) j \<Longrightarrow>
     retired (records r') j"
  by (induction "is" arbitrary: r)
     (auto split: Option.bind_splits dest: release_retired release_ok)

lemma res_step_retired:
  "res_step r r' \<Longrightarrow> reservations_ok r \<Longrightarrow> retired (records r) j \<Longrightarrow> retired (records r') j"
  by (induction rule: res_step.induct)
     (auto dest: admit_retired release_retired release_all_retired simp: cancel_readers_def)

lemma res_steps_retired:
  assumes "res_step\<^sup>*\<^sup>* r r'" and "reservations_ok r" and "retired (records r) j"
  shows "retired (records r') j"
  using assms
proof (induction rule: rtranclp_induct)
  case base
  then show ?case by simp
next
  case (step y z)
  then show ?case using res_step_retired res_steps_ok by blast
qed

section \<open>Properties\<close>

text \<open>The run \<open>i\<close> is in flight and was admitted with the accesses \<open>as\<close>.\<close>

definition running_with :: "reservations \<Rightarrow> run_id \<Rightarrow> access list \<Rightarrow> bool" where
  "running_with r i as \<longleftrightarrow> (case records_get (records r) i of
     None \<Rightarrow> False
   | Some rc \<Rightarrow> list_all2 (resolved_as (components r)) as (rec_accesses rc))"

text \<open>Some run in flight holds an access that conflicts with \<open>a\<close>.\<close>

definition conflicts_held :: "reservations \<Rightarrow> access \<Rightarrow> bool" where
  "conflicts_held r a \<longleftrightarrow> (\<exists>b \<in># live_accesses (records r).
     slot_of (components r) (acc_component a) = Some (ra_component b)
     \<and> (acc_kind a = Write \<or> ra_kind b = Write)
     \<and> rows_overlap (acc_entity a) (ra_entity b))"

lemma resolved_held_conflict:
  assumes ok: "reservations_ok r" and res: "resolve_all (components r) as = (cs, ras)"
  shows "(\<exists>ra \<in> set ras. \<exists>b \<in># live_accesses (records r). ra_conflicts ra b) \<longleftrightarrow>
    (\<exists>a \<in> set as. conflicts_held r a)"
proof -
  have spec: "list_all2 (resolved_as cs) as ras" "table_le (components r) cs"
    using resolve_all_spec [OF _ _ res] ok by (auto simp: reservations_ok_def)
  have eq: "(\<exists>b \<in># live_accesses (records r). ra_conflicts ra b) \<longleftrightarrow> conflicts_held r a"
    if "resolved_as cs a ra" for a ra
  proof -
    have "slot_of (components r) (acc_component a) = Some (ra_component b) \<longleftrightarrow>
        ra_component ra = ra_component b" if b: "b \<in># live_accesses (records r)" for b
    proof -
      have "ra_component b < length (slots (components r))"
        using ok b by (auto simp: reservations_ok_def slots_ok_def)
      moreover have "slot_of cs (acc_component a) = Some (ra_component ra)"
        using \<open>resolved_as cs a ra\<close> by (simp add: resolved_as_def)
      moreover have "slot_of (components r) (acc_component a) = slot_of cs (acc_component a)
          \<or> slot_of (components r) (acc_component a) = None
            \<and> (\<exists>s \<ge> length (slots (components r)). slot_of cs (acc_component a) = Some s)"
        using spec(2) by (simp add: table_le_def)
      ultimately show ?thesis by auto
    qed
    with that show ?thesis
      by (auto simp: conflicts_held_def ra_conflicts_def ra_overlap_def resolved_as_def)
  qed
  show ?thesis using spec(1)
    by (induction rule: list_all2_induct) (auto simp: eq)
qed

lemma running_exclusive:
  assumes ok: "reservations_ok r" and run: "running_with r i as" "running_with r j bs" and "i \<noteq> j"
    and mem: "a \<in> set as" "b \<in> set bs"
  shows "\<not> access_conflicts a b"
proof -
  obtain rc rc' where
    i: "records_get (records r) i = Some rc" "list_all2 (resolved_as (components r)) as (rec_accesses rc)"
    and j: "records_get (records r) j = Some rc'"
      "list_all2 (resolved_as (components r)) bs (rec_accesses rc')"
    using run by (auto simp: running_with_def split: option.splits)
  obtain ra where ra: "ra \<in> set (rec_accesses rc)" "resolved_as (components r) a ra"
    using i(2) mem(1) by (metis list_all2_conv_all_nth in_set_conv_nth)
  obtain rb where rb: "rb \<in> set (rec_accesses rc')" "resolved_as (components r) b rb"
    using j(2) mem(2) by (metis list_all2_conv_all_nth in_set_conv_nth)
  have "run_slot i \<noteq> run_slot j" using records_get_inj [OF i(1) j(1)] \<open>i \<noteq> j\<close> by blast
  then have "\<not> ra_conflicts ra rb"
    using ok records_get_live [OF i(1)] records_get_live [OF j(1)] ra(1) rb(1)
    by (auto simp: reservations_ok_def dest: exclusive_runsD)
  then show ?thesis
    using resolved_conflict_iff [OF _ ra(2) rb(2)] ok by (simp add: reservations_ok_def)
qed

text \<open>
  C1: Mutual exclusion of the scheduler. In every state a phase can reach, two different runs
  in flight never hold accesses that conflict under the pairwise rule: same component type, at
  least one a write, and the same row or a whole-store access.
\<close>

theorem running_never_conflict:
  assumes "registry_ok sch" and "res_step\<^sup>*\<^sup>* (reservations_new sch) r"
    and "running_with r i as" and "running_with r j bs" and "i \<noteq> j"
    and "a \<in> set as" and "b \<in> set bs"
  shows "\<not> access_conflicts a b"
  using running_exclusive [OF _ assms(3-7)] assms(1,2) by (blast intro: res_steps_ok reservations_new_ok)

text \<open>
  C2: Admission decides exactly. While execution slots last, admitting an invocation never
  panics; it reports a duplicate exactly when the invocation is in flight, a conflict exactly
  when some run in flight holds a conflicting access, and otherwise records the run with the
  requested accesses.
\<close>

theorem admit_decides:
  assumes ok: "reservations_ok r" and "room r"
  shows "case admit ow as r of
      None \<Rightarrow> False
    | Some (r', Inl Duplicate) \<Rightarrow> map_of (owners r) ow \<noteq> None \<and> r' = r
    | Some (r', Inl (Conflict ow')) \<Rightarrow> ow' = ow \<and> map_of (owners r) ow = None
        \<and> (\<exists>a \<in> set as. conflicts_held r a) \<and> records r' = records r
    | Some (r', Inr i) \<Rightarrow> map_of (owners r) ow = None \<and> (\<forall>a \<in> set as. \<not> conflicts_held r a)
        \<and> running_with r' i as \<and> \<not> contains r i
        \<and> is_writer r' i = Some (\<exists>a \<in> set as. acc_kind a = Write)"
proof (cases "map_of (owners r) ow")
  case (Some i)
  then show ?thesis by (simp add: admit_def)
next
  case None
  have rok: "records_ok (records r)" using ok by (simp add: reservations_ok_def)
  obtain cs ras where res: "resolve_all (components r) as = (cs, ras)" by fastforce
  note held = resolved_held_conflict [OF ok res]
  show ?thesis
  proof (cases "\<exists>a \<in> set as. conflicts_held r a")
    case True
    with admit_new(1) [OF ok None res] held None show ?thesis by simp
  next
    case False
    with held have "\<not> (\<exists>a \<in> set ras. \<exists>b \<in># live_accesses (records r). ra_conflicts a b)" by simp
    from admit_new(2) [OF ok None res this] records_insert_room [OF rok] assms(2)
    obtain r' i where adm: "admit ow as r = Some (r', Inr i)"
      by (fastforce simp: room_def split: Option.bind_splits)
    show ?thesis
    proof (rule admit_accepts [OF ok adm])
      fix cs' ras' rc
      assume a: "resolve_all (components r) as = (cs', ras')"
        "rc = \<lparr>rec_owner = ow, rec_accesses = ras', rec_writer = (\<exists>a \<in> set ras'. ra_kind a = Write)\<rparr>"
        "records_insert rc (records r) = Some (records r', i)"
        "schema (components r') = schema cs'" "extra (components r') = extra cs'"
      note live = records_insert_live [OF a(3) rok]
      have "list_all2 (resolved_as cs') as ras'"
        using resolve_all_spec [OF _ _ a(1)] ok by (auto simp: reservations_ok_def)
      moreover from this have "(\<exists>a \<in> set ras'. ra_kind a = Write) \<longleftrightarrow> (\<exists>a \<in> set as. acc_kind a = Write)"
        by (induction rule: list_all2_induct) (auto simp: resolved_as_def)
      moreover have "records_get (records r) i = None"
        using live(2) records_get_live by (metis not_None_eq option.distinct(1))
      ultimately show ?thesis
        using live(3) a(2) resolved_as_cong [OF slot_of_cong [OF a(4,5)]] None False adm
        by (simp add: running_with_def contains_def is_writer_def)
    qed
  qed
qed


text \<open>
  C3: Retired ids never come back. Once a run has completed and released its reservations, no
  later sequence of admissions, completions and cancellations makes its id live again, even
  when its slot is reused or its 32-bit generation runs out.
\<close>

theorem released_id_stays_dead:
  assumes "reservations_ok r" and "release i r = Some (r', Some ow)"
    and "res_step\<^sup>*\<^sup>* r' r''"
  shows "\<not> contains r'' i"
proof -
  obtain rc where "records_get (records r) i = Some rc"
    using assms(2) release_not_live [of r i] by (cases "records_get (records r) i") auto
  from release_live [OF assms(1) this] assms(2)
  have "reservations_ok r'" "retired (records r') i" by auto
  with res_steps_retired [OF assms(3)] show ?thesis
    by (simp add: contains_def retired_not_live)
qed

text \<open>
  Completion is exact. Releasing a run in flight never panics, returns its invocation, frees
  exactly that run and lets the same invocation be admitted again; releasing any other id
  changes nothing.
\<close>

theorem release_exact:
  assumes ok: "reservations_ok r"
  shows "case records_get (records r) i of
      None \<Rightarrow> release i r = Some (r, None)
    | Some rc \<Rightarrow> (\<exists>r'. release i r = Some (r', Some (rec_owner rc))
        \<and> reservations_ok r' \<and> map_of (owners r') (rec_owner rc) = None
        \<and> (\<forall>j. records_get (records r') j = (if j = i then None else records_get (records r) j)))"
proof (cases "records_get (records r) i")
  case None
  then show ?thesis by (simp add: release_not_live)
next
  case (Some rc)
  from release_live [OF ok Some] obtain r' where r': "release i r = Some (r', Some (rec_owner rc))"
    "reservations_ok r'" "retired (records r') i"
    "\<forall>n. live_at (records r') n = (if n = run_slot i then None else live_at (records r) n)"
    "\<forall>j. run_slot j \<noteq> run_slot i \<longrightarrow> records_get (records r') j = records_get (records r) j"
    by blast
  note get = release_get [OF ok r'(1)]
  have "map_of (owners r') (rec_owner rc) = None"
  proof (rule ccontr)
    assume "map_of (owners r') (rec_owner rc) \<noteq> None"
    then obtain j where j: "map_of (owners r') (rec_owner rc) = Some j" by auto
    then obtain rc' where "records_get (records r') j = Some rc'" "rec_owner rc' = rec_owner rc"
      using r'(2) by (auto simp: reservations_ok_def owners_ok_def)
    with get have "j \<noteq> i" "records_get (records r) j = Some rc'" by (auto split: if_splits)
    moreover have "map_of (owners r) (rec_owner rc) = Some i"
      and "map_of (owners r) (rec_owner rc) = Some j"
      using ok Some \<open>records_get (records r) j = Some rc'\<close> \<open>rec_owner rc' = rec_owner rc\<close>
      by (auto simp: reservations_ok_def owners_ok_def)
    ultimately show False by simp
  qed
  with r' get Some show ?thesis by auto
qed

text \<open>
  Cancellation at a preemption boundary never panics; it drops every read-only run in
  flight and keeps every run that holds a write access, with its record unchanged.
\<close>

theorem cancel_readers_keeps_writers:
  assumes "reservations_ok r"
  shows "\<exists>r'. cancel_readers r = Some r' \<and> reservations_ok r' \<and>
    (\<forall>n rc. live_at (records r') n = Some rc \<longleftrightarrow>
       live_at (records r) n = Some rc \<and> (\<exists>a \<in> set (rec_accesses rc). ra_kind a = Write))"
proof -
  obtain r' where r': "cancel_readers r = Some r'" "reservations_ok r'"
    "\<forall>n. live_at (records r') n = (case live_at (records r) n of
       None \<Rightarrow> None | Some rc \<Rightarrow> if rec_writer rc then Some rc else None)"
    using cancel_readers_live [OF assms] by blast
  have "live_at (records r) n = Some rc \<Longrightarrow>
      rec_writer rc = (\<exists>a \<in> set (rec_accesses rc). ra_kind a = Write)" for n rc
    using assms by (simp add: reservations_ok_def writer_flags_ok_def)
  with r' show ?thesis by (auto split: option.splits)
qed

subsection \<open>Witnesses\<close>

text \<open>
  One component type in the schema, one outside it: two readers of row 3 run together, a
  writer of row 3 is turned away until they are gone, and a writer of row 4 is admitted.
\<close>

definition demo_inv :: "nat \<Rightarrow> system_invocation" where
  "demo_inv n = \<lparr>inv_system = 0, inv_keys = [n]\<rparr>"

definition demo_r0 :: reservations where
  "demo_r0 = reservations_new [(UserTy 0, 0)]"

definition demo_r1 :: reservations where
  "demo_r1 = fst (the (admit (demo_inv 1) [access_read (UserTy 0) 3, access_write (UserTy 9) 1] demo_r0))"

definition demo_r2 :: reservations where
  "demo_r2 = fst (the (admit (demo_inv 2) [access_read (UserTy 0) 3] demo_r1))"

definition demo_id :: "nat \<Rightarrow> run_id" where
  "demo_id n = \<lparr>run_slot = n, run_generation = 0\<rparr>"

lemma demo_admit1:
  "admit (demo_inv 1) [access_read (UserTy 0) 3, access_write (UserTy 9) 1] demo_r0
     = Some (demo_r1, Inr (demo_id 0))"
  by code_simp

lemma demo_admit2:
  "admit (demo_inv 2) [access_read (UserTy 0) 3] demo_r1 = Some (demo_r2, Inr (demo_id 1))"
  by code_simp

lemma demo_reach: "res_step\<^sup>*\<^sup>* (reservations_new [(UserTy 0, 0)]) demo_r2"
proof -
  have "res_step demo_r0 demo_r1" "res_step demo_r1 demo_r2"
    using demo_admit1 demo_admit2 by (auto intro: res_step.admit_step)
  then show ?thesis by (auto simp: demo_r0_def)
qed

lemma demo_registry: "registry_ok [(UserTy 0, 0)]"
  by (simp add: registry_ok_def)

lemma demo_r2_ok: "reservations_ok demo_r2"
  by (rule res_steps_ok [OF demo_reach reservations_new_ok [OF demo_registry]])

lemma demo_running:
  "running_with demo_r2 (demo_id 0) [access_read (UserTy 0) 3, access_write (UserTy 9) 1]"
  "running_with demo_r2 (demo_id 1) [access_read (UserTy 0) 3]"
  by code_simp+

theorem running_never_conflict_witness:
  "\<not> access_conflicts (access_write (UserTy 9) 1) (access_read (UserTy 0) 3)
   \<and> demo_id 0 \<noteq> demo_id 1
   \<and> running_with demo_r2 (demo_id 0) [access_read (UserTy 0) 3, access_write (UserTy 9) 1]"
  using running_never_conflict [OF demo_registry demo_reach demo_running, of
      "access_write (UserTy 9) 1" "access_read (UserTy 0) 3"] demo_running(1)
  by (simp add: demo_id_def)

theorem admit_decides_witness:
  "(\<exists>r'. admit (demo_inv 3) [access_write (UserTy 0) 3] demo_r2
      = Some (r', Inl (Conflict (demo_inv 3)))) \<and> room demo_r2"
proof -
  have room: "room demo_r2" by code_simp
  have "case admit (demo_inv 3) [access_write (UserTy 0) 3] demo_r2 of
      Some (_, Inl (Conflict ow)) \<Rightarrow> True | _ \<Rightarrow> False"
    by code_simp
  with admit_decides [OF demo_r2_ok room, of "demo_inv 3" "[access_write (UserTy 0) 3]"] room
  show ?thesis by (auto split: option.splits sum.splits rejected.splits)
qed

theorem released_id_stays_dead_witness:
  "(case release (demo_id 0) demo_r2 of
      Some (r', Some ow) \<Rightarrow> ow = demo_inv 1 \<and> \<not> contains r' (demo_id 0) | _ \<Rightarrow> False)"
proof -
  have "map_option snd (release (demo_id 0) demo_r2) = Some (Some (demo_inv 1))"
    by code_simp
  then obtain r' where r': "release (demo_id 0) demo_r2 = Some (r', Some (demo_inv 1))"
    by (cases "release (demo_id 0) demo_r2") auto
  with released_id_stays_dead [OF demo_r2_ok r', of r'] show ?thesis by simp
qed

theorem release_exact_witness:
  "\<exists>r'. release (demo_id 1) demo_r2 = Some (r', Some (demo_inv 2))
     \<and> records_get (records r') (demo_id 0) \<noteq> None"
proof -
  have get: "map_option rec_owner (records_get (records demo_r2) (demo_id 1)) = Some (demo_inv 2)"
    "records_get (records demo_r2) (demo_id 0) \<noteq> None" "demo_id 0 \<noteq> demo_id 1"
    by code_simp+
  then obtain rc where rc: "records_get (records demo_r2) (demo_id 1) = Some rc"
    "rec_owner rc = demo_inv 2" by auto
  from release_exact [OF demo_r2_ok, of "demo_id 1"] rc get show ?thesis by auto
qed

theorem cancel_readers_keeps_writers_witness:
  "\<exists>r'. cancel_readers demo_r2 = Some r' \<and> live_at (records r') 0 \<noteq> None
     \<and> live_at (records r') 1 = None"
proof -
  obtain r' where r': "cancel_readers demo_r2 = Some r'"
    "\<forall>n rc. live_at (records r') n = Some rc \<longleftrightarrow> live_at (records demo_r2) n = Some rc
       \<and> (\<exists>a \<in> set (rec_accesses rc). ra_kind a = Write)"
    using cancel_readers_keeps_writers [OF demo_r2_ok] by blast
  have "case live_at (records demo_r2) 0 of None \<Rightarrow> False
      | Some rc \<Rightarrow> \<exists>a \<in> set (rec_accesses rc). ra_kind a = Write"
    "case live_at (records demo_r2) 1 of None \<Rightarrow> False
      | Some rc \<Rightarrow> \<not> (\<exists>a \<in> set (rec_accesses rc). ra_kind a = Write)"
    by code_simp+
  with r' show ?thesis
    by (cases "live_at (records r') 1") (auto split: option.splits)
qed

end
