(* ===== verification/Presence.thy ===== *)
theory Presence
  imports Prelude
begin

text \<open>
  Presence bitmaps over a schema-closed component universe (\<open>PresenceIndex\<close> of world.rs):
  one bit per entity and universe component, in a flat row-major vector of 64-bit words.
  The index is related to the set of present components by \<open>present\<close>; masks of required
  components are proved to select exactly the entities that carry all of them.
\<close>

unbundle bit_operations_syntax

section \<open>The index and its operations\<close>

record presence_index =
  bit_for :: "(type_id \<times> nat) list"
  stride :: nat
  bits :: "64 word list"

text \<open>Collecting pairs into a \<open>HashMap\<close>: a later pair with the same key wins.\<close>

definition collect_map :: "('k \<times> 'v) list \<Rightarrow> ('k \<times> 'v) list" where
  "collect_map ps = fold (\<lambda>(k, v). AList.update k v) ps []"

definition presence_new :: "type_id list \<Rightarrow> presence_index" where
  "presence_new universe =
     (let bf = collect_map (map (\<lambda>(i, ty). (ty, i)) (List.enumerate 0 universe)) in
      \<lparr>bit_for = bf, stride = max ((length bf + 63) div 64) 1, bits = []\<rparr>)"

definition flag :: "nat \<Rightarrow> 64 word" where
  "flag b = push_bit (b mod 64) 1"

definition presence_set :: "type_id \<Rightarrow> entity \<Rightarrow> bool \<Rightarrow> presence_index \<Rightarrow> presence_index" where
  "presence_set ty e present P =
     (case map_of (bit_for P) ty of
        None \<Rightarrow> P
      | Some b \<Rightarrow>
          let row = e * stride P in
          if length (bits P) < row + stride P \<and> \<not> present then P
          else
            let bs = bits P @ replicate (row + stride P - length (bits P)) 0;
                w = row + b div 64 in
            P\<lparr>bits := bs[w := if present then bs ! w OR flag b else bs ! w AND NOT (flag b)]\<rparr>)"

definition presence_clear_entity :: "entity \<Rightarrow> presence_index \<Rightarrow> presence_index" where
  "presence_clear_entity e P =
     (let row = e * stride P in
      if length (bits P) \<le> row then P
      else P\<lparr>bits := take row (bits P) @ replicate (stride P) 0 @ drop (row + stride P) (bits P)\<rparr>)"

fun presence_mask_from :: "presence_index \<Rightarrow> type_id list \<Rightarrow> 64 word list \<Rightarrow> 64 word list option" where
  "presence_mask_from P [] m = Some m"
| "presence_mask_from P (ty # tys) m = do {
     b \<leftarrow> map_of (bit_for P) ty;
     presence_mask_from P tys (m[b div 64 := m ! (b div 64) OR flag b]) }"

definition presence_mask :: "presence_index \<Rightarrow> type_id list \<Rightarrow> 64 word list option" where
  "presence_mask P tys = presence_mask_from P tys (replicate (stride P) 0)"

definition row_matches :: "64 word list \<Rightarrow> 64 word list \<Rightarrow> bool" where
  "row_matches m ws \<longleftrightarrow> list_all (\<lambda>(mw, bw). bw AND mw = mw) (zip m ws)"

definition presence_matches :: "presence_index \<Rightarrow> entity \<Rightarrow> 64 word list \<Rightarrow> bool" where
  "presence_matches P e m =
     (let row = e * stride P in
      if length (bits P) < row + stride P then list_all (\<lambda>w. w = 0) m
      else row_matches m (take (stride P) (drop row (bits P))))"

definition entities_matching :: "presence_index \<Rightarrow> 64 word list \<Rightarrow> entity list" where
  "entities_matching P m =
     filter (\<lambda>row. row_matches m (take (stride P) (drop (row * stride P) (bits P))))
       [0..<length (bits P) div stride P]"

section \<open>What the bits mean\<close>

definition in_universe :: "presence_index \<Rightarrow> type_id \<Rightarrow> bool" where
  "in_universe P ty \<longleftrightarrow> map_of (bit_for P) ty \<noteq> None"

definition present :: "presence_index \<Rightarrow> type_id \<Rightarrow> entity \<Rightarrow> bool" where
  "present P ty e = (case map_of (bit_for P) ty of
     None \<Rightarrow> False
   | Some b \<Rightarrow> (let w = e * stride P + b div 64 in
       w < length (bits P) \<and> bit (bits P ! w) (b mod 64)))"

definition presence_ok :: "presence_index \<Rightarrow> bool" where
  "presence_ok P \<longleftrightarrow> 0 < stride P \<and> stride P dvd length (bits P)
     \<and> (\<forall>ty b. map_of (bit_for P) ty = Some b \<longrightarrow> b < 64 * stride P)
     \<and> (\<forall>ty ty' b. map_of (bit_for P) ty = Some b \<longrightarrow> map_of (bit_for P) ty' = Some b \<longrightarrow> ty = ty')"

lemma presence_okD:
  assumes "presence_ok P"
  shows "0 < stride P" and "stride P dvd length (bits P)"
    and "map_of (bit_for P) ty = Some b \<Longrightarrow> b div 64 < stride P"
    and "map_of (bit_for P) ty = Some b \<Longrightarrow> map_of (bit_for P) ty' = Some b \<Longrightarrow> ty = ty'"
  using assms by (auto simp: presence_ok_def less_mult_imp_div_less mult.commute)

text \<open>
  What the world relies on when it keeps the index beside its stores: setting a bit and
  clearing an entity change exactly the components they name.
\<close>

locale presence_table =
  fixes ok :: "'p \<Rightarrow> bool"
    and univ :: "'p \<Rightarrow> type_id \<Rightarrow> bool"
    and has :: "'p \<Rightarrow> type_id \<Rightarrow> entity \<Rightarrow> bool"
    and set_bit :: "type_id \<Rightarrow> entity \<Rightarrow> bool \<Rightarrow> 'p \<Rightarrow> 'p"
    and clear :: "entity \<Rightarrow> 'p \<Rightarrow> 'p"
  assumes ok_set: "ok p \<Longrightarrow> ok (set_bit ty e b p)"
    and ok_clear: "ok p \<Longrightarrow> ok (clear e p)"
    and univ_set: "ok p \<Longrightarrow> univ (set_bit ty e b p) = univ p"
    and univ_clear: "ok p \<Longrightarrow> univ (clear e p) = univ p"
    and has_set: "ok p \<Longrightarrow> univ p ty \<Longrightarrow>
      has (set_bit ty e b p) ty' e' = (if ty' = ty \<and> e' = e then b else has p ty' e')"
    and set_outside: "ok p \<Longrightarrow> \<not> univ p ty \<Longrightarrow> set_bit ty e b p = p"
    and has_clear: "ok p \<Longrightarrow> has (clear e p) ty' e' = (e' \<noteq> e \<and> has p ty' e')"
    and has_univ: "ok p \<Longrightarrow> has p ty e \<Longrightarrow> univ p ty"
begin

text \<open>The index agrees with a set of stored components, as far as the universe reaches.\<close>

definition tracks :: "'p \<Rightarrow> (type_id \<Rightarrow> entity \<Rightarrow> bool) \<Rightarrow> bool" where
  "tracks p S \<longleftrightarrow> ok p \<and> (\<forall>ty e. univ p ty \<longrightarrow> has p ty e = S ty e)"

lemma tracks_set:
  assumes "tracks p S"
    and "\<And>ty' e'. S' ty' e' = (if ty' = ty \<and> e' = e then b else S ty' e')"
  shows "tracks (set_bit ty e b p) S'"
  using assms by (cases "univ p ty") (auto simp: tracks_def ok_set univ_set has_set set_outside)

lemma tracks_clear:
  assumes "tracks p S" and "\<And>ty' e'. S' ty' e' = (e' \<noteq> e \<and> S ty' e')"
  shows "tracks (clear e p) S'"
  using assms by (auto simp: tracks_def ok_clear univ_clear has_clear)

end

subsection \<open>Construction\<close>

lemma alist_update_fresh: "k \<notin> fst ` set xs \<Longrightarrow> AList.update k v xs = xs @ [(k, v)]"
  by (induction xs) auto

lemma collect_map_distinct: "distinct (map fst ps) \<Longrightarrow> collect_map ps = ps"
  by (induction ps rule: rev_induct) (auto simp: collect_map_def alist_update_fresh)

lemma map_of_enumerate_swap:
  assumes "distinct xs"
  shows "map_of (map (\<lambda>(i, x). (x, i)) (List.enumerate n xs)) x = Some i \<longleftrightarrow>
    n \<le> i \<and> i < n + length xs \<and> xs ! (i - n) = x"
  using assms
proof (induction xs arbitrary: n)
  case Nil
  then show ?case by simp
next
  case (Cons y ys)
  then show ?case by (auto simp: nth_Cons' Suc_le_eq)
qed

lemma presence_new_bit_for:
  assumes "distinct universe"
  shows "map_of (bit_for (presence_new universe)) ty = Some i \<longleftrightarrow>
    i < length universe \<and> universe ! i = ty"
    and "length (bit_for (presence_new universe)) = length universe"
    and "distinct (map fst (bit_for (presence_new universe)))"
    and "map snd (bit_for (presence_new universe)) = [0..<length universe]"
proof -
  let ?ps = "map (\<lambda>(i, ty). (ty, i)) (List.enumerate 0 universe)"
  have "map fst ?ps = universe" by (simp add: comp_def split_def)
  with assms have "collect_map ?ps = ?ps" by (simp add: collect_map_distinct)
  then have bf: "bit_for (presence_new universe) = ?ps" by (simp add: presence_new_def Let_def)
  show "map_of (bit_for (presence_new universe)) ty = Some i \<longleftrightarrow>
    i < length universe \<and> universe ! i = ty"
    unfolding bf using map_of_enumerate_swap [OF assms, of 0 ty i] by simp
  show "length (bit_for (presence_new universe)) = length universe" by (simp add: bf)
  show "distinct (map fst (bit_for (presence_new universe)))"
    unfolding bf \<open>map fst ?ps = universe\<close> by (rule assms)
  show "map snd (bit_for (presence_new universe)) = [0..<length universe]"
    by (simp add: bf comp_def split_def)
qed

lemma presence_new_list:
  assumes "distinct universe"
  shows "bit_for (presence_new universe) = map (\<lambda>(i, ty). (ty, i)) (List.enumerate 0 universe)"
proof -
  have "map fst (map (\<lambda>(i, ty). (ty, i)) (List.enumerate 0 universe)) = universe"
    by (simp add: comp_def split_def)
  with assms show ?thesis by (simp add: collect_map_distinct presence_new_def Let_def)
qed

lemma presence_new_ok:
  assumes "distinct universe"
  shows "presence_ok (presence_new universe)"
proof -
  note bf = presence_new_bit_for [OF assms]
  let ?P = "presence_new universe"
  have st: "stride ?P = max ((length universe + 63) div 64) 1"
    using bf(2) by (simp add: presence_new_def Let_def)
  have "length universe \<le> 64 * stride ?P" unfolding st by arith
  moreover have "bits ?P = []" by (simp add: presence_new_def Let_def)
  ultimately show ?thesis
    using bf(1) assms by (auto simp: presence_ok_def st nth_eq_iff_index_eq)
qed

lemma presence_new_empty: "\<not> present (presence_new universe) ty e"
  by (simp add: present_def presence_new_def Let_def split: option.splits)

subsection \<open>Row arithmetic\<close>

lemma row_index_inj:
  assumes "i < s" and "j < (s::nat)"
  shows "e * s + i = e' * s + j \<longleftrightarrow> e = e' \<and> i = j"
proof
  assume eq: "e * s + i = e' * s + j"
  have "e = (e * s + i) div s" using assms(1) by simp
  also have "\<dots> = e'" unfolding eq using assms(2) by simp
  finally show "e = e' \<and> i = j" using eq by simp
qed simp

lemma row_in_range:
  assumes "s dvd n" and "e * s + i < n" and "i < (s::nat)"
  shows "e * s + s \<le> n"
proof -
  obtain k where k: "n = s * k" using assms(1) by (elim dvdE)
  have "e * s + i < k * s" using assms(2) by (simp add: k mult.commute)
  then have "e * s < k * s" by (rule le_less_trans [rotated]) simp
  then have "Suc e \<le> k" by (simp add: Suc_leI)
  then have "Suc e * s \<le> k * s" by (rule mult_le_mono1)
  then show ?thesis by (simp add: k mult.commute add.commute)
qed

lemma bit_split_eq: "a div 64 = b div 64 \<Longrightarrow> a mod 64 = b mod 64 \<Longrightarrow> a = (b::nat)"
  by (metis div_mult_mod_eq)

lemma bit_flag: "n < 64 \<Longrightarrow> bit (flag b) n \<longleftrightarrow> n = b mod 64"
  by (auto simp: flag_def bit_push_bit_iff bit_1_iff bit_exp_iff)

subsection \<open>Setting and clearing\<close>

lemma presence_set_bit_for [simp]:
  "bit_for (presence_set ty e v P) = bit_for P" "stride (presence_set ty e v P) = stride P"
  by (simp_all add: presence_set_def Let_def split: option.splits)

lemma presence_clear_bit_for [simp]:
  "bit_for (presence_clear_entity e P) = bit_for P" "stride (presence_clear_entity e P) = stride P"
  by (simp_all add: presence_clear_entity_def Let_def)

lemma in_universe_set [simp]: "in_universe (presence_set ty e v P) = in_universe P"
  by (simp add: in_universe_def fun_eq_iff)

lemma in_universe_clear [simp]: "in_universe (presence_clear_entity e P) = in_universe P"
  by (simp add: in_universe_def fun_eq_iff)

lemma dvd_max_row:
  assumes "s dvd (n::nat)"
  shows "s dvd n + (e * s + s - n)"
proof (cases "n \<le> e * s + s")
  case True
  then show ?thesis by simp
qed (use assms in simp)

lemma presence_set_ok:
  assumes "presence_ok P"
  shows "presence_ok (presence_set ty e v P)"
  using assms dvd_max_row [of "stride P" "length (bits P)" e]
  by (auto simp: presence_ok_def) (auto simp: presence_set_def Let_def split: option.splits)

lemma presence_clear_ok:
  assumes "presence_ok P"
  shows "presence_ok (presence_clear_entity e P)"
proof (cases "length (bits P) \<le> e * stride P")
  case True
  with assms show ?thesis by (simp add: presence_clear_entity_def)
next
  case False
  then have "e * stride P + stride P \<le> length (bits P)"
    using row_in_range [of "stride P" "length (bits P)" e 0] presence_okD(1,2) [OF assms] by simp
  then have "length (bits (presence_clear_entity e P)) = length (bits P)"
    by (simp add: presence_clear_entity_def Let_def)
  with assms show ?thesis by (simp add: presence_ok_def)
qed


lemma present_set:
  assumes ok: "presence_ok P" and ty: "in_universe P ty"
  shows "present (presence_set ty e v P) ty' e' = (if ty' = ty \<and> e' = e then v else present P ty' e')"
proof -
  obtain b where b: "map_of (bit_for P) ty = Some b" using ty by (auto simp: in_universe_def)
  note bs = presence_okD(3) [OF ok]
  define bs' where "bs' = bits P @ replicate (e * stride P + stride P - length (bits P)) 0"
  define w where "w = e * stride P + b div 64"
  show ?thesis
  proof (cases "length (bits P) < e * stride P + stride P \<and> \<not> v")
    case True
    then have eq: "presence_set ty e v P = P" by (simp add: presence_set_def b)
    have "\<not> present P ty e"
    proof
      assume "present P ty e"
      then have "e * stride P + b div 64 < length (bits P)" by (simp add: present_def b Let_def)
      with row_in_range [OF presence_okD(2) [OF ok] this bs [OF b]] True show False by simp
    qed
    with eq True show ?thesis by simp
  next
    case False
    then have bits: "bits (presence_set ty e v P) =
        bs'[w := if v then bs' ! w OR flag b else bs' ! w AND NOT (flag b)]"
      by (simp only: presence_set_def b bs'_def w_def Let_def option.case if_False) simp
    have w: "w < length bs'" using bs [OF b] by (simp add: bs'_def w_def)
    have old: "present P t x \<longleftrightarrow> (case map_of (bit_for P) t of None \<Rightarrow> False
        | Some c \<Rightarrow> x * stride P + c div 64 < length bs' \<and> bit (bs' ! (x * stride P + c div 64)) (c mod 64))"
      for t x
      by (auto simp: present_def Let_def bs'_def nth_append split: option.splits)
    show ?thesis
    proof (cases "map_of (bit_for P) ty'")
      case None
      with b show ?thesis by (auto simp: present_def)
    next
      case (Some c)
      have same: "e' * stride P + c div 64 = w \<longleftrightarrow> e' = e \<and> c div 64 = b div 64"
        unfolding w_def using row_index_inj [OF bs [OF Some] bs [OF b]] by simp
      have inj: "ty' = ty \<longleftrightarrow> c = b" using presence_okD(4) [OF ok] b Some by auto
      have new: "present (presence_set ty e v P) ty' e' \<longleftrightarrow>
          e' * stride P + c div 64 < length bs' \<and>
          bit (bs'[w := if v then bs' ! w OR flag b else bs' ! w AND NOT (flag b)]
               ! (e' * stride P + c div 64)) (c mod 64)"
        by (simp only: present_def presence_set_bit_for Some option.case Let_def bits
            length_list_update)
      have oldc: "present P ty' e' \<longleftrightarrow> e' * stride P + c div 64 < length bs' \<and>
          bit (bs' ! (e' * stride P + c div 64)) (c mod 64)"
        by (simp only: old Some option.case)
      show ?thesis
      proof (cases "e' * stride P + c div 64 = w")
        case False
        then show ?thesis using same inj by (auto simp: new oldc)
      next
        case True
        have ee: "e' = e" and cd: "c div 64 = b div 64" using True same by auto
        have cb: "c = b \<longleftrightarrow> c mod 64 = b mod 64" using cd bit_split_eq by blast
        have or: "bit (bs' ! w OR flag b) (c mod 64) \<longleftrightarrow> bit (bs' ! w) (c mod 64) \<or> c = b"
          unfolding cb by (simp add: bit_or_iff bit_flag)
        have an: "bit (bs' ! w AND NOT (flag b)) (c mod 64) \<longleftrightarrow> bit (bs' ! w) (c mod 64) \<and> c \<noteq> b"
          unfolding cb by (simp add: bit_and_iff bit_not_iff bit_flag)
        have new': "present (presence_set ty e v P) ty' e' \<longleftrightarrow>
            (if v then bit (bs' ! w) (c mod 64) \<or> c = b else bit (bs' ! w) (c mod 64) \<and> c \<noteq> b)"
          unfolding new True nth_list_update_eq [OF w] using w or an by (cases v) simp_all
        have oldc': "present P ty' e' \<longleftrightarrow> bit (bs' ! w) (c mod 64)"
          unfolding oldc True using w by simp
        show ?thesis unfolding new' oldc' using inj ee by (cases v) auto
      qed
    qed
  qed
qed

lemma present_clear:
  assumes ok: "presence_ok P"
  shows "present (presence_clear_entity e P) ty' e' \<longleftrightarrow> e' \<noteq> e \<and> present P ty' e'"
proof (cases "map_of (bit_for P) ty'")
  case None
  then show ?thesis by (simp add: present_def)
next
  case (Some c)
  let ?s = "stride P" and ?w = "e' * stride P + c div 64"
  have c: "c div 64 < ?s" by (rule presence_okD(3) [OF ok Some])
  show ?thesis
  proof (cases "length (bits P) \<le> e * ?s")
    case True
    with Some show ?thesis by (auto simp: present_def presence_clear_entity_def Let_def)
  next
    case False
    then have row: "e * ?s + ?s \<le> length (bits P)"
      using row_in_range [of ?s "length (bits P)" e 0] presence_okD(1,2) [OF ok] by simp
    have inside: "e * ?s \<le> ?w \<and> ?w < e * ?s + ?s \<longleftrightarrow> e' = e"
    proof
      assume "e * ?s \<le> ?w \<and> ?w < e * ?s + ?s"
      then have "?w div ?s = e" by (intro div_nat_eqI) (auto simp: mult.commute)
      then show "e' = e" using c by simp
    qed (use c in simp)
    have "(take (e * ?s) (bits P) @ replicate ?s 0 @ drop (e * ?s + ?s) (bits P)) ! n =
        (if e * ?s \<le> n \<and> n < e * ?s + ?s then 0 else bits P ! n)" if "n < length (bits P)" for n
      using row that by (auto simp: nth_append)
    with inside row False Some show ?thesis
      by (auto simp: present_def presence_clear_entity_def Let_def split: if_splits)
  qed
qed

interpretation presence: presence_table presence_ok in_universe present presence_set
  presence_clear_entity
proof unfold_locales
  show "present (presence_set ty e b p) ty' e' = (if ty' = ty \<and> e' = e then b else present p ty' e')"
    if "presence_ok p" "in_universe p ty" for p ty e b ty' e'
    using that by (rule present_set)
  show "presence_set ty e b p = p" if "presence_ok p" "\<not> in_universe p ty" for p ty e b
    using that by (simp add: presence_set_def in_universe_def)
  show "in_universe p ty" if "presence_ok p" "present p ty e" for p ty e
    using that by (auto simp: present_def in_universe_def split: option.splits)
qed (simp_all add: presence_set_ok presence_clear_ok present_clear)


section \<open>Masks\<close>

text \<open>The bits of a mask word: those of the mask it extends and one per required component.\<close>

lemma presence_mask_from_bits:
  assumes "presence_ok P" and "length m = stride P" and "presence_mask_from P tys m = Some m'"
  shows "length m' = stride P"
    and "i < stride P \<Longrightarrow> n < 64 \<Longrightarrow> bit (m' ! i) n \<longleftrightarrow>
      bit (m ! i) n \<or> (\<exists>ty\<in>set tys. map_of (bit_for P) ty = Some (64 * i + n))"
proof -
  have "length m' = stride P \<and> (\<forall>i n. i < stride P \<longrightarrow> n < 64 \<longrightarrow> (bit (m' ! i) n \<longleftrightarrow>
      bit (m ! i) n \<or> (\<exists>ty\<in>set tys. map_of (bit_for P) ty = Some (64 * i + n))))"
    using assms(2,3)
  proof (induction tys arbitrary: m)
    case Nil
    then show ?case by simp
  next
    case (Cons ty tys)
    from Cons.prems(2) obtain b where b: "map_of (bit_for P) ty = Some b"
      and rest: "presence_mask_from P tys (m[b div 64 := m ! (b div 64) OR flag b]) = Some m'"
      by (auto split: Option.bind_splits)
    note bs = presence_okD(3) [OF assms(1) b]
    have step: "bit (m[b div 64 := m ! (b div 64) OR flag b] ! i) n \<longleftrightarrow>
        bit (m ! i) n \<or> b = 64 * i + n" if "i < stride P" "n < 64" for i n
    proof (cases "i = b div 64")
      case True
      have "n = b mod 64 \<longleftrightarrow> b = 64 * i + n" unfolding True using that(2) by arith
      then show ?thesis using True bs Cons.prems(1) that by (simp add: bit_or_iff bit_flag)
    next
      case False
      then have "b \<noteq> 64 * i + n" using that by auto
      then show ?thesis using False by simp
    qed
    have "length m' = stride P" using Cons.IH [OF _ rest] Cons.prems(1) by simp
    moreover have "bit (m' ! i) n \<longleftrightarrow>
      bit (m ! i) n \<or> (\<exists>t\<in>set (ty # tys). map_of (bit_for P) t = Some (64 * i + n))"
      if "i < stride P" "n < 64" for i n
      using Cons.IH [OF _ rest] Cons.prems(1) that b by (simp add: step)
    ultimately show ?case by blast
  qed
  then show "length m' = stride P"
    and "i < stride P \<Longrightarrow> n < 64 \<Longrightarrow> bit (m' ! i) n \<longleftrightarrow>
      bit (m ! i) n \<or> (\<exists>ty\<in>set tys. map_of (bit_for P) ty = Some (64 * i + n))"
    by blast+
qed

lemma presence_mask_bits:
  assumes "presence_ok P" and "presence_mask P tys = Some m"
  shows "length m = stride P"
    and "i < stride P \<Longrightarrow> n < 64 \<Longrightarrow> bit (m ! i) n \<longleftrightarrow>
      (\<exists>ty\<in>set tys. map_of (bit_for P) ty = Some (64 * i + n))"
  using presence_mask_from_bits [OF assms(1) _ assms(2) [unfolded presence_mask_def]] by simp_all

lemma presence_mask_universe:
  "presence_mask P tys = Some m \<Longrightarrow> ty \<in> set tys \<Longrightarrow> in_universe P ty"
proof -
  have "presence_mask_from P tys k = Some m \<Longrightarrow> ty \<in> set tys \<Longrightarrow> in_universe P ty" for k
    by (induction tys arbitrary: k) (auto simp: in_universe_def split: Option.bind_splits)
  then show "presence_mask P tys = Some m \<Longrightarrow> ty \<in> set tys \<Longrightarrow> in_universe P ty"
    by (simp add: presence_mask_def)
qed

lemma presence_mask_defined:
  "(\<exists>m. presence_mask P tys = Some m) \<longleftrightarrow> (\<forall>ty\<in>set tys. in_universe P ty)"
proof -
  have "(\<exists>m. presence_mask_from P tys k = Some m) \<longleftrightarrow> (\<forall>ty\<in>set tys. in_universe P ty)" for k
    by (induction tys arbitrary: k) (auto simp: in_universe_def split: Option.bind_splits)
  then show ?thesis by (simp add: presence_mask_def)
qed

lemma word_and_subset:
  "(bw AND mw = (mw :: 64 word)) \<longleftrightarrow> (\<forall>n<64. bit mw n \<longrightarrow> bit bw n)"
  by (simp add: bit_eq_iff bit_and_iff) (metis bit_imp_le_length len_num0 len_bit0 linorder_not_le
      numeral_times_numeral semiring_norm(13) mult_1_right bit_word.rep_eq)

lemma row_matches_iff:
  assumes "length m = s" and "length ws = s"
  shows "row_matches m ws \<longleftrightarrow> (\<forall>i n. i < s \<longrightarrow> n < 64 \<longrightarrow> bit (m ! i) n \<longrightarrow> bit (ws ! i) n)"
  using assms by (auto simp: row_matches_def list_all_length word_and_subset)


text \<open>A stored row carries a mask exactly when its entity carries every required component.\<close>

lemma row_matches_present:
  assumes ok: "presence_ok P" and m: "presence_mask P tys = Some m"
    and row: "e * stride P + stride P \<le> length (bits P)"
  shows "row_matches m (take (stride P) (drop (e * stride P) (bits P))) \<longleftrightarrow>
    (\<forall>ty\<in>set tys. present P ty e)"
proof -
  let ?ws = "take (stride P) (drop (e * stride P) (bits P))"
  have len: "length ?ws = stride P" using row by simp
  have nth: "?ws ! i = bits P ! (e * stride P + i)" if "i < stride P" for i using that row by simp
  note mb = presence_mask_bits [OF ok m]
  have at: "present P ty e \<longleftrightarrow> bit (bits P ! (e * stride P + b div 64)) (b mod 64)"
    if "map_of (bit_for P) ty = Some b" for ty b
    using that row presence_okD(3) [OF ok that] by (simp add: present_def Let_def)
  have "row_matches m ?ws \<longleftrightarrow> (\<forall>i n. i < stride P \<longrightarrow> n < 64 \<longrightarrow>
      (\<exists>ty\<in>set tys. map_of (bit_for P) ty = Some (64 * i + n)) \<longrightarrow>
      bit (bits P ! (e * stride P + i)) n)"
    unfolding row_matches_iff [OF mb(1) len] using row by (simp add: mb(2) nth_drop [of "e * stride P" "bits P"] cong: conj_cong)
  also have "\<dots> \<longleftrightarrow> (\<forall>ty\<in>set tys. present P ty e)"
  proof (intro iffI ballI allI impI)
    fix ty
    assume all: "\<forall>i n. i < stride P \<longrightarrow> n < 64 \<longrightarrow>
      (\<exists>ty\<in>set tys. map_of (bit_for P) ty = Some (64 * i + n)) \<longrightarrow>
      bit (bits P ! (e * stride P + i)) n" and ty: "ty \<in> set tys"
    obtain b where b: "map_of (bit_for P) ty = Some b"
      using presence_mask_universe [OF m ty] by (auto simp: in_universe_def)
    have "\<exists>t\<in>set tys. map_of (bit_for P) t = Some (64 * (b div 64) + b mod 64)"
      using ty b by (intro bexI [of _ ty]) simp_all
    then show "present P ty e" unfolding at [OF b] using all presence_okD(3) [OF ok b] by simp
  next
    fix i n :: nat
    assume all: "\<forall>ty\<in>set tys. present P ty e" and n: "n < 64"
      and "\<exists>ty\<in>set tys. map_of (bit_for P) ty = Some (64 * i + n)"
    then obtain ty where ty: "ty \<in> set tys" "map_of (bit_for P) ty = Some (64 * i + n)" by blast
    then show "bit (bits P ! (e * stride P + i)) n" using all at [OF ty(2)] n by simp
  qed
  finally show ?thesis .
qed

lemma present_row:
  assumes "presence_ok P" and "present P ty e"
  shows "e * stride P + stride P \<le> length (bits P)"
proof -
  from assms(2) obtain b where b: "map_of (bit_for P) ty = Some b"
    and "e * stride P + b div 64 < length (bits P)"
    by (auto simp: present_def Let_def split: option.splits)
  then show ?thesis
    using row_in_range presence_okD(2,3) [OF assms(1)] b by blast
qed

lemma mask_zero_iff:
  assumes ok: "presence_ok P" and m: "presence_mask P tys = Some m"
  shows "list_all (\<lambda>w. w = 0) m \<longleftrightarrow> tys = []"
proof (cases tys)
  case Nil
  with m show ?thesis by (auto simp: presence_mask_def list_all_iff)
next
  case (Cons ty tys')
  then obtain b where b: "map_of (bit_for P) ty = Some b"
    using presence_mask_universe [OF m, of ty] by (auto simp: in_universe_def)
  note mb = presence_mask_bits [OF ok m]
  have "bit (m ! (b div 64)) (b mod 64)"
    using mb(2) [of "b div 64" "b mod 64"] presence_okD(3) [OF ok b] b Cons by auto
  then have "m ! (b div 64) \<noteq> 0" by auto
  then show ?thesis using Cons mb(1) presence_okD(3) [OF ok b] by (auto simp: list_all_length)
qed

lemma presence_matches_iff:
  assumes "presence_ok P"
  shows "case presence_mask P tys of
      Some m \<Rightarrow> presence_matches P e m \<longleftrightarrow> (\<forall>ty\<in>set tys. present P ty e)
    | None \<Rightarrow> \<exists>ty\<in>set tys. \<not> in_universe P ty"
proof (cases "presence_mask P tys")
  case None
  then show ?thesis using presence_mask_defined [of P tys] by auto
next
  case m: (Some m)
  have "presence_matches P e m \<longleftrightarrow> (\<forall>ty\<in>set tys. present P ty e)"
  proof (cases "length (bits P) < e * stride P + stride P")
    case True
    then have "\<not> present P ty e" for ty using present_row [OF assms] by (meson linorder_not_le)
    moreover have "presence_matches P e m \<longleftrightarrow> tys = []"
      using True mask_zero_iff [OF assms m] by (simp add: presence_matches_def Let_def)
    ultimately show ?thesis by (cases tys) auto
  next
    case False
    then show ?thesis
      using row_matches_present [OF assms m, of e] by (simp add: presence_matches_def Let_def)
  qed
  then show ?thesis by (simp add: m)
qed

section \<open>Properties\<close>

text \<open>
  A presence mask selects exactly the entities that carry every required component:
  for every index that satisfies the layout invariant, testing an entity's row against the
  mask of a list of components answers whether all of them are present (entities that have
  no row yet included), and the mask is undefined exactly when a component lies outside the
  closed universe.
\<close>

theorem presence_matches_exact:
  assumes "presence_ok P"
  shows "case presence_mask P tys of
      Some m \<Rightarrow> presence_matches P e m \<longleftrightarrow> (\<forall>ty\<in>set tys. present P ty e)
    | None \<Rightarrow> \<exists>ty\<in>set tys. \<not> in_universe P ty"
  using presence_matches_iff [OF assms] .

theorem presence_matches_exact_witness:
  "let P = presence_set (UserTy 2) 3 True (presence_set (UserTy 1) 3 True
       (presence_new [UserTy 0, UserTy 1, UserTy 2]));
     m = [6] in
   presence_ok P \<and> presence_mask P [UserTy 1, UserTy 2] = Some m
     \<and> presence_matches P 3 m \<and> \<not> presence_matches P 2 m \<and> \<not> presence_matches P 9 m"
proof -
  let ?P = "presence_set (UserTy 2) 3 True (presence_set (UserTy 1) 3 True
       (presence_new [UserTy 0, UserTy 1, UserTy 2]))"
  have ok: "presence_ok ?P" by (intro presence_set_ok presence_new_ok) simp
  have m: "presence_mask ?P [UserTy 1, UserTy 2] = Some [6]" by code_simp
  have "present ?P (UserTy 1) 3" "present ?P (UserTy 2) 3" "\<not> present ?P (UserTy 1) 2"
    "\<not> present ?P (UserTy 1) 9" by code_simp+
  then show ?thesis using ok m presence_matches_exact [OF ok, of "[UserTy 1, UserTy 2]" 3]
      presence_matches_exact [OF ok, of "[UserTy 1, UserTy 2]" 2]
      presence_matches_exact [OF ok, of "[UserTy 1, UserTy 2]" 9] by (simp add: Let_def m)
qed

lemma entities_matching_spec:
  assumes "presence_ok P" and "presence_mask P tys = Some m" and "tys \<noteq> []"
  shows "set (entities_matching P m) = {e. \<forall>ty\<in>set tys. present P ty e}
    \<and> sorted_wrt (<) (entities_matching P m)"
proof (intro conjI set_eqI)
  have rows: "e < length (bits P) div stride P \<longleftrightarrow> e * stride P + stride P \<le> length (bits P)" for e
    using presence_okD(1) [OF assms(1)] by (metis Suc_le_eq add.commute less_eq_div_iff_mult_less_eq mult_Suc)
  fix e
  show "e \<in> set (entities_matching P m) \<longleftrightarrow> e \<in> {e. \<forall>ty\<in>set tys. present P ty e}"
  proof (cases "e < length (bits P) div stride P")
    case True
    then show ?thesis
      using row_matches_present [OF assms(1,2)] rows by (auto simp: entities_matching_def)
  next
    case False
    then have "\<not> present P ty e" for ty using present_row [OF assms(1)] rows by blast
    with False assms(3) show ?thesis by (cases tys) (auto simp: entities_matching_def)
  qed
next
  show "sorted_wrt (<) (entities_matching P m)"
    unfolding entities_matching_def by (intro sorted_wrt_filter) simp
qed

text \<open>
  Scanning the bitmap for a non-empty mask returns, in ascending order and without
  repetition, exactly the entities that carry every required component.
\<close>

theorem entities_matching_exact:
  assumes "presence_ok P" and "presence_mask P tys = Some m" and "tys \<noteq> []"
  shows "set (entities_matching P m) = {e. \<forall>ty\<in>set tys. present P ty e}
    \<and> sorted_wrt (<) (entities_matching P m)"
  by (rule entities_matching_spec [OF assms])

theorem entities_matching_exact_witness:
  "entities_matching (presence_set (UserTy 1) 4 True (presence_set (UserTy 1) 2 True
      (presence_new [UserTy 0, UserTy 1]))) [2] = [2, 4]
   \<and> {e. \<forall>ty\<in>set [UserTy 1]. present (presence_set (UserTy 1) 4 True
       (presence_set (UserTy 1) 2 True (presence_new [UserTy 0, UserTy 1]))) ty e} = {2, 4}"
proof -
  let ?P = "presence_set (UserTy 1) 4 True (presence_set (UserTy 1) 2 True
      (presence_new [UserTy 0, UserTy 1]))"
  have ok: "presence_ok ?P" by (intro presence_set_ok presence_new_ok) simp
  have m: "presence_mask ?P [UserTy 1] = Some [2]" by code_simp
  have "entities_matching ?P [2] = [2, 4]" by code_simp
  then show ?thesis using entities_matching_exact [OF ok m] by simp
qed

end
