(* ===== verification/Traits.thy ===== *)
theory Traits
  imports Prelude
begin

text \<open>
  Components as the engine sees them (component.rs): the values it stores, the trait methods
  it calls on them, and the \<open>DerivedFrom\<close> anchors with their captured revisions.

  A user component is a number; its Rust implementation of the \<open>Component\<close> and
  \<open>RelationshipTarget\<close> traits is the record \<open>component_trait\<close>, a parameter of every
  operation that calls a trait method.  The two component types the crate itself defines,
  \<open>DerivedFrom\<close> and \<open>Singleton<T>\<close>, are modelled outright.  Lifecycle hooks receive only an
  entity id, cannot reach the world, and have no counterpart here.
\<close>

section \<open>Values and trait methods\<close>

record derived_anchor =
  anchor_entity :: entity
  anchor_revision :: "nat option"

datatype 'v cvalue = UserV 'v | DerivedFromV "derived_anchor list" | SingletonV

record 'v component_trait =
  ct_tracked :: "nat \<Rightarrow> bool"
  ct_fingerprint :: "nat \<Rightarrow> 'v \<Rightarrow> nat option"
  ct_edge :: "nat \<Rightarrow> 'v \<Rightarrow> (nat \<times> entity) option"
  ct_retractions :: "nat \<Rightarrow> 'v \<Rightarrow> (nat \<times> entity) list"
  ct_members :: "nat \<Rightarrow> 'v \<Rightarrow> entity list"
  ct_is_target :: "nat \<Rightarrow> bool"
  ct_from_members :: "nat \<Rightarrow> entity list \<Rightarrow> 'v"
  ct_hash_anchors :: "derived_anchor list \<Rightarrow> nat"

definition tracked :: "'v component_trait \<Rightarrow> type_id \<Rightarrow> bool" where
  "tracked ct ty = (case ty of UserTy n \<Rightarrow> ct_tracked ct n | DerivedFromTy \<Rightarrow> False | SingletonTy _ \<Rightarrow> False)"

definition fingerprint :: "'v component_trait \<Rightarrow> type_id \<Rightarrow> 'v cvalue \<Rightarrow> nat option" where
  "fingerprint ct ty v = (case v of
     UserV x \<Rightarrow> (case ty of UserTy n \<Rightarrow> ct_fingerprint ct n x | _ \<Rightarrow> None)
   | DerivedFromV anchors \<Rightarrow> Some (ct_hash_anchors ct anchors)
   | SingletonV \<Rightarrow> None)"

definition singleton_key :: "type_id \<Rightarrow> type_id option" where
  "singleton_key ty = (case ty of SingletonTy key \<Rightarrow> Some key | _ \<Rightarrow> None)"

text \<open>A relationship edge: the type of the maintained inverse and the entity it lives on.\<close>

definition relationship_edge :: "'v component_trait \<Rightarrow> type_id \<Rightarrow> 'v cvalue \<Rightarrow> (nat \<times> entity) option" where
  "relationship_edge ct ty v = (case (ty, v) of (UserTy n, UserV x) \<Rightarrow> ct_edge ct n x | _ \<Rightarrow> None)"

text \<open>Retractions: the edge component to remove and the source that carries it.\<close>

definition relationship_retractions ::
  "'v component_trait \<Rightarrow> type_id \<Rightarrow> 'v cvalue \<Rightarrow> (nat \<times> entity) list" where
  "relationship_retractions ct ty v = (case (ty, v) of (UserTy n, UserV x) \<Rightarrow> ct_retractions ct n x | _ \<Rightarrow> [])"

definition relationship_members :: "'v component_trait \<Rightarrow> nat \<Rightarrow> 'v cvalue \<Rightarrow> entity list" where
  "relationship_members ct n v = (case v of UserV x \<Rightarrow> ct_members ct n x | _ \<Rightarrow> [])"

text \<open>The \<open>Component\<close> method: a member list only for a maintained inverse.\<close>

definition component_members :: "'v component_trait \<Rightarrow> type_id \<Rightarrow> 'v cvalue \<Rightarrow> entity list option" where
  "component_members ct ty v = (case ty of
     UserTy n \<Rightarrow> if ct_is_target ct n then Some (relationship_members ct n v) else None
   | _ \<Rightarrow> None)"

definition well_typed :: "type_id \<Rightarrow> 'v cvalue \<Rightarrow> bool" where
  "well_typed ty v = (case ty of
     UserTy _ \<Rightarrow> (case v of UserV _ \<Rightarrow> True | _ \<Rightarrow> False)
   | DerivedFromTy \<Rightarrow> (case v of DerivedFromV _ \<Rightarrow> True | _ \<Rightarrow> False)
   | SingletonTy _ \<Rightarrow> v = SingletonV)"

section \<open>Derived anchors\<close>

definition derived_from_many :: "entity list \<Rightarrow> derived_anchor list" where
  "derived_from_many es = map (\<lambda>e. \<lparr>anchor_entity = e, anchor_revision = None\<rparr>) es"

definition derived_from_entities :: "derived_anchor list \<Rightarrow> entity list" where
  "derived_from_entities as = map anchor_entity as"

definition derived_from_capture :: "(entity \<Rightarrow> nat option) \<Rightarrow> derived_anchor list \<Rightarrow> derived_anchor list" where
  "derived_from_capture at_rev as = map (\<lambda>a. a\<lparr>anchor_revision := at_rev (anchor_entity a)\<rparr>) as"

definition is_current_revision :: "(entity \<Rightarrow> nat option) \<Rightarrow> derived_anchor list \<Rightarrow> bool" where
  "is_current_revision now as \<longleftrightarrow> as \<noteq> []
     \<and> list_all (\<lambda>a. anchor_revision a \<noteq> None \<and> anchor_revision a = now (anchor_entity a)) as"

lemma capture_entities [simp]:
  "derived_from_entities (derived_from_capture at_rev as) = derived_from_entities as"
  by (simp add: derived_from_entities_def derived_from_capture_def)

text \<open>
  Anchors captured against one revision map are current in another exactly when there is at
  least one anchor, every anchor existed at capture time and none of them has moved since.
\<close>

lemma capture_current_iff:
  "is_current_revision now (derived_from_capture at_rev as) \<longleftrightarrow>
    as \<noteq> [] \<and> (\<forall>e\<in>set (derived_from_entities as). at_rev e \<noteq> None \<and> now e = at_rev e)"
  by (auto simp: is_current_revision_def derived_from_capture_def derived_from_entities_def list_all_iff)

section \<open>The derive macro\<close>

text \<open>
  \<open>derive_component\<close> turns the attributes of a component declaration into a trait
  implementation, or into a compile error.  Types are named by the numbers of \<open>UserTy\<close>.
\<close>

record derive_attributes =
  use_hash :: bool
  untracked :: bool
  use_revision :: bool
  edge_target :: "nat option"
  target_edge :: "nat option"
  type_name :: "nat option"

datatype derive_error = NotStructOrEnum | HashAndRevision | FingerprintOnTarget | EdgeAndTarget

datatype fingerprint_fn = NoFingerprint | RevisionField | HashSelf | HashMembers

record component_impl =
  ci_tracked :: bool
  ci_fingerprint :: fingerprint_fn
  ci_edge :: "nat option"
  ci_target :: "nat option"

definition derive_component :: "derive_attributes \<Rightarrow> derive_error + component_impl" where
  "derive_component a =
     (if type_name a = None then Inl NotStructOrEnum
      else if use_revision a \<and> use_hash a then Inl HashAndRevision
      else if target_edge a \<noteq> None \<and> (use_hash a \<or> use_revision a) then Inl FingerprintOnTarget
      else if edge_target a \<noteq> None \<and> target_edge a \<noteq> None then Inl EdgeAndTarget
      else Inr \<lparr>ci_tracked = \<not> untracked a,
        ci_fingerprint = (if use_revision a then RevisionField else if use_hash a then HashSelf
          else if target_edge a \<noteq> None then HashMembers else NoFingerprint),
        ci_edge = edge_target a, ci_target = target_edge a\<rparr>)"

text \<open>
  A value of a derived component: the fields the generated methods read (the target entity of
  an edge, the member list of an inverse, the \<open>revision\<close> field) and an opaque payload.
\<close>

record 'p user_value =
  uv_target :: entity
  uv_members :: "entity list"
  uv_revision :: nat
  uv_payload :: 'p

text \<open>
  The dictionary of a program's derived components.  \<open>impls\<close> are the derived implementations;
  the hash functions stand for \<open>hash_component\<close> at the types it is called with, and \<open>blank\<close>
  is the payload of an inverse built by the engine (its tuple struct has no other field).
\<close>

definition derived_trait ::
  "(nat \<Rightarrow> component_impl) \<Rightarrow> ('p user_value \<Rightarrow> nat) \<Rightarrow> (entity list \<Rightarrow> nat) \<Rightarrow>
   (derived_anchor list \<Rightarrow> nat) \<Rightarrow> 'p \<Rightarrow> 'p user_value component_trait" where
  "derived_trait impls hash_value hash_members hash_anchors blank =
     \<lparr>ct_tracked = (\<lambda>n. ci_tracked (impls n)),
      ct_fingerprint = (\<lambda>n v. case ci_fingerprint (impls n) of
          NoFingerprint \<Rightarrow> None | RevisionField \<Rightarrow> Some (uv_revision v)
        | HashSelf \<Rightarrow> Some (hash_value v) | HashMembers \<Rightarrow> Some (hash_members (uv_members v))),
      ct_edge = (\<lambda>n v. case ci_edge (impls n) of None \<Rightarrow> None | Some iv \<Rightarrow> Some (iv, uv_target v)),
      ct_retractions = (\<lambda>n v. case ci_target (impls n) of None \<Rightarrow> []
        | Some edge \<Rightarrow> map (\<lambda>m. (edge, m)) (uv_members v)),
      ct_members = (\<lambda>n v. uv_members v),
      ct_is_target = (\<lambda>n. ci_target (impls n) \<noteq> None),
      ct_from_members = (\<lambda>n ms. \<lparr>uv_target = 0, uv_members = ms, uv_revision = 0, uv_payload = blank\<rparr>),
      ct_hash_anchors = hash_anchors\<rparr>"

section \<open>What a relationship dictionary guarantees\<close>

definition inverse_types_plain :: "'v component_trait \<Rightarrow> bool" where
  "inverse_types_plain ct \<longleftrightarrow>
     (\<forall>n x iv target y. ct_edge ct n x = Some (iv, target) \<longrightarrow> ct_edge ct iv y = None)"

definition members_roundtrip :: "'v component_trait \<Rightarrow> bool" where
  "members_roundtrip ct \<longleftrightarrow> (\<forall>n ms. ct_members ct n (ct_from_members ct n ms) = ms)"

text \<open>
  A program's declarations fit together when every implementation comes out of the macro and
  an edge names as its target a type that is declared as a relationship target (the bound
  \<open>T: RelationshipTarget\<close> on \<open>RelationshipEdge::new\<close>).
\<close>

definition declarations_ok :: "(nat \<Rightarrow> derive_attributes) \<Rightarrow> (nat \<Rightarrow> component_impl) \<Rightarrow> bool" where
  "declarations_ok decls impls \<longleftrightarrow>
     (\<forall>n. derive_component (decls n) = Inr (impls n)) \<and>
     (\<forall>n iv. ci_edge (impls n) = Some iv \<longrightarrow> ci_target (impls iv) \<noteq> None)"

lemma derive_component_exclusive:
  "derive_component a = Inr i \<Longrightarrow> ci_target i \<noteq> None \<Longrightarrow>
    ci_edge i = None \<and> ci_fingerprint i = HashMembers"
  by (auto simp: derive_component_def split: if_splits)

text \<open>Derived relationship types never chain: an inverse maintained by the engine is not an edge.\<close>

lemma derived_trait_plain:
  assumes "declarations_ok decls impls"
  shows "inverse_types_plain (derived_trait impls hv hm ha blank)"
    and "members_roundtrip (derived_trait impls hv hm ha blank)"
proof -
  have "ci_edge (impls iv) = None" if "ci_edge (impls n) = Some iv" for n iv
  proof -
    have "derive_component (decls iv) = Inr (impls iv)" "ci_target (impls iv) \<noteq> None"
      using assms that by (auto simp: declarations_ok_def)
    then show ?thesis using derive_component_exclusive by blast
  qed
  then show "inverse_types_plain (derived_trait impls hv hm ha blank)"
    by (auto simp: inverse_types_plain_def derived_trait_def split: option.splits)
  show "members_roundtrip (derived_trait impls hv hm ha blank)"
    by (simp add: members_roundtrip_def derived_trait_def)
qed

end
