(* ===== verification/Stores.thy ===== *)
theory Stores
  imports Traits
begin

text \<open>
  Component storage: one typed store per component (\<open>Store<T>\<close> of world.rs) and the table of
  stores (world/stores.rs).

  \<open>entries\<close> is the ordered map from entities to entries and \<open>by_fingerprint\<close> the index used by
  equality queries and joins; both are association lists read through \<open>map_of\<close>, and
  \<open>store_entities\<close> lists keys in the ascending order of the original \<open>BTreeMap\<close>.  The value of
  a shared component cell is kept in its entry.
\<close>

section \<open>One component store\<close>

record 'v component_entry =
  ce_value :: "'v cvalue"
  ce_revision :: nat
  ce_fingerprint :: "nat option"
  ce_owner :: "system_invocation option"

record 'v store =
  entries :: "(entity \<times> 'v component_entry) list"
  by_fingerprint :: "(nat \<times> entity list) list"
  watermark :: nat

definition store_default :: "'v store" where
  "store_default = \<lparr>entries = [], by_fingerprint = [], watermark = 0\<rparr>"

definition bucket :: "'v store \<Rightarrow> nat \<Rightarrow> entity list" where
  "bucket s f = (case map_of (by_fingerprint s) f of None \<Rightarrow> [] | Some es \<Rightarrow> es)"

definition index_fingerprint :: "entity \<Rightarrow> nat option \<Rightarrow> 'v store \<Rightarrow> 'v store" where
  "index_fingerprint e fp s = (case fp of
     None \<Rightarrow> s
   | Some f \<Rightarrow> s\<lparr>by_fingerprint := AList.update f (insort_insert e (bucket s f)) (by_fingerprint s)\<rparr>)"

definition unindex_fingerprint :: "entity \<Rightarrow> nat option \<Rightarrow> 'v store \<Rightarrow> 'v store" where
  "unindex_fingerprint e fp s = (case fp of
     None \<Rightarrow> s
   | Some f \<Rightarrow> (case map_of (by_fingerprint s) f of
       None \<Rightarrow> s
     | Some es \<Rightarrow>
         let es' = remove1 e es in
         s\<lparr>by_fingerprint := if es' = [] then AList.delete f (by_fingerprint s)
             else AList.update f es' (by_fingerprint s)\<rparr>))"

definition revision_for_entity :: "'v store \<Rightarrow> entity \<Rightarrow> nat option" where
  "revision_for_entity s e = map_option ce_revision (map_of (entries s) e)"

definition store_entities :: "'v store \<Rightarrow> entity list" where
  "store_entities s = sort (map fst (entries s))"

definition bump_watermark :: "nat \<Rightarrow> 'v store \<Rightarrow> 'v store" where
  "bump_watermark r s = s\<lparr>watermark := max (watermark s) r\<rparr>"

definition fingerprint_bucket :: "'v store \<Rightarrow> nat \<Rightarrow> entity list option" where
  "fingerprint_bucket s f = map_of (by_fingerprint s) f"

definition relationship_ops ::
  "'v component_trait \<Rightarrow> type_id \<Rightarrow> 'v store \<Rightarrow> entity \<Rightarrow> (nat \<times> entity) option \<times> (nat \<times> entity) list" where
  "relationship_ops ct ty s e = (case map_of (entries s) e of
     None \<Rightarrow> (None, [])
   | Some en \<Rightarrow> (relationship_edge ct ty (ce_value en), relationship_retractions ct ty (ce_value en)))"

text \<open>Moving an entity between fingerprint buckets, as every value-changing path does.\<close>

definition reindex :: "entity \<Rightarrow> nat option \<Rightarrow> nat option \<Rightarrow> 'v store \<Rightarrow> 'v store" where
  "reindex e before after s =
     (if before \<noteq> after then index_fingerprint e after (unindex_fingerprint e before s) else s)"

definition reconcile_entry ::
  "'v component_trait \<Rightarrow> type_id \<Rightarrow> entity \<Rightarrow> nat \<Rightarrow> 'v store \<Rightarrow> 'v store \<times> nat" where
  "reconcile_entry ct ty e revision s = (case map_of (entries s) e of
     None \<Rightarrow> (s, revision)
   | Some en \<Rightarrow>
       let before = ce_fingerprint en;
           after = fingerprint ct ty (ce_value en);
           changed = (tracked ct ty \<and> (before = None \<or> before \<noteq> after));
           revision' = (if changed then revision + 1 else revision);
           en' = en\<lparr>ce_fingerprint := after,
                    ce_revision := if changed then revision' else ce_revision en\<rparr>;
           s1 = s\<lparr>entries := AList.update e en' (entries s)\<rparr>;
           s2 = (if changed then bump_watermark revision' s1 else s1)
       in (reindex e before after s2, revision'))"

text \<open>The store half of an insertion: the entry goes in, the index follows the fingerprint.\<close>

definition store_insert ::
  "entity \<Rightarrow> 'v component_entry \<Rightarrow> 'v store \<Rightarrow> 'v component_entry option \<times> 'v store" where
  "store_insert e en s =
     (let previous = map_of (entries s) e;
          s1 = bump_watermark (ce_revision en) s;
          s2 = s1\<lparr>entries := AList.update e en (entries s1)\<rparr>
      in (previous, case previous of
            Some p \<Rightarrow> reindex e (ce_fingerprint p) (ce_fingerprint en) s2
          | None \<Rightarrow> index_fingerprint e (ce_fingerprint en) s2))"

text \<open>The store half of a removal.\<close>

definition store_remove :: "entity \<Rightarrow> 'v store \<Rightarrow> ('v component_entry \<times> 'v store) option" where
  "store_remove e s = (case map_of (entries s) e of
     None \<Rightarrow> None
   | Some en \<Rightarrow> Some (en,
       unindex_fingerprint e (ce_fingerprint en) (s\<lparr>entries := AList.delete e (entries s)\<rparr>)))"

definition remove_entry_owned ::
  "entity \<Rightarrow> system_invocation \<Rightarrow> 'v store \<Rightarrow> 'v store option" where
  "remove_entry_owned e owner s = (case map_of (entries s) e of
     None \<Rightarrow> None
   | Some en \<Rightarrow> if ce_owner en \<noteq> Some owner then None else map_option snd (store_remove e s))"

definition remove_entity_entry ::
  "entity \<Rightarrow> nat \<Rightarrow> 'v store \<Rightarrow> (system_invocation option \<times> 'v store \<times> nat) option" where
  "remove_entity_entry e revision s = (case store_remove e s of
     None \<Rightarrow> None
   | Some (en, s') \<Rightarrow> Some (ce_owner en, bump_watermark (revision + 1) s', revision + 1))"

subsection \<open>The store invariant\<close>

text \<open>
  The index lists, for every fingerprint, exactly the entities whose entry carries it; no
  entry is newer than the watermark, and the watermark is not newer than the world.
\<close>

definition fp_of :: "'v store \<Rightarrow> entity \<Rightarrow> nat option" where
  "fp_of s e = Option.bind (map_of (entries s) e) ce_fingerprint"

definition index_ok :: "'v store \<Rightarrow> (entity \<Rightarrow> nat option) \<Rightarrow> bool" where
  "index_ok s fp \<longleftrightarrow> distinct (map fst (by_fingerprint s))
     \<and> (\<forall>f es. map_of (by_fingerprint s) f = Some es \<longrightarrow> es \<noteq> [] \<and> sorted es \<and> distinct es)
     \<and> (\<forall>f e. e \<in> set (bucket s f) \<longleftrightarrow> fp e = Some f)"

definition revisions_ok :: "nat \<Rightarrow> 'v store \<Rightarrow> bool" where
  "revisions_ok r s \<longleftrightarrow> watermark s \<le> r
     \<and> (\<forall>e en. map_of (entries s) e = Some en \<longrightarrow> ce_revision en \<le> watermark s)"

definition store_ok :: "nat \<Rightarrow> 'v store \<Rightarrow> bool" where
  "store_ok r s \<longleftrightarrow> distinct (map fst (entries s)) \<and> index_ok s (fp_of s) \<and> revisions_ok r s"

lemma store_okI [inv_intros]:
  "distinct (map fst (entries s)) \<Longrightarrow> index_ok s (fp_of s) \<Longrightarrow> revisions_ok r s \<Longrightarrow> store_ok r s"
  by (simp add: store_ok_def)

lemma bucket_sorted:
  "index_ok s fp \<Longrightarrow> sorted (bucket s f) \<and> distinct (bucket s f)"
  by (auto simp: index_ok_def bucket_def split: option.splits)

lemma index_selectors [simp]:
  "entries (index_fingerprint e fp s) = entries s"
  "watermark (index_fingerprint e fp s) = watermark s"
  "entries (unindex_fingerprint e fp s) = entries s"
  "watermark (unindex_fingerprint e fp s) = watermark s"
  "entries (reindex e fp fp' s) = entries s"
  "watermark (reindex e fp fp' s) = watermark s"
  "entries (bump_watermark r s) = entries s"
  "by_fingerprint (bump_watermark r s) = by_fingerprint s"
  "watermark (bump_watermark r s) = max (watermark s) r"
  by (simp_all add: index_fingerprint_def unindex_fingerprint_def reindex_def bump_watermark_def
      Let_def split: option.splits)

lemma index_ok_cong:
  "by_fingerprint s = by_fingerprint s' \<Longrightarrow> index_ok s fp = index_ok s' fp"
  by (simp add: index_ok_def bucket_def)

lemma index_ok_index:
  assumes "index_ok s fp" and "fp e = None"
  shows "index_ok (index_fingerprint e f s) (fp(e := f))"
proof (cases f)
  case None
  then show ?thesis using assms by (auto simp: index_fingerprint_def index_ok_def fun_upd_idem)
next
  case (Some g)
  note srt = bucket_sorted [OF assms(1), of g]
  have "distinct (insort_insert e (bucket s g))" "sorted (insort_insert e (bucket s g))"
    using srt by (auto simp: distinct_insort_insert sorted_insort_insert)
  moreover have "insort_insert e (bucket s g) \<noteq> []"
    by (metis empty_iff insertI1 list.set(1) set_insort_insert)
  moreover have "bucket (index_fingerprint e f s) h =
      (if h = g then insort_insert e (bucket s g) else bucket s h)" for h
    by (auto simp: index_fingerprint_def Some bucket_def alist_simps)
  ultimately show ?thesis
    using assms unfolding index_ok_def
    by (auto simp: index_fingerprint_def Some alist_simps distinct_update set_insort_insert)
qed

lemma index_ok_unindex:
  assumes "index_ok s fp"
  shows "index_ok (unindex_fingerprint e (fp e) s) (fp(e := None))"
proof (cases "fp e")
  case None
  then show ?thesis using assms by (simp add: unindex_fingerprint_def fun_upd_idem)
next
  case (Some g)
  then have mem: "e \<in> set (bucket s g)" using assms by (simp add: index_ok_def)
  then obtain es where es: "map_of (by_fingerprint s) g = Some es"
    by (cases "map_of (by_fingerprint s) g") (auto simp: bucket_def)
  have srt: "sorted es" "distinct es" using assms es by (auto simp: index_ok_def)
  have bk: "bucket (unindex_fingerprint e (fp e) s) h =
      (if h = g then remove1 e es else bucket s h)" for h
    by (auto simp: unindex_fingerprint_def Some es bucket_def alist_simps Let_def)
  have mi: "x \<in> set (bucket s h) \<longleftrightarrow> fp x = Some h" for x h
    using assms by (simp add: index_ok_def)
  have old: "hs \<noteq> [] \<and> sorted hs \<and> distinct hs" if "map_of (by_fingerprint s) h = Some hs" for h hs
    using assms that by (simp add: index_ok_def)
  have look: "map_of (by_fingerprint (unindex_fingerprint e (fp e) s)) h =
      (if h = g then if remove1 e es = [] then None else Some (remove1 e es)
       else map_of (by_fingerprint s) h)" for h
    by (simp add: unindex_fingerprint_def Some es alist_simps Let_def)
  have "map_of (by_fingerprint (unindex_fingerprint e (fp e) s)) h = Some hs \<longrightarrow>
      hs \<noteq> [] \<and> sorted hs \<and> distinct hs" for h hs
    unfolding look using old [of h hs] sorted_remove1 [OF srt(1), of e] distinct_remove1 [OF srt(2), of e]
    by (metis option.distinct(1) option.inject)
  moreover have "distinct (map fst (by_fingerprint (unindex_fingerprint e (fp e) s)))"
    using assms by (auto simp: unindex_fingerprint_def Some es Let_def index_ok_def
        distinct_update distinct_delete)
  moreover have "x \<in> set (bucket (unindex_fingerprint e (fp e) s) h) \<longleftrightarrow>
      (fp(e := None)) x = Some h" for x h
  proof (cases "h = g")
    case True
    have "set (remove1 e es) = set es - {e}" using srt(2) by (rule set_remove1_eq)
    moreover have "x \<in> set es \<longleftrightarrow> fp x = Some g" using mi [of x g] es by (simp add: bucket_def)
    ultimately show ?thesis using True by (simp add: bk)
  next
    case False
    then have "fp e \<noteq> Some h" using Some by simp
    then show ?thesis using False mi by (auto simp: bk)
  qed
  ultimately show ?thesis unfolding index_ok_def by blast
qed

lemma index_ok_reindex:
  assumes "index_ok s fp"
  shows "index_ok (reindex e (fp e) f s) (fp(e := f))"
proof (cases "fp e = f")
  case True
  then show ?thesis using assms by (auto simp: reindex_def fun_upd_idem)
next
  case False
  have "index_ok (index_fingerprint e f (unindex_fingerprint e (fp e) s)) ((fp(e := None))(e := f))"
    by (intro index_ok_index index_ok_unindex assms) simp
  then show ?thesis using False by (simp add: reindex_def)
qed


lemma store_ok_mono: "store_ok r s \<Longrightarrow> r \<le> r' \<Longrightarrow> store_ok r' s"
  by (auto simp: store_ok_def revisions_ok_def)

lemma store_default_ok [simp]: "store_ok r store_default"
  by (simp add: store_ok_def store_default_def index_ok_def revisions_ok_def bucket_def fp_of_def)

lemma fp_of_cong: "entries s = entries s' \<Longrightarrow> fp_of s = fp_of s'"
  by (simp add: fp_of_def fun_eq_iff)

lemma fp_of_update:
  "map_of (entries s') = (map_of (entries s))(e \<mapsto> en) \<Longrightarrow> fp_of s' = (fp_of s)(e := ce_fingerprint en)"
  by (auto simp: fp_of_def)

lemma fp_of_delete:
  "map_of (entries s') = (map_of (entries s))(e := None) \<Longrightarrow> fp_of s' = (fp_of s)(e := None)"
  by (auto simp: fp_of_def)

lemma fp_of_absent: "map_of (entries s) e = None \<Longrightarrow> fp_of s e = None"
  by (simp add: fp_of_def)

lemma fp_of_entry: "map_of (entries s) e = Some en \<Longrightarrow> fp_of s e = ce_fingerprint en"
  by (simp add: fp_of_def)

subsection \<open>What each store operation does to the entries\<close>

lemma bump_watermark_ok: "store_ok r s \<Longrightarrow> r' \<le> r \<Longrightarrow> store_ok r (bump_watermark r' s)"
  using index_ok_cong [of "bump_watermark r' s" s] fp_of_cong [of "bump_watermark r' s" s]
  by (simp add: store_ok_def revisions_ok_def max.coboundedI1)

lemma store_insert_entries [simp]:
  "map_of (entries (snd (store_insert e en s))) = (map_of (entries s))(e \<mapsto> en)"
  "fst (store_insert e en s) = map_of (entries s) e"
  "watermark (snd (store_insert e en s)) = max (watermark s) (ce_revision en)"
  by (simp_all add: store_insert_def Let_def alist_simps split: option.splits)

lemma store_insert_ok:
  assumes ok: "store_ok r s" and le: "r \<le> r'" and rev: "ce_revision en \<le> r'"
  shows "store_ok r' (snd (store_insert e en s))"
proof (rule store_okI)
  let ?s' = "snd (store_insert e en s)"
  let ?s2 = "(bump_watermark (ce_revision en) s)\<lparr>entries := AList.update e en (entries s)\<rparr>"
  have i2: "index_ok ?s2 (fp_of s)"
    using ok by (subst index_ok_cong [of _ s]) (simp_all add: store_ok_def)
  show "distinct (map fst (entries ?s'))"
    using ok by (simp add: store_insert_def store_ok_def Let_def distinct_update split: option.splits)
  have "index_ok ?s' ((fp_of s)(e := ce_fingerprint en))"
  proof (cases "map_of (entries s) e")
    case None
    then show ?thesis
      using index_ok_index [OF i2 fp_of_absent [OF None]] by (simp add: store_insert_def Let_def)
  next
    case (Some p)
    then show ?thesis
      using index_ok_reindex [OF i2, of e] by (simp add: store_insert_def Let_def fp_of_entry)
  qed
  then show "index_ok ?s' (fp_of ?s')" by (simp add: fp_of_update [of ?s' s])
  show "revisions_ok r' ?s'"
    using ok le rev by (auto simp: revisions_ok_def store_ok_def intro: max.coboundedI1)
qed

lemma store_remove_None: "store_remove e s = None \<longleftrightarrow> map_of (entries s) e = None"
  by (simp add: store_remove_def split: option.splits)

lemma store_removeD:
  assumes "store_remove e s = Some (en, s')"
  shows "map_of (entries s) e = Some en" and "watermark s' = watermark s"
    and "distinct (map fst (entries s)) \<Longrightarrow> map_of (entries s') = (map_of (entries s))(e := None)"
    and "store_ok r s \<Longrightarrow> store_ok r s'"
proof -
  let ?s1 = "s\<lparr>entries := AList.delete e (entries s)\<rparr>"
  show e: "map_of (entries s) e = Some en" and w: "watermark s' = watermark s"
    using assms by (auto simp: store_remove_def split: option.splits)
  have s': "s' = unindex_fingerprint e (ce_fingerprint en) ?s1"
    using assms e by (simp add: store_remove_def)
  have ents: "map_of (entries s') = (map_of (entries s))(e := None)"
    by (simp add: s' alist_simps)
  then show "map_of (entries s') = (map_of (entries s))(e := None)" .
  assume ok: "store_ok r s"
  have "index_ok ?s1 (fp_of s)"
    using ok by (subst index_ok_cong [of _ s]) (simp_all add: store_ok_def)
  from index_ok_unindex [OF this, of e] have "index_ok s' (fp_of s')"
    by (simp add: s' [symmetric] fp_of_entry [OF e] fp_of_delete [OF ents])
  moreover have "distinct (map fst (entries s'))"
    using ok by (simp add: s' store_ok_def distinct_delete)
  moreover have "revisions_ok r s'"
    using ok by (auto simp: revisions_ok_def store_ok_def w ents)
  ultimately show "store_ok r s'" by (simp add: store_ok_def)
qed

lemma remove_entry_owned_iff:
  "remove_entry_owned e owner s = Some s' \<longleftrightarrow>
    (\<exists>en. map_of (entries s) e = Some en \<and> ce_owner en = Some owner \<and> store_remove e s = Some (en, s'))"
  by (auto simp: remove_entry_owned_def store_remove_def split: option.splits)

lemma reconcile_entry_None [simp]:
  "map_of (entries s) e = None \<Longrightarrow> reconcile_entry ct ty e r s = (s, r)"
  by (simp add: reconcile_entry_def)

lemma reconcile_entryD:
  assumes "map_of (entries s) e = Some en" and "reconcile_entry ct ty e r s = (s', r')"
    and "changed = (tracked ct ty \<and> (ce_fingerprint en = None \<or>
      ce_fingerprint en \<noteq> fingerprint ct ty (ce_value en)))"
  shows "r' = (if changed then r + 1 else r)"
    and "map_of (entries s') = (map_of (entries s))(e \<mapsto> en\<lparr>
      ce_fingerprint := fingerprint ct ty (ce_value en),
      ce_revision := if changed then r + 1 else ce_revision en\<rparr>)"
    and "watermark s' = (if changed then max (watermark s) (r + 1) else watermark s)"
    and "store_ok r s \<Longrightarrow> store_ok r' s'"
proof -
  let ?fp = "fingerprint ct ty (ce_value en)"
  let ?en' = "en\<lparr>ce_fingerprint := ?fp, ce_revision := if changed then r + 1 else ce_revision en\<rparr>"
  let ?s1 = "s\<lparr>entries := AList.update e ?en' (entries s)\<rparr>"
  let ?s2 = "if changed then bump_watermark (r + 1) ?s1 else ?s1"
  have s': "s' = reindex e (ce_fingerprint en) ?fp ?s2" and r': "r' = (if changed then r + 1 else r)"
    using assms(1,2) unfolding reconcile_entry_def Let_def
    by (simp_all add: assms(3) [symmetric] cong: if_cong split: if_splits)
  show "r' = (if changed then r + 1 else r)" by (fact r')
  show ents: "map_of (entries s') = (map_of (entries s))(e \<mapsto> ?en')"
    by (simp add: s' alist_simps)
  show w: "watermark s' = (if changed then max (watermark s) (r + 1) else watermark s)"
    by (simp add: s')
  assume ok: "store_ok r s"
  have old: "ce_revision y \<le> watermark s" if "map_of (entries s) x = Some y" for x y
    using ok that by (auto simp: store_ok_def revisions_ok_def)
  have "index_ok ?s2 (fp_of s)"
    using ok by (subst index_ok_cong [of _ s]) (simp_all add: store_ok_def)
  from index_ok_reindex [OF this, of e ?fp] have "index_ok s' (fp_of s')"
    by (simp add: s' [symmetric] fp_of_entry [OF assms(1)] fp_of_update [OF ents])
  moreover have "distinct (map fst (entries s'))"
    using ok by (simp add: s' store_ok_def distinct_update)
  moreover have "revisions_ok r' s'"
    unfolding revisions_ok_def w ents r'
  proof (intro conjI allI impI)
    have "watermark s \<le> r" using ok by (simp add: store_ok_def revisions_ok_def)
    then show "(if changed then max (watermark s) (r + 1) else watermark s) \<le> (if changed then r + 1 else r)"
      by simp
    fix x y
    assume "((map_of (entries s))(e \<mapsto> ?en')) x = Some y"
    then show "ce_revision y \<le> (if changed then max (watermark s) (r + 1) else watermark s)"
      using old [of x y] old [OF assms(1)] by (cases "x = e") (auto simp: max.coboundedI1)
  qed
  ultimately show "store_ok r' s'" by (simp add: store_ok_def)
qed


section \<open>The table of stores\<close>

record 'v stores =
  slots :: "(type_id \<times> 'v store option) list"
  registry :: "(type_id \<times> nat) list"
  fallback :: "(type_id \<times> 'v store) list"

definition stores_default :: "'v stores" where
  "stores_default = \<lparr>slots = [], registry = [], fallback = []\<rparr>"

definition with_registry :: "(type_id \<times> nat) list \<Rightarrow> 'v stores" where
  "with_registry reg =
     (let types = sort_key fst (map (\<lambda>(ty, slot). (slot, ty)) reg) in
      \<lparr>slots = map (\<lambda>(_, ty). (ty, None)) types, registry = reg, fallback = []\<rparr>)"

definition stores_slot :: "type_id \<Rightarrow> 'v stores \<Rightarrow> nat option" where
  "stores_slot ty S = map_of (registry S) ty"

text \<open>
  Indexing \<open>slots\<close> by a registered slot panics in the original when the slot is out of range;
  \<open>stores_wf\<close> below keeps every registered slot in range.
\<close>

definition stores_get :: "type_id \<Rightarrow> 'v stores \<Rightarrow> 'v store option" where
  "stores_get ty S = (case map_of (registry S) ty of
     Some slot \<Rightarrow> snd (slots S ! slot)
   | None \<Rightarrow> map_of (fallback S) ty)"

definition stores_get_slot :: "nat \<Rightarrow> type_id \<Rightarrow> 'v stores \<Rightarrow> 'v store option" where
  "stores_get_slot slot ty S =
     (if slot < length (slots S) \<and> fst (slots S ! slot) = ty then snd (slots S ! slot)
      else stores_get ty S)"

text \<open>
  A write through the reference that \<open>get_mut\<close>, \<open>get_or_insert\<close> or \<open>iter_mut\<close> hands out.
\<close>

definition stores_put :: "type_id \<Rightarrow> 'v store \<Rightarrow> 'v stores \<Rightarrow> 'v stores" where
  "stores_put ty s S = (case map_of (registry S) ty of
     Some slot \<Rightarrow> S\<lparr>slots := (slots S)[slot := (fst (slots S ! slot), Some s)]\<rparr>
   | None \<Rightarrow> S\<lparr>fallback := AList.update ty s (fallback S)\<rparr>)"

text \<open>The store \<open>get_or_insert\<close> returns: the existing one or a fresh default.\<close>

definition stores_get_or_insert :: "type_id \<Rightarrow> 'v stores \<Rightarrow> 'v store" where
  "stores_get_or_insert ty S = (case stores_get ty S of Some s \<Rightarrow> s | None \<Rightarrow> store_default)"

definition stores_is_empty :: "'v stores \<Rightarrow> bool" where
  "stores_is_empty S \<longleftrightarrow> list_all (\<lambda>(_, s). s = None) (slots S) \<and> fallback S = []"

text \<open>The stores in iteration order (\<open>values\<close> and \<open>iter_mut\<close>): slots first, then the fallback map.\<close>

definition stores_list :: "'v stores \<Rightarrow> (type_id \<times> 'v store) list" where
  "stores_list S =
     List.map_filter (\<lambda>(ty, s). map_option (Pair ty) s) (slots S) @ fallback S"

definition stores_wf :: "'v stores \<Rightarrow> bool" where
  "stores_wf S \<longleftrightarrow> distinct (map fst (fallback S))
     \<and> (\<forall>ty n. map_of (registry S) ty = Some n \<longrightarrow> n < length (slots S) \<and> fst (slots S ! n) = ty)
     \<and> (\<forall>n<length (slots S). map_of (registry S) (fst (slots S ! n)) = Some n)
     \<and> (\<forall>ty. map_of (fallback S) ty \<noteq> None \<longrightarrow> map_of (registry S) ty = None)"

lemma stores_wfD:
  assumes "stores_wf S"
  shows "distinct (map fst (fallback S))"
    and "map_of (registry S) ty = Some n \<Longrightarrow> n < length (slots S) \<and> fst (slots S ! n) = ty"
    and "n < length (slots S) \<Longrightarrow> map_of (registry S) (fst (slots S ! n)) = Some n"
    and "map_of (fallback S) ty \<noteq> None \<Longrightarrow> map_of (registry S) ty = None"
  using assms by (auto simp: stores_wf_def)

text \<open>
  The contract the world relies on: a table of stores behaves as a map from component types,
  whatever mixture of slots and fallback entries backs it.
\<close>

locale store_table =
  fixes wf :: "'t \<Rightarrow> bool"
    and get :: "type_id \<Rightarrow> 't \<Rightarrow> 's option"
    and put :: "type_id \<Rightarrow> 's \<Rightarrow> 't \<Rightarrow> 't"
    and listing :: "'t \<Rightarrow> (type_id \<times> 's) list"
  assumes wf_put: "wf t \<Longrightarrow> wf (put ty s t)"
    and get_put: "wf t \<Longrightarrow> get ty' (put ty s t) = (if ty' = ty then Some s else get ty' t)"
    and listing_get: "wf t \<Longrightarrow> map_of (listing t) ty = get ty t"
    and listing_distinct: "wf t \<Longrightarrow> distinct (map fst (listing t))"
begin

text \<open>A property of every stored table survives a write that establishes it for the new one.\<close>

lemma all_put:
  assumes "wf t" and "\<And>ty' s'. ty' \<noteq> ty \<Longrightarrow> get ty' t = Some s' \<Longrightarrow> Q ty' s'" and "Q ty s"
    and "get ty'' (put ty s t) = Some s''"
  shows "Q ty'' s''"
  using assms by (auto simp: get_put split: if_splits)

lemma listing_iff: "wf t \<Longrightarrow> (ty, s) \<in> set (listing t) \<longleftrightarrow> get ty t = Some s"
  using in_set_map_of_iff [OF listing_distinct] listing_get by simp

text \<open>Visiting every listed store once and writing each back changes every store exactly once.\<close>

lemma get_fold_put:
  assumes "wf t" and "distinct tys"
  shows "wf (fold (\<lambda>ty t. case get ty t of None \<Rightarrow> t | Some s \<Rightarrow> put ty (f ty s) t) tys t)
    \<and> get ty' (fold (\<lambda>ty t. case get ty t of None \<Rightarrow> t | Some s \<Rightarrow> put ty (f ty s) t) tys t) =
      (if ty' \<in> set tys then map_option (f ty') (get ty' t) else get ty' t)"
  using assms
proof (induction tys arbitrary: t)
  case Nil
  then show ?case by simp
next
  case (Cons ty tys)
  let ?t = "case get ty t of None \<Rightarrow> t | Some s \<Rightarrow> put ty (f ty s) t"
  have "wf ?t" using Cons.prems by (simp add: wf_put split: option.splits)
  moreover have "get x ?t = (if x = ty then map_option (f ty) (get ty t) else get x t)" for x
    using Cons.prems by (auto simp: get_put split: option.splits)
  ultimately show ?case using Cons.IH [of ?t] Cons.prems by auto
qed

end

lemma stores_put_wf: "stores_wf S \<Longrightarrow> stores_wf (stores_put ty s S)"
proof (cases "map_of (registry S) ty")
  case None
  assume wf: "stores_wf S"
  show ?thesis
    using stores_wfD [OF wf] None unfolding stores_wf_def stores_put_def
    by (auto simp: map_of_update distinct_update simp del: not_None_eq)
next
  case (Some n)
  assume wf: "stores_wf S"
  have "fst ((slots S)[n := (fst (slots S ! n), Some s)] ! m) = fst (slots S ! m)" for m
    by (cases "n < length (slots S)") (auto simp: nth_list_update list_update_beyond)
  then show ?thesis
    using stores_wfD [OF wf] Some unfolding stores_wf_def stores_put_def by simp
qed

lemma stores_get_put:
  assumes "stores_wf S"
  shows "stores_get ty' (stores_put ty s S) = (if ty' = ty then Some s else stores_get ty' S)"
proof (cases "map_of (registry S) ty")
  case None
  then show ?thesis by (auto simp: stores_put_def stores_get_def alist_simps split: option.splits)
next
  case (Some n)
  note n = stores_wfD(2) [OF assms Some]
  have "m \<noteq> n" if "map_of (registry S) ty' = Some m" "ty' \<noteq> ty" for m
    using stores_wfD(2) [OF assms that(1)] n that(2) by auto
  with Some n show ?thesis
    by (auto simp: stores_put_def stores_get_def split: option.splits)
qed

lemma map_filter_nth_keys:
  "map fst (List.map_filter (\<lambda>(ty, s). map_option (Pair ty) s) xs) =
    map fst (filter (\<lambda>(_, s). s \<noteq> None) xs)"
  by (induction xs) (auto simp: List.map_filter_simps split: option.splits)

lemma map_of_map_filter:
  "distinct (map fst xs) \<Longrightarrow>
    map_of (List.map_filter (\<lambda>(ty, s). map_option (Pair ty) s) xs) ty =
    Option.bind (map_of xs ty) id"
proof (induction xs)
  case Nil
  then show ?case by (simp add: List.map_filter_simps)
next
  case (Cons x xs)
  then have "fst x = ty \<Longrightarrow> map_of xs ty = None" by (auto simp: map_of_eq_None_iff)
  with Cons show ?case by (cases x; cases "snd x") (auto simp: List.map_filter_simps)
qed

lemma slots_distinct:
  assumes "stores_wf S"
  shows "distinct (map fst (slots S))"
  by (simp add: distinct_conv_nth) (metis assms option.inject stores_wfD(3))

lemma slots_registered:
  assumes "stores_wf S" and "ty \<in> fst ` set (slots S)"
  shows "map_of (registry S) ty \<noteq> None"
proof -
  obtain n where "n < length (slots S)" "fst (slots S ! n) = ty"
    using assms(2) by (metis imageE in_set_conv_nth)
  then show ?thesis using stores_wfD(3) [OF assms(1)] by auto
qed

lemma slots_lookup:
  assumes "stores_wf S"
  shows "map_of (slots S) ty = map_option (\<lambda>n. snd (slots S ! n)) (map_of (registry S) ty)"
proof (cases "map_of (registry S) ty")
  case None
  then have "ty \<notin> fst ` set (slots S)"
    using slots_registered [OF assms] by blast
  then have "map_of (slots S) ty = None" by (simp add: map_of_eq_None_iff)
  then show ?thesis using None by simp
next
  case (Some n)
  note n = stores_wfD(2) [OF assms Some]
  then have "(ty, snd (slots S ! n)) \<in> set (slots S)" by (metis nth_mem prod.collapse)
  then show ?thesis using Some slots_distinct [OF assms] by simp
qed

lemma stores_listing_get:
  assumes "stores_wf S"
  shows "map_of (stores_list S) ty = stores_get ty S"
proof (cases "map_of (registry S) ty")
  case None
  then show ?thesis
    by (simp add: stores_list_def map_add_def map_of_map_filter [OF slots_distinct [OF assms]]
        slots_lookup [OF assms] stores_get_def split: option.splits)
next
  case (Some n)
  then have "map_of (fallback S) ty = None" using stores_wfD(4) [OF assms] by fastforce
  with Some show ?thesis
    by (simp add: stores_list_def map_add_def map_of_map_filter [OF slots_distinct [OF assms]]
        slots_lookup [OF assms] stores_get_def split: option.splits)
qed

lemma stores_list_distinct:
  assumes "stores_wf S"
  shows "distinct (map fst (stores_list S))"
proof -
  have "ty \<notin> fst ` set (fallback S)" if "ty \<in> fst ` set (slots S)" for ty
    using slots_registered [OF assms that] stores_wfD(4) [OF assms, of ty]
    by (auto simp: map_of_eq_None_iff)
  then show ?thesis
    using slots_distinct [OF assms] stores_wfD(1) [OF assms]
    by (auto simp: stores_list_def map_filter_nth_keys distinct_map_fst_filter)
qed

interpretation table: store_table stores_wf stores_get stores_put stores_list
  by unfold_locales
    (simp_all add: stores_put_wf stores_get_put stores_listing_get stores_list_distinct)

lemma stores_default_wf: "stores_wf stores_default" "stores_get ty stores_default = None"
  by (simp_all add: stores_wf_def stores_default_def stores_get_def)

text \<open>A slot handle never reads another component's store, even one made for another layout.\<close>

lemma stores_get_slot_eq:
  "stores_wf S \<Longrightarrow> stores_get_slot n ty S = stores_get ty S"
  using stores_wfD(3) [of S n] by (auto simp: stores_get_slot_def stores_get_def)

end
