(* ===== verification/World.thy ===== *)
theory World
  imports Presence Stores
begin

text \<open>
  The world (world.rs): component storage with revisions, output ownership, spawn slots,
  singleton registration, relationship maintenance and the planning log.

  Every operation that can panic returns an \<open>option\<close>.  The entity allocator and the spawn-slot
  map are shared with snapshots in the original and are fields of the live world here.  The
  debug-build recording of derived writes is always on.
\<close>

section \<open>State\<close>

type_synonym out_pair = "type_id \<times> entity"

record 'v world =
  w_next_entity :: nat
  w_revision :: nat
  w_mutations :: nat
  w_stores :: "'v stores"
  w_singletons :: "(type_id \<times> entity) list"
  w_owners :: "(system_invocation \<times> out_pair list) list"
  w_spawns :: "(system_invocation \<times> entity list) list"
  w_cursors :: "(system_invocation \<times> nat) list"
  w_removed_entities :: "entity list"
  w_removed_owners :: "system_invocation list"
  w_removed_component_owners :: "system_invocation list"
  w_pending :: "(entity \<times> derived_anchor list \<times> system_invocation option) list"
  w_flushing :: bool
  w_written_derived :: "out_pair list"
  w_presence :: "presence_index option"
  w_log :: "out_pair list"
  w_plan_epoch :: "64 word"

definition world_new :: "'v world" where
  "world_new = \<lparr>w_next_entity = 0, w_revision = 0, w_mutations = 0, w_stores = stores_default,
     w_singletons = [], w_owners = [], w_spawns = [], w_cursors = [], w_removed_entities = [],
     w_removed_owners = [], w_removed_component_owners = [], w_pending = [], w_flushing = False,
     w_written_derived = [], w_presence = None, w_log = [], w_plan_epoch = 0\<rparr>"

text \<open>
  The structural clone a snapshot is: runner bookkeeping is left empty.  The debug assertion
  that no \<open>DerivedFrom\<close> insertion is pending is the panic.
\<close>

definition world_snapshot :: "'v world \<Rightarrow> 'v world option" where
  "world_snapshot W = (if w_pending W \<noteq> [] then None else Some
     (W\<lparr>w_owners := [], w_cursors := [], w_removed_entities := [], w_removed_owners := [],
        w_removed_component_owners := [], w_pending := [], w_flushing := False,
        w_written_derived := [], w_log := []\<rparr>))"

definition init_presence :: "type_id list \<Rightarrow> 'v world \<Rightarrow> 'v world option" where
  "init_presence universe W = (if \<not> stores_is_empty (w_stores W) then None else
     (let P = presence_new universe in
      Some (W\<lparr>w_stores := with_registry (bit_for P), w_presence := Some P\<rparr>)))"

section \<open>Lookups\<close>

definition entry_of :: "'v world \<Rightarrow> type_id \<Rightarrow> entity \<Rightarrow> 'v component_entry option" where
  "entry_of W ty e = Option.bind (stores_get ty (w_stores W)) (\<lambda>s. map_of (entries s) e)"

definition has_component :: "'v world \<Rightarrow> type_id \<Rightarrow> entity \<Rightarrow> bool" where
  "has_component W ty e \<longleftrightarrow> entry_of W ty e \<noteq> None"

definition revision_by_type :: "'v world \<Rightarrow> type_id \<Rightarrow> entity \<Rightarrow> nat option" where
  "revision_by_type W ty e = Option.bind (stores_get ty (w_stores W)) (\<lambda>s. revision_for_entity s e)"

definition revision_by_slot :: "'v world \<Rightarrow> nat \<Rightarrow> type_id \<Rightarrow> entity \<Rightarrow> nat option" where
  "revision_by_slot W slot ty e =
     Option.bind (stores_get_slot slot ty (w_stores W)) (\<lambda>s. revision_for_entity s e)"

definition fingerprint_of :: "'v world \<Rightarrow> type_id \<Rightarrow> entity \<Rightarrow> nat option" where
  "fingerprint_of W ty e = Option.bind (entry_of W ty e) ce_fingerprint"

definition entities_with :: "'v world \<Rightarrow> type_id \<Rightarrow> entity list" where
  "entities_with W ty = (case stores_get ty (w_stores W) of None \<Rightarrow> [] | Some s \<Rightarrow> store_entities s)"

definition store_len :: "'v world \<Rightarrow> type_id \<Rightarrow> nat option" where
  "store_len W ty = map_option (\<lambda>s. length (entries s)) (stores_get ty (w_stores W))"

definition entities_with_fingerprint :: "'v world \<Rightarrow> type_id \<Rightarrow> nat \<Rightarrow> entity list" where
  "entities_with_fingerprint W ty f = (case stores_get ty (w_stores W) of
     None \<Rightarrow> []
   | Some s \<Rightarrow> (case fingerprint_bucket s f of None \<Rightarrow> [] | Some es \<Rightarrow> es))"

definition store_watermark :: "'v world \<Rightarrow> type_id \<Rightarrow> nat" where
  "store_watermark W ty = (case stores_get ty (w_stores W) of None \<Rightarrow> 0 | Some s \<Rightarrow> watermark s)"

definition max_opt :: "nat list \<Rightarrow> nat option" where
  "max_opt ns = (if ns = [] then None else Some (foldr max ns 0))"

definition entity_revision :: "'v component_trait \<Rightarrow> 'v world \<Rightarrow> entity \<Rightarrow> nat option" where
  "entity_revision ct W e = max_opt (List.map_filter (\<lambda>(ty, s). revision_for_entity s e)
     (filter (\<lambda>(ty, s). tracked ct ty) (stores_list (w_stores W))))"

section \<open>Bookkeeping steps shared by the write paths\<close>

definition w_presence_set :: "type_id \<Rightarrow> entity \<Rightarrow> bool \<Rightarrow> 'v world \<Rightarrow> 'v world" where
  "w_presence_set ty e b W = W\<lparr>w_presence := map_option (presence_set ty e b) (w_presence W)\<rparr>"

definition w_presence_clear :: "entity \<Rightarrow> 'v world \<Rightarrow> 'v world" where
  "w_presence_clear e W = W\<lparr>w_presence := map_option (presence_clear_entity e) (w_presence W)\<rparr>"

definition log_write :: "type_id \<Rightarrow> entity \<Rightarrow> 'v world \<Rightarrow> 'v world" where
  "log_write ty e W = W\<lparr>w_log := w_log W @ [(ty, e)]\<rparr>"

definition put_store :: "type_id \<Rightarrow> 'v store \<Rightarrow> 'v world \<Rightarrow> 'v world" where
  "put_store ty s W = W\<lparr>w_stores := stores_put ty s (w_stores W)\<rparr>"

text \<open>Outputs owned by an invocation (the original's hash set of pairs).\<close>

definition outputs_of :: "'v world \<Rightarrow> system_invocation \<Rightarrow> out_pair list" where
  "outputs_of W owner = (case map_of (w_owners W) owner of None \<Rightarrow> [] | Some os \<Rightarrow> os)"

definition unindex_derived :: "system_invocation \<Rightarrow> type_id \<Rightarrow> entity \<Rightarrow> 'v world \<Rightarrow> 'v world" where
  "unindex_derived owner ty e W = (case map_of (w_owners W) owner of
     None \<Rightarrow> W
   | Some os \<Rightarrow>
       let os' = removeAll (ty, e) os in
       W\<lparr>w_owners := if os' = [] then AList.delete owner (w_owners W)
           else AList.update owner os' (w_owners W)\<rparr>)"

definition index_derived :: "system_invocation \<Rightarrow> type_id \<Rightarrow> entity \<Rightarrow> 'v world \<Rightarrow> 'v world" where
  "index_derived owner ty e W =
     W\<lparr>w_owners := AList.update owner (List.insert (ty, e) (outputs_of W owner)) (w_owners W)\<rparr>"

section \<open>Insertion\<close>

text \<open>Registration of a singleton marker; the panic is a marker already on another entity.\<close>

definition register_singleton :: "type_id \<Rightarrow> entity \<Rightarrow> 'v world \<Rightarrow> 'v world option" where
  "register_singleton ty e W = (case singleton_key ty of
     None \<Rightarrow> Some W
   | Some key \<Rightarrow> (case map_of (w_singletons W) key of
       Some existing \<Rightarrow> if existing \<noteq> e then None else Some W
     | None \<Rightarrow> Some (W\<lparr>w_singletons := AList.update key e (w_singletons W)\<rparr>)))"

definition fingerprint_matches :: "'v component_entry option \<Rightarrow> nat option \<Rightarrow> bool" where
  "fingerprint_matches previous fp = (case previous of
     None \<Rightarrow> False
   | Some p \<Rightarrow> ce_fingerprint p \<noteq> None \<and> ce_fingerprint p = fp)"

text \<open>The revision stamped on the new entry, and the world's revision afterwards.\<close>

definition insert_revision ::
  "'v component_trait \<Rightarrow> type_id \<Rightarrow> 'v component_entry option \<Rightarrow> nat option \<Rightarrow> nat \<Rightarrow> nat \<times> nat" where
  "insert_revision ct ty previous fp r =
     (if tracked ct ty then
        (case (if fingerprint_matches previous fp then map_option ce_revision previous else None) of
           Some old \<Rightarrow> (old, r)
         | None \<Rightarrow> (r + 1, r + 1))
      else (r + 1, r + 1))"

text \<open>The ownership index follows the replaced owner and the new one.\<close>

definition transfer_owner :: "system_invocation option \<Rightarrow> system_invocation option \<Rightarrow>
    type_id \<Rightarrow> entity \<Rightarrow> 'v world \<Rightarrow> 'v world" where
  "transfer_owner previous_owner new_owner ty e W =
     (let W1 = (case previous_owner of
          None \<Rightarrow> W
        | Some p \<Rightarrow> if Some p \<noteq> new_owner then unindex_derived p ty e W else W)
      in case new_owner of None \<Rightarrow> W1 | Some n \<Rightarrow> index_derived n ty e W1)"

text \<open>
  Everything an insertion does before relationship maintenance: revision, counters, presence,
  log, store, index and ownership.  Returns the entry it replaced.
\<close>

definition insert_entry ::
  "'v component_trait \<Rightarrow> type_id \<Rightarrow> entity \<Rightarrow> 'v cvalue \<Rightarrow> system_invocation option \<Rightarrow> 'v world \<Rightarrow>
   'v component_entry option \<times> 'v world" where
  "insert_entry ct ty e v owner W =
     (let fp = fingerprint ct ty v;
          (revision, r') = insert_revision ct ty (entry_of W ty e) fp (w_revision W);
          W1 = W\<lparr>w_revision := r',
                 w_mutations := if fingerprint_matches (entry_of W ty e) fp then w_mutations W
                   else w_mutations W + 1,
                 w_written_derived := if owner = None then w_written_derived W
                   else w_written_derived W @ [(ty, e)]\<rparr>;
          W2 = log_write ty e (w_presence_set ty e True W1);
          en = \<lparr>ce_value = v, ce_revision = revision, ce_fingerprint = fp, ce_owner = owner\<rparr>;
          (previous, s') = store_insert e en (stores_get_or_insert ty (w_stores W2));
          W3 = put_store ty s' W2
      in (previous, transfer_owner (Option.bind previous ce_owner) owner ty e W3))"

text \<open>
  \<open>insert\<close> over the maintainers of a relationship's inverse.  \<open>insert_value\<close> is the part after
  the anchors are settled: singleton registration, the entry, then the inverse when the target
  changed.  \<open>insert_body\<close> adds the deferral or capture of \<open>DerivedFrom\<close> anchors.
\<close>

definition insert_value ::
  "(nat \<Rightarrow> entity \<Rightarrow> entity \<Rightarrow> 'v world \<Rightarrow> 'v world option) \<Rightarrow>
   (nat \<Rightarrow> entity \<Rightarrow> entity \<Rightarrow> 'v world \<Rightarrow> 'v world option) \<Rightarrow>
   'v component_trait \<Rightarrow> type_id \<Rightarrow> entity \<Rightarrow> 'v cvalue \<Rightarrow> system_invocation option \<Rightarrow>
   'v world \<Rightarrow> 'v world option" where
  "insert_value add remove ct ty e value owner W = do {
     let edge = relationship_edge ct ty value;
     W0 \<leftarrow> register_singleton ty e W;
     let (previous, W1) = insert_entry ct ty e value owner W0;
     let previous_edge = Option.bind previous (\<lambda>p. relationship_edge ct ty (ce_value p));
     if map_option snd previous_edge \<noteq> map_option snd edge then do {
       W2 \<leftarrow> (case previous_edge of None \<Rightarrow> Some W1 | Some (iv, t) \<Rightarrow> remove iv e t W1);
       (case edge of None \<Rightarrow> Some W2 | Some (iv, t) \<Rightarrow> add iv e t W2)
     } else Some W1 }"

definition insert_body ::
  "(nat \<Rightarrow> entity \<Rightarrow> entity \<Rightarrow> 'v world \<Rightarrow> 'v world option) \<Rightarrow>
   (nat \<Rightarrow> entity \<Rightarrow> entity \<Rightarrow> 'v world \<Rightarrow> 'v world option) \<Rightarrow>
   'v component_trait \<Rightarrow> type_id \<Rightarrow> entity \<Rightarrow> 'v cvalue \<Rightarrow> system_invocation option \<Rightarrow>
   'v world \<Rightarrow> 'v world option" where
  "insert_body add remove ct ty e v owner W = (case v of
     DerivedFromV anchors \<Rightarrow>
       if \<not> w_flushing W then Some (W\<lparr>w_pending := w_pending W @ [(e, anchors, owner)]\<rparr>)
       else insert_value add remove ct ty e
         (DerivedFromV (derived_from_capture (entity_revision ct W) anchors)) owner W
   | _ \<Rightarrow> insert_value add remove ct ty e v owner W)"

section \<open>Removal of one component\<close>

definition deregister_singleton :: "type_id \<Rightarrow> entity \<Rightarrow> 'v world \<Rightarrow> 'v world" where
  "deregister_singleton ty e W = (case singleton_key ty of
     None \<Rightarrow> W
   | Some key \<Rightarrow> if map_of (w_singletons W) key = Some e
       then W\<lparr>w_singletons := AList.delete key (w_singletons W)\<rparr> else W)"

text \<open>
  Dropping a stored entry: presence, log, counters and watermark.  Shared by
  \<open>remove_component\<close> and the sweeps.
\<close>

definition drop_entry :: "type_id \<Rightarrow> entity \<Rightarrow> 'v store \<Rightarrow> 'v world \<Rightarrow> 'v world" where
  "drop_entry ty e s W =
     (let W1 = log_write ty e (w_presence_set ty e False (put_store ty s W));
          W2 = W1\<lparr>w_mutations := w_mutations W1 + 1, w_revision := w_revision W1 + 1\<rparr>
      in put_store ty (bump_watermark (w_revision W2) s) W2)"

definition remove_body ::
  "(nat \<Rightarrow> entity \<Rightarrow> entity \<Rightarrow> 'v world \<Rightarrow> 'v world option) \<Rightarrow>
   'v component_trait \<Rightarrow> type_id \<Rightarrow> entity \<Rightarrow> system_invocation option \<Rightarrow>
   'v world \<Rightarrow> 'v world option" where
  "remove_body remove ct ty e remover W = (case stores_get ty (w_stores W) of
     None \<Rightarrow> Some W
   | Some s \<Rightarrow> (case store_remove e s of
       None \<Rightarrow> Some W
     | Some (en, s') \<Rightarrow>
         let W1 = drop_entry ty e s' W;
             W2 = (case ce_owner en of
                 None \<Rightarrow> W1
               | Some owner \<Rightarrow>
                   let W' = unindex_derived owner ty e W1 in
                   if remover \<noteq> Some owner
                   then W'\<lparr>w_removed_component_owners := w_removed_component_owners W' @ [owner]\<rparr>
                   else W');
             W3 = deregister_singleton ty e W2
         in (case relationship_edge ct ty (ce_value en) of
               None \<Rightarrow> Some W3
             | Some (iv, target) \<Rightarrow> remove iv e target W3)))"

section \<open>Relationship maintenance\<close>

text \<open>
  \<open>binary_search\<close> on a sorted slice: the position of the element, or where to insert it.
\<close>

definition binary_search :: "entity list \<Rightarrow> entity \<Rightarrow> nat + nat" where
  "binary_search xs x =
     (let i = length (takeWhile (\<lambda>y. y < x) xs) in if x \<in> set xs then Inl i else Inr i)"

definition relationship_add_member ::
  "(type_id \<Rightarrow> entity \<Rightarrow> 'v cvalue \<Rightarrow> system_invocation option \<Rightarrow> 'v world \<Rightarrow> 'v world option) \<Rightarrow>
   'v component_trait \<Rightarrow> nat \<Rightarrow> entity \<Rightarrow> entity \<Rightarrow> 'v world \<Rightarrow> 'v world option" where
  "relationship_add_member ins ct iv source target W =
     (let members = (case entry_of W (UserTy iv) target of
            None \<Rightarrow> [] | Some en \<Rightarrow> relationship_members ct iv (ce_value en))
      in case binary_search members source of
           Inl _ \<Rightarrow> Some W
         | Inr i \<Rightarrow> ins (UserTy iv) target
             (UserV (ct_from_members ct iv (take i members @ source # drop i members))) None W)"

definition relationship_remove_member ::
  "(type_id \<Rightarrow> entity \<Rightarrow> 'v cvalue \<Rightarrow> system_invocation option \<Rightarrow> 'v world \<Rightarrow> 'v world option) \<Rightarrow>
   (type_id \<Rightarrow> entity \<Rightarrow> system_invocation option \<Rightarrow> 'v world \<Rightarrow> 'v world option) \<Rightarrow>
   'v component_trait \<Rightarrow> nat \<Rightarrow> entity \<Rightarrow> entity \<Rightarrow> 'v world \<Rightarrow> 'v world option" where
  "relationship_remove_member ins rem ct iv source target W =
     (case entry_of W (UserTy iv) target of
        None \<Rightarrow> Some W
      | Some en \<Rightarrow>
          let members = relationship_members ct iv (ce_value en) in
          (case binary_search members source of
             Inr _ \<Rightarrow> Some W
           | Inl i \<Rightarrow>
               let members' = take i members @ drop (Suc i) members in
               if members' = [] then rem (UserTy iv) target None W
               else ins (UserTy iv) target (UserV (ct_from_members ct iv members')) None W))"

text \<open>
  Insertion and removal call each other through the maintainers.  The fuel bounds the depth of
  that nesting: an edge maintains an inverse, and an inverse is not an edge, so two levels are
  enough (\<open>world_insert_total\<close>, \<open>remove_component_total\<close>).
\<close>

fun insert_at :: "nat \<Rightarrow> 'v component_trait \<Rightarrow>
      type_id \<Rightarrow> entity \<Rightarrow> 'v cvalue \<Rightarrow> system_invocation option \<Rightarrow> 'v world \<Rightarrow> 'v world option"
  and remove_at :: "nat \<Rightarrow> 'v component_trait \<Rightarrow>
      type_id \<Rightarrow> entity \<Rightarrow> system_invocation option \<Rightarrow> 'v world \<Rightarrow> 'v world option" where
  "insert_at 0 ct = (\<lambda>ty e v owner W. None)"
| "insert_at (Suc n) ct = insert_body (relationship_add_member (insert_at n ct) ct)
     (relationship_remove_member (insert_at n ct) (remove_at n ct) ct) ct"
| "remove_at 0 ct = (\<lambda>ty e remover W. None)"
| "remove_at (Suc n) ct =
     remove_body (relationship_remove_member (insert_at n ct) (remove_at n ct) ct) ct"

definition world_insert :: "'v component_trait \<Rightarrow> type_id \<Rightarrow> entity \<Rightarrow> 'v cvalue \<Rightarrow>
    system_invocation option \<Rightarrow> 'v world \<Rightarrow> 'v world option" where
  "world_insert ct = insert_at 2 ct"

definition remove_component :: "'v component_trait \<Rightarrow> type_id \<Rightarrow> entity \<Rightarrow>
    system_invocation option \<Rightarrow> 'v world \<Rightarrow> 'v world option" where
  "remove_component ct = remove_at 2 ct"

definition remove_member :: "'v component_trait \<Rightarrow> nat \<Rightarrow> entity \<Rightarrow> entity \<Rightarrow> 'v world \<Rightarrow> 'v world option" where
  "remove_member ct = relationship_remove_member (insert_at 1 ct) (remove_at 1 ct) ct"

definition insert_base :: "'v component_trait \<Rightarrow> type_id \<Rightarrow> entity \<Rightarrow> 'v cvalue \<Rightarrow> 'v world \<Rightarrow> 'v world option" where
  "insert_base ct ty e v W = world_insert ct ty e v None W"

definition insert_derived :: "'v component_trait \<Rightarrow> type_id \<Rightarrow> entity \<Rightarrow> 'v cvalue \<Rightarrow>
    system_invocation \<Rightarrow> 'v world \<Rightarrow> 'v world option" where
  "insert_derived ct ty e v owner W = world_insert ct ty e v (Some owner) W"

definition flush_derived_from :: "'v component_trait \<Rightarrow> 'v world \<Rightarrow> 'v world option" where
  "flush_derived_from ct W =
     (if w_pending W = [] then Some W
      else do {
        W' \<leftarrow> fold_opt (\<lambda>(e, anchors, owner). world_insert ct DerivedFromTy e (DerivedFromV anchors) owner)
               (w_pending W) (W\<lparr>w_pending := [], w_flushing := True\<rparr>);
        Some (W'\<lparr>w_flushing := False\<rparr>) })"


section \<open>Spawn slots and singletons\<close>

definition spawn_empty :: "'v world \<Rightarrow> entity \<times> 'v world" where
  "spawn_empty W = (w_next_entity W, W\<lparr>w_next_entity := w_next_entity W + 1\<rparr>)"

definition singleton_entity_or_spawn :: "type_id \<Rightarrow> 'v world \<Rightarrow> entity \<times> 'v world" where
  "singleton_entity_or_spawn key W = (case map_of (w_singletons W) key of
     Some e \<Rightarrow> (e, W)
   | None \<Rightarrow> (let (e, W') = spawn_empty W in
       (e, W'\<lparr>w_singletons := AList.update key e (w_singletons W')\<rparr>)))"

definition singleton_entity_or_register :: "type_id \<Rightarrow> entity \<Rightarrow> 'v world \<Rightarrow> entity \<times> 'v world" where
  "singleton_entity_or_register key candidate W = (case map_of (w_singletons W) key of
     Some e \<Rightarrow> (e, W)
   | None \<Rightarrow> (candidate, W\<lparr>w_singletons := AList.update key candidate (w_singletons W)\<rparr>))"

definition cursor_of :: "'v world \<Rightarrow> system_invocation \<Rightarrow> nat" where
  "cursor_of W owner = (case map_of (w_cursors W) owner of None \<Rightarrow> 0 | Some c \<Rightarrow> c)"

definition spawn_slots :: "'v world \<Rightarrow> system_invocation \<Rightarrow> entity list" where
  "spawn_slots W owner = (case map_of (w_spawns W) owner of None \<Rightarrow> [] | Some es \<Rightarrow> es)"

definition record_derived_spawn :: "system_invocation \<Rightarrow> entity \<Rightarrow> 'v world \<Rightarrow> 'v world" where
  "record_derived_spawn owner e W =
     (let slot = cursor_of W owner;
          es = spawn_slots W owner;
          es' = (if slot < length es then es[slot := e] else es @ [e])
      in W\<lparr>w_cursors := AList.update owner (slot + 1) (w_cursors W),
           w_spawns := AList.update owner es' (w_spawns W)\<rparr>)"

definition finish_derived_spawns :: "system_invocation \<Rightarrow> 'v world \<Rightarrow> 'v world" where
  "finish_derived_spawns owner W =
     (let c = cursor_of W owner;
          W1 = W\<lparr>w_cursors := AList.delete owner (w_cursors W)\<rparr>
      in case map_of (w_spawns W1) owner of
           None \<Rightarrow> W1
         | Some es \<Rightarrow>
             let es' = take c es in
             W1\<lparr>w_spawns := if es' = [] then AList.delete owner (w_spawns W1)
                 else AList.update owner es' (w_spawns W1)\<rparr>)"

section \<open>In-place writes\<close>

text \<open>The write a system performs through its guard on a shared cell.\<close>

definition write_cell :: "type_id \<Rightarrow> entity \<Rightarrow> 'v cvalue \<Rightarrow> 'v world \<Rightarrow> 'v world" where
  "write_cell ty e v W = (case stores_get ty (w_stores W) of
     None \<Rightarrow> W
   | Some s \<Rightarrow> (case map_of (entries s) e of
       None \<Rightarrow> W
     | Some en \<Rightarrow> put_store ty (s\<lparr>entries := AList.update e (en\<lparr>ce_value := v\<rparr>) (entries s)\<rparr>) W))"

text \<open>One row of \<open>reconcile_written\<close>.\<close>

definition reconcile_row :: "'v component_trait \<Rightarrow> out_pair \<Rightarrow> 'v world \<Rightarrow> 'v world" where
  "reconcile_row ct row W = (case row of (ty, e) \<Rightarrow> (case stores_get ty (w_stores W) of
     None \<Rightarrow> W
   | Some s \<Rightarrow>
       let (s', r') = reconcile_entry ct ty e (w_revision W) s in
       log_write ty e ((put_store ty s' W)\<lparr>w_revision := r'\<rparr>)))"

definition reconcile_written :: "'v component_trait \<Rightarrow> out_pair list \<Rightarrow> 'v world \<Rightarrow> 'v world" where
  "reconcile_written ct writes W = fold (reconcile_row ct) writes W"

datatype 'v try_update = Applied bool "'v world" | Missing | Busy

text \<open>
  \<open>try_update_component_live\<close>; \<open>held\<close> says that the component's cell is locked.  The closure is
  the function on values (its own result is not modelled).  \<open>update_component_live\<close> is the same
  code with a blocking lock: the case \<open>held = False\<close>.
\<close>

definition try_update_component_live ::
  "'v component_trait \<Rightarrow> type_id \<Rightarrow> entity \<Rightarrow> bool \<Rightarrow> ('v cvalue \<Rightarrow> 'v cvalue) \<Rightarrow> 'v world \<Rightarrow> 'v try_update" where
  "try_update_component_live ct ty e held f W = (case stores_get ty (w_stores W) of
     None \<Rightarrow> Missing
   | Some s \<Rightarrow> (case map_of (entries s) e of
       None \<Rightarrow> Missing
     | Some en \<Rightarrow>
         if held then Busy
         else
           let next_revision = w_revision W + 1;
               before = ce_fingerprint en;
               v = f (ce_value en);
               after = fingerprint ct ty v;
               changed = (tracked ct ty \<and> (before = None \<or> before \<noteq> after));
               en' = en\<lparr>ce_value := v, ce_fingerprint := after,
                        ce_revision := if changed then next_revision else ce_revision en\<rparr>;
               s1 = reindex e before after (s\<lparr>entries := AList.update e en' (entries s)\<rparr>);
               s2 = (if changed then bump_watermark next_revision s1 else s1);
               W1 = put_store ty s2 W
           in Applied changed
                (if changed then (log_write ty e W1)\<lparr>w_revision := next_revision\<rparr> else W1)))"

section \<open>Output replacement and retraction\<close>

text \<open>\<open>remove_derived_entry\<close>: whether an entry was removed, and the world afterwards.\<close>

definition remove_derived_entry ::
  "'v component_trait \<Rightarrow> type_id \<Rightarrow> entity \<Rightarrow> system_invocation \<Rightarrow> 'v world \<Rightarrow> (bool \<times> 'v world) option" where
  "remove_derived_entry ct ty e owner W = (case stores_get ty (w_stores W) of
     None \<Rightarrow> Some (False, W)
   | Some s \<Rightarrow>
       let edge = fst (relationship_ops ct ty s e) in
       (case remove_entry_owned e owner s of
          None \<Rightarrow> Some (False, W)
        | Some s' \<Rightarrow>
            let W1 = drop_entry ty e s' W in
            (case edge of
               None \<Rightarrow> Some (True, W1)
             | Some (iv, target) \<Rightarrow> map_option (Pair True) (remove_member ct iv e target W1))))"

text \<open>Sweeping a list of outputs for one owner; collects the entities actually removed.\<close>

fun sweep :: "'v component_trait \<Rightarrow> system_invocation \<Rightarrow> out_pair list \<Rightarrow> 'v world \<Rightarrow> (entity list \<times> 'v world) option" where
  "sweep ct owner [] W = Some ([], W)"
| "sweep ct owner ((ty, e) # os) W = do {
     (hit, W1) \<leftarrow> remove_derived_entry ct ty e owner W;
     (es, W2) \<leftarrow> sweep ct owner os W1;
     Some (if hit then e # es else es, W2) }"

definition remove_derived_owned :: "'v component_trait \<Rightarrow> system_invocation \<Rightarrow> 'v world \<Rightarrow> 'v world option" where
  "remove_derived_owned ct owner W =
     (let W1 = W\<lparr>w_spawns := AList.delete owner (w_spawns W)\<rparr> in
      case map_of (w_owners W1) owner of
        None \<Rightarrow> Some W1
      | Some outputs \<Rightarrow>
          map_option snd (sweep ct owner outputs (W1\<lparr>w_owners := AList.delete owner (w_owners W1)\<rparr>)))"

definition take_derived_outputs :: "system_invocation \<Rightarrow> 'v world \<Rightarrow> out_pair list \<times> 'v world" where
  "take_derived_outputs owner W = (outputs_of W owner, W\<lparr>w_owners := AList.delete owner (w_owners W)\<rparr>)"

fun remove_derived_stale ::
  "'v component_trait \<Rightarrow> system_invocation \<Rightarrow> out_pair list \<Rightarrow> 'v world \<Rightarrow> 'v world option" where
  "remove_derived_stale ct owner [] W = Some W"
| "remove_derived_stale ct owner ((ty, e) # previous) W =
     (if (ty, e) \<in> set (outputs_of W owner) then remove_derived_stale ct owner previous W
      else do {
        (_, W1) \<leftarrow> remove_derived_entry ct ty e owner W;
        remove_derived_stale ct owner previous W1 })"

definition has_derived_owned :: "'v world \<Rightarrow> system_invocation \<Rightarrow> bool" where
  "has_derived_owned W owner \<longleftrightarrow> outputs_of W owner \<noteq> []"

text \<open>Owners selected by \<open>remove_derived_touched_by_systems\<close>; \<open>None\<close> selects every system.\<close>

definition owner_touched :: "entity set \<Rightarrow> nat set option \<Rightarrow> system_invocation \<Rightarrow> bool" where
  "owner_touched keys systems owner \<longleftrightarrow>
     (case systems of None \<Rightarrow> True | Some ss \<Rightarrow> inv_system owner \<in> ss)
     \<and> list_ex (\<lambda>k. k \<in> keys) (inv_keys owner)"

fun retire_owners ::
  "'v component_trait \<Rightarrow> system_invocation list \<Rightarrow> 'v world \<Rightarrow> (entity list \<times> 'v world) option" where
  "retire_owners ct [] W = Some ([], W)"
| "retire_owners ct (owner # owners) W =
     (let W1 = W\<lparr>w_spawns := AList.delete owner (w_spawns W)\<rparr> in
      case map_of (w_owners W1) owner of
        None \<Rightarrow> retire_owners ct owners W1
      | Some outputs \<Rightarrow> do {
          (es, W2) \<leftarrow> sweep ct owner outputs (W1\<lparr>w_owners := AList.delete owner (w_owners W1)\<rparr>);
          (es', W3) \<leftarrow> retire_owners ct owners W2;
          Some (es @ es', W3) })"

definition remove_derived_touched_by_systems ::
  "'v component_trait \<Rightarrow> entity set \<Rightarrow> nat set option \<Rightarrow> 'v world \<Rightarrow> (entity list \<times> 'v world) option" where
  "remove_derived_touched_by_systems ct keys systems W =
     retire_owners ct (filter (owner_touched keys systems) (map fst (w_owners W))) W"

section \<open>Removal of an entity\<close>

text \<open>
  The loop over the stores: per store that holds the entity, the revision moves and the owner
  and type are collected.
\<close>

fun remove_from_stores ::
  "entity \<Rightarrow> type_id list \<Rightarrow> 'v world \<Rightarrow> (type_id \<times> system_invocation option) list \<times> 'v world" where
  "remove_from_stores e [] W = ([], W)"
| "remove_from_stores e (ty # tys) W =
     (case Option.bind (stores_get ty (w_stores W)) (remove_entity_entry e (w_revision W)) of
        None \<Rightarrow> remove_from_stores e tys W
      | Some (owner, s', r') \<Rightarrow>
          let W1 = (put_store ty s' W)\<lparr>w_revision := r', w_mutations := w_mutations W + 1\<rparr>;
              (removed, W2) = remove_from_stores e tys W1
          in ((ty, owner) # removed, W2))"

definition entity_edges :: "'v component_trait \<Rightarrow> 'v world \<Rightarrow> entity \<Rightarrow> (nat \<times> entity) list" where
  "entity_edges ct W e =
     List.map_filter (\<lambda>(ty, s). fst (relationship_ops ct ty s e)) (stores_list (w_stores W))"

definition entity_retractions :: "'v component_trait \<Rightarrow> 'v world \<Rightarrow> entity \<Rightarrow> (nat \<times> entity) list" where
  "entity_retractions ct W e =
     concat (map (\<lambda>(ty, s). snd (relationship_ops ct ty s e)) (stores_list (w_stores W)))"

definition remove_entity ::
  "'v component_trait \<Rightarrow> entity \<Rightarrow> 'v world \<Rightarrow> (system_invocation list \<times> 'v world) option" where
  "remove_entity ct e W =
     (let edges = entity_edges ct W e;
          retractions = entity_retractions ct W e;
          (removed, W1) = remove_from_stores e (map fst (stores_list (w_stores W))) W;
          owners = List.map_filter snd removed;
          W2 = fold (\<lambda>(ty, _). log_write ty e) removed W1;
          W3 = fold (\<lambda>(ty, owner) W. case owner of None \<Rightarrow> W | Some ow \<Rightarrow> unindex_derived ow ty e W) removed W2;
          W4 = w_presence_clear e (W3\<lparr>
                 w_singletons := filter (\<lambda>p. snd p \<noteq> e) (w_singletons W3),
                 w_removed_entities := w_removed_entities W3 @ [e]\<rparr>)
      in do {
        W5 \<leftarrow> fold_opt (\<lambda>(iv, target). remove_member ct iv e target) edges W4;
        W6 \<leftarrow> fold_opt (\<lambda>(edge, source). remove_component ct (UserTy edge) source None) retractions W5;
        Some (owners, W6\<lparr>w_removed_owners := w_removed_owners W6 @ owners\<rparr>) })"

section \<open>The planning log\<close>

definition plan_log_budget :: nat where
  "plan_log_budget = 4096"

text \<open>The panic is the overflow of the epoch counter; \<open>None\<close> inside means the log is kept.\<close>

definition maybe_roll_plan_epoch ::
  "'v world \<Rightarrow> ((64 word \<times> out_pair list) option \<times> 'v world) option" where
  "maybe_roll_plan_epoch W =
     (if length (w_log W) \<le> plan_log_budget then Some (None, W)
      else if w_plan_epoch W = - 1 then None
      else Some (Some (w_plan_epoch W, w_log W),
             W\<lparr>w_plan_epoch := w_plan_epoch W + 1, w_log := []\<rparr>))"

definition take_removed_entities :: "'v world \<Rightarrow> entity list \<times> 'v world" where
  "take_removed_entities W = (w_removed_entities W, W\<lparr>w_removed_entities := []\<rparr>)"

definition take_removed_owners :: "'v world \<Rightarrow> system_invocation list \<times> 'v world" where
  "take_removed_owners W = (w_removed_owners W, W\<lparr>w_removed_owners := []\<rparr>)"

definition take_removed_component_owners :: "'v world \<Rightarrow> system_invocation list \<times> 'v world" where
  "take_removed_component_owners W =
     (w_removed_component_owners W, W\<lparr>w_removed_component_owners := []\<rparr>)"

definition take_written_derived :: "'v world \<Rightarrow> out_pair list \<times> 'v world" where
  "take_written_derived W = (w_written_derived W, W\<lparr>w_written_derived := []\<rparr>)"

end
