(* ===== verification/World_Inv.thy ===== *)
theory World_Inv
  imports World
begin

text \<open>
  The world's invariant and its preservation by every write path: the store table is well
  formed, every store keeps its fingerprint index, watermark and revisions coherent, the
  presence bitmap agrees with the stores, the ownership index agrees with the owners stamped
  on the entries, and a singleton marker sits on the registered entity.
\<close>

section \<open>Field lemmas\<close>

lemma log_write_fields [simp]:
  "w_stores (log_write ty e W) = w_stores W" "w_revision (log_write ty e W) = w_revision W"
  "w_owners (log_write ty e W) = w_owners W" "w_singletons (log_write ty e W) = w_singletons W"
  "w_presence (log_write ty e W) = w_presence W" "w_spawns (log_write ty e W) = w_spawns W"
  "w_cursors (log_write ty e W) = w_cursors W" "w_pending (log_write ty e W) = w_pending W"
  "w_flushing (log_write ty e W) = w_flushing W" "w_mutations (log_write ty e W) = w_mutations W"
  "w_log (log_write ty e W) = w_log W @ [(ty, e)]" "w_next_entity (log_write ty e W) = w_next_entity W"
  "w_removed_entities (log_write ty e W) = w_removed_entities W"
  "w_removed_owners (log_write ty e W) = w_removed_owners W"
  "w_removed_component_owners (log_write ty e W) = w_removed_component_owners W"
  "w_plan_epoch (log_write ty e W) = w_plan_epoch W"
  by (simp_all add: log_write_def)

lemma w_presence_set_fields [simp]:
  "w_stores (w_presence_set ty e b W) = w_stores W" "w_revision (w_presence_set ty e b W) = w_revision W"
  "w_owners (w_presence_set ty e b W) = w_owners W" "w_singletons (w_presence_set ty e b W) = w_singletons W"
  "w_presence (w_presence_set ty e b W) = map_option (presence_set ty e b) (w_presence W)"
  "w_spawns (w_presence_set ty e b W) = w_spawns W" "w_cursors (w_presence_set ty e b W) = w_cursors W"
  "w_pending (w_presence_set ty e b W) = w_pending W" "w_flushing (w_presence_set ty e b W) = w_flushing W"
  "w_mutations (w_presence_set ty e b W) = w_mutations W" "w_log (w_presence_set ty e b W) = w_log W"
  "w_next_entity (w_presence_set ty e b W) = w_next_entity W"
  "w_removed_entities (w_presence_set ty e b W) = w_removed_entities W"
  "w_removed_owners (w_presence_set ty e b W) = w_removed_owners W"
  "w_removed_component_owners (w_presence_set ty e b W) = w_removed_component_owners W"
  "w_plan_epoch (w_presence_set ty e b W) = w_plan_epoch W"
  by (simp_all add: w_presence_set_def)

lemma put_store_fields [simp]:
  "w_stores (put_store ty s W) = stores_put ty s (w_stores W)" "w_revision (put_store ty s W) = w_revision W"
  "w_owners (put_store ty s W) = w_owners W" "w_singletons (put_store ty s W) = w_singletons W"
  "w_presence (put_store ty s W) = w_presence W" "w_spawns (put_store ty s W) = w_spawns W"
  "w_cursors (put_store ty s W) = w_cursors W" "w_pending (put_store ty s W) = w_pending W"
  "w_flushing (put_store ty s W) = w_flushing W" "w_mutations (put_store ty s W) = w_mutations W"
  "w_log (put_store ty s W) = w_log W" "w_next_entity (put_store ty s W) = w_next_entity W"
  "w_removed_entities (put_store ty s W) = w_removed_entities W"
  "w_removed_owners (put_store ty s W) = w_removed_owners W"
  "w_removed_component_owners (put_store ty s W) = w_removed_component_owners W"
  "w_plan_epoch (put_store ty s W) = w_plan_epoch W"
  by (simp_all add: put_store_def)

lemma unindex_derived_fields [simp]:
  "w_stores (unindex_derived ow ty e W) = w_stores W" "w_revision (unindex_derived ow ty e W) = w_revision W"
  "w_singletons (unindex_derived ow ty e W) = w_singletons W"
  "w_presence (unindex_derived ow ty e W) = w_presence W" "w_spawns (unindex_derived ow ty e W) = w_spawns W"
  "w_cursors (unindex_derived ow ty e W) = w_cursors W" "w_pending (unindex_derived ow ty e W) = w_pending W"
  "w_flushing (unindex_derived ow ty e W) = w_flushing W" "w_mutations (unindex_derived ow ty e W) = w_mutations W"
  "w_log (unindex_derived ow ty e W) = w_log W" "w_next_entity (unindex_derived ow ty e W) = w_next_entity W"
  "w_removed_entities (unindex_derived ow ty e W) = w_removed_entities W"
  "w_removed_owners (unindex_derived ow ty e W) = w_removed_owners W"
  "w_removed_component_owners (unindex_derived ow ty e W) = w_removed_component_owners W"
  "w_plan_epoch (unindex_derived ow ty e W) = w_plan_epoch W"
  by (simp_all add: unindex_derived_def Let_def split: option.splits)

lemma index_derived_fields [simp]:
  "w_stores (index_derived ow ty e W) = w_stores W" "w_revision (index_derived ow ty e W) = w_revision W"
  "w_singletons (index_derived ow ty e W) = w_singletons W"
  "w_presence (index_derived ow ty e W) = w_presence W" "w_spawns (index_derived ow ty e W) = w_spawns W"
  "w_cursors (index_derived ow ty e W) = w_cursors W" "w_pending (index_derived ow ty e W) = w_pending W"
  "w_flushing (index_derived ow ty e W) = w_flushing W" "w_mutations (index_derived ow ty e W) = w_mutations W"
  "w_log (index_derived ow ty e W) = w_log W" "w_next_entity (index_derived ow ty e W) = w_next_entity W"
  "w_removed_entities (index_derived ow ty e W) = w_removed_entities W"
  "w_removed_owners (index_derived ow ty e W) = w_removed_owners W"
  "w_removed_component_owners (index_derived ow ty e W) = w_removed_component_owners W"
  "w_plan_epoch (index_derived ow ty e W) = w_plan_epoch W"
  by (simp_all add: index_derived_def)

lemma transfer_owner_fields [simp]:
  "w_stores (transfer_owner old new ty e W) = w_stores W" "w_revision (transfer_owner old new ty e W) = w_revision W"
  "w_singletons (transfer_owner old new ty e W) = w_singletons W"
  "w_presence (transfer_owner old new ty e W) = w_presence W" "w_spawns (transfer_owner old new ty e W) = w_spawns W"
  "w_cursors (transfer_owner old new ty e W) = w_cursors W" "w_pending (transfer_owner old new ty e W) = w_pending W"
  "w_flushing (transfer_owner old new ty e W) = w_flushing W" "w_mutations (transfer_owner old new ty e W) = w_mutations W"
  "w_log (transfer_owner old new ty e W) = w_log W" "w_next_entity (transfer_owner old new ty e W) = w_next_entity W"
  "w_removed_entities (transfer_owner old new ty e W) = w_removed_entities W"
  "w_removed_owners (transfer_owner old new ty e W) = w_removed_owners W"
  "w_removed_component_owners (transfer_owner old new ty e W) = w_removed_component_owners W"
  "w_plan_epoch (transfer_owner old new ty e W) = w_plan_epoch W"
  by (simp_all add: transfer_owner_def Let_def split: option.split)

lemma entry_of_stores: "w_stores W = w_stores W' \<Longrightarrow> entry_of W = entry_of W'"
  by (simp add: entry_of_def fun_eq_iff)

lemma outputs_of_cong: "w_owners W = w_owners W' \<Longrightarrow> outputs_of W = outputs_of W'"
  by (simp add: outputs_of_def fun_eq_iff)

lemma outputs_of_unindex:
  "outputs_of (unindex_derived ow ty e W) ow' =
    (if ow' = ow then removeAll (ty, e) (outputs_of W ow) else outputs_of W ow')"
  by (auto simp: outputs_of_def unindex_derived_def Let_def alist_simps split: option.splits)

lemma outputs_of_index:
  "outputs_of (index_derived ow ty e W) ow' =
    (if ow' = ow then List.insert (ty, e) (outputs_of W ow) else outputs_of W ow')"
  by (auto simp: outputs_of_def index_derived_def alist_simps split: option.splits)

section \<open>The invariant\<close>

definition stores_inv :: "'v world \<Rightarrow> bool" where
  "stores_inv W \<longleftrightarrow> stores_wf (w_stores W)
     \<and> (\<forall>ty s. stores_get ty (w_stores W) = Some s \<longrightarrow> store_ok (w_revision W) s)"

definition presence_inv :: "'v world \<Rightarrow> bool" where
  "presence_inv W \<longleftrightarrow> (case w_presence W of None \<Rightarrow> True | Some P \<Rightarrow> presence.tracks P (has_component W))"

lemma presence_inv_mask:
  assumes "presence_inv W" and "w_presence W = Some P" and "presence_mask P tys = Some m"
  shows "presence_matches P e m \<longleftrightarrow> (\<forall>ty\<in>set tys. has_component W ty e)"
    and "tys \<noteq> [] \<Longrightarrow> set (entities_matching P m) = {e. \<forall>ty\<in>set tys. has_component W ty e}
      \<and> sorted_wrt (<) (entities_matching P m)"
proof -
  have t: "presence.tracks P (has_component W)" using assms(1,2) by (simp add: presence_inv_def)
  then have ok: "presence_ok P" by (simp add: presence.tracks_def)
  have u: "\<forall>ty\<in>set tys. present P ty e = has_component W ty e" for e
    using t presence_mask_universe [OF assms(3)] by (simp add: presence.tracks_def)
  show "presence_matches P e m \<longleftrightarrow> (\<forall>ty\<in>set tys. has_component W ty e)"
    using presence_matches_iff [OF ok, of tys e] assms(3) u by simp
  show "set (entities_matching P m) = {e. \<forall>ty\<in>set tys. has_component W ty e}
      \<and> sorted_wrt (<) (entities_matching P m)" if "tys \<noteq> []"
    using entities_matching_spec [OF ok assms(3) that] u by simp
qed

definition owner_of :: "'v world \<Rightarrow> out_pair \<Rightarrow> system_invocation option" where
  "owner_of W p = Option.bind (entry_of W (fst p) (snd p)) ce_owner"

text \<open>
  The index lists exactly the outputs each invocation owns; \<open>X\<close> are the pairs whose index entry
  the commit in progress has taken out and not yet swept or re-indexed.
\<close>

definition owners_wf :: "'v world \<Rightarrow> bool" where
  "owners_wf W \<longleftrightarrow> distinct (map fst (w_owners W))
     \<and> vals_all (\<lambda>os. os \<noteq> [] \<and> distinct os) (w_owners W)"

definition owners_inv :: "(system_invocation \<times> out_pair) set \<Rightarrow> 'v world \<Rightarrow> bool" where
  "owners_inv X W \<longleftrightarrow> owners_wf W
     \<and> (\<forall>ow p. p \<in> set (outputs_of W ow) \<longrightarrow> owner_of W p = Some ow)
     \<and> (\<forall>ow p. owner_of W p = Some ow \<longrightarrow> p \<in> set (outputs_of W ow) \<or> (ow, p) \<in> X)"

definition singletons_inv :: "'v world \<Rightarrow> bool" where
  "singletons_inv W \<longleftrightarrow> distinct (map fst (w_singletons W))
     \<and> (\<forall>key e. has_component W (SingletonTy key) e \<longrightarrow> map_of (w_singletons W) key = Some e)"

definition world_ok :: "(system_invocation \<times> out_pair) set \<Rightarrow> 'v world \<Rightarrow> bool" where
  "world_ok X W \<longleftrightarrow> stores_inv W \<and> presence_inv W \<and> owners_inv X W \<and> singletons_inv W"

lemma world_okD:
  assumes "world_ok X W"
  shows "stores_inv W" "presence_inv W" "owners_inv X W" "singletons_inv W"
  using assms by (simp_all add: world_ok_def)

lemma owners_invD:
  assumes "owners_inv X W"
  shows "owners_wf W" "p \<in> set (outputs_of W ow) \<Longrightarrow> owner_of W p = Some ow"
    "owner_of W p = Some ow \<Longrightarrow> p \<in> set (outputs_of W ow) \<or> (ow, p) \<in> X"
  using assms unfolding owners_inv_def by blast+

lemma outputs_distinct:
  assumes "owners_wf W"
  shows "distinct (outputs_of W ow)"
proof (cases "map_of (w_owners W) ow")
  case (Some os)
  have "vals_all (\<lambda>os. os \<noteq> [] \<and> distinct os) (w_owners W)" using assms by (simp add: owners_wf_def)
  from vals_allD [OF this Some] show ?thesis by (simp add: outputs_of_def Some)
qed (simp add: outputs_of_def)

lemma owners_wf_unindex:
  assumes "owners_wf W"
  shows "owners_wf (unindex_derived ow ty e W)"
proof (cases "map_of (w_owners W) ow")
  case None
  then show ?thesis using assms by (simp add: unindex_derived_def)
next
  case (Some os)
  have "distinct os" using outputs_distinct [OF assms, of ow] Some by (simp add: outputs_of_def)
  then show ?thesis
    using assms by (simp add: Some owners_wf_def unindex_derived_def Let_def distinct_update
        distinct_delete distinct_removeAll vals_all_update vals_all_delete)
qed

lemma owners_wf_index:
  assumes "owners_wf W"
  shows "owners_wf (index_derived ow ty e W)"
proof -
  have "distinct (List.insert (ty, e) (outputs_of W ow))"
    using outputs_distinct [OF assms, of ow] by simp
  moreover have "List.insert (ty, e) (outputs_of W ow) \<noteq> []"
    by (auto simp: List.insert_def)
  ultimately show ?thesis
    using assms by (simp add: owners_wf_def index_derived_def distinct_update vals_all_update)
qed

lemma owners_wf_cong: "w_owners W = w_owners W' \<Longrightarrow> owners_wf W = owners_wf W'"
  by (simp add: owners_wf_def)

lemma owners_wf_take: "owners_wf W \<Longrightarrow> owners_wf (W\<lparr>w_owners := AList.delete ow (w_owners W)\<rparr>)"
  by (simp add: owners_wf_def vals_all_delete distinct_delete)

lemma entry_of_put:
  assumes "stores_wf (w_stores W)"
  shows "entry_of (put_store ty s W) ty' e = (if ty' = ty then map_of (entries s) e else entry_of W ty' e)"
  by (simp add: entry_of_def table.get_put [OF assms])

lemma stores_inv_put:
  assumes "stores_inv W" and "w_stores W' = stores_put ty s (w_stores W)"
    and "w_revision W \<le> w_revision W'" and "store_ok (w_revision W') s"
  shows "stores_inv W'"
  unfolding stores_inv_def
proof (intro conjI allI impI)
  have wf: "stores_wf (w_stores W)" using assms(1) by (simp add: stores_inv_def)
  then show "stores_wf (w_stores W')" by (simp add: assms(2) table.wf_put)
  fix ty' s'
  assume "stores_get ty' (w_stores W') = Some s'"
  then show "store_ok (w_revision W') s'"
    using assms(1,3,4) unfolding assms(2) table.get_put [OF wf]
    by (auto simp: stores_inv_def intro: store_ok_mono split: if_splits)
qed

lemma stores_inv_cong:
  "w_stores W' = w_stores W \<Longrightarrow> w_revision W \<le> w_revision W' \<Longrightarrow> stores_inv W \<Longrightarrow> stores_inv W'"
  by (auto simp: stores_inv_def intro: store_ok_mono)

lemma presence_inv_set:
  assumes "presence_inv W" and "w_presence W' = map_option (presence_set ty e b) (w_presence W)"
    and "\<And>ty' e'. has_component W' ty' e' = (if ty' = ty \<and> e' = e then b else has_component W ty' e')"
  shows "presence_inv W'"
  using assms presence.tracks_set [of _ "has_component W" "has_component W'" ty e b]
  by (auto simp: presence_inv_def split: option.splits)


text \<open>An entry at \<open>p\<close> gets a new owner, or none, and the index follows.\<close>

lemma owners_inv_replace:
  assumes inv: "owners_inv X W" and wf: "owners_wf W'"
    and own: "\<And>q. owner_of W' q = (if q = p then new else owner_of W q)"
    and out: "\<And>ow. set (outputs_of W' ow) =
      (if new = Some ow then insert p (set (outputs_of W ow)) else set (outputs_of W ow) - {p})"
  shows "owners_inv X W'"
  unfolding owners_inv_def
proof (intro conjI allI impI wf)
  fix ow q
  show "owner_of W' q = Some ow" if "q \<in> set (outputs_of W' ow)"
    using that owners_invD(2) [OF inv, of q ow] unfolding own out by (auto split: if_splits)
  show "q \<in> set (outputs_of W' ow) \<or> (ow, q) \<in> X" if "owner_of W' q = Some ow"
    using that owners_invD(3) [OF inv, of q ow] unfolding own out by (auto split: if_splits)
qed

lemma owners_inv_mono: "owners_inv X W \<Longrightarrow> X \<subseteq> Y \<Longrightarrow> owners_inv Y W"
  unfolding owners_inv_def by blast

section \<open>Insertion\<close>

lemma insert_revision_bounds:
  assumes "insert_revision ct ty previous fp r = (revision, r')"
    and "\<And>p. previous = Some p \<Longrightarrow> ce_revision p \<le> r"
  shows "r \<le> r'" and "revision \<le> r'" and "r' \<le> r + 1"
  using assms by (auto simp: insert_revision_def split: if_splits option.splits prod.splits)

text \<open>What \<open>insert_entry\<close> leaves behind, field by field.\<close>

lemma stores_inv_entry_revision:
  assumes "stores_inv W" and "entry_of W ty e = Some en"
  shows "ce_revision en \<le> store_watermark W ty" and "store_watermark W ty \<le> w_revision W"
proof -
  obtain s where s: "stores_get ty (w_stores W) = Some s" "map_of (entries s) e = Some en"
    using assms(2) by (auto simp: entry_of_def split: Option.bind_splits)
  then have "store_ok (w_revision W) s" using assms(1) by (simp add: stores_inv_def)
  then show "ce_revision en \<le> store_watermark W ty" "store_watermark W ty \<le> w_revision W"
    using s by (auto simp: store_ok_def revisions_ok_def store_watermark_def)
qed

lemma get_or_insert_entries:
  "map_of (entries (stores_get_or_insert ty S)) e = Option.bind (stores_get ty S) (\<lambda>s. map_of (entries s) e)"
  by (simp add: stores_get_or_insert_def store_default_def split: option.splits)

definition inserted_entry :: "'v component_trait \<Rightarrow> type_id \<Rightarrow> entity \<Rightarrow> 'v cvalue \<Rightarrow>
    system_invocation option \<Rightarrow> 'v world \<Rightarrow> 'v component_entry" where
  "inserted_entry ct ty e v owner W =
     \<lparr>ce_value = v,
      ce_revision = fst (insert_revision ct ty (entry_of W ty e) (fingerprint ct ty v) (w_revision W)),
      ce_fingerprint = fingerprint ct ty v, ce_owner = owner\<rparr>"

lemma insert_entry_fields:
  assumes "insert_entry ct ty e v owner W = (previous, W')"
  shows "previous = entry_of W ty e"
    and "w_stores W' = stores_put ty (snd (store_insert e (inserted_entry ct ty e v owner W)
           (stores_get_or_insert ty (w_stores W)))) (w_stores W)"
    and "w_revision W' = snd (insert_revision ct ty (entry_of W ty e) (fingerprint ct ty v) (w_revision W))"
    and "w_presence W' = map_option (presence_set ty e True) (w_presence W)"
    and "w_log W' = w_log W @ [(ty, e)]"
    and "w_singletons W' = w_singletons W" "w_spawns W' = w_spawns W" "w_cursors W' = w_cursors W"
      "w_pending W' = w_pending W" "w_flushing W' = w_flushing W" "w_next_entity W' = w_next_entity W"
      "w_removed_entities W' = w_removed_entities W" "w_removed_owners W' = w_removed_owners W"
      "w_removed_component_owners W' = w_removed_component_owners W" "w_plan_epoch W' = w_plan_epoch W"
    and "w_mutations W' = (if fingerprint_matches (entry_of W ty e) (fingerprint ct ty v)
           then w_mutations W else w_mutations W + 1)"
proof -
  obtain revision r' where r: "insert_revision ct ty (entry_of W ty e) (fingerprint ct ty v) (w_revision W)
      = (revision, r')" by (rule prod.exhaust)
  obtain pr s' where si: "store_insert e (inserted_entry ct ty e v owner W)
      (stores_get_or_insert ty (w_stores W)) = (pr, s')" by (rule prod.exhaust)
  have en: "inserted_entry ct ty e v owner W = \<lparr>ce_value = v, ce_revision = revision,
      ce_fingerprint = fingerprint ct ty v, ce_owner = owner\<rparr>"
    by (simp add: inserted_entry_def r)
  have pr: "pr = entry_of W ty e"
    using store_insert_entries(2) [of e "inserted_entry ct ty e v owner W" "stores_get_or_insert ty (w_stores W)"]
    by (simp add: si get_or_insert_entries entry_of_def)
  have P: "previous = fst (insert_entry ct ty e v owner W)" by (simp add: assms)
  show "previous = entry_of W ty e"
    unfolding P insert_entry_def Let_def r by (simp add: en [symmetric] si pr)
  have W': "W' = snd (insert_entry ct ty e v owner W)" by (simp add: assms)
  show "w_stores W' = stores_put ty (snd (store_insert e (inserted_entry ct ty e v owner W)
           (stores_get_or_insert ty (w_stores W)))) (w_stores W)"
    "w_revision W' = snd (insert_revision ct ty (entry_of W ty e) (fingerprint ct ty v) (w_revision W))"
    "w_presence W' = map_option (presence_set ty e True) (w_presence W)"
    "w_log W' = w_log W @ [(ty, e)]"
    "w_singletons W' = w_singletons W" "w_spawns W' = w_spawns W" "w_cursors W' = w_cursors W"
    "w_pending W' = w_pending W" "w_flushing W' = w_flushing W" "w_next_entity W' = w_next_entity W"
    "w_removed_entities W' = w_removed_entities W" "w_removed_owners W' = w_removed_owners W"
    "w_removed_component_owners W' = w_removed_component_owners W" "w_plan_epoch W' = w_plan_epoch W"
    "w_mutations W' = (if fingerprint_matches (entry_of W ty e) (fingerprint ct ty v)
       then w_mutations W else w_mutations W + 1)"
    unfolding W' insert_entry_def Let_def r
    by (simp_all add: en [symmetric] si split: option.split)
qed


lemma transfer_owner_outputs:
  "owners_wf W \<Longrightarrow> owners_wf (transfer_owner old new ty e W)"
  "set (outputs_of (transfer_owner old new ty e W) ow) =
    (if new = Some ow then insert (ty, e) (set (outputs_of W ow))
     else if old = Some ow then set (outputs_of W ow) - {(ty, e)}
     else set (outputs_of W ow))"
  by (auto simp: transfer_owner_def Let_def owners_wf_index owners_wf_unindex
      outputs_of_index outputs_of_unindex split: option.split)

lemma insert_entry_outputs:
  assumes "insert_entry ct ty e v owner W = (previous, W')"
  shows "owners_wf W \<Longrightarrow> owners_wf W'"
    and "set (outputs_of W' ow) =
      (if owner = Some ow then insert (ty, e) (set (outputs_of W ow))
       else if Option.bind (entry_of W ty e) ce_owner = Some ow then set (outputs_of W ow) - {(ty, e)}
       else set (outputs_of W ow))"
proof -
  obtain W3 where W3: "w_owners W3 = w_owners W"
      "W' = transfer_owner (Option.bind (entry_of W ty e) ce_owner) owner ty e W3"
  proof
    have "W' = snd (insert_entry ct ty e v owner W)" by (simp add: assms)
    then show "W' = transfer_owner (Option.bind (entry_of W ty e) ce_owner) owner ty e
       (put_store ty (snd (store_insert e (inserted_entry ct ty e v owner W)
          (stores_get_or_insert ty (w_stores W))))
        (log_write ty e (w_presence_set ty e True (W\<lparr>
          w_revision := snd (insert_revision ct ty (entry_of W ty e) (fingerprint ct ty v) (w_revision W)),
          w_mutations := if fingerprint_matches (entry_of W ty e) (fingerprint ct ty v) then w_mutations W
                   else w_mutations W + 1,
          w_written_derived := if owner = None then w_written_derived W
                   else w_written_derived W @ [(ty, e)]\<rparr>))))"
      unfolding insert_entry_def Let_def
      by (simp add: case_prod_beta get_or_insert_entries entry_of_def inserted_entry_def)
  qed simp
  have "outputs_of W3 = outputs_of W" by (rule outputs_of_cong) (rule W3(1))
  then show "set (outputs_of W' ow) =
      (if owner = Some ow then insert (ty, e) (set (outputs_of W ow))
       else if Option.bind (entry_of W ty e) ce_owner = Some ow then set (outputs_of W ow) - {(ty, e)}
       else set (outputs_of W ow))"
    by (simp add: W3(2) transfer_owner_outputs)
  show "owners_wf W'" if "owners_wf W"
    using that owners_wf_cong [OF W3(1)] by (simp add: W3(2) transfer_owner_outputs)
qed

lemma insert_entry_entry_of:
  assumes "stores_inv W" and "insert_entry ct ty e v owner W = (previous, W')"
  shows "entry_of W' ty' e' = (if ty' = ty \<and> e' = e then Some (inserted_entry ct ty e v owner W)
    else entry_of W ty' e')"
proof -
  have wf: "stores_wf (w_stores W)" using assms(1) by (simp add: stores_inv_def)
  show ?thesis
    by (simp add: entry_of_def insert_entry_fields(2) [OF assms(2)] table.get_put [OF wf]
        get_or_insert_entries)
qed

lemma insert_entry_ok:
  assumes ok: "world_ok X W" and ins: "insert_entry ct ty e v owner W = (previous, W')"
    and single: "\<And>key. singleton_key ty = Some key \<Longrightarrow> map_of (w_singletons W) key = Some e"
  shows "world_ok X W'"
proof -
  note inv = world_okD [OF ok]
  note f = insert_entry_fields [OF ins]
  note en = insert_entry_entry_of [OF inv(1) ins]
  let ?en = "inserted_entry ct ty e v owner W"
  obtain revision r' where r: "insert_revision ct ty (entry_of W ty e) (fingerprint ct ty v) (w_revision W)
      = (revision, r')" by (rule prod.exhaust)
  have old: "ce_revision p \<le> w_revision W" if "entry_of W ty e = Some p" for p
    using stores_inv_entry_revision [OF inv(1) that] by linarith
  note b = insert_revision_bounds [OF r old]
  have r': "w_revision W' = r'" "ce_revision ?en = revision" by (simp_all add: f(3) r inserted_entry_def)
  have "stores_inv W'"
  proof (rule stores_inv_put [OF inv(1) f(2)])
    show "w_revision W \<le> w_revision W'" using b r' by simp
    have "store_ok (w_revision W) (stores_get_or_insert ty (w_stores W))"
      using inv(1) by (simp add: stores_get_or_insert_def stores_inv_def split: option.split)
    then show "store_ok (w_revision W') (snd (store_insert e ?en (stores_get_or_insert ty (w_stores W))))"
      using b r' by (intro store_insert_ok) auto
  qed
  moreover have "presence_inv W'"
    by (rule presence_inv_set [OF inv(2) f(4)]) (simp add: has_component_def en)
  moreover have "owners_inv X W'"
  proof (rule owners_inv_replace [OF inv(3), where p = "(ty, e)" and new = owner])
    show "owners_wf W'" by (rule insert_entry_outputs(1) [OF ins owners_invD(1) [OF inv(3)]])
    show "owner_of W' q = (if q = (ty, e) then owner else owner_of W q)" for q
      by (cases q) (simp add: owner_of_def en inserted_entry_def)
    show "set (outputs_of W' ow) = (if owner = Some ow then insert (ty, e) (set (outputs_of W ow))
        else set (outputs_of W ow) - {(ty, e)})" for ow
      using owners_invD(2) [OF inv(3), of "(ty, e)" ow]
      unfolding insert_entry_outputs(2) [OF ins] by (auto simp: owner_of_def)
  qed
  moreover have "singletons_inv W'"
    using inv(4) single by (auto simp: singletons_inv_def f(6) has_component_def en singleton_key_def)
  ultimately show ?thesis by (simp add: world_ok_def)
qed


lemma register_singletonD:
  assumes "register_singleton ty e W = Some W'"
  shows "\<exists>ss. W' = W\<lparr>w_singletons := ss\<rparr> \<and> (distinct (map fst (w_singletons W)) \<longrightarrow> distinct (map fst ss))
      \<and> (\<forall>key x. map_of (w_singletons W) key = Some x \<longrightarrow> map_of ss key = Some x)
      \<and> (\<forall>key. singleton_key ty = Some key \<longrightarrow> map_of ss key = Some e)"
proof (cases "\<exists>key. singleton_key ty = Some key \<and> map_of (w_singletons W) key = None")
  case True
  then obtain key where "singleton_key ty = Some key" "map_of (w_singletons W) key = None" by blast
  then show ?thesis using assms
    by (intro exI [of _ "AList.update key e (w_singletons W)"])
      (auto simp: register_singleton_def distinct_update map_of_update simp del: map_of_eq_None_iff)
next
  case False
  then show ?thesis using assms
    by (intro exI [of _ "w_singletons W"]) (auto simp: register_singleton_def split: option.splits if_splits)
qed

text \<open>The invariant does not read the fields of the pending queue and the drained lists.\<close>

lemma presence_inv_cong:
  "w_presence W' = w_presence W \<Longrightarrow> has_component W' = has_component W \<Longrightarrow> presence_inv W \<Longrightarrow> presence_inv W'"
  by (simp add: presence_inv_def split: option.splits)

lemma owners_inv_cong:
  assumes "w_owners W' = w_owners W" and "entry_of W' = entry_of W" and "owners_inv X W"
  shows "owners_inv X W'"
  using assms(3) outputs_of_cong [OF assms(1)] owners_wf_cong [OF assms(1)]
  by (simp add: owners_inv_def owner_of_def assms(2))

lemma world_ok_cong:
  assumes "w_stores W' = w_stores W" "w_revision W \<le> w_revision W'" "w_presence W' = w_presence W"
    "w_owners W' = w_owners W" "w_singletons W' = w_singletons W" "world_ok X W"
  shows "world_ok X W'"
proof -
  have e: "entry_of W' = entry_of W" by (rule entry_of_stores) (rule assms)
  moreover have "has_component W' = has_component W" by (simp add: has_component_def fun_eq_iff e)
  ultimately show ?thesis
    using assms stores_inv_cong [of W' W] presence_inv_cong [of W' W] owners_inv_cong [of W' W X]
    by (simp add: world_ok_def singletons_inv_def)
qed

lemma register_singleton_ok:
  assumes ok: "world_ok X W" and reg: "register_singleton ty e W = Some W'"
  shows "world_ok X W'" and "singleton_key ty = Some key \<Longrightarrow> map_of (w_singletons W') key = Some e"
proof -
  obtain ss where ss: "W' = W\<lparr>w_singletons := ss\<rparr>"
      "distinct (map fst (w_singletons W)) \<longrightarrow> distinct (map fst ss)"
      "\<And>key x. map_of (w_singletons W) key = Some x \<Longrightarrow> map_of ss key = Some x"
      "\<And>key. singleton_key ty = Some key \<Longrightarrow> map_of ss key = Some e"
    using register_singletonD [OF reg] by blast
  have e: "entry_of W' = entry_of W" by (rule entry_of_stores) (simp add: ss(1))
  moreover have h: "has_component W' = has_component W" by (simp add: has_component_def fun_eq_iff e)
  moreover have "singletons_inv W'"
    using ok ss(2,3) h by (simp add: world_ok_def singletons_inv_def ss(1))
  ultimately show "world_ok X W'"
    using ok stores_inv_cong [of W' W] presence_inv_cong [of W' W] owners_inv_cong [of W' W X]
    by (simp add: world_ok_def ss(1))
  show "map_of (w_singletons W') key = Some e" if "singleton_key ty = Some key"
    using ss(4) [OF that] by (simp add: ss(1))
qed

section \<open>Removal of one component\<close>

lemma drop_entry_fields [simp]:
  "w_revision (drop_entry ty e s W) = w_revision W + 1" "w_owners (drop_entry ty e s W) = w_owners W"
  "w_singletons (drop_entry ty e s W) = w_singletons W" "w_spawns (drop_entry ty e s W) = w_spawns W"
  "w_cursors (drop_entry ty e s W) = w_cursors W" "w_pending (drop_entry ty e s W) = w_pending W"
  "w_flushing (drop_entry ty e s W) = w_flushing W" "w_log (drop_entry ty e s W) = w_log W @ [(ty, e)]"
  "w_presence (drop_entry ty e s W) = map_option (presence_set ty e False) (w_presence W)"
  "w_next_entity (drop_entry ty e s W) = w_next_entity W"
  "w_removed_entities (drop_entry ty e s W) = w_removed_entities W"
  "w_removed_owners (drop_entry ty e s W) = w_removed_owners W"
  "w_removed_component_owners (drop_entry ty e s W) = w_removed_component_owners W"
  "w_plan_epoch (drop_entry ty e s W) = w_plan_epoch W"
  "w_mutations (drop_entry ty e s W) = w_mutations W + 1"
  by (simp_all add: drop_entry_def Let_def)

lemma drop_entry_spec:
  assumes inv: "stores_inv W" and s: "stores_get ty (w_stores W) = Some s" "store_remove e s = Some (en, s')"
  shows "entry_of W ty e = Some en"
    and "entry_of (drop_entry ty e s' W) ty' e' = (if ty' = ty \<and> e' = e then None else entry_of W ty' e')"
    and "stores_inv (drop_entry ty e s' W)"
    and "presence_inv W \<Longrightarrow> presence_inv (drop_entry ty e s' W)"
proof -
  let ?W = "drop_entry ty e s' W"
  have wf: "stores_wf (w_stores W)" and sok: "store_ok (w_revision W) s"
    using inv s by (simp_all add: stores_inv_def)
  note rm = store_removeD [OF s(2)]
  show "entry_of W ty e = Some en" by (simp add: entry_of_def s rm(1))
  have get: "stores_get x (w_stores ?W) =
      (if x = ty then Some (bump_watermark (w_revision W + 1) s') else stores_get x (w_stores W))" for x
    by (simp add: drop_entry_def Let_def table.get_put table.wf_put wf)
  have ents: "map_of (entries s') = (map_of (entries s))(e := None)"
    using rm(3) sok by (simp add: store_ok_def)
  show ent: "entry_of ?W ty' e' = (if ty' = ty \<and> e' = e then None else entry_of W ty' e')" for ty' e'
    by (auto simp: entry_of_def get ents s)
  have "store_ok (w_revision W + 1) (bump_watermark (w_revision W + 1) s')"
    by (rule bump_watermark_ok [OF store_ok_mono [OF rm(4) [OF sok]]]) simp_all
  moreover have "stores_wf (w_stores ?W)"
    by (simp add: drop_entry_def Let_def table.wf_put wf)
  moreover have "store_ok (w_revision W + 1) t" if "stores_get x (w_stores W) = Some t" for x t
    by (rule store_ok_mono [of "w_revision W"]) (use inv that in \<open>simp_all add: stores_inv_def\<close>)
  ultimately show "stores_inv ?W"
    by (auto simp: stores_inv_def get split: if_splits)
  show "presence_inv ?W" if "presence_inv W"
    by (rule presence_inv_set [OF that, of _ ty e False]) (simp_all add: has_component_def ent)
qed

lemma deregister_singleton_fields [simp]:
  "w_stores (deregister_singleton ty e W) = w_stores W" "w_revision (deregister_singleton ty e W) = w_revision W"
  "w_owners (deregister_singleton ty e W) = w_owners W" "w_presence (deregister_singleton ty e W) = w_presence W"
  "w_spawns (deregister_singleton ty e W) = w_spawns W" "w_cursors (deregister_singleton ty e W) = w_cursors W"
  "w_pending (deregister_singleton ty e W) = w_pending W" "w_flushing (deregister_singleton ty e W) = w_flushing W"
  "w_log (deregister_singleton ty e W) = w_log W" "w_next_entity (deregister_singleton ty e W) = w_next_entity W"
  "w_removed_entities (deregister_singleton ty e W) = w_removed_entities W"
  "w_removed_owners (deregister_singleton ty e W) = w_removed_owners W"
  "w_removed_component_owners (deregister_singleton ty e W) = w_removed_component_owners W"
  "w_plan_epoch (deregister_singleton ty e W) = w_plan_epoch W"
  "w_mutations (deregister_singleton ty e W) = w_mutations W"
  by (simp_all add: deregister_singleton_def split: option.split)

text \<open>The world of \<open>remove_component\<close> before relationship maintenance.\<close>

definition removed_world :: "type_id \<Rightarrow> entity \<Rightarrow> system_invocation option \<Rightarrow> 'v component_entry \<Rightarrow>
    'v store \<Rightarrow> 'v world \<Rightarrow> 'v world" where
  "removed_world ty e remover en s' W =
     (let W1 = drop_entry ty e s' W;
          W2 = (case ce_owner en of
              None \<Rightarrow> W1
            | Some owner \<Rightarrow>
                let W' = unindex_derived owner ty e W1 in
                if remover \<noteq> Some owner
                then W'\<lparr>w_removed_component_owners := w_removed_component_owners W' @ [owner]\<rparr>
                else W')
      in deregister_singleton ty e W2)"

lemma remove_body_eq:
  "remove_body remove ct ty e remover W = (case stores_get ty (w_stores W) of
     None \<Rightarrow> Some W
   | Some s \<Rightarrow> (case store_remove e s of
       None \<Rightarrow> Some W
     | Some (en, s') \<Rightarrow> (case relationship_edge ct ty (ce_value en) of
           None \<Rightarrow> Some (removed_world ty e remover en s' W)
         | Some (iv, target) \<Rightarrow> remove iv e target (removed_world ty e remover en s' W))))"
  unfolding remove_body_def removed_world_def Let_def by (rule refl)

lemma removed_world_fields [simp]:
  "w_stores (removed_world ty e remover en s W) = w_stores (drop_entry ty e s W)"
  "w_revision (removed_world ty e remover en s W) = w_revision W + 1"
  "w_presence (removed_world ty e remover en s W) = map_option (presence_set ty e False) (w_presence W)"
  "w_spawns (removed_world ty e remover en s W) = w_spawns W" "w_cursors (removed_world ty e remover en s W) = w_cursors W"
  "w_pending (removed_world ty e remover en s W) = w_pending W" "w_flushing (removed_world ty e remover en s W) = w_flushing W"
  "w_log (removed_world ty e remover en s W) = w_log W @ [(ty, e)]"
  "w_next_entity (removed_world ty e remover en s W) = w_next_entity W"
  "w_removed_entities (removed_world ty e remover en s W) = w_removed_entities W"
  "w_removed_owners (removed_world ty e remover en s W) = w_removed_owners W"
  "w_plan_epoch (removed_world ty e remover en s W) = w_plan_epoch W"
  "w_removed_component_owners (removed_world ty e remover en s W) = w_removed_component_owners W
    @ (case ce_owner en of None \<Rightarrow> [] | Some ow \<Rightarrow> if remover \<noteq> Some ow then [ow] else [])"
  by (simp_all add: removed_world_def Let_def split: option.split)

lemma removed_world_ok:
  assumes ok: "world_ok X W" and s: "stores_get ty (w_stores W) = Some s" "store_remove e s = Some (en, s')"
  shows "world_ok X (removed_world ty e remover en s' W)"
    and "entry_of (removed_world ty e remover en s' W) ty' e' =
      (if ty' = ty \<and> e' = e then None else entry_of W ty' e')"
    and "set (outputs_of (removed_world ty e remover en s' W) ow) = set (outputs_of W ow) - {(ty, e)}"
proof -
  note inv = world_okD [OF ok]
  note d = drop_entry_spec [OF inv(1) s]
  let ?W = "removed_world ty e remover en s' W"
  have E: "entry_of ?W = entry_of (drop_entry ty e s' W)" by (rule entry_of_stores) simp
  then show ent: "entry_of ?W ty' e' = (if ty' = ty \<and> e' = e then None else entry_of W ty' e')" for ty' e'
    by (simp add: d(2))
  have ow: "w_owners ?W = w_owners (case ce_owner en of None \<Rightarrow> drop_entry ty e s' W
      | Some ow \<Rightarrow> unindex_derived ow ty e (drop_entry ty e s' W))"
    by (simp add: removed_world_def Let_def split: option.split)
  have dr: "outputs_of (drop_entry ty e s' W) = outputs_of W" by (rule outputs_of_cong) simp
  have owners_dr: "owners_wf (drop_entry ty e s' W)"
    using owners_invD(1) [OF inv(3)] by (simp add: owners_wf_def)
  have owner_e: "owner_of W (ty, e) = ce_owner en" by (simp add: owner_of_def d(1))
  show out: "set (outputs_of ?W ow) = set (outputs_of W ow) - {(ty, e)}" for ow
  proof -
    have "p \<notin> set (outputs_of W ow)" if "p = (ty, e)" "ce_owner en \<noteq> Some ow" for p
      using owners_invD(2) [OF inv(3), of p ow] owner_e that by auto
    then show ?thesis
      unfolding outputs_of_cong [OF ow] by (auto simp: outputs_of_unindex dr split: option.split)
  qed
  have "owners_inv X ?W"
  proof (rule owners_inv_replace [OF inv(3), where p = "(ty, e)" and new = None])
    show "owners_wf ?W"
      unfolding owners_wf_cong [OF ow] using owners_dr by (simp add: owners_wf_unindex split: option.split)
  qed (auto simp: owner_of_def ent out)
  moreover have "stores_inv ?W"
    by (rule stores_inv_cong [OF _ _ d(3)]) simp_all
  moreover have "presence_inv ?W"
    by (rule presence_inv_set [OF inv(2), of _ ty e False]) (simp_all add: has_component_def ent)
  moreover have "singletons_inv ?W"
  proof -
    have "map_of (w_singletons ?W) key = (if ty = SingletonTy key \<and> map_of (w_singletons W) key = Some e
        then None else map_of (w_singletons W) key)" for key
      by (auto simp: removed_world_def Let_def deregister_singleton_def singleton_key_def map_of_delete_fun
          split: option.split type_id.split)
    moreover have "distinct (map fst (w_singletons ?W))"
      using inv(4) by (auto simp: singletons_inv_def removed_world_def Let_def deregister_singleton_def
          distinct_delete split: option.split)
    moreover have "map_of (w_singletons W) key = Some x \<and> \<not> (ty = SingletonTy key \<and> x = e)"
      if "has_component ?W (SingletonTy key) x" for key x
    proof -
      have "has_component W (SingletonTy key) x" "\<not> (SingletonTy key = ty \<and> x = e)"
        using that by (auto simp: has_component_def ent split: if_splits)
      then show ?thesis using inv(4) by (auto simp: singletons_inv_def)
    qed
    ultimately show ?thesis unfolding singletons_inv_def by fastforce
  qed
  ultimately show "world_ok X ?W" by (simp add: world_ok_def)
qed


section \<open>Relationship maintenance\<close>

text \<open>
  What the maintenance of an inverse may touch: it never creates ownership, never moves the
  revision back, only appends to the log, and leaves every other field and every component the
  engine defines alone.
\<close>

definition upkeep :: "'v world \<Rightarrow> 'v world \<Rightarrow> bool" where
  "upkeep W W' \<longleftrightarrow> (\<forall>ow. set (outputs_of W' ow) \<subseteq> set (outputs_of W ow))
     \<and> (\<forall>p ow. owner_of W' p = Some ow \<longrightarrow> owner_of W p = Some ow)
     \<and> w_revision W \<le> w_revision W' \<and> w_spawns W' = w_spawns W \<and> w_cursors W' = w_cursors W
     \<and> w_pending W' = w_pending W \<and> w_flushing W' = w_flushing W \<and> w_singletons W' = w_singletons W
     \<and> w_removed_entities W' = w_removed_entities W \<and> w_removed_owners W' = w_removed_owners W
     \<and> w_next_entity W' = w_next_entity W \<and> w_plan_epoch W' = w_plan_epoch W
     \<and> (\<exists>l. w_log W' = w_log W @ l)
     \<and> (\<forall>ty e. (\<forall>n. ty \<noteq> UserTy n) \<longrightarrow> entry_of W' ty e = entry_of W ty e)"

lemma upkeep_refl [simp]: "upkeep W W"
  by (simp add: upkeep_def)

lemma upkeepD:
  assumes "upkeep W W'"
  shows "set (outputs_of W' ow) \<subseteq> set (outputs_of W ow)"
    and "owner_of W' p = Some ow \<Longrightarrow> owner_of W p = Some ow" and "w_revision W \<le> w_revision W'"
    and "w_spawns W' = w_spawns W" "w_cursors W' = w_cursors W" "w_pending W' = w_pending W"
    "w_flushing W' = w_flushing W" "w_singletons W' = w_singletons W"
    "w_removed_entities W' = w_removed_entities W" "w_removed_owners W' = w_removed_owners W"
    "w_next_entity W' = w_next_entity W" "w_plan_epoch W' = w_plan_epoch W"
    and "\<exists>l. w_log W' = w_log W @ l"
  using assms unfolding upkeep_def by blast+

lemma upkeep_trans:
  assumes "upkeep W W1" and "upkeep W1 W2"
  shows "upkeep W W2"
  unfolding upkeep_def
proof (intro conjI)
  show "\<exists>l. w_log W2 = w_log W @ l" using assms by (auto simp: upkeep_def)
  show "w_revision W \<le> w_revision W2" using assms by (auto simp: upkeep_def)
  show "\<forall>ow. set (outputs_of W2 ow) \<subseteq> set (outputs_of W ow)"
    using assms unfolding upkeep_def by (meson subset_trans)
  show "\<forall>p ow. owner_of W2 p = Some ow \<longrightarrow> owner_of W p = Some ow"
    using assms unfolding upkeep_def by blast
qed (use assms in \<open>auto simp: upkeep_def\<close>)

text \<open>An operation that keeps the invariant and, when it is maintenance, only does upkeep.\<close>

definition keeps_ok :: "('v world \<Rightarrow> 'v world option) \<Rightarrow> bool" where
  "keeps_ok f \<longleftrightarrow> (\<forall>X W W'. world_ok X W \<longrightarrow> f W = Some W' \<longrightarrow> world_ok X W')"

definition keeps_up :: "('v world \<Rightarrow> 'v world option) \<Rightarrow> bool" where
  "keeps_up f \<longleftrightarrow> (\<forall>X W W'. world_ok X W \<longrightarrow> f W = Some W' \<longrightarrow> world_ok X W' \<and> upkeep W W')"

lemma keeps_upD:
  "keeps_up f \<Longrightarrow> world_ok X W \<Longrightarrow> f W = Some W' \<Longrightarrow> world_ok X W'"
  "keeps_up f \<Longrightarrow> world_ok X W \<Longrightarrow> f W = Some W' \<Longrightarrow> upkeep W W'"
  unfolding keeps_up_def by blast+

lemma keeps_upI:
  "(\<And>X W W'. world_ok X W \<Longrightarrow> f W = Some W' \<Longrightarrow> world_ok X W' \<and> upkeep W W') \<Longrightarrow> keeps_up f"
  unfolding keeps_up_def by blast

lemma keeps_up_None [simp]: "keeps_up (\<lambda>W. None)"
  by (simp add: keeps_up_def)

lemma insert_valueE:
  assumes "insert_value add remove ct ty e v owner W = Some W'"
  obtains W0 previous W1 where "register_singleton ty e W = Some W0"
    "insert_entry ct ty e v owner W0 = (previous, W1)"
    "W' = W1 \<or> (\<exists>W2. (W2 = W1 \<or> (\<exists>iv t. remove iv e t W1 = Some W2))
       \<and> (W' = W2 \<or> (\<exists>iv t. add iv e t W2 = Some W')))"
proof -
  from assms obtain W0 previous W1 where reg: "register_singleton ty e W = Some W0"
    and ins: "insert_entry ct ty e v owner W0 = (previous, W1)"
    unfolding insert_value_def Let_def by (auto split: Option.bind_splits prod.splits)
  let ?pe = "Option.bind previous (\<lambda>p. relationship_edge ct ty (ce_value p))"
  let ?ed = "relationship_edge ct ty v"
  have eq: "insert_value add remove ct ty e v owner W =
    (if map_option snd ?pe \<noteq> map_option snd ?ed then do {
       W2 \<leftarrow> (case ?pe of None \<Rightarrow> Some W1 | Some (iv, t) \<Rightarrow> remove iv e t W1);
       (case ?ed of None \<Rightarrow> Some W2 | Some (iv, t) \<Rightarrow> add iv e t W2)
     } else Some W1)"
    unfolding insert_value_def Let_def by (simp add: reg ins)
  have "W' = W1 \<or> (\<exists>W2. (W2 = W1 \<or> (\<exists>iv t. remove iv e t W1 = Some W2))
       \<and> (W' = W2 \<or> (\<exists>iv t. add iv e t W2 = Some W')))"
  proof (cases "map_option snd ?pe \<noteq> map_option snd ?ed")
    case True
    with assms eq obtain W2 where
      2: "(case ?pe of None \<Rightarrow> Some W1 | Some (iv, t) \<Rightarrow> remove iv e t W1) = Some W2"
      and 3: "(case ?ed of None \<Rightarrow> Some W2 | Some (iv, t) \<Rightarrow> add iv e t W2) = Some W'"
      by (auto split: Option.bind_splits)
    have "W2 = W1 \<or> (\<exists>iv t. remove iv e t W1 = Some W2)"
      using 2 by (cases ?pe) auto
    moreover have "W' = W2 \<or> (\<exists>iv t. add iv e t W2 = Some W')"
      using 3 by (cases ?ed) auto
    ultimately show ?thesis by blast
  next
    case False
    then show ?thesis using assms eq by simp
  qed
  with reg ins show thesis by (rule that)
qed

lemma insert_value_ok:
  assumes ok: "world_ok X W" and ins: "insert_value add remove ct ty e v owner W = Some W'"
    and add: "\<And>iv s t. keeps_up (add iv s t)" and rem: "\<And>iv s t. keeps_up (remove iv s t)"
  shows "world_ok X W'"
    and "\<exists>W0 previous W1. register_singleton ty e W = Some W0
      \<and> insert_entry ct ty e v owner W0 = (previous, W1) \<and> world_ok X W0 \<and> world_ok X W1 \<and> upkeep W1 W'"
proof -
  obtain W0 previous W1 where reg: "register_singleton ty e W = Some W0"
    and ie: "insert_entry ct ty e v owner W0 = (previous, W1)"
    and rest: "W' = W1 \<or> (\<exists>W2. (W2 = W1 \<or> (\<exists>iv t. remove iv e t W1 = Some W2))
       \<and> (W' = W2 \<or> (\<exists>iv t. add iv e t W2 = Some W')))"
    using insert_valueE [OF ins] by blast
  note r = register_singleton_ok [OF ok reg]
  have ok1: "world_ok X W1" by (rule insert_entry_ok [OF r(1) ie]) (rule r(2))
  have step: "world_ok X Z \<and> upkeep V Z"
    if "world_ok X V" "Z = V \<or> (\<exists>iv t. g iv t V = Some Z)" "\<And>iv t. keeps_up (g iv t)"
    for V Z :: "'a world" and g :: "nat \<Rightarrow> nat \<Rightarrow> 'a world \<Rightarrow> 'a world option"
    using that keeps_upD [OF that(3) that(1)] by auto
  have "world_ok X W' \<and> upkeep W1 W'"
  proof (cases "W' = W1")
    case True
    then show ?thesis using ok1 by simp
  next
    case False
    then obtain W2 where 2: "W2 = W1 \<or> (\<exists>iv t. remove iv e t W1 = Some W2)"
      and 3: "W' = W2 \<or> (\<exists>iv t. add iv e t W2 = Some W')" using rest by blast
    have s2: "world_ok X W2 \<and> upkeep W1 W2"
      by (rule step [where g = "\<lambda>iv. remove iv e", OF ok1 2 rem])
    moreover have "world_ok X W' \<and> upkeep W2 W'"
      by (rule step [where g = "\<lambda>iv. add iv e", OF conjunct1 [OF s2] 3 add])
    ultimately show ?thesis using upkeep_trans by blast
  qed
  then show "world_ok X W'"
    and "\<exists>W0 previous W1. register_singleton ty e W = Some W0
      \<and> insert_entry ct ty e v owner W0 = (previous, W1) \<and> world_ok X W0 \<and> world_ok X W1 \<and> upkeep W1 W'"
    using reg ie r(1) ok1 by blast+
qed


lemma insert_entry_upkeep:
  assumes ok: "world_ok X W" and ins: "insert_entry ct (UserTy n) e v None W = (previous, W')"
  shows "upkeep W W'"
proof -
  note inv = world_okD [OF ok]
  note f = insert_entry_fields [OF ins]
  note en = insert_entry_entry_of [OF inv(1) ins]
  have "w_revision W \<le> w_revision W'"
    unfolding f(3) by (simp add: insert_revision_def split: option.split)
  moreover have "\<forall>ow. set (outputs_of W' ow) \<subseteq> set (outputs_of W ow)"
    using insert_entry_outputs(2) [OF ins] by auto
  moreover have "\<forall>p ow. owner_of W' p = Some ow \<longrightarrow> owner_of W p = Some ow"
    by (simp add: owner_of_def en inserted_entry_def)
  ultimately show ?thesis by (simp add: upkeep_def f(5-15) en)
qed

lemma remove_body_keeps_up:
  assumes rem: "\<And>iv s t. keeps_up (remove iv s t)"
  shows "keeps_up (remove_body remove ct (UserTy k) e remover)"
proof (rule keeps_upI)
  fix X W W'
  assume ok: "world_ok X (W :: 'a world)" and rb: "remove_body remove ct (UserTy k) e remover W = Some W'"
  show "world_ok X W' \<and> upkeep W W'"
  proof (cases "\<exists>s en s'. stores_get (UserTy k) (w_stores W) = Some s \<and> store_remove e s = Some (en, s')")
    case False
    then have "W' = W" using rb by (auto simp: remove_body_eq split: option.splits prod.splits)
    then show ?thesis using ok by simp
  next
    case True
    then obtain s en s' where s: "stores_get (UserTy k) (w_stores W) = Some s" "store_remove e s = Some (en, s')"
      by blast
    let ?W1 = "removed_world (UserTy k) e remover en s' W"
    note r = removed_world_ok [OF ok s, of remover]
    have "w_singletons ?W1 = w_singletons W"
      by (simp add: removed_world_def Let_def deregister_singleton_def singleton_key_def split: option.split)
    then have u1: "upkeep W ?W1"
      by (auto simp: upkeep_def r(2,3) owner_of_def)
    show ?thesis
    proof (cases "relationship_edge ct (UserTy k) (ce_value en)")
      case None
      then have "W' = ?W1" using rb by (simp add: remove_body_eq s)
      then show ?thesis using r(1) u1 by simp
    next
      case (Some p)
      then have "remove (fst p) e (snd p) ?W1 = Some W'"
        using rb by (simp add: remove_body_eq s case_prod_beta)
      then show ?thesis using keeps_upD [OF rem r(1)] u1 upkeep_trans by blast
    qed
  qed
qed

lemma remove_body_ok:
  assumes ok: "world_ok X W" and rb: "remove_body remove ct ty e remover W = Some W'"
    and rem: "\<And>iv s t. keeps_up (remove iv s t)"
  shows "world_ok X W'"
proof (cases "\<exists>s en s'. stores_get ty (w_stores W) = Some s \<and> store_remove e s = Some (en, s')")
  case False
  then have "W' = W" using rb by (auto simp: remove_body_eq split: option.splits prod.splits)
  then show ?thesis using ok by simp
next
  case True
  then obtain s en s' where s: "stores_get ty (w_stores W) = Some s" "store_remove e s = Some (en, s')" by blast
  note r = removed_world_ok [OF ok s, of remover]
  show ?thesis
    using rb keeps_upD(1) [OF rem r(1)] r(1)
    by (cases "relationship_edge ct ty (ce_value en)") (auto simp: remove_body_eq s)
qed

lemma add_member_keeps_up:
  assumes "\<And>e x. keeps_up (ins (UserTy iv) e (UserV x) None)"
  shows "keeps_up (relationship_add_member ins ct iv source target)"
proof (rule keeps_upI)
  fix X W W'
  assume ok: "world_ok X (W :: 'a world)" and "relationship_add_member ins ct iv source target W = Some W'"
  then have "W' = W \<or> (\<exists>x. ins (UserTy iv) target (UserV x) None W = Some W')"
    by (auto simp: relationship_add_member_def Let_def split: sum.splits)
  then show "world_ok X W' \<and> upkeep W W'" using keeps_upD [OF assms ok] ok by auto
qed

lemma remove_member_keeps_up:
  assumes "\<And>e x. keeps_up (ins (UserTy iv) e (UserV x) None)" and "\<And>e. keeps_up (rem (UserTy iv) e None)"
  shows "keeps_up (relationship_remove_member ins rem ct iv source target)"
proof (rule keeps_upI)
  fix X W W'
  assume ok: "world_ok X (W :: 'a world)" and "relationship_remove_member ins rem ct iv source target W = Some W'"
  then have "W' = W \<or> (\<exists>x. ins (UserTy iv) target (UserV x) None W = Some W') \<or> rem (UserTy iv) target None W = Some W'"
    by (auto simp: relationship_remove_member_def Let_def split: sum.splits option.splits if_splits)
  then show "world_ok X W' \<and> upkeep W W'"
    using keeps_upD [OF assms(1) ok] keeps_upD [OF assms(2) ok] ok by auto
qed

lemma maintenance_keeps_up:
  "keeps_up (insert_at n ct (UserTy k) e (UserV x) None)"
  "keeps_up (remove_at n ct (UserTy k) e remover)"
proof (induction n arbitrary: k e x remover)
  case 0
  show "keeps_up (insert_at 0 ct (UserTy k) e (UserV x) None)" "keeps_up (remove_at 0 ct (UserTy k) e remover)"
    for k e x remover by simp_all
next
  case (Suc n)
  note add = add_member_keeps_up [where ins = "insert_at n ct", OF Suc.IH(1)]
  note rem = remove_member_keeps_up [where ins = "insert_at n ct" and rem = "remove_at n ct", OF Suc.IH]
  show "keeps_up (remove_at (Suc n) ct (UserTy k) e remover)" for k e remover
    unfolding remove_at.simps by (rule remove_body_keeps_up) (rule rem)
  show "keeps_up (insert_at (Suc n) ct (UserTy k) e (UserV x) None)" for k e x
  proof (rule keeps_upI)
    fix X W W'
    assume ok: "world_ok X (W :: 'a world)" and "insert_at (Suc n) ct (UserTy k) e (UserV x) None W = Some W'"
    then have iv: "insert_value (relationship_add_member (insert_at n ct) ct)
        (relationship_remove_member (insert_at n ct) (remove_at n ct) ct) ct (UserTy k) e (UserV x) None W = Some W'"
      by (simp add: insert_body_def)
    obtain W0 previous W1 where "register_singleton (UserTy k) e W = Some W0"
      "insert_entry ct (UserTy k) e (UserV x) None W0 = (previous, W1)" "world_ok X W1" "upkeep W1 W'"
      using insert_value_ok(2) [OF ok iv add rem] by blast
    moreover from this(1) have "W0 = W" by (simp add: register_singleton_def singleton_key_def)
    ultimately show "world_ok X W' \<and> upkeep W W'"
      using insert_value_ok(1) [OF ok iv add rem] insert_entry_upkeep [OF ok] upkeep_trans by blast
  qed
qed

lemmas add_member_ok = add_member_keeps_up [where ins = "insert_at n ct" for n ct, OF maintenance_keeps_up(1)]
lemmas rem_member_ok = remove_member_keeps_up [where ins = "insert_at n ct" and rem = "remove_at n ct" for n ct,
    OF maintenance_keeps_up]

lemma insert_at_ok:
  assumes "world_ok X W" and "insert_at n ct ty e v owner W = Some W'"
  shows "world_ok X W'"
proof (cases n)
  case 0
  then show ?thesis using assms by simp
next
  case (Suc m)
  note v = insert_value_ok(1) [OF assms(1) _ add_member_ok rem_member_ok]
  have "world_ok X (W\<lparr>w_pending := w_pending W @ p\<rparr>)" for p
    by (rule world_ok_cong [OF _ _ _ _ _ assms(1)]) simp_all
  then show ?thesis
    using assms(2) v by (auto simp: Suc insert_body_def split: cvalue.splits if_splits)
qed

lemma remove_at_ok:
  assumes "world_ok X W" and "remove_at n ct ty e remover W = Some W'"
  shows "world_ok X W'"
  using assms by (cases n) (auto intro: remove_body_ok rem_member_ok)

lemma world_insert_ok: "world_ok X W \<Longrightarrow> world_insert ct ty e v owner W = Some W' \<Longrightarrow> world_ok X W'"
  unfolding world_insert_def by (rule insert_at_ok)

lemma remove_component_ok: "world_ok X W \<Longrightarrow> remove_component ct ty e remover W = Some W' \<Longrightarrow> world_ok X W'"
  unfolding remove_component_def by (rule remove_at_ok)

lemma remove_member_keeps: "keeps_up (remove_member ct iv source target)"
  unfolding remove_member_def by (rule rem_member_ok)

lemma remove_component_keeps: "keeps_up (remove_component ct (UserTy k) e remover)"
  unfolding remove_component_def by (rule maintenance_keeps_up)

lemma flush_derived_from_ok:
  assumes ok: "world_ok X W" and fl: "flush_derived_from ct W = Some W'"
  shows "world_ok X W'"
proof (cases "w_pending W = []")
  case True
  then show ?thesis using assms by (simp add: flush_derived_from_def)
next
  case False
  let ?f = "\<lambda>(e, anchors, owner). world_insert ct DerivedFromTy e (DerivedFromV anchors) owner"
  from fl False obtain W1 where f: "fold_opt ?f (w_pending W) (W\<lparr>w_pending := [], w_flushing := True\<rparr>) = Some W1"
    and W': "W' = W1\<lparr>w_flushing := False\<rparr>"
    by (auto simp: flush_derived_from_def split: Option.bind_splits)
  have "world_ok X (W\<lparr>w_pending := [], w_flushing := True\<rparr>)"
    by (rule world_ok_cong [OF _ _ _ _ _ ok]) simp_all
  then have "world_ok X W1"
    by (rule fold_opt_invariant [OF f]) (auto intro: world_insert_ok)
  then show ?thesis unfolding W' by (rule world_ok_cong [rotated 5]) simp_all
qed


section \<open>Sweeping derived outputs\<close>

lemma world_ok_shrink:
  assumes "world_ok X W" and "owner_of W p \<noteq> Some ow \<or> p \<in> set (outputs_of W ow)"
  shows "world_ok (X - {(ow, p)}) W"
proof -
  have "owners_inv (X - {(ow, p)}) W"
    using world_okD(3) [OF assms(1)] assms(2) unfolding owners_inv_def by blast
  then show ?thesis using assms(1) by (simp add: world_ok_def)
qed

lemma remove_derived_entry_miss:
  assumes "remove_derived_entry ct ty e owner W = Some (False, W')"
  shows "W' = W" and "owner_of W (ty, e) \<noteq> Some owner"
proof -
  show "W' = W"
    using assms by (auto simp: remove_derived_entry_def Let_def split: option.splits)
  show "owner_of W (ty, e) \<noteq> Some owner"
    using assms by (auto simp: remove_derived_entry_def Let_def owner_of_def entry_of_def
        remove_entry_owned_def store_remove_None split: option.splits if_splits)
qed

lemma remove_derived_entry_hit:
  assumes ok: "world_ok X W" and rd: "remove_derived_entry ct ty e owner W = Some (True, W')"
  obtains s en s' where "stores_get ty (w_stores W) = Some s" "store_remove e s = Some (en, s')"
    "entry_of W ty e = Some en" "ce_owner en = Some owner"
    "upkeep (drop_entry ty e s' W) W' \<or> \<not> world_ok (X - {(owner, (ty, e))}) (drop_entry ty e s' W)"
    "world_ok (X - {(owner, (ty, e))}) (drop_entry ty e s' W) \<longrightarrow> world_ok (X - {(owner, (ty, e))}) W'"
proof -
  obtain s where s: "stores_get ty (w_stores W) = Some s"
    using rd by (auto simp: remove_derived_entry_def split: option.splits)
  obtain s' where s': "remove_entry_owned e owner s = Some s'"
    using rd by (auto simp: remove_derived_entry_def Let_def s split: option.splits)
  then obtain en where en: "map_of (entries s) e = Some en" "ce_owner en = Some owner"
    "store_remove e s = Some (en, s')" unfolding remove_entry_owned_iff by blast
  let ?W1 = "drop_entry ty e s' W" and ?Y = "X - {(owner, (ty, e))}"
  have "W' = ?W1 \<or> (\<exists>iv t. remove_member ct iv e t ?W1 = Some W')"
    using rd by (auto simp: remove_derived_entry_def Let_def s s' split: option.splits)
  then have "world_ok ?Y ?W1 \<Longrightarrow> world_ok ?Y W' \<and> upkeep ?W1 W'"
    using keeps_upD [OF remove_member_keeps] by auto
  then show thesis
    by (intro that [OF s en(3) _ en(2)]) (auto simp: entry_of_def s en)
qed

lemma drop_owned_ok:
  assumes ok: "world_ok X W" and s: "stores_get ty (w_stores W) = Some s" "store_remove e s = Some (en, s')"
    and own: "ce_owner en = Some owner" and out: "(ty, e) \<notin> set (outputs_of W owner)"
  shows "world_ok (X - {(owner, (ty, e))}) (drop_entry ty e s' W)"
proof -
  note inv = world_okD [OF ok]
  note d = drop_entry_spec [OF inv(1) s]
  let ?W = "drop_entry ty e s' W"
  have o: "outputs_of ?W = outputs_of W" by (rule outputs_of_cong) simp
  have "owners_inv (X - {(owner, (ty, e))}) ?W"
    unfolding owners_inv_def
  proof (intro conjI allI impI)
    show "owners_wf ?W" using owners_invD(1) [OF inv(3)] by (simp add: owners_wf_def)
    fix ow q
    have q: "owner_of ?W q = (if q = (ty, e) then None else owner_of W q)"
      by (cases q) (simp add: owner_of_def d(2))
    have te: "owner_of W (ty, e) = Some owner" by (simp add: owner_of_def d(1) own)
    show "owner_of ?W q = Some ow" if "q \<in> set (outputs_of ?W ow)"
      using that owners_invD(2) [OF inv(3), of q ow] out te by (auto simp: o q)
    show "q \<in> set (outputs_of ?W ow) \<or> (ow, q) \<in> X - {(owner, (ty, e))}" if "owner_of ?W q = Some ow"
      using that owners_invD(3) [OF inv(3), of q ow] by (auto simp: o q split: if_splits)
  qed
  moreover have "singletons_inv ?W"
    using inv(4) by (auto simp: singletons_inv_def has_component_def d(2) split: if_splits)
  ultimately show ?thesis using d(3,4) inv(2) by (simp add: world_ok_def)
qed

lemma remove_derived_entry_ok:
  assumes ok: "world_ok X W" and out: "(ty, e) \<notin> set (outputs_of W owner)"
    and rd: "remove_derived_entry ct ty e owner W = Some (hit, W')"
  shows "world_ok (X - {(owner, (ty, e))}) W'"
    and "set (outputs_of W' ow) \<subseteq> set (outputs_of W ow)"
    and "owner_of W' p = Some ow \<Longrightarrow> owner_of W p = Some ow \<and> (ow, p) \<noteq> (owner, (ty, e))"
proof -
  have "world_ok (X - {(owner, (ty, e))}) W' \<and> set (outputs_of W' ow) \<subseteq> set (outputs_of W ow)
      \<and> (owner_of W' p = Some ow \<longrightarrow> owner_of W p = Some ow \<and> (ow, p) \<noteq> (owner, (ty, e)))"
  proof (cases hit)
    case False
    then have m: "W' = W" "owner_of W (ty, e) \<noteq> Some owner"
      using remove_derived_entry_miss [of ct ty e owner W W'] rd by auto
    then show ?thesis using world_ok_shrink [OF ok, of "(ty, e)" owner] by auto
  next
    case True
    then obtain s en s' where h: "stores_get ty (w_stores W) = Some s" "store_remove e s = Some (en, s')"
        "entry_of W ty e = Some en" "ce_owner en = Some owner"
        "upkeep (drop_entry ty e s' W) W' \<or> \<not> world_ok (X - {(owner, (ty, e))}) (drop_entry ty e s' W)"
        "world_ok (X - {(owner, (ty, e))}) (drop_entry ty e s' W) \<longrightarrow> world_ok (X - {(owner, (ty, e))}) W'"
      using remove_derived_entry_hit [OF ok rd [unfolded eqTrueI [OF True]]] by blast
    let ?W1 = "drop_entry ty e s' W"
    have d: "world_ok (X - {(owner, (ty, e))}) ?W1" by (rule drop_owned_ok [OF ok h(1,2,4) out])
    with h(5) have up: "upkeep ?W1 W'" by blast
    have "outputs_of ?W1 = outputs_of W" by (rule outputs_of_cong) simp
    with upkeepD(1) [OF up, of ow] have "set (outputs_of W' ow) \<subseteq> set (outputs_of W ow)" by simp
    moreover have "owner_of W' p = Some ow \<longrightarrow> owner_of ?W1 p = Some ow" using upkeepD(2) [OF up] by blast
    moreover have "owner_of ?W1 p = (if p = (ty, e) then None else owner_of W p)"
      by (cases p) (simp add: owner_of_def drop_entry_spec(2) [OF world_okD(1) [OF ok] h(1,2)])
    ultimately show ?thesis using d h(6) by (auto split: if_splits)
  qed
  then show "world_ok (X - {(owner, (ty, e))}) W'"
    and "set (outputs_of W' ow) \<subseteq> set (outputs_of W ow)"
    and "owner_of W' p = Some ow \<Longrightarrow> owner_of W p = Some ow \<and> (ow, p) \<noteq> (owner, (ty, e))"
    by blast+
qed

text \<open>A sweep of outputs that are no longer indexed settles every one of them.\<close>

lemma sweep_ok:
  assumes "sweep ct owner os W = Some (es, W')" and "world_ok X W" and "outputs_of W owner = []"
  shows "world_ok (X - {owner} \<times> set os) W' \<and> outputs_of W' owner = []
    \<and> (\<forall>ow. set (outputs_of W' ow) \<subseteq> set (outputs_of W ow))
    \<and> (\<forall>ow p. owner_of W' p = Some ow \<longrightarrow> owner_of W p = Some ow \<and> (ow, p) \<notin> {owner} \<times> set os)"
  using assms
proof (induction ct owner os W arbitrary: es X rule: sweep.induct)
  case (1 ct owner W)
  then show ?case by simp
next
  case (2 ct owner ty e os W)
  from "2.prems"(1) obtain hit W1 es1 where
    r: "remove_derived_entry ct ty e owner W = Some (hit, W1)" and sw: "sweep ct owner os W1 = Some (es1, W')"
    by (auto split: Option.bind_splits)
  note d = remove_derived_entry_ok [OF "2.prems"(2) _ r]
  have emp: "outputs_of W1 owner = []" using d(2) [of owner] "2.prems"(3) by simp
  have "world_ok (X - {(owner, (ty, e))} - {owner} \<times> set os) W' \<and> outputs_of W' owner = []
    \<and> (\<forall>ow. set (outputs_of W' ow) \<subseteq> set (outputs_of W1 ow))
    \<and> (\<forall>ow p. owner_of W' p = Some ow \<longrightarrow> owner_of W1 p = Some ow \<and> (ow, p) \<notin> {owner} \<times> set os)"
    using "2.IH" [OF r refl sw d(1) emp] "2.prems"(3) by simp
  moreover have "X - {(owner, (ty, e))} - {owner} \<times> set os = X - {owner} \<times> set ((ty, e) # os)" by auto
  ultimately show ?case using d(2,3) "2.prems"(3) by simp (metis (no_types, lifting) subset_trans)
qed


lemma outputs_of_delete:
  "outputs_of (W\<lparr>w_owners := AList.delete ow (w_owners W)\<rparr>) ow' = (if ow' = ow then [] else outputs_of W ow')"
  by (simp add: outputs_of_def map_of_delete_fun)

lemma take_outputs_ok:
  assumes "world_ok X W"
  shows "world_ok (X \<union> {ow} \<times> set (outputs_of W ow)) (W\<lparr>w_owners := AList.delete ow (w_owners W)\<rparr>)"
proof -
  let ?W = "W\<lparr>w_owners := AList.delete ow (w_owners W)\<rparr>"
  note inv = world_okD [OF assms]
  have e: "entry_of ?W = entry_of W" by (rule entry_of_stores) simp
  have h: "has_component ?W = has_component W" by (simp add: has_component_def fun_eq_iff e)
  have own: "owner_of ?W = owner_of W" by (simp add: owner_of_def fun_eq_iff e)
  have "owners_inv (X \<union> {ow} \<times> set (outputs_of W ow)) ?W"
    unfolding owners_inv_def
  proof (intro conjI allI impI)
    show "owners_wf ?W" by (rule owners_wf_take [OF owners_invD(1) [OF inv(3)]])
    fix o' p
    show "owner_of ?W p = Some o'" if "p \<in> set (outputs_of ?W o')"
      using that owners_invD(2) [OF inv(3), of p o'] by (simp add: outputs_of_delete own split: if_splits)
    show "p \<in> set (outputs_of ?W o') \<or> (o', p) \<in> X \<union> {ow} \<times> set (outputs_of W ow)"
      if "owner_of ?W p = Some o'"
      using that owners_invD(3) [OF inv(3), of p o'] by (auto simp: outputs_of_delete own)
  qed
  moreover have "stores_inv ?W" by (rule stores_inv_cong [OF _ _ inv(1)]) simp_all
  moreover have "presence_inv ?W" by (rule presence_inv_cong [OF _ h inv(2)]) simp
  moreover have "singletons_inv ?W" using inv(4) by (simp add: singletons_inv_def h)
  ultimately show ?thesis by (simp add: world_ok_def)
qed

lemma spawns_update_ok: "world_ok X W \<Longrightarrow> world_ok X (W\<lparr>w_spawns := sp\<rparr>)"
  by (rule world_ok_cong) simp_all

text \<open>Taking an owner's outputs out of the index and sweeping them leaves nothing unsettled.\<close>

lemma take_sweep_ok:
  assumes ok: "world_ok X W" and look: "map_of (w_owners W) owner = Some outputs"
    and sw: "sweep ct owner outputs (W\<lparr>w_owners := AList.delete owner (w_owners W)\<rparr>) = Some (es, W')"
  shows "world_ok X W'" and "outputs_of W' owner = []"
    and "\<And>ow. set (outputs_of W' ow) \<subseteq> set (outputs_of W ow)"
    and "\<And>ow p. owner_of W' p = Some ow \<Longrightarrow> owner_of W p = Some ow \<and> (ow = owner \<longrightarrow> p \<notin> set outputs)"
proof -
  let ?W = "W\<lparr>w_owners := AList.delete owner (w_owners W)\<rparr>"
  have o: "outputs_of W owner = outputs" by (simp add: outputs_of_def look)
  have t: "world_ok (X \<union> {owner} \<times> set outputs) ?W" using take_outputs_ok [OF ok, of owner] by (simp add: o)
  note s = sweep_ok [OF sw t outputs_of_delete [of owner W owner, simplified]]
  have "world_ok (X \<union> {owner} \<times> set outputs - {owner} \<times> set outputs) W'" using s by blast
  moreover have "X \<union> {owner} \<times> set outputs - {owner} \<times> set outputs \<subseteq> X" by blast
  ultimately show "world_ok X W'"
    unfolding world_ok_def using owners_inv_mono by blast
  show "outputs_of W' owner = []" using s by blast
  show "set (outputs_of W' ow) \<subseteq> set (outputs_of W ow)" for ow
  proof -
    have "set (outputs_of W' ow) \<subseteq> set (outputs_of ?W ow)" using s by blast
    also have "\<dots> \<subseteq> set (outputs_of W ow)" by (simp add: outputs_of_delete)
    finally show ?thesis .
  qed
  have own: "owner_of ?W = owner_of W" by (simp add: owner_of_def fun_eq_iff entry_of_stores [of ?W W])
  show "owner_of W p = Some ow \<and> (ow = owner \<longrightarrow> p \<notin> set outputs)" if "owner_of W' p = Some ow" for ow p
    using s that unfolding own by blast
qed

lemma remove_derived_owned_ok:
  assumes ok: "world_ok X W" and rd: "remove_derived_owned ct owner W = Some W'"
  shows "world_ok X W'" and "outputs_of W' owner = []"
    and "set (outputs_of W' ow) \<subseteq> set (outputs_of W ow)"
    and "owner_of W' p = Some ow \<Longrightarrow> owner_of W p = Some ow \<and> (ow = owner \<longrightarrow> (owner, p) \<in> X)"
proof -
  let ?W = "W\<lparr>w_spawns := AList.delete owner (w_spawns W)\<rparr>"
  have ok1: "world_ok X ?W" by (rule spawns_update_ok [OF ok])
  have own: "owner_of ?W = owner_of W" by (simp add: owner_of_def fun_eq_iff entry_of_stores [of ?W W])
  have out: "outputs_of ?W = outputs_of W" by (rule outputs_of_cong) simp
  have "world_ok X W' \<and> outputs_of W' owner = [] \<and> set (outputs_of W' ow) \<subseteq> set (outputs_of W ow)
      \<and> (owner_of W' p = Some ow \<longrightarrow> owner_of W p = Some ow \<and> (ow = owner \<longrightarrow> (owner, p) \<in> X))"
  proof (cases "map_of (w_owners W) owner")
    case None
    then have W': "W' = ?W" using rd by (simp add: remove_derived_owned_def Let_def)
    have "outputs_of W owner = []" by (simp add: outputs_of_def None)
    then show ?thesis
      using ok1 owners_invD(3) [OF world_okD(3) [OF ok], of p owner] by (auto simp: W' own out)
  next
    case (Some outputs)
    then obtain es where sw: "sweep ct owner outputs (?W\<lparr>w_owners := AList.delete owner (w_owners ?W)\<rparr>) = Some (es, W')"
      using rd by (auto simp: remove_derived_owned_def Let_def)
    have "map_of (w_owners ?W) owner = Some outputs" using Some by simp
    note t = take_sweep_ok [OF ok1 this sw]
    have "outputs_of W owner = outputs" by (simp add: outputs_of_def Some)
    then show ?thesis
      using t(1-3) t(4) [of p ow] owners_invD(3) [OF world_okD(3) [OF ok], of p owner]
      by (auto simp: own out)
  qed
  then show "world_ok X W'" and "outputs_of W' owner = []"
    and "set (outputs_of W' ow) \<subseteq> set (outputs_of W ow)"
    and "owner_of W' p = Some ow \<Longrightarrow> owner_of W p = Some ow \<and> (ow = owner \<longrightarrow> (owner, p) \<in> X)"
    by blast+
qed

lemma retire_owners_ok:
  assumes "retire_owners ct owners W = Some (es, W')" and "world_ok X W"
  shows "world_ok X W' \<and> (\<forall>ow. set (outputs_of W' ow) \<subseteq> set (outputs_of W ow))
    \<and> (\<forall>ow \<in> set owners. outputs_of W' ow = [])"
  using assms
proof (induction ct owners W arbitrary: es rule: retire_owners.induct)
  case (1 ct W)
  then show ?case by simp
next
  case (2 ct owner owners W)
  let ?W = "W\<lparr>w_spawns := AList.delete owner (w_spawns W)\<rparr>"
  have ok1: "world_ok X ?W" by (rule spawns_update_ok [OF "2.prems"(2)])
  have out: "outputs_of ?W = outputs_of W" by (rule outputs_of_cong) simp
  show ?case
  proof (cases "map_of (w_owners W) owner")
    case None
    then have r: "retire_owners ct owners ?W = Some (es, W')" using "2.prems"(1) by (simp add: Let_def)
    have "map_of (w_owners ?W) owner = None" using None by simp
    from "2.IH"(1) [OF refl this r ok1] have IH: "world_ok X W'" "set (outputs_of W' ow) \<subseteq> set (outputs_of W ow)"
        "\<forall>ow \<in> set owners. outputs_of W' ow = []" for ow by (simp_all add: out)
    have "outputs_of W owner = []" by (simp add: outputs_of_def None)
    with IH(2) [of owner] have "outputs_of W' owner = []" by simp
    then show ?thesis using IH by simp
  next
    case (Some outputs)
    then obtain es1 W2 es2 where sw: "sweep ct owner outputs (?W\<lparr>w_owners := AList.delete owner (w_owners ?W)\<rparr>) = Some (es1, W2)"
      and r: "retire_owners ct owners W2 = Some (es2, W')"
      using "2.prems"(1) by (auto simp: Let_def split: Option.bind_splits)
    have look: "map_of (w_owners ?W) owner = Some outputs" using Some by simp
    note t = take_sweep_ok [OF ok1 look sw]
    from "2.IH"(2) [OF refl look sw refl r t(1)] have IH: "world_ok X W'"
        "set (outputs_of W' ow) \<subseteq> set (outputs_of W2 ow)"
        "\<forall>ow \<in> set owners. outputs_of W' ow = []" for ow by simp_all
    have "outputs_of W' owner = []" using IH(2) [of owner] t(2) by simp
    moreover have "set (outputs_of W' ow) \<subseteq> set (outputs_of W ow)" for ow
      using IH(2) [of ow] t(3) [of ow] by (auto simp: out)
    ultimately show ?thesis using IH by simp
  qed
qed

text \<open>The second half of output replacement: what the rerun did not re-emit is swept.\<close>

lemma remove_derived_stale_ok:
  assumes "remove_derived_stale ct owner previous W = Some W'" and "world_ok X W"
  shows "world_ok (X - {owner} \<times> set previous) W'
    \<and> (\<forall>ow. set (outputs_of W' ow) \<subseteq> set (outputs_of W ow))"
  using assms
proof (induction ct owner previous W arbitrary: X rule: remove_derived_stale.induct)
  case (1 ct owner W)
  then show ?case by simp
next
  case (2 ct owner ty e previous W)
  have split: "X - {(owner, (ty, e))} - {owner} \<times> set previous = X - {owner} \<times> set ((ty, e) # previous)" by auto
  show ?case
  proof (cases "(ty, e) \<in> set (outputs_of W owner)")
    case True
    have "world_ok (X - {(owner, (ty, e))}) W" by (rule world_ok_shrink [OF "2.prems"(2)]) (simp add: True)
    from "2.IH"(1) [OF True _ this] "2.prems"(1) True show ?thesis unfolding split by simp
  next
    case False
    then obtain hit W1 where r: "remove_derived_entry ct ty e owner W = Some (hit, W1)"
      and rest: "remove_derived_stale ct owner previous W1 = Some W'"
      using "2.prems"(1) by (auto split: Option.bind_splits)
    note d = remove_derived_entry_ok [OF "2.prems"(2) False r]
    have "world_ok (X - {(owner, (ty, e))} - {owner} \<times> set previous) W'
        \<and> (\<forall>ow. set (outputs_of W' ow) \<subseteq> set (outputs_of W1 ow))"
      using "2.IH"(2) [OF False r refl rest d(1)] .
    then show ?thesis using d(2) unfolding split by (meson subset_trans)
  qed
qed

end
