(* ===== verification/World_Props.thy ===== *)
theory World_Props
  imports World_Inv
begin

text \<open>
  Entity removal, in-place writes and construction keep the invariant; the worlds the engine
  can reach and what holds in all of them; totality and functional behaviour of the write paths.
\<close>

section \<open>Entity removal\<close>

lemma remove_entity_entryD:
  assumes "Option.bind (stores_get ty (w_stores W)) (remove_entity_entry e r) = Some (owner, s', r')"
  obtains s en s1 where "stores_get ty (w_stores W) = Some s" "store_remove e s = Some (en, s1)"
    "owner = ce_owner en" "s' = bump_watermark (r + 1) s1" "r' = r + 1"
  using assms by (auto simp: remove_entity_entry_def split: Option.bind_splits option.splits)

lemma remove_entity_entry_None:
  "Option.bind (stores_get ty (w_stores W)) (remove_entity_entry e r) = None \<longleftrightarrow> entry_of W ty e = None"
  by (auto simp: remove_entity_entry_def entry_of_def store_remove_None[symmetric]
      split: Option.bind_splits option.splits)

lemma remove_from_stores_snd:
  "w_owners (snd (remove_from_stores e tys W)) = w_owners W \<and> w_presence (snd (remove_from_stores e tys W)) = w_presence W
   \<and> w_singletons (snd (remove_from_stores e tys W)) = w_singletons W
   \<and> w_spawns (snd (remove_from_stores e tys W)) = w_spawns W
   \<and> w_log (snd (remove_from_stores e tys W)) = w_log W
   \<and> w_removed_entities (snd (remove_from_stores e tys W)) = w_removed_entities W
   \<and> w_removed_owners (snd (remove_from_stores e tys W)) = w_removed_owners W"
proof (induction e tys W rule: remove_from_stores.induct)
  case (1 e W)
  then show ?case by simp
next
  case (2 e ty tys W)
  show ?case
  proof (cases "Option.bind (stores_get ty (w_stores W)) (remove_entity_entry e (w_revision W))")
    case None
    then show ?thesis using "2.IH"(1) by simp
  next
    case (Some t)
    obtain owner s' r' where t: "t = (owner, s', r')" by (cases t) auto
    show ?thesis using "2.IH"(2) [OF Some [unfolded t] refl refl refl]
      by (simp add: Some t Let_def case_prod_beta)
  qed
qed

lemma remove_from_stores_fields:
  assumes "remove_from_stores e tys W = (removed, W')"
  shows "w_owners W' = w_owners W" "w_presence W' = w_presence W" "w_singletons W' = w_singletons W"
    "w_spawns W' = w_spawns W" "w_log W' = w_log W"
    "w_removed_entities W' = w_removed_entities W" "w_removed_owners W' = w_removed_owners W"
  using remove_from_stores_snd [of e tys W] by (simp_all add: assms)

lemma set_map_filter_snd: "set (List.map_filter snd rs) = {ow. \<exists>ty. (ty, Some ow) \<in> set rs}"
  by (induction rs) (auto simp: List.map_filter_simps split: option.splits)

lemma fold_keeps_up:
  assumes "fold_opt f xs W = Some W'" and "\<And>x. keeps_up (f x)" and "world_ok X W"
  shows "world_ok X W'" and "upkeep W W'"
proof -
  have "world_ok X W' \<and> upkeep W W'"
  proof (rule fold_opt_invariant [OF assms(1), where P = "\<lambda>V. world_ok X V \<and> upkeep W V"])
    show "world_ok X W \<and> upkeep W W" using assms(3) by simp
    fix x V V'
    assume "world_ok X V \<and> upkeep W V" "f x V = Some V'"
    then show "world_ok X V' \<and> upkeep W V'"
      using keeps_upD [OF assms(2), of X V x V'] upkeep_trans by blast
  qed
  then show "world_ok X W'" and "upkeep W W'" by blast+
qed

lemma remove_from_stores_spec:
  assumes "remove_from_stores e tys W = (removed, W')" and "stores_inv W" and "distinct tys"
  shows "stores_inv W' \<and> w_revision W \<le> w_revision W'
    \<and> (\<forall>ty' e'. entry_of W' ty' e' = (if ty' \<in> set tys \<and> e' = e then None else entry_of W ty' e'))
    \<and> set removed = {(ty, ce_owner en) | ty en. ty \<in> set tys \<and> entry_of W ty e = Some en}"
  using assms
proof (induction e tys W arbitrary: removed rule: remove_from_stores.induct)
  case (1 e W)
  then show ?case by simp
next
  case (2 e ty tys W)
  show ?case
  proof (cases "Option.bind (stores_get ty (w_stores W)) (remove_entity_entry e (w_revision W))")
    case None
    then have "remove_from_stores e tys W = (removed, W')" using "2.prems"(1) by simp
    then show ?thesis
      using "2.IH"(1) [OF None] "2.prems"(2,3) None [unfolded remove_entity_entry_None] by auto
  next
    case (Some t)
    obtain owner s' r' where t: "t = (owner, s', r')" by (cases t) auto
    obtain s en s1 where s: "stores_get ty (w_stores W) = Some s" "store_remove e s = Some (en, s1)"
      and rest: "owner = ce_owner en" "s' = bump_watermark (w_revision W + 1) s1" "r' = w_revision W + 1"
      using remove_entity_entryD [OF Some [unfolded t]] .
    define W1 where W1: "W1 = (put_store ty s' W)\<lparr>w_revision := r', w_mutations := w_mutations W + 1\<rparr>"
    obtain removed' where r: "remove_from_stores e tys W1 = (removed', W')" and rem: "removed = (ty, owner) # removed'"
      using "2.prems"(1) by (auto simp: Some t Let_def W1 split: prod.splits)
    note rm = store_removeD [OF s(2)]
    have wf: "stores_wf (w_stores W)" and sok: "store_ok (w_revision W) s"
      using "2.prems"(2) s by (simp_all add: stores_inv_def)
    have inv1: "stores_inv W1"
    proof (rule stores_inv_put [OF "2.prems"(2)])
      show "w_stores W1 = stores_put ty s' (w_stores W)" "w_revision W \<le> w_revision W1"
        using rest by (simp_all add: W1)
      show "store_ok (w_revision W1) s'"
        unfolding rest W1 using bump_watermark_ok [OF store_ok_mono [OF rm(4) [OF sok]]] by simp
    qed
    have "entry_of W1 = entry_of (put_store ty s' W)" by (rule entry_of_stores) (simp add: W1)
    moreover have "map_of (entries s') = (map_of (entries s))(e := None)"
      using rm(3) sok by (simp add: rest store_ok_def)
    ultimately have e1: "entry_of W1 ty' e' = (if ty' = ty \<and> e' = e then None else entry_of W ty' e')" for ty' e'
      by (auto simp: entry_of_put [OF wf]) (auto simp: entry_of_def s)
    have en: "entry_of W ty e = Some en" by (simp add: entry_of_def s rm(1))
    have tr: "ty \<notin> set tys" "distinct tys" using "2.prems"(3) by auto
    from "2.IH"(2) [OF Some [unfolded t] refl refl W1 r inv1 tr(2)]
    have IH: "stores_inv W'" "w_revision W1 \<le> w_revision W'"
      "\<And>ty' e'. entry_of W' ty' e' = (if ty' \<in> set tys \<and> e' = e then None else entry_of W1 ty' e')"
      "set removed' = {(ty, ce_owner en) | ty en. ty \<in> set tys \<and> entry_of W1 ty e = Some en}"
      by blast+
    have "set removed = {(x, ce_owner y) | x y. x \<in> set (ty # tys) \<and> entry_of W x e = Some y}"
    proof -
      have same: "entry_of W1 x e = entry_of W x e" if "x \<in> set tys" for x
        using that tr(1) by (auto simp: e1)
      have "set removed' = {(x, ce_owner y) | x y. x \<in> set tys \<and> entry_of W x e = Some y}"
        unfolding IH(4) using same by auto
      then show ?thesis unfolding rem using en rest(1) by auto
    qed
    moreover have "w_revision W \<le> w_revision W'" using IH(2) rest(3) by (simp add: W1)
    ultimately show ?thesis using IH(1,3) by (auto simp: e1)
  qed
qed

lemma fold_log_fields:
  "fold (\<lambda>(ty, _). log_write ty e) rs W = W\<lparr>w_log := w_log W @ map (\<lambda>r. (fst r, e)) rs\<rparr>"
  by (induction rs arbitrary: W) (auto simp: log_write_def)

abbreviation unindex_all :: "entity \<Rightarrow> (type_id \<times> system_invocation option) list \<Rightarrow> 'v world \<Rightarrow> 'v world" where
  "unindex_all e \<equiv> fold (\<lambda>(ty, owner) W. case owner of None \<Rightarrow> W | Some ow \<Rightarrow> unindex_derived ow ty e W)"

lemma unindex_all_fields:
  "w_stores (unindex_all e rs W) = w_stores W" "w_revision (unindex_all e rs W) = w_revision W"
  "w_presence (unindex_all e rs W) = w_presence W" "w_singletons (unindex_all e rs W) = w_singletons W"
  "w_spawns (unindex_all e rs W) = w_spawns W" "w_log (unindex_all e rs W) = w_log W"
  "w_removed_entities (unindex_all e rs W) = w_removed_entities W"
  "w_removed_owners (unindex_all e rs W) = w_removed_owners W"
  "w_pending (unindex_all e rs W) = w_pending W" "w_flushing (unindex_all e rs W) = w_flushing W"
  by (induction rs arbitrary: W) (auto split: option.splits)

lemma unindex_all_outputs:
  "owners_wf W \<Longrightarrow> owners_wf (unindex_all e rs W)"
  "set (outputs_of (unindex_all e rs W) ow) = set (outputs_of W ow) - {(ty, e) | ty. (ty, Some ow) \<in> set rs}"
proof -
  show "owners_wf W \<Longrightarrow> owners_wf (unindex_all e rs W)"
    by (induction rs arbitrary: W) (auto simp: owners_wf_unindex split: option.split)
  show "set (outputs_of (unindex_all e rs W) ow) = set (outputs_of W ow) - {(ty, e) | ty. (ty, Some ow) \<in> set rs}"
    by (induction rs arbitrary: W) (auto simp: outputs_of_unindex split: option.splits if_splits)
qed

text \<open>The world after the entity's entries are gone and before relationship maintenance.\<close>

definition cleared_world :: "entity \<Rightarrow> 'v world \<Rightarrow> 'v world" where
  "cleared_world e W =
     (let (removed, W1) = remove_from_stores e (map fst (stores_list (w_stores W))) W;
          W3 = unindex_all e removed (fold (\<lambda>(ty, _). log_write ty e) removed W1)
      in w_presence_clear e (W3\<lparr>
           w_singletons := filter (\<lambda>p. snd p \<noteq> e) (w_singletons W3),
           w_removed_entities := w_removed_entities W3 @ [e]\<rparr>))"

definition entity_owners :: "entity \<Rightarrow> 'v world \<Rightarrow> system_invocation list" where
  "entity_owners e W =
     List.map_filter snd (fst (remove_from_stores e (map fst (stores_list (w_stores W))) W))"

lemma remove_entity_eq:
  "remove_entity ct e W = do {
     W5 \<leftarrow> fold_opt (\<lambda>(iv, target). remove_member ct iv e target) (entity_edges ct W e) (cleared_world e W);
     W6 \<leftarrow> fold_opt (\<lambda>(edge, source). remove_component ct (UserTy edge) source None) (entity_retractions ct W e) W5;
     Some (entity_owners e W, W6\<lparr>w_removed_owners := w_removed_owners W6 @ entity_owners e W\<rparr>) }"
  unfolding remove_entity_def cleared_world_def entity_owners_def Let_def
  by (simp add: case_prod_beta)

lemma cleared_world_ok:
  assumes ok: "world_ok X W"
  shows "world_ok X (cleared_world e W)"
    and "entry_of (cleared_world e W) ty' e' = (if e' = e then None else entry_of W ty' e')"
    and "set (entity_owners e W) = {ow. \<exists>ty. owner_of W (ty, e) = Some ow}"
    and "w_removed_owners (cleared_world e W) = w_removed_owners W"
    and "w_removed_entities (cleared_world e W) = w_removed_entities W @ [e]"
    and "set (outputs_of (cleared_world e W) ow) = {p \<in> set (outputs_of W ow). snd p \<noteq> e}"
proof -
  note inv = world_okD [OF ok]
  have wf: "stores_wf (w_stores W)" using inv(1) by (simp add: stores_inv_def)
  let ?tys = "map fst (stores_list (w_stores W))"
  obtain removed W1 where r: "remove_from_stores e ?tys W = (removed, W1)" by (rule prod.exhaust)
  have all: "entry_of W ty e = None" if "ty \<notin> set ?tys" for ty
  proof -
    have "map_of (stores_list (w_stores W)) ty = None" using that by (simp add: map_of_eq_None_iff)
    then show ?thesis by (simp add: entry_of_def table.listing_get [OF wf])
  qed
  note f = remove_from_stores_fields [OF r]
  have sp: "stores_inv W1" "w_revision W \<le> w_revision W1"
    "\<And>ty' e'. entry_of W1 ty' e' = (if ty' \<in> set ?tys \<and> e' = e then None else entry_of W ty' e')"
    "set removed = {(ty, ce_owner en) | ty en. ty \<in> set ?tys \<and> entry_of W ty e = Some en}"
    using remove_from_stores_spec [OF r inv(1) table.listing_distinct [OF wf]] by blast+
  have e1: "entry_of W1 ty' e' = (if e' = e then None else entry_of W ty' e')" for ty' e'
    using sp(3) all by auto
  let ?C = "cleared_world e W"
  let ?W2 = "W1\<lparr>w_log := w_log W1 @ map (\<lambda>r. (fst r, e)) removed\<rparr>"
  have C: "?C = w_presence_clear e ((unindex_all e removed ?W2)\<lparr>
      w_singletons := filter (\<lambda>p. snd p \<noteq> e) (w_singletons W),
      w_removed_entities := w_removed_entities W @ [e]\<rparr>)"
    by (simp add: cleared_world_def r fold_log_fields unindex_all_fields f Let_def)
  have st: "w_stores ?C = w_stores W1" "w_revision ?C = w_revision W1"
    "w_presence ?C = map_option (presence_clear_entity e) (w_presence W)"
    "w_singletons ?C = filter (\<lambda>p. snd p \<noteq> e) (w_singletons W)"
    "w_owners ?C = w_owners (unindex_all e removed ?W2)"
    by (simp_all add: C w_presence_clear_def unindex_all_fields f)
  show ent: "entry_of ?C ty' e' = (if e' = e then None else entry_of W ty' e')" for ty' e'
    using entry_of_stores [OF st(1)] e1 by simp
  show "set (entity_owners e W) = {ow. \<exists>ty. owner_of W (ty, e) = Some ow}"
  proof -
    have "set (entity_owners e W) = {ow. \<exists>ty. (ty, Some ow) \<in> set removed}"
      by (simp add: entity_owners_def r set_map_filter_snd)
    moreover have "(ty, Some ow) \<in> set removed \<longleftrightarrow> owner_of W (ty, e) = Some ow" for ty ow
    proof -
      have "owner_of W (ty, e) = Some ow \<longleftrightarrow> (\<exists>en. entry_of W ty e = Some en \<and> ce_owner en = Some ow)"
        by (cases "entry_of W ty e") (simp_all add: owner_of_def)
      moreover have "entry_of W ty e = Some en \<Longrightarrow> ty \<in> set ?tys" for en using all [of ty] by auto
      ultimately show ?thesis unfolding sp(4) by auto
    qed
    ultimately show ?thesis by simp
  qed
  show "w_removed_owners ?C = w_removed_owners W" "w_removed_entities ?C = w_removed_entities W @ [e]"
    by (simp_all add: C w_presence_clear_def unindex_all_fields f)
  have o2: "outputs_of ?W2 = outputs_of W" by (rule outputs_of_cong) (simp add: f)
  have own2: "owners_wf ?W2" using owners_invD(1) [OF inv(3)] by (simp add: owners_wf_def f)
  show out: "set (outputs_of ?C ow) = {p \<in> set (outputs_of W ow). snd p \<noteq> e}" for ow
  proof -
    have "(ty, Some ow) \<in> set removed" if "(ty, e) \<in> set (outputs_of W ow)" for ty
    proof -
      have "owner_of W (ty, e) = Some ow" by (rule owners_invD(2) [OF inv(3) that])
      then obtain en where en: "entry_of W ty e = Some en" "ce_owner en = Some ow"
        by (cases "entry_of W ty e") (simp_all add: owner_of_def)
      then have "ty \<in> set ?tys" using all [of ty] by auto
      then show ?thesis unfolding sp(4) using en by auto
    qed
    then have "x \<in> set (outputs_of W ow) - {(ty, e) | ty. (ty, Some ow) \<in> set removed} \<longleftrightarrow>
        x \<in> {p \<in> set (outputs_of W ow). snd p \<noteq> e}" for x
      by (cases x) auto
    then show ?thesis
      unfolding outputs_of_cong [OF st(5)] unindex_all_outputs(2) o2 by blast
  qed
  have "owners_inv X ?C"
    unfolding owners_inv_def
  proof (intro conjI allI impI)
    show "owners_wf ?C" unfolding owners_wf_cong [OF st(5)] by (rule unindex_all_outputs(1) [OF own2])
    have q: "owner_of ?C q = (if snd q = e then None else owner_of W q)" for q
      by (simp add: owner_of_def ent)
    fix ow q
    show "owner_of ?C q = Some ow" if "q \<in> set (outputs_of ?C ow)"
      using that owners_invD(2) [OF inv(3), of q ow] by (simp add: out q)
    show "q \<in> set (outputs_of ?C ow) \<or> (ow, q) \<in> X" if "owner_of ?C q = Some ow"
      using that owners_invD(3) [OF inv(3), of q ow] by (auto simp: out q split: if_splits)
  qed
  moreover have "stores_inv ?C" by (rule stores_inv_cong [OF st(1) _ sp(1)]) (simp add: st)
  moreover have "presence_inv ?C"
  proof (cases "w_presence W")
    case (Some P)
    have "presence.tracks P (has_component W)" using inv(2) Some by (simp add: presence_inv_def)
    then have "presence.tracks (presence_clear_entity e P) (has_component ?C)"
      by (rule presence.tracks_clear) (simp add: has_component_def ent)
    then show ?thesis by (simp add: presence_inv_def st Some)
  qed (simp add: presence_inv_def st)
  moreover have "singletons_inv ?C"
  proof -
    have keep: "map_of (filter (\<lambda>p. snd p \<noteq> e) xs) k = Some x"
      if "map_of xs k = Some x" "x \<noteq> e" for xs :: "(type_id \<times> entity) list" and k x
      using that by (induction xs) (auto split: if_splits)
    have "distinct (map fst (w_singletons ?C))"
      using inv(4) by (simp add: singletons_inv_def st distinct_map_fst_filter)
    moreover have "map_of (w_singletons ?C) key = Some x" if "has_component ?C (SingletonTy key) x" for key x
    proof -
      have "x \<noteq> e" "has_component W (SingletonTy key) x"
        using that by (auto simp: has_component_def ent split: if_splits)
      then show ?thesis using inv(4) keep by (simp add: singletons_inv_def st)
    qed
    ultimately show ?thesis by (simp add: singletons_inv_def)
  qed
  ultimately show "world_ok X ?C" by (simp add: world_ok_def)
qed

lemma remove_entity_ok:
  assumes ok: "world_ok X W" and re: "remove_entity ct e W = Some (owners, W')"
  shows "world_ok X W'" and "owners = entity_owners e W"
    and "\<exists>V. world_ok X V \<and> upkeep (cleared_world e W) V
      \<and> W' = V\<lparr>w_removed_owners := w_removed_owners W @ owners\<rparr>"
proof -
  from re obtain W5 W6 where
    5: "fold_opt (\<lambda>(iv, target). remove_member ct iv e target) (entity_edges ct W e) (cleared_world e W) = Some W5"
    and 6: "fold_opt (\<lambda>(edge, source). remove_component ct (UserTy edge) source None) (entity_retractions ct W e) W5 = Some W6"
    and W': "W' = W6\<lparr>w_removed_owners := w_removed_owners W6 @ entity_owners e W\<rparr>"
    and ow: "owners = entity_owners e W"
    unfolding remove_entity_eq by (auto elim!: bind_SomeE)
  let ?C = "cleared_world e W"
  note C = cleared_world_ok [OF ok, of e]
  have k5: "keeps_up ((\<lambda>(iv, target). remove_member ct iv e target) x)" for x :: "nat \<times> entity"
    by (cases x) (simp add: remove_member_keeps)
  have k6: "keeps_up ((\<lambda>(edge, source). remove_component ct (UserTy edge) source None) x)" for x :: "nat \<times> entity"
    by (cases x) (simp add: remove_component_keeps)
  note 5 = fold_keeps_up [OF 5 k5 C(1)]
  note 6 = fold_keeps_up [OF 6 k6 5(1)]
  have 7: "world_ok X W6" "upkeep ?C W6" using 6 upkeep_trans [OF 5(2)] by blast+
  show "world_ok X W'" unfolding W' by (rule world_ok_cong [OF _ _ _ _ _ 7(1)]) simp_all
  show "owners = entity_owners e W" by (rule ow)
  have r6: "w_removed_owners W6 = w_removed_owners W" using upkeepD(10) [OF 7(2)] C(4) by simp
  show "\<exists>V. world_ok X V \<and> upkeep ?C V \<and> W' = V\<lparr>w_removed_owners := w_removed_owners W @ owners\<rparr>"
    by (intro exI [of _ W6] conjI 7) (simp add: W' r6 ow)
qed


section \<open>In-place writes\<close>

lemma put_same_ok:
  assumes ok: "world_ok X W" and s: "stores_get ty (w_stores W) = Some s"
    and same: "\<And>x. map_option ce_owner (map_of (entries s') x) = map_option ce_owner (map_of (entries s) x)"
    and W': "w_stores W' = stores_put ty s' (w_stores W)" "w_revision W \<le> w_revision W'"
      "w_presence W' = w_presence W" "w_owners W' = w_owners W" "w_singletons W' = w_singletons W"
    and sok: "store_ok (w_revision W') s'"
  shows "world_ok X W'"
proof -
  note inv = world_okD [OF ok]
  have wf: "stores_wf (w_stores W)" using inv(1) by (simp add: stores_inv_def)
  have ent: "entry_of W' ty' x = (if ty' = ty then map_of (entries s') x else entry_of W ty' x)" for ty' x
    by (simp add: entry_of_def W' table.get_put [OF wf])
  have old: "entry_of W ty x = map_of (entries s) x" for x by (simp add: entry_of_def s)
  have own: "map_option ce_owner (entry_of W' ty' x) = map_option ce_owner (entry_of W ty' x)" for ty' x
    using same [of x] by (simp add: ent old)
  have h: "has_component W' = has_component W"
  proof (intro ext)
    show "has_component W' ty' x = has_component W ty' x" for ty' x
      using own [of ty' x] by (cases "entry_of W' ty' x"; cases "entry_of W ty' x") (simp_all add: has_component_def)
  qed
  have o: "owner_of W' = owner_of W"
  proof
    show "owner_of W' p = owner_of W p" for p
      using own [of "fst p" "snd p"]
      by (cases "entry_of W' (fst p) (snd p)"; cases "entry_of W (fst p) (snd p)") (simp_all add: owner_of_def)
  qed
  have "owners_inv X W'"
    using inv(3) outputs_of_cong [OF W'(4)] owners_wf_cong [OF W'(4)] by (simp add: owners_inv_def o)
  moreover have "stores_inv W'" by (rule stores_inv_put [OF inv(1) W'(1,2) sok])
  moreover have "presence_inv W'" by (rule presence_inv_cong [OF W'(3) h inv(2)])
  moreover have "singletons_inv W'" using inv(4) by (simp add: singletons_inv_def h W')
  ultimately show ?thesis by (simp add: world_ok_def)
qed

lemma store_ok_get: "world_ok X W \<Longrightarrow> stores_get ty (w_stores W) = Some s \<Longrightarrow> store_ok (w_revision W) s"
  by (simp add: world_ok_def stores_inv_def)

lemma fingerprint_bucket_spec:
  assumes "stores_inv W"
  shows "set (entities_with_fingerprint W ty f) = {e. fingerprint_of W ty e = Some f}"
    and "sorted_wrt (<) (entities_with_fingerprint W ty f)"
proof -
  have "set (entities_with_fingerprint W ty f) = {e. fingerprint_of W ty e = Some f}
    \<and> sorted_wrt (<) (entities_with_fingerprint W ty f)"
  proof (cases "stores_get ty (w_stores W)")
    case (Some s)
    have "store_ok (w_revision W) s" using assms Some by (simp add: stores_inv_def)
    then have i: "index_ok s (fp_of s)" by (simp add: store_ok_def)
    have b: "entities_with_fingerprint W ty f = bucket s f"
      by (simp add: entities_with_fingerprint_def Some fingerprint_bucket_def bucket_def)
    have fi: "fingerprint_of W ty e = fp_of s e" for e
      by (simp add: fingerprint_of_def entry_of_def Some fp_of_def)
    have "e \<in> set (bucket s f) \<longleftrightarrow> fp_of s e = Some f" for e
      using i unfolding index_ok_def by blast
    then have "set (bucket s f) = {e. fingerprint_of W ty e = Some f}"
      by (intro set_eqI) (simp only: fi mem_Collect_eq)
    then show ?thesis
      unfolding b using bucket_sorted [OF i, of f] by (simp add: strict_sorted_iff)
  qed (simp add: entities_with_fingerprint_def fingerprint_of_def entry_of_def)
  then show "set (entities_with_fingerprint W ty f) = {e. fingerprint_of W ty e = Some f}"
    and "sorted_wrt (<) (entities_with_fingerprint W ty f)" by blast+
qed

lemma store_value_ok:
  assumes "store_ok r s" and "map_of (entries s) e = Some en"
  shows "store_ok r (s\<lparr>entries := AList.update e (en\<lparr>ce_value := v\<rparr>) (entries s)\<rparr>)"
proof (rule store_okI)
  let ?s = "s\<lparr>entries := AList.update e (en\<lparr>ce_value := v\<rparr>) (entries s)\<rparr>"
  have "fp_of ?s = fp_of s" using assms(2) by (auto simp: fp_of_def map_of_update)
  then show "index_ok ?s (fp_of ?s)"
    using assms(1) index_ok_cong [of ?s s] by (simp add: store_ok_def)
  have old: "ce_revision y \<le> watermark s" if "map_of (entries s) x = Some y" for x y
    using assms(1) that by (simp add: store_ok_def revisions_ok_def)
  show "revisions_ok r ?s"
    using assms(1) old [OF assms(2)] old unfolding revisions_ok_def store_ok_def
    by (simp add: map_of_update)
  show "distinct (map fst (entries ?s))" using assms(1) by (simp add: store_ok_def distinct_update)
qed

lemma write_cell_ok:
  assumes ok: "world_ok X W"
  shows "world_ok X (write_cell ty e v W)"
proof (cases "\<exists>s en. stores_get ty (w_stores W) = Some s \<and> map_of (entries s) e = Some en")
  case True
  then obtain s en where s: "stores_get ty (w_stores W) = Some s" "map_of (entries s) e = Some en" by blast
  have "world_ok X (put_store ty (s\<lparr>entries := AList.update e (en\<lparr>ce_value := v\<rparr>) (entries s)\<rparr>) W)"
    by (rule put_same_ok [OF ok s(1)])
      (auto simp: map_of_update s(2) store_value_ok [OF store_ok_get [OF ok s(1)] s(2)])
  then show ?thesis by (simp add: write_cell_def s)
next
  case False
  then have "write_cell ty e v W = W" by (auto simp: write_cell_def split: option.split)
  then show ?thesis using ok by simp
qed

lemma reconcile_row_ok:
  assumes ok: "world_ok X W"
  shows "world_ok X (reconcile_row ct (ty, e) W)"
proof (cases "stores_get ty (w_stores W)")
  case None
  then show ?thesis using ok by (simp add: reconcile_row_def)
next
  case (Some s)
  obtain s' r' where r: "reconcile_entry ct ty e (w_revision W) s = (s', r')" by (rule prod.exhaust)
  note sok = store_ok_get [OF ok Some]
  let ?W = "log_write ty e ((put_store ty s' W)\<lparr>w_revision := r'\<rparr>)"
  have W: "reconcile_row ct (ty, e) W = ?W" by (simp add: reconcile_row_def Some r)
  have facts: "store_ok r' s' \<and> w_revision W \<le> r' \<and>
      (\<forall>x. map_option ce_owner (map_of (entries s') x) = map_option ce_owner (map_of (entries s) x))"
  proof (cases "map_of (entries s) e")
    case None
    then show ?thesis using r sok by simp
  next
    case (Some en)
    then show ?thesis using reconcile_entryD [OF Some r refl] sok by simp
  qed
  have f1: "store_ok r' s'" and f2: "w_revision W \<le> r'"
    and f3: "map_option ce_owner (map_of (entries s') x) = map_option ce_owner (map_of (entries s) x)" for x
    using facts by blast+
  show ?thesis
    unfolding W by (rule put_same_ok [OF ok Some f3]) (use f1 f2 in simp_all)
qed

lemma reconcile_written_ok: "world_ok X W \<Longrightarrow> world_ok X (reconcile_written ct writes W)"
  unfolding reconcile_written_def
proof (induction writes arbitrary: W)
  case (Cons p writes)
  then show ?case using reconcile_row_ok [OF Cons.prems, of ct "fst p" "snd p"] by simp
qed simp

lemma try_updateE:
  assumes "try_update_component_live ct ty e held f W = Applied changed W'"
  obtains s en where "stores_get ty (w_stores W) = Some s" "map_of (entries s) e = Some en" "\<not> held"
    "changed = (tracked ct ty \<and> (ce_fingerprint en = None \<or> ce_fingerprint en \<noteq> fingerprint ct ty (f (ce_value en))))"
    "W' = (let s1 = reindex e (ce_fingerprint en) (fingerprint ct ty (f (ce_value en)))
               (s\<lparr>entries := AList.update e (en\<lparr>ce_value := f (ce_value en),
                  ce_fingerprint := fingerprint ct ty (f (ce_value en)),
                  ce_revision := if changed then w_revision W + 1 else ce_revision en\<rparr>) (entries s)\<rparr>);
             W1 = put_store ty (if changed then bump_watermark (w_revision W + 1) s1 else s1) W
         in if changed then (log_write ty e W1)\<lparr>w_revision := w_revision W + 1\<rparr> else W1)"
  using assms by (auto simp: try_update_component_live_def Let_def split: option.splits if_split_asm)

lemma try_update_ok:
  assumes ok: "world_ok X W" and tr: "try_update_component_live ct ty e held f W = Applied changed W'"
  shows "world_ok X W'"
proof -
  obtain s en where s: "stores_get ty (w_stores W) = Some s" "map_of (entries s) e = Some en"
    and W': "W' = (let s1 = reindex e (ce_fingerprint en) (fingerprint ct ty (f (ce_value en)))
               (s\<lparr>entries := AList.update e (en\<lparr>ce_value := f (ce_value en),
                  ce_fingerprint := fingerprint ct ty (f (ce_value en)),
                  ce_revision := if changed then w_revision W + 1 else ce_revision en\<rparr>) (entries s)\<rparr>);
             W1 = put_store ty (if changed then bump_watermark (w_revision W + 1) s1 else s1) W
         in if changed then (log_write ty e W1)\<lparr>w_revision := w_revision W + 1\<rparr> else W1)"
    using tr by (rule try_updateE)
  let ?fp = "fingerprint ct ty (f (ce_value en))"
  let ?en = "en\<lparr>ce_value := f (ce_value en), ce_fingerprint := ?fp,
      ce_revision := if changed then w_revision W + 1 else ce_revision en\<rparr>"
  let ?r = "if changed then w_revision W + 1 else w_revision W"
  define s1 where "s1 = reindex e (ce_fingerprint en) ?fp (s\<lparr>entries := AList.update e ?en (entries s)\<rparr>)"
  define s' where "s' = (if changed then bump_watermark (w_revision W + 1) s1 else s1)"
  note sok = store_ok_get [OF ok s(1)]
  have ents: "map_of (entries s') = (map_of (entries s))(e \<mapsto> ?en)"
    by (simp add: s'_def s1_def map_of_update)
  have "store_ok ?r s'"
  proof (rule store_okI)
    have "index_ok (s\<lparr>entries := AList.update e ?en (entries s)\<rparr>) (fp_of s)"
      using sok by (subst index_ok_cong [of _ s]) (simp_all add: store_ok_def)
    from index_ok_reindex [OF this, of e ?fp] have "index_ok s1 (fp_of s')"
      by (simp add: s1_def fp_of_entry [OF s(2)] fp_of_update [OF ents])
    then show "index_ok s' (fp_of s')"
      using index_ok_cong [of s' s1] by (simp add: s'_def)
    show "distinct (map fst (entries s'))" using sok by (simp add: s'_def s1_def store_ok_def distinct_update)
    have old: "ce_revision y \<le> watermark s" if "map_of (entries s) x = Some y" for x y
      using sok that by (simp add: store_ok_def revisions_ok_def)
    have w: "watermark s' = (if changed then max (watermark s) (w_revision W + 1) else watermark s)"
      by (simp add: s'_def s1_def)
    have "ce_revision y \<le> watermark s'" if "map_of (entries s') x = Some y" for x y
      using that old [of x y] old [OF s(2)] unfolding ents w by (cases "x = e") auto
    moreover have "watermark s' \<le> ?r" using sok by (simp add: w store_ok_def revisions_ok_def)
    ultimately show "revisions_ok ?r s'" by (simp add: revisions_ok_def)
  qed
  moreover have "W' = (if changed then (log_write ty e (put_store ty s' W))\<lparr>w_revision := w_revision W + 1\<rparr>
      else put_store ty s' W)"
    unfolding W' s'_def s1_def Let_def by simp
  ultimately show ?thesis
    by (intro put_same_ok [OF ok s(1), where s' = s']) (auto simp: ents s(2))
qed

section \<open>Construction\<close>

lemma empty_world_ok:
  assumes "stores_wf (w_stores W)" and none: "\<And>ty. stores_get ty (w_stores W) = None"
    and "w_owners W = []" and "w_singletons W = []"
    and P: "case w_presence W of None \<Rightarrow> True | Some P \<Rightarrow> presence.tracks P (\<lambda>_ _. False)"
  shows "world_ok {} W"
proof -
  have e: "entry_of W ty x = None" for ty x by (simp add: entry_of_def none)
  then have h: "has_component W = (\<lambda>_ _. False)" by (simp add: has_component_def fun_eq_iff)
  have "presence_inv W" unfolding presence_inv_def h by (rule P)
  moreover have "owner_of W p = None" for p by (simp add: owner_of_def e)
  ultimately show ?thesis
    using assms h by (simp add: world_ok_def stores_inv_def owners_inv_def owners_wf_def
        singletons_inv_def outputs_of_def)
qed

lemma world_new_ok: "world_ok {} world_new"
  by (rule empty_world_ok) (simp_all add: world_new_def stores_default_wf)

lemma with_registry_new:
  assumes "distinct universe"
  shows "slots (with_registry (bit_for (presence_new universe))) = map (\<lambda>ty. (ty, None)) universe"
proof -
  have sw: "map (\<lambda>(ty, slot). (slot, ty)) (bit_for (presence_new universe)) = List.enumerate 0 universe"
    by (simp add: presence_new_list [OF assms] comp_def split_def)
  have srt: "sort_key fst (List.enumerate 0 universe) = List.enumerate 0 universe"
    by (rule sort_key_id_if_sorted) simp
  have "slots (with_registry (bit_for (presence_new universe)) :: 'a stores) =
      map (\<lambda>(_, ty). (ty, None)) (List.enumerate 0 universe)"
    by (simp only: with_registry_def Let_def sw srt stores.select_convs)
  also have "\<dots> = map (\<lambda>ty. (ty, None)) (map snd (List.enumerate 0 universe))"
    by (simp add: split_def comp_def del: map_snd_enumerate)
  finally show ?thesis by (simp only: map_snd_enumerate)
qed

lemma with_registry_get:
  assumes "distinct universe"
  shows "stores_get ty (with_registry (bit_for (presence_new universe))) = None"
proof -
  let ?S = "with_registry (bit_for (presence_new universe)) :: 'a stores"
  have reg: "registry ?S = bit_for (presence_new universe)" "fallback ?S = []"
    by (simp_all add: with_registry_def Let_def)
  show "stores_get ty ?S = None"
    using presence_new_bit_for(1) [OF assms, of ty]
    by (auto simp: stores_get_def reg with_registry_new [OF assms] split: option.split)
qed

lemma init_presence_eq:
  "init_presence universe world_new = Some W \<Longrightarrow>
    W = world_new\<lparr>w_stores := with_registry (bit_for (presence_new universe)), w_presence := Some (presence_new universe)\<rparr>"
  by (simp add: init_presence_def stores_is_empty_def world_new_def stores_default_def Let_def)

lemma init_presence_empty:
  "distinct universe \<Longrightarrow> init_presence universe world_new = Some W \<Longrightarrow> entry_of W ty e = None"
  by (drule init_presence_eq) (simp add: entry_of_def with_registry_get)

lemma init_presence_ok:
  assumes "distinct universe" and "init_presence universe world_new = Some W"
  shows "world_ok {} W"
proof -
  let ?P = "presence_new universe" and ?S = "with_registry (bit_for (presence_new universe)) :: 'a stores"
  have wf: "stores_wf ?S"
    using presence_new_bit_for(1) [OF assms(1)] assms(1)
    by (auto simp: stores_wf_def with_registry_new) (auto simp: with_registry_def Let_def)
  have "presence.tracks ?P (\<lambda>_ _. False)"
    using presence_new_ok [OF assms(1)] presence_new_empty [of universe]
    by (simp add: presence.tracks_def)
  then show ?thesis
    by (intro empty_world_ok) (simp_all add: init_presence_eq [OF assms(2)] wf with_registry_get [OF assms(1)],
        simp_all add: world_new_def)
qed


section \<open>Reachable worlds\<close>

text \<open>
  Every operation of the world as a step.  The first component is the set of outputs that the
  commits in progress have taken out of the ownership index and not yet swept.
\<close>

type_synonym 'v world_state = "(system_invocation \<times> out_pair) set \<times> 'v world"

inductive world_op :: "'v component_trait \<Rightarrow> 'v world_state \<Rightarrow> 'v world_state \<Rightarrow> bool" for ct where
  ws_insert: "world_insert ct ty e v owner W = Some W' \<Longrightarrow> world_op ct (X, W) (X, W')"
| ws_flush: "flush_derived_from ct W = Some W' \<Longrightarrow> world_op ct (X, W) (X, W')"
| ws_remove: "remove_component ct ty e remover W = Some W' \<Longrightarrow> world_op ct (X, W) (X, W')"
| ws_despawn: "remove_entity ct e W = Some (owners, W') \<Longrightarrow> world_op ct (X, W) (X, W')"
| ws_reconcile: "world_op ct (X, W) (X, reconcile_written ct writes W)"
| ws_update: "try_update_component_live ct ty e held f W = Applied changed W' \<Longrightarrow> world_op ct (X, W) (X, W')"
| ws_take: "take_derived_outputs owner W = (previous, W') \<Longrightarrow>
    world_op ct (X, W) (X \<union> {owner} \<times> set previous, W')"
| ws_stale: "remove_derived_stale ct owner previous W = Some W' \<Longrightarrow>
    world_op ct (X, W) (X - {owner} \<times> set previous, W')"
| ws_owned: "remove_derived_owned ct owner W = Some W' \<Longrightarrow> world_op ct (X, W) (X, W')"
| ws_touched: "remove_derived_touched_by_systems ct keys systems W = Some (es, W') \<Longrightarrow>
    world_op ct (X, W) (X, W')"
| ws_spawn: "spawn_empty W = (e, W') \<Longrightarrow> world_op ct (X, W) (X, W')"
| ws_singleton: "singleton_entity_or_spawn key W = (e, W') \<Longrightarrow> world_op ct (X, W) (X, W')"
| ws_register: "singleton_entity_or_register key candidate W = (e, W') \<Longrightarrow> world_op ct (X, W) (X, W')"
| ws_record: "world_op ct (X, W) (X, record_derived_spawn owner e W)"
| ws_finish: "world_op ct (X, W) (X, finish_derived_spawns owner W)"
| ws_roll: "maybe_roll_plan_epoch W = Some (old, W') \<Longrightarrow> world_op ct (X, W) (X, W')"
| ws_drain_entities: "take_removed_entities W = (es, W') \<Longrightarrow> world_op ct (X, W) (X, W')"
| ws_drain_owners: "take_removed_owners W = (os, W') \<Longrightarrow> world_op ct (X, W) (X, W')"
| ws_drain_components: "take_removed_component_owners W = (os, W') \<Longrightarrow> world_op ct (X, W) (X, W')"
| ws_drain_written: "take_written_derived W = (ps, W') \<Longrightarrow> world_op ct (X, W) (X, W')"

text \<open>
  A write through a cell's guard changes a value in place, apart from the operations; the
  reconciliation of the written row follows when the invocation commits.
\<close>

inductive world_step :: "'v component_trait \<Rightarrow> 'v world_state \<Rightarrow> 'v world_state \<Rightarrow> bool" for ct where
  ws_op: "world_op ct s s' \<Longrightarrow> world_step ct s s'"
| ws_write: "world_step ct (X, W) (X, write_cell ty e v W)"

inductive reachable :: "'v component_trait \<Rightarrow> 'v world_state \<Rightarrow> bool" for ct where
  reach_new: "reachable ct ({}, world_new)"
| reach_schema: "distinct universe \<Longrightarrow> init_presence universe world_new = Some W \<Longrightarrow> reachable ct ({}, W)"
| reach_step: "reachable ct s \<Longrightarrow> world_step ct s s' \<Longrightarrow> reachable ct s'"

lemma register_new_ok:
  assumes ok: "world_ok X W" and none: "map_of (w_singletons W) key = None"
  shows "world_ok X (W\<lparr>w_singletons := AList.update key e (w_singletons W)\<rparr>)"
proof -
  let ?W = "W\<lparr>w_singletons := AList.update key e (w_singletons W)\<rparr>"
  note inv = world_okD [OF ok]
  have en: "entry_of ?W = entry_of W" by (rule entry_of_stores) simp
  have h: "has_component ?W = has_component W" by (simp add: has_component_def fun_eq_iff en)
  have "singletons_inv ?W"
    using inv(4) none by (auto simp: singletons_inv_def h distinct_update map_of_update)
  moreover have "owners_inv X ?W" by (rule owners_inv_cong [OF _ en inv(3)]) simp
  moreover have "presence_inv ?W" by (rule presence_inv_cong [OF _ h inv(2)]) simp
  moreover have "stores_inv ?W" by (rule stores_inv_cong [OF _ _ inv(1)]) simp_all
  ultimately show ?thesis by (simp add: world_ok_def)
qed

lemma world_op_ok:
  assumes "world_op ct s s'" and "world_ok (fst s) (snd s)"
  shows "world_ok (fst s') (snd s')"
  using assms
proof (cases rule: world_op.cases)
  case (ws_take owner W previous W' X)
  then show ?thesis
    using take_outputs_ok [of X W owner] assms(2) by (auto simp: take_derived_outputs_def)
next
  case (ws_stale owner previous W W' X)
  then show ?thesis using remove_derived_stale_ok assms(2) by fastforce
next
  case (ws_touched keys systems W es W' X)
  then show ?thesis
    using retire_owners_ok assms(2) unfolding remove_derived_touched_by_systems_def by fastforce
next
  case (ws_spawn W e W' X)
  then show ?thesis using assms(2) world_ok_cong [of W' W X] by (auto simp: spawn_empty_def)
next
  case (ws_singleton key W e W' X)
  then show ?thesis
    using assms(2) register_new_ok [of X "W\<lparr>w_next_entity := w_next_entity W + 1\<rparr>" key]
      world_ok_cong [of "W\<lparr>w_next_entity := w_next_entity W + 1\<rparr>" W X]
    by (auto simp: singleton_entity_or_spawn_def spawn_empty_def split: option.splits)
next
  case (ws_register key candidate W e W' X)
  then show ?thesis
    using assms(2) register_new_ok [of X W key]
    by (auto simp: singleton_entity_or_register_def split: option.splits)
next
  case (ws_record X W owner e)
  then show ?thesis
    using assms(2) world_ok_cong [of "record_derived_spawn owner e W" W X] by (simp add: record_derived_spawn_def Let_def)
next
  case (ws_finish X W owner)
  then show ?thesis
    using assms(2) world_ok_cong [of "finish_derived_spawns owner W" W X]
    by (simp add: finish_derived_spawns_def Let_def split: option.splits)
next
  case (ws_roll W old W' X)
  then show ?thesis
    using assms(2) world_ok_cong [of W' W X] by (auto simp: maybe_roll_plan_epoch_def split: if_splits)
next
  case (ws_drain_entities W es W' X)
  then show ?thesis using assms(2) world_ok_cong [of W' W X] by (auto simp: take_removed_entities_def)
next
  case (ws_drain_owners W es W' X)
  then show ?thesis using assms(2) world_ok_cong [of W' W X] by (auto simp: take_removed_owners_def)
next
  case (ws_drain_components W es W' X)
  then show ?thesis using assms(2) world_ok_cong [of W' W X] by (auto simp: take_removed_component_owners_def)
next
  case (ws_drain_written W es W' X)
  then show ?thesis using assms(2) world_ok_cong [of W' W X] by (auto simp: take_written_derived_def)
qed (auto intro: world_insert_ok flush_derived_from_ok remove_component_ok remove_entity_ok(1)
    reconcile_written_ok try_update_ok remove_derived_owned_ok(1))

lemma world_step_ok: "world_step ct s s' \<Longrightarrow> world_ok (fst s) (snd s) \<Longrightarrow> world_ok (fst s') (snd s')"
  by (erule world_step.cases) (auto intro: world_op_ok write_cell_ok)

lemma reachable_ok: "reachable ct s \<Longrightarrow> world_ok (fst s) (snd s)"
  by (induction rule: reachable.induct) (auto intro: world_new_ok init_presence_ok world_step_ok)

end
