(* ===== verification/Demo.thy ===== *)
theory Demo
  imports World_Props
begin

text \<open>
  A concrete program: five derived components, one of them a relationship edge and one its
  inverse, and a world built by its insertions over a closed schema.  The witnesses of the
  world's properties evaluate it.
\<close>

section \<open>A concrete program\<close>

text \<open>
  Component 0 is hashed, component 1 is a relationship edge, component 2 the maintained inverse
  of that edge, component 3 has no fingerprint, component 4 is untracked.
\<close>

definition demo_decls :: "nat \<Rightarrow> derive_attributes" where
  "demo_decls n = \<lparr>use_hash = (n = 0), untracked = (n = 4), use_revision = False,
     edge_target = (if n = 1 then Some 2 else None), target_edge = (if n = 2 then Some 1 else None),
     type_name = Some n\<rparr>"

definition demo_impls :: "nat \<Rightarrow> component_impl" where
  "demo_impls n = \<lparr>ci_tracked = (n \<noteq> 4),
     ci_fingerprint = (if n = 0 then HashSelf else if n = 2 then HashMembers else NoFingerprint),
     ci_edge = (if n = 1 then Some 2 else None), ci_target = (if n = 2 then Some 1 else None)\<rparr>"

lemma demo_declarations: "declarations_ok demo_decls demo_impls"
  by (auto simp: declarations_ok_def derive_component_def demo_decls_def demo_impls_def)

definition demo_trait :: "nat user_value component_trait" where
  "demo_trait = derived_trait demo_impls uv_payload (\<lambda>ms. foldr (\<lambda>x a. 2 * a + x + 1) ms 0) length 0"

definition demo_plain :: "nat \<Rightarrow> nat user_value cvalue" where
  "demo_plain n = UserV \<lparr>uv_target = 0, uv_members = [], uv_revision = 0, uv_payload = n\<rparr>"

definition demo_edge :: "entity \<Rightarrow> nat user_value cvalue" where
  "demo_edge t = UserV \<lparr>uv_target = t, uv_members = [], uv_revision = 0, uv_payload = 0\<rparr>"

definition demo_owner :: system_invocation where
  "demo_owner = \<lparr>inv_system = 7, inv_keys = [1]\<rparr>"

definition demo_build :: "nat user_value world \<Rightarrow> nat user_value world option" where
  "demo_build W = do {
     W \<leftarrow> insert_base demo_trait (UserTy 0) 1 (demo_plain 42) W;
     W \<leftarrow> insert_base demo_trait (UserTy 0) 3 (demo_plain 42) W;
     W \<leftarrow> insert_base demo_trait (SingletonTy (UserTy 0)) 3 SingletonV W;
     W \<leftarrow> insert_base demo_trait (UserTy 1) 1 (demo_edge 3) W;
     insert_derived demo_trait (UserTy 3) 2 (demo_plain 9) demo_owner W }"

definition demo_world :: "nat user_value world" where
  "demo_world = the (Option.bind (init_presence [UserTy 0, UserTy 1, UserTy 2, UserTy 3] world_new) demo_build)"

lemma demo_world_defined:
  "Option.bind (init_presence [UserTy 0, UserTy 1, UserTy 2, UserTy 3] world_new) demo_build = Some demo_world"
proof -
  have "Option.bind (init_presence [UserTy 0, UserTy 1, UserTy 2, UserTy 3] world_new) demo_build \<noteq> None"
    by code_simp
  then show ?thesis by (auto simp: demo_world_def)
qed


lemma reachable_init:
  assumes "init_presence universe world_new = Some W" and "distinct universe"
  shows "reachable ct ({}, W)"
  using assms by (intro reach_schema)

lemma reachable_insert:
  "reachable ct (X, W) \<Longrightarrow> world_insert ct ty e v owner W = Some W' \<Longrightarrow> reachable ct (X, W')"
  by (rule reach_step) (auto intro: ws_op ws_insert)

lemma demo_world_induct:
  assumes init: "\<And>W. init_presence [UserTy 0, UserTy 1, UserTy 2, UserTy 3] world_new = Some W \<Longrightarrow> P W"
    and step: "\<And>ty e v owner W W'. ty \<noteq> UserTy 2 \<Longrightarrow> (\<And>as. v \<noteq> DerivedFromV as) \<Longrightarrow> P W \<Longrightarrow>
      world_insert demo_trait ty e v owner W = Some W' \<Longrightarrow> P W'"
  shows "P demo_world"
proof -
  obtain W0 where W0: "init_presence [UserTy 0, UserTy 1, UserTy 2, UserTy 3] world_new = Some W0"
    and b: "demo_build W0 = Some demo_world"
    using demo_world_defined by (rule bind_SomeE)
  from b obtain W1 W2 W3 W4 where
    W: "world_insert demo_trait (UserTy 0) 1 (demo_plain 42) None W0 = Some W1"
      "world_insert demo_trait (UserTy 0) 3 (demo_plain 42) None W1 = Some W2"
      "world_insert demo_trait (SingletonTy (UserTy 0)) 3 SingletonV None W2 = Some W3"
      "world_insert demo_trait (UserTy 1) 1 (demo_edge 3) None W3 = Some W4"
      "world_insert demo_trait (UserTy 3) 2 (demo_plain 9) (Some demo_owner) W4 = Some demo_world"
    unfolding demo_build_def insert_base_def insert_derived_def by (elim bind_SomeE) blast
  have "P W1" by (rule step [OF _ _ init [OF W0] W(1)]) (simp_all add: demo_plain_def)
  then have "P W2" by (rule step [OF _ _ _ W(2), rotated 2]) (simp_all add: demo_plain_def)
  then have "P W3" by (rule step [OF _ _ _ W(3), rotated 2]) simp_all
  then have "P W4" by (rule step [OF _ _ _ W(4), rotated 2]) (simp_all add: demo_edge_def)
  then show ?thesis by (rule step [OF _ _ _ W(5), rotated 2]) (simp_all add: demo_plain_def)
qed

lemma demo_world_reachable: "reachable demo_trait ({}, demo_world)"
  by (rule demo_world_induct) (auto intro: reachable_init reachable_insert)

end
