(* ===== verification/World_Claims.thy ===== *)
theory World_Claims
  imports Demo
begin

text \<open>
  What the world guarantees in every state the engine can reach.
\<close>

section \<open>What holds in every reachable world\<close>

text \<open>
  C8. An equality lookup is exact: in every reachable world, also in the middle of a commit,
  the fingerprint index returns, in ascending order and without repetition, exactly the
  entities whose stored entry of that component carries the fingerprint.
\<close>

theorem equality_lookup_exact:
  assumes "reachable ct (X, W)"
  shows "set (entities_with_fingerprint W ty f) = {e. fingerprint_of W ty e = Some f}
    \<and> sorted_wrt (<) (entities_with_fingerprint W ty f)"
  using fingerprint_bucket_spec [OF world_okD(1) [OF reachable_ok [OF assms, simplified]]] by blast

theorem equality_lookup_exact_witness:
  "set (entities_with_fingerprint demo_world (UserTy 0) 42)
     = {e. fingerprint_of demo_world (UserTy 0) e = Some 42}"
  using equality_lookup_exact [OF demo_world_reachable] by blast

text \<open>
  C9. Ownership is exact: whenever no commit is in progress, the index of derived outputs lists
  under an invocation exactly the components whose entry names that invocation as its owner.
\<close>

theorem ownership_exact:
  assumes "reachable ct ({}, W)"
  shows "p \<in> set (outputs_of W ow) \<longleftrightarrow> owner_of W p = Some ow"
proof -
  have inv: "owners_inv {} W" using world_okD(3) [OF reachable_ok [OF assms]] by simp
  show ?thesis using owners_invD(2) [OF inv] owners_invD(3) [OF inv] by blast
qed

theorem ownership_exact_witness:
  "(UserTy 3, 2) \<in> set (outputs_of demo_world demo_owner)
    \<longleftrightarrow> owner_of demo_world (UserTy 3, 2) = Some demo_owner"
  by (rule ownership_exact [OF demo_world_reachable])

text \<open>
  C10. A singleton is unique: in every reachable world at most one entity carries the marker
  of a given singleton, and it is the registered entity.
\<close>

theorem singleton_unique:
  assumes "reachable ct (X, W)" and "has_component W (SingletonTy key) e"
  shows "map_of (w_singletons W) key = Some e \<and> (\<forall>e'. has_component W (SingletonTy key) e' \<longrightarrow> e' = e)"
proof -
  have "singletons_inv W" using world_okD(4) [OF reachable_ok [OF assms(1)]] by simp
  then have reg: "map_of (w_singletons W) key = Some x" if "has_component W (SingletonTy key) x" for x
    using that by (simp add: singletons_inv_def)
  show ?thesis using reg [OF assms(2)] reg by force
qed

theorem singleton_unique_witness:
  "map_of (w_singletons demo_world) (UserTy 0) = Some 3
    \<and> {e'. has_component demo_world (SingletonTy (UserTy 0)) e'} = {3}"
proof -
  have h: "has_component demo_world (SingletonTy (UserTy 0)) 3" unfolding demo_world_def by code_simp
  show ?thesis using singleton_unique [OF demo_world_reachable h] h by blast
qed

text \<open>
  C11. Change detection never misses: in every reachable world an entry's revision is covered
  by the watermark of its store, and that by the revision of the world.
\<close>

theorem watermark_covers:
  assumes "reachable ct (X, W)" and "entry_of W ty e = Some en"
  shows "ce_revision en \<le> store_watermark W ty \<and> store_watermark W ty \<le> w_revision W"
  using stores_inv_entry_revision [OF world_okD(1) [OF reachable_ok [OF assms(1), simplified]] assms(2)] by simp

theorem watermark_covers_witness:
  "\<exists>en. entry_of demo_world (UserTy 0) 3 = Some en
    \<and> ce_revision en \<le> store_watermark demo_world (UserTy 0)
    \<and> store_watermark demo_world (UserTy 0) \<le> w_revision demo_world"
proof -
  have "entry_of demo_world (UserTy 0) 3 \<noteq> None" unfolding demo_world_def by code_simp
  then obtain en where "entry_of demo_world (UserTy 0) 3 = Some en" by auto
  with watermark_covers [OF demo_world_reachable this] show ?thesis by blast
qed

text \<open>
  C12. Row matching by presence bits answers what probing the stores would: in every reachable
  world over a closed schema, an entity's bits satisfy the mask of a list of components exactly
  when the entity has all of them.
\<close>

theorem presence_agrees_with_stores:
  assumes "reachable ct (X, W)" and "w_presence W = Some P" and "presence_mask P tys = Some m"
  shows "presence_matches P e m \<longleftrightarrow> (\<forall>ty\<in>set tys. has_component W ty e)"
  by (rule presence_inv_mask(1) [OF world_okD(2) [OF reachable_ok [OF assms(1), simplified]] assms(2,3)])

theorem presence_agrees_with_stores_witness:
  "\<exists>P m. w_presence demo_world = Some P \<and> presence_mask P [UserTy 0, UserTy 1] = Some m
    \<and> (presence_matches P 1 m \<longleftrightarrow> (\<forall>ty\<in>set [UserTy 0, UserTy 1]. has_component demo_world ty 1))"
proof -
  have "Option.bind (w_presence demo_world) (\<lambda>P. presence_mask P [UserTy 0, UserTy 1]) \<noteq> None"
    unfolding demo_world_def by code_simp
  then obtain P m where "w_presence demo_world = Some P" "presence_mask P [UserTy 0, UserTy 1] = Some m"
    by (auto split: Option.bind_splits)
  with presence_agrees_with_stores [OF demo_world_reachable this] show ?thesis by blast
qed

end
