(* ===== verification/Relationships.thy ===== *)
theory Relationships
  imports Demo
begin

text \<open>
  Relationship maintenance: an edge component names a target entity, and the engine keeps an
  inverse component on the target that lists the sources pointing at it, sorted by id.

  The theory characterises the two maintainers on sorted member lists, and proves that
  insertion, retargeting, removal, sweeping and despawning keep every inverse equal to the set
  of edges pointing at its entity.
\<close>

section \<open>Sorted member lists\<close>

lemma binary_search_insert:
  assumes "sorted xs" and "x \<notin> set xs"
  shows "binary_search xs x = Inr (length (takeWhile (\<lambda>y. y < x) xs))"
    and "take (length (takeWhile (\<lambda>y. y < x) xs)) xs @ x # drop (length (takeWhile (\<lambda>y. y < x) xs)) xs = insort x xs"
proof -
  show "binary_search xs x = Inr (length (takeWhile (\<lambda>y. y < x) xs))"
    using assms(2) by (simp add: binary_search_def)
  show "take (length (takeWhile (\<lambda>y. y < x) xs)) xs @ x # drop (length (takeWhile (\<lambda>y. y < x) xs)) xs = insort x xs"
    using assms by (induction xs) auto
qed

lemma binary_search_remove:
  assumes "sorted xs" and "distinct xs" and "x \<in> set xs"
  shows "binary_search xs x = Inl (length (takeWhile (\<lambda>y. y < x) xs))"
    and "take (length (takeWhile (\<lambda>y. y < x) xs)) xs @ drop (Suc (length (takeWhile (\<lambda>y. y < x) xs))) xs = remove1 x xs"
proof -
  show "binary_search xs x = Inl (length (takeWhile (\<lambda>y. y < x) xs))"
    using assms(3) by (simp add: binary_search_def)
  show "take (length (takeWhile (\<lambda>y. y < x) xs)) xs @ drop (Suc (length (takeWhile (\<lambda>y. y < x) xs))) xs = remove1 x xs"
    using assms
  proof (induction xs)
    case (Cons y ys)
    then show ?case by (cases "x = y") (auto simp: order_less_le)
  qed simp
qed

lemma binary_search_cases:
  assumes "sorted xs" and "distinct xs"
  shows "x \<in> set xs \<Longrightarrow> \<exists>i. binary_search xs x = Inl i \<and> take i xs @ drop (Suc i) xs = remove1 x xs"
    and "x \<notin> set xs \<Longrightarrow> \<exists>i. binary_search xs x = Inr i \<and> take i xs @ x # drop i xs = insort x xs"
  using binary_search_insert [OF assms(1)] binary_search_remove [OF assms] by blast+

section \<open>The dictionary of relationships\<close>

text \<open>
  \<open>kind n = Some iv\<close>: component \<open>n\<close> is an edge maintaining the inverse \<open>iv\<close>.  Every inverse
  belongs to one edge (its associated type \<open>Edge\<close>) and is not an edge itself.
\<close>

definition relationship_dict :: "(nat \<Rightarrow> nat option) \<Rightarrow> 'v component_trait \<Rightarrow> bool" where
  "relationship_dict kind ct \<longleftrightarrow>
     (\<forall>n x iv t. ct_edge ct n x = Some (iv, t) \<longrightarrow> kind n = Some iv)
     \<and> (\<forall>n iv. kind n = Some iv \<longrightarrow> kind iv = None)
     \<and> (\<forall>n n' iv. kind n = Some iv \<longrightarrow> kind n' = Some iv \<longrightarrow> n = n')
     \<and> (\<forall>n iv y. kind n = Some iv \<longrightarrow> ct_retractions ct iv y = map (Pair n) (ct_members ct iv y))
     \<and> (\<forall>m y. (\<forall>n. kind n \<noteq> Some m) \<longrightarrow> ct_retractions ct m y = [])
     \<and> members_roundtrip ct"

lemma relationship_dictD:
  assumes "relationship_dict kind ct"
  shows "ct_edge ct n x = Some (iv, t) \<Longrightarrow> kind n = Some iv"
    and "kind n = Some iv \<Longrightarrow> kind iv = None"
    and "kind n = Some iv \<Longrightarrow> kind n' = Some iv \<Longrightarrow> n = n'"
    and "kind n = Some iv \<Longrightarrow> ct_retractions ct iv y = map (Pair n) (ct_members ct iv y)"
    and "(\<And>n. kind n \<noteq> Some m) \<Longrightarrow> ct_retractions ct m y = []"
    and "ct_members ct n (ct_from_members ct n ms) = ms"
  using assms unfolding relationship_dict_def members_roundtrip_def by blast+

text \<open>Derived declarations that name each other form such a dictionary.\<close>

lemma derived_relationship_dict:
  assumes "declarations_ok decls impls"
    and pair: "\<And>n iv. ci_edge (impls n) = Some iv \<longleftrightarrow> ci_target (impls iv) = Some n"
  shows "relationship_dict (\<lambda>n. ci_edge (impls n)) (derived_trait impls hv hm ha blank)"
proof -
  let ?ct = "derived_trait impls hv hm ha blank"
  have excl: "ci_edge (impls iv) = None" if "ci_target (impls iv) = Some n" for n iv
    using derive_component_exclusive [of "decls iv" "impls iv"] assms(1) that
    by (simp add: declarations_ok_def)
  show ?thesis
    unfolding relationship_dict_def
  proof (intro conjI allI impI)
    show "ci_edge (impls n) = Some iv" if "ct_edge ?ct n x = Some (iv, t)" for n x iv t
      using that by (cases "ci_edge (impls n)") (simp_all add: derived_trait_def)
    show "ci_edge (impls iv) = None" if "ci_edge (impls n) = Some iv" for n iv
      by (rule excl) (rule iffD1 [OF pair that])
    show "n = n'" if "ci_edge (impls n) = Some iv" "ci_edge (impls n') = Some iv" for n n' iv
      using iffD1 [OF pair that(1)] iffD1 [OF pair that(2)] by simp
    show "ct_retractions ?ct iv y = map (Pair n) (ct_members ?ct iv y)"
      if "ci_edge (impls n) = Some iv" for n iv y
      using iffD1 [OF pair that] by (simp add: derived_trait_def)
    show "ct_retractions ?ct m y = []" if no: "\<forall>n. ci_edge (impls n) \<noteq> Some m" for m y
    proof (cases "ci_target (impls m)")
      case (Some n)
      then show ?thesis using iffD2 [OF pair Some] no by blast
    qed (simp add: derived_trait_def)
    show "members_roundtrip ?ct" by (rule derived_trait_plain(2) [OF assms(1)])
  qed
qed

lemma demo_dict: "relationship_dict (\<lambda>n. ci_edge (demo_impls n)) demo_trait"
  unfolding demo_trait_def
  by (rule derived_relationship_dict [OF demo_declarations]) (auto simp: demo_impls_def split: if_splits)

lemma edge_none:
  assumes "relationship_dict kind ct" and "kind n = None"
  shows "relationship_edge ct (UserTy n) v = None"
proof (cases v)
  case (UserV x)
  then show ?thesis
    using relationship_dictD(1) [OF assms(1), of n x] assms(2)
    by (cases "ct_edge ct n x") (auto simp: relationship_edge_def)
qed (simp_all add: relationship_edge_def)

lemma edge_kind:
  assumes "relationship_dict kind ct" and "relationship_edge ct ty v = Some (iv, t)"
  obtains n where "ty = UserTy n" "kind n = Some iv"
  using assms relationship_dictD(1) [OF assms(1)]
  by (auto simp: relationship_edge_def split: type_id.splits cvalue.splits)

section \<open>Maintaining one inverse\<close>

definition members_of :: "'v component_trait \<Rightarrow> 'v world \<Rightarrow> nat \<Rightarrow> entity \<Rightarrow> entity list" where
  "members_of ct W iv t = (case entry_of W (UserTy iv) t of
     None \<Rightarrow> [] | Some en \<Rightarrow> relationship_members ct iv (ce_value en))"

definition edge_of :: "'v component_trait \<Rightarrow> 'v world \<Rightarrow> nat \<Rightarrow> entity \<Rightarrow> (nat \<times> entity) option" where
  "edge_of ct W n s = Option.bind (entry_of W (UserTy n) s) (\<lambda>en. relationship_edge ct (UserTy n) (ce_value en))"

text \<open>Writing an inverse is one plain insertion, removing it one plain removal.\<close>

lemma insert_at_plain:
  assumes "relationship_dict kind ct" and "kind iv = None"
  shows "insert_at (Suc m) ct (UserTy iv) t (UserV x) ow W = Some (snd (insert_entry ct (UserTy iv) t (UserV x) ow W))"
proof -
  obtain p W' where ie: "insert_entry ct (UserTy iv) t (UserV x) ow W = (p, W')" by (rule prod.exhaust)
  show ?thesis
    using edge_none [OF assms]
    by (cases p) (simp_all add: insert_body_def insert_value_def register_singleton_def singleton_key_def ie Let_def)
qed

lemma remove_at_plain:
  assumes "relationship_dict kind ct" and "kind iv = None"
    and "stores_get (UserTy iv) (w_stores W) = Some s" "store_remove t s = Some (en, s')"
  shows "remove_at (Suc m) ct (UserTy iv) t r W = Some (removed_world (UserTy iv) t r en s' W)"
  by (simp add: remove_body_eq assms(3,4) edge_none [OF assms(1,2)])

lemma entry_remove:
  assumes "entry_of W ty e = Some en"
  obtains s s' where "stores_get ty (w_stores W) = Some s" "store_remove e s = Some (en, s')"
  using assms by (auto simp: entry_of_def store_remove_def split: Option.bind_splits)

text \<open>
  The effect of one maintainer: only the inverse at \<open>t\<close> changes, its members become \<open>ms\<close>, and it
  is present exactly when there are members.
\<close>

definition resets :: "'v component_trait \<Rightarrow> nat \<Rightarrow> entity \<Rightarrow> entity list \<Rightarrow> 'v world \<Rightarrow> 'v world \<Rightarrow> bool" where
  "resets ct iv t ms W W' \<longleftrightarrow>
     (\<forall>ty e. \<not> (ty = UserTy iv \<and> e = t) \<longrightarrow> entry_of W' ty e = entry_of W ty e)
     \<and> members_of ct W' iv t = ms \<and> (has_component W' (UserTy iv) t \<longleftrightarrow> ms \<noteq> [])"

definition member_list_ok :: "'v component_trait \<Rightarrow> 'v world \<Rightarrow> nat \<Rightarrow> entity \<Rightarrow> bool" where
  "member_list_ok ct W iv t \<longleftrightarrow> sorted (members_of ct W iv t) \<and> distinct (members_of ct W iv t)
     \<and> (has_component W (UserTy iv) t \<longleftrightarrow> members_of ct W iv t \<noteq> [])"

lemma resets_insert:
  assumes dict: "relationship_dict kind ct" and ok: "world_ok X W" and ms: "ms \<noteq> []"
  shows "resets ct iv t ms W (snd (insert_entry ct (UserTy iv) t (UserV (ct_from_members ct iv ms)) None W))"
proof -
  obtain p W' where ie: "insert_entry ct (UserTy iv) t (UserV (ct_from_members ct iv ms)) None W = (p, W')"
    by (rule prod.exhaust)
  note en = insert_entry_entry_of [OF world_okD(1) [OF ok] ie]
  show ?thesis
    using ms by (simp add: ie resets_def en members_of_def has_component_def inserted_entry_def
        relationship_members_def relationship_dictD(6) [OF dict])
qed

lemma add_member_spec:
  assumes dict: "relationship_dict kind ct" and k: "kind iv = None" and ok: "world_ok X W"
    and ml: "member_list_ok ct W iv t"
  shows "\<exists>W'. relationship_add_member (insert_at (Suc m) ct) ct iv s t W = Some W'
    \<and> resets ct iv t (insort_insert s (members_of ct W iv t)) W W'"
proof (cases "s \<in> set (members_of ct W iv t)")
  case True
  then obtain i where "binary_search (members_of ct W iv t) s = Inl i"
    using binary_search_cases(1) ml by (auto simp: member_list_ok_def)
  then have "relationship_add_member (insert_at (Suc m) ct) ct iv s t W = Some W"
    by (simp add: relationship_add_member_def Let_def members_of_def)
  moreover have "resets ct iv t (insort_insert s (members_of ct W iv t)) W W"
    using True ml by (auto simp: resets_def member_list_ok_def insort_insert_key_def)
  ultimately show ?thesis by blast
next
  case False
  then obtain i where i: "binary_search (members_of ct W iv t) s = Inr i"
    "take i (members_of ct W iv t) @ s # drop i (members_of ct W iv t) = insort s (members_of ct W iv t)"
    using binary_search_cases(2) ml by (auto simp: member_list_ok_def)
  let ?v = "UserV (ct_from_members ct iv (insort s (members_of ct W iv t)))"
  have "relationship_add_member (insert_at (Suc m) ct) ct iv s t W = Some (snd (insert_entry ct (UserTy iv) t ?v None W))"
    using i insert_at_plain [OF dict k, of m]
    by (simp add: relationship_add_member_def Let_def members_of_def del: insert_at.simps)
  moreover have "insort_insert s (members_of ct W iv t) = insort s (members_of ct W iv t)"
    using False by (simp add: insort_insert_key_def)
  ultimately show ?thesis
    using resets_insert [OF dict ok, of "insort s (members_of ct W iv t)" iv t] by (auto simp: insort_not_Nil)
qed

lemma remove_member_spec:
  assumes dict: "relationship_dict kind ct" and k: "kind iv = None" and ok: "world_ok X W"
    and ml: "member_list_ok ct W iv t"
  shows "\<exists>W'. relationship_remove_member (insert_at (Suc m) ct) (remove_at (Suc m) ct) ct iv s t W = Some W'
    \<and> resets ct iv t (remove1 s (members_of ct W iv t)) W W'"
proof (cases "entry_of W (UserTy iv) t")
  case None
  then have "relationship_remove_member (insert_at (Suc m) ct) (remove_at (Suc m) ct) ct iv s t W = Some W"
    by (simp add: relationship_remove_member_def)
  moreover have "resets ct iv t (remove1 s (members_of ct W iv t)) W W"
    by (simp add: resets_def members_of_def None has_component_def)
  ultimately show ?thesis by blast
next
  case (Some en)
  let ?ms = "members_of ct W iv t"
  have ms: "relationship_members ct iv (ce_value en) = ?ms" by (simp add: members_of_def Some)
  show ?thesis
  proof (cases "s \<in> set ?ms")
    case False
    then obtain i where "binary_search ?ms s = Inr i"
      using binary_search_cases(2) ml by (auto simp: member_list_ok_def)
    then have "relationship_remove_member (insert_at (Suc m) ct) (remove_at (Suc m) ct) ct iv s t W = Some W"
      by (simp add: relationship_remove_member_def Some ms Let_def del: insert_at.simps remove_at.simps)
    moreover have "resets ct iv t (remove1 s ?ms) W W"
      using ml False by (simp add: resets_def member_list_ok_def remove1_idem)
    ultimately show ?thesis by blast
  next
    case True
    then obtain i where i: "binary_search ?ms s = Inl i" "take i ?ms @ drop (Suc i) ?ms = remove1 s ?ms"
      using binary_search_cases(1) ml by (auto simp: member_list_ok_def)
    have eq: "relationship_remove_member (insert_at (Suc m) ct) (remove_at (Suc m) ct) ct iv s t W =
        (if remove1 s ?ms = [] then remove_at (Suc m) ct (UserTy iv) t None W
         else insert_at (Suc m) ct (UserTy iv) t (UserV (ct_from_members ct iv (remove1 s ?ms))) None W)"
      by (simp add: relationship_remove_member_def Some ms Let_def i del: insert_at.simps remove_at.simps append_is_Nil_conv)
    show ?thesis
    proof (cases "remove1 s ?ms = []")
      case True
      obtain st s' where s: "stores_get (UserTy iv) (w_stores W) = Some st" "store_remove t st = Some (en, s')"
        using entry_remove [OF Some] .
      let ?W = "removed_world (UserTy iv) t None en s' W"
      have "resets ct iv t [] W ?W"
        using removed_world_ok(2) [OF ok s, of None] by (simp add: resets_def members_of_def has_component_def)
      then show ?thesis
        using eq True remove_at_plain [OF dict k s, of m None] by simp
    next
      case False
      then show ?thesis
        using eq insert_at_plain [OF dict k, of m] resets_insert [OF dict ok False, of iv t] by simp
    qed
  qed
qed


section \<open>The relationship invariant\<close>

definition is_inverse :: "(nat \<Rightarrow> nat option) \<Rightarrow> type_id \<Rightarrow> bool" where
  "is_inverse kind ty \<longleftrightarrow> (\<exists>n iv. kind n = Some iv \<and> ty = UserTy iv)"

text \<open>
  \<open>reflects Q W\<close>: the inverses list, sorted, exactly the sources that \<open>Q\<close> says point at their
  entity.  The invariant is that they reflect the stored edges; while an operation is under way
  they still reflect the edges it has not yet maintained.
\<close>

definition reflects :: "(nat \<Rightarrow> nat option) \<Rightarrow> 'v component_trait \<Rightarrow>
    (nat \<Rightarrow> entity \<Rightarrow> (nat \<times> entity) option) \<Rightarrow> 'v world \<Rightarrow> bool" where
  "reflects kind ct Q W \<longleftrightarrow> (\<forall>n iv t. kind n = Some iv \<longrightarrow> member_list_ok ct W iv t
     \<and> (\<forall>s. s \<in> set (members_of ct W iv t) \<longleftrightarrow> Q n s = Some (iv, t)))"

definition relationships_ok :: "(nat \<Rightarrow> nat option) \<Rightarrow> 'v component_trait \<Rightarrow> 'v world \<Rightarrow> bool" where
  "relationships_ok kind ct W \<longleftrightarrow> reflects kind ct (edge_of ct W) W"

lemma reflectsD:
  assumes "reflects kind ct Q W" and "kind n = Some iv"
  shows "member_list_ok ct W iv t" and "s \<in> set (members_of ct W iv t) \<longleftrightarrow> Q n s = Some (iv, t)"
  using assms unfolding reflects_def by blast+

lemma reflects_cong:
  assumes "\<And>n iv s. kind n = Some iv \<Longrightarrow> Q n s = Q' n s"
    and "\<And>ty t. is_inverse kind ty \<Longrightarrow> entry_of W' ty t = entry_of W ty t"
    and "reflects kind ct Q W"
  shows "reflects kind ct Q' W'"
  unfolding reflects_def
proof (intro allI impI)
  fix n iv t
  assume k: "kind n = Some iv"
  then have e: "entry_of W' (UserTy iv) t = entry_of W (UserTy iv) t"
    by (intro assms(2)) (auto simp: is_inverse_def)
  then have m: "members_of ct W' iv t = members_of ct W iv t" by (simp add: members_of_def)
  have "member_list_ok ct W' iv t"
    using reflectsD(1) [OF assms(3) k, of t] by (simp add: member_list_ok_def m has_component_def e)
  then show "member_list_ok ct W' iv t \<and> (\<forall>s. s \<in> set (members_of ct W' iv t) \<longleftrightarrow> Q' n s = Some (iv, t))"
    using reflectsD(2) [OF assms(3) k] assms(1) [OF k] by (simp add: m)
qed

lemma edge_of_resets:
  assumes "relationship_dict kind ct" and "kind n = Some iv" and "resets ct iv t ms W W'"
    and "kind m = Some jv"
  shows "edge_of ct W' m s = edge_of ct W m s"
proof -
  have "m \<noteq> iv" using relationship_dictD(2) [OF assms(1,2)] assms(4) by auto
  then show ?thesis using assms(3) by (simp add: edge_of_def resets_def)
qed

lemma reflects_resets:
  assumes dict: "relationship_dict kind ct" and k: "kind n = Some iv" and r: "reflects kind ct Q W"
    and re: "resets ct iv t ms W W'" and ms: "sorted ms" "distinct ms"
    and Q: "\<And>s. s \<in> set ms \<longleftrightarrow> Q' n s = Some (iv, t)"
    and other: "\<And>m jv s u. kind m = Some jv \<Longrightarrow> (jv, u) \<noteq> (iv, t) \<Longrightarrow> Q' m s = Some (jv, u) \<longleftrightarrow> Q m s = Some (jv, u)"
  shows "reflects kind ct Q' W'"
  unfolding reflects_def
proof (intro allI impI)
  fix m jv u
  assume km: "kind m = Some jv"
  show "member_list_ok ct W' jv u \<and> (\<forall>s. s \<in> set (members_of ct W' jv u) \<longleftrightarrow> Q' m s = Some (jv, u))"
  proof (cases "(jv, u) = (iv, t)")
    case True
    then have "m = n" using relationship_dictD(3) [OF dict km] k by simp
    then show ?thesis using True re ms Q by (simp add: resets_def member_list_ok_def)
  next
    case False
    then have e: "entry_of W' (UserTy jv) u = entry_of W (UserTy jv) u"
      using re by (auto simp: resets_def)
    then have mem: "members_of ct W' jv u = members_of ct W jv u" by (simp add: members_of_def)
    have "member_list_ok ct W' jv u"
      using reflectsD(1) [OF r km, of u] by (simp add: member_list_ok_def mem has_component_def e)
    then show ?thesis using reflectsD(2) [OF r km] other [OF km False] by (simp add: mem)
  qed
qed

lemma reflects_remove:
  assumes dict: "relationship_dict kind ct" and k: "kind n = Some iv" and ok: "world_ok X W"
    and r: "reflects kind ct Q W"
  shows "\<exists>W'. relationship_remove_member (insert_at (Suc m) ct) (remove_at (Suc m) ct) ct iv e t W = Some W'
    \<and> resets ct iv t (remove1 e (members_of ct W iv t)) W W'
    \<and> (Q n e = Some (iv, t) \<or> Q n e = None \<longrightarrow> reflects kind ct (Q(n := (Q n)(e := None))) W')"
proof -
  note ml = reflectsD(1) [OF r k, of t]
  obtain W' where W': "relationship_remove_member (insert_at (Suc m) ct) (remove_at (Suc m) ct) ct iv e t W = Some W'"
    "resets ct iv t (remove1 e (members_of ct W iv t)) W W'"
    using remove_member_spec [OF dict relationship_dictD(2) [OF dict k] ok ml] by blast
  have "reflects kind ct (Q(n := (Q n)(e := None))) W'" if "Q n e = Some (iv, t) \<or> Q n e = None"
  proof (rule reflects_resets [OF dict k r W'(2)])
    show "sorted (remove1 e (members_of ct W iv t))" "distinct (remove1 e (members_of ct W iv t))"
      using ml unfolding member_list_ok_def by (blast intro: sorted_remove1 distinct_remove1)+
    show "s \<in> set (remove1 e (members_of ct W iv t)) \<longleftrightarrow> (Q(n := (Q n)(e := None))) n s = Some (iv, t)" for s
    proof -
      have "set (remove1 e (members_of ct W iv t)) = set (members_of ct W iv t) - {e}"
        using ml by (simp add: member_list_ok_def)
      then show ?thesis using reflectsD(2) [OF r k, of s t] by (cases "s = e") simp_all
    qed
    show "(Q(n := (Q n)(e := None))) m s = Some (jv, u) \<longleftrightarrow> Q m s = Some (jv, u)"
      if "kind m = Some jv" "(jv, u) \<noteq> (iv, t)" for m jv s u
    proof (cases "m = n \<and> s = e")
      case True
      then have "Q m s \<noteq> Some (jv, u)" using that(2) \<open>Q n e = Some (iv, t) \<or> Q n e = None\<close> by auto
      then show ?thesis using True by simp
    next
      case False
      then show ?thesis by (cases "m = n") simp_all
    qed
  qed
  then show ?thesis by (intro exI [of _ W'] conjI impI W')
qed

lemma reflects_add:
  assumes dict: "relationship_dict kind ct" and k: "kind n = Some iv" and ok: "world_ok X W"
    and r: "reflects kind ct Q W" and none: "Q n e = None"
  shows "\<exists>W'. relationship_add_member (insert_at (Suc m) ct) ct iv e t W = Some W'
    \<and> resets ct iv t (insort_insert e (members_of ct W iv t)) W W'
    \<and> reflects kind ct (Q(n := (Q n)(e := Some (iv, t)))) W'"
proof -
  note ml = reflectsD(1) [OF r k, of t]
  obtain W' where W': "relationship_add_member (insert_at (Suc m) ct) ct iv e t W = Some W'"
    "resets ct iv t (insort_insert e (members_of ct W iv t)) W W'"
    using add_member_spec [OF dict relationship_dictD(2) [OF dict k] ok ml] by blast
  have "reflects kind ct (Q(n := (Q n)(e := Some (iv, t)))) W'"
  proof (rule reflects_resets [OF dict k r W'(2)])
    show "sorted (insort_insert e (members_of ct W iv t))" "distinct (insort_insert e (members_of ct W iv t))"
      using ml by (auto simp: member_list_ok_def sorted_insort_insert distinct_insort_insert)
    show "s \<in> set (insort_insert e (members_of ct W iv t)) \<longleftrightarrow> (Q(n := (Q n)(e := Some (iv, t)))) n s = Some (iv, t)" for s
      using reflectsD(2) [OF r k, of s t] by (cases "s = e") simp_all
    show "(Q(n := (Q n)(e := Some (iv, t)))) m s = Some (jv, u) \<longleftrightarrow> Q m s = Some (jv, u)"
      if "kind m = Some jv" "(jv, u) \<noteq> (iv, t)" for m jv s u
      using that none by (cases "m = n"; cases "s = e") auto
  qed
  then show ?thesis using W' by blast
qed


section \<open>Insertion and retargeting\<close>

text \<open>
  The maintenance part of an insertion, on its own: from inverses that reflect the replaced edge
  to inverses that reflect the new one.
\<close>

definition retarget :: "'v component_trait \<Rightarrow> nat \<Rightarrow> entity \<Rightarrow> (nat \<times> entity) option \<Rightarrow> (nat \<times> entity) option \<Rightarrow>
    'v world \<Rightarrow> 'v world option" where
  "retarget ct m e old new W =
     (if map_option snd old \<noteq> map_option snd new then do {
        W2 \<leftarrow> (case old of None \<Rightarrow> Some W
          | Some (iv, t) \<Rightarrow> relationship_remove_member (insert_at (Suc m) ct) (remove_at (Suc m) ct) ct iv e t W);
        (case new of None \<Rightarrow> Some W2 | Some (iv, t) \<Rightarrow> relationship_add_member (insert_at (Suc m) ct) ct iv e t W2)
      } else Some W)"

lemma insert_value_retarget:
  assumes "register_singleton ty e W = Some W0" and "insert_entry ct ty e v owner W0 = (previous, W1)"
  shows "insert_value (relationship_add_member (insert_at (Suc m) ct) ct)
      (relationship_remove_member (insert_at (Suc m) ct) (remove_at (Suc m) ct) ct) ct ty e v owner W =
    retarget ct m e (Option.bind previous (\<lambda>p. relationship_edge ct ty (ce_value p))) (relationship_edge ct ty v) W1"
  by (simp add: insert_value_def assms Let_def retarget_def del: insert_at.simps remove_at.simps)

lemma resets_keeps:
  assumes "resets ct iv t ms W W'" and "kind n = Some iv" and "\<not> is_inverse kind ty"
  shows "entry_of W' ty e = entry_of W ty e"
  using assms by (auto simp: resets_def is_inverse_def)

lemma retarget_ok:
  assumes dict: "relationship_dict kind ct" and ok: "world_ok X W"
    and r: "reflects kind ct Q W"
    and old: "\<And>iv t. old = Some (iv, t) \<Longrightarrow> kind n = Some iv" and new: "\<And>iv t. new = Some (iv, t) \<Longrightarrow> kind n = Some iv"
    and Q: "kind n \<noteq> None \<longrightarrow> Q n e = old"
  shows "\<exists>W'. retarget ct m e old new W = Some W' \<and> reflects kind ct (Q(n := (Q n)(e := new))) W'
    \<and> (\<forall>ty x. \<not> is_inverse kind ty \<longrightarrow> entry_of W' ty x = entry_of W ty x)"
proof (cases "kind n")
  case None
  then have no: "old = None" "new = None" using old new by (cases old; cases new; auto)+
  have "reflects kind ct (Q(n := (Q n)(e := new))) W"
    by (rule reflects_cong [OF _ _ r]) (use None in auto)
  then show ?thesis using no by (simp add: retarget_def)
next
  case (Some iv)
  have Qe: "Q n e = old" using Q Some by simp
  have o: "old = None \<or> (\<exists>t. old = Some (iv, t))" using old Some by (cases old) auto
  have nw: "new = None \<or> (\<exists>t. new = Some (iv, t))" using new Some by (cases new) auto
  show ?thesis
  proof (cases "map_option snd old = map_option snd new")
    case True
    then have "old = new" using o nw by auto
    then have "Q(n := (Q n)(e := new)) = Q" using Qe by (simp add: fun_upd_idem)
    then show ?thesis using r True by (simp add: retarget_def)
  next
    case False
    let ?rm = "case old of None \<Rightarrow> Some W
          | Some (iv, t) \<Rightarrow> relationship_remove_member (insert_at (Suc m) ct) (remove_at (Suc m) ct) ct iv e t W"
    have "\<exists>W2. ?rm = Some W2 \<and> reflects kind ct (Q(n := (Q n)(e := None))) W2 \<and> world_ok X W2
        \<and> (\<forall>ty x. \<not> is_inverse kind ty \<longrightarrow> entry_of W2 ty x = entry_of W ty x)"
    proof (cases old)
      case None
      then have "Q(n := (Q n)(e := None)) = Q" using Qe by (simp add: fun_upd_idem)
      then show ?thesis using r ok None by simp
    next
      case (Some p)
      then obtain t where t: "old = Some (iv, t)" using o by auto
      obtain W2 where 2: "relationship_remove_member (insert_at (Suc m) ct) (remove_at (Suc m) ct) ct iv e t W = Some W2"
        "resets ct iv t (remove1 e (members_of ct W iv t)) W W2" "reflects kind ct (Q(n := (Q n)(e := None))) W2"
        using reflects_remove [OF dict \<open>kind n = Some iv\<close> ok r, of m e t] Qe t by auto
      have "world_ok X W2" by (rule keeps_upD(1) [OF rem_member_ok ok 2(1)])
      then show ?thesis using 2 t resets_keeps [where kind = kind, OF 2(2) \<open>kind n = Some iv\<close>] by simp
    qed
    then obtain W2 where 2: "?rm = Some W2" "reflects kind ct (Q(n := (Q n)(e := None))) W2" "world_ok X W2"
      "\<And>ty x. \<not> is_inverse kind ty \<Longrightarrow> entry_of W2 ty x = entry_of W ty x" by blast
    have eq: "retarget ct m e old new W =
      (case new of None \<Rightarrow> Some W2 | Some (iv, t) \<Rightarrow> relationship_add_member (insert_at (Suc m) ct) ct iv e t W2)"
      unfolding retarget_def 2(1) using False by simp
    show ?thesis
    proof (cases new)
      case None
      then show ?thesis using eq 2 by simp
    next
      case (Some p)
      then obtain t where t: "new = Some (iv, t)" using nw by auto
      have none: "(Q(n := (Q n)(e := None))) n e = None" by simp
      obtain W3 where 3: "relationship_add_member (insert_at (Suc m) ct) ct iv e t W2 = Some W3"
        "resets ct iv t (insort_insert e (members_of ct W2 iv t)) W2 W3"
        "reflects kind ct ((Q(n := (Q n)(e := None)))(n := ((Q(n := (Q n)(e := None))) n)(e := Some (iv, t)))) W3"
        using reflects_add [OF dict \<open>kind n = Some iv\<close> 2(3,2) none, of m t] by blast
      have "(Q(n := (Q n)(e := None)))(n := ((Q(n := (Q n)(e := None))) n)(e := Some (iv, t))) = Q(n := (Q n)(e := new))"
        by (auto simp: fun_eq_iff t)
      then show ?thesis
        using 3 eq t 2(4) resets_keeps [where kind = kind, OF 3(2) \<open>kind n = Some iv\<close>] by simp
    qed
  qed
qed

lemma edge_of_other:
  assumes "\<And>ty x. \<not> is_inverse kind ty \<Longrightarrow> entry_of W' ty x = entry_of W ty x"
    and "relationship_dict kind ct" and "kind n = Some iv"
  shows "edge_of ct W' n s = edge_of ct W n s"
proof -
  have "\<not> is_inverse kind (UserTy n)"
    using relationship_dictD(2) [OF assms(2)] assms(3) by (auto simp: is_inverse_def)
  then show ?thesis by (simp add: edge_of_def assms(1))
qed

definition entry_edge :: "'v component_trait \<Rightarrow> type_id \<Rightarrow> 'v component_entry option \<Rightarrow> (nat \<times> entity) option" where
  "entry_edge ct ty en = Option.bind en (\<lambda>en. relationship_edge ct ty (ce_value en))"

lemma entry_edge_simps [simp]:
  "entry_edge ct ty None = None" "entry_edge ct ty (Some en) = relationship_edge ct ty (ce_value en)"
  by (simp_all add: entry_edge_def)

text \<open>
  One entry that is not an inverse changes, and the maintainers follow its edge: the shape of
  insertion, removal and sweeping.
\<close>

lemma change_entry_rel:
  assumes dict: "relationship_dict kind ct" and ok1: "world_ok X W1" and rel: "relationships_ok kind ct W"
    and ty: "\<not> is_inverse kind ty"
    and e1: "\<And>ty' e'. entry_of W1 ty' e' = (if ty' = ty \<and> e' = e then en else entry_of W ty' e')"
  shows "\<exists>W'. retarget ct m e (entry_edge ct ty (entry_of W ty e)) (entry_edge ct ty en) W1 = Some W'
    \<and> relationships_ok kind ct W' \<and> (\<forall>ty x. \<not> is_inverse kind ty \<longrightarrow> entry_of W' ty x = entry_of W1 ty x)"
proof -
  have r1: "reflects kind ct (edge_of ct W) W1"
    by (rule reflects_cong [OF _ _ rel [unfolded relationships_ok_def]]) (use ty e1 in auto)
  define old where "old = entry_edge ct ty (entry_of W ty e)"
  define new where "new = entry_edge ct ty en"
  have "\<exists>W'. retarget ct m e old new W1 = Some W' \<and> relationships_ok kind ct W'
    \<and> (\<forall>ty x. \<not> is_inverse kind ty \<longrightarrow> entry_of W' ty x = entry_of W1 ty x)"
  proof (cases "\<exists>n iv. ty = UserTy n \<and> kind n = Some iv")
    case False
    then have "relationship_edge ct ty x = None" for x
      using edge_kind [OF dict, of ty x] by (cases "relationship_edge ct ty x") auto
    then have no: "old = None" "new = None" by (simp_all add: old_def new_def entry_edge_def bind_eq_None_conv)
    have "edge_of ct W n s = edge_of ct W1 n s" if "kind n = Some iv" for n iv s
      using False that by (auto simp: edge_of_def e1)
    then have "reflects kind ct (edge_of ct W1) W1" by (rule reflects_cong [OF _ refl r1])
    then show ?thesis by (simp add: no retarget_def relationships_ok_def)
  next
    case True
    then obtain n iv where n: "ty = UserTy n" "kind n = Some iv" by blast
    have o: "kind n = Some jv" if "old = Some (jv, t)" for jv t
      using that n unfolding old_def entry_edge_def by (auto elim!: edge_kind [OF dict] split: Option.bind_splits)
    have nw: "kind n = Some jv" if "new = Some (jv, t)" for jv t
      using that n unfolding new_def entry_edge_def by (auto elim!: edge_kind [OF dict] split: Option.bind_splits)
    have q: "kind n \<noteq> None \<longrightarrow> edge_of ct W n e = old" by (simp add: edge_of_def old_def entry_edge_def n)
    obtain W' where W': "retarget ct m e old new W1 = Some W'"
      "reflects kind ct ((edge_of ct W)(n := (edge_of ct W n)(e := new))) W'"
      "\<And>ty x. \<not> is_inverse kind ty \<Longrightarrow> entry_of W' ty x = entry_of W1 ty x"
      using retarget_ok [where m = m and old = old and new = new, OF dict ok1 r1 _ _ q] o nw by blast
    have "((edge_of ct W)(n := (edge_of ct W n)(e := new))) k s = edge_of ct W' k s" if "kind k = Some jv" for k jv s
    proof -
      have "edge_of ct W' k s = edge_of ct W1 k s" by (rule edge_of_other [OF W'(3) dict that])
      also have "\<dots> = ((edge_of ct W)(n := (edge_of ct W n)(e := new))) k s"
        by (simp add: edge_of_def e1 n new_def entry_edge_def)
      finally show ?thesis by simp
    qed
    then have "reflects kind ct (edge_of ct W') W'" by (rule reflects_cong [OF _ refl W'(2)])
    then show ?thesis using W' by (auto simp: relationships_ok_def)
  qed
  then show ?thesis by (simp add: old_def new_def)
qed

text \<open>Insertion of anything but an inverse keeps the relationships, and always succeeds past registration.\<close>

lemma insert_value_rel:
  assumes dict: "relationship_dict kind ct" and ok: "world_ok X W" and rel: "relationships_ok kind ct W"
    and ty: "\<not> is_inverse kind ty" and reg: "register_singleton ty e W = Some W0"
  shows "\<exists>W'. insert_value (relationship_add_member (insert_at (Suc m) ct) ct)
      (relationship_remove_member (insert_at (Suc m) ct) (remove_at (Suc m) ct) ct) ct ty e v owner W = Some W'
    \<and> relationships_ok kind ct W'
    \<and> (\<forall>ty' e'. \<not> is_inverse kind ty' \<longrightarrow> entry_of W' ty' e' =
        (if ty' = ty \<and> e' = e then Some (inserted_entry ct ty e v owner W) else entry_of W ty' e'))"
proof -
  obtain previous W1 where ie: "insert_entry ct ty e v owner W0 = (previous, W1)" by (rule prod.exhaust)
  obtain ss where ss: "W0 = W\<lparr>w_singletons := ss\<rparr>" using register_singletonD [OF reg] by blast
  have e0: "entry_of W0 = entry_of W" by (rule entry_of_stores) (simp add: ss)
  have r0: "w_revision W0 = w_revision W" by (simp add: ss)
  have in0: "inserted_entry ct ty e v owner W0 = inserted_entry ct ty e v owner W"
    by (simp add: inserted_entry_def e0 r0)
  have ok0: "world_ok X W0" by (rule register_singleton_ok(1) [OF ok reg])
  have ok1: "world_ok X W1" by (rule insert_entry_ok [OF ok0 ie]) (rule register_singleton_ok(2) [OF ok reg])
  have prev: "previous = entry_of W ty e" using insert_entry_fields(1) [OF ie] by (simp add: e0)
  have e1: "entry_of W1 ty' e' = (if ty' = ty \<and> e' = e then Some (inserted_entry ct ty e v owner W) else entry_of W ty' e')"
    for ty' e'
    using insert_entry_entry_of [OF world_okD(1) [OF ok0] ie] by (simp add: in0 e0)
  have eq: "insert_value (relationship_add_member (insert_at (Suc m) ct) ct)
      (relationship_remove_member (insert_at (Suc m) ct) (remove_at (Suc m) ct) ct) ct ty e v owner W =
    retarget ct m e (entry_edge ct ty (entry_of W ty e)) (entry_edge ct ty (Some (inserted_entry ct ty e v owner W))) W1"
    unfolding insert_value_retarget [OF reg ie] by (simp add: prev entry_edge_def inserted_entry_def)
  show ?thesis unfolding eq using change_entry_rel [where m = m, OF dict ok1 rel ty e1] e1 by auto
qed

section \<open>Removal and sweeping\<close>

lemma retarget_remove:
  "retarget ct m e edge None W = (case edge of None \<Rightarrow> Some W
     | Some (iv, t) \<Rightarrow> relationship_remove_member (insert_at (Suc m) ct) (remove_at (Suc m) ct) ct iv e t W)"
proof (cases edge)
  case (Some p)
  have "Option.bind x Some = x" for x :: "'a world option" by (cases x) simp_all
  with Some show ?thesis by (simp add: retarget_def split: prod.split)
qed (simp add: retarget_def)

lemma remove_component_eq: "remove_component ct = remove_body (remove_member ct) ct"
  by (simp add: remove_component_def remove_member_def numeral_2_eq_2 fun_eq_iff)

lemma remove_member_eq: "remove_member ct = relationship_remove_member (insert_at (Suc 0) ct) (remove_at (Suc 0) ct) ct"
  by (simp add: remove_member_def)

lemma remove_component_rel:
  assumes dict: "relationship_dict kind ct" and ok: "world_ok X W" and rel: "relationships_ok kind ct W"
    and ty: "\<not> is_inverse kind ty"
  shows "\<exists>W'. remove_component ct ty e r W = Some W' \<and> relationships_ok kind ct W'
    \<and> (\<forall>ty' e'. \<not> is_inverse kind ty' \<longrightarrow> entry_of W' ty' e' =
        (if ty' = ty \<and> e' = e then None else entry_of W ty' e'))"
proof (cases "entry_of W ty e")
  case None
  then have "remove_component ct ty e r W = Some W"
    by (auto simp: remove_component_eq remove_body_eq entry_of_def store_remove_def
        split: option.split Option.bind_splits)
  then show ?thesis using rel None by auto
next
  case (Some en)
  obtain s s' where s: "stores_get ty (w_stores W) = Some s" "store_remove e s = Some (en, s')"
    using entry_remove [OF Some] .
  let ?W1 = "removed_world ty e r en s' W"
  note rw = removed_world_ok [OF ok s, of r]
  have "remove_component ct ty e r W = retarget ct 0 e (entry_edge ct ty (entry_of W ty e)) (entry_edge ct ty None) ?W1"
    by (simp add: remove_component_eq remove_body_eq s retarget_remove Some remove_member_eq
        del: insert_at.simps remove_at.simps)
  then show ?thesis
    using change_entry_rel [where m = 0 and en = None, OF dict rw(1) rel ty rw(2)] rw(2) by auto
qed

lemma remove_derived_entry_rel:
  assumes dict: "relationship_dict kind ct" and ok: "world_ok X W" and rel: "relationships_ok kind ct W"
    and ty: "\<not> is_inverse kind ty" and out: "(ty, e) \<notin> set (outputs_of W owner)"
  shows "\<exists>hit W'. remove_derived_entry ct ty e owner W = Some (hit, W') \<and> relationships_ok kind ct W'
    \<and> hit = (owner_of W (ty, e) = Some owner)
    \<and> (\<forall>ty' e'. \<not> is_inverse kind ty' \<longrightarrow> entry_of W' ty' e' =
        (if hit \<and> ty' = ty \<and> e' = e then None else entry_of W ty' e'))"
proof (cases "owner_of W (ty, e) = Some owner")
  case False
  then have "remove_derived_entry ct ty e owner W = Some (False, W)"
    by (auto simp: remove_derived_entry_def Let_def owner_of_def entry_of_def remove_entry_owned_def
        split: option.split Option.bind_splits)
  then show ?thesis using rel False by auto
next
  case True
  then obtain en where en: "entry_of W ty e = Some en" "ce_owner en = Some owner"
    by (cases "entry_of W ty e") (auto simp: owner_of_def)
  obtain s s' where s: "stores_get ty (w_stores W) = Some s" "store_remove e s = Some (en, s')"
    using entry_remove [OF en(1)] .
  let ?W1 = "drop_entry ty e s' W"
  have own: "remove_entry_owned e owner s = Some s'"
    using s(2) en(2) store_removeD(1) [OF s(2)] by (auto simp: remove_entry_owned_iff)
  have ok1: "world_ok (X - {(owner, (ty, e))}) ?W1" by (rule drop_owned_ok [OF ok s en(2) out])
  have edge: "fst (relationship_ops ct ty s e) = entry_edge ct ty (entry_of W ty e)"
    using store_removeD(1) [OF s(2)] by (simp add: relationship_ops_def en)
  note d = drop_entry_spec(2) [OF world_okD(1) [OF ok] s]
  have "remove_derived_entry ct ty e owner W =
      map_option (Pair True) (retarget ct 0 e (entry_edge ct ty (entry_of W ty e)) (entry_edge ct ty None) ?W1)"
    unfolding remove_derived_entry_def s(1) option.case Let_def own edge
    by (simp add: retarget_remove remove_member_eq split: option.split del: insert_at.simps remove_at.simps)
  moreover obtain W' where "retarget ct 0 e (entry_edge ct ty (entry_of W ty e)) (entry_edge ct ty None) ?W1 = Some W'"
    "relationships_ok kind ct W'" "\<And>ty x. \<not> is_inverse kind ty \<Longrightarrow> entry_of W' ty x = entry_of ?W1 ty x"
    using change_entry_rel [where m = 0 and en = None, OF dict ok1 rel ty d] by blast
  ultimately show ?thesis using True d by (intro exI [of _ True] exI [of _ W']) simp
qed


section \<open>Despawning\<close>

lemma store_user_entry:
  assumes "world_ok X W"
  shows "(ty, s) \<in> set (stores_list (w_stores W)) \<longleftrightarrow> stores_get ty (w_stores W) = Some s"
proof -
  have "stores_wf (w_stores W)" using world_okD(1) [OF assms] by (simp add: stores_inv_def)
  then show ?thesis by (rule table.listing_iff)
qed

lemma set_map_filter: "set (List.map_filter f xs) = {y. \<exists>x\<in>set xs. f x = Some y}"
  by (induction xs) (auto simp: List.map_filter_simps split: option.splits)

text \<open>The edges collected before the entity goes are the edges it carries.\<close>

lemma entity_edges_iff:
  assumes dict: "relationship_dict kind ct" and ok: "world_ok X W"
  shows "(iv, t) \<in> set (entity_edges ct W e) \<longleftrightarrow> (\<exists>n. kind n = Some iv \<and> edge_of ct W n e = Some (iv, t))"
proof
  assume "(iv, t) \<in> set (entity_edges ct W e)"
  then obtain ty s where s: "(ty, s) \<in> set (stores_list (w_stores W))" "fst (relationship_ops ct ty s e) = Some (iv, t)"
    by (auto simp: entity_edges_def set_map_filter)
  then obtain en where en: "map_of (entries s) e = Some en" "relationship_edge ct ty (ce_value en) = Some (iv, t)"
    by (auto simp: relationship_ops_def split: option.splits)
  obtain n where n: "ty = UserTy n" "kind n = Some iv" using edge_kind [OF dict en(2)] .
  have "entry_of W (UserTy n) e = Some en"
    using s(1) en(1) n(1) by (simp add: store_user_entry [OF ok] entry_of_def)
  then show "\<exists>n. kind n = Some iv \<and> edge_of ct W n e = Some (iv, t)"
    using n en(2) by (intro exI [of _ n]) (simp add: edge_of_def)
next
  assume "\<exists>n. kind n = Some iv \<and> edge_of ct W n e = Some (iv, t)"
  then obtain n en where n: "entry_of W (UserTy n) e = Some en" "relationship_edge ct (UserTy n) (ce_value en) = Some (iv, t)"
    by (auto simp: edge_of_def split: Option.bind_splits)
  then obtain s where s: "stores_get (UserTy n) (w_stores W) = Some s" "map_of (entries s) e = Some en"
    by (auto simp: entry_of_def split: Option.bind_splits)
  have "fst (relationship_ops ct (UserTy n) s e) = Some (iv, t)" by (simp add: relationship_ops_def s n)
  moreover have "(UserTy n, s) \<in> set (stores_list (w_stores W))" using s by (simp add: store_user_entry [OF ok])
  ultimately show "(iv, t) \<in> set (entity_edges ct W e)"
    by (force simp: entity_edges_def set_map_filter)
qed

text \<open>The retractions collected are the edges that point at the entity.\<close>

lemma entity_retractions_iff:
  assumes dict: "relationship_dict kind ct" and ok: "world_ok X W" and rel: "relationships_ok kind ct W"
  shows "(n, x) \<in> set (entity_retractions ct W e) \<longleftrightarrow> (\<exists>iv. kind n = Some iv \<and> edge_of ct W n x = Some (iv, e))"
proof -
  have mem: "x \<in> set (members_of ct W iv e) \<longleftrightarrow> edge_of ct W n x = Some (iv, e)" if "kind n = Some iv" for n iv x
    using reflectsD(2) [OF rel [unfolded relationships_ok_def] that] .
  have retr: "(n, x) \<in> set (relationship_retractions ct (UserTy m) (ce_value en)) \<longleftrightarrow>
      kind n = Some m \<and> x \<in> set (members_of ct W m e)" if "entry_of W (UserTy m) e = Some en" for m en
  proof (cases "ce_value en")
    case (UserV y)
    then have ms: "members_of ct W m e = ct_members ct m y"
      by (simp add: members_of_def that relationship_members_def)
    show ?thesis
    proof (cases "\<exists>k. kind k = Some m")
      case True
      then obtain k where k: "kind k = Some m" by blast
      have "relationship_retractions ct (UserTy m) (ce_value en) = map (Pair k) (members_of ct W m e)"
        using relationship_dictD(4) [OF dict k] by (simp add: relationship_retractions_def UserV ms)
      then have "(n, x) \<in> set (relationship_retractions ct (UserTy m) (ce_value en)) \<longleftrightarrow>
          n = k \<and> x \<in> set (members_of ct W m e)" by auto
      moreover have "n = k \<longleftrightarrow> kind n = Some m" using k relationship_dictD(3) [OF dict k] by blast
      ultimately show ?thesis by simp
    next
      case False
      then have "relationship_retractions ct (UserTy m) (ce_value en) = []"
        using relationship_dictD(5) [OF dict, of m] by (simp add: relationship_retractions_def UserV)
      then show ?thesis using False by simp
    qed
  qed (simp_all add: relationship_retractions_def members_of_def that relationship_members_def)
  have "(n, x) \<in> set (entity_retractions ct W e) \<longleftrightarrow>
      (\<exists>ty s. stores_get ty (w_stores W) = Some s \<and> (n, x) \<in> set (snd (relationship_ops ct ty s e)))"
  proof -
    have "(n, x) \<in> set (entity_retractions ct W e) \<longleftrightarrow>
        (\<exists>p\<in>set (stores_list (w_stores W)). (n, x) \<in> set (snd (relationship_ops ct (fst p) (snd p) e)))"
      by (auto simp: entity_retractions_def split_def)
    also have "\<dots> \<longleftrightarrow> (\<exists>ty s. (ty, s) \<in> set (stores_list (w_stores W))
        \<and> (n, x) \<in> set (snd (relationship_ops ct ty s e)))" by force
    finally show ?thesis by (simp only: store_user_entry [OF ok])
  qed
  also have "\<dots> \<longleftrightarrow> (\<exists>ty en. entry_of W ty e = Some en \<and> (n, x) \<in> set (relationship_retractions ct ty (ce_value en)))"
  proof
    assume "\<exists>ty s. stores_get ty (w_stores W) = Some s \<and> (n, x) \<in> set (snd (relationship_ops ct ty s e))"
    then show "\<exists>ty en. entry_of W ty e = Some en \<and> (n, x) \<in> set (relationship_retractions ct ty (ce_value en))"
      by (force simp: relationship_ops_def entry_of_def split: option.splits)
  next
    assume "\<exists>ty en. entry_of W ty e = Some en \<and> (n, x) \<in> set (relationship_retractions ct ty (ce_value en))"
    then show "\<exists>ty s. stores_get ty (w_stores W) = Some s \<and> (n, x) \<in> set (snd (relationship_ops ct ty s e))"
      by (force simp: relationship_ops_def entry_of_def split: Option.bind_splits)
  qed
  also have "\<dots> \<longleftrightarrow> (\<exists>iv. kind n = Some iv \<and> x \<in> set (members_of ct W iv e))"
  proof
    assume "\<exists>ty en. entry_of W ty e = Some en \<and> (n, x) \<in> set (relationship_retractions ct ty (ce_value en))"
    then obtain ty en where t: "entry_of W ty e = Some en" "(n, x) \<in> set (relationship_retractions ct ty (ce_value en))"
      by blast
    then obtain m where "ty = UserTy m" by (cases ty) (auto simp: relationship_retractions_def)
    then show "\<exists>iv. kind n = Some iv \<and> x \<in> set (members_of ct W iv e)" using t retr by blast
  next
    assume "\<exists>iv. kind n = Some iv \<and> x \<in> set (members_of ct W iv e)"
    then obtain iv where iv: "kind n = Some iv" "x \<in> set (members_of ct W iv e)" by blast
    then obtain en where "entry_of W (UserTy iv) e = Some en"
      by (cases "entry_of W (UserTy iv) e") (auto simp: members_of_def)
    then show "\<exists>ty en. entry_of W ty e = Some en \<and> (n, x) \<in> set (relationship_retractions ct ty (ce_value en))"
      using retr iv by blast
  qed
  also have "\<dots> \<longleftrightarrow> (\<exists>iv. kind n = Some iv \<and> edge_of ct W n x = Some (iv, e))" using mem by blast
  finally show ?thesis .
qed

text \<open>Retracting the despawned entity's own edges: the inverses forget it one by one.\<close>

lemma retract_edges:
  assumes dict: "relationship_dict kind ct"
    and xs: "\<And>iv t. (iv, t) \<in> set xs \<Longrightarrow> \<exists>n. kind n = Some iv \<and> (Q n e = Some (iv, t) \<or> Q n e = None)"
    and ok: "world_ok X W" and r: "reflects kind ct Q W"
  shows "\<exists>W'. fold_opt (\<lambda>(iv, t). remove_member ct iv e t) xs W = Some W' \<and> world_ok X W'
    \<and> reflects kind ct (\<lambda>n s. if s = e \<and> (\<exists>p\<in>set xs. kind n = Some (fst p)) then None else Q n s) W'
    \<and> (\<forall>ty x. \<not> is_inverse kind ty \<longrightarrow> entry_of W' ty x = entry_of W ty x)"
  using xs ok r
proof (induction xs arbitrary: Q W)
  case Nil
  then show ?case by simp
next
  case (Cons p xs)
  obtain iv t where p: "p = (iv, t)" by (cases p)
  then obtain n where n: "kind n = Some iv" "Q n e = Some (iv, t) \<or> Q n e = None" using Cons.prems(1) by auto
  let ?Q = "Q(n := (Q n)(e := None))"
  obtain W1 where W1: "remove_member ct iv e t W = Some W1" "resets ct iv t (remove1 e (members_of ct W iv t)) W W1"
    "reflects kind ct ?Q W1"
    using reflects_remove [OF dict n(1) Cons.prems(2,3), of 0 e t] n(2) unfolding remove_member_eq by blast
  have ok1: "world_ok X W1" by (rule keeps_upD(1) [OF remove_member_keeps Cons.prems(2) W1(1)])
  have "\<exists>m. kind m = Some jv \<and> (?Q m e = Some (jv, u) \<or> ?Q m e = None)" if "(jv, u) \<in> set xs" for jv u
    using Cons.prems(1) [of jv u] that by (auto split: if_splits)
  then obtain W' where W': "fold_opt (\<lambda>(iv, t). remove_member ct iv e t) xs W1 = Some W'" "world_ok X W'"
    "reflects kind ct (\<lambda>m s. if s = e \<and> (\<exists>p\<in>set xs. kind m = Some (fst p)) then None else ?Q m s) W'"
    "\<And>ty x. \<not> is_inverse kind ty \<Longrightarrow> entry_of W' ty x = entry_of W1 ty x"
    using Cons.IH [OF _ ok1 W1(3)] by blast
  have "(if s = e \<and> (\<exists>p\<in>set xs. kind m = Some (fst p)) then None else ?Q m s)
      = (if s = e \<and> (\<exists>p\<in>set (p # xs). kind m = Some (fst p)) then None else Q m s)" if "kind m = Some jv" for m jv s
  proof (cases "m = n")
    case True
    then show ?thesis using n(1) p by simp
  next
    case False
    then have "kind m \<noteq> Some (fst p)" using relationship_dictD(3) [OF dict n(1), of m] p by auto
    then have "(\<exists>q\<in>set (p # xs). kind m = Some (fst q)) \<longleftrightarrow> (\<exists>q\<in>set xs. kind m = Some (fst q))" by simp
    then show ?thesis using False by (simp only: fun_upd_apply if_False)
  qed
  then have "reflects kind ct (\<lambda>m s. if s = e \<and> (\<exists>p\<in>set (p # xs). kind m = Some (fst p)) then None else Q m s) W'"
    by (rule reflects_cong [OF _ refl W'(3)])
  then show ?case
    using W1(1) W'(1,2,4) resets_keeps [where kind = kind, OF W1(2) n(1)] by (simp add: p)
qed

text \<open>Retracting the edges that pointed at it: their inverse is already gone.\<close>

lemma retract_sources:
  assumes dict: "relationship_dict kind ct"
    and xs: "\<And>n s. (n, s) \<in> set xs \<Longrightarrow> \<exists>iv. kind n = Some iv \<and> Q n s = None \<and> (\<forall>jv t. edge_of ct W n s = Some (jv, t) \<longrightarrow> jv = iv \<and> t = e)"
    and ok: "world_ok X W" and r: "reflects kind ct Q W"
  shows "\<exists>W'. fold_opt (\<lambda>(edge, source). remove_component ct (UserTy edge) source None) xs W = Some W' \<and> world_ok X W'
    \<and> reflects kind ct Q W'
    \<and> (\<forall>ty x. \<not> is_inverse kind ty \<longrightarrow> entry_of W' ty x =
        (if \<exists>n. ty = UserTy n \<and> (n, x) \<in> set xs then None else entry_of W ty x))"
  using xs ok r
proof (induction xs arbitrary: W)
  case Nil
  then show ?case by simp
next
  case (Cons p xs)
  obtain n s where p: "p = (n, s)" by (cases p)
  then obtain iv where n: "kind n = Some iv" "Q n s = None" "\<And>jv t. edge_of ct W n s = Some (jv, t) \<Longrightarrow> jv = iv \<and> t = e"
    using Cons.prems(1) [of n s] by auto
  have notinv: "\<not> is_inverse kind (UserTy n)"
    using relationship_dictD(2) [OF dict] n(1) by (auto simp: is_inverse_def)
  have "\<exists>W1. remove_component ct (UserTy n) s None W = Some W1 \<and> reflects kind ct Q W1
    \<and> (\<forall>ty x. \<not> is_inverse kind ty \<longrightarrow> entry_of W1 ty x = (if ty = UserTy n \<and> x = s then None else entry_of W ty x))"
  proof (cases "entry_of W (UserTy n) s")
    case None
    then have "remove_component ct (UserTy n) s None W = Some W"
      by (auto simp: remove_component_eq remove_body_eq entry_of_def store_remove_def
          split: option.split Option.bind_splits)
    then show ?thesis using Cons.prems(3) None by auto
  next
    case (Some en)
    obtain st s' where st: "stores_get (UserTy n) (w_stores W) = Some st" "store_remove s st = Some (en, s')"
      using entry_remove [OF Some] .
    let ?W1 = "removed_world (UserTy n) s None en s' W"
    note rw = removed_world_ok [OF Cons.prems(2) st, of None]
    have r1: "reflects kind ct Q ?W1"
      by (rule reflects_cong [OF refl _ Cons.prems(3)]) (use notinv rw(2) in auto)
    have eq: "remove_component ct (UserTy n) s None W = (case relationship_edge ct (UserTy n) (ce_value en) of
        None \<Rightarrow> Some ?W1 | Some (iv, t) \<Rightarrow> remove_member ct iv s t ?W1)"
      by (simp add: remove_component_eq remove_body_eq st)
    show ?thesis
    proof (cases "relationship_edge ct (UserTy n) (ce_value en)")
      case None
      then show ?thesis using eq r1 rw(2) by auto
    next
      case (Some q)
      then have q: "relationship_edge ct (UserTy n) (ce_value en) = Some (iv, e)"
        using n(3) [of "fst q" "snd q"] \<open>entry_of W (UserTy n) s = Some en\<close> by (simp add: edge_of_def prod_eq_iff)
      obtain W2 where W2: "remove_member ct iv s e ?W1 = Some W2" "resets ct iv e (remove1 s (members_of ct ?W1 iv e)) ?W1 W2"
        "reflects kind ct (Q(n := (Q n)(s := None))) W2"
        using reflects_remove [OF dict n(1) rw(1) r1, of 0 s e] n(2) unfolding remove_member_eq by blast
      have "Q(n := (Q n)(s := None)) = Q" using n(2) by (simp add: fun_upd_idem)
      then show ?thesis using W2 eq q rw(2) resets_keeps [where kind = kind, OF W2(2) n(1)] by auto
    qed
  qed
  then obtain W1 where W1: "remove_component ct (UserTy n) s None W = Some W1" "reflects kind ct Q W1"
    "\<And>ty x. \<not> is_inverse kind ty \<Longrightarrow> entry_of W1 ty x = (if ty = UserTy n \<and> x = s then None else entry_of W ty x)"
    by blast
  have ok1: "world_ok X W1" by (rule remove_component_ok [OF Cons.prems(2) W1(1)])
  have "\<exists>iv. kind k = Some iv \<and> Q k x = None \<and> (\<forall>jv t. edge_of ct W1 k x = Some (jv, t) \<longrightarrow> jv = iv \<and> t = e)"
    if kx: "(k, x) \<in> set xs" for k x
  proof -
    obtain kv where kv: "kind k = Some kv" "Q k x = None" "\<forall>jv t. edge_of ct W k x = Some (jv, t) \<longrightarrow> jv = kv \<and> t = e"
      using Cons.prems(1) [of k x] kx by auto
    have "\<not> is_inverse kind (UserTy k)"
      using relationship_dictD(2) [OF dict] kv(1) by (auto simp: is_inverse_def)
    then have "edge_of ct W1 k x = None \<or> edge_of ct W1 k x = edge_of ct W k x"
      by (simp add: edge_of_def W1(3))
    then show ?thesis using kv by auto
  qed
  then obtain W' where W': "fold_opt (\<lambda>(edge, source). remove_component ct (UserTy edge) source None) xs W1 = Some W'"
    "world_ok X W'" "reflects kind ct Q W'"
    "\<And>ty x. \<not> is_inverse kind ty \<Longrightarrow> entry_of W' ty x = (if \<exists>n. ty = UserTy n \<and> (n, x) \<in> set xs then None else entry_of W1 ty x)"
    using Cons.IH [OF _ ok1 W1(2)] by blast
  then show ?case using W1 by (auto simp: p)
qed


lemma remove_entity_rel:
  assumes dict: "relationship_dict kind ct" and ok: "world_ok X W" and rel: "relationships_ok kind ct W"
  shows "\<exists>W'. remove_entity ct e W = Some (entity_owners e W, W') \<and> relationships_ok kind ct W'
    \<and> (\<forall>ty x. \<not> is_inverse kind ty \<longrightarrow> entry_of W' ty x =
        (if x = e \<or> (\<exists>n iv. ty = UserTy n \<and> edge_of ct W n x = Some (iv, e)) then None else entry_of W ty x))
    \<and> (\<forall>ty. entry_of W' ty e = None)"
proof -
  let ?C = "cleared_world e W"
  note C = cleared_world_ok [OF ok, of e]
  note r = rel [unfolded relationships_ok_def]
  define Q where "Q n s = (if \<exists>iv. edge_of ct W n s = Some (iv, e) then None else edge_of ct W n s)" for n s
  have Qcases: "Q n s = None \<or> Q n s = edge_of ct W n s" for n s by (simp add: Q_def)
  have r0: "reflects kind ct Q ?C"
    unfolding reflects_def
  proof (intro allI impI)
    fix n iv t
    assume k: "kind n = Some iv"
    have m: "members_of ct ?C iv t = (if t = e then [] else members_of ct W iv t)"
      by (simp add: members_of_def C(2))
    have "member_list_ok ct ?C iv t"
      using reflectsD(1) [OF r k, of t] by (simp add: member_list_ok_def m has_component_def C(2))
    moreover have "s \<in> set (members_of ct ?C iv t) \<longleftrightarrow> Q n s = Some (iv, t)" for s
    proof -
      have "s \<in> set (members_of ct ?C iv t) \<longleftrightarrow> t \<noteq> e \<and> edge_of ct W n s = Some (iv, t)"
        using reflectsD(2) [OF r k, of s t] by (simp add: m)
      then show ?thesis by (cases "edge_of ct W n s") (auto simp: Q_def)
    qed
    ultimately show "member_list_ok ct ?C iv t \<and> (\<forall>s. s \<in> set (members_of ct ?C iv t) \<longleftrightarrow> Q n s = Some (iv, t))"
      by blast
  qed
  have xs: "\<exists>n. kind n = Some iv \<and> (Q n e = Some (iv, t) \<or> Q n e = None)" if "(iv, t) \<in> set (entity_edges ct W e)" for iv t
    using that Qcases unfolding entity_edges_iff [OF dict ok] by metis
  let ?Q1 = "\<lambda>n s. if s = e \<and> (\<exists>p\<in>set (entity_edges ct W e). kind n = Some (fst p)) then None else Q n s"
  obtain W1 where W1: "fold_opt (\<lambda>(iv, t). remove_member ct iv e t) (entity_edges ct W e) ?C = Some W1" "world_ok X W1"
    "reflects kind ct ?Q1 W1" "\<And>ty x. \<not> is_inverse kind ty \<Longrightarrow> entry_of W1 ty x = entry_of ?C ty x"
    using retract_edges [OF dict xs C(1) r0] by blast
  have Q1: "?Q1 n s = (if s = e then None else Q n s)" if k: "kind n = Some iv" for n iv s
  proof -
    have "Q n e = None" if "\<not> (\<exists>p\<in>set (entity_edges ct W e). kind n = Some (fst p))"
    proof (rule ccontr)
      assume "Q n e \<noteq> None"
      then have "Q n e = edge_of ct W n e" "edge_of ct W n e \<noteq> None" using Qcases [of n e] by auto
      then obtain jv t where "edge_of ct W n e = Some (jv, t)" by auto
      moreover from this have "kind n = Some jv"
        using edge_kind [OF dict, of "UserTy n" _ jv t] by (auto simp: edge_of_def split: Option.bind_splits)
      ultimately have "(jv, t) \<in> set (entity_edges ct W e)" unfolding entity_edges_iff [OF dict ok] by blast
      with \<open>kind n = Some jv\<close> that show False by force
    qed
    then show ?thesis by auto
  qed
  define Q2 where "Q2 n s = (if s = e then None else Q n s)" for n s
  have r2: "reflects kind ct Q2 W1" by (rule reflects_cong [OF _ refl W1(3)]) (unfold Q2_def, rule Q1)
  have edge1: "edge_of ct W1 n s = (if s = e then None else edge_of ct W n s)" if "kind n = Some iv" for n iv s
    using edge_of_other [OF W1(4) dict that, of s] by (simp add: edge_of_def C(2))
  have ys: "\<exists>iv. kind n = Some iv \<and> Q2 n s = None \<and> (\<forall>jv t. edge_of ct W1 n s = Some (jv, t) \<longrightarrow> jv = iv \<and> t = e)"
    if "(n, s) \<in> set (entity_retractions ct W e)" for n s
  proof -
    obtain iv where iv: "kind n = Some iv" "edge_of ct W n s = Some (iv, e)"
      using \<open>(n, s) \<in> set (entity_retractions ct W e)\<close> unfolding entity_retractions_iff [OF dict ok rel] by blast
    then show ?thesis by (simp add: Q2_def Q_def edge1)
  qed
  obtain W2 where W2: "fold_opt (\<lambda>(edge, source). remove_component ct (UserTy edge) source None)
      (entity_retractions ct W e) W1 = Some W2" "world_ok X W2" "reflects kind ct Q2 W2"
    "\<And>ty x. \<not> is_inverse kind ty \<Longrightarrow> entry_of W2 ty x =
        (if \<exists>n. ty = UserTy n \<and> (n, x) \<in> set (entity_retractions ct W e) then None else entry_of W1 ty x)"
    using retract_sources [OF dict ys W1(2) r2] by blast
  let ?W' = "W2\<lparr>w_removed_owners := w_removed_owners W2 @ entity_owners e W\<rparr>"
  have e': "entry_of ?W' = entry_of W2" by (rule entry_of_stores) simp
  have ent: "entry_of W2 ty x =
      (if x = e \<or> (\<exists>n iv. ty = UserTy n \<and> edge_of ct W n x = Some (iv, e)) then None else entry_of W ty x)"
    if "\<not> is_inverse kind ty" for ty x
  proof -
    have "(n, x) \<in> set (entity_retractions ct W e) \<longleftrightarrow> (\<exists>iv. edge_of ct W n x = Some (iv, e))" for n
    proof -
      have "kind n = Some iv" if "edge_of ct W n x = Some (iv, e)" for iv
        using that edge_kind [OF dict, of "UserTy n" _ iv e] by (auto simp: edge_of_def split: Option.bind_splits)
      then show ?thesis unfolding entity_retractions_iff [OF dict ok rel] by blast
    qed
    then show ?thesis by (auto simp: W2(4) [OF that] W1(4) [OF that] C(2))
  qed
  have edge2: "edge_of ct W2 n s = Q2 n s" if k: "kind n = Some iv" for n iv s
  proof -
    have "\<not> is_inverse kind (UserTy n)"
      using relationship_dictD(2) [OF dict] k by (auto simp: is_inverse_def)
    then show ?thesis by (auto simp: edge_of_def ent Q2_def Q_def)
  qed
  have rel2: "relationships_ok kind ct ?W'"
    unfolding relationships_ok_def
  proof (rule reflects_cong [OF _ _ W2(3)])
    show "Q2 n s = edge_of ct ?W' n s" if "kind n = Some iv" for n iv s
      using edge2 [OF that] by (simp add: edge_of_def e')
  qed (simp add: e')
  have "entry_of W2 ty e = None" for ty
  proof (cases "is_inverse kind ty")
    case True
    then obtain n iv where n: "kind n = Some iv" "ty = UserTy iv" by (auto simp: is_inverse_def)
    have "s \<notin> set (members_of ct W2 iv e)" for s
      using reflectsD(2) [OF W2(3) n(1), of s e] by (auto simp: Q2_def Q_def split: if_splits)
    then have "members_of ct W2 iv e = []" by (metis list.exhaust list.set_intros(1))
    then show ?thesis using reflectsD(1) [OF W2(3) n(1), of e] n(2)
      by (simp add: member_list_ok_def has_component_def)
  qed (simp add: ent)
  then show ?thesis
    using rel2 ent by (intro exI [of _ ?W']) (simp add: remove_entity_eq W1(1) W2(1) e')
qed


section \<open>Properties\<close>

lemma relationships_empty:
  assumes "\<And>ty e. entry_of W ty e = None"
  shows "relationships_ok kind ct W"
  using assms by (simp add: relationships_ok_def reflects_def member_list_ok_def members_of_def
      has_component_def edge_of_def)

lemma insert_at_Suc:
  "insert_at (Suc n) ct = insert_body (relationship_add_member (insert_at n ct) ct)
    (relationship_remove_member (insert_at n ct) (remove_at n ct) ct) ct"
  by (intro ext) (simp only: insert_at.simps)

lemma insert_body_plain:
  "(\<And>as. v \<noteq> DerivedFromV as) \<Longrightarrow> insert_body ia ir ct ty e v owner W = insert_value ia ir ct ty e v owner W"
  by (cases v) (auto simp: insert_body_def)

lemma world_insert_eq:
  assumes "\<And>as. v \<noteq> DerivedFromV as"
  shows "world_insert ct ty e v owner W =
    insert_value (relationship_add_member (insert_at (Suc 0) ct) ct)
      (relationship_remove_member (insert_at (Suc 0) ct) (remove_at (Suc 0) ct) ct) ct ty e v owner W"
  unfolding world_insert_def numeral_2_eq_2 insert_at_Suc [of "Suc 0"] by (rule insert_body_plain [OF assms])

lemma world_insert_rel:
  assumes dict: "relationship_dict kind ct" and ok: "world_ok X W" and rel: "relationships_ok kind ct W"
    and ty: "\<not> is_inverse kind ty" and v: "\<And>as. v \<noteq> DerivedFromV as"
  shows "case world_insert ct ty e v owner W of
      None \<Rightarrow> \<exists>key x. singleton_key ty = Some key \<and> map_of (w_singletons W) key = Some x \<and> x \<noteq> e
    | Some W' \<Rightarrow> relationships_ok kind ct W'
        \<and> (\<forall>ty' e'. \<not> is_inverse kind ty' \<longrightarrow> entry_of W' ty' e' =
            (if ty' = ty \<and> e' = e then Some (inserted_entry ct ty e v owner W) else entry_of W ty' e'))"
proof (cases "register_singleton ty e W")
  case None
  then have "world_insert ct ty e v owner W = None"
    by (simp add: world_insert_eq [OF v] insert_value_def)
  then show ?thesis using None by (auto simp: register_singleton_def split: option.splits if_splits)
next
  case (Some W0)
  then show ?thesis
    using insert_value_rel [where m = 0, OF dict ok rel ty Some, of v owner] unfolding world_insert_eq [OF v]
    by auto
qed

lemma demo_inverse: "is_inverse (\<lambda>n. ci_edge (demo_impls n)) ty \<longleftrightarrow> ty = UserTy 2"
  by (auto simp: is_inverse_def demo_impls_def split: if_splits)

lemma demo_world_relationships: "relationships_ok (\<lambda>n. ci_edge (demo_impls n)) demo_trait demo_world"
proof -
  have "reachable demo_trait ({}, demo_world) \<and> relationships_ok (\<lambda>n. ci_edge (demo_impls n)) demo_trait demo_world"
  proof (rule demo_world_induct)
    fix W :: "nat user_value world"
    assume "init_presence [UserTy 0, UserTy 1, UserTy 2, UserTy 3] world_new = Some W"
    then show "reachable demo_trait ({}, W) \<and> relationships_ok (\<lambda>n. ci_edge (demo_impls n)) demo_trait W"
      using init_presence_empty [of "[UserTy 0, UserTy 1, UserTy 2, UserTy 3]" W]
      by (simp add: reachable_init relationships_empty)
  next
    fix ty e v owner W W'
    assume a: "ty \<noteq> UserTy 2" "\<And>as. v \<noteq> DerivedFromV as"
      "reachable demo_trait ({}, W) \<and> relationships_ok (\<lambda>n. ci_edge (demo_impls n)) demo_trait W"
      "world_insert demo_trait ty e v owner W = Some W'"
    have "reachable demo_trait ({}, W')" using a(3,4) by (blast intro: reachable_insert)
    moreover have "relationships_ok (\<lambda>n. ci_edge (demo_impls n)) demo_trait W'"
      using world_insert_rel [OF demo_dict, of "{}" W ty v e owner] a reachable_ok [of demo_trait "({}, W)"]
      by (simp add: demo_inverse)
    ultimately show "reachable demo_trait ({}, W') \<and> relationships_ok (\<lambda>n. ci_edge (demo_impls n)) demo_trait W'" ..
  qed
  then show ?thesis ..
qed

text \<open>
  C13. Inserting a component, over whatever the entity carried before, always returns except
  for a second singleton; it stores exactly the new entry, with a fresh revision unless a
  tracked component repeats its fingerprint, changes no other component but the inverses, and
  leaves every inverse equal to the sorted set of edges that point at its entity: an edge that
  is inserted joins the inverse of its target and a retargeted edge leaves the old one.
\<close>

theorem insert_maintains_relationships:
  assumes "relationship_dict kind ct" and "reachable ct (X, W)" and "relationships_ok kind ct W"
    and "\<not> is_inverse kind ty" and "\<And>as. v \<noteq> DerivedFromV as"
  shows "case world_insert ct ty e v owner W of
      None \<Rightarrow> \<exists>key x. singleton_key ty = Some key \<and> map_of (w_singletons W) key = Some x \<and> x \<noteq> e
    | Some W' \<Rightarrow> relationships_ok kind ct W'
        \<and> (\<forall>ty' e'. \<not> is_inverse kind ty' \<longrightarrow> entry_of W' ty' e' =
            (if ty' = ty \<and> e' = e then Some (inserted_entry ct ty e v owner W) else entry_of W ty' e'))"
  using world_insert_rel [OF assms(1) reachable_ok [OF assms(2), simplified] assms(3-5)] .

theorem insert_maintains_relationships_witness:
  "\<exists>W'. world_insert demo_trait (UserTy 1) 2 (demo_edge 3) None demo_world = Some W'
    \<and> relationships_ok (\<lambda>n. ci_edge (demo_impls n)) demo_trait W'
    \<and> members_of demo_trait W' 2 3 = [1, 2]"
proof -
  have "Option.bind (world_insert demo_trait (UserTy 1) 2 (demo_edge 3) None demo_world)
      (\<lambda>W'. if members_of demo_trait W' 2 3 = [1, 2] then Some True else None) = Some True"
    unfolding demo_world_def by code_simp
  then obtain W' where W': "world_insert demo_trait (UserTy 1) 2 (demo_edge 3) None demo_world = Some W'"
    "members_of demo_trait W' 2 3 = [1, 2]"
    by (auto elim!: bind_SomeE split: if_splits)
  show ?thesis
    using insert_maintains_relationships [OF demo_dict demo_world_reachable demo_world_relationships,
        of "UserTy 1" "demo_edge 3" 2 None] W'
    by (auto simp: demo_inverse demo_edge_def)
qed

text \<open>
  C14. Despawning always returns and reports every invocation that owned a component of the
  entity.  Afterwards the entity carries nothing at all, every edge that pointed at it is
  gone, no other component has changed except inverses, and every inverse is again the sorted
  set of the edges that point at its entity.
\<close>

theorem despawn_maintains_relationships:
  assumes "relationship_dict kind ct" and "reachable ct (X, W)" and "relationships_ok kind ct W"
  shows "\<exists>owners W'. remove_entity ct e W = Some (owners, W')
    \<and> set owners = {ow. \<exists>ty. owner_of W (ty, e) = Some ow} \<and> relationships_ok kind ct W'
    \<and> (\<forall>ty x. \<not> is_inverse kind ty \<longrightarrow> entry_of W' ty x =
        (if x = e \<or> (\<exists>n iv. ty = UserTy n \<and> edge_of ct W n x = Some (iv, e)) then None else entry_of W ty x))
    \<and> (\<forall>ty. \<not> has_component W' ty e)"
proof -
  have ok: "world_ok X W" using reachable_ok [OF assms(2)] by simp
  obtain W' where "remove_entity ct e W = Some (entity_owners e W, W')" "relationships_ok kind ct W'"
    "\<forall>ty x. \<not> is_inverse kind ty \<longrightarrow> entry_of W' ty x =
        (if x = e \<or> (\<exists>n iv. ty = UserTy n \<and> edge_of ct W n x = Some (iv, e)) then None else entry_of W ty x)"
    "\<forall>ty. entry_of W' ty e = None"
    using remove_entity_rel [OF assms(1) ok assms(3)] by blast
  then show ?thesis
    using cleared_world_ok(3) [OF ok, of e] by (intro exI [of _ "entity_owners e W"] exI [of _ W']) (simp add: has_component_def)
qed

theorem despawn_maintains_relationships_witness:
  "\<exists>owners W'. remove_entity demo_trait 3 demo_world = Some (owners, W')
    \<and> relationships_ok (\<lambda>n. ci_edge (demo_impls n)) demo_trait W'
    \<and> {ty. has_component W' ty 3} = {}"
  using despawn_maintains_relationships [OF demo_dict demo_world_reachable demo_world_relationships, of 3]
  by auto

text \<open>
  Removing one component, or sweeping one derived output, always returns, drops exactly
  that entry and keeps every inverse equal to the edges that point at its entity.
\<close>

theorem removal_maintains_relationships:
  assumes "relationship_dict kind ct" and "reachable ct (X, W)" and "relationships_ok kind ct W"
    and "\<not> is_inverse kind ty"
  shows "\<exists>W'. remove_component ct ty e remover W = Some W' \<and> relationships_ok kind ct W'
    \<and> (\<forall>ty' e'. \<not> is_inverse kind ty' \<longrightarrow> entry_of W' ty' e' =
        (if ty' = ty \<and> e' = e then None else entry_of W ty' e'))"
  using remove_component_rel [OF assms(1) reachable_ok [OF assms(2), simplified] assms(3,4)] .

theorem removal_maintains_relationships_witness:
  "\<exists>W'. remove_component demo_trait (UserTy 1) 1 None demo_world = Some W'
    \<and> relationships_ok (\<lambda>n. ci_edge (demo_impls n)) demo_trait W' \<and> entry_of W' (UserTy 1) 1 = None"
  using removal_maintains_relationships [OF demo_dict demo_world_reachable demo_world_relationships, of "UserTy 1" 1 None]
  by (auto simp: demo_inverse)

end
