(* ===== verification/Cells.thy ===== *)
theory Cells
  imports Prelude
begin

text \<open>
  Component cells (\<open>ComponentCell\<close> in \<open>world.rs\<close>) and the guards that keep them locked
  (\<open>ComponentReadGuard\<close>, \<open>ComponentWriteGuard\<close>, \<open>HeldGuard\<close> and \<open>GuardStore\<close> in
  \<open>query/guards.rs\<close>): a mutex-protected count of readers and a writer flag, a condition variable
  on which blocked threads sleep, and tokens that release their slot exactly once when dropped.

  The threads interleave at the granularity of the critical sections of the cell's mutex.  A
  thread that finds the cell taken sleeps; \<open>notify_all\<close> makes the sleepers of that cell
  recheck, and so may a spurious wake-up at any time.
\<close>

section \<open>One cell\<close>

type_synonym cell_id = nat

record lock_state =
  readers :: nat
  writer :: bool

definition lock_default :: lock_state where
  "lock_default = \<lparr>readers = 0, writer = False\<rparr>"

record 'v component_cell =
  cell_state :: lock_state
  cell_value :: 'v

definition cell_new :: "'v \<Rightarrow> 'v component_cell" where
  "cell_new v = \<lparr>cell_state = lock_default, cell_value = v\<rparr>"

text \<open>
  One test of the wait loop under the mutex: \<open>None\<close> is the branch that waits, for \<open>try_write\<close>
  the branch that gives up.
\<close>

definition enter_read :: "lock_state \<Rightarrow> lock_state option" where
  "enter_read s = (if writer s then None else Some (s\<lparr>readers := readers s + 1\<rparr>))"

definition enter_write :: "lock_state \<Rightarrow> lock_state option" where
  "enter_write s = (if writer s \<or> readers s \<noteq> 0 then None else Some (s\<lparr>writer := True\<rparr>))"

text \<open>Releasing returns the new state and whether the sleepers are notified; the decrement of
  a reader count of zero panics.\<close>

definition release_read :: "lock_state \<Rightarrow> (lock_state \<times> bool) option" where
  "release_read s =
     (if readers s = 0 then None
      else let s' = s\<lparr>readers := readers s - 1\<rparr> in Some (s', readers s' = 0))"

definition release_write :: "lock_state \<Rightarrow> (lock_state \<times> bool) option" where
  "release_write s = Some (s\<lparr>writer := False\<rparr>, True)"

section \<open>Guards\<close>

text \<open>A typed guard whose cell has been transferred is empty and releases nothing.\<close>

datatype typed_guard = ReadGuard "cell_id option" | WriteGuard "cell_id option"

datatype held_guard = HeldRead cell_id | HeldWrite cell_id | HeldCustom nat

datatype lock_kind = Reader | Writer

primrec into_held :: "typed_guard \<Rightarrow> (held_guard \<times> typed_guard) option" where
  "into_held (ReadGuard c) = map_option (\<lambda>c. (HeldRead c, ReadGuard None)) c"
| "into_held (WriteGuard c) = map_option (\<lambda>c. (HeldWrite c, WriteGuard None)) c"

primrec typed_slot :: "typed_guard \<Rightarrow> (lock_kind \<times> cell_id) option" where
  "typed_slot (ReadGuard c) = map_option (Pair Reader) c"
| "typed_slot (WriteGuard c) = map_option (Pair Writer) c"

primrec held_slot :: "held_guard \<Rightarrow> (lock_kind \<times> cell_id) option" where
  "held_slot (HeldRead c) = Some (Reader, c)"
| "held_slot (HeldWrite c) = Some (Writer, c)"
| "held_slot (HeldCustom n) = None"

section \<open>Threads over the cells\<close>

datatype phase_of_thread = Running | Asleep lock_kind cell_id | Awake lock_kind cell_id

record thread_state =
  phase :: phase_of_thread
  typed :: "typed_guard list"
  guard_store :: "held_guard list"

record 'v lock_system =
  cells :: "cell_id \<Rightarrow> 'v component_cell"
  threads :: "thread_state list"

definition put_thread :: "nat \<Rightarrow> thread_state \<Rightarrow> 'v lock_system \<Rightarrow> 'v lock_system" where
  "put_thread t th S = S\<lparr>threads := (threads S)[t := th]\<rparr>"

definition put_lock :: "cell_id \<Rightarrow> lock_state \<Rightarrow> 'v lock_system \<Rightarrow> 'v lock_system" where
  "put_lock c l S = S\<lparr>cells := (cells S)(c := (cells S c)\<lparr>cell_state := l\<rparr>)\<rparr>"

abbreviation lock_of :: "'v lock_system \<Rightarrow> cell_id \<Rightarrow> lock_state" where
  "lock_of S c \<equiv> cell_state (cells S c)"

primrec enter :: "lock_kind \<Rightarrow> lock_state \<Rightarrow> lock_state option" where
  "enter Reader = enter_read"
| "enter Writer = enter_write"

primrec release :: "lock_kind \<Rightarrow> lock_state \<Rightarrow> (lock_state \<times> bool) option" where
  "release Reader = release_read"
| "release Writer = release_write"

primrec new_guard :: "lock_kind \<Rightarrow> cell_id \<Rightarrow> typed_guard" where
  "new_guard Reader c = ReadGuard (Some c)"
| "new_guard Writer c = WriteGuard (Some c)"

definition notified :: "cell_id \<Rightarrow> thread_state \<Rightarrow> thread_state" where
  "notified c th = (case phase th of
     Asleep k c' \<Rightarrow> if c' = c then th\<lparr>phase := Awake k c\<rparr> else th
   | _ \<Rightarrow> th)"

definition notify_all :: "cell_id \<Rightarrow> 'v lock_system \<Rightarrow> 'v lock_system" where
  "notify_all c S = S\<lparr>threads := map (notified c) (threads S)\<rparr>"

text \<open>\<open>read\<close> and \<open>write\<close>: one pass of the wait loop.\<close>

definition acquire :: "nat \<Rightarrow> lock_kind \<Rightarrow> cell_id \<Rightarrow> 'v lock_system \<Rightarrow> 'v lock_system" where
  "acquire t k c S = (let th = threads S ! t in
     case enter k (lock_of S c) of
       None \<Rightarrow> put_thread t (th\<lparr>phase := Asleep k c\<rparr>) S
     | Some l \<Rightarrow> put_thread t (th\<lparr>phase := Running, typed := typed th @ [new_guard k c]\<rparr>) (put_lock c l S))"

definition try_write :: "nat \<Rightarrow> cell_id \<Rightarrow> 'v lock_system \<Rightarrow> bool \<times> 'v lock_system" where
  "try_write t c S = (let th = threads S ! t in
     case enter_write (lock_of S c) of
       None \<Rightarrow> (False, S)
     | Some l \<Rightarrow> (True, put_thread t (th\<lparr>typed := typed th @ [WriteGuard (Some c)]\<rparr>) (put_lock c l S)))"

definition release_slot :: "(lock_kind \<times> cell_id) option \<Rightarrow> 'v lock_system \<Rightarrow> 'v lock_system option" where
  "release_slot slot S = (case slot of
     None \<Rightarrow> Some S
   | Some (k, c) \<Rightarrow> map_option (\<lambda>(l, notify). (if notify then notify_all c else id) (put_lock c l S))
       (release k (lock_of S c)))"

text \<open>Dropping a typed guard, and moving one into the invocation's store
  (\<open>store_read_guard\<close>, \<open>store_write_guard\<close>: the emptied typed guard is dropped at once).\<close>

definition drop_typed :: "nat \<Rightarrow> nat \<Rightarrow> 'v lock_system \<Rightarrow> 'v lock_system option" where
  "drop_typed t i S = (let th = threads S ! t in
     release_slot (typed_slot (typed th ! i))
       (put_thread t (th\<lparr>typed := take i (typed th) @ drop (Suc i) (typed th)\<rparr>) S))"

definition store_guard :: "nat \<Rightarrow> nat \<Rightarrow> 'v lock_system \<Rightarrow> 'v lock_system option" where
  "store_guard t i S = (let th = threads S ! t in do {
     (h, g) \<leftarrow> into_held (typed th ! i);
     release_slot (typed_slot g)
       (put_thread t (th\<lparr>typed := take i (typed th) @ drop (Suc i) (typed th),
          guard_store := guard_store th @ [h]\<rparr>) S) })"

definition push_custom :: "nat \<Rightarrow> nat \<Rightarrow> 'v lock_system \<Rightarrow> 'v lock_system" where
  "push_custom t g S = (let th = threads S ! t in
     put_thread t (th\<lparr>guard_store := guard_store th @ [HeldCustom g]\<rparr>) S)"

text \<open>\<open>GuardStore::clear\<close>, and the drop of a store: its tokens are dropped in order.\<close>

fun drop_held :: "held_guard list \<Rightarrow> 'v lock_system \<Rightarrow> 'v lock_system option" where
  "drop_held [] S = Some S"
| "drop_held (h # hs) S = Option.bind (release_slot (held_slot h) S) (drop_held hs)"

definition clear_store :: "nat \<Rightarrow> 'v lock_system \<Rightarrow> 'v lock_system option" where
  "clear_store t S = (let th = threads S ! t in
     drop_held (guard_store th) (put_thread t (th\<lparr>guard_store := []\<rparr>) S))"

text \<open>A store moves to another thread with its tokens, as a query result does.\<close>

definition move_store :: "nat \<Rightarrow> nat \<Rightarrow> 'v lock_system \<Rightarrow> 'v lock_system" where
  "move_store t t' S = (let S' = put_thread t ((threads S ! t)\<lparr>guard_store := []\<rparr>) S in
     put_thread t' ((threads S' ! t')\<lparr>guard_store := guard_store (threads S' ! t') @ guard_store (threads S ! t)\<rparr>) S')"

text \<open>What a thread may touch: the slots of its guards.\<close>

definition holdings :: "thread_state \<Rightarrow> (lock_kind \<times> cell_id) list" where
  "holdings th = List.map_filter typed_slot (typed th) @ List.map_filter held_slot (guard_store th)"

definition read_value :: "nat \<Rightarrow> cell_id \<Rightarrow> 'v lock_system \<Rightarrow> 'v option" where
  "read_value t c S = (if \<exists>k \<in> {Reader, Writer}. (k, c) \<in> set (holdings (threads S ! t))
     then Some (cell_value (cells S c)) else None)"

definition write_value :: "nat \<Rightarrow> cell_id \<Rightarrow> 'v \<Rightarrow> 'v lock_system \<Rightarrow> 'v lock_system option" where
  "write_value t c v S = (if (Writer, c) \<in> set (holdings (threads S ! t))
     then Some (S\<lparr>cells := (cells S)(c := (cells S c)\<lparr>cell_value := v\<rparr>)\<rparr>) else None)"

section \<open>The steps\<close>

datatype 'v lock_action =
    Request nat lock_kind cell_id
  | Recheck nat
  | TryWrite nat cell_id
  | DropTyped nat nat
  | StoreGuard nat nat
  | PushCustom nat nat
  | ClearStore nat
  | MoveStore nat nat
  | WriteValue nat cell_id 'v

text \<open>
  \<open>None\<close> is either an action the thread cannot take in its phase or a panic; the theorems
  below show that dropping and storing a guard never panics.
\<close>

definition awake :: "'v lock_system \<Rightarrow> nat \<Rightarrow> bool" where
  "awake S t \<longleftrightarrow> t < length (threads S) \<and> phase (threads S ! t) = Running"

fun lock_act :: "'v lock_action \<Rightarrow> 'v lock_system \<Rightarrow> 'v lock_system option" where
  "lock_act (Request t k c) S = (if awake S t then Some (acquire t k c S) else None)"
| "lock_act (Recheck t) S = (if t < length (threads S) then
     (case phase (threads S ! t) of
        Running \<Rightarrow> None
      | Asleep k c \<Rightarrow> Some (acquire t k c S)
      | Awake k c \<Rightarrow> Some (acquire t k c S)) else None)"
| "lock_act (TryWrite t c) S = (if awake S t then Some (snd (try_write t c S)) else None)"
| "lock_act (DropTyped t i) S = (if awake S t \<and> i < length (typed (threads S ! t)) then drop_typed t i S else None)"
| "lock_act (StoreGuard t i) S = (if awake S t \<and> i < length (typed (threads S ! t)) then store_guard t i S else None)"
| "lock_act (PushCustom t g) S = (if awake S t then Some (push_custom t g S) else None)"
| "lock_act (ClearStore t) S = (if awake S t then clear_store t S else None)"
| "lock_act (MoveStore t t') S = (if awake S t \<and> t' < length (threads S) then Some (move_store t t' S) else None)"
| "lock_act (WriteValue t c v) S = (if awake S t then write_value t c v S else None)"

definition fresh_thread :: thread_state where
  "fresh_thread = \<lparr>phase = Running, typed = [], guard_store = []\<rparr>"

definition lock_init :: "(cell_id \<Rightarrow> 'v) \<Rightarrow> nat \<Rightarrow> 'v lock_system" where
  "lock_init vs n = \<lparr>cells = (\<lambda>c. cell_new (vs c)), threads = replicate n fresh_thread\<rparr>"

fun lock_run :: "'v lock_action list \<Rightarrow> 'v lock_system \<Rightarrow> 'v lock_system option" where
  "lock_run [] S = Some S"
| "lock_run (a # as) S = Option.bind (lock_act a S) (lock_run as)"

section \<open>The invariant\<close>

definition slots_held :: "'v lock_system \<Rightarrow> lock_kind \<times> cell_id \<Rightarrow> nat" where
  "slots_held S p = sum_list (map (\<lambda>th. count_list (holdings th) p) (threads S))"

primrec blocked :: "phase_of_thread \<Rightarrow> 'v lock_system \<Rightarrow> bool" where
  "blocked Running S = True"
| "blocked (Awake k c) S = True"
| "blocked (Asleep k c) S = (enter k (lock_of S c) = None)"

text \<open>\<open>extra\<close>: the tokens that are being dropped and belong to no thread any more.\<close>

definition lock_ok_with :: "(lock_kind \<times> cell_id) list \<Rightarrow> 'v lock_system \<Rightarrow> bool" where
  "lock_ok_with extra S \<longleftrightarrow>
     (\<forall>c. readers (lock_of S c) = slots_held S (Reader, c) + count_list extra (Reader, c)
        \<and> (if writer (lock_of S c) then 1 else 0) = slots_held S (Writer, c) + count_list extra (Writer, c)
        \<and> (writer (lock_of S c) \<longrightarrow> readers (lock_of S c) = 0))
     \<and> (\<forall>th \<in> set (threads S). blocked (phase th) S)"

abbreviation lock_ok :: "'v lock_system \<Rightarrow> bool" where
  "lock_ok S \<equiv> lock_ok_with [] S"

lemma lock_ok_exclusive:
  "lock_ok_with extra S \<Longrightarrow> writer (lock_of S c) \<longrightarrow> readers (lock_of S c) = 0"
  unfolding lock_ok_with_def by blast

lemma map_filter_append [simp]: "List.map_filter f (xs @ ys) = List.map_filter f xs @ List.map_filter f ys"
  by (simp add: List.map_filter_def)

lemma slots_held_put_thread:
  "t < length (threads S) \<Longrightarrow> slots_held (put_thread t th S) p + count_list (holdings (threads S ! t)) p =
     slots_held S p + count_list (holdings th) p"
  using member_le_sum_list [of "count_list (holdings (threads S ! t)) p" "map (\<lambda>th. count_list (holdings th) p) (threads S)"]
  by (simp add: slots_held_def put_thread_def map_update sum_list_update)

lemma slots_held_threads: "threads S' = threads S \<Longrightarrow> slots_held S' = slots_held S"
  by (simp add: slots_held_def fun_eq_iff)

lemma holdings_notified [simp]: "holdings (notified c th) = holdings th"
  by (simp add: notified_def holdings_def split: phase_of_thread.split)

lemma slots_held_notify [simp]: "slots_held (notify_all c S) p = slots_held S p"
  by (simp add: slots_held_def notify_all_def comp_def)

lemma slots_held_put_lock [simp]: "slots_held (put_lock c l S) p = slots_held S p"
  by (simp add: slots_held_def put_lock_def)

lemma lock_of_simps [simp]:
  "cells (put_thread t th S) = cells S"
  "cells (notify_all c S) = cells S"
  "lock_of (put_lock c l S) c' = (if c' = c then l else lock_of S c')"
  "threads (put_lock c l S) = threads S"
  "threads (put_thread t th S) = (threads S)[t := th]"
  by (simp_all add: put_thread_def notify_all_def put_lock_def)

lemma blocked_cells: "cells S' = cells S \<Longrightarrow> blocked ph S' = blocked ph S"
  by (cases ph) simp_all

lemma put_thread_ok:
  assumes "lock_ok_with extra S" and "t < length (threads S)" and "blocked (phase th) S"
    and "\<And>p. count_list (holdings (threads S ! t)) p + count_list extra p =
      count_list (holdings th) p + count_list extra' p"
  shows "lock_ok_with extra' (put_thread t th S)"
proof -
  have e: "slots_held (put_thread t th S) p + count_list extra' p = slots_held S p + count_list extra p" for p
    using slots_held_put_thread [OF assms(2), of th p] assms(4) [of p] by linarith
  have "blocked (phase x) (put_thread t th S)" if "x \<in> set ((threads S)[t := th])" for x
    using set_update_subset_insert [of "threads S" t th] that assms(1,3)
    by (auto simp: lock_ok_with_def blocked_cells [of "put_thread t th S" S])
  then show ?thesis using assms(1) unfolding lock_ok_with_def e lock_of_simps by blast
qed

lemma enter_blocks:
  "enter k l = Some l' \<Longrightarrow> enter k' l = None \<Longrightarrow> enter k' l' = None"
  by (cases k; cases k') (auto simp: enter_read_def enter_write_def split: if_splits)

lemma release_blocks:
  "release k l = Some (l', False) \<Longrightarrow> writer l \<longrightarrow> readers l = 0 \<Longrightarrow> enter k' l = None \<Longrightarrow> enter k' l' = None"
  by (cases k; cases k') (auto simp: enter_read_def enter_write_def release_read_def release_write_def Let_def split: if_splits)

lemma enter_ok:
  assumes "lock_ok_with extra S" and "enter k (lock_of S c) = Some l"
  shows "lock_ok_with ((k, c) # extra) (put_lock c l S)"
proof -
  have "blocked ph (put_lock c l S)" if "blocked ph S" for ph
    using that enter_blocks [OF assms(2)] by (cases ph) auto
  then show ?thesis using assms
    by (cases k) (auto simp: lock_ok_with_def enter_read_def enter_write_def split: if_splits)
qed

lemma blocked_notified:
  assumes "blocked (phase th) S"
  shows "blocked (phase (notified c th)) (notify_all c (put_lock c l S))"
  using assms by (cases "phase th") (auto simp: notified_def)

lemma release_slot_ok:
  assumes "lock_ok_with (p # extra) S"
  shows "\<exists>S'. release_slot (Some p) S = Some S' \<and> lock_ok_with extra S' \<and> slots_held S' = slots_held S
    \<and> length (threads S') = length (threads S) \<and> (\<forall>c. cell_value (cells S' c) = cell_value (cells S c))"
proof -
  obtain k c where p: "p = (k, c)" by (cases p)
  have "release k (lock_of S c) \<noteq> None"
    using assms by (cases k) (auto simp: p lock_ok_with_def release_read_def release_write_def)
  then obtain l n where r: "release k (lock_of S c) = Some (l, n)" by auto
  let ?S' = "(if n then notify_all c else id) (put_lock c l S)"
  have held: "slots_held ?S' = slots_held S" by (simp add: fun_eq_iff)
  have lock: "lock_of ?S' c' = (if c' = c then l else lock_of S c')" for c' by simp
  have count: "\<forall>c'. readers (lock_of ?S' c') = slots_held ?S' (Reader, c') + count_list extra (Reader, c')
      \<and> (if writer (lock_of ?S' c') then 1 else 0) = slots_held ?S' (Writer, c') + count_list extra (Writer, c')
      \<and> (writer (lock_of ?S' c') \<longrightarrow> readers (lock_of ?S' c') = 0)"
    unfolding held lock using assms r
    by (cases k) (auto simp: p lock_ok_with_def release_read_def release_write_def Let_def split: if_splits)
  have "blocked (phase th) ?S'" if th: "th \<in> set (threads ?S')" for th
  proof (cases n)
    case True
    then obtain th0 where "th = notified c th0" "th0 \<in> set (threads S)"
      using th by (auto simp: notify_all_def put_lock_def)
    then show ?thesis using True assms blocked_notified [of th0 S c l] by (simp add: lock_ok_with_def)
  next
    case False
    then have "blocked (phase th) S" using th assms by (simp add: lock_ok_with_def)
    moreover note lock_ok_exclusive [OF assms, of c]
    ultimately show ?thesis using False release_blocks r by (cases "phase th") auto
  qed
  then have "lock_ok_with extra ?S'" using count unfolding lock_ok_with_def by blast
  moreover have "length (threads ?S') = length (threads S)" by (simp add: notify_all_def)
  moreover have "\<forall>c'. cell_value (cells ?S' c') = cell_value (cells S c')" by (simp add: put_lock_def)
  moreover have "release_slot (Some p) S = Some ?S'" by (simp add: release_slot_def p r)
  ultimately show ?thesis using held by blast
qed

lemma drop_held_ok:
  assumes "lock_ok_with (List.map_filter held_slot hs @ extra) S"
  shows "\<exists>S'. drop_held hs S = Some S' \<and> lock_ok_with extra S' \<and> slots_held S' = slots_held S
    \<and> length (threads S') = length (threads S) \<and> (\<forall>c. cell_value (cells S' c) = cell_value (cells S c))"
  using assms
proof (induction hs arbitrary: S)
  case (Cons h hs)
  show ?case
  proof (cases "held_slot h")
    case None
    then show ?thesis using Cons by (simp add: List.map_filter_simps release_slot_def)
  next
    case (Some p)
    then have "lock_ok_with (p # List.map_filter held_slot hs @ extra) S"
      using Cons.prems by (simp add: List.map_filter_simps)
    from release_slot_ok [OF this] Cons.IH Some show ?thesis by fastforce
  qed
qed (simp add: List.map_filter_simps)

lemma count_list_map_filter_nth:
  assumes "i < length xs"
  shows "count_list (List.map_filter f xs) p =
    count_list (List.map_filter f (take i xs @ drop (Suc i) xs)) p + (if f (xs ! i) = Some p then 1 else 0)"
proof -
  have "xs = take i xs @ xs ! i # drop (Suc i) xs" using assms by (rule id_take_nth_drop)
  then have "count_list (List.map_filter f xs) p = count_list (List.map_filter f (take i xs @ xs ! i # drop (Suc i) xs)) p"
    by simp
  then show ?thesis by (cases "f (xs ! i)") (auto simp: List.map_filter_simps)
qed

lemma acquire_ok:
  assumes "lock_ok S" and "t < length (threads S)"
  shows "lock_ok (acquire t k c S)"
proof (cases "enter k (lock_of S c)")
  case None
  show ?thesis unfolding acquire_def Let_def None option.case
    by (rule put_thread_ok [OF assms]) (simp_all add: None holdings_def)
next
  case (Some l)
  show ?thesis unfolding acquire_def Let_def Some option.case
    by (rule put_thread_ok [OF enter_ok [OF assms(1) Some]])
      (use assms(2) in \<open>simp_all add: holdings_def List.map_filter_simps, cases k, simp_all add: List.map_filter_simps\<close>)
qed

lemma drop_typed_ok:
  assumes "lock_ok S" and "t < length (threads S)" and "phase (threads S ! t) = Running"
    and "i < length (typed (threads S ! t))"
  shows "\<exists>S'. drop_typed t i S = Some S' \<and> lock_ok S' \<and> length (threads S') = length (threads S)"
proof -
  let ?th = "threads S ! t"
  let ?S1 = "put_thread t (?th\<lparr>typed := take i (typed ?th) @ drop (Suc i) (typed ?th)\<rparr>) S"
  let ?x = "case typed_slot (typed ?th ! i) of None \<Rightarrow> [] | Some p \<Rightarrow> [p]"
  have ok: "lock_ok_with ?x ?S1"
    by (rule put_thread_ok [OF assms(1,2)])
      (use assms(3) count_list_map_filter_nth [OF assms(4), of typed_slot] in \<open>auto simp: holdings_def split: option.split\<close>)
  show ?thesis
  proof (cases "typed_slot (typed ?th ! i)")
    case None
    then show ?thesis using ok by (simp add: drop_typed_def release_slot_def Let_def)
  next
    case (Some p)
    then show ?thesis using release_slot_ok [of p "[]" ?S1] ok by (auto simp: drop_typed_def Let_def)
  qed
qed

lemma store_guard_ok:
  assumes "lock_ok S" and "t < length (threads S)" and "phase (threads S ! t) = Running"
    and "i < length (typed (threads S ! t))" and "store_guard t i S = Some S'"
  shows "lock_ok S'"
proof -
  let ?th = "threads S ! t"
  obtain h g where h: "into_held (typed ?th ! i) = Some (h, g)" "typed_slot g = None"
    "held_slot h = typed_slot (typed ?th ! i)"
    using assms(5) by (cases "typed ?th ! i"; cases "\<exists>c. typed_slot (typed ?th ! i) = Some c")
      (auto simp: store_guard_def Let_def)
  have S': "S' = put_thread t (?th\<lparr>typed := take i (typed ?th) @ drop (Suc i) (typed ?th),
      guard_store := guard_store ?th @ [h]\<rparr>) S"
    using assms(5) h by (simp add: store_guard_def Let_def release_slot_def)
  show ?thesis unfolding S'
    by (rule put_thread_ok [OF assms(1,2)])
      (use assms(3) count_list_map_filter_nth [OF assms(4), of typed_slot] h(3) in
        \<open>auto simp: holdings_def List.map_filter_simps split: option.splits\<close>)
qed

lemma clear_store_ok:
  assumes "lock_ok S" and "t < length (threads S)" and "phase (threads S ! t) = Running"
  shows "\<exists>S'. clear_store t S = Some S' \<and> lock_ok S' \<and> length (threads S') = length (threads S)
    \<and> (\<forall>p. slots_held S' p + count_list (List.map_filter held_slot (guard_store (threads S ! t))) p = slots_held S p)
    \<and> (\<forall>c. cell_value (cells S' c) = cell_value (cells S c))"
proof -
  let ?th = "threads S ! t"
  let ?S1 = "put_thread t (?th\<lparr>guard_store := []\<rparr>) S"
  have "lock_ok_with (List.map_filter held_slot (guard_store ?th) @ []) ?S1"
    by (rule put_thread_ok [OF assms(1,2)]) (simp_all add: assms(3) holdings_def List.map_filter_simps)
  from drop_held_ok [OF this] obtain S' where S': "drop_held (guard_store ?th) ?S1 = Some S'" "lock_ok S'"
    "slots_held S' = slots_held ?S1" "length (threads S') = length (threads S)"
    "\<forall>c. cell_value (cells S' c) = cell_value (cells S c)"
    by auto
  have "slots_held ?S1 p + count_list (List.map_filter held_slot (guard_store ?th)) p = slots_held S p" for p
    using slots_held_put_thread [OF assms(2), of "?th\<lparr>guard_store := []\<rparr>" p]
    by (simp add: holdings_def List.map_filter_simps)
  then show ?thesis using S' by (simp add: clear_store_def)
qed

lemma move_store_ok:
  assumes "lock_ok S" and "t < length (threads S)" and "phase (threads S ! t) = Running" and "t' < length (threads S)"
  shows "lock_ok (move_store t t' S)"
proof -
  let ?th = "threads S ! t"
  let ?S1 = "put_thread t (?th\<lparr>guard_store := []\<rparr>) S"
  have ok: "lock_ok_with (List.map_filter held_slot (guard_store ?th)) ?S1"
    by (rule put_thread_ok [OF assms(1,2)]) (simp_all add: assms(3) holdings_def List.map_filter_simps)
  have "blocked (phase (threads ?S1 ! t')) ?S1"
    using ok assms(4) unfolding lock_ok_with_def by (simp add: set_conv_nth) blast
  then show ?thesis unfolding move_store_def Let_def
    by (intro put_thread_ok [OF ok]) (use assms(4) in \<open>auto simp: holdings_def List.map_filter_simps\<close>)
qed

lemma lock_init_ok: "lock_ok (lock_init vs n)"
proof -
  have "sum_list (map (\<lambda>th. count_list (holdings th) p) (replicate n fresh_thread)) = 0" for p
    by (induction n) (simp_all add: fresh_thread_def holdings_def List.map_filter_simps)
  then show ?thesis
    by (auto simp: lock_ok_with_def slots_held_def lock_init_def cell_new_def lock_default_def)
      (simp add: fresh_thread_def)
qed

lemma write_value_ok:
  assumes "lock_ok S" and "write_value t c v S = Some S'"
  shows "lock_ok S'"
proof -
  have S': "S' = S\<lparr>cells := (cells S)(c := (cells S c)\<lparr>cell_value := v\<rparr>)\<rparr>"
    using assms(2) by (simp add: write_value_def split: if_splits)
  have l: "lock_of S' c' = lock_of S c'" for c' by (simp add: S')
  have "blocked ph S' = blocked ph S" for ph by (cases ph) (simp_all add: l)
  moreover have "slots_held S' = slots_held S" by (rule slots_held_threads) (simp add: S')
  moreover have "threads S' = threads S" by (simp add: S')
  ultimately have "lock_ok S' \<longleftrightarrow> lock_ok S" by (simp only: lock_ok_with_def l)
  then show ?thesis using assms(1) by blast
qed

lemma try_write_eq:
  assumes "phase (threads S ! t) = Running"
  shows "try_write t c S = (if enter Writer (lock_of S c) = None then (False, S) else (True, acquire t Writer c S))"
  using assms by (cases "threads S ! t") (simp add: try_write_def acquire_def Let_def split: option.split)

lemma lock_act_ok:
  assumes "lock_ok S" and "lock_act a S = Some S'"
  shows "lock_ok S'"
proof (cases a)
  case (Request t k c)
  then show ?thesis using assms acquire_ok by (auto simp: awake_def split: if_splits)
next
  case (Recheck t)
  then show ?thesis using assms acquire_ok by (auto split: if_splits phase_of_thread.splits)
next
  case (TryWrite t c)
  then show ?thesis using assms try_write_eq [of S t c] acquire_ok [of S t Writer c]
    by (auto simp: awake_def split: if_splits)
next
  case (DropTyped t i)
  then show ?thesis using assms drop_typed_ok [of S t i] by (auto simp: awake_def split: if_splits)
next
  case (StoreGuard t i)
  then show ?thesis using assms store_guard_ok [of S t i] by (auto simp: awake_def split: if_splits)
next
  case (PushCustom t g)
  then show ?thesis using assms
    by (auto simp: awake_def push_custom_def Let_def holdings_def List.map_filter_simps split: if_splits intro!: put_thread_ok)
next
  case (ClearStore t)
  then show ?thesis using assms clear_store_ok [of S t] by (auto simp: awake_def split: if_splits)
next
  case (MoveStore t t')
  then show ?thesis using assms move_store_ok [of S t t'] by (auto simp: awake_def split: if_splits)
next
  case (WriteValue t c v)
  then show ?thesis using assms write_value_ok by (auto split: if_splits)
qed

lemma lock_run_ok: "lock_run as S = Some S' \<Longrightarrow> lock_ok S \<Longrightarrow> lock_ok S'"
  by (induction as arbitrary: S) (auto elim!: bind_SomeE intro: lock_act_ok)

section \<open>Properties\<close>

definition lock_reachable :: "'v lock_system \<Rightarrow> bool" where
  "lock_reachable S \<longleftrightarrow> (\<exists>as vs n. lock_run as (lock_init vs n) = Some S)"

lemma lock_reachable_ok: "lock_reachable S \<Longrightarrow> lock_ok S"
  by (auto simp: lock_reachable_def intro: lock_run_ok lock_init_ok)

lemma slots_held_pos:
  assumes "t < length (threads S)"
  shows "count_list (holdings (threads S ! t)) p \<le> slots_held S p"
  using assms unfolding slots_held_def by (intro member_le_sum_list) auto

lemma count_list_pos_iff: "0 < count_list xs x \<longleftrightarrow> x \<in> set xs"
  by (induction xs) auto

lemma lock_okD:
  assumes "lock_ok S"
  shows "readers (lock_of S c) = slots_held S (Reader, c)"
    and "slots_held S (Writer, c) = (if writer (lock_of S c) then 1 else 0)"
    and "th \<in> set (threads S) \<Longrightarrow> blocked (phase th) S"
  using assms unfolding lock_ok_with_def by simp_all

text \<open>
  C16. A write guard is exclusive: in every reachable state at most one live write token locks
  a cell, over all threads and all guard stores; while it lives there is no read token; and
  \<open>try_write\<close> succeeds exactly when no token of the cell is alive.
\<close>

theorem write_guard_exclusive:
  assumes "lock_reachable S" and "awake S t"
  shows "slots_held S (Writer, c) \<le> 1 \<and> (slots_held S (Writer, c) = 1 \<longrightarrow> slots_held S (Reader, c) = 0)
    \<and> (fst (try_write t c S) \<longleftrightarrow> slots_held S (Writer, c) = 0 \<and> slots_held S (Reader, c) = 0)"
proof -
  note ok = lock_reachable_ok [OF assms(1)]
  have "fst (try_write t c S) \<longleftrightarrow> \<not> writer (lock_of S c) \<and> readers (lock_of S c) = 0"
    using assms(2) by (simp add: awake_def try_write_eq enter_write_def)
  then show ?thesis
    using lock_okD(1,2) [OF ok, of c] lock_ok_exclusive [OF ok, of c] by (auto split: if_splits)
qed

text \<open>
  C17. No wake-up is lost: in every reachable state a sleeping thread waits for a cell that
  some thread still holds a live token of, so the drop of that token will wake it.
\<close>

theorem no_lost_wakeup:
  assumes "lock_reachable S" and "th \<in> set (threads S)" and "phase th = Asleep k c"
  shows "enter k (lock_of S c) = None
    \<and> (\<exists>t k'. t < length (threads S) \<and> (k', c) \<in> set (holdings (threads S ! t)))"
proof -
  note ok = lock_reachable_ok [OF assms(1)]
  have none: "enter k (lock_of S c) = None"
    using lock_okD(3) [OF ok assms(2)] assms(3) by simp
  then obtain k' where "slots_held S (k', c) \<noteq> 0"
    using lock_okD(1,2) [OF ok, of c]
    by (cases k) (force simp: enter_read_def enter_write_def split: if_splits)+
  then obtain th' where "th' \<in> set (threads S)" "0 < count_list (holdings th') (k', c)"
    by (auto simp: slots_held_def)
  then show ?thesis using none by (auto simp: in_set_conv_nth count_list_pos_iff)
qed

text \<open>
Clearing an invocation's guard store releases every lock it holds exactly once: it never
  panics, it takes away exactly the store's tokens, it leaves all values alone, and every
  thread that still sleeps afterwards waits for somebody else's token.
\<close>

theorem clear_store_releases:
  assumes "lock_reachable S" and "awake S t"
  shows "\<exists>S'. lock_act (ClearStore t) S = Some S'
    \<and> (\<forall>p. slots_held S' p + count_list (List.map_filter held_slot (guard_store (threads S ! t))) p = slots_held S p)
    \<and> (\<forall>c. cell_value (cells S' c) = cell_value (cells S c))
    \<and> (\<forall>th\<in>set (threads S'). \<forall>k c. phase th = Asleep k c \<longrightarrow>
         slots_held S' (Reader, c) \<noteq> 0 \<or> slots_held S' (Writer, c) \<noteq> 0)"
proof -
  obtain S' where S': "clear_store t S = Some S'" "lock_ok S'"
    "\<forall>p. slots_held S' p + count_list (List.map_filter held_slot (guard_store (threads S ! t))) p = slots_held S p"
    "\<forall>c. cell_value (cells S' c) = cell_value (cells S c)"
    using clear_store_ok [of S t] lock_reachable_ok [OF assms(1)] assms(2) by (auto simp: awake_def)
  have "slots_held S' (Reader, c) \<noteq> 0 \<or> slots_held S' (Writer, c) \<noteq> 0"
    if "th \<in> set (threads S')" "phase th = Asleep k c" for th k c
    using lock_okD(1,2) [OF S'(2), of c] lock_okD(3) [OF S'(2) that(1)] that(2)
    by (cases k) (auto simp: enter_read_def enter_write_def split: if_splits)
  then show ?thesis using S' assms(2) by auto
qed

definition actor :: "'v lock_action \<Rightarrow> nat" where
  "actor a = (case a of Request t k c \<Rightarrow> t | Recheck t \<Rightarrow> t | TryWrite t c \<Rightarrow> t | DropTyped t i \<Rightarrow> t
     | StoreGuard t i \<Rightarrow> t | PushCustom t g \<Rightarrow> t | ClearStore t \<Rightarrow> t | MoveStore t t' \<Rightarrow> t | WriteValue t c v \<Rightarrow> t)"

lemma release_slot_values:
  "release_slot p S = Some S' \<Longrightarrow> cell_value (cells S' c) = cell_value (cells S c)"
  by (auto simp: release_slot_def put_lock_def split: option.splits if_splits prod.splits)

lemma drop_held_values:
  "drop_held hs S = Some S' \<Longrightarrow> cell_value (cells S' c) = cell_value (cells S c)"
  by (induction hs arbitrary: S) (auto elim!: bind_SomeE dest!: release_slot_values [of _ _ _ c])

lemma acquire_values [simp]: "cell_value (cells (acquire t k c S) c') = cell_value (cells S c')"
  by (simp add: acquire_def Let_def put_lock_def split: option.split)

lemma lock_act_values:
  assumes "lock_act a S = Some S'" and "\<nexists>t v. a = WriteValue t c v"
  shows "cell_value (cells S' c) = cell_value (cells S c)"
proof (cases a)
  case (TryWrite t c')
  then show ?thesis using assms(1) by (auto simp: awake_def try_write_eq split: if_splits)
next
  case (WriteValue t c' v)
  then show ?thesis using assms by (auto simp: write_value_def split: if_splits)
qed (use assms(1) in \<open>auto simp: drop_typed_def store_guard_def push_custom_def clear_store_def move_store_def Let_def
      elim!: bind_SomeE dest: release_slot_values [of _ _ _ c] drop_held_values [of _ _ _ c]
      split: if_splits phase_of_thread.splits prod.splits\<close>)

lemma sum_list_two:
  "i < length xs \<Longrightarrow> j < length xs \<Longrightarrow> i \<noteq> j \<Longrightarrow> xs ! i + xs ! j \<le> sum_list (xs :: nat list)"
proof -
  assume a: "i < length xs" "j < length xs" "i \<noteq> j"
  have "xs ! j \<in> set (xs[i := 0])"
    using a by (metis length_list_update nth_list_update_neq nth_mem)
  then have "xs ! j \<le> sum_list (xs[i := 0])" by (intro member_le_sum_list) auto
  also have "\<dots> = sum_list xs - xs ! i" using a(1) by (simp add: sum_list_update)
  finally show "xs ! i + xs ! j \<le> sum_list xs"
    using member_le_sum_list [of "xs ! i" xs] a(1) by simp
qed

lemma sole_writer:
  assumes ok: "lock_ok S" and t: "t < length (threads S)" and w: "(Writer, c) \<in> set (holdings (threads S ! t))"
  shows "t' < length (threads S) \<Longrightarrow> (k, c) \<in> set (holdings (threads S ! t')) \<Longrightarrow> t' = t \<and> k = Writer"
proof -
  assume t': "t' < length (threads S)" and k: "(k, c) \<in> set (holdings (threads S ! t'))"
  have "0 < count_list (holdings (threads S ! t)) (Writer, c)" using w by (simp add: count_list_pos_iff)
  then have pos: "0 < slots_held S (Writer, c)" using slots_held_pos [OF t, of "(Writer, c)"] by linarith
  then have wr: "writer (lock_of S c)" using lock_okD(2) [OF ok, of c] by (simp split: if_splits)
  have "0 < count_list (holdings (threads S ! t')) (k, c)" using k by (simp add: count_list_pos_iff)
  then have pos': "0 < slots_held S (k, c)" using slots_held_pos [OF t', of "(k, c)"] by linarith
  then have "k = Writer"
    using wr lock_okD(1) [OF ok, of c] lock_ok_exclusive [OF ok, of c] by (cases k) auto
  moreover have "t' = t"
  proof (rule ccontr)
    assume "t' \<noteq> t"
    then have "1 + 1 \<le> slots_held S (Writer, c)"
      using sum_list_two [of t "map (\<lambda>th. count_list (holdings th) (Writer, c)) (threads S)" t'] t t'
        \<open>0 < count_list (holdings (threads S ! t)) (Writer, c)\<close>
        \<open>0 < count_list (holdings (threads S ! t')) (k, c)\<close> \<open>k = Writer\<close>
      by (simp add: slots_held_def)
    then show False using lock_okD(2) [OF ok, of c] by (simp split: if_splits)
  qed
  ultimately show "t' = t \<and> k = Writer" by blast
qed

text \<open>
  C19. What a guard reads is stable: while a thread keeps a read token of a cell, no action of
  another thread changes the cell's value, whatever it does.
\<close>

theorem guarded_value_stable:
  assumes "lock_reachable S" and "t < length (threads S)" and "read_value t c S = Some v"
    and "lock_act a S = Some S'" and "actor a \<noteq> t \<or> (Reader, c) \<in> set (holdings (threads S ! t))"
  shows "cell_value (cells S' c) = v"
proof (cases "\<exists>t' v'. a = WriteValue t' c v'")
  case True
  then obtain t' v' where a: "a = WriteValue t' c v'" by blast
  then have w: "t' < length (threads S)" "(Writer, c) \<in> set (holdings (threads S ! t'))"
    using assms(4) by (simp_all add: awake_def write_value_def split: if_splits)
  obtain k where "(k, c) \<in> set (holdings (threads S ! t))"
    using assms(3) by (auto simp: read_value_def split: if_splits)
  note sole = sole_writer [OF lock_reachable_ok [OF assms(1)] w]
  have "t = t'" using sole [OF assms(2) \<open>(k, c) \<in> _\<close>] by blast
  then have "(Reader, c) \<in> set (holdings (threads S ! t))" using assms(5) a by (simp add: actor_def)
  then show ?thesis using sole [OF assms(2)] by blast
next
  case False
  then show ?thesis using lock_act_values [OF assms(4), of c] assms(3) by (auto simp: read_value_def split: if_splits)
qed

section \<open>Witnesses\<close>

text \<open>Thread 0 reads cell 5 twice into its guard store, thread 1 falls asleep writing it.\<close>

definition demo_locks :: "nat lock_system" where
  "demo_locks = the (lock_run [Request 0 Reader 5, Request 0 Reader 5, StoreGuard 0 0, StoreGuard 0 0,
     Request 1 Writer 5] (lock_init (\<lambda>c. 10 * c) 2))"

lemma demo_locks_eq: "demo_locks =
  \<lparr>cells = (\<lambda>c. cell_new (10 * c))(5 := \<lparr>cell_state = \<lparr>readers = 2, writer = False\<rparr>, cell_value = 50\<rparr>),
   threads = [\<lparr>phase = Running, typed = [], guard_store = [HeldRead 5, HeldRead 5]\<rparr>,
     \<lparr>phase = Asleep Writer 5, typed = [], guard_store = []\<rparr>]\<rparr>"
  and demo_locks_reachable: "lock_reachable demo_locks"
proof -
  have "lock_run [Request 0 Reader 5, Request 0 Reader 5, StoreGuard 0 0, StoreGuard 0 0,
     Request 1 Writer 5] (lock_init (\<lambda>c. 10 * c) 2) = Some
  \<lparr>cells = (\<lambda>c. cell_new (10 * c))(5 := \<lparr>cell_state = \<lparr>readers = 2, writer = False\<rparr>, cell_value = 50\<rparr>),
   threads = [\<lparr>phase = Running, typed = [], guard_store = [HeldRead 5, HeldRead 5]\<rparr>,
     \<lparr>phase = Asleep Writer 5, typed = [], guard_store = []\<rparr>]\<rparr>"
    by (simp add: lock_init_def awake_def fresh_thread_def acquire_def put_thread_def put_lock_def store_guard_def
        release_slot_def enter_read_def enter_write_def cell_new_def lock_default_def Let_def numeral_2_eq_2)
  then show "demo_locks =
  \<lparr>cells = (\<lambda>c. cell_new (10 * c))(5 := \<lparr>cell_state = \<lparr>readers = 2, writer = False\<rparr>, cell_value = 50\<rparr>),
   threads = [\<lparr>phase = Running, typed = [], guard_store = [HeldRead 5, HeldRead 5]\<rparr>,
     \<lparr>phase = Asleep Writer 5, typed = [], guard_store = []\<rparr>]\<rparr>" "lock_reachable demo_locks"
    unfolding demo_locks_def lock_reachable_def by (auto simp del: lock_run.simps)
qed

lemma demo_locks_slots [simp]: "slots_held demo_locks (Writer, 5) = 0" "slots_held demo_locks (Reader, 5) = 2"
  "awake demo_locks 0"
  by (simp_all add: demo_locks_eq slots_held_def holdings_def List.map_filter_simps awake_def)

theorem write_guard_exclusive_witness: "\<not> fst (try_write 0 5 demo_locks)"
  using write_guard_exclusive [OF demo_locks_reachable, of 0 5] by simp

theorem no_lost_wakeup_witness:
  "\<exists>t k'. t < length (threads demo_locks) \<and> (k', 5) \<in> set (holdings (threads demo_locks ! t))"
  using no_lost_wakeup [OF demo_locks_reachable, of "threads demo_locks ! 1" Writer 5]
  by (simp add: demo_locks_eq)

theorem clear_store_releases_witness:
  "\<exists>S'. lock_act (ClearStore 0) demo_locks = Some S' \<and> slots_held S' (Reader, 5) = 0"
proof -
  obtain S' where S': "lock_act (ClearStore 0) demo_locks = Some S'"
    "\<forall>p. slots_held S' p + count_list (List.map_filter held_slot (guard_store (threads demo_locks ! 0))) p = slots_held demo_locks p"
    using clear_store_releases [OF demo_locks_reachable, of 0] by auto
  have "guard_store (threads demo_locks ! 0) = [HeldRead 5, HeldRead 5]" by (simp add: demo_locks_eq)
  then show ?thesis using S'(1) S'(2) [rule_format, of "(Reader, 5)"] by (simp add: List.map_filter_simps)
qed

theorem guarded_value_stable_witness:
  "\<exists>S'. lock_act (ClearStore 0) demo_locks = Some S' \<and> cell_value (cells S' 5) = 50"
proof -
  obtain S' where S': "lock_act (ClearStore 0) demo_locks = Some S'"
    using clear_store_ok [of demo_locks 0] lock_reachable_ok [OF demo_locks_reachable] demo_locks_slots(3)
    by (auto simp: awake_def)
  have "cell_value (cells S' 5) = 50"
    by (rule guarded_value_stable [OF demo_locks_reachable _ _ S', of 0])
      (simp_all add: demo_locks_eq read_value_def holdings_def List.map_filter_simps)
  then show ?thesis using S' by blast
qed

end
