(* ===== verification/World_Books.thy ===== *)
theory World_Books
  imports World_Props
begin

text \<open>
  Relations between worlds that look at the bookkeeping only: the component operations of a
  world keep such a relation when a few steps do, whatever the state they start from.  The spawn
  slots (commands) and the record of derived writes (commits) are the interpretations.
\<close>

definition keeps :: "('v world \<Rightarrow> 'v world \<Rightarrow> bool) \<Rightarrow> ('v world \<Rightarrow> 'v world option) \<Rightarrow> bool" where
  "keeps R f \<longleftrightarrow> (\<forall>W W'. f W = Some W' \<longrightarrow> R W W')"

lemma keepsD: "keeps R f \<Longrightarrow> f W = Some W' \<Longrightarrow> R W W'"
  by (simp add: keeps_def)

locale book_relation =
  fixes ct :: "'v component_trait" and R :: "'v world \<Rightarrow> 'v world \<Rightarrow> bool"
  assumes book_refl: "R W W"
    and book_trans: "R W W1 \<Longrightarrow> R W1 W2 \<Longrightarrow> R W W2"
    and book_register: "register_singleton ty e W = Some W' \<Longrightarrow> R W W'"
    and book_insert: "insert_entry ct ty e v owner W = (previous, W') \<Longrightarrow> R W W'"
    and book_removed: "R W (removed_world ty e remover en s W)"
    and book_cleared: "R W (cleared_world e W)"
    and book_defer: "\<not> w_flushing W \<Longrightarrow> R W (W\<lparr>w_pending := w_pending W @ [pend]\<rparr>)"
    and book_removed_owners: "R W (W\<lparr>w_removed_owners := ows\<rparr>)"
begin

lemma keeps_bind: "keeps R f \<Longrightarrow> keeps R g \<Longrightarrow> keeps R (\<lambda>W. Option.bind (f W) g)"
  unfolding keeps_def by (blast elim!: bind_SomeE intro: book_trans)

lemma keeps_fold: "(\<And>x. keeps R (f x)) \<Longrightarrow> keeps R (fold_opt f xs)"
proof (induction xs)
  case Nil
  then show ?case by (simp add: keeps_def book_refl)
next
  case (Cons x xs)
  have "keeps R (\<lambda>W. Option.bind (f x W) (fold_opt f xs))"
    by (rule keeps_bind) (use Cons in blast)+
  then show ?case by simp
qed

lemma insert_value_keeps:
  assumes "\<And>iv s t. keeps R (add iv s t)" and "\<And>iv s t. keeps R (remove iv s t)"
  shows "keeps R (insert_value add remove ct ty e v owner)"
  unfolding keeps_def
proof (intro allI impI)
  fix W W' assume "insert_value add remove ct ty e v owner W = Some W'"
  then obtain W0 previous W1 where reg: "register_singleton ty e W = Some W0"
    and ie: "insert_entry ct ty e v owner W0 = (previous, W1)"
    and rest: "W' = W1 \<or> (\<exists>W2. (W2 = W1 \<or> (\<exists>iv t. remove iv e t W1 = Some W2))
       \<and> (W' = W2 \<or> (\<exists>iv t. add iv e t W2 = Some W')))"
    using insert_valueE by blast
  have "R W W1" using book_trans book_register [OF reg] book_insert [OF ie] by blast
  moreover have "R W1 W'"
    using rest keepsD [OF assms(1)] keepsD [OF assms(2)] book_trans book_refl by metis
  ultimately show "R W W'" using book_trans by blast
qed

lemma insert_body_keeps:
  assumes "\<And>iv s t. keeps R (add iv s t)" and "\<And>iv s t. keeps R (remove iv s t)"
  shows "keeps R (insert_body add remove ct ty e v owner)"
  using keepsD [OF insert_value_keeps [OF assms]] book_defer
  by (auto simp: keeps_def insert_body_def split: cvalue.splits if_splits)

lemma remove_body_keeps:
  assumes "\<And>iv s t. keeps R (remove iv s t)"
  shows "keeps R (remove_body remove ct ty e remover)"
  unfolding keeps_def
proof (intro allI impI)
  fix W W' assume rb: "remove_body remove ct ty e remover W = Some W'"
  show "R W W'"
  proof (cases "Option.bind (stores_get ty (w_stores W)) (store_remove e)")
    case None
    then have "W' = W" using rb by (auto simp: remove_body_eq split: option.splits)
    then show ?thesis by (simp add: book_refl)
  next
    case (Some r)
    obtain en s' where r: "r = (en, s')" by (rule prod.exhaust)
    have "W' = removed_world ty e remover en s' W
        \<or> (\<exists>iv t. remove iv e t (removed_world ty e remover en s' W) = Some W')"
      using rb Some by (auto simp: remove_body_eq r split: option.splits)
    then show ?thesis using book_removed book_trans keepsD [OF assms] by blast
  qed
qed

lemma maintainer_keeps:
  assumes "\<And>ty e v owner. keeps R (ins ty e v owner)" and "\<And>ty e remover. keeps R (rem ty e remover)"
  shows "keeps R (relationship_add_member ins ct iv s t)"
    and "keeps R (relationship_remove_member ins rem ct iv s t)"
  using keepsD [OF assms(1)] keepsD [OF assms(2)] book_refl
  by (auto simp: keeps_def relationship_add_member_def relationship_remove_member_def Let_def
      split: option.splits sum.splits if_splits)

lemma insert_at_keeps:
  "keeps R (insert_at n ct ty e v owner)" "keeps R (remove_at n ct ty e remover)"
proof -
  have "(\<forall>ty e v owner. keeps R (insert_at n ct ty e v owner)) \<and> (\<forall>ty e remover. keeps R (remove_at n ct ty e remover))"
  proof (induction n)
    case 0
    show ?case by (simp add: keeps_def)
  next
    case (Suc n)
    then have m: "keeps R (relationship_add_member (insert_at n ct) ct iv s t)"
      "keeps R (relationship_remove_member (insert_at n ct) (remove_at n ct) ct iv s t)" for iv s t
      using maintainer_keeps [of "insert_at n ct" "remove_at n ct"] by blast+
    show ?case unfolding insert_at.simps remove_at.simps
      by (intro conjI allI insert_body_keeps remove_body_keeps m)
  qed
  then show "keeps R (insert_at n ct ty e v owner)" "keeps R (remove_at n ct ty e remover)" by blast+
qed

lemma world_ops_keep:
  "keeps R (world_insert ct ty e v owner)" "keeps R (insert_derived ct ty e v ow)" "keeps R (insert_base ct ty e v)"
  "keeps R (remove_component ct ty e remover)" "keeps R (remove_member ct iv s t)"
proof -
  show ins: "keeps R (world_insert ct ty e v owner)" for owner
    unfolding world_insert_def by (rule insert_at_keeps)
  then show "keeps R (insert_derived ct ty e v ow)" "keeps R (insert_base ct ty e v)"
    by (simp_all add: keeps_def insert_derived_def insert_base_def)
  show "keeps R (remove_component ct ty e remover)"
    unfolding remove_component_def by (rule insert_at_keeps)
  show "keeps R (remove_member ct iv s t)"
    unfolding remove_member_def by (rule maintainer_keeps(2) [OF insert_at_keeps])
qed

lemma remove_entity_keeps:
  assumes "remove_entity ct e W = Some (ows, W')"
  shows "R W W'"
proof -
  obtain W5 W6 where W5: "fold_opt (\<lambda>(iv, target). remove_member ct iv e target) (entity_edges ct W e) (cleared_world e W) = Some W5"
    and W6: "fold_opt (\<lambda>(edge, source). remove_component ct (UserTy edge) source None) (entity_retractions ct W e) W5 = Some W6"
    and W': "W' = W6\<lparr>w_removed_owners := w_removed_owners W6 @ ows\<rparr>"
    using assms unfolding remove_entity_eq by (auto elim!: bind_SomeE)
  have "R (cleared_world e W) W5"
    by (rule keepsD [OF keeps_fold W5]) (auto simp: world_ops_keep(5) split: prod.split)
  moreover have "R W5 W6"
    by (rule keepsD [OF keeps_fold W6]) (auto simp: world_ops_keep(4) split: prod.split)
  ultimately show ?thesis
    unfolding W' using book_cleared book_removed_owners book_trans by meson
qed

end

text \<open>A relation that the flush of pending anchors keeps, too.\<close>

locale flush_relation = book_relation +
  assumes book_flush_start: "R W (W\<lparr>w_pending := [], w_flushing := True\<rparr>)"
    and book_flush_end: "R W (W\<lparr>w_flushing := False\<rparr>)"
begin

lemma flush_keeps: "keeps R (flush_derived_from ct)"
  unfolding keeps_def
proof (intro allI impI)
  fix W W' assume fl: "flush_derived_from ct W = Some W'"
  show "R W W'"
  proof (cases "w_pending W = []")
    case True
    then show ?thesis using fl by (simp add: flush_derived_from_def book_refl)
  next
    case False
    let ?W0 = "W\<lparr>w_pending := [], w_flushing := True\<rparr>"
    obtain W1 where W1: "fold_opt (\<lambda>(e, anchors, owner). world_insert ct DerivedFromTy e (DerivedFromV anchors) owner)
        (w_pending W) ?W0 = Some W1" and W': "W' = W1\<lparr>w_flushing := False\<rparr>"
      using fl False by (auto simp: flush_derived_from_def elim: bind_SomeE)
    have "R ?W0 W1"
      by (rule keepsD [OF keeps_fold W1]) (auto simp: world_ops_keep(1) split: prod.split)
    moreover have "R W ?W0" by (rule book_flush_start)
    ultimately show ?thesis using W' book_flush_end book_trans by blast
  qed
qed

end

text \<open>While anchors are flushed no component operation defers another.\<close>

definition same_flush :: "'v world \<Rightarrow> 'v world \<Rightarrow> bool" where
  "same_flush W W' \<longleftrightarrow> w_flushing W' = w_flushing W \<and> (w_flushing W \<longrightarrow> w_pending W' = w_pending W)"

lemma remove_from_stores_pending:
  "w_pending (snd (remove_from_stores e tys W)) = w_pending W \<and> w_flushing (snd (remove_from_stores e tys W)) = w_flushing W"
  by (induction tys arbitrary: W) (simp_all add: Let_def case_prod_beta split: option.split)

interpretation flush_books: book_relation ct same_flush for ct
proof
  show "same_flush W W'" if "register_singleton ty e W = Some W'" for W W' :: "'a world" and ty e
    using that by (auto simp: same_flush_def register_singleton_def split: option.splits if_splits)
  show "same_flush W W'" if "insert_entry ct ty e v owner W = (previous, W')" for W W' :: "'a world" and ty e v owner previous
    using insert_entry_fields [OF that] by (simp add: same_flush_def)
  show "same_flush W (cleared_world e W)" for W :: "'a world" and e
    using remove_from_stores_pending [of e "map fst (stores_list (w_stores W))" W]
    by (simp add: same_flush_def cleared_world_def Let_def case_prod_beta w_presence_clear_def unindex_all_fields fold_log_fields)
qed (simp_all add: same_flush_def)

lemma flush_settled:
  assumes "flush_derived_from ct W = Some W'"
  shows "w_pending W' = [] \<and> (w_flushing W' = (w_flushing W \<and> w_pending W = []))"
proof (cases "w_pending W = []")
  case True
  then show ?thesis using assms by (simp add: flush_derived_from_def)
next
  case False
  let ?W0 = "W\<lparr>w_pending := [], w_flushing := True\<rparr>"
  obtain W1 where W1: "fold_opt (\<lambda>(e, anchors, owner). world_insert ct DerivedFromTy e (DerivedFromV anchors) owner)
      (w_pending W) ?W0 = Some W1" and W': "W' = W1\<lparr>w_flushing := False\<rparr>"
    using assms False by (auto simp: flush_derived_from_def elim: bind_SomeE)
  have "same_flush ?W0 W1"
    by (rule keepsD [OF flush_books.keeps_fold W1]) (auto simp: flush_books.world_ops_keep(1) split: prod.split)
  then show ?thesis using W' False by (simp add: same_flush_def)
qed

end
