(* ===== verification/Commands.thy ===== *)
theory Commands
  imports Demo World_Books
begin

text \<open>
  Command buffers (\<open>commands.rs\<close>) and the queues they fill (\<open>commands/arena.rs\<close>): the
  operations a system buffers, their application as derived or base writes, the reservation of
  spawn ids, the transfer of operations between queues, and the pool that recycles the storage
  of drained queues.

  A queue owns type-erased payloads and the functions that consume them; here an entry is the
  operation itself.  The arena, the recycled producer handle and the capacity of the guard
  store only save allocations and are left out.
\<close>

section \<open>Bundles\<close>

text \<open>A bundle is a tuple of components; \<open>None\<close> is the panic of a second singleton marker.\<close>

type_synonym 'v component_bundle = "(type_id \<times> 'v cvalue) list"

definition collect_singleton_key :: "type_id \<Rightarrow> type_id option \<Rightarrow> type_id option option" where
  "collect_singleton_key ty key = (case singleton_key ty of
     None \<Rightarrow> Some key
   | Some next_key \<Rightarrow> if key \<noteq> None then None else Some (Some next_key))"

definition bundle_singleton_key :: "'v component_bundle \<Rightarrow> type_id option option" where
  "bundle_singleton_key b = fold_opt (\<lambda>(ty, v). collect_singleton_key ty) b None"

definition bundle_insert_derived :: "'v component_trait \<Rightarrow> 'v component_bundle \<Rightarrow> entity \<Rightarrow> system_invocation \<Rightarrow>
    'v world \<Rightarrow> 'v world option" where
  "bundle_insert_derived ct b e owner = fold_opt (\<lambda>(ty, v). insert_derived ct ty e v owner) b"

section \<open>Operations\<close>

datatype 'v command_op =
    InsertCommand entity type_id "'v cvalue"
  | SpawnCommand "'v component_bundle" entity
  | RemoveEntityCommand entity
  | RemoveComponentCommand type_id entity

datatype 'v base_command_op =
    InsertBaseCommand entity type_id "'v cvalue"
  | RemoveComponentBaseCommand type_id entity
  | DespawnBaseCommand entity

primrec command_apply :: "'v component_trait \<Rightarrow> 'v command_op \<Rightarrow> system_invocation \<Rightarrow> 'v world \<Rightarrow> 'v world option" where
  "command_apply ct (InsertCommand e ty v) owner W = insert_derived ct ty e v owner W"
| "command_apply ct (SpawnCommand b reserved) owner W = do {
     key \<leftarrow> bundle_singleton_key b;
     let (e, W1) = (case key of
         None \<Rightarrow> (reserved, W)
       | Some k \<Rightarrow> singleton_entity_or_register k reserved W);
     bundle_insert_derived ct b e owner (record_derived_spawn owner e W1) }"
| "command_apply ct (RemoveEntityCommand e) owner W = map_option snd (remove_entity ct e W)"
| "command_apply ct (RemoveComponentCommand ty e) owner W = remove_component ct ty e (Some owner) W"

primrec defers_at_settle :: "'v command_op \<Rightarrow> bool" where
  "defers_at_settle (InsertCommand e ty v) = True"
| "defers_at_settle (SpawnCommand b reserved) = True"
| "defers_at_settle (RemoveEntityCommand e) = False"
| "defers_at_settle (RemoveComponentCommand ty e) = False"

primrec base_command_apply :: "'v component_trait \<Rightarrow> 'v base_command_op \<Rightarrow> 'v world \<Rightarrow> 'v world option" where
  "base_command_apply ct (InsertBaseCommand e ty v) W = insert_base ct ty e v W"
| "base_command_apply ct (RemoveComponentBaseCommand ty e) W = remove_component ct ty e None W"
| "base_command_apply ct (DespawnBaseCommand e) W = map_option snd (remove_entity ct e W)"

datatype 'v operation = Derived "'v command_op" | Base "'v base_command_op"

primrec operation_apply :: "'v component_trait \<Rightarrow> system_invocation option \<Rightarrow> 'v operation \<Rightarrow> 'v world \<Rightarrow> 'v world option" where
  "operation_apply ct owner (Derived c) W = Option.bind owner (\<lambda>ow. command_apply ct c ow W)"
| "operation_apply ct owner (Base c) W = base_command_apply ct c W"

primrec operation_deferred :: "'v operation \<Rightarrow> bool" where
  "operation_deferred (Derived c) = defers_at_settle c"
| "operation_deferred (Base c) = False"

section \<open>Queues\<close>

record 'v op_entry =
  en_operation :: "'v operation"
  en_deferred :: bool

record 'v storage =
  st_entries :: "'v op_entry list"
  st_cursor :: nat

definition storage_default :: "'v storage" where
  "storage_default = \<lparr>st_entries = [], st_cursor = 0\<rparr>"

record 'v command_queue =
  q_storage :: "'v storage option"
  q_returns :: bool

definition queue_default :: "'v command_queue" where
  "queue_default = \<lparr>q_storage = None, q_returns = False\<rparr>"

text \<open>The storage of a queue, created on first use.\<close>

definition queue_storage :: "'v command_queue \<Rightarrow> 'v storage" where
  "queue_storage q = (case q_storage q of None \<Rightarrow> storage_default | Some st \<Rightarrow> st)"

definition push_operation :: "'v operation \<Rightarrow> 'v command_queue \<Rightarrow> 'v command_queue" where
  "push_operation op q = (let st = queue_storage q in
     q\<lparr>q_storage := Some (st\<lparr>st_entries := st_entries st @
         [\<lparr>en_operation = op, en_deferred = operation_deferred op\<rparr>]\<rparr>)\<rparr>)"

definition queue_push :: "'v command_op \<Rightarrow> 'v command_queue \<Rightarrow> 'v command_queue" where
  "queue_push c = push_operation (Derived c)"

definition base_push :: "'v base_command_op \<Rightarrow> 'v command_queue \<Rightarrow> 'v command_queue" where
  "base_push c = push_operation (Base c)"

definition queue_len :: "'v command_queue \<Rightarrow> nat" where
  "queue_len q = (case q_storage q of None \<Rightarrow> 0 | Some st \<Rightarrow> length (st_entries st) - st_cursor st)"

definition queue_is_empty :: "'v command_queue \<Rightarrow> bool" where
  "queue_is_empty q \<longleftrightarrow> queue_len q = 0"

text \<open>\<open>clear\<close> discards what is left; it is also what \<open>Drain\<close> does when it is dropped, on the
  normal path and when an operation panics.\<close>

function discard_rest :: "'v storage \<Rightarrow> 'v storage" where
  "discard_rest st = (if st_cursor st < length (st_entries st)
     then discard_rest (st\<lparr>st_cursor := st_cursor st + 1\<rparr>) else st)"
  by pat_completeness auto
termination by (relation "measure (\<lambda>st. length (st_entries st) - st_cursor st)") auto

definition storage_clear :: "'v storage \<Rightarrow> 'v storage" where
  "storage_clear st = (discard_rest st)\<lparr>st_entries := [], st_cursor := 0\<rparr>"

function move_loop :: "'v storage \<Rightarrow> 'v command_queue \<Rightarrow> 'v storage \<times> 'v command_queue" where
  "move_loop st q = (if st_cursor st < length (st_entries st)
     then move_loop (st\<lparr>st_cursor := st_cursor st + 1\<rparr>)
       (push_operation (en_operation (st_entries st ! st_cursor st)) q)
     else (st, q))"
  by pat_completeness auto
termination by (relation "measure (\<lambda>(st, q). length (st_entries st) - st_cursor st)") auto

text \<open>\<open>append\<close>: the queue that receives, and the one that is drained.\<close>

definition queue_append :: "'v command_queue \<Rightarrow> 'v command_queue \<Rightarrow> 'v command_queue \<times> 'v command_queue" where
  "queue_append q other = (case q_storage other of
     None \<Rightarrow> (q, other)
   | Some st \<Rightarrow> (let (st', q') = move_loop st q in (q', other\<lparr>q_storage := Some (storage_clear st')\<rparr>)))"

text \<open>The loop of \<open>apply_or_defer\<close>; a world of \<open>None\<close> is a panic in an operation.\<close>

function apply_loop :: "'v component_trait \<Rightarrow> system_invocation option \<Rightarrow> 'v storage \<Rightarrow> 'v world \<Rightarrow>
    'v command_queue option \<Rightarrow> 'v world option \<times> 'v storage \<times> 'v command_queue option" where
  "apply_loop ct owner st W target =
     (if st_cursor st < length (st_entries st) then
        let entry = st_entries st ! st_cursor st; st' = st\<lparr>st_cursor := st_cursor st + 1\<rparr> in
        (case (if en_deferred entry then target else None) of
           Some q \<Rightarrow> apply_loop ct owner st' W (Some (push_operation (en_operation entry) q))
         | None \<Rightarrow> (case operation_apply ct owner (en_operation entry) W of
             None \<Rightarrow> (None, st', target)
           | Some W' \<Rightarrow> apply_loop ct owner st' W' target))
      else (Some W, st, target))"
  by pat_completeness auto
termination by (relation "measure (\<lambda>(ct, owner, st, W, target). length (st_entries st) - st_cursor st)") auto

definition apply_or_defer :: "'v component_trait \<Rightarrow> system_invocation option \<Rightarrow> 'v world \<Rightarrow>
    'v command_queue option \<Rightarrow> 'v command_queue \<Rightarrow>
    'v world option \<times> 'v command_queue option \<times> 'v command_queue" where
  "apply_or_defer ct owner W target q = (case q_storage q of
     None \<Rightarrow> (Some W, target, q)
   | Some st \<Rightarrow> (let (r, st', target') = apply_loop ct owner st W target in
       (r, target', q\<lparr>q_storage := Some (storage_clear st')\<rparr>)))"

definition queue_apply :: "'v component_trait \<Rightarrow> system_invocation option \<Rightarrow> 'v world \<Rightarrow>
    'v command_queue \<Rightarrow> 'v world option \<times> 'v command_queue" where
  "queue_apply ct owner W q = (let (r, _, q') = apply_or_defer ct owner W None q in (r, q'))"

definition bundle_queue :: "'v component_bundle \<Rightarrow> entity \<Rightarrow> 'v command_queue \<Rightarrow> 'v command_queue" where
  "bundle_queue b e = fold (\<lambda>(ty, v). base_push (InsertBaseCommand e ty v)) b"

section \<open>The pool\<close>

text \<open>Storage returned by dropped queues waits in the channel until the next checkout.\<close>

record 'v pool =
  pool_returned :: "'v storage list"
  pool_free :: "'v storage list"

definition pool_default :: "'v pool" where
  "pool_default = \<lparr>pool_returned = [], pool_free = []\<rparr>"

definition pool_take :: "'v pool \<Rightarrow> 'v command_queue \<times> 'v pool" where
  "pool_take P = (let free = pool_free P @ pool_returned P in
     if free = [] then (\<lparr>q_storage = None, q_returns = True\<rparr>, \<lparr>pool_returned = [], pool_free = []\<rparr>)
     else (\<lparr>q_storage = Some (last free), q_returns = True\<rparr>, \<lparr>pool_returned = [], pool_free = butlast free\<rparr>))"

definition queue_drop :: "'v command_queue \<Rightarrow> 'v pool \<Rightarrow> 'v pool" where
  "queue_drop q P = (case q_storage q of
     None \<Rightarrow> P
   | Some st \<Rightarrow> if q_returns q then P\<lparr>pool_returned := pool_returned P @ [storage_clear st]\<rparr> else P)"

section \<open>Command buffers\<close>

text \<open>The allocator is the world's shared counter of entity ids.\<close>

record 'v command_buffer =
  cb_ops :: "'v command_queue"
  cb_spawn_slots :: "entity list"
  cb_spawn_cursor :: nat

definition with_queue :: "entity list \<Rightarrow> 'v command_queue \<Rightarrow> 'v command_buffer" where
  "with_queue previous ops = \<lparr>cb_ops = ops, cb_spawn_slots = previous, cb_spawn_cursor = 0\<rparr>"

definition commands_insert :: "'v component_bundle \<Rightarrow> 'v command_buffer \<times> nat \<Rightarrow> entity \<times> 'v command_buffer \<times> nat" where
  "commands_insert b s = (case s of (B, n) \<Rightarrow>
     let (reserved, n') = (if cb_spawn_cursor B < length (cb_spawn_slots B)
           then (cb_spawn_slots B ! cb_spawn_cursor B, n) else (n, n + 1))
     in (reserved, B\<lparr>cb_spawn_cursor := cb_spawn_cursor B + 1,
           cb_ops := queue_push (SpawnCommand b reserved) (cb_ops B)\<rparr>, n'))"

definition commands_remove :: "entity \<Rightarrow> 'v command_buffer \<Rightarrow> 'v command_buffer" where
  "commands_remove e B = B\<lparr>cb_ops := queue_push (RemoveEntityCommand e) (cb_ops B)\<rparr>"

definition entity_insert :: "entity \<Rightarrow> type_id \<Rightarrow> 'v cvalue \<Rightarrow> 'v command_buffer \<Rightarrow> 'v command_buffer" where
  "entity_insert e ty v B = B\<lparr>cb_ops := queue_push (InsertCommand e ty v) (cb_ops B)\<rparr>"

definition entity_remove :: "entity \<Rightarrow> type_id \<Rightarrow> 'v command_buffer \<Rightarrow> 'v command_buffer" where
  "entity_remove e ty B = B\<lparr>cb_ops := queue_push (RemoveComponentCommand ty e) (cb_ops B)\<rparr>"

definition commands_take :: "'v command_buffer \<Rightarrow> 'v command_queue \<times> 'v command_buffer" where
  "commands_take B = (cb_ops B, B\<lparr>cb_ops := queue_default\<rparr>)"

declare discard_rest.simps [simp del] move_loop.simps [simp del] apply_loop.simps [simp del]

section \<open>What a queue holds\<close>

definition storage_contents :: "'v storage \<Rightarrow> 'v operation list" where
  "storage_contents st = map en_operation (drop (st_cursor st) (st_entries st))"

definition storage_ok :: "'v storage \<Rightarrow> bool" where
  "storage_ok st \<longleftrightarrow> st_cursor st = 0 \<and> (\<forall>en\<in>set (st_entries st). en_deferred en = operation_deferred (en_operation en))"

definition contents :: "'v command_queue \<Rightarrow> 'v operation list" where
  "contents q = storage_contents (queue_storage q)"

definition queue_ok :: "'v command_queue \<Rightarrow> bool" where
  "queue_ok q \<longleftrightarrow> storage_ok (queue_storage q)"

lemma storage_default_ok [simp]: "storage_ok storage_default" "storage_contents storage_default = []"
  by (simp_all add: storage_default_def storage_ok_def storage_contents_def)

lemma storage_clear_ok [simp]: "storage_ok (storage_clear st)" "storage_contents (storage_clear st) = []"
  by (simp_all add: storage_clear_def storage_ok_def storage_contents_def)

lemma queue_storage_Some [simp]: "queue_storage (q\<lparr>q_storage := Some st\<rparr>) = st"
  by (simp add: queue_storage_def)

lemma push_operation_ok:
  assumes "queue_ok q"
  shows "queue_ok (push_operation op q)" and "contents (push_operation op q) = contents q @ [op]"
  using assms by (auto simp: push_operation_def queue_ok_def contents_def storage_ok_def storage_contents_def Let_def)

lemma queue_len_contents:
  assumes "queue_ok q"
  shows "queue_len q = length (contents q)" and "queue_is_empty q \<longleftrightarrow> contents q = []"
proof -
  show len: "queue_len q = length (contents q)"
    by (simp add: queue_len_def contents_def queue_storage_def storage_contents_def storage_default_def
        split: option.split)
  show "queue_is_empty q \<longleftrightarrow> contents q = []"
    by (simp add: queue_is_empty_def len)
qed

lemma move_loop_spec:
  assumes "queue_ok q"
  shows "queue_ok (snd (move_loop st q))" and "contents (snd (move_loop st q)) = contents q @ storage_contents st"
  using assms
proof (induction st q rule: move_loop.induct)
  case (1 st q)
  let ?q = "push_operation (en_operation (st_entries st ! st_cursor st)) q"
  {
    case 1
    then show ?case using "1.IH"(1) push_operation_ok(1)
      by (subst move_loop.simps) auto
  next
    case 2
    show ?case
    proof (cases "st_cursor st < length (st_entries st)")
      case True
      then have "storage_contents st = en_operation (st_entries st ! st_cursor st) #
          storage_contents (st\<lparr>st_cursor := st_cursor st + 1\<rparr>)"
        by (simp add: storage_contents_def Cons_nth_drop_Suc [symmetric])
      then show ?thesis using True 2 "1.IH"(2) push_operation_ok [OF 2] by (subst move_loop.simps) simp
    next
      case False
      then show ?thesis by (subst move_loop.simps) (simp add: storage_contents_def)
    qed
  }
qed

lemma queue_append_spec:
  assumes "queue_append q other = (q', other')" and "queue_ok q" and "queue_ok other"
  shows "queue_ok q' \<and> contents q' = contents q @ contents other \<and> queue_ok other' \<and> contents other' = []"
proof (cases "q_storage other")
  case None
  then show ?thesis using assms by (simp add: queue_append_def contents_def queue_storage_def)
next
  case (Some st)
  then have "queue_storage other = st" by (simp add: queue_storage_def)
  then show ?thesis
    using assms Some move_loop_spec [OF assms(2), of st]
    by (auto simp: queue_append_def contents_def queue_ok_def split: prod.splits)
qed

definition flags_ok :: "'v storage \<Rightarrow> bool" where
  "flags_ok st \<longleftrightarrow> (\<forall>en\<in>set (st_entries st). en_deferred en = operation_deferred (en_operation en))"

text \<open>The loop over the operations alone.\<close>

fun run_ops :: "'v component_trait \<Rightarrow> system_invocation option \<Rightarrow> 'v operation list \<Rightarrow> 'v world \<Rightarrow>
    'v command_queue option \<Rightarrow> 'v world option \<times> 'v command_queue option" where
  "run_ops ct owner [] W target = (Some W, target)"
| "run_ops ct owner (op # ops) W target =
     (case (if operation_deferred op then target else None) of
        Some q \<Rightarrow> run_ops ct owner ops W (Some (push_operation op q))
      | None \<Rightarrow> (case operation_apply ct owner op W of
          None \<Rightarrow> (None, target)
        | Some W' \<Rightarrow> run_ops ct owner ops W' target))"

lemma apply_loop_run_ops:
  "flags_ok st \<Longrightarrow> (case apply_loop ct owner st W target of (r, st', target') \<Rightarrow> (r, target')) =
     run_ops ct owner (storage_contents st) W target"
proof (induction ct owner st W target rule: apply_loop.induct)
  case (1 ct owner st W target)
  show ?case
  proof (cases "st_cursor st < length (st_entries st)")
    case False
    then show ?thesis by (subst apply_loop.simps) (simp add: storage_contents_def)
  next
    case True
    let ?en = "st_entries st ! st_cursor st"
    have cont: "storage_contents st = en_operation ?en # storage_contents (st\<lparr>st_cursor := st_cursor st + 1\<rparr>)"
      using True by (simp add: storage_contents_def Cons_nth_drop_Suc [symmetric])
    have flags: "flags_ok (st\<lparr>st_cursor := st_cursor st + 1\<rparr>)"
      and flag: "en_deferred ?en = operation_deferred (en_operation ?en)"
      using "1.prems" True by (simp_all add: flags_ok_def)
    show ?thesis
      unfolding cont run_ops.simps apply_loop.simps [of ct owner st W target]
      using "1.IH"(2) [OF True refl refl _ flags] "1.IH"(1) [OF True refl refl _ _ flags] True
      by (auto simp: Let_def flag split: option.split)
  qed
qed

lemma run_ops_now:
  "run_ops ct owner ops W None = (fold_opt (operation_apply ct owner) ops W, None)"
  by (induction ops arbitrary: W) (auto split: option.split)

lemma run_ops_defer:
  assumes "queue_ok t"
  shows "\<exists>t'. run_ops ct owner ops W (Some t) =
      (fold_opt (operation_apply ct owner) (filter (Not \<circ> operation_deferred) ops) W, Some t') \<and> queue_ok t'
    \<and> (fold_opt (operation_apply ct owner) (filter (Not \<circ> operation_deferred) ops) W \<noteq> None \<longrightarrow>
        contents t' = contents t @ filter operation_deferred ops)"
  using assms
proof (induction ops arbitrary: W t)
  case (Cons op ops)
  show ?case
  proof (cases "operation_deferred op")
    case True
    then show ?thesis
      using Cons.IH [OF push_operation_ok(1) [OF Cons.prems], of W op] push_operation_ok(2) [OF Cons.prems, of op]
      by auto
  next
    case False
    then show ?thesis using Cons.prems Cons.IH [OF Cons.prems]
      by (cases "operation_apply ct owner op W") auto
  qed
qed simp

lemma queue_ok_flags: "queue_ok q \<Longrightarrow> q_storage q = Some st \<Longrightarrow> flags_ok st \<and> queue_storage q = st"
  by (simp add: queue_ok_def flags_ok_def storage_ok_def queue_storage_def)

lemma apply_or_defer_run_ops:
  assumes "queue_ok q"
  shows "\<exists>q'. apply_or_defer ct owner W target q =
      (fst (run_ops ct owner (contents q) W target), snd (run_ops ct owner (contents q) W target), q')
    \<and> queue_ok q' \<and> contents q' = []"
proof (cases "q_storage q")
  case None
  then show ?thesis using assms
    by (simp add: apply_or_defer_def contents_def queue_storage_def)
next
  case (Some st)
  then show ?thesis
    using apply_loop_run_ops [of st ct owner W target] queue_ok_flags [OF assms Some]
    by (auto simp: apply_or_defer_def contents_def queue_ok_def split: prod.splits)
      (metis fst_conv snd_conv)+
qed

section \<open>Spawn bookkeeping\<close>

text \<open>Component writes leave the spawn slots and the id counter alone.\<close>

definition same_slots :: "'v world \<Rightarrow> 'v world \<Rightarrow> bool" where
  "same_slots W W' \<longleftrightarrow> w_spawns W' = w_spawns W \<and> w_cursors W' = w_cursors W \<and> w_next_entity W' = w_next_entity W"

lemma same_slots_refl [simp]: "same_slots W W"
  by (simp add: same_slots_def)

lemma same_slots_trans: "same_slots W W1 \<Longrightarrow> same_slots W1 W2 \<Longrightarrow> same_slots W W2"
  by (simp add: same_slots_def)

lemma remove_from_stores_slots: "same_slots W (snd (remove_from_stores e tys W))"
proof (induction e tys W rule: remove_from_stores.induct)
  case (2 e ty tys W)
  then show ?case by (auto simp: Let_def same_slots_def split: option.split prod.splits)
qed simp

lemma cleared_world_slots: "same_slots W (cleared_world e W)"
proof -
  have un: "same_slots V (unindex_all x rs V)" for x rs and V :: "'a world"
    by (induction rs arbitrary: V) (auto simp: same_slots_def split: option.split)
  obtain removed W1 where r: "remove_from_stores e (map fst (stores_list (w_stores W))) W = (removed, W1)"
    by (rule prod.exhaust)
  have "same_slots W W1" using remove_from_stores_slots [of W e] by (metis r snd_conv)
  also have "same_slots W1 (fold (\<lambda>(ty, _). log_write ty e) removed W1)" by (simp add: fold_log_fields same_slots_def)
  finally (same_slots_trans) have "same_slots W (unindex_all e removed (fold (\<lambda>(ty, _). log_write ty e) removed W1))"
    using un same_slots_trans by blast
  then show ?thesis by (simp add: cleared_world_def r Let_def same_slots_def w_presence_clear_def split: option.split)
qed

interpretation slots_books: book_relation ct same_slots for ct
proof
  show "same_slots W W'" if "register_singleton ty e W = Some W'" for W W' :: "'a world" and ty e
    using that by (auto simp: same_slots_def register_singleton_def split: option.splits if_splits)
  show "same_slots W W'" if "insert_entry ct ty e v owner W = (previous, W')" for W W' :: "'a world" and ty e v owner previous
    using insert_entry_fields [OF that] by (simp add: same_slots_def)
  show "same_slots W (cleared_world e W)" for W :: "'a world" and e by (rule cleared_world_slots)
qed (simp_all add: same_slots_def)

section \<open>Spawn ids across reruns\<close>

text \<open>
  A system's calls on its buffer, in order; they return the ids of the spawns.  The values may
  depend on ids that were returned earlier, so a theorem for all lists covers every system.
\<close>

datatype 'v buffer_call =
    CallInsert "'v component_bundle"
  | CallRemove entity
  | CallEntityInsert entity type_id "'v cvalue"
  | CallEntityRemove entity type_id

fun run_calls :: "'v buffer_call list \<Rightarrow> 'v command_buffer \<times> nat \<Rightarrow> entity list \<times> 'v command_buffer \<times> nat" where
  "run_calls [] s = ([], s)"
| "run_calls (CallInsert b # cs) s =
     (let (e, s') = commands_insert b s; (es, s'') = run_calls cs s' in (e # es, s''))"
| "run_calls (CallRemove e # cs) (B, n) = run_calls cs (commands_remove e B, n)"
| "run_calls (CallEntityInsert e ty v # cs) (B, n) = run_calls cs (entity_insert e ty v B, n)"
| "run_calls (CallEntityRemove e ty # cs) (B, n) = run_calls cs (entity_remove e ty B, n)"

primrec is_spawn :: "'v buffer_call \<Rightarrow> bool" where
  "is_spawn (CallInsert b) = True"
| "is_spawn (CallRemove e) = False"
| "is_spawn (CallEntityInsert e ty v) = False"
| "is_spawn (CallEntityRemove e ty) = False"

text \<open>
  The spawns among queued operations, with the ids they were given; what is recorded for a spawn
  is that id, except that a singleton bundle may resolve to the entity that carries the marker.
\<close>

definition spawn_of :: "'v operation \<Rightarrow> ('v component_bundle \<times> entity) option" where
  "spawn_of op = (case op of Derived (SpawnCommand b e) \<Rightarrow> Some (b, e) | _ \<Rightarrow> None)"

lemma spawn_of_simps [simp]:
  "spawn_of (Derived (SpawnCommand b e)) = Some (b, e)"
  "spawn_of (Derived (InsertCommand e ty v)) = None"
  "spawn_of (Derived (RemoveEntityCommand e)) = None"
  "spawn_of (Derived (RemoveComponentCommand ty e)) = None"
  "spawn_of (Base c) = None"
  by (simp_all add: spawn_of_def)

definition derived_ops :: "'v operation list \<Rightarrow> bool" where
  "derived_ops ops \<longleftrightarrow> (\<forall>op\<in>set ops. \<exists>c. op = Derived c)"

definition slot_for :: "'v component_bundle \<times> entity \<Rightarrow> entity \<Rightarrow> bool" where
  "slot_for spawn e \<longleftrightarrow> (bundle_singleton_key (fst spawn) = Some None \<longrightarrow> e = snd spawn)"

definition spawned_bundles :: "'v buffer_call list \<Rightarrow> 'v component_bundle list" where
  "spawned_bundles cs = List.map_filter (\<lambda>c. case c of CallInsert b \<Rightarrow> Some b | _ \<Rightarrow> None) cs"

definition reserved_ids :: "entity list \<Rightarrow> nat \<Rightarrow> nat \<Rightarrow> entity list" where
  "reserved_ids previous n k = take k previous @ [n..<n + (k - length previous)]"

lemma commands_insert_eq:
  "commands_insert b (B, n) =
     (if cb_spawn_cursor B < length (cb_spawn_slots B)
      then (cb_spawn_slots B ! cb_spawn_cursor B, B\<lparr>cb_spawn_cursor := cb_spawn_cursor B + 1,
           cb_ops := queue_push (SpawnCommand b (cb_spawn_slots B ! cb_spawn_cursor B)) (cb_ops B)\<rparr>, n)
      else (n, B\<lparr>cb_spawn_cursor := cb_spawn_cursor B + 1,
           cb_ops := queue_push (SpawnCommand b n) (cb_ops B)\<rparr>, n + 1))"
  by (simp add: commands_insert_def)

lemma run_calls_ids:
  "fst (run_calls cs (B, n)) =
     reserved_ids (drop (cb_spawn_cursor B) (cb_spawn_slots B)) n (length (filter is_spawn cs))"
proof (induction cs arbitrary: B n)
  case Nil
  then show ?case by (simp add: reserved_ids_def)
next
  case (Cons c cs)
  show ?case
  proof (cases c)
    case (CallInsert b)
    show ?thesis
    proof (cases "cb_spawn_cursor B < length (cb_spawn_slots B)")
      case True
      then show ?thesis
        by (simp add: CallInsert commands_insert_eq Cons.IH case_prod_beta reserved_ids_def Cons_nth_drop_Suc [symmetric])
    next
      case False
      then show ?thesis
        using upt_conv_Cons [of n "n + Suc (length (filter is_spawn cs))"]
        by (simp add: CallInsert commands_insert_eq Cons.IH case_prod_beta reserved_ids_def del: upt_Suc)
    qed
  qed (simp_all add: Cons.IH commands_remove_def entity_insert_def entity_remove_def)
qed

lemma run_calls_queue:
  assumes "queue_ok (cb_ops B)" and "derived_ops (contents (cb_ops B))" and "run_calls cs (B, n) = (es, B', n')"
  shows "queue_ok (cb_ops B') \<and> derived_ops (contents (cb_ops B')) \<and> length es = length (spawned_bundles cs)
    \<and> List.map_filter spawn_of (contents (cb_ops B')) = List.map_filter spawn_of (contents (cb_ops B)) @ zip (spawned_bundles cs) es"
  using assms
proof (induction cs arbitrary: B n es)
  case (Cons c cs)
  have push: "queue_ok q' \<and> derived_ops (contents q')
      \<and> List.map_filter spawn_of (contents q') = List.map_filter spawn_of (contents (cb_ops B)) @
          (case spawn_of (Derived d) of None \<Rightarrow> [] | Some e \<Rightarrow> [e])"
    if "q' = queue_push d (cb_ops B)" for d q'
    using push_operation_ok [OF Cons.prems(1), of "Derived d"] Cons.prems(2) that
    by (cases "spawn_of (Derived d)") (auto simp: queue_push_def derived_ops_def List.map_filter_def)
  show ?case
  proof (cases c)
    case (CallInsert b)
    obtain e B1 n1 where c: "commands_insert b (B, n) = (e, B1, n1)" by (cases "commands_insert b (B, n)") auto
    obtain es1 where r: "run_calls cs (B1, n1) = (es1, B', n')" "es = e # es1"
      using Cons.prems(3) c CallInsert by (auto split: prod.splits)
    have "cb_ops B1 = queue_push (SpawnCommand b e) (cb_ops B)"
      using c by (auto simp: commands_insert_eq split: if_splits)
    then show ?thesis
      using Cons.IH [OF _ _ r(1)] push [of "cb_ops B1" "SpawnCommand b e"] r(2)
      by (simp add: CallInsert spawned_bundles_def List.map_filter_simps)
  next
    case (CallRemove e)
    then show ?thesis using Cons.IH [of "commands_remove e B"] Cons.prems(3) push [OF refl, of "RemoveEntityCommand e"]
      by (simp add: commands_remove_def spawned_bundles_def List.map_filter_simps)
  next
    case (CallEntityInsert e ty v)
    then show ?thesis using Cons.IH [of "entity_insert e ty v B"] Cons.prems(3) push [OF refl, of "InsertCommand e ty v"]
      by (simp add: entity_insert_def spawned_bundles_def List.map_filter_simps)
  next
    case (CallEntityRemove e ty)
    then show ?thesis using Cons.IH [of "entity_remove e ty B"] Cons.prems(3) push [OF refl, of "RemoveComponentCommand ty e"]
      by (simp add: entity_remove_def spawned_bundles_def List.map_filter_simps)
  qed
qed (simp add: spawned_bundles_def List.map_filter_simps)

text \<open>What one operation does to the spawn bookkeeping of its invocation.\<close>

lemma command_apply_slots:
  assumes "command_apply ct c ow W = Some W'"
  shows "case c of
      SpawnCommand b reserved \<Rightarrow> \<exists>e. same_slots (record_derived_spawn ow e W) W'
        \<and> (bundle_singleton_key b = Some None \<longrightarrow> e = reserved)
    | _ \<Rightarrow> same_slots W W'"
proof (cases c)
  case (SpawnCommand b reserved)
  then obtain key where key: "bundle_singleton_key b = Some key"
    using assms by (auto elim!: bind_SomeE)
  obtain e W1 where e: "(case key of None \<Rightarrow> (reserved, W)
      | Some k \<Rightarrow> singleton_entity_or_register k reserved W) = (e, W1)" by (rule prod.exhaust)
  have "bundle_insert_derived ct b e ow (record_derived_spawn ow e W1) = Some W'"
    using assms SpawnCommand key e by (simp add: Let_def)
  moreover have "keeps same_slots (bundle_insert_derived ct b e ow)"
    unfolding bundle_insert_derived_def by (rule slots_books.keeps_fold) (auto simp: slots_books.world_ops_keep)
  ultimately have "same_slots (record_derived_spawn ow e W1) W'" by (rule keepsD [rotated])
  moreover have "same_slots (record_derived_spawn ow e W) (record_derived_spawn ow e W1)"
    using e by (auto simp: same_slots_def record_derived_spawn_def cursor_of_def spawn_slots_def Let_def
        singleton_entity_or_register_def split: option.splits)
  ultimately show ?thesis using SpawnCommand key e same_slots_trans by (auto split: option.splits)
qed (use assms in \<open>auto intro: keepsD [OF slots_books.world_ops_keep(2)] keepsD [OF slots_books.world_ops_keep(4)] slots_books.remove_entity_keeps\<close>)

text \<open>Spawns overwrite the slots from the cursor on.\<close>

definition recorded :: "system_invocation \<Rightarrow> nat \<Rightarrow> entity list \<Rightarrow> 'v world \<Rightarrow> bool" where
  "recorded ow c xs W \<longleftrightarrow> cursor_of W ow = c \<and> spawn_slots W ow = xs"

lemma recorded_cong: "same_slots W W' \<Longrightarrow> recorded ow c xs W' = recorded ow c xs W"
  by (simp add: recorded_def same_slots_def cursor_of_def spawn_slots_def)

lemma record_derived_spawn_recorded:
  "recorded ow c xs W \<Longrightarrow> c \<le> length xs \<Longrightarrow>
    recorded ow (c + 1) (take c xs @ e # drop (c + 1) xs) (record_derived_spawn ow e W)"
  by (auto simp: recorded_def record_derived_spawn_def Let_def cursor_of_def spawn_slots_def map_of_update
      upd_conv_take_nth_drop)

lemma apply_recorded:
  assumes "fold_opt (operation_apply ct (Some ow)) ops W = Some W'" and "derived_ops ops"
    and "recorded ow c xs W" and "c \<le> length xs"
  shows "\<exists>ys. list_all2 slot_for (List.map_filter spawn_of ops) ys
    \<and> recorded ow (c + length ys) (take c xs @ ys @ drop (c + length ys) xs) W'"
  using assms
proof (induction ops arbitrary: W c xs)
  case (Cons op ops)
  obtain W1 where W1: "operation_apply ct (Some ow) op W = Some W1"
    "fold_opt (operation_apply ct (Some ow)) ops W1 = Some W'"
    using Cons.prems(1) by (auto elim: bind_SomeE)
  obtain d where d: "op = Derived d" using Cons.prems(2) by (auto simp: derived_ops_def)
  have ops: "derived_ops ops" using Cons.prems(2) by (simp add: derived_ops_def)
  have step: "command_apply ct d ow W = Some W1" using W1(1) d by simp
  show ?case
  proof (cases "spawn_of op")
    case None
    then have "same_slots W W1"
      using command_apply_slots [OF step] by (auto simp: spawn_of_def d split: command_op.splits)
    then show ?thesis
      using Cons.IH [OF W1(2) ops _ Cons.prems(4)] Cons.prems(3) None
      by (simp add: recorded_cong List.map_filter_simps)
  next
    case (Some spawn)
    then obtain b e where op: "d = SpawnCommand b e" "spawn = (b, e)" by (auto simp: spawn_of_def d split: command_op.splits)
    obtain x where x: "same_slots (record_derived_spawn ow x W) W1" "slot_for (b, e) x"
      using command_apply_slots [OF step] by (auto simp: op slot_for_def)
    then have "recorded ow (c + 1) (take c xs @ x # drop (c + 1) xs) W1"
      using record_derived_spawn_recorded [OF Cons.prems(3,4)] by (simp add: recorded_cong)
    from Cons.IH [OF W1(2) ops this] obtain ys where "list_all2 slot_for (List.map_filter spawn_of ops) ys"
      "recorded ow (c + length (x # ys)) (take c xs @ (x # ys) @ drop (c + length (x # ys)) xs) W'"
      using Cons.prems(4) min_absorb2 [OF Cons.prems(4)] by (auto simp: add.commute)
    then show ?thesis using Some x(2) op(2) by (intro exI [of _ "x # ys"]) (simp add: List.map_filter_simps)
  qed
qed (simp add: List.map_filter_simps)

lemma finish_recorded:
  assumes "recorded ow c xs W"
  shows "spawn_slots (finish_derived_spawns ow W) ow = take c xs"
  using assms
  by (auto simp: recorded_def finish_derived_spawns_def Let_def cursor_of_def spawn_slots_def
      map_of_update map_of_delete_fun split: option.splits)

section \<open>Properties\<close>

text \<open>
  Applying a queue runs its operations in the order they were pushed, except that those
  held back at settle are moved, in order, to the queue that takes them.  The drained queue is
  empty afterwards, also when an operation panics.
\<close>

theorem apply_or_defer_splits:
  assumes "queue_ok q" and "queue_ok t"
  shows "\<exists>t' q'. apply_or_defer ct owner W (Some t) q =
      (fold_opt (operation_apply ct owner) (filter (Not \<circ> operation_deferred) (contents q)) W, Some t', q')
    \<and> queue_is_empty q'
    \<and> (fold_opt (operation_apply ct owner) (filter (Not \<circ> operation_deferred) (contents q)) W \<noteq> None \<longrightarrow>
        contents t' = contents t @ filter operation_deferred (contents q))"
proof -
  obtain q' where q': "apply_or_defer ct owner W (Some t) q = (fst (run_ops ct owner (contents q) W (Some t)),
      snd (run_ops ct owner (contents q) W (Some t)), q')" "queue_ok q'" "contents q' = []"
    using apply_or_defer_run_ops [OF assms(1)] by blast
  then show ?thesis
    using run_ops_defer [OF assms(2), of ct owner "contents q" W] queue_len_contents(2) [OF q'(2)] by auto
qed

lemma queue_apply_eq:
  assumes "queue_ok q"
  shows "\<exists>q'. queue_apply ct owner W q = (fold_opt (operation_apply ct owner) (contents q) W, q')
    \<and> queue_is_empty q'"
proof -
  obtain q' where q': "apply_or_defer ct owner W None q = (fst (run_ops ct owner (contents q) W None),
      snd (run_ops ct owner (contents q) W None), q')" "queue_ok q'" "contents q' = []"
    using apply_or_defer_run_ops [OF assms(1)] by blast
  then show ?thesis
    using queue_len_contents(2) [OF q'(2)] by (simp add: queue_apply_def run_ops_now)
qed

text \<open>
Moving operations between queues keeps them: a bundle queued on one queue and then
  appended to another is applied there after what that queue already held, component by
  component, exactly as inserting the components directly; the queue it came from is empty.
\<close>

lemma bundle_queue_contents:
  assumes "queue_ok q"
  shows "queue_ok (bundle_queue b e q)"
    and "contents (bundle_queue b e q) = contents q @ map (\<lambda>(ty, v). Base (InsertBaseCommand e ty v)) b"
proof -
  have "queue_ok (bundle_queue b e q) \<and>
    contents (bundle_queue b e q) = contents q @ map (\<lambda>(ty, v). Base (InsertBaseCommand e ty v)) b"
    using assms
  proof (induction b arbitrary: q)
    case (Cons p b)
    then show ?case
      using Cons.IH [OF push_operation_ok(1) [OF Cons.prems], of "Base (InsertBaseCommand e (fst p) (snd p))"]
        push_operation_ok(2) [OF Cons.prems, of "Base (InsertBaseCommand e (fst p) (snd p))"]
      by (simp add: bundle_queue_def base_push_def case_prod_beta)
  qed (simp add: bundle_queue_def)
  then show "queue_ok (bundle_queue b e q)"
    "contents (bundle_queue b e q) = contents q @ map (\<lambda>(ty, v). Base (InsertBaseCommand e ty v)) b"
    by blast+
qed

lemma queue_default_ok [simp]: "queue_ok queue_default" "contents queue_default = []"
  by (simp_all add: queue_ok_def contents_def queue_storage_def queue_default_def)

theorem appended_bundle_roundtrip:
  assumes "queue_ok q"
  shows "\<exists>q' other. queue_append q (bundle_queue b e queue_default) = (q', other) \<and> queue_is_empty other
    \<and> queue_len q' = queue_len q + length b
    \<and> fst (queue_apply ct owner W q') =
        Option.bind (fst (queue_apply ct owner W q)) (fold_opt (\<lambda>(ty, v). insert_base ct ty e v) b)"
proof -
  note bq = bundle_queue_contents [OF queue_default_ok(1), of b e]
  obtain q' other where a: "queue_append q (bundle_queue b e queue_default) = (q', other)" by (rule prod.exhaust)
  note ap = queue_append_spec [OF a assms bq(1)]
  have fold: "fold_opt (operation_apply ct owner) (map (\<lambda>(ty, v). Base (InsertBaseCommand e ty v)) b) =
      fold_opt (\<lambda>(ty, v). insert_base ct ty e v) b"
  proof (induction b)
    case (Cons p b)
    then show ?case by (cases p) (intro ext, simp)
  qed (simp add: fun_eq_iff)
  have "fst (queue_apply ct owner W q') = Option.bind (fold_opt (operation_apply ct owner) (contents q) W)
      (fold_opt (\<lambda>(ty, v). insert_base ct ty e v) b)"
    using queue_apply_eq [of q' ct owner W] ap by (auto simp: bq(2) fold_opt_append fold)
  then show ?thesis
    using ap a queue_apply_eq [OF assms, of ct owner W] queue_len_contents [of q'] queue_len_contents [of other]
      queue_len_contents(1) [OF assms] by (auto simp: bq(2))
qed


section \<open>The pool\<close>

definition pool_ok :: "'v pool \<Rightarrow> bool" where
  "pool_ok P \<longleftrightarrow> set (pool_returned P) \<union> set (pool_free P) \<subseteq> {storage_default}"

lemma storage_clear_default [simp]: "storage_clear st = storage_default"
  by (simp add: storage_clear_def storage_default_def)

lemma pool_ok_steps:
  "pool_ok pool_default"
  "pool_ok P \<Longrightarrow> pool_ok (queue_drop q P)"
  "pool_ok P \<Longrightarrow> pool_take P = (q, P') \<Longrightarrow> pool_ok P' \<and> queue_ok q \<and> contents q = []"
proof -
  show "pool_ok pool_default" by (simp add: pool_ok_def pool_default_def)
  show "pool_ok P \<Longrightarrow> pool_ok (queue_drop q P)"
    by (auto simp: pool_ok_def queue_drop_def split: option.split)
  assume P: "pool_ok P" "pool_take P = (q, P')"
  let ?free = "pool_free P @ pool_returned P"
  have all: "set ?free \<subseteq> {storage_default}" using P(1) by (auto simp: pool_ok_def)
  show "pool_ok P' \<and> queue_ok q \<and> contents q = []"
  proof (cases "?free = []")
    case True
    then show ?thesis using P(2)
      by (auto simp: pool_take_def pool_ok_def queue_ok_def contents_def queue_storage_def)
  next
    case False
    then have "last ?free = storage_default" "set (butlast ?free) \<subseteq> {storage_default}"
      using all last_in_set [OF False] in_set_butlastD [of _ ?free] by blast+
    then show ?thesis using P(2) False
      by (auto simp: pool_take_def Let_def pool_ok_def queue_ok_def contents_def queue_storage_def split: if_splits)
  qed
qed

text \<open>A driver leases queues, fills them and drops them, in any order and with any content.\<close>

datatype 'v pool_action = PoolTake | PoolDrop "'v command_queue"

primrec pool_step :: "'v pool_action \<Rightarrow> 'v pool \<Rightarrow> 'v pool" where
  "pool_step PoolTake P = snd (pool_take P)"
| "pool_step (PoolDrop q) P = queue_drop q P"

text \<open>
  A leased queue starts empty: whatever was leased, filled and dropped before, also with
  operations still in it, the queue that the pool hands out next holds no operation.
\<close>

theorem leased_queue_empty:
  "queue_is_empty (fst (pool_take (fold pool_step as pool_default)))"
proof -
  have "pool_ok (fold pool_step as P)" if "pool_ok P" for P :: "'a pool"
    using that
  proof (induction as arbitrary: P)
    case (Cons a as)
    have "pool_ok (pool_step a P)"
      by (cases a) (use Cons.prems pool_ok_steps(2) pool_ok_steps(3) [of P "fst (pool_take P)" "snd (pool_take P)"] in auto)
    then show ?case using Cons.IH by simp
  qed simp
  then have ok: "pool_ok (fold pool_step as pool_default)" using pool_ok_steps(1) by blast
  obtain q P' where "pool_take (fold pool_step as pool_default) = (q, P')" by (rule prod.exhaust)
  then show ?thesis using pool_ok_steps(3) [OF ok] queue_len_contents(2) by fastforce
qed

section \<open>Witnesses\<close>

definition demo_queue :: "nat user_value command_queue" where
  "demo_queue = queue_push (InsertCommand 4 (UserTy 0) (demo_plain 7))
     (queue_push (RemoveComponentCommand (UserTy 0) 1) queue_default)"

lemma demo_queue_ok: "queue_ok demo_queue"
  and demo_queue_contents: "contents demo_queue =
    [Derived (RemoveComponentCommand (UserTy 0) 1), Derived (InsertCommand 4 (UserTy 0) (demo_plain 7))]"
  by (simp_all add: demo_queue_def queue_push_def push_operation_ok)

theorem apply_or_defer_splits_witness:
  "\<exists>t' q'. apply_or_defer demo_trait (Some demo_owner) demo_world (Some queue_default) demo_queue =
      (remove_component demo_trait (UserTy 0) 1 (Some demo_owner) demo_world, Some t', q')
    \<and> queue_is_empty q' \<and> contents t' = [Derived (InsertCommand 4 (UserTy 0) (demo_plain 7))]"
proof -
  have "remove_component demo_trait (UserTy 0) 1 (Some demo_owner) demo_world \<noteq> None"
    unfolding demo_world_def by code_simp
  then obtain V where "remove_component demo_trait (UserTy 0) 1 (Some demo_owner) demo_world = Some V" by auto
  then show ?thesis
    using apply_or_defer_splits [OF demo_queue_ok queue_default_ok(1), of demo_trait "Some demo_owner" demo_world]
    by (auto simp: demo_queue_contents)
qed

theorem appended_bundle_roundtrip_witness:
  "\<exists>q' other. queue_append demo_queue (bundle_queue [(UserTy 0, demo_plain 1), (UserTy 3, demo_plain 2)] 5 queue_default) = (q', other)
    \<and> queue_is_empty other \<and> queue_len q' = 4"
  using appended_bundle_roundtrip [OF demo_queue_ok, where b = "[(UserTy 0, demo_plain 1), (UserTy 3, demo_plain 2)]"
      and e = 5 and ct = demo_trait and owner = None and W = demo_world]
    queue_len_contents(1) [OF demo_queue_ok] by (auto simp: demo_queue_contents)

definition demo_calls :: "nat user_value buffer_call list" where
  "demo_calls = [CallInsert [(UserTy 0, demo_plain 1)], CallInsert [(UserTy 3, demo_plain 2)],
     CallEntityInsert 10 (UserTy 3) (demo_plain 3)]"

text \<open>An invocation that spawned one entity at id 20 now spawns two.\<close>

definition demo_spawned :: "nat user_value world" where
  "demo_spawned = world_new\<lparr>w_spawns := [(demo_owner, [20])]\<rparr>"


end
