(* ===== verification/World_Relations.thy ===== *)
theory World_Relations
  imports World_Props
begin

text \<open>
  Relations between an earlier and a later world.  A relation that every primitive step of the
  world respects (filling or dropping an entry, clearing an entity, an in-place write, rolling
  the log) holds along every operation and every run of the engine; the locale proves this once,
  for whatever is to be carried from an observation to a later one.
\<close>

section \<open>Runs of the engine\<close>

definition commit_write :: "'v component_trait \<Rightarrow> type_id \<Rightarrow> entity \<Rightarrow> 'v cvalue \<Rightarrow> 'v world \<Rightarrow> 'v world" where
  "commit_write ct ty e v W = reconcile_written ct [(ty, e)] (write_cell ty e v W)"


inductive engine_step :: "'v component_trait \<Rightarrow> 'v world_state \<Rightarrow> 'v world_state \<Rightarrow> bool" for ct where
  es_op: "world_op ct s s' \<Longrightarrow> engine_step ct s s'"
| es_write: "engine_step ct (X, W) (X, commit_write ct ty e v W)"

inductive engine_run :: "'v component_trait \<Rightarrow> 'v world_state \<Rightarrow> 'v world_state \<Rightarrow> bool" for ct where
  run_refl: "engine_run ct s s"
| run_step: "engine_run ct s s' \<Longrightarrow> engine_step ct s' s'' \<Longrightarrow> engine_run ct s s''"

lemma engine_step_reachable: "engine_step ct s s' \<Longrightarrow> reachable ct s \<Longrightarrow> reachable ct s'"
proof (erule engine_step.cases)
  fix X W ty e v assume "s = (X, W)" "s' = (X, commit_write ct ty e v W)" "reachable ct s"
  then have "reachable ct (X, write_cell ty e v W)" by (auto intro: reach_step ws_write)
  then show "reachable ct s'"
    using \<open>s' = _\<close> by (auto simp: commit_write_def intro: reach_step ws_op ws_reconcile)
qed (auto intro: reach_step ws_op)


section \<open>The interface\<close>

text \<open>The operations that keep the stores well formed and the relation.\<close>

definition carries :: "('v world \<Rightarrow> 'v world \<Rightarrow> bool) \<Rightarrow> ('v world \<Rightarrow> 'v world option) \<Rightarrow> bool" where
  "carries R f \<longleftrightarrow> (\<forall>W W'. stores_inv W \<longrightarrow> f W = Some W' \<longrightarrow> stores_inv W' \<and> R W W')"

lemma carriesD: "carries R f \<Longrightarrow> stores_inv W \<Longrightarrow> f W = Some W' \<Longrightarrow> stores_inv W' \<and> R W W'"
  unfolding carries_def by blast

lemma insert_entry_stores:
  assumes inv: "stores_inv W" and ins: "insert_entry ct ty e v owner W = (previous, W')"
  shows "stores_inv W'"
proof -
  note f = insert_entry_fields [OF ins]
  let ?en = "inserted_entry ct ty e v owner W"
  obtain revision r' where r: "insert_revision ct ty (entry_of W ty e) (fingerprint ct ty v) (w_revision W)
      = (revision, r')" by (rule prod.exhaust)
  have old: "ce_revision p \<le> w_revision W" if "entry_of W ty e = Some p" for p
    using stores_inv_entry_revision [OF inv that] by linarith
  note b = insert_revision_bounds [OF r old]
  have r': "w_revision W' = r'" "ce_revision ?en = revision" by (simp_all add: f(3) r inserted_entry_def)
  show ?thesis
  proof (rule stores_inv_put [OF inv f(2)])
    show "w_revision W \<le> w_revision W'" using b r' by simp
    have "store_ok (w_revision W) (stores_get_or_insert ty (w_stores W))"
      using inv by (simp add: stores_get_or_insert_def stores_inv_def split: option.split)
    then show "store_ok (w_revision W') (snd (store_insert e ?en (stores_get_or_insert ty (w_stores W))))"
      using b r' by (intro store_insert_ok) auto
  qed
qed

lemma cleared_world_stores: "stores_inv W \<Longrightarrow> stores_inv (cleared_world e W)"
proof -
  assume inv: "stores_inv W"
  have wf: "stores_wf (w_stores W)" using inv by (simp add: stores_inv_def)
  obtain removed W1 where r: "remove_from_stores e (map fst (stores_list (w_stores W))) W = (removed, W1)"
    by (rule prod.exhaust)
  have "stores_inv W1" using remove_from_stores_spec [OF r inv table.listing_distinct [OF wf]] by blast
  then show ?thesis
    by (rule stores_inv_cong [rotated 2])
      (simp_all add: cleared_world_def r Let_def w_presence_clear_def unindex_all_fields fold_log_fields)
qed

lemma reconcile_row_stores: "stores_inv W \<Longrightarrow> stores_inv (reconcile_row ct row W)"
proof -
  assume inv: "stores_inv W"
  obtain ty e where row: "row = (ty, e)" by (cases row)
  show ?thesis
  proof (cases "stores_get ty (w_stores W)")
    case None
    then show ?thesis using inv by (simp add: reconcile_row_def row)
  next
    case (Some s)
    obtain s' r' where r: "reconcile_entry ct ty e (w_revision W) s = (s', r')" by (rule prod.exhaust)
    have sok: "store_ok (w_revision W) s" using inv Some by (auto simp: stores_inv_def)
    have W': "reconcile_row ct row W = log_write ty e ((put_store ty s' W)\<lparr>w_revision := r'\<rparr>)"
      by (simp add: reconcile_row_def row Some r)
    have f: "store_ok r' s' \<and> w_revision W \<le> r'"
    proof (cases "map_of (entries s) e")
      case None
      then show ?thesis using r sok by (auto simp: reconcile_entry_def)
    next
      case en: (Some en)
      show ?thesis using reconcile_entryD(1,4) [OF en r refl] sok by auto
    qed
    show ?thesis by (rule stores_inv_put [OF inv, of _ ty s']) (simp_all add: W' f)
  qed
qed

lemma write_cell_stores:
  assumes inv: "stores_inv W"
  shows "stores_inv (write_cell ty e v W)"
proof (cases "\<exists>s en. stores_get ty (w_stores W) = Some s \<and> map_of (entries s) e = Some en")
  case True
  then obtain s en where s: "stores_get ty (w_stores W) = Some s" "map_of (entries s) e = Some en" by blast
  then have "store_ok (w_revision W) (s\<lparr>entries := AList.update e (en\<lparr>ce_value := v\<rparr>) (entries s)\<rparr>)"
    using inv store_value_ok [of _ s e en v] by (auto simp: stores_inv_def)
  then show ?thesis using s by (intro stores_inv_put [OF inv]) (auto simp: write_cell_def)
next
  case False
  then have "write_cell ty e v W = W" by (auto simp: write_cell_def split: option.split)
  then show ?thesis using inv by simp
qed

text \<open>What an in-place update leaves behind.\<close>

lemma try_update_shape:
  assumes up: "try_update_component_live ct ty e held f W = Applied changed W'"
  obtains s en s1 where "stores_get ty (w_stores W) = Some s" and "map_of (entries s) e = Some en"
    and "changed = (tracked ct ty \<and> (ce_fingerprint en = None \<or> ce_fingerprint en \<noteq> fingerprint ct ty (f (ce_value en))))"
    and "map_of (entries s1) = (map_of (entries s))(e \<mapsto> en\<lparr>ce_value := f (ce_value en), ce_fingerprint := fingerprint ct ty (f (ce_value en)),
        ce_revision := if changed then w_revision W + 1 else ce_revision en\<rparr>)"
    and "watermark s1 = (if changed then max (watermark s) (w_revision W + 1) else watermark s)"
    and "w_stores W' = stores_put ty s1 (w_stores W)" and "w_revision W' = (if changed then w_revision W + 1 else w_revision W)"
proof -
  obtain s en where s: "stores_get ty (w_stores W) = Some s" "map_of (entries s) e = Some en"
    and ch: "changed = (tracked ct ty \<and> (ce_fingerprint en = None \<or> ce_fingerprint en \<noteq> fingerprint ct ty (f (ce_value en))))"
    and W': "W' = (let s1 = reindex e (ce_fingerprint en) (fingerprint ct ty (f (ce_value en)))
               (s\<lparr>entries := AList.update e (en\<lparr>ce_value := f (ce_value en), ce_fingerprint := fingerprint ct ty (f (ce_value en)),
                  ce_revision := if changed then w_revision W + 1 else ce_revision en\<rparr>) (entries s)\<rparr>);
             W1 = put_store ty (if changed then bump_watermark (w_revision W + 1) s1 else s1) W
         in if changed then (log_write ty e W1)\<lparr>w_revision := w_revision W + 1\<rparr> else W1)"
    using up by (rule try_updateE)
  define s0 where "s0 = reindex e (ce_fingerprint en) (fingerprint ct ty (f (ce_value en)))
      (s\<lparr>entries := AList.update e (en\<lparr>ce_value := f (ce_value en), ce_fingerprint := fingerprint ct ty (f (ce_value en)),
         ce_revision := if changed then w_revision W + 1 else ce_revision en\<rparr>) (entries s)\<rparr>)"
  define s1 where "s1 = (if changed then bump_watermark (w_revision W + 1) s0 else s0)"
  have W'': "W' = (let W1 = put_store ty s1 W in if changed then (log_write ty e W1)\<lparr>w_revision := w_revision W + 1\<rparr> else W1)"
    unfolding W' s0_def s1_def Let_def by (rule refl)
  show thesis
    by (rule that [OF s ch, of s1]) (simp_all add: W'' Let_def s1_def s0_def map_of_update)
qed

locale world_relation =
  fixes ct :: "'v component_trait" and R :: "'v world \<Rightarrow> 'v world \<Rightarrow> bool"
  assumes rel_trans: "R W W1 \<Longrightarrow> R W1 W2 \<Longrightarrow> R W W2"
    and rel_frame: "w_stores W' = w_stores W \<Longrightarrow> w_revision W' = w_revision W \<Longrightarrow> w_log W' = w_log W \<Longrightarrow>
      w_plan_epoch W' = w_plan_epoch W \<Longrightarrow> R W W'"
    and rel_insert: "stores_inv W \<Longrightarrow> insert_entry ct ty e v owner W = (previous, W') \<Longrightarrow> R W W'"
    and rel_drop: "stores_inv W \<Longrightarrow> stores_get ty (w_stores W) = Some s \<Longrightarrow> store_remove e s = Some (en, s') \<Longrightarrow>
      R W (drop_entry ty e s' W)"
    and rel_clear: "stores_inv W \<Longrightarrow> R W (cleared_world e W)"
    and rel_update: "stores_inv W \<Longrightarrow> try_update_component_live ct ty e held f W = Applied changed W' \<Longrightarrow> R W W'"
    and rel_reconcile: "stores_inv W \<Longrightarrow> R W (reconcile_row ct row W)"
    and rel_write: "stores_inv W \<Longrightarrow> R W (commit_write ct ty e v W)"
    and rel_roll: "maybe_roll_plan_epoch W = Some (old, W') \<Longrightarrow> R W W'"
begin

lemma rel_refl [simp]: "R W W"
  by (rule rel_frame) simp_all

lemma carries_cong:
  "stores_inv W \<Longrightarrow> w_stores W' = w_stores W \<Longrightarrow> w_revision W' = w_revision W \<Longrightarrow> w_log W' = w_log W \<Longrightarrow>
    w_plan_epoch W' = w_plan_epoch W \<Longrightarrow> stores_inv W' \<and> R W W'"
  by (simp add: rel_frame stores_inv_cong [of W' W])

lemma carries_trans:
  "R W W1 \<Longrightarrow> stores_inv W2 \<and> R W1 W2 \<Longrightarrow> stores_inv W2 \<and> R W W2"
  by (blast intro: rel_trans)

lemma carries_fold: "(\<And>x. carries R (f x)) \<Longrightarrow> carries R (fold_opt f xs)"
proof (induction xs)
  case (Cons x xs)
  show ?case
    unfolding carries_def fold_opt.simps
  proof (intro allI impI)
    fix W W' assume "stores_inv W" "Option.bind (f x W) (fold_opt f xs) = Some W'"
    moreover from this(2) obtain W1 where "f x W = Some W1" "fold_opt f xs W1 = Some W'" by (rule bind_SomeE)
    ultimately show "stores_inv W' \<and> R W W'"
      using carriesD [OF Cons.prems] carriesD [OF Cons.IH [OF Cons.prems]] carries_trans by blast
  qed
qed (simp add: carries_def)

lemma insert_entry_carries:
  assumes "stores_inv W" and "insert_entry ct ty e v owner W = (previous, W')"
  shows "stores_inv W' \<and> R W W'"
  using insert_entry_stores [OF assms] rel_insert [OF assms] by blast

lemma insert_value_carries:
  assumes "\<And>iv s t. carries R (add iv s t)" and "\<And>iv s t. carries R (remove iv s t)"
  shows "carries R (insert_value add remove ct ty e v owner)"
  unfolding carries_def
proof (intro allI impI)
  fix W W' assume inv: "stores_inv W" and "insert_value add remove ct ty e v owner W = Some W'"
  then obtain W0 previous W1 where reg: "register_singleton ty e W = Some W0"
    and ie: "insert_entry ct ty e v owner W0 = (previous, W1)"
    and rest: "W' = W1 \<or> (\<exists>W2. (W2 = W1 \<or> (\<exists>iv t. remove iv e t W1 = Some W2))
       \<and> (W' = W2 \<or> (\<exists>iv t. add iv e t W2 = Some W')))"
    using insert_valueE by blast
  have W0: "stores_inv W0 \<and> R W W0"
    by (rule carries_cong [OF inv]) (use reg in \<open>auto simp: register_singleton_def split: option.splits if_splits\<close>)
  have W1: "stores_inv W1 \<and> R W0 W1" using insert_entry_carries W0 ie by blast
  have "stores_inv W' \<and> R W1 W'"
  proof (cases "W' = W1")
    case False
    then obtain W2 where 2: "W2 = W1 \<or> (\<exists>iv t. remove iv e t W1 = Some W2)"
      "W' = W2 \<or> (\<exists>iv t. add iv e t W2 = Some W')" using rest by blast
    then have "stores_inv W2 \<and> R W1 W2" using carriesD [OF assms(2)] W1 by auto
    then show ?thesis using 2(2) carriesD [OF assms(1)] carries_trans by blast
  qed (use W1 in simp)
  then show "stores_inv W' \<and> R W W'" using W0 W1 carries_trans by blast
qed

lemma insert_body_carries:
  assumes "\<And>iv s t. carries R (add iv s t)" and "\<And>iv s t. carries R (remove iv s t)"
  shows "carries R (insert_body add remove ct ty e v owner)"
  unfolding carries_def
proof (intro allI impI)
  fix W W' assume inv: "stores_inv W" and ins: "insert_body add remove ct ty e v owner W = Some W'"
  consider v' where "insert_value add remove ct ty e v' owner W = Some W'"
    | "w_stores W' = w_stores W" "w_revision W' = w_revision W" "w_log W' = w_log W" "w_plan_epoch W' = w_plan_epoch W"
    using ins by (auto simp: insert_body_def split: cvalue.splits if_splits)
  then show "stores_inv W' \<and> R W W'"
    using carriesD [OF insert_value_carries [where add = add and remove = remove, OF assms] inv]
      carries_cong [OF inv] by cases blast+
qed

lemma remove_body_carries:
  assumes "\<And>iv s t. carries R (remove iv s t)"
  shows "carries R (remove_body remove ct ty e remover)"
  unfolding carries_def
proof (intro allI impI)
  fix W W' assume inv: "stores_inv W" and rb: "remove_body remove ct ty e remover W = Some W'"
  show "stores_inv W' \<and> R W W'"
  proof (cases "\<exists>s en s'. stores_get ty (w_stores W) = Some s \<and> store_remove e s = Some (en, s')")
    case False
    then show ?thesis using rb inv by (auto simp: remove_body_eq split: option.splits prod.splits)
  next
    case True
    then obtain s en s' where s: "stores_get ty (w_stores W) = Some s" "store_remove e s = Some (en, s')" by blast
    let ?D = "drop_entry ty e s' W" and ?R = "removed_world ty e remover en s' W"
    have "stores_inv ?D" by (rule drop_entry_spec(3) [OF inv s])
    then have "stores_inv ?R \<and> R ?D ?R" by (rule carries_cong) (simp_all add: drop_entry_def Let_def)
    then have R: "stores_inv ?R \<and> R W ?R"
      using carries_trans [OF rel_drop [OF inv s]] by blast
    have "W' = ?R \<or> (\<exists>iv t. remove iv e t ?R = Some W')"
      using rb by (auto simp: remove_body_eq s split: option.splits)
    then show ?thesis using R carriesD [OF assms] carries_trans by blast
  qed
qed

lemma maintainer_carries:
  assumes "\<And>ty e v owner. carries R (ins ty e v owner)" and "\<And>ty e remover. carries R (rem ty e remover)"
  shows "carries R (relationship_add_member ins ct iv s t)"
    and "carries R (relationship_remove_member ins rem ct iv s t)"
proof -
  have "W' = W \<or> (\<exists>x. ins (UserTy iv) t x None W = Some W')"
    if "relationship_add_member ins ct iv s t W = Some W'" for W W'
    using that by (auto simp: relationship_add_member_def Let_def split: sum.splits)
  then show "carries R (relationship_add_member ins ct iv s t)"
    using carriesD [OF assms(1)] unfolding carries_def by (blast intro: rel_refl)
  have "W' = W \<or> (\<exists>x. ins (UserTy iv) t x None W = Some W') \<or> rem (UserTy iv) t None W = Some W'"
    if "relationship_remove_member ins rem ct iv s t W = Some W'" for W W'
    using that by (auto simp: relationship_remove_member_def Let_def split: sum.splits option.splits if_splits)
  then show "carries R (relationship_remove_member ins rem ct iv s t)"
    using carriesD [OF assms(1)] carriesD [OF assms(2)] unfolding carries_def by (blast intro: rel_refl)
qed

lemma insert_at_carries: "carries R (insert_at n ct ty e v owner)" "carries R (remove_at n ct ty e remover)"
proof (induction n arbitrary: ty e v owner remover)
  case 0
  show "carries R (insert_at 0 ct ty e v owner)" "carries R (remove_at 0 ct ty e remover)" for ty e v owner remover
    by (simp_all add: carries_def)
next
  case (Suc n)
  note m = maintainer_carries [where ins = "insert_at n ct" and rem = "remove_at n ct", OF Suc.IH]
  show "carries R (insert_at (Suc n) ct ty e v owner)" for ty e v owner
    unfolding insert_at.simps by (rule insert_body_carries [OF m(1) m(2)])
  show "carries R (remove_at (Suc n) ct ty e remover)" for ty e remover
    unfolding remove_at.simps by (rule remove_body_carries [OF m(2)])
qed

lemma world_ops_carry:
  "carries R (world_insert ct ty e v owner)" "carries R (remove_component ct ty e remover)"
  "carries R (remove_member ct iv s t)"
  unfolding world_insert_def remove_component_def remove_member_def
  by (rule insert_at_carries maintainer_carries(2) [OF insert_at_carries])+

lemma flush_carries: "carries R (flush_derived_from ct)"
  unfolding carries_def
proof (intro allI impI)
  fix W W' assume inv: "stores_inv W" and fl: "flush_derived_from ct W = Some W'"
  let ?f = "\<lambda>(e, anchors, owner). world_insert ct DerivedFromTy e (DerivedFromV anchors) owner"
  show "stores_inv W' \<and> R W W'"
  proof (cases "w_pending W = []")
    case False
    let ?W0 = "W\<lparr>w_pending := [], w_flushing := True\<rparr>"
    from fl False obtain W1 where f: "fold_opt ?f (w_pending W) ?W0 = Some W1" and W': "W' = W1\<lparr>w_flushing := False\<rparr>"
      by (auto simp: flush_derived_from_def split: Option.bind_splits)
    have 0: "stores_inv ?W0 \<and> R W ?W0" by (rule carries_cong [OF inv]) simp_all
    have "carries R (fold_opt ?f (w_pending W))" by (rule carries_fold) (auto simp: world_ops_carry)
    then have 1: "stores_inv W1 \<and> R ?W0 W1" using carriesD 0 f by blast
    have "stores_inv W' \<and> R W1 W'" unfolding W' by (rule carries_cong) (use 1 in simp_all)
    then show ?thesis using 0 1 carries_trans by blast
  qed (use fl inv in \<open>simp add: flush_derived_from_def\<close>)
qed

lemma remove_derived_entry_carries:
  assumes inv: "stores_inv W" and rd: "remove_derived_entry ct ty e owner W = Some (hit, W')"
  shows "stores_inv W' \<and> R W W'"
proof (cases "W' = W")
  case False
  then obtain s s' where s: "stores_get ty (w_stores W) = Some s" "remove_entry_owned e owner s = Some s'"
    and rest: "W' = drop_entry ty e s' W \<or> (\<exists>iv t. remove_member ct iv e t (drop_entry ty e s' W) = Some W')"
    using rd by (auto simp: remove_derived_entry_def Let_def split: option.splits)
  obtain en where "store_remove e s = Some (en, s')" using s(2) unfolding remove_entry_owned_iff by blast
  then have "stores_inv (drop_entry ty e s' W) \<and> R W (drop_entry ty e s' W)"
    using drop_entry_spec(3) [OF inv s(1)] rel_drop [OF inv s(1)] by blast
  then show ?thesis using rest carriesD [OF world_ops_carry(3)] carries_trans by blast
qed (use inv in simp)

lemma sweep_carries:
  "sweep ct owner os W = Some (es, W') \<Longrightarrow> stores_inv W \<Longrightarrow> stores_inv W' \<and> R W W'"
proof (induction os arbitrary: W es)
  case (Cons row os)
  obtain ty e where row: "row = (ty, e)" by (cases row)
  from Cons.prems(1) obtain hit W1 es1 where
    r: "remove_derived_entry ct ty e owner W = Some (hit, W1)" and sw: "sweep ct owner os W1 = Some (es1, W')"
    by (auto simp: row split: Option.bind_splits)
  then show ?case
    using remove_derived_entry_carries [OF Cons.prems(2) r] Cons.IH [OF sw] carries_trans by blast
qed simp

lemma remove_derived_stale_carries:
  "remove_derived_stale ct owner previous W = Some W' \<Longrightarrow> stores_inv W \<Longrightarrow> stores_inv W' \<and> R W W'"
proof (induction previous arbitrary: W)
  case (Cons row previous)
  obtain ty e where row: "row = (ty, e)" by (cases row)
  show ?case
  proof (cases "(ty, e) \<in> set (outputs_of W owner)")
    case False
    then obtain hit W1 where r: "remove_derived_entry ct ty e owner W = Some (hit, W1)"
      and rest: "remove_derived_stale ct owner previous W1 = Some W'"
      using Cons.prems(1) by (auto simp: row split: Option.bind_splits)
    then show ?thesis
      using remove_derived_entry_carries [OF Cons.prems(2) r] Cons.IH [OF rest] carries_trans by blast
  qed (use Cons row in simp)
qed simp

lemma take_and_sweep_carries:
  assumes inv: "stores_inv W" and sw: "sweep ct owner os (W\<lparr>w_spawns := sp, w_owners := ow\<rparr>) = Some (es, W')"
  shows "stores_inv W' \<and> R W W'"
proof -
  have 0: "stores_inv (W\<lparr>w_spawns := sp, w_owners := ow\<rparr>) \<and> R W (W\<lparr>w_spawns := sp, w_owners := ow\<rparr>)"
    by (rule carries_cong [OF inv]) simp_all
  then show ?thesis using sweep_carries [OF sw] carries_trans by blast
qed

lemma remove_derived_owned_carries: "carries R (remove_derived_owned ct owner)"
  unfolding carries_def
proof (intro allI impI)
  fix W W' assume inv: "stores_inv W" and rd: "remove_derived_owned ct owner W = Some W'"
  show "stores_inv W' \<and> R W W'"
  proof (cases "map_of (w_owners W) owner")
    case None
    then have "W' = W\<lparr>w_spawns := AList.delete owner (w_spawns W)\<rparr>" using rd by (simp add: remove_derived_owned_def Let_def)
    then show ?thesis using carries_cong [OF inv, of W'] by simp
  next
    case (Some outputs)
    then show ?thesis using rd take_and_sweep_carries [OF inv] by (auto simp: remove_derived_owned_def Let_def)
  qed
qed

lemma retire_owners_carries:
  "retire_owners ct owners W = Some (es, W') \<Longrightarrow> stores_inv W \<Longrightarrow> stores_inv W' \<and> R W W'"
proof (induction owners arbitrary: W es)
  case (Cons owner owners)
  let ?W = "W\<lparr>w_spawns := AList.delete owner (w_spawns W)\<rparr>"
  have 0: "stores_inv ?W \<and> R W ?W" by (rule carries_cong [OF Cons.prems(2)]) simp_all
  show ?case
  proof (cases "map_of (w_owners W) owner")
    case None
    then have "retire_owners ct owners ?W = Some (es, W')" using Cons.prems(1) by (simp add: Let_def)
    then show ?thesis using Cons.IH 0 carries_trans by blast
  next
    case (Some outputs)
    then obtain es1 W2 es2 where
      sw: "sweep ct owner outputs (W\<lparr>w_spawns := AList.delete owner (w_spawns W), w_owners := AList.delete owner (w_owners W)\<rparr>) = Some (es1, W2)"
      and r: "retire_owners ct owners W2 = Some (es2, W')"
      using Cons.prems(1) by (auto simp: Let_def split: Option.bind_splits)
    have "stores_inv W2 \<and> R W W2" by (rule take_and_sweep_carries [OF Cons.prems(2) sw])
    then show ?thesis using Cons.IH [OF r] carries_trans by blast
  qed
qed simp

lemma remove_entity_carries:
  assumes inv: "stores_inv W" and rm: "remove_entity ct e W = Some (owners, W')"
  shows "stores_inv W' \<and> R W W'"
proof -
  obtain W5 W6 where W5: "fold_opt (\<lambda>(iv, target). remove_member ct iv e target) (entity_edges ct W e) (cleared_world e W) = Some W5"
    and W6: "fold_opt (\<lambda>(edge, source). remove_component ct (UserTy edge) source None) (entity_retractions ct W e) W5 = Some W6"
    and W': "W' = W6\<lparr>w_removed_owners := w_removed_owners W6 @ entity_owners e W\<rparr>"
    using rm unfolding remove_entity_eq by (auto elim!: bind_SomeE)
  have C: "stores_inv (cleared_world e W) \<and> R W (cleared_world e W)"
    using cleared_world_stores [OF inv] rel_clear [OF inv] by blast
  have "carries R (fold_opt (\<lambda>(iv, target). remove_member ct iv e target) xs)"
    "carries R (fold_opt (\<lambda>(edge, source). remove_component ct (UserTy edge) source None) xs)" for xs
    by (rule carries_fold, auto simp: world_ops_carry)+
  then have 5: "stores_inv W5 \<and> R (cleared_world e W) W5" "stores_inv W5 \<Longrightarrow> stores_inv W6 \<and> R W5 W6"
    using carriesD W5 W6 C by blast+
  then have 6: "stores_inv W6 \<and> R W W6" using C carries_trans by blast
  have "stores_inv W' \<and> R W6 W'" unfolding W' by (rule carries_cong) (use 6 in simp_all)
  then show ?thesis using 6 carries_trans by blast
qed

lemma reconcile_written_carries:
  "stores_inv W \<Longrightarrow> stores_inv (reconcile_written ct writes W) \<and> R W (reconcile_written ct writes W)"
  unfolding reconcile_written_def
proof (induction writes arbitrary: W)
  case (Cons row writes)
  have "stores_inv (reconcile_row ct row W)" "R W (reconcile_row ct row W)"
    using reconcile_row_stores rel_reconcile Cons.prems by blast+
  then show ?case using Cons.IH carries_trans by simp
qed simp

lemma world_op_carries:
  assumes "world_op ct s s'" and "stores_inv (snd s)"
  shows "R (snd s) (snd s')"
  using assms
proof (cases rule: world_op.cases)
  case (ws_touched keys systems W es W' X)
  then show ?thesis
    using retire_owners_carries [of _ W es W'] assms(2) by (simp add: remove_derived_touched_by_systems_def)
next
  case (ws_take owner W previous W' X)
  then show ?thesis by (auto simp: take_derived_outputs_def intro: rel_frame)
next
  case (ws_spawn W e W' X)
  then show ?thesis by (auto simp: spawn_empty_def intro: rel_frame)
next
  case (ws_singleton key W e W' X)
  then show ?thesis
    by (auto simp: singleton_entity_or_spawn_def spawn_empty_def intro: rel_frame split: option.splits)
next
  case (ws_register key candidate W e W' X)
  then show ?thesis by (auto simp: singleton_entity_or_register_def intro: rel_frame split: option.splits)
next
  case (ws_record X W owner e)
  then show ?thesis by (auto simp: record_derived_spawn_def Let_def intro: rel_frame)
next
  case (ws_finish X W owner)
  then show ?thesis by (auto simp: finish_derived_spawns_def Let_def intro!: rel_frame split: option.split)
next
  case (ws_roll W old W' X)
  then show ?thesis by (auto intro: rel_roll)
next
  case (ws_drain_entities W es W' X)
  then show ?thesis by (auto simp: take_removed_entities_def intro: rel_frame)
next
  case (ws_drain_owners W es W' X)
  then show ?thesis by (auto simp: take_removed_owners_def intro: rel_frame)
next
  case (ws_drain_components W es W' X)
  then show ?thesis by (auto simp: take_removed_component_owners_def intro: rel_frame)
next
  case (ws_drain_written W es W' X)
  then show ?thesis by (auto simp: take_written_derived_def intro: rel_frame)
qed (use assms(2) in \<open>auto dest: carriesD [OF world_ops_carry(1)] carriesD [OF world_ops_carry(2)] carriesD [OF flush_carries]
      carriesD [OF remove_derived_owned_carries] remove_entity_carries remove_derived_stale_carries
      rel_update reconcile_written_carries [THEN conjunct2]\<close>)

text \<open>The relation holds from an observation to every later one.\<close>

lemma engine_run_carries:
  "engine_run ct s s' \<Longrightarrow> reachable ct s \<Longrightarrow> reachable ct s' \<and> R (snd s) (snd s')"
proof (induction rule: engine_run.induct)
  case (run_step s s' s'')
  then have r: "reachable ct s'" and p: "R (snd s) (snd s')" by blast+
  have inv: "stores_inv (snd s')" using world_okD(1) [OF reachable_ok [OF r]] .
  have "R (snd s') (snd s'')"
    using run_step.hyps(2) by (cases rule: engine_step.cases)
      (use inv world_op_carries [of s' s''] rel_write in auto)
  then show ?case using p rel_trans engine_step_reachable [OF run_step.hyps(2) r] by blast
qed simp

end

end
