(* ===== verification/Memo.thy ===== *)
theory Memo
  imports Demo World_Relations
begin

text \<open>
  Memoized dependencies: phases and memo entries (\<open>system.rs\<close>), dependencies on one component
  and on a whole store (\<open>Dep\<close> in \<open>query.rs\<close>), and the resolved store a plan reads them through
  (\<open>ResolvedStore\<close> in \<open>world.rs\<close>).

  The second half proves the contract the engine rests on: whatever happens to the world, a
  dependency that is still current means that what was observed has not changed.
\<close>

section \<open>Phases\<close>

datatype phase = Startup | Evaluate | Complete | Settle

definition phase_bit :: "phase \<Rightarrow> 8 word" where
  "phase_bit p = (case p of Startup \<Rightarrow> 1 | Evaluate \<Rightarrow> 2 | Complete \<Rightarrow> 4 | Settle \<Rightarrow> 8)"

definition phases_ordered :: "bool \<Rightarrow> phase list" where
  "phases_ordered startup = (if startup then [Startup, Evaluate, Complete] else [Evaluate, Complete])"

section \<open>Dependencies\<close>

record dep =
  dep_type :: type_id
  dep_slot :: "nat option"
  dep_entity :: entity
  dep_revision :: "nat option"
  dep_store_scoped :: bool

definition dep_equal :: "dep \<Rightarrow> dep \<Rightarrow> bool" where
  "dep_equal d d' \<longleftrightarrow> dep_type d = dep_type d' \<and> dep_entity d = dep_entity d'
     \<and> dep_revision d = dep_revision d' \<and> dep_store_scoped d = dep_store_scoped d'"

definition dep_component :: "type_id \<Rightarrow> entity \<Rightarrow> nat option \<Rightarrow> nat option \<Rightarrow> dep" where
  "dep_component ty e revision slot = \<lparr>dep_type = ty, dep_slot = slot, dep_entity = e,
     dep_revision = revision, dep_store_scoped = False\<rparr>"

definition revision_raw :: "dep \<Rightarrow> nat" where
  "revision_raw d = (case dep_revision d of None \<Rightarrow> 0 | Some r \<Rightarrow> r)"

definition dep_lookup :: "'v world \<Rightarrow> dep \<Rightarrow> nat option" where
  "dep_lookup W d = (case dep_slot d of
     Some slot \<Rightarrow> revision_by_slot W slot (dep_type d) (dep_entity d)
   | None \<Rightarrow> revision_by_type W (dep_type d) (dep_entity d))"

definition dep_is_current :: "'v world \<Rightarrow> dep \<Rightarrow> bool" where
  "dep_is_current W d =
     (if dep_store_scoped d then store_watermark W (dep_type d) = revision_raw d
      else dep_lookup W d = dep_revision d)"

definition dep_refresh_written :: "'v world \<Rightarrow> out_pair list \<Rightarrow> dep \<Rightarrow> dep" where
  "dep_refresh_written W writes d =
     (if (dep_type d, dep_entity d) \<notin> set writes then d
      else if dep_store_scoped d then d
      else d\<lparr>dep_revision := dep_lookup W d\<rparr>)"

text \<open>
  How plans record dependencies: the outer option is the panic of a row whose component is
  missing, the inner one an untracked component.
\<close>

definition component_dep_if_tracked :: "'v component_trait \<Rightarrow> 'v world \<Rightarrow> type_id \<Rightarrow> entity \<Rightarrow> dep option option" where
  "component_dep_if_tracked ct W ty e =
     (if tracked ct ty then
        (case revision_by_type W ty e of
           None \<Rightarrow> None
         | Some r \<Rightarrow> Some (Some \<lparr>dep_type = ty, dep_slot = None, dep_entity = e, dep_revision = Some r, dep_store_scoped = False\<rparr>))
      else Some None)"

definition optional_component_dep :: "'v component_trait \<Rightarrow> 'v world \<Rightarrow> type_id \<Rightarrow> entity \<Rightarrow> dep option" where
  "optional_component_dep ct W ty e =
     (if tracked ct ty then Some \<lparr>dep_type = ty, dep_slot = None, dep_entity = e,
        dep_revision = revision_by_type W ty e, dep_store_scoped = False\<rparr> else None)"

definition store_watermark_dep :: "'v world \<Rightarrow> type_id \<Rightarrow> dep" where
  "store_watermark_dep W ty = \<lparr>dep_type = ty, dep_slot = None, dep_entity = 0,
     dep_revision = Some (store_watermark W ty), dep_store_scoped = True\<rparr>"

section \<open>Resolved stores\<close>

record 'v resolved_store =
  rs_slot :: "nat option"
  rs_entries :: "(entity \<times> 'v component_entry) list option"

definition resolve_store :: "'v world \<Rightarrow> type_id \<Rightarrow> 'v resolved_store" where
  "resolve_store W ty = \<lparr>rs_slot = stores_slot ty (w_stores W),
     rs_entries = map_option entries (stores_get ty (w_stores W))\<rparr>"

definition resolved_lookup :: "'v resolved_store \<Rightarrow> entity \<Rightarrow> 'v component_entry option" where
  "resolved_lookup rs e = Option.bind (rs_entries rs) (\<lambda>es. map_of es e)"

definition resolved_contains :: "'v resolved_store \<Rightarrow> entity \<Rightarrow> bool" where
  "resolved_contains rs e \<longleftrightarrow> resolved_lookup rs e \<noteq> None"

definition resolved_dependency :: "'v component_trait \<Rightarrow> type_id \<Rightarrow> 'v resolved_store \<Rightarrow> entity \<Rightarrow> bool \<Rightarrow> dep option option" where
  "resolved_dependency ct ty rs e optional =
     (if \<not> tracked ct ty then Some None
      else let revision = map_option ce_revision (resolved_lookup rs e) in
        if \<not> optional \<and> revision = None then None
        else Some (Some (dep_component ty e revision (rs_slot rs))))"

section \<open>Memo entries and runs\<close>

record memo_entry =
  me_deps :: "dep list"
  me_planned_revision :: nat
  me_settle_epoch :: nat

definition entry_is_current :: "'v world \<Rightarrow> memo_entry \<Rightarrow> bool" where
  "entry_is_current W m = list_all (dep_is_current W) (me_deps m)"

definition entry_refresh_written :: "'v world \<Rightarrow> out_pair list \<Rightarrow> memo_entry \<Rightarrow> memo_entry" where
  "entry_refresh_written W writes m = m\<lparr>me_deps := map (dep_refresh_written W writes) (me_deps m)\<rparr>"

section \<open>What an observation still says\<close>

text \<open>
  Two entries agree when a consumer cannot tell them apart by the engine's own measure: the
  revision is the same, and either the value is, or both carry the same fingerprint.
\<close>

definition similar :: "'v component_entry \<Rightarrow> 'v component_entry \<Rightarrow> bool" where
  "similar en en' \<longleftrightarrow> ce_revision en' = ce_revision en \<and> ce_fingerprint en' = ce_fingerprint en
     \<and> (ce_fingerprint en \<noteq> None \<or> ce_value en' = ce_value en)"

lemma similar_refl [simp]: "similar en en"
  by (simp add: similar_def)

lemma similar_trans: "similar en en1 \<Longrightarrow> similar en1 en2 \<Longrightarrow> similar en en2"
  by (auto simp: similar_def)

text \<open>
  How a store may change from revision \<open>r\<close> on: an entry is either newer than \<open>r\<close> or agrees with
  the one before, and when the watermark is not newer than \<open>r\<close> nothing has changed at all.
\<close>

definition evolves :: "nat \<Rightarrow> (entity \<Rightarrow> 'v component_entry option) \<times> nat \<Rightarrow>
    (entity \<Rightarrow> 'v component_entry option) \<times> nat \<Rightarrow> bool" where
  "evolves r s s' \<longleftrightarrow> snd s \<le> snd s'
     \<and> (\<forall>e en'. fst s' e = Some en' \<longrightarrow> r < ce_revision en' \<or> (\<exists>en. fst s e = Some en \<and> similar en en'))
     \<and> (snd s' \<le> r \<longrightarrow> (\<forall>e. rel_option similar (fst s e) (fst s' e)))"

lemma evolvesI:
  assumes "snd s \<le> snd s'"
    and "\<And>e en'. fst s' e = Some en' \<Longrightarrow> r < ce_revision en' \<or> (\<exists>en. fst s e = Some en \<and> similar en en')"
    and "\<And>e. snd s' \<le> r \<Longrightarrow> rel_option similar (fst s e) (fst s' e)"
  shows "evolves r s s'"
  unfolding evolves_def
  by (intro conjI allI impI) (rule assms(1), erule assms(2), erule assms(3))

lemma rel_option_similar_refl [simp]: "rel_option similar x x"
  by (cases x) simp_all

lemma evolves_refl [simp]: "evolves r s s"
  by (simp add: evolves_def)

lemma evolves_trans:
  assumes "evolves r s s1" and "evolves r1 s1 s2" and "r \<le> r1"
  shows "evolves r s s2"
proof (rule evolvesI)
  show "snd s \<le> snd s2" using assms by (auto simp: evolves_def)
  show "r < ce_revision en' \<or> (\<exists>en. fst s e = Some en \<and> similar en en')" if "fst s2 e = Some en'" for e en'
  proof -
    have "r1 < ce_revision en' \<or> (\<exists>en1. fst s1 e = Some en1 \<and> similar en1 en')"
      using assms(2) that by (simp add: evolves_def)
    then consider "r1 < ce_revision en'" | en1 where "fst s1 e = Some en1" "similar en1 en'" by blast
    then show ?thesis
    proof cases
      case (2 en1)
      then have "r < ce_revision en1 \<or> (\<exists>en. fst s e = Some en \<and> similar en en1)"
        using assms(1) by (simp add: evolves_def)
      then show ?thesis using 2 by (auto simp: similar_def)
    qed (use assms(3) in simp)
  qed
  show "rel_option similar (fst s e) (fst s2 e)" if "snd s2 \<le> r" for e
  proof -
    have "rel_option similar (fst s e) (fst s1 e)" "rel_option similar (fst s1 e) (fst s2 e)"
      using assms that by (auto simp: evolves_def)
    then show ?thesis by (cases "fst s e"; cases "fst s1 e"; cases "fst s2 e") (auto intro: similar_trans)
  qed
qed

definition store_view :: "'v world \<Rightarrow> type_id \<Rightarrow> (entity \<Rightarrow> 'v component_entry option) \<times> nat" where
  "store_view W ty = (entry_of W ty, store_watermark W ty)"

definition progress :: "'v component_trait \<Rightarrow> 'v world \<Rightarrow> 'v world \<Rightarrow> bool" where
  "progress ct W W' \<longleftrightarrow> w_revision W \<le> w_revision W'
     \<and> (\<forall>ty. tracked ct ty \<longrightarrow> evolves (w_revision W) (store_view W ty) (store_view W' ty))"

lemma progress_refl [simp]: "progress ct W W"
  by (simp add: progress_def)

lemma progress_trans:
  assumes "progress ct W W1" and "progress ct W1 W2"
  shows "progress ct W W2"
proof -
  have le: "w_revision W \<le> w_revision W1" "w_revision W1 \<le> w_revision W2"
    using assms by (simp_all add: progress_def)
  have "evolves (w_revision W) (store_view W ty) (store_view W2 ty)" if "tracked ct ty" for ty
    using assms that unfolding progress_def by (blast intro: evolves_trans [OF _ _ le(1)])
  then show ?thesis using le by (simp add: progress_def)
qed

lemma store_view_cong: "w_stores W' = w_stores W \<Longrightarrow> store_view W' = store_view W"
  by (simp add: store_view_def entry_of_def store_watermark_def fun_eq_iff)

lemma progress_cong: "w_stores W' = w_stores W \<Longrightarrow> w_revision W' = w_revision W \<Longrightarrow> progress ct W W'"
  using store_view_cong [of W' W] by (simp add: progress_def)

section \<open>Every write path makes progress\<close>

lemma progress_put:
  assumes "stores_wf (w_stores W)" and "w_stores W' = stores_put ty s (w_stores W)"
    and "w_revision W \<le> w_revision W'"
    and "tracked ct ty \<Longrightarrow> evolves (w_revision W) (store_view W ty) (map_of (entries s), watermark s)"
  shows "progress ct W W'"
proof -
  have "store_view W' ty' = (if ty' = ty then (map_of (entries s), watermark s) else store_view W ty')" for ty'
    using table.get_put [OF assms(1), of ty' ty s]
    by (auto simp: store_view_def entry_of_def store_watermark_def assms(2) fun_eq_iff)
  then show ?thesis using assms(3,4) by (simp add: progress_def)
qed

lemma get_or_insert_view:
  "(map_of (entries (stores_get_or_insert ty (w_stores W))), watermark (stores_get_or_insert ty (w_stores W))) = store_view W ty"
  by (auto simp: store_view_def entry_of_def store_watermark_def stores_get_or_insert_def store_default_def
      split: option.split)

lemma insert_entry_progress:
  assumes inv: "stores_inv W" and ins: "insert_entry ct ty e v owner W = (previous, W')"
  shows "progress ct W W'"
proof -
  note f = insert_entry_fields [OF ins]
  let ?s = "stores_get_or_insert ty (w_stores W)" and ?en = "inserted_entry ct ty e v owner W"
  let ?ir = "insert_revision ct ty (entry_of W ty e) (fingerprint ct ty v) (w_revision W)"
  have view: "map_of (entries ?s) = entry_of W ty" "watermark ?s = store_watermark W ty"
    using get_or_insert_view [of ty W] by (simp_all add: store_view_def)
  have rev: "w_revision W \<le> w_revision W'" unfolding f(3) by (simp add: insert_revision_def split: option.split)
  have "evolves (w_revision W) (store_view W ty)
      ((entry_of W ty)(e \<mapsto> ?en), max (store_watermark W ty) (ce_revision ?en))" if t: "tracked ct ty"
  proof (cases "\<exists>p. entry_of W ty e = Some p \<and> ce_fingerprint p \<noteq> None \<and> ce_fingerprint p = fingerprint ct ty v")
    case True
    then obtain p where p: "entry_of W ty e = Some p" "ce_fingerprint p \<noteq> None" "ce_fingerprint p = fingerprint ct ty v"
      by blast
    then have "similar p ?en"
      by (auto simp: similar_def inserted_entry_def insert_revision_def fingerprint_matches_def t)
    then show ?thesis using p(1)
      by (intro evolvesI) (auto simp: store_view_def split: if_splits)
  next
    case False
    then have "ce_revision ?en = w_revision W + 1"
      by (auto simp: inserted_entry_def insert_revision_def fingerprint_matches_def t split: option.splits)
    then show ?thesis
      by (intro evolvesI) (auto simp: store_view_def split: if_splits)
  qed
  then show ?thesis
    by (intro progress_put [OF conjunct1 [OF inv [unfolded stores_inv_def]] f(2) rev]) (simp add: view)
qed

lemma drop_entry_progress:
  assumes inv: "stores_inv W" and s: "stores_get ty (w_stores W) = Some s" "store_remove e s = Some (en, s')"
  shows "progress ct W (drop_entry ty e s' W)"
proof -
  have wf: "stores_wf (w_stores W)" and ok_s: "distinct (map fst (entries s))"
    using inv s(1) by (auto simp: stores_inv_def store_ok_def)
  note d = store_removeD [OF s(2)]
  have "evolves (w_revision W) (store_view W ty) ((map_of (entries s))(e := None), max (watermark s) (w_revision W + 1))"
    using s(1) by (intro evolvesI) (auto simp: store_view_def entry_of_def store_watermark_def split: if_splits)
  moreover have "store_view (drop_entry ty e s' W) ty' =
     (if ty' = ty then ((map_of (entries s))(e := None), max (watermark s) (w_revision W + 1)) else store_view W ty')" for ty'
  proof -
    have g: "stores_get ty' (w_stores (drop_entry ty e s' W)) =
        (if ty' = ty then Some (bump_watermark (w_revision W + 1) s') else stores_get ty' (w_stores W))"
      using table.get_put [OF wf] table.get_put [OF stores_put_wf [OF wf]] by (simp add: drop_entry_def Let_def)
    show ?thesis using g d(2,3) ok_s by (auto simp: store_view_def entry_of_def store_watermark_def fun_eq_iff)
  qed
  moreover have "w_revision W \<le> w_revision (drop_entry ty e s' W)" by (simp add: drop_entry_def Let_def)
  ultimately show ?thesis by (simp add: progress_def)
qed

lemma remove_from_stores_progress:
  "remove_from_stores e tys W = (removed, W') \<Longrightarrow> stores_inv W \<Longrightarrow> progress ct W W'"
proof (induction e tys W arbitrary: removed rule: remove_from_stores.induct)
  case (2 e ty tys W)
  show ?case
  proof (cases "Option.bind (stores_get ty (w_stores W)) (remove_entity_entry e (w_revision W))")
    case None
    then show ?thesis using "2.IH"(1) "2.prems" by simp
  next
    case (Some t)
    obtain owner s' r' where t: "t = (owner, s', r')" by (cases t) auto
    obtain s en s1 where s: "stores_get ty (w_stores W) = Some s" "store_remove e s = Some (en, s1)"
      and rest: "owner = ce_owner en" "s' = bump_watermark (w_revision W + 1) s1" "r' = w_revision W + 1"
      using remove_entity_entryD [OF Some [unfolded t]] .
    define W1 where W1: "W1 = (put_store ty s' W)\<lparr>w_revision := r', w_mutations := w_mutations W + 1\<rparr>"
    obtain removed' where r: "remove_from_stores e tys W1 = (removed', W')"
      using "2.prems"(1) by (auto simp: Some t Let_def W1 split: prod.splits)
    have wf: "stores_wf (w_stores W)" and sok: "store_ok (w_revision W) s"
      using "2.prems"(2) s by (simp_all add: stores_inv_def)
    note d = store_removeD [OF s(2)]
    have st: "w_stores W1 = stores_put ty s' (w_stores W)" "w_revision W1 = w_revision W + 1"
      using rest by (simp_all add: W1)
    have "stores_inv W1"
    proof (rule stores_inv_put [OF "2.prems"(2) st(1)])
      show "store_ok (w_revision W1) s'"
        unfolding rest st using bump_watermark_ok [OF store_ok_mono [OF d(4) [OF sok]]] by simp
    qed (simp add: st)
    moreover have "progress ct W W1"
    proof (rule progress_put [OF wf st(1)])
      show "evolves (w_revision W) (store_view W ty) (map_of (entries s'), watermark s')"
        using s(1) d(2,3) sok unfolding rest
        by (intro evolvesI) (auto simp: store_view_def entry_of_def store_watermark_def store_ok_def split: if_splits)
    qed (simp add: st)
    ultimately show ?thesis using "2.IH"(2) [OF Some [unfolded t] refl refl W1 r] progress_trans by blast
  qed
qed simp

lemma cleared_world_progress:
  assumes "stores_inv W"
  shows "progress ct W (cleared_world e W)"
proof -
  obtain removed W1 where r: "remove_from_stores e (map fst (stores_list (w_stores W))) W = (removed, W1)"
    by (rule prod.exhaust)
  have "progress ct W1 (cleared_world e W)"
    by (rule progress_cong) (simp_all add: cleared_world_def r Let_def w_presence_clear_def unindex_all_fields fold_log_fields)
  then show ?thesis using remove_from_stores_progress [OF r assms] progress_trans by blast
qed

text \<open>Updating one entry the way every in-place path does.\<close>

lemma update_evolves:
  assumes "map_of (entries s) e = Some en" and "tracked ct ty"
    and "changed = (tracked ct ty \<and> (ce_fingerprint en = None \<or> ce_fingerprint en \<noteq> fingerprint ct ty v))"
    and "stores_get ty (w_stores W) = Some s"
  shows "evolves (w_revision W) (store_view W ty)
    ((map_of (entries s))(e \<mapsto> en\<lparr>ce_value := v, ce_fingerprint := fingerprint ct ty v,
        ce_revision := if changed then w_revision W + 1 else ce_revision en\<rparr>),
     if changed then max (watermark s) (w_revision W + 1) else watermark s)"
proof (cases changed)
  case True
  then show ?thesis using assms(4)
    by (intro evolvesI) (auto simp: store_view_def entry_of_def store_watermark_def split: if_splits)
next
  case False
  then have "similar en (en\<lparr>ce_value := v, ce_fingerprint := fingerprint ct ty v,
        ce_revision := if changed then w_revision W + 1 else ce_revision en\<rparr>)"
    using assms(2,3) by (auto simp: similar_def)
  then show ?thesis using assms(1,4) False
    by (intro evolvesI) (auto simp: store_view_def entry_of_def store_watermark_def split: if_splits)
qed

lemma try_update_progress:
  assumes inv: "stores_inv W" and tr: "try_update_component_live ct ty e held f W = Applied changed W'"
  shows "progress ct W W'"
proof -
  obtain s en where s: "stores_get ty (w_stores W) = Some s" "map_of (entries s) e = Some en"
    and ch: "changed = (tracked ct ty \<and> (ce_fingerprint en = None \<or> ce_fingerprint en \<noteq> fingerprint ct ty (f (ce_value en))))"
    and W': "W' = (let s1 = reindex e (ce_fingerprint en) (fingerprint ct ty (f (ce_value en)))
               (s\<lparr>entries := AList.update e (en\<lparr>ce_value := f (ce_value en),
                  ce_fingerprint := fingerprint ct ty (f (ce_value en)),
                  ce_revision := if changed then w_revision W + 1 else ce_revision en\<rparr>) (entries s)\<rparr>);
             W1 = put_store ty (if changed then bump_watermark (w_revision W + 1) s1 else s1) W
         in if changed then (log_write ty e W1)\<lparr>w_revision := w_revision W + 1\<rparr> else W1)"
    using tr by (rule try_updateE)
  have wf: "stores_wf (w_stores W)" using inv by (simp add: stores_inv_def)
  let ?s1 = "reindex e (ce_fingerprint en) (fingerprint ct ty (f (ce_value en)))
               (s\<lparr>entries := AList.update e (en\<lparr>ce_value := f (ce_value en),
                  ce_fingerprint := fingerprint ct ty (f (ce_value en)),
                  ce_revision := if changed then w_revision W + 1 else ce_revision en\<rparr>) (entries s)\<rparr>)"
  let ?s' = "if changed then bump_watermark (w_revision W + 1) ?s1 else ?s1"
  show ?thesis
  proof (rule progress_put [OF wf, where s = ?s' and ty = ty])
    show "w_stores W' = stores_put ty ?s' (w_stores W)" "w_revision W \<le> w_revision W'"
      by (simp_all add: W' Let_def)
    assume "tracked ct ty"
    from update_evolves [OF s(2) this ch s(1)]
    show "evolves (w_revision W) (store_view W ty) (map_of (entries ?s'), watermark ?s')"
      by (simp add: map_of_update split: if_split_asm)
  qed
qed

lemma reconcile_evolves:
  assumes s: "stores_get ty (w_stores W) = Some s" "map_of (entries s) e = Some en" and t: "tracked ct ty"
    and s1: "map_of (entries s1) = (map_of (entries s))(e \<mapsto> en\<lparr>ce_value := v\<rparr>)" "watermark s1 = watermark s"
    and r: "reconcile_entry ct ty e (w_revision W) s1 = (s', r')"
  shows "evolves (w_revision W) (store_view W ty) (map_of (entries s'), watermark s')"
proof -
  define ch where "ch = (tracked ct ty \<and> (ce_fingerprint en = None \<or> ce_fingerprint en \<noteq> fingerprint ct ty v))"
  have en1: "map_of (entries s1) e = Some (en\<lparr>ce_value := v\<rparr>)" by (simp add: s1)
  have c: "ch = (tracked ct ty \<and> (ce_fingerprint (en\<lparr>ce_value := v\<rparr>) = None \<or>
      ce_fingerprint (en\<lparr>ce_value := v\<rparr>) \<noteq> fingerprint ct ty (ce_value (en\<lparr>ce_value := v\<rparr>))))"
    by (simp add: ch_def)
  show ?thesis
    using update_evolves [OF s(2) t ch_def s(1)] unfolding reconcile_entryD(2,3) [OF en1 r c]
    by (cases ch) (simp_all add: s1)
qed

lemma commit_write_progress:
  assumes inv: "stores_inv W"
  shows "progress ct W (commit_write ct ty e v W)"
proof (cases "\<exists>s en. stores_get ty (w_stores W) = Some s \<and> map_of (entries s) e = Some en")
  case True
  then obtain s en where s: "stores_get ty (w_stores W) = Some s" "map_of (entries s) e = Some en" by blast
  have wf: "stores_wf (w_stores W)" using inv by (simp add: stores_inv_def)
  let ?s1 = "s\<lparr>entries := AList.update e (en\<lparr>ce_value := v\<rparr>) (entries s)\<rparr>"
  have en1: "map_of (entries ?s1) e = Some (en\<lparr>ce_value := v\<rparr>)" by (simp add: map_of_update)
  obtain s' r' where r: "reconcile_entry ct ty e (w_revision W) ?s1 = (s', r')" by (rule prod.exhaust)
  note d = reconcile_entryD [OF en1 r refl]
  have W': "commit_write ct ty e v W = log_write ty e ((put_store ty s' (put_store ty ?s1 W))\<lparr>w_revision := r'\<rparr>)"
    using r by (simp add: commit_write_def reconcile_written_def reconcile_row_def write_cell_def s table.get_put [OF wf])
  have view: "store_view (commit_write ct ty e v W) ty' =
      (if ty' = ty then (map_of (entries s'), watermark s') else store_view W ty')" for ty'
    using table.get_put [OF wf] table.get_put [OF stores_put_wf [OF wf]]
    by (auto simp: store_view_def entry_of_def store_watermark_def W' fun_eq_iff)
  have "evolves (w_revision W) (store_view W ty) (map_of (entries s'), watermark s')" if t: "tracked ct ty"
    by (rule reconcile_evolves [OF s t _ _ r]) (simp_all add: map_of_update)
  moreover have "w_revision W \<le> w_revision (commit_write ct ty e v W)" by (simp add: W' d(1))
  ultimately show ?thesis by (simp add: progress_def view)
next
  case False
  then have c: "write_cell ty e v W = W" by (auto simp: write_cell_def split: option.split)
  have "store_view (commit_write ct ty e v W) = store_view W \<and> w_revision (commit_write ct ty e v W) = w_revision W"
  proof (cases "stores_get ty (w_stores W)")
    case None
    then show ?thesis by (simp add: commit_write_def c reconcile_written_def reconcile_row_def)
  next
    case (Some s)
    then have "map_of (entries s) e = None" using False by auto
    then have r: "reconcile_entry ct ty e (w_revision W) s = (s, w_revision W)" by (simp add: reconcile_entry_def)
    have "stores_get ty' (stores_put ty s (w_stores W)) = stores_get ty' (w_stores W)" for ty'
      using table.get_put [of "w_stores W" ty' ty s] inv Some by (simp add: stores_inv_def)
    then show ?thesis
      by (auto simp: commit_write_def c reconcile_written_def reconcile_row_def Some r store_view_def entry_of_def
          store_watermark_def fun_eq_iff)
  qed
  then show ?thesis by (simp add: progress_def)
qed

lemma reconcile_row_progress:
  assumes inv: "stores_inv W"
  shows "progress ct W (reconcile_row ct row W)"
proof -
  obtain ty e where row: "row = (ty, e)" by (cases row)
  show ?thesis
  proof (cases "stores_get ty (w_stores W)")
    case None
    then show ?thesis by (simp add: reconcile_row_def row)
  next
    case (Some s)
    obtain s' r' where r: "reconcile_entry ct ty e (w_revision W) s = (s', r')" by (rule prod.exhaust)
    have wf: "stores_wf (w_stores W)" using inv by (auto simp: stores_inv_def)
    have W': "reconcile_row ct row W = log_write ty e ((put_store ty s' W)\<lparr>w_revision := r'\<rparr>)"
      by (simp add: reconcile_row_def row Some r)
    have f: "w_revision W \<le> r'
        \<and> (tracked ct ty \<longrightarrow> evolves (w_revision W) (store_view W ty) (map_of (entries s'), watermark s'))"
    proof (cases "map_of (entries s) e")
      case None
      then show ?thesis using r Some
        by (auto simp: reconcile_entry_def store_view_def entry_of_def store_watermark_def intro!: evolvesI)
    next
      case en: (Some en)
      note d = reconcile_entryD [OF en r refl]
      have "evolves (w_revision W) (store_view W ty) (map_of (entries s'), watermark s')" if "tracked ct ty"
        by (rule reconcile_evolves [OF Some en that _ _ r, of "ce_value en"]) (simp_all add: en fun_upd_idem)
      then show ?thesis using d(1) by auto
    qed
    show ?thesis by (rule progress_put [OF wf, of _ ty s']) (simp_all add: W' f)
  qed
qed

lemma roll_frame:
  assumes "maybe_roll_plan_epoch W = Some (old, W')"
  shows "w_stores W' = w_stores W \<and> w_revision W' = w_revision W"
  using assms by (auto simp: maybe_roll_plan_epoch_def split: if_splits)

interpretation progress_run: world_relation ct "progress ct" for ct
proof
qed (auto intro: progress_trans progress_cong insert_entry_progress drop_entry_progress cleared_world_progress
    try_update_progress reconcile_row_progress commit_write_progress dest: roll_frame)

lemmas engine_run_progress = progress_run.engine_run_carries

lemma unmoved_store:
  assumes "reachable ct (X, W)" and "engine_run ct (X, W) (X', W')" and "tracked ct ty"
    and "store_watermark W' ty = store_watermark W ty"
  shows "rel_option similar (entry_of W ty e) (entry_of W' ty e)"
proof -
  have "store_watermark W ty \<le> w_revision W"
  proof (cases "stores_get ty (w_stores W)")
    case (Some s)
    then show ?thesis using store_ok_get [OF reachable_ok [OF assms(1), simplified]]
      by (simp add: store_watermark_def store_ok_def revisions_ok_def)
  qed (simp add: store_watermark_def)
  moreover have "progress ct W W'" using engine_run_progress [OF assms(2,1)] by simp
  ultimately show ?thesis using assms(3,4) by (simp add: progress_def evolves_def store_view_def)
qed

section \<open>Properties\<close>

text \<open>
  C24. A current dependency is a sound reason not to rerun.  If a row dependency recorded in one
  world is still current after any run of operations and reconciled in-place writes, then the
  component it observed has not changed: it is absent in both worlds, or present in both with
  the same revision and either the same value or the same content fingerprint.
\<close>

theorem current_dep_unchanged:
  assumes "reachable ct (X, W)" and "engine_run ct (X, W) (X', W')"
    and "optional_component_dep ct W ty e = Some d" and "dep_is_current W' d"
  shows "rel_option similar (entry_of W ty e) (entry_of W' ty e)"
proof -
  have t: "tracked ct ty" and d: "d = \<lparr>dep_type = ty, dep_slot = None, dep_entity = e,
      dep_revision = revision_by_type W ty e, dep_store_scoped = False\<rparr>"
    using assms(3) by (auto simp: optional_component_dep_def split: if_splits)
  have rv: "revision_by_type V ty e = map_option ce_revision (entry_of V ty e)" for V :: "'a world"
    by (auto simp: revision_by_type_def entry_of_def revision_for_entity_def split: Option.bind_split)
  have eq: "map_option ce_revision (entry_of W' ty e) = map_option ce_revision (entry_of W ty e)"
    using assms(4) by (simp add: d dep_is_current_def dep_lookup_def rv)
  show ?thesis
  proof (cases "entry_of W' ty e")
    case None
    then show ?thesis using eq by (cases "entry_of W ty e") simp_all
  next
    case (Some en')
    then obtain en where en: "entry_of W ty e = Some en" "ce_revision en = ce_revision en'"
      using eq by (cases "entry_of W ty e") auto
    have "ce_revision en \<le> w_revision W"
      using stores_inv_entry_revision [OF world_okD(1) [OF reachable_ok [OF assms(1), simplified]] en(1)] by linarith
    moreover have "w_revision W < ce_revision en' \<or> (\<exists>en. entry_of W ty e = Some en \<and> similar en en')"
      using engine_run_progress [OF assms(2,1)] t Some by (simp add: progress_def evolves_def store_view_def)
    ultimately show ?thesis using Some en by auto
  qed
qed

text \<open>
  The same for a whole store: while the watermark that a store-scoped dependency recorded
  is still the store's, no entry of the store was added, removed or changed.
\<close>

theorem current_store_unchanged:
  assumes "reachable ct (X, W)" and "engine_run ct (X, W) (X', W')" and "tracked ct ty"
    and "dep_is_current W' (store_watermark_dep W ty)"
  shows "rel_option similar (entry_of W ty e) (entry_of W' ty e)"
  by (rule unmoved_store [OF assms(1-3)])
    (use assms(4) in \<open>simp add: dep_is_current_def store_watermark_dep_def revision_raw_def\<close>)

text \<open>
  Resolving a store once and reading dependencies through it is the same as looking each
  one up: both panic on the same rows, record the same observation, and the two records agree
  in every reachable world, of this engine or of any other layout, on whether they are current.
\<close>

theorem resolved_dependency_equiv:
  assumes "reachable ct (X, V)"
  shows "rel_option (rel_option (\<lambda>d d'. dep_equal d d' \<and> (dep_is_current V d \<longleftrightarrow> dep_is_current V d')))
      (resolved_dependency ct ty (resolve_store W ty) e optional)
      (if optional then Some (optional_component_dep ct W ty e) else component_dep_if_tracked ct W ty e)"
proof -
  have wf: "stores_wf (w_stores V)" using world_okD(1) [OF reachable_ok [OF assms]] by (simp add: stores_inv_def)
  have slot: "dep_lookup V d = revision_by_type V (dep_type d) (dep_entity d)" for d
    by (simp add: dep_lookup_def revision_by_slot_def revision_by_type_def stores_get_slot_eq [OF wf] split: option.split)
  have rev: "map_option ce_revision (resolved_lookup (resolve_store W ty) e) = revision_by_type W ty e"
    by (cases "stores_get ty (w_stores W)")
      (simp_all add: resolved_lookup_def resolve_store_def revision_by_type_def revision_for_entity_def)
  show ?thesis
    by (cases "revision_by_type W ty e")
      (simp_all add: resolved_dependency_def rev Let_def optional_component_dep_def component_dep_if_tracked_def
        dep_component_def dep_equal_def dep_is_current_def slot)
qed

section \<open>Witnesses\<close>

text \<open>Overwriting the component of entity 1 by the same content.\<close>

lemma demo_run:
  assumes "world_insert demo_trait (UserTy 0) 1 (demo_plain 42) None demo_world = Some W'"
  shows "engine_run demo_trait ({}, demo_world) ({}, W')"
  by (rule run_step [OF run_refl]) (rule es_op, rule ws_insert, rule assms)

theorem current_dep_unchanged_witness:
  "\<exists>W'. world_insert demo_trait (UserTy 0) 1 (demo_plain 42) None demo_world = Some W'
    \<and> rel_option similar (entry_of demo_world (UserTy 0) 1) (entry_of W' (UserTy 0) 1)"
proof -
  have "Option.bind (world_insert demo_trait (UserTy 0) 1 (demo_plain 42) None demo_world)
      (\<lambda>W'. Option.bind (optional_component_dep demo_trait demo_world (UserTy 0) 1)
        (\<lambda>d. if dep_is_current W' d then Some True else None)) = Some True"
    unfolding demo_world_def by code_simp
  then obtain W' d where W': "world_insert demo_trait (UserTy 0) 1 (demo_plain 42) None demo_world = Some W'"
    and d: "optional_component_dep demo_trait demo_world (UserTy 0) 1 = Some d" "dep_is_current W' d"
    by (auto elim!: bind_SomeE split: if_splits)
  show ?thesis
    using current_dep_unchanged [OF demo_world_reachable demo_run [OF W'] d] W' by blast
qed

theorem current_store_unchanged_witness:
  "\<exists>W'. world_insert demo_trait (UserTy 0) 1 (demo_plain 42) None demo_world = Some W'
    \<and> rel_option similar (entry_of demo_world (UserTy 0) 3) (entry_of W' (UserTy 0) 3)"
proof -
  have "Option.bind (world_insert demo_trait (UserTy 0) 1 (demo_plain 42) None demo_world)
      (\<lambda>W'. if dep_is_current W' (store_watermark_dep demo_world (UserTy 0)) then Some True else None) = Some True"
    unfolding demo_world_def by code_simp
  then obtain W' where W': "world_insert demo_trait (UserTy 0) 1 (demo_plain 42) None demo_world = Some W'"
    and d: "dep_is_current W' (store_watermark_dep demo_world (UserTy 0))"
    by (auto elim!: bind_SomeE split: if_splits)
  have t: "tracked demo_trait (UserTy 0)" by code_simp
  show ?thesis
    using current_store_unchanged [OF demo_world_reachable demo_run [OF W'] t d] W' by blast
qed

theorem resolved_dependency_equiv_witness:
  "\<exists>d d'. resolved_dependency demo_trait (UserTy 0) (resolve_store demo_world (UserTy 0)) 1 False = Some (Some d)
    \<and> component_dep_if_tracked demo_trait demo_world (UserTy 0) 1 = Some (Some d') \<and> dep_equal d d'"
proof -
  have "component_dep_if_tracked demo_trait demo_world (UserTy 0) 1 \<noteq> None
      \<and> component_dep_if_tracked demo_trait demo_world (UserTy 0) 1 \<noteq> Some None"
    unfolding demo_world_def by code_simp
  then obtain d' where "component_dep_if_tracked demo_trait demo_world (UserTy 0) 1 = Some (Some d')" by auto
  then show ?thesis
    using resolved_dependency_equiv [OF demo_world_reachable, of "UserTy 0" demo_world 1 False]
    by (auto simp: option_rel_Some2)
qed

end
