(* ===== verification/Queries.thy ===== *)
theory Queries
  imports Reservations Memo
begin

text \<open>
  Query parameters and their filters (query.rs): what rows a system parameter enumerates, what
  it records as dependencies, what it locks, and which stores it asks the planner to watch.

  A trait is a record of its methods, a function of the required ones gives it the default
  bodies of the others, and every implementation is a value of the record.  The types that
  implement \<open>QueryPart\<close>, \<open>QueryParam\<close> and \<open>QueryFilter\<close> form a grammar (a tuple anchored at an
  entity handle, of references, optional references, mutable references, whole-shape trackers
  and relationship projections, under a filter); a datatype names its words and a function
  picks the implementation.  A facet is the list of its parts; the untyped handle is the empty
  list.  \<open>None\<close> as a dependency list or as a fetched item is the panic of a required component
  that is not there.  Fetching is modelled by the values it reads; the guards it takes are the
  subject of the theory of cells.
\<close>

section \<open>Facets\<close>

text \<open>Row counts are \<open>usize\<close> values; the largest stands for no bound.\<close>

definition usize_max :: "64 word" where
  "usize_max = - 1"

record facet_part =
  part_type :: type_id
  part_optional :: bool
  part_tracked :: bool

type_synonym facet = "facet_part list"

definition shape_part :: "'v component_trait \<Rightarrow> type_id \<Rightarrow> facet_part" where
  "shape_part ct ty = \<lparr>part_type = ty, part_optional = False, part_tracked = tracked ct ty\<rparr>"

definition shape_part_optional :: "'v component_trait \<Rightarrow> type_id \<Rightarrow> facet_part" where
  "shape_part_optional ct ty = \<lparr>part_type = ty, part_optional = True, part_tracked = tracked ct ty\<rparr>"

definition facet_required :: "facet \<Rightarrow> type_id list" where
  "facet_required H = map part_type (filter (\<lambda>p. \<not> part_optional p) H)"

definition dense_rows :: "'v world \<Rightarrow> entity list" where
  "dense_rows W = [0..<w_next_entity W]"

definition store_len_typed :: "'v world \<Rightarrow> type_id \<Rightarrow> 64 word" where
  "store_len_typed W ty = (case store_len W ty of None \<Rightarrow> 0 | Some n \<Rightarrow> word_of_nat n)"

definition store_len_dyn :: "'v world \<Rightarrow> type_id \<Rightarrow> 64 word" where
  "store_len_dyn W ty = (case store_len W ty of None \<Rightarrow> usize_max | Some n \<Rightarrow> word_of_nat n)"

text \<open>The first of the elements with the smallest key.\<close>

definition min_by_key :: "('a \<Rightarrow> 64 word) \<Rightarrow> 'a \<Rightarrow> 'a list \<Rightarrow> 'a" where
  "min_by_key f x xs = foldl (\<lambda>a b. if f b < f a then b else a) x xs"

definition has_all :: "'v world \<Rightarrow> type_id list \<Rightarrow> entity \<Rightarrow> bool" where
  "has_all W tys e \<longleftrightarrow> list_all (\<lambda>ty. has_component W ty e) tys"

definition facet_rows :: "'v world \<Rightarrow> facet \<Rightarrow> entity list" where
  "facet_rows W H = (case facet_required H of
     [] \<Rightarrow> dense_rows W
   | ty # tys \<Rightarrow>
       (case Option.bind (w_presence W) (\<lambda>P. map_option (Pair P) (presence_mask P (ty # tys))) of
          Some (P, m) \<Rightarrow> entities_matching P m
        | None \<Rightarrow> filter (has_all W (ty # tys))
            (entities_with W (min_by_key (store_len_dyn W) ty tys))))"

section \<open>Parts of an entity tuple\<close>

datatype presence_req = Opaque | Free | Requires type_id

text \<open>What user code is handed for a part or a whole row.\<close>

datatype 'v item =
    RefItem "'v cvalue"
  | OptItem "'v cvalue option"
  | MutItem entity "'v cvalue"
  | TrackedItem
  | RelatedItem "(entity \<times> 'v item list) list"
  | EntityItem entity
  | TupleItem entity "'v item list"

record 'v part_methods =
  pm_store_len :: "'v world \<Rightarrow> 64 word"
  pm_candidates :: "'v world \<Rightarrow> entity list"
  pm_matches :: "'v world \<Rightarrow> entity \<Rightarrow> bool"
  pm_presence :: presence_req
  pm_interest :: "type_id list option"
  pm_hint_providers :: "'v world \<Rightarrow> entity list \<Rightarrow> entity list"
  pm_supports_view :: bool
  pm_deps :: "'v world \<Rightarrow> entity \<Rightarrow> dep list option"
  pm_member_deps :: "'v world \<Rightarrow> entity \<Rightarrow> dep list option"
  pm_access :: "'v world \<Rightarrow> entity \<Rightarrow> access list"
  pm_access_all :: access
  pm_provides_key :: "type_id \<Rightarrow> bool"
  pm_provided_key :: "'v world \<Rightarrow> entity \<Rightarrow> type_id \<Rightarrow> nat option option"
  pm_provided_members :: "'v world \<Rightarrow> entity \<Rightarrow> type_id \<Rightarrow> entity list option"
  pm_fetch :: "'v world \<Rightarrow> entity \<Rightarrow> 'v item option"

text \<open>The trait's default bodies around the methods every part has to give.\<close>

definition query_part_trait ::
  "('v world \<Rightarrow> 64 word) \<Rightarrow> ('v world \<Rightarrow> entity list) \<Rightarrow> ('v world \<Rightarrow> entity \<Rightarrow> bool) \<Rightarrow>
   ('v world \<Rightarrow> entity \<Rightarrow> dep list option) \<Rightarrow> ('v world \<Rightarrow> entity \<Rightarrow> access list) \<Rightarrow> access \<Rightarrow>
   ('v world \<Rightarrow> entity \<Rightarrow> 'v item option) \<Rightarrow> 'v part_methods" where
  "query_part_trait len cands mat deps acc acc_all ftch =
     \<lparr>pm_store_len = len, pm_candidates = cands, pm_matches = mat, pm_presence = Opaque, pm_interest = None,
      pm_hint_providers = (\<lambda>W hint. []), pm_supports_view = True, pm_deps = deps, pm_member_deps = deps,
      pm_access = acc, pm_access_all = acc_all, pm_provides_key = (\<lambda>key. False),
      pm_provided_key = (\<lambda>W e key. None), pm_provided_members = (\<lambda>W e key. None), pm_fetch = ftch\<rparr>"

definition option_list :: "'a option \<Rightarrow> 'a list" where
  "option_list x = (case x of None \<Rightarrow> [] | Some a \<Rightarrow> [a])"

text \<open>Concatenation of optional lists, \<open>None\<close> as soon as one is; all of a list of optional values.\<close>

fun concat_opt :: "'a list option list \<Rightarrow> 'a list option" where
  "concat_opt [] = Some []"
| "concat_opt (x # xs) = (case x of None \<Rightarrow> None | Some ys \<Rightarrow> map_option ((@) ys) (concat_opt xs))"

definition all_opt :: "'a option list \<Rightarrow> 'a list option" where
  "all_opt xs = concat_opt (map (map_option (\<lambda>x. [x])) xs)"

definition value_of :: "'v world \<Rightarrow> type_id \<Rightarrow> entity \<Rightarrow> 'v cvalue option" where
  "value_of W ty e = map_option ce_value (entry_of W ty e)"

definition members_of :: "'v component_trait \<Rightarrow> 'v world \<Rightarrow> type_id \<Rightarrow> entity \<Rightarrow> entity list option" where
  "members_of ct W ty e = Option.bind (value_of W ty e) (component_members ct ty)"

text \<open>\<open>&T\<close>\<close>

definition ref_part :: "'v component_trait \<Rightarrow> type_id \<Rightarrow> 'v part_methods" where
  "ref_part ct ty = (query_part_trait
       (\<lambda>W. store_len_typed W ty) (\<lambda>W. entities_with W ty) (\<lambda>W e. has_component W ty e)
       (\<lambda>W e. map_option option_list (component_dep_if_tracked ct W ty e))
       (\<lambda>W e. [access_read ty e]) (access_read_all ty)
       (\<lambda>W e. map_option RefItem (value_of W ty e)))
     \<lparr>pm_presence := Requires ty, pm_interest := Some [ty],
      pm_member_deps := (\<lambda>W e. Some (option_list (optional_component_dep ct W ty e))),
      pm_provides_key := (\<lambda>key. key = ty),
      pm_provided_key := (\<lambda>W e key. if key = ty then Some (fingerprint_of W ty e) else None),
      pm_provided_members := (\<lambda>W e key. if key \<noteq> ty then None else members_of ct W ty e)\<rparr>"

text \<open>\<open>Option<&T>\<close>\<close>

definition opt_part :: "'v component_trait \<Rightarrow> type_id \<Rightarrow> 'v part_methods" where
  "opt_part ct ty = (query_part_trait
       (\<lambda>W. usize_max) dense_rows (\<lambda>W e. True)
       (\<lambda>W e. Some (option_list (optional_component_dep ct W ty e)))
       (\<lambda>W e. [access_read ty e]) (access_read_all ty)
       (\<lambda>W e. Some (OptItem (value_of W ty e))))
     \<lparr>pm_presence := Free, pm_interest := Some [ty],
      pm_member_deps := (\<lambda>W e. Some (option_list (optional_component_dep ct W ty e)))\<rparr>"

text \<open>\<open>Tracked<H>\<close>; \<open>marker\<close> is the type id of the tracker itself.\<close>

definition tracker_dep :: "'v world \<Rightarrow> entity \<Rightarrow> facet_part \<Rightarrow> dep" where
  "tracker_dep W e p = \<lparr>dep_type = part_type p, dep_slot = None, dep_entity = e,
     dep_revision = revision_by_type W (part_type p) e, dep_store_scoped = False\<rparr>"

definition tracked_part :: "type_id \<Rightarrow> facet \<Rightarrow> 'v part_methods" where
  "tracked_part marker H = (query_part_trait
       (\<lambda>W. usize_max) (\<lambda>W. facet_rows W H) (\<lambda>W e. True)
       (\<lambda>W e. Some (map (tracker_dep W e) (filter part_tracked H)))
       (\<lambda>W e. map (\<lambda>p. access_read (part_type p) e) H) (access_read_all marker)
       (\<lambda>W e. Some TrackedItem))
     \<lparr>pm_presence := Free, pm_interest := Some (map part_type H)\<rparr>"

text \<open>\<open>MutRef<T>\<close>\<close>

definition mut_part :: "'v component_trait \<Rightarrow> type_id \<Rightarrow> 'v part_methods" where
  "mut_part ct ty = (query_part_trait
       (\<lambda>W. store_len_typed W ty) (\<lambda>W. entities_with W ty) (\<lambda>W e. has_component W ty e)
       (\<lambda>W e. map_option option_list (component_dep_if_tracked ct W ty e))
       (\<lambda>W e. [access_write ty e]) (access_write_all ty)
       (\<lambda>W e. map_option (MutItem e) (value_of W ty e)))
     \<lparr>pm_presence := Requires ty, pm_interest := Some [ty]\<rparr>"

text \<open>
  \<open>Related<R, P>\<close>: the read-only parts \<open>P\<close> of every member of the maintained inverse \<open>R\<close>, whose
  edge component is \<open>edge\<close>.  The first three definitions are the tuple \<open>P\<close>.
\<close>

definition related_interest :: "'v part_methods list \<Rightarrow> type_id list option" where
  "related_interest ps = concat_opt (map pm_interest ps)"

definition related_matches :: "'v part_methods list \<Rightarrow> 'v world \<Rightarrow> entity \<Rightarrow> bool" where
  "related_matches ps W m = list_all (\<lambda>p. pm_matches p W m) ps"

definition related_observed_deps :: "'v part_methods list \<Rightarrow> 'v world \<Rightarrow> entity \<Rightarrow> dep list option" where
  "related_observed_deps ps W m = concat_opt (map (\<lambda>p. pm_member_deps p W m) ps)"

definition related_access :: "'v part_methods list \<Rightarrow> 'v world \<Rightarrow> entity \<Rightarrow> access list" where
  "related_access ps W m = concat (map (\<lambda>p. pm_access p W m) ps)"

definition related_fetch :: "'v part_methods list \<Rightarrow> 'v world \<Rightarrow> entity \<Rightarrow> 'v item list option" where
  "related_fetch ps W m = all_opt (map (\<lambda>p. pm_fetch p W m) ps)"

definition inverse_members :: "'v component_trait \<Rightarrow> 'v world \<Rightarrow> nat \<Rightarrow> entity \<Rightarrow> entity list" where
  "inverse_members ct W r e = (case value_of W (UserTy r) e of
     None \<Rightarrow> [] | Some v \<Rightarrow> relationship_members ct r v)"

text \<open>The entity an edge component of \<open>member\<close> points at.\<close>

definition edge_target_of :: "'v component_trait \<Rightarrow> 'v world \<Rightarrow> nat \<Rightarrow> entity \<Rightarrow> entity option" where
  "edge_target_of ct W edge member = Option.bind (value_of W (UserTy edge) member)
     (\<lambda>v. map_option snd (relationship_edge ct (UserTy edge) v))"

definition related_part :: "'v component_trait \<Rightarrow> nat \<Rightarrow> nat \<Rightarrow> 'v part_methods list \<Rightarrow> 'v part_methods" where
  "related_part ct r edge ps = (query_part_trait
       (\<lambda>W. usize_max) dense_rows (\<lambda>W e. True)
       (\<lambda>W owner. concat_opt (Some (option_list (optional_component_dep ct W (UserTy r) owner))
          # map (related_observed_deps ps W) (inverse_members ct W r owner)))
       (\<lambda>W owner. access_read (UserTy r) owner # concat (map (related_access ps W) (inverse_members ct W r owner)))
       (access_read_all (UserTy r))
       (\<lambda>W owner. map_option RelatedItem (all_opt (map (\<lambda>m. map_option (Pair m) (related_fetch ps W m))
          (filter (related_matches ps W) (inverse_members ct W r owner))))))
     \<lparr>pm_presence := Free, pm_interest := map_option (Cons (UserTy r)) (related_interest ps),
      pm_hint_providers := (\<lambda>W hint. List.map_filter (edge_target_of ct W edge) hint),
      pm_supports_view := False\<rparr>"

text \<open>The grammar of parts; the two read-only ones may be projected through a relationship.\<close>

datatype read_part = Ref type_id | OptRef type_id

datatype query_part =
    ReadPart read_part
  | MutPart type_id
  | TrackedPart type_id facet
  | Related nat nat "read_part list"

fun read_type :: "read_part \<Rightarrow> type_id" where
  "read_type (Ref ty) = ty"
| "read_type (OptRef ty) = ty"

fun read_impl :: "'v component_trait \<Rightarrow> read_part \<Rightarrow> 'v part_methods" where
  "read_impl ct (Ref ty) = ref_part ct ty"
| "read_impl ct (OptRef ty) = opt_part ct ty"

fun part_impl :: "'v component_trait \<Rightarrow> query_part \<Rightarrow> 'v part_methods" where
  "part_impl ct (ReadPart p) = read_impl ct p"
| "part_impl ct (MutPart ty) = mut_part ct ty"
| "part_impl ct (TrackedPart marker H) = tracked_part marker H"
| "part_impl ct (Related r edge ps) = related_part ct r edge (map (read_impl ct) ps)"

section \<open>Query parameters\<close>

record 'v query_methods =
  qm_rows :: "'v world \<Rightarrow> entity list"
  qm_rows_hinted :: "'v world \<Rightarrow> entity list option \<Rightarrow> entity list"
  qm_interest :: "type_id list option"
  qm_hint_providers :: "'v world \<Rightarrow> entity list \<Rightarrow> entity list"
  qm_supports_view :: bool
  qm_row_bound :: "'v world \<Rightarrow> 64 word"
  qm_keys :: "entity \<Rightarrow> entity list"
  qm_deps :: "'v world \<Rightarrow> entity \<Rightarrow> dep list option"
  qm_access :: "'v world \<Rightarrow> entity \<Rightarrow> access list"
  qm_access_all :: "access list"
  qm_provides_key :: "type_id \<Rightarrow> bool"
  qm_provided_key :: "'v world \<Rightarrow> entity \<Rightarrow> type_id \<Rightarrow> nat option option"
  qm_provided_members :: "'v world \<Rightarrow> entity \<Rightarrow> type_id \<Rightarrow> entity list option"
  qm_fetch :: "'v world \<Rightarrow> entity \<Rightarrow> 'v item option"

definition query_param_trait ::
  "('v world \<Rightarrow> entity list) \<Rightarrow> (entity \<Rightarrow> entity list) \<Rightarrow> ('v world \<Rightarrow> entity \<Rightarrow> dep list option) \<Rightarrow>
   ('v world \<Rightarrow> entity \<Rightarrow> access list) \<Rightarrow> access list \<Rightarrow> ('v world \<Rightarrow> entity \<Rightarrow> 'v item option) \<Rightarrow>
   'v query_methods" where
  "query_param_trait all_rows ks deps acc acc_all ftch =
     \<lparr>qm_rows = all_rows, qm_rows_hinted = (\<lambda>W hint. all_rows W), qm_interest = None,
      qm_hint_providers = (\<lambda>W hint. []), qm_supports_view = True, qm_row_bound = (\<lambda>W. usize_max),
      qm_keys = ks, qm_deps = deps, qm_access = acc, qm_access_all = acc_all,
      qm_provides_key = (\<lambda>key. False), qm_provided_key = (\<lambda>W e key. None),
      qm_provided_members = (\<lambda>W e key. None), qm_fetch = ftch\<rparr>"

text \<open>\<open>Entity<H>\<close>\<close>

definition entity_param :: "facet \<Rightarrow> 'v query_methods" where
  "entity_param H = (query_param_trait (\<lambda>W. facet_rows W H) (\<lambda>e. [e]) (\<lambda>W e. Some []) (\<lambda>W e. []) []
       (\<lambda>W e. Some (EntityItem e)))
     \<lparr>qm_rows_hinted := (\<lambda>W hint. case hint of Some cs \<Rightarrow> cs | None \<Rightarrow> facet_rows W H),
      qm_interest := (if H = [] then None else Some (map part_type H))\<rparr>"

text \<open>\<open>&T\<close>\<close>

definition ref_param :: "'v component_trait \<Rightarrow> type_id \<Rightarrow> 'v query_methods" where
  "ref_param ct ty = (query_param_trait (\<lambda>W. entities_with W ty) (\<lambda>e. [e])
       (\<lambda>W e. map_option option_list (component_dep_if_tracked ct W ty e))
       (\<lambda>W e. [access_read ty e]) [access_read_all ty] (\<lambda>W e. map_option RefItem (value_of W ty e)))
     \<lparr>qm_interest := Some [ty],
      qm_rows_hinted := (\<lambda>W hint. case hint of
          Some cs \<Rightarrow> filter (has_component W ty) cs | None \<Rightarrow> entities_with W ty),
      qm_provides_key := (\<lambda>key. key = ty),
      qm_provided_key := (\<lambda>W e key. if key = ty then Some (fingerprint_of W ty e) else None),
      qm_provided_members := (\<lambda>W e key. if key \<noteq> ty then None else members_of ct W ty e)\<rparr>"

text \<open>\<open>(MutRef<T>,)\<close>, which keeps the default interest.\<close>

definition mut_param :: "'v component_trait \<Rightarrow> type_id \<Rightarrow> 'v query_methods" where
  "mut_param ct ty = (query_param_trait (\<lambda>W. entities_with W ty) (\<lambda>e. [e])
       (\<lambda>W e. map_option option_list (component_dep_if_tracked ct W ty e))
       (\<lambda>W e. [access_write ty e]) [access_write_all ty] (\<lambda>W e. map_option (MutItem e) (value_of W ty e)))
     \<lparr>qm_rows_hinted := (\<lambda>W hint. case hint of
          Some cs \<Rightarrow> filter (has_component W ty) cs | None \<Rightarrow> entities_with W ty)\<rparr>"

text \<open>
  \<open>(Entity<H>, P1, ..)\<close>.  The mask over the components the parts require: opaque parts and
  components outside the universe have none.
\<close>

fun requirements :: "'v part_methods list \<Rightarrow> type_id list option" where
  "requirements [] = Some []"
| "requirements (p # ps) = (case pm_presence p of
     Opaque \<Rightarrow> None
   | Free \<Rightarrow> requirements ps
   | Requires ty \<Rightarrow> map_option (Cons ty) (requirements ps))"

definition retain_matching_parts :: "'v world \<Rightarrow> 'v part_methods list \<Rightarrow> entity list \<Rightarrow> entity list" where
  "retain_matching_parts W ps cs =
     (case Option.bind (w_presence W) (\<lambda>P. Option.bind (requirements ps)
         (\<lambda>tys. map_option (Pair P) (presence_mask P tys))) of
        Some (P, m) \<Rightarrow> filter (\<lambda>e. presence_matches P e m) cs
      | None \<Rightarrow> filter (\<lambda>e. list_all (\<lambda>p. pm_matches p W e) ps) cs)"

text \<open>The index of the first part with the smallest store; 0 when none is below the maximum.\<close>

fun best_part :: "'v world \<Rightarrow> 'v part_methods list \<Rightarrow> 64 word \<Rightarrow> nat \<Rightarrow> nat \<Rightarrow> nat" where
  "best_part W [] best_len best_index index = best_index"
| "best_part W (p # ps) best_len best_index index =
     (if pm_store_len p W < best_len then best_part W ps (pm_store_len p W) index (index + 1)
      else best_part W ps best_len best_index (index + 1))"

definition tuple_rows :: "facet \<Rightarrow> 'v part_methods list \<Rightarrow> 'v world \<Rightarrow> entity list" where
  "tuple_rows H ps W =
     (if list_ex (\<lambda>p. \<not> part_optional p) H then
        (if ps = [] then facet_rows W H else retain_matching_parts W ps (facet_rows W H))
      else
        (let best = best_part W ps usize_max 0 0;
             candidates = (if best < length ps then pm_candidates (ps ! best) W else [])
         in if length ps > 1 then retain_matching_parts W ps candidates else candidates))"

text \<open>The first answer of a list of parts.\<close>

fun first_some :: "('a \<Rightarrow> 'b option) \<Rightarrow> 'a list \<Rightarrow> 'b option" where
  "first_some f [] = None"
| "first_some f (x # xs) = (case f x of Some y \<Rightarrow> Some y | None \<Rightarrow> first_some f xs)"

definition tuple_param :: "facet \<Rightarrow> 'v part_methods list \<Rightarrow> 'v query_methods" where
  "tuple_param H ps = (query_param_trait (tuple_rows H ps) (\<lambda>e. [e])
       (\<lambda>W e. concat_opt (map (\<lambda>p. pm_deps p W e) ps))
       (\<lambda>W e. concat (map (\<lambda>p. pm_access p W e) ps)) (map pm_access_all ps)
       (\<lambda>W e. map_option (TupleItem e) (all_opt (map (\<lambda>p. pm_fetch p W e) ps))))
     \<lparr>qm_rows_hinted := (\<lambda>W hint. case hint of
          Some cs \<Rightarrow> retain_matching_parts W ps
            (if facet_required H = [] then cs else filter (has_all W (facet_required H)) cs)
        | None \<Rightarrow> tuple_rows H ps W),
      qm_interest := (if ps = [] \<and> H = [] then None
        else map_option ((@) (map part_type H)) (concat_opt (map pm_interest ps))),
      qm_hint_providers := (\<lambda>W hint. concat (map (\<lambda>p. pm_hint_providers p W hint) ps)),
      qm_supports_view := list_all pm_supports_view ps,
      qm_row_bound := (\<lambda>W. foldl (\<lambda>b ty. min b (store_len_dyn W ty))
        (foldl (\<lambda>b p. min b (pm_store_len p W)) usize_max ps) (facet_required H)),
      qm_provides_key := (\<lambda>key. list_ex (\<lambda>p. pm_provides_key p key) ps),
      qm_provided_key := (\<lambda>W e key. first_some (\<lambda>p. pm_provided_key p W e key) ps),
      qm_provided_members := (\<lambda>W e key. first_some (\<lambda>p. pm_provided_members p W e key) ps)\<rparr>"

datatype query_param =
    EntityParam facet
  | RefParam type_id
  | MutParam type_id
  | TupleParam facet "query_part list"

fun param_impl :: "'v component_trait \<Rightarrow> query_param \<Rightarrow> 'v query_methods" where
  "param_impl ct (EntityParam H) = entity_param H"
| "param_impl ct (RefParam ty) = ref_param ct ty"
| "param_impl ct (MutParam ty) = mut_param ct ty"
| "param_impl ct (TupleParam H ps) = tuple_param H (map (part_impl ct) ps)"

section \<open>Filters\<close>

record 'v filter_methods =
  fm_matches :: "'v world \<Rightarrow> entity \<Rightarrow> bool"
  fm_interest :: "type_id list option"
  fm_candidate_bound :: "'v world \<Rightarrow> 64 word"
  fm_drives :: bool
  fm_hint_providers :: "'v world \<Rightarrow> entity list \<Rightarrow> entity list"
  fm_deps :: "'v world \<Rightarrow> entity \<Rightarrow> dep list option"
  fm_access :: "'v world \<Rightarrow> entity \<Rightarrow> access list"
  fm_access_all :: "access list"
  fm_candidates :: "'v world \<Rightarrow> entity list option"
  fm_bound_keys :: "'v world \<Rightarrow> entity \<Rightarrow> (type_id \<times> nat option) list"
  fm_bound_key_types :: "type_id list"
  fm_in_keys :: "'v world \<Rightarrow> entity \<Rightarrow> (type_id \<times> entity) list"
  fm_in_key_types :: "type_id list"

definition query_filter_trait ::
  "('v world \<Rightarrow> entity \<Rightarrow> bool) \<Rightarrow> ('v world \<Rightarrow> entity \<Rightarrow> dep list option) \<Rightarrow>
   ('v world \<Rightarrow> entity \<Rightarrow> access list) \<Rightarrow> 'v filter_methods" where
  "query_filter_trait mat deps acc =
     \<lparr>fm_matches = mat, fm_interest = None, fm_candidate_bound = (\<lambda>W. usize_max), fm_drives = False,
      fm_hint_providers = (\<lambda>W hint. []), fm_deps = deps, fm_access = acc, fm_access_all = [],
      fm_candidates = (\<lambda>W. None), fm_bound_keys = (\<lambda>W e. []), fm_bound_key_types = [],
      fm_in_keys = (\<lambda>W e. []), fm_in_key_types = []\<rparr>"

text \<open>The empty filter\<close>

definition no_filter :: "'v filter_methods" where
  "no_filter = (query_filter_trait (\<lambda>W e. True) (\<lambda>W e. Some []) (\<lambda>W e. []))\<lparr>fm_interest := Some []\<rparr>"

text \<open>\<open>With<T>\<close>\<close>

definition with_filter :: "'v component_trait \<Rightarrow> type_id \<Rightarrow> 'v filter_methods" where
  "with_filter ct ty = (query_filter_trait (\<lambda>W e. has_component W ty e)
       (\<lambda>W e. map_option option_list (component_dep_if_tracked ct W ty e)) (\<lambda>W e. [access_read ty e]))
     \<lparr>fm_candidate_bound := (\<lambda>W. min (store_len_dyn W ty) (usize_max - 1)), fm_drives := True,
      fm_interest := Some [ty], fm_access_all := [access_read_all ty],
      fm_candidates := (\<lambda>W. Some (entities_with W ty))\<rparr>"

text \<open>\<open>Where<Eq<T>>\<close>: the providers a hinted member pairs with share its key.\<close>

definition eq_filter :: "'v component_trait \<Rightarrow> type_id \<Rightarrow> 'v filter_methods" where
  "eq_filter ct ty = (query_filter_trait (\<lambda>W e. has_component W ty e)
       (\<lambda>W e. map_option option_list (component_dep_if_tracked ct W ty e)) (\<lambda>W e. [access_read ty e]))
     \<lparr>fm_interest := Some [ty], fm_access_all := [access_read_all ty],
      fm_candidates := (\<lambda>W. Some (entities_with W ty)),
      fm_bound_keys := (\<lambda>W e. [(ty, fingerprint_of W ty e)]), fm_bound_key_types := [ty],
      fm_hint_providers := (\<lambda>W hint. concat (map (\<lambda>m. case fingerprint_of W ty m of
          None \<Rightarrow> [] | Some f \<Rightarrow> entities_with_fingerprint W ty f) hint))\<rparr>"

text \<open>\<open>Where<In<R>>\<close>: the provider of a hinted member is the target of its edge.\<close>

definition in_filter :: "'v component_trait \<Rightarrow> nat \<Rightarrow> nat \<Rightarrow> 'v filter_methods" where
  "in_filter ct r edge = (query_filter_trait (\<lambda>W e. True) (\<lambda>W e. Some []) (\<lambda>W e. []))
     \<lparr>fm_interest := Some [UserTy r],
      fm_in_keys := (\<lambda>W e. [(UserTy r, e)]), fm_in_key_types := [UserTy r],
      fm_hint_providers := (\<lambda>W hint. List.map_filter (edge_target_of ct W edge) hint)\<rparr>"

definition both_interests :: "type_id list option \<Rightarrow> type_id list option \<Rightarrow> type_id list option" where
  "both_interests l r = (case l of None \<Rightarrow> None | Some ls \<Rightarrow> map_option ((@) ls) r)"

definition intersect_candidates :: "entity list option \<Rightarrow> entity list option \<Rightarrow> entity list option" where
  "intersect_candidates l r = (case l of
     None \<Rightarrow> r
   | Some ls \<Rightarrow> (case r of None \<Rightarrow> Some ls | Some rs \<Rightarrow> Some (filter (\<lambda>e. e \<in> set rs) ls)))"

text \<open>\<open>And<L, R>\<close>\<close>

definition and_filter :: "'v filter_methods \<Rightarrow> 'v filter_methods \<Rightarrow> 'v filter_methods" where
  "and_filter l r = (query_filter_trait (\<lambda>W e. fm_matches l W e \<and> fm_matches r W e)
       (\<lambda>W e. concat_opt [fm_deps l W e, fm_deps r W e]) (\<lambda>W e. fm_access l W e @ fm_access r W e))
     \<lparr>fm_drives := fm_drives l \<or> fm_drives r,
      fm_hint_providers := (\<lambda>W hint. fm_hint_providers l W hint @ fm_hint_providers r W hint),
      fm_interest := both_interests (fm_interest l) (fm_interest r),
      fm_access_all := fm_access_all l @ fm_access_all r,
      fm_candidates := (\<lambda>W. intersect_candidates (fm_candidates l W) (fm_candidates r W)),
      fm_bound_keys := (\<lambda>W e. fm_bound_keys l W e @ fm_bound_keys r W e),
      fm_bound_key_types := fm_bound_key_types l @ fm_bound_key_types r,
      fm_in_keys := (\<lambda>W e. fm_in_keys l W e @ fm_in_keys r W e),
      fm_in_key_types := fm_in_key_types l @ fm_in_key_types r\<rparr>"

text \<open>
  \<open>Where<And<L, R>>\<close> delegates to the conjunction of \<open>Where<L>\<close> and \<open>Where<R>\<close>, except for the
  candidate-driving flag and the hint translation, which keep their defaults.
\<close>

definition where_and_filter :: "'v filter_methods \<Rightarrow> 'v filter_methods \<Rightarrow> 'v filter_methods" where
  "where_and_filter l r = (and_filter l r)\<lparr>fm_drives := False, fm_hint_providers := (\<lambda>W hint. [])\<rparr>"

text \<open>\<open>Without<T>\<close>\<close>

definition without_filter :: "type_id \<Rightarrow> 'v filter_methods" where
  "without_filter ty = (query_filter_trait (\<lambda>W e. \<not> has_component W ty e) (\<lambda>W e. Some [])
       (\<lambda>W e. [access_read ty e]))
     \<lparr>fm_interest := Some [ty], fm_access_all := [access_read_all ty]\<rparr>"

text \<open>\<open>WhereAnd l r\<close> has the filters \<open>Where<L>\<close> and \<open>Where<R>\<close> as its operands.\<close>

datatype query_filter =
    NoFilter
  | WithF type_id
  | WhereEq type_id
  | WhereIn nat nat
  | AndF query_filter query_filter
  | WhereAnd query_filter query_filter
  | WithoutF type_id

fun filter_impl :: "'v component_trait \<Rightarrow> query_filter \<Rightarrow> 'v filter_methods" where
  "filter_impl ct NoFilter = no_filter"
| "filter_impl ct (WithF ty) = with_filter ct ty"
| "filter_impl ct (WhereEq ty) = eq_filter ct ty"
| "filter_impl ct (WhereIn r edge) = in_filter ct r edge"
| "filter_impl ct (AndF l r) = and_filter (filter_impl ct l) (filter_impl ct r)"
| "filter_impl ct (WhereAnd l r) = where_and_filter (filter_impl ct l) (filter_impl ct r)"
| "filter_impl ct (WithoutF ty) = without_filter ty"

section \<open>Filtered rows\<close>

definition filtered_rows :: "'v query_methods \<Rightarrow> 'v filter_methods \<Rightarrow> 'v world \<Rightarrow> entity list" where
  "filtered_rows Q F W = filter (fm_matches F W) (qm_rows_hinted Q W (fm_candidates F W))"

definition filtered_rows_from_candidates ::
  "'v query_methods \<Rightarrow> 'v filter_methods \<Rightarrow> 'v world \<Rightarrow> entity list \<Rightarrow> entity list" where
  "filtered_rows_from_candidates Q F W cs = filter (fm_matches F W) (qm_rows_hinted Q W (Some cs))"

definition filtered_deps ::
  "'v query_methods \<Rightarrow> 'v filter_methods \<Rightarrow> 'v world \<Rightarrow> entity \<Rightarrow> dep list option" where
  "filtered_deps Q F W e = concat_opt [qm_deps Q W e, fm_deps F W e]"

definition filtered_access ::
  "'v query_methods \<Rightarrow> 'v filter_methods \<Rightarrow> 'v world \<Rightarrow> entity \<Rightarrow> access list" where
  "filtered_access Q F W e = qm_access Q W e @ fm_access F W e"

text \<open>\<open>Query::interest_types\<close>: the stores whose movement can change the rows or their dependencies.\<close>

definition query_interest :: "'v query_methods \<Rightarrow> 'v filter_methods \<Rightarrow> type_id list option" where
  "query_interest Q F = (case qm_interest Q of
     Some interest \<Rightarrow> map_option ((@) interest) (fm_interest F)
   | None \<Rightarrow> if fm_drives F then fm_interest F else None)"

lemmas part_impl_defs = query_part_trait_def ref_part_def opt_part_def tracked_part_def mut_part_def related_part_def
lemmas param_impl_defs = query_param_trait_def entity_param_def ref_param_def mut_param_def tuple_param_def
lemmas filter_impl_defs = query_filter_trait_def no_filter_def with_filter_def eq_filter_def in_filter_def
  and_filter_def where_and_filter_def without_filter_def

end
