(* ===== verification/Query_Props.thy ===== *)
theory Query_Props
  imports Queries
begin

text \<open>
  What queries promise the planner: enumeration from the cheapest store finds exactly the
  matching rows, enumeration from a hint finds exactly the matching rows of the hint, and a
  query whose declared interest has not moved has the same rows with the same dependencies.
\<close>

declare part_impl_defs [simp] param_impl_defs [simp] filter_impl_defs [simp]

section \<open>What a row is\<close>

fun param_matches :: "'v component_trait \<Rightarrow> 'v world \<Rightarrow> query_param \<Rightarrow> entity \<Rightarrow> bool" where
  "param_matches ct W (EntityParam H) e = has_all W (facet_required H) e"
| "param_matches ct W (RefParam ty) e = has_component W ty e"
| "param_matches ct W (MutParam ty) e = has_component W ty e"
| "param_matches ct W (TupleParam H ps) e =
     (has_all W (facet_required H) e \<and> list_all (\<lambda>p. pm_matches (part_impl ct p) W e) ps)"

definition row_of :: "'v component_trait \<Rightarrow> 'v world \<Rightarrow> query_param \<Rightarrow> query_filter \<Rightarrow> entity \<Rightarrow> bool" where
  "row_of ct W Q F e \<longleftrightarrow> param_matches ct W Q e \<and> fm_matches (filter_impl ct F) W e"

text \<open>Every component sits on an entity the allocator has handed out.\<close>

definition allocated :: "'v world \<Rightarrow> bool" where
  "allocated W \<longleftrightarrow> (\<forall>ty e. has_component W ty e \<longrightarrow> e < w_next_entity W)"

fun is_tracker :: "query_part \<Rightarrow> bool" where
  "is_tracker (TrackedPart _ _) = True"
| "is_tracker _ = False"

text \<open>
  The shapes whose row set is well defined: a tracker needs a facet anchor, and a bare facet
  handle no filter that enumerates candidates.
\<close>

definition anchored :: "query_param \<Rightarrow> bool" where
  "anchored Q \<longleftrightarrow> (case Q of
     TupleParam H ps \<Rightarrow> ps \<noteq> [] \<and> (facet_required H \<noteq> [] \<or> \<not> list_ex is_tracker ps)
   | EntityParam H \<Rightarrow> facet_required H = []
   | _ \<Rightarrow> True)"

lemma allocatedD: "allocated W \<Longrightarrow> has_component W ty e \<Longrightarrow> e < w_next_entity W"
  by (simp add: allocated_def)

section \<open>Enumeration\<close>

lemma set_dense_rows [simp]: "set (dense_rows W) = {e. e < w_next_entity W}"
  by (auto simp: dense_rows_def)

lemma sorted_dense_rows [simp]: "sorted_wrt (<) (dense_rows W)"
  by (simp add: dense_rows_def)

lemma entities_with_spec:
  assumes "stores_inv W"
  shows "set (entities_with W ty) = {e. has_component W ty e}" and "sorted_wrt (<) (entities_with W ty)"
proof -
  have "set (entities_with W ty) = {e. has_component W ty e} \<and> sorted_wrt (<) (entities_with W ty)"
  proof (cases "stores_get ty (w_stores W)")
    case (Some s)
    then have "store_ok (w_revision W) s" using assms by (simp add: stores_inv_def)
    then show ?thesis using Some
      by (auto simp: entities_with_def has_component_def entry_of_def store_entities_def store_ok_def
          strict_sorted_iff map_of_eq_None_iff dest: map_of_SomeD intro: rev_image_eqI simp flip: map_of_dom)
  qed (simp add: entities_with_def has_component_def entry_of_def)
  then show "set (entities_with W ty) = {e. has_component W ty e}" "sorted_wrt (<) (entities_with W ty)"
    by blast+
qed

lemma min_by_key_in: "min_by_key f x xs \<in> set (x # xs)"
proof (induction xs arbitrary: x)
  case (Cons y ys)
  have "min_by_key f x (y # ys) = min_by_key f (if f y < f x then y else x) ys"
    by (simp add: min_by_key_def)
  then show ?case using Cons.IH [of "if f y < f x then y else x"] by (auto split: if_splits)
qed (simp add: min_by_key_def)

lemma has_all_iff: "has_all W tys e \<longleftrightarrow> (\<forall>ty\<in>set tys. has_component W ty e)"
  by (simp add: has_all_def list_all_iff)

lemma facet_rows_spec:
  assumes "stores_inv W" and "presence_inv W" and "facet_required H \<noteq> []"
  shows "set (facet_rows W H) = {e. has_all W (facet_required H) e} \<and> sorted_wrt (<) (facet_rows W H)"
proof -
  obtain ty tys where H: "facet_required H = ty # tys" using assms(3) by (cases "facet_required H") auto
  let ?x = "Option.bind (w_presence W) (\<lambda>P. map_option (Pair P) (presence_mask P (ty # tys)))"
  show ?thesis
  proof (cases ?x)
    case None
    note w = entities_with_spec [OF assms(1), of "min_by_key (store_len_dyn W) ty tys"]
    have rows: "facet_rows W H = filter (has_all W (ty # tys)) (entities_with W (min_by_key (store_len_dyn W) ty tys))"
      by (simp add: facet_rows_def H None)
    have "has_component W (min_by_key (store_len_dyn W) ty tys) e" if "has_all W (ty # tys) e" for e
      using that min_by_key_in [of "store_len_dyn W" ty tys] unfolding has_all_iff by blast
    then show ?thesis unfolding rows H by (auto simp: w(1) intro: sorted_wrt_filter [OF w(2)])
  next
    case (Some y)
    then obtain P m where P: "w_presence W = Some P" "presence_mask P (ty # tys) = Some m"
      and "?x = Some (P, m)" by (auto split: Option.bind_splits)
    then show ?thesis
      using presence_inv_mask(2) [OF assms(2) P] by (simp add: facet_rows_def H has_all_def list_all_iff)
  qed
qed

lemma query_part_cases [case_names Ref OptRef Mut Tracker Related]:
  obtains ty where "p = ReadPart (Ref ty)" | ty where "p = ReadPart (OptRef ty)" | ty where "p = MutPart ty"
  | m H where "p = TrackedPart m H" | r ed ps where "p = Related r ed ps"
  by (metis query_part.exhaust read_part.exhaust)

lemma requirements_iff:
  "requirements (map (part_impl ct) ps) = Some tys \<Longrightarrow> (\<forall>ty\<in>set tys. has_component W ty e) \<longleftrightarrow> list_all (\<lambda>p. pm_matches (part_impl ct p) W e) ps"
proof (induction ps arbitrary: tys)
  case (Cons p ps)
  then show ?case by (cases p rule: query_part_cases) auto
qed simp

lemma retain_eq:
  assumes "presence_inv W"
  shows "retain_matching_parts W (map (part_impl ct) ps) cs = filter (\<lambda>e. list_all (\<lambda>p. pm_matches (part_impl ct p) W e) ps) cs"
proof (cases "Option.bind (w_presence W) (\<lambda>P. Option.bind (requirements (map (part_impl ct) ps))
         (\<lambda>tys. map_option (Pair P) (presence_mask P tys)))")
  case (Some x)
  then obtain P tys m where P: "w_presence W = Some P" "requirements (map (part_impl ct) ps) = Some tys" "presence_mask P tys = Some m"
    by (auto split: Option.bind_splits)
  show ?thesis
    by (simp add: retain_matching_parts_def P presence_inv_mask(1) [OF assms P(1,3)]
        requirements_iff [OF P(2), of W])
qed (simp add: retain_matching_parts_def list.pred_map o_def)

lemma best_part_bounds: "best_part W ps bl bi i = bi \<or> best_part W ps bl bi i < i + length ps"
proof (induction ps arbitrary: bl bi i)
  case (Cons p ps)
  have "best_part W ps b i (i + 1) \<noteq> bi \<Longrightarrow> best_part W ps b i (i + 1) < i + length (p # ps)" for b
    using Cons.IH [of b i "i + 1"] by auto
  then show ?case using Cons.IH [of bl bi "i + 1"] by auto
qed simp

lemma part_candidates_spec:
  assumes "stores_inv W" and "allocated W" and "\<not> is_tracker p"
  shows "set (pm_candidates (part_impl ct p) W) = {e. e < w_next_entity W \<and> pm_matches (part_impl ct p) W e}
    \<and> sorted_wrt (<) (pm_candidates (part_impl ct p) W)"
  using assms by (cases p rule: query_part_cases) (auto simp: entities_with_spec dest: allocatedD)

lemma part_candidates_sorted:
  assumes "stores_inv W" and "\<not> is_tracker p"
  shows "sorted_wrt (<) (pm_candidates (part_impl ct p) W)"
  using assms by (cases p rule: query_part_cases) (auto simp: entities_with_spec)

lemma facet_required_iff: "list_ex (\<lambda>p. \<not> part_optional p) H \<longleftrightarrow> facet_required H \<noteq> []"
  by (auto simp: facet_required_def list_ex_iff filter_empty_conv)

lemma tuple_rows_spec:
  assumes inv: "stores_inv W" "presence_inv W" and al: "allocated W" and Q: "anchored (TupleParam H ps)"
  shows "set (tuple_rows H (map (part_impl ct) ps) W) = {e. e < w_next_entity W \<and> param_matches ct W (TupleParam H ps) e}
    \<and> sorted_wrt (<) (tuple_rows H (map (part_impl ct) ps) W)"
proof (cases "facet_required H = []")
  case False
  note f = facet_rows_spec [OF inv False]
  have rows: "tuple_rows H (map (part_impl ct) ps) W = filter (\<lambda>e. list_all (\<lambda>p. pm_matches (part_impl ct p) W e) ps) (facet_rows W H)"
    using False by (simp add: tuple_rows_def facet_required_iff retain_eq [OF inv(2)])
  have "e < w_next_entity W" if "has_all W (facet_required H) e" for e
    using that False al unfolding has_all_iff by (cases "facet_required H") (auto dest: allocatedD)
  then show ?thesis unfolding rows using f by (auto intro: sorted_wrt_filter)
next
  case True
  let ?b = "best_part W (map (part_impl ct) ps) usize_max 0 0"
  have b: "?b < length ps" and nt: "\<not> is_tracker (ps ! ?b)"
    using Q True best_part_bounds [of W "map (part_impl ct) ps" usize_max 0 0] by (auto simp: anchored_def list_ex_length)
  note c = part_candidates_spec [OF inv(1) al nt]
  have all: "list_all (\<lambda>p. pm_matches (part_impl ct p) W e) ps \<Longrightarrow> pm_matches (part_impl ct (ps ! ?b)) W e" for e
    using b by (simp add: list_all_length)
  show ?thesis
  proof (cases "length ps > 1")
    case l: True
    have rows: "tuple_rows H (map (part_impl ct) ps) W = filter (\<lambda>e. list_all (\<lambda>p. pm_matches (part_impl ct p) W e) ps) (pm_candidates (part_impl ct (ps ! ?b)) W)"
      using True b l by (simp add: tuple_rows_def facet_required_iff Let_def retain_eq [OF inv(2)])
    show ?thesis unfolding rows using c all True by (auto simp: has_all_def intro: sorted_wrt_filter)
  next
    case False
    then obtain p where ps: "ps = [p]" using b by (cases ps) auto
    have b0: "?b = 0" using b by (simp add: ps)
    have rows: "tuple_rows H (map (part_impl ct) ps) W = pm_candidates (part_impl ct p) W"
      using True False b b0 by (simp add: tuple_rows_def facet_required_iff Let_def ps)
    show ?thesis unfolding rows using c True b0 by (simp add: ps has_all_def)
  qed
qed

lemma param_rows_spec:
  assumes inv: "stores_inv W" "presence_inv W" and al: "allocated W" and Q: "anchored Q"
  shows "set (qm_rows (param_impl ct Q) W) = {e. e < w_next_entity W \<and> param_matches ct W Q e} \<and> sorted_wrt (<) (qm_rows (param_impl ct Q) W)"
proof (cases Q)
  case (EntityParam H)
  then show ?thesis using Q by (simp add: anchored_def facet_rows_def has_all_def)
next
  case (TupleParam H ps)
  then show ?thesis using tuple_rows_spec [OF inv al] Q by simp
qed (use entities_with_spec [OF inv(1)] allocatedD [OF al] in auto)

lemma param_rows_from_eq:
  assumes "presence_inv W" and "anchored Q"
  shows "qm_rows_hinted (param_impl ct Q) W (Some cs) = filter (param_matches ct W Q) cs"
  using assms by (cases Q) (auto simp: anchored_def retain_eq has_all_def intro!: filter_cong)

lemma intersect_candidatesE:
  assumes "intersect_candidates l r = Some cs"
  obtains ls rs where "l = Some ls" "r = Some rs" "cs = filter (\<lambda>e. e \<in> set rs) ls"
  | "l = Some cs" "r = None" | "l = None" "r = Some cs"
  using assms by (auto simp: intersect_candidates_def split: option.splits)

lemma entity_candidates_spec:
  assumes "stores_inv W" and "allocated W" and "fm_candidates (filter_impl ct F) W = Some cs"
  shows "(\<forall>e. fm_matches (filter_impl ct F) W e \<longrightarrow> e \<in> set cs) \<and> (\<forall>e\<in>set cs. e < w_next_entity W) \<and> sorted_wrt (<) cs"
  using assms(3)
proof (induction F arbitrary: cs)
  case (AndF l r)
  show ?case using AndF.prems AndF.IH by (auto elim!: intersect_candidatesE intro: sorted_wrt_filter)
next
  case (WhereAnd l r)
  show ?case using WhereAnd.prems WhereAnd.IH by (auto elim!: intersect_candidatesE intro: sorted_wrt_filter)
qed (use entities_with_spec [OF assms(1)] allocatedD [OF assms(2)] in auto)

lemma rows_unhinted [simp]: "qm_rows_hinted (param_impl ct Q) W None = qm_rows (param_impl ct Q) W"
  by (cases Q) simp_all

lemma filtered_rows_eq:
  assumes inv: "stores_inv W" "presence_inv W" and al: "allocated W" and Q: "anchored Q"
  shows "filtered_rows (param_impl ct Q) (filter_impl ct F) W = filter (row_of ct W Q F) (dense_rows W)"
proof (rule strict_sorted_equal)
  show "sorted_wrt (<) (filter (row_of ct W Q F) (dense_rows W))" by (intro sorted_wrt_filter) simp
  show "sorted_wrt (<) (filtered_rows (param_impl ct Q) (filter_impl ct F) W)"
  proof (cases "fm_candidates (filter_impl ct F) W")
    case (Some cs)
    then show ?thesis using entity_candidates_spec [OF inv(1) al Some]
      by (auto simp: filtered_rows_def param_rows_from_eq [OF inv(2) Q] intro: sorted_wrt_filter)
  qed (use param_rows_spec [OF inv al Q] in \<open>auto simp: filtered_rows_def intro: sorted_wrt_filter\<close>)
  show "set (filtered_rows (param_impl ct Q) (filter_impl ct F) W) = set (filter (row_of ct W Q F) (dense_rows W))"
  proof (cases "fm_candidates (filter_impl ct F) W")
    case (Some cs)
    then show ?thesis using entity_candidates_spec [OF inv(1) al Some]
      by (auto simp: filtered_rows_def param_rows_from_eq [OF inv(2) Q] row_of_def)
  qed (use param_rows_spec [OF inv al Q] in \<open>auto simp: filtered_rows_def row_of_def\<close>)
qed

section \<open>Declared interest\<close>

text \<open>
  A query bounded by its own interest; a row drawn from a store, not from the id scan; the
  inverses its relationship projections read.
\<close>

definition bounded :: "'v component_trait \<Rightarrow> query_param \<Rightarrow> bool" where
  "bounded ct Q \<longleftrightarrow> qm_interest (param_impl ct Q) \<noteq> None \<or> Q = EntityParam []"

fun part_drives :: "query_part \<Rightarrow> bool" where
  "part_drives (ReadPart (Ref _)) = True"
| "part_drives (MutPart _) = True"
| "part_drives _ = False"

fun param_drives :: "query_param \<Rightarrow> bool" where
  "param_drives (EntityParam H) = (facet_required H \<noteq> [])"
| "param_drives (TupleParam H ps) = (facet_required H \<noteq> [] \<or> list_ex part_drives ps)"
| "param_drives _ = True"

fun filter_drives :: "query_filter \<Rightarrow> bool" where
  "filter_drives (WithF _) = True"
| "filter_drives (WhereEq _) = True"
| "filter_drives (AndF l r) = (filter_drives l \<or> filter_drives r)"
| "filter_drives (WhereAnd l r) = (filter_drives l \<or> filter_drives r)"
| "filter_drives _ = False"

fun part_inverses :: "query_part \<Rightarrow> nat list" where
  "part_inverses (Related r _ _) = [r]"
| "part_inverses _ = []"

fun param_inverses :: "query_param \<Rightarrow> nat list" where
  "param_inverses (TupleParam _ ps) = concat (map part_inverses ps)"
| "param_inverses _ = []"

lemma filter_drives_component: "filter_drives F \<Longrightarrow> fm_matches (filter_impl ct F) W e \<Longrightarrow> \<exists>ty. has_component W ty e"
  by (induction F) auto

lemma param_drives_component: "param_drives Q \<Longrightarrow> param_matches ct W Q e \<Longrightarrow> \<exists>ty. has_component W ty e"
proof (cases Q)
  case (TupleParam H ps)
  assume d: "param_drives Q" and m: "param_matches ct W Q e"
  have "part_drives p \<Longrightarrow> pm_matches (part_impl ct p) W e \<Longrightarrow> \<exists>ty. has_component W ty e" for p
    by (cases p rule: query_part_cases) auto
  then show ?thesis using d m TupleParam
    by (cases "facet_required H") (auto simp: has_all_iff list_ex_iff list_all_iff)
next
  case (EntityParam H)
  then show "param_drives Q \<Longrightarrow> param_matches ct W Q e \<Longrightarrow> ?thesis"
    by (cases "facet_required H") (auto simp: has_all_iff)
qed auto

text \<open>The two worlds agree on some entities' rows of a list of stores.\<close>

definition same_rows :: "entity set \<Rightarrow> 'v world \<Rightarrow> 'v world \<Rightarrow> type_id list \<Rightarrow> bool" where
  "same_rows E W W' tys \<longleftrightarrow> (\<forall>ty\<in>set tys. \<forall>e\<in>E.
     has_component W' ty e = has_component W ty e \<and> revision_by_type W' ty e = revision_by_type W ty e)"

lemma revision_by_type_entry: "revision_by_type W ty e = map_option ce_revision (entry_of W ty e)"
  by (auto simp: revision_by_type_def entry_of_def revision_for_entity_def split: Option.bind_split)

lemma similar_rows:
  "rel_option similar x y \<Longrightarrow> (y \<noteq> None) = (x \<noteq> None) \<and> map_option ce_revision y = map_option ce_revision x"
  by (cases x; cases y) (auto simp: similar_def)

lemma same_rowsD:
  "same_rows E W W' tys \<Longrightarrow> ty \<in> set tys \<Longrightarrow> e \<in> E \<Longrightarrow> has_component W' ty e = has_component W ty e"
  "same_rows E W W' tys \<Longrightarrow> ty \<in> set tys \<Longrightarrow> e \<in> E \<Longrightarrow> revision_by_type W' ty e = revision_by_type W ty e"
  by (simp_all add: same_rows_def)

lemma same_rows_append [simp]: "same_rows E W W' (xs @ ys) \<longleftrightarrow> same_rows E W W' xs \<and> same_rows E W W' ys"
  by (auto simp: same_rows_def)

lemma same_rows_deps:
  assumes "same_rows E W W' [ty]" and "e \<in> E"
  shows "component_dep_if_tracked ct W' ty e = component_dep_if_tracked ct W ty e"
    and "optional_component_dep ct W' ty e = optional_component_dep ct W ty e"
  using assms by (simp_all add: component_dep_if_tracked_def optional_component_dep_def same_rows_def)

lemma has_all_same: "same_rows E W W' tys \<Longrightarrow> e \<in> E \<Longrightarrow> has_all W' tys e = has_all W tys e"
  by (auto simp: has_all_iff same_rows_def)

lemma facet_required_same: "same_rows E W W' (map part_type H) \<Longrightarrow> same_rows E W W' (facet_required H)"
  by (auto simp: same_rows_def facet_required_def)

lemma read_impl_interest: "pm_interest (read_impl ct q) = Some [read_type q]"
  by (cases q) simp_all

lemma related_interest_eq: "related_interest (map (read_impl ct) ps) = Some (map read_type ps)"
  by (induction ps) (simp_all add: related_interest_def read_impl_interest)

lemma read_same:
  assumes "same_rows E W W' [read_type q]" and "m \<in> E"
  shows "pm_matches (read_impl ct q) W' m = pm_matches (read_impl ct q) W m"
    and "pm_member_deps (read_impl ct q) W' m = pm_member_deps (read_impl ct q) W m"
    and "pm_deps (read_impl ct q) W' m = pm_deps (read_impl ct q) W m"
    and "pm_access (read_impl ct q) W' m = pm_access (read_impl ct q) W m"
  using assms by (cases q; simp add: same_rows_deps same_rowsD)+

lemma part_same:
  assumes "pm_interest (part_impl ct p) = Some tys" and "same_rows E W W' tys"
    and "\<forall>r\<in>set (part_inverses p). E = UNIV \<and> inverse_members ct W' r = inverse_members ct W r"
    and e: "e \<in> E"
  shows "pm_matches (part_impl ct p) W' e = pm_matches (part_impl ct p) W e
    \<and> pm_deps (part_impl ct p) W' e = pm_deps (part_impl ct p) W e
    \<and> pm_access (part_impl ct p) W' e = pm_access (part_impl ct p) W e"
  using assms
proof (cases p)
  case (ReadPart q)
  then show ?thesis using assms(1,2) e read_same [of E W W' q e] by (simp add: read_impl_interest)
next
  case (TrackedPart m H)
  then show ?thesis using assms by (auto simp: tracker_dep_def same_rows_def)
next
  case (Related r ed ps)
  have tys: "tys = UserTy r # map read_type ps" using assms(1) Related by (simp add: related_interest_eq)
  have q: "same_rows E W W' [read_type q]" "m \<in> E" if "q \<in> set ps" for q m
    using assms(2,3) that Related by (auto simp: tys same_rows_def)
  have "related_observed_deps (map (read_impl ct) ps) W' = related_observed_deps (map (read_impl ct) ps) W"
    "related_access (map (read_impl ct) ps) W' = related_access (map (read_impl ct) ps) W"
    using read_same [OF q] by (auto simp: related_observed_deps_def related_access_def fun_eq_iff o_def cong: map_cong)
  moreover have "same_rows E W W' [UserTy r]" using assms(2) by (simp add: tys same_rows_def)
  ultimately show ?thesis using assms(3) e Related by (simp add: same_rows_deps(2))
qed (use e in \<open>auto simp: same_rows_deps same_rowsD\<close>)

lemma both_interestsE:
  assumes "both_interests l r = Some tys"
  obtains ls rs where "l = Some ls" "r = Some rs" "tys = ls @ rs"
  using assms by (auto simp: both_interests_def split: option.splits)

lemma filter_same:
  assumes "fm_interest (filter_impl ct F) = Some tys" and "same_rows E W W' tys" and "e \<in> E"
  shows "fm_matches (filter_impl ct F) W' e = fm_matches (filter_impl ct F) W e
    \<and> fm_deps (filter_impl ct F) W' e = fm_deps (filter_impl ct F) W e
    \<and> fm_access (filter_impl ct F) W' e = fm_access (filter_impl ct F) W e"
  using assms
proof (induction F arbitrary: tys)
  case (AndF l r)
  then obtain ls rs where "fm_interest (filter_impl ct l) = Some ls" "fm_interest (filter_impl ct r) = Some rs" "tys = ls @ rs"
    by (auto elim: both_interestsE)
  then show ?case using AndF.IH(1) [of ls] AndF.IH(2) [of rs] AndF.prems(2,3) by (simp split: option.split)
next
  case (WhereAnd l r)
  then obtain ls rs where "fm_interest (filter_impl ct l) = Some ls" "fm_interest (filter_impl ct r) = Some rs" "tys = ls @ rs"
    by (auto elim: both_interestsE)
  then show ?case using WhereAnd.IH(1) [of ls] WhereAnd.IH(2) [of rs] WhereAnd.prems(2,3) by (simp split: option.split)
qed (auto simp: same_rows_deps same_rowsD)

lemma concat_opt_Some: "concat_opt xs = Some ys \<Longrightarrow> x \<in> set xs \<Longrightarrow> \<exists>zs. x = Some zs \<and> set zs \<subseteq> set ys"
  by (induction xs arbitrary: ys) (auto split: option.splits, blast)

lemma same_rows_mono: "same_rows E W W' tys \<Longrightarrow> set tys' \<subseteq> set tys \<Longrightarrow> same_rows E W W' tys'"
  by (auto simp: same_rows_def)

lemma in_set_map: "x \<in> set xs \<Longrightarrow> f x \<in> set (map f xs)"
  by simp

lemma param_same:
  assumes "qm_interest (param_impl ct Q) = Some tys" and "same_rows E W W' tys"
    and "\<forall>r\<in>set (param_inverses Q). E = UNIV \<and> inverse_members ct W' r = inverse_members ct W r"
    and e: "e \<in> E"
  shows "param_matches ct W' Q e = param_matches ct W Q e \<and> qm_deps (param_impl ct Q) W' e = qm_deps (param_impl ct Q) W e
    \<and> qm_access (param_impl ct Q) W' e = qm_access (param_impl ct Q) W e"
proof (cases Q)
  case (EntityParam H)
  then show ?thesis using assms(1,2) e has_all_same [OF facet_required_same, of E W W' H e]
    by (auto split: if_splits)
next
  case (TupleParam H ps)
  then obtain zs where zs: "concat_opt (map (pm_interest \<circ> part_impl ct) ps) = Some zs" "tys = map part_type H @ zs"
    using assms(1) by (auto split: if_splits)
  have p: "pm_matches (part_impl ct p) W' e = pm_matches (part_impl ct p) W e \<and> pm_deps (part_impl ct p) W' e = pm_deps (part_impl ct p) W e
    \<and> pm_access (part_impl ct p) W' e = pm_access (part_impl ct p) W e" if pin: "p \<in> set ps" for p
  proof -
    have "(pm_interest \<circ> part_impl ct) p \<in> set (map (pm_interest \<circ> part_impl ct) ps)" using pin by (rule in_set_map)
    then obtain z where z: "pm_interest (part_impl ct p) = Some z" "set z \<subseteq> set zs"
      using concat_opt_Some [OF zs(1)] unfolding o_def by blast
    have "same_rows E W W' z" using assms(2) z(2) unfolding zs(2) same_rows_append by (blast intro: same_rows_mono)
    moreover have "\<forall>r\<in>set (part_inverses p). E = UNIV \<and> inverse_members ct W' r = inverse_members ct W r"
      using assms(3) pin unfolding TupleParam by auto
    ultimately show ?thesis using e by (rule part_same [OF z(1)])
  qed
  have eqs: "map (\<lambda>p. pm_deps (part_impl ct p) W' e) ps = map (\<lambda>p. pm_deps (part_impl ct p) W e) ps"
    "map (\<lambda>p. pm_access (part_impl ct p) W' e) ps = map (\<lambda>p. pm_access (part_impl ct p) W e) ps"
    using p by (simp_all cong: map_cong del: part_impl.simps)
  have m: "list_all (\<lambda>p. pm_matches (part_impl ct p) W' e) ps = list_all (\<lambda>p. pm_matches (part_impl ct p) W e) ps"
    using p by (simp cong: list.pred_cong)
  have h: "has_all W' (facet_required H) e = has_all W (facet_required H) e"
    using assms(2) using e by (intro has_all_same facet_required_same) (simp_all add: zs(2))
  have d: "qm_deps (param_impl ct Q) V e = concat_opt (map (\<lambda>p. pm_deps (part_impl ct p) V e) ps)"
    "qm_access (param_impl ct Q) V e = concat (map (\<lambda>p. pm_access (part_impl ct p) V e) ps)" for V
    by (simp_all add: TupleParam o_def)
  show ?thesis unfolding d eqs by (simp add: TupleParam m h)
qed (use assms in \<open>auto simp: same_rows_deps same_rowsD\<close>)

lemma query_same:
  assumes "bounded ct Q" and "query_interest (param_impl ct Q) (filter_impl ct F) = Some tys" and "same_rows E W W' tys"
    and "\<forall>r\<in>set (param_inverses Q). E = UNIV \<and> inverse_members ct W' r = inverse_members ct W r"
    and e: "e \<in> E"
  shows "row_of ct W' Q F e = row_of ct W Q F e \<and> filtered_deps (param_impl ct Q) (filter_impl ct F) W' e = filtered_deps (param_impl ct Q) (filter_impl ct F) W e
    \<and> filtered_access (param_impl ct Q) (filter_impl ct F) W' e = filtered_access (param_impl ct Q) (filter_impl ct F) W e"
proof -
  obtain tf where tf: "fm_interest (filter_impl ct F) = Some tf" "set tf \<subseteq> set tys"
    using assms(2) by (auto simp: query_interest_def split: option.splits if_splits)
  note f = filter_same [OF tf(1) same_rows_mono [OF assms(3) tf(2)] e]
  show ?thesis
  proof (cases "qm_interest (param_impl ct Q)")
    case None
    then have "Q = EntityParam []" using assms(1) by (simp add: bounded_def)
    then show ?thesis using f by (simp add: row_of_def filtered_deps_def filtered_access_def has_all_def facet_required_def)
  next
    case (Some tq)
    then have "set tq \<subseteq> set tys" using assms(2) by (auto simp: query_interest_def)
    then have "param_matches ct W' Q e = param_matches ct W Q e \<and> qm_deps (param_impl ct Q) W' e = qm_deps (param_impl ct Q) W e
      \<and> qm_access (param_impl ct Q) W' e = qm_access (param_impl ct Q) W e"
      by (intro param_same [OF Some same_rows_mono [OF assms(3)] assms(4) e])
    then show ?thesis using f by (simp add: row_of_def filtered_deps_def filtered_access_def)
  qed
qed

section \<open>Rows can be planned and fetched\<close>

definition covered :: "dep list option \<Rightarrow> access list \<Rightarrow> bool" where
  "covered ds as \<longleftrightarrow> (\<exists>xs. ds = Some xs
     \<and> (\<lambda>d. (dep_type d, Some (dep_entity d))) ` set xs \<subseteq> (\<lambda>a. (acc_component a, acc_entity a)) ` set as)"

lemma covered_append: "covered x as \<Longrightarrow> covered y bs \<Longrightarrow> covered (concat_opt [x, y]) (as @ bs)"
  unfolding covered_def by (elim exE conjE) (simp add: image_Un le_supI1 le_supI2)

lemma covered_concat:
  "list_all (\<lambda>p. covered (f p) (g p)) ps \<Longrightarrow> covered (concat_opt (map f ps)) (concat (map g ps))"
proof (induction ps)
  case (Cons p ps)
  then have "covered (concat_opt [f p, concat_opt (map f ps)]) (g p @ concat (map g ps))"
    by (intro covered_append) simp_all
  then show ?case by (auto simp: covered_def split: option.splits)
qed (simp add: covered_def)

lemma covered_required:
  assumes "has_component W ty e" and "acc_component a = ty" and "acc_entity a = Some e"
  shows "covered (map_option option_list (component_dep_if_tracked ct W ty e)) [a]"
proof -
  obtain r where "revision_by_type W ty e = Some r"
    using assms(1) by (auto simp: has_component_def revision_by_type_entry)
  then show ?thesis using assms(2,3) by (simp add: covered_def component_dep_if_tracked_def option_list_def)
qed

lemma covered_optional:
  "acc_component a = ty \<Longrightarrow> acc_entity a = Some e \<Longrightarrow>
    covered (Some (option_list (optional_component_dep ct W ty e))) [a]"
  by (simp add: covered_def optional_component_dep_def option_list_def)

lemma access_fields [simp]:
  "acc_component (access_read ty e) = ty" "acc_entity (access_read ty e) = Some e"
  "acc_component (access_write ty e) = ty" "acc_entity (access_write ty e) = Some e"
  by (simp_all add: access_read_def access_write_def)

lemma value_of_Some: "has_component W ty e \<Longrightarrow> \<exists>v. value_of W ty e = Some v"
  by (auto simp: value_of_def has_component_def)

lemma all_opt_defined: "list_all (\<lambda>x. x \<noteq> None) xs \<Longrightarrow> all_opt xs \<noteq> None"
proof (induction xs)
  case (Cons x xs)
  then obtain y zs where "x = Some y" "all_opt xs = Some zs" by auto
  then show ?case by (simp add: all_opt_def)
qed (simp add: all_opt_def)

lemma read_fetch: "pm_matches (read_impl ct q) W m \<Longrightarrow> pm_fetch (read_impl ct q) W m \<noteq> None"
  using value_of_Some [of W _ m] by (cases q) auto

lemma part_runs:
  assumes "pm_matches (part_impl ct p) W e"
  shows "covered (pm_deps (part_impl ct p) W e) (pm_access (part_impl ct p) W e)"
    and "pm_fetch (part_impl ct p) W e \<noteq> None"
proof -
  have "covered (pm_deps (part_impl ct p) W e) (pm_access (part_impl ct p) W e)
    \<and> pm_fetch (part_impl ct p) W e \<noteq> None"
  proof (cases p rule: query_part_cases)
    case (Ref ty)
    then show ?thesis using assms value_of_Some [of W ty e] by (auto intro: covered_required)
  next
    case (Mut ty)
    then show ?thesis using assms value_of_Some [of W ty e] by (auto intro: covered_required)
  next
    case (OptRef ty)
    then show ?thesis by (simp add: covered_optional)
  next
    case (Tracker m H)
    then show ?thesis by (auto simp: covered_def tracker_dep_def image_image)
  next
    case (Related r ed ps)
    let ?ps = "map (read_impl ct) ps"
    have member: "covered (related_observed_deps ?ps W m) (related_access ?ps W m)" for m
      unfolding related_observed_deps_def related_access_def
    proof (rule covered_concat)
      have "covered (pm_member_deps (read_impl ct q) W m) (pm_access (read_impl ct q) W m)" for q
        by (cases q) (simp_all add: covered_optional)
      then show "list_all (\<lambda>p. covered (pm_member_deps p W m) (pm_access p W m)) ?ps" by (simp add: list_all_iff)
    qed
    have "covered (concat_opt (map (related_observed_deps ?ps W) (inverse_members ct W r e)))
        (concat (map (related_access ?ps W) (inverse_members ct W r e)))"
      by (rule covered_concat) (simp add: member list_all_iff)
    then have "covered (concat_opt [Some (option_list (optional_component_dep ct W (UserTy r) e)),
          concat_opt (map (related_observed_deps ?ps W) (inverse_members ct W r e))])
        ([access_read (UserTy r) e] @ concat (map (related_access ?ps W) (inverse_members ct W r e)))"
      by (intro covered_append covered_optional) simp_all
    then have "covered (pm_deps (part_impl ct p) W e) (pm_access (part_impl ct p) W e)"
      using Related by (auto simp: covered_def split: option.splits)
    moreover have "related_fetch ?ps W m \<noteq> None" if "related_matches ?ps W m" for m
      using that read_fetch [of ct _ W m] unfolding related_fetch_def related_matches_def
      by (intro all_opt_defined) (simp add: list_all_iff)
    then have "all_opt (map (\<lambda>m. map_option (Pair m) (related_fetch ?ps W m))
        (filter (related_matches ?ps W) (inverse_members ct W r e))) \<noteq> None"
      by (intro all_opt_defined) (simp add: list_all_iff)
    ultimately show ?thesis using Related by simp
  qed
  then show "covered (pm_deps (part_impl ct p) W e) (pm_access (part_impl ct p) W e)"
    and "pm_fetch (part_impl ct p) W e \<noteq> None" by simp_all
qed

lemma param_runs:
  assumes "param_matches ct W Q e"
  shows "covered (qm_deps (param_impl ct Q) W e) (qm_access (param_impl ct Q) W e)"
    and "qm_fetch (param_impl ct Q) W e \<noteq> None"
proof -
  have "covered (qm_deps (param_impl ct Q) W e) (qm_access (param_impl ct Q) W e)
    \<and> qm_fetch (param_impl ct Q) W e \<noteq> None"
  proof (cases Q)
    case (EntityParam H)
    then show ?thesis by (simp add: covered_def)
  next
    case (RefParam ty)
    then show ?thesis using assms value_of_Some [of W ty e] by (auto intro: covered_required)
  next
    case (MutParam ty)
    then show ?thesis using assms value_of_Some [of W ty e] by (auto intro: covered_required)
  next
    case (TupleParam H ps)
    have m: "p \<in> set ps \<Longrightarrow> pm_matches (part_impl ct p) W e" for p
      using assms TupleParam by (simp add: list_all_iff)
    have "covered (concat_opt (map (\<lambda>p. pm_deps (part_impl ct p) W e) ps)) (concat (map (\<lambda>p. pm_access (part_impl ct p) W e) ps))"
      by (rule covered_concat) (use part_runs(1) [OF m] in \<open>simp add: list_all_iff\<close>)
    moreover have "all_opt (map (\<lambda>p. pm_fetch (part_impl ct p) W e) ps) \<noteq> None"
      by (rule all_opt_defined) (use part_runs(2) [OF m] in \<open>simp add: list_all_iff\<close>)
    ultimately show ?thesis by (simp add: TupleParam o_def)
  qed
  then show "covered (qm_deps (param_impl ct Q) W e) (qm_access (param_impl ct Q) W e)"
    and "qm_fetch (param_impl ct Q) W e \<noteq> None" by simp_all
qed

lemma filter_runs:
  "fm_matches (filter_impl ct F) W e \<Longrightarrow> covered (fm_deps (filter_impl ct F) W e) (fm_access (filter_impl ct F) W e)"
proof (induction F)
  case (AndF l r)
  then have "covered (concat_opt [fm_deps (filter_impl ct l) W e, fm_deps (filter_impl ct r) W e])
      (fm_access (filter_impl ct l) W e @ fm_access (filter_impl ct r) W e)"
    by (intro covered_append) simp_all
  then show ?case by simp
next
  case (WhereAnd l r)
  then have "covered (concat_opt [fm_deps (filter_impl ct l) W e, fm_deps (filter_impl ct r) W e])
      (fm_access (filter_impl ct l) W e @ fm_access (filter_impl ct r) W e)"
    by (intro covered_append) simp_all
  then show ?case by simp
qed (auto simp: covered_required, auto simp: covered_def)

section \<open>Properties\<close>

text \<open>
  The rows a query promises, and the one shape that lists others: a bare facet handle checks its
  facet only when it enumerates by itself, not when a filter offers it candidates.  A tracker
  needs a facet anchor to have rows of its own.
\<close>

definition tracker_anchored :: "query_param \<Rightarrow> bool" where
  "tracker_anchored Q \<longleftrightarrow> (case Q of
     TupleParam H ps \<Rightarrow> ps \<noteq> [] \<and> (facet_required H \<noteq> [] \<or> \<not> list_ex is_tracker ps)
   | _ \<Rightarrow> True)"

definition listed :: "'v component_trait \<Rightarrow> 'v world \<Rightarrow> query_param \<Rightarrow> entity list option \<Rightarrow> entity \<Rightarrow> bool" where
  "listed ct W Q offered e \<longleftrightarrow> (case Q of
     EntityParam H \<Rightarrow> offered \<noteq> None \<or> has_all W (facet_required H) e
   | _ \<Rightarrow> param_matches ct W Q e)"

lemma anchored_cases:
  assumes "tracker_anchored Q"
  obtains "anchored Q" "\<And>e. listed ct W Q offered e = param_matches ct W Q e"
  | H where "Q = EntityParam H" "facet_required H \<noteq> []"
proof (cases Q)
  case (EntityParam H)
  show ?thesis
  proof (cases "facet_required H = []")
    case True
    then show ?thesis using EntityParam by (intro that(1)) (simp_all add: anchored_def listed_def has_all_def)
  qed (use that(2) EntityParam in blast)
qed (use assms that(1) in \<open>simp_all add: anchored_def tracker_anchored_def listed_def\<close>)

lemma facet_rows_allocated:
  assumes "stores_inv W" "presence_inv W" and "allocated W" and "facet_required H \<noteq> []"
  shows "facet_rows W H = filter (has_all W (facet_required H)) [0..<w_next_entity W]"
proof (rule strict_sorted_equal)
  note f = facet_rows_spec [OF assms(1,2,4)]
  show "sorted_wrt (<) (facet_rows W H)" using f by simp
  have "e < w_next_entity W" if "has_all W (facet_required H) e" for e
    using that assms(3,4) unfolding has_all_iff by (cases "facet_required H") (auto dest: allocatedD)
  then show "set (facet_rows W H) = set (filter (has_all W (facet_required H)) [0..<w_next_entity W])" using f by auto
qed (intro sorted_wrt_filter, simp)

lemma matching_candidates:
  assumes "\<And>e. P e \<Longrightarrow> e \<in> set cs" and "\<And>e. e \<in> set cs \<Longrightarrow> e < n" and "sorted_wrt (<) cs"
  shows "filter P cs = filter P [0..<n :: nat]"
  by (rule strict_sorted_equal) (use assms in \<open>auto intro: sorted_wrt_filter\<close>)

lemma bare_rows:
  assumes "stores_inv W" "presence_inv W" and "allocated W" and H: "facet_required H \<noteq> []"
    and cs: "case cs of None \<Rightarrow> True | Some es \<Rightarrow> (\<forall>e. P e \<longrightarrow> e \<in> set es) \<and> (\<forall>e\<in>set es. e < w_next_entity W) \<and> sorted_wrt (<) es"
  shows "filter P (qm_rows_hinted (entity_param H) W cs) = filter (\<lambda>e. listed ct W (EntityParam H) cs e \<and> P e) [0..<w_next_entity W]"
proof (cases cs)
  case None
  then show ?thesis
    by (auto simp: param_impl_defs listed_def facet_rows_allocated [OF assms(1-3) H] filter_filter intro: filter_cong)
next
  case (Some es)
  then show ?thesis using cs matching_candidates [of P es "w_next_entity W"] by (simp add: param_impl_defs listed_def)
qed

text \<open>
  C27. Row enumeration is exact.  Whatever it drives from (a bitmap scan, the smallest store of
  the tuple, the candidates of a filter, the id scan) and whatever shortcut it probes with, a
  query lists the rows a scan over every allocated entity would, in the same order.  The one
  exception is part of the statement: a bare facet handle whose filter offers candidates lists
  every entity that matches the filter, with or without the facet.  Trackers come with a facet
  anchor, and every component is on an id that has been allocated.
\<close>

theorem filtered_rows_exact:
  assumes "reachable ct (X, W)" and al: "allocated W" and Q: "tracker_anchored Q"
  shows "filtered_rows (param_impl ct Q) (filter_impl ct F) W
    = filter (\<lambda>e. (case Q of EntityParam H \<Rightarrow> fm_candidates (filter_impl ct F) W \<noteq> None \<or> has_all W (facet_required H) e
          | _ \<Rightarrow> param_matches ct W Q e) \<and> fm_matches (filter_impl ct F) W e) [0..<w_next_entity W]"
proof -
  let ?cs = "fm_candidates (filter_impl ct F) W"
  note inv = world_okD(1,2) [OF reachable_ok [OF assms(1), simplified]]
  have "filtered_rows (param_impl ct Q) (filter_impl ct F) W
      = filter (\<lambda>e. listed ct W Q ?cs e \<and> fm_matches (filter_impl ct F) W e) [0..<w_next_entity W]"
  proof (rule anchored_cases [OF Q, of ct W ?cs])
    assume "anchored Q" and l: "\<And>e. listed ct W Q ?cs e = param_matches ct W Q e"
    then show ?thesis using filtered_rows_eq [OF inv al, of Q ct F] by (simp add: dense_rows_def row_of_def [abs_def] l)
  next
    fix H
    assume "Q = EntityParam H" "facet_required H \<noteq> []"
    then show ?thesis unfolding filtered_rows_def
      using bare_rows [OF inv al, where P = "fm_matches (filter_impl ct F) W" and cs = ?cs] entity_candidates_spec [OF inv(1) al, of ct F]
      by (auto split: option.splits)
  qed
  then show ?thesis by (simp add: listed_def)
qed

text \<open>
  Planning from a hint loses no row and invents none: the rows enumerated from a list of
  dirty entities are exactly those of them the full enumeration would list.
\<close>

theorem hinted_rows_exact:
  assumes "reachable ct (X, W)" and "allocated W" and "anchored Q"
    and "list_all (\<lambda>e. e < w_next_entity W) hint"
  shows "filtered_rows_from_candidates (param_impl ct Q) (filter_impl ct F) W hint = filter (\<lambda>e. e \<in> set (filtered_rows (param_impl ct Q) (filter_impl ct F) W)) hint"
proof -
  note inv = world_okD(1,2) [OF reachable_ok [OF assms(1), simplified]]
  show ?thesis
    unfolding filtered_rows_eq [OF inv assms(2,3)] using assms(4)
    by (auto simp: filtered_rows_from_candidates_def param_rows_from_eq [OF inv(2) assms(3)]
        row_of_def list_all_iff intro: filter_cong)
qed

text \<open>
  C29. Not planning is sound for the queries that declare all they read.  When none of the stores a
  query declares as its interest has moved its watermark over a run of the engine, the query has
  the same rows, and every row the same dependencies and the same locks: planning it again would
  find nothing to do.  The query is anchored (no bare facet handle, no tracker without one), has an
  interest of its own or no components at all, draws its rows from a store or a driving filter
  rather than the id scan, and watches tracked components only; the inverses it projects through
  list the same members in both worlds (their fingerprint is a hash of the list), and components
  are on allocated ids.  Without these the skipped plan can be wrong: \<open>mut_interest_gap\<close> is a
  one-tuple that declares no interest of its own, \<open>optional_interest_gap\<close> one that scans all ids.
\<close>

theorem unmoved_interest_same_plan:
  assumes run: "reachable ct (X, W)" "engine_run ct (X, W) (X', W')" and al: "allocated W" "allocated W'"
    and Q: "anchored Q" "bounded ct Q" "param_drives Q \<or> filter_drives F" "query_interest (param_impl ct Q) (filter_impl ct F) = Some tys"
    and tracked: "list_all (tracked ct) tys"
    and unmoved: "list_all (\<lambda>ty. store_watermark W' ty = store_watermark W ty) tys"
    and members: "\<forall>r\<in>set (param_inverses Q). inverse_members ct W' r = inverse_members ct W r"
  shows "filtered_rows (param_impl ct Q) (filter_impl ct F) W' = filtered_rows (param_impl ct Q) (filter_impl ct F) W
    \<and> filtered_deps (param_impl ct Q) (filter_impl ct F) W' = filtered_deps (param_impl ct Q) (filter_impl ct F) W \<and> filtered_access (param_impl ct Q) (filter_impl ct F) W' = filtered_access (param_impl ct Q) (filter_impl ct F) W"
proof -
  have "rel_option similar (entry_of W ty e) (entry_of W' ty e)" if "ty \<in> set tys" for ty e
    using unmoved_store [OF run] tracked unmoved that by (simp add: list_all_iff)
  then have same: "same_rows UNIV W W' tys"
    unfolding same_rows_def has_component_def revision_by_type_entry by (blast dest: similar_rows)
  have "\<forall>r\<in>set (param_inverses Q). UNIV = (UNIV :: entity set) \<and> inverse_members ct W' r = inverse_members ct W r"
    using members by simp
  note q = query_same [OF Q(2,4) same this UNIV_I]
  have alloc: "e < w_next_entity V" if "row_of ct V Q F e" "allocated V" for V :: "'a world" and e
    using that Q(3) param_drives_component [of Q ct V e] filter_drives_component [of F ct V e]
    by (auto simp: row_of_def dest: allocatedD)
  note inv = world_okD(1,2) [OF reachable_ok [OF run(1), simplified]]
  have "reachable ct (X', W')" using engine_run_progress [OF run(2,1)] by simp
  note inv' = world_okD(1,2) [OF reachable_ok [OF this, simplified]]
  have "filtered_rows (param_impl ct Q) (filter_impl ct F) W' = filtered_rows (param_impl ct Q) (filter_impl ct F) W"
    unfolding filtered_rows_eq [OF inv al(1) Q(1)] filtered_rows_eq [OF inv' al(2) Q(1)]
  proof (rule strict_sorted_equal)
    have "row_of ct W Q F e \<Longrightarrow> e < w_next_entity W \<and> e < w_next_entity W'" for e
      using alloc [of W e] alloc [of W' e] al by (simp add: q)
    then show "set (filter (row_of ct W' Q F) (dense_rows W')) = set (filter (row_of ct W Q F) (dense_rows W))"
      by (auto simp: q)
  qed (auto intro: sorted_wrt_filter)
  then show ?thesis using q by auto
qed

text \<open>
  C30. An enumerated row runs.  Recording its dependencies and fetching its item never hit a
  missing component, and every row it depends on is among the locks it declares, so a commit
  that could invalidate it cannot overlap the run.
\<close>

theorem enumerated_row_runs:
  assumes "reachable ct (X, W)" and "allocated W" and "anchored Q"
    and "e \<in> set (filtered_rows (param_impl ct Q) (filter_impl ct F) W)"
  shows "qm_fetch (param_impl ct Q) W e \<noteq> None
    \<and> (\<exists>ds. filtered_deps (param_impl ct Q) (filter_impl ct F) W e = Some ds
      \<and> (\<forall>d\<in>set ds. \<exists>a\<in>set (filtered_access (param_impl ct Q) (filter_impl ct F) W e).
           acc_component a = dep_type d \<and> acc_entity a = Some (dep_entity d)))"
proof -
  have row: "row_of ct W Q F e"
    using assms(4) filtered_rows_eq [OF world_okD(1,2) [OF reachable_ok [OF assms(1), simplified]] assms(2,3)] by simp
  then have "covered (filtered_deps (param_impl ct Q) (filter_impl ct F) W e)
      (filtered_access (param_impl ct Q) (filter_impl ct F) W e)"
    unfolding filtered_deps_def filtered_access_def row_of_def
    by (blast intro: covered_append param_runs(1) filter_runs)
  then obtain ds where ds: "filtered_deps (param_impl ct Q) (filter_impl ct F) W e = Some ds"
    "(\<lambda>d. (dep_type d, Some (dep_entity d))) ` set ds
      \<subseteq> (\<lambda>a. (acc_component a, acc_entity a)) ` set (filtered_access (param_impl ct Q) (filter_impl ct F) W e)"
    unfolding covered_def by blast
  have "\<exists>a\<in>set (filtered_access (param_impl ct Q) (filter_impl ct F) W e).
      acc_component a = dep_type d \<and> acc_entity a = Some (dep_entity d)" if "d \<in> set ds" for d
  proof -
    have "(dep_type d, Some (dep_entity d))
        \<in> (\<lambda>a. (acc_component a, acc_entity a)) ` set (filtered_access (param_impl ct Q) (filter_impl ct F) W e)"
      using ds(2) that by blast
    then show ?thesis by auto
  qed
  then show ?thesis using row param_runs(2) [of ct W Q e] ds(1) by (auto simp: row_of_def)
qed

section \<open>A concrete world\<close>

text \<open>
  Four entities: 0 and 1 carry component 0, 1 also carries the tracked component 3, 2 carries
  only component 3, and 3 carries nothing.
\<close>

definition spawn_two :: "'v world \<Rightarrow> 'v world" where
  "spawn_two W = snd (spawn_empty (snd (spawn_empty W)))"

definition rows_build :: "nat user_value world \<Rightarrow> nat user_value world option" where
  "rows_build W = do {
     W \<leftarrow> insert_base demo_trait (UserTy 0) 0 (demo_plain 5) W;
     W \<leftarrow> insert_base demo_trait (UserTy 0) 1 (demo_plain 5) W;
     W \<leftarrow> insert_base demo_trait (UserTy 3) 1 (demo_plain 7) W;
     insert_base demo_trait (UserTy 3) 2 (demo_plain 8) W }"

definition rows_world :: "nat user_value world" where
  "rows_world = the (rows_build (spawn_two (spawn_two world_new)))"

definition rows_later :: "nat user_value world" where
  "rows_later = the (insert_base demo_trait (UserTy 4) 3 (demo_plain 1) rows_world)"

lemma spawn_reachable: "reachable ct (X, W) \<Longrightarrow> reachable ct (X, snd (spawn_empty W))"
  by (erule reach_step) (rule ws_op, rule ws_spawn, rule prod.collapse [symmetric])

lemma spawn_two_reachable: "reachable ct (X, W) \<Longrightarrow> reachable ct (X, spawn_two W)"
  unfolding spawn_two_def by (intro spawn_reachable)

lemma rows_world_defined: "rows_build (spawn_two (spawn_two world_new)) = Some rows_world"
proof -
  have "rows_build (spawn_two (spawn_two world_new)) \<noteq> None" by code_simp
  then show ?thesis by (auto simp: rows_world_def)
qed

lemma rows_world_eval: "map_option P (rows_build (spawn_two (spawn_two world_new))) = Some True \<Longrightarrow> P rows_world"
  by (simp add: rows_world_defined)

lemma rows_world_reachable: "reachable demo_trait ({}, rows_world)"
proof -
  note rows_world_defined
  moreover have "reachable demo_trait ({}, spawn_two (spawn_two world_new))"
    by (intro spawn_two_reachable reach_new)
  ultimately show ?thesis
    unfolding rows_build_def insert_base_def by (elim bind_SomeE) (blast intro: reachable_insert)
qed

lemma rows_later_run: "engine_run demo_trait ({}, rows_world) ({}, rows_later)"
proof -
  have "insert_base demo_trait (UserTy 4) 3 (demo_plain 1) rows_world \<noteq> None"
    unfolding rows_world_def by code_simp
  then have "world_insert demo_trait (UserTy 4) 3 (demo_plain 1) None rows_world = Some rows_later"
    by (auto simp: rows_later_def insert_base_def)
  then show ?thesis by (intro run_step [OF run_refl] es_op ws_insert)
qed

text \<open>An executable test for allocation.\<close>

definition listed_allocated :: "'v world \<Rightarrow> bool" where
  "listed_allocated W \<longleftrightarrow> list_all (\<lambda>(ty, s). list_all (\<lambda>(e, en). e < w_next_entity W) (entries s)) (stores_list (w_stores W))"

lemma listed_allocated_code:
  assumes "stores_inv W" and "listed_allocated W"
  shows "allocated W"
proof -
  have wf: "stores_wf (w_stores W)" using assms(1) by (simp add: stores_inv_def)
  have "e < w_next_entity W" if "stores_get ty (w_stores W) = Some s" "map_of (entries s) e = Some en" for ty s e en
  proof -
    have "(ty, s) \<in> set (stores_list (w_stores W))"
      using that(1) stores_listing_get [OF wf, of ty] by (simp add: map_of_SomeD)
    then show ?thesis using assms(2) map_of_SomeD [OF that(2)] by (auto simp: listed_allocated_def list_all_iff)
  qed
  then show ?thesis by (auto simp: allocated_def has_component_def entry_of_def split: Option.bind_splits)
qed

lemma rows_world_allocated: "allocated rows_world" "allocated rows_later"
proof -
  have l: "listed_allocated rows_world" "listed_allocated rows_later"
    unfolding rows_later_def rows_world_def by code_simp+
  have r: "reachable demo_trait ({}, rows_later)"
    using engine_run_progress [OF rows_later_run rows_world_reachable] by simp
  show "allocated rows_world" "allocated rows_later"
    using l listed_allocated_code world_okD(1) [OF reachable_ok [OF rows_world_reachable], simplified]
      world_okD(1) [OF reachable_ok [OF r], simplified] by blast+
qed

text \<open>Entities with component 0 and, when they have it, component 3.\<close>

definition rows_query :: query_param where
  "rows_query = TupleParam [] [ReadPart (OptRef (UserTy 3)), ReadPart (Ref (UserTy 0))]"

abbreviation demo_rows :: "nat user_value world \<Rightarrow> query_param \<Rightarrow> query_filter \<Rightarrow> entity list" where
  "demo_rows W Q F \<equiv> filtered_rows (param_impl demo_trait Q) (filter_impl demo_trait F) W"

abbreviation demo_rows_from :: "nat user_value world \<Rightarrow> query_param \<Rightarrow> query_filter \<Rightarrow> entity list \<Rightarrow> entity list" where
  "demo_rows_from W Q F \<equiv> filtered_rows_from_candidates (param_impl demo_trait Q) (filter_impl demo_trait F) W"

lemma rows_query_ok: "anchored rows_query" "bounded demo_trait rows_query" "param_drives rows_query"
  "query_interest (param_impl demo_trait rows_query) (filter_impl demo_trait (WithoutF (UserTy 1))) = Some [UserTy 3, UserTy 0, UserTy 1]"
  "param_inverses rows_query = []"
  by code_simp+

theorem filtered_rows_exact_witness:
  "demo_rows rows_world rows_query (WithF (UserTy 3)) = filter (row_of demo_trait rows_world rows_query (WithF (UserTy 3)))
      [0..<w_next_entity rows_world]
   \<and> demo_rows rows_world rows_query (WithF (UserTy 3)) = [1]"
proof -
  have "demo_rows rows_world rows_query (WithF (UserTy 3)) = [1]" unfolding rows_world_def by code_simp
  moreover have "tracker_anchored rows_query" by code_simp
  note filtered_rows_exact [OF rows_world_reachable rows_world_allocated(1) this, of "WithF (UserTy 3)",
      unfolded rows_query_def query_param.case, folded rows_query_def]
  ultimately show ?thesis by (simp only: row_of_def [abs_def])
qed

theorem hinted_rows_exact_witness:
  "demo_rows_from rows_world rows_query NoFilter [2, 1, 3]
    = filter (\<lambda>e. e \<in> set (demo_rows rows_world rows_query NoFilter)) [2, 1, 3]
   \<and> demo_rows rows_world rows_query NoFilter = [0, 1]"
proof -
  have h: "list_all (\<lambda>e. e < w_next_entity rows_world) [2, 1, 3]" unfolding rows_world_def by code_simp
  have "demo_rows rows_world rows_query NoFilter = [0, 1]" unfolding rows_world_def by code_simp
  then show ?thesis
    by (rule conjI [OF hinted_rows_exact [OF rows_world_reachable rows_world_allocated(1) rows_query_ok(1) h]])
qed

theorem unmoved_interest_same_plan_witness:
  "rows_later \<noteq> rows_world
    \<and> demo_rows rows_later rows_query (WithoutF (UserTy 1)) = demo_rows rows_world rows_query (WithoutF (UserTy 1))"
proof -
  let ?tys = "[UserTy 3, UserTy 0, UserTy 1]"
  have t: "list_all (tracked demo_trait) ?tys" by code_simp
  have u: "list_all (\<lambda>ty. store_watermark rows_later ty = store_watermark rows_world ty) ?tys"
    unfolding rows_later_def rows_world_def by code_simp
  have "w_revision rows_later = 5 \<and> w_revision rows_world = 4"
    unfolding rows_later_def rows_world_def by code_simp
  then have "rows_later \<noteq> rows_world" by auto
  then show ?thesis
    using unmoved_interest_same_plan [OF rows_world_reachable rows_later_run rows_world_allocated
        rows_query_ok(1,2) disjI1 [OF rows_query_ok(3)] rows_query_ok(4) t u] rows_query_ok(5) by simp
qed

theorem enumerated_row_runs_witness:
  "qm_fetch (param_impl demo_trait rows_query) rows_world 1 \<noteq> None
    \<and> filtered_deps (param_impl demo_trait rows_query) (filter_impl demo_trait (WithF (UserTy 3))) rows_world 1 \<noteq> None"
proof -
  have "1 \<in> set (demo_rows rows_world rows_query (WithF (UserTy 3)))" unfolding rows_world_def by code_simp
  then show ?thesis
    using enumerated_row_runs [OF rows_world_reachable rows_world_allocated(1) rows_query_ok(1)] by blast
qed

section \<open>Shapes the planner misses\<close>

text \<open>
  Enumeration from a hint does not check the required parts of a bare facet handle: with
  component 0 required, entity 2 is listed by the hint although it is no row.
\<close>

theorem facet_hint_spurious_row:
  "demo_rows rows_world (EntityParam [shape_part demo_trait (UserTy 0)]) NoFilter = [0, 1]
   \<and> demo_rows_from rows_world (EntityParam [shape_part demo_trait (UserTy 0)]) NoFilter [1, 2] = [1, 2]
   \<and> demo_rows rows_world (EntityParam [shape_part demo_trait (UserTy 0)]) (WithF (UserTy 3)) = [1, 2]"
  by (rule rows_world_eval) code_simp

text \<open>
  A mutable one-tuple declares no interest of its own, so under a candidate-driving filter only
  the filter is watched: giving entity 2 the mutated component adds a row although no watched
  store moves.
\<close>

theorem mut_interest_gap:
  "query_interest (param_impl demo_trait (MutParam (UserTy 0))) (filter_impl demo_trait (WithF (UserTy 3))) = Some [UserTy 3]
   \<and> map_option (\<lambda>W. (store_watermark W (UserTy 3) = store_watermark rows_world (UserTy 3),
        demo_rows W (MutParam (UserTy 0)) (WithF (UserTy 3)),
        demo_rows rows_world (MutParam (UserTy 0)) (WithF (UserTy 3))))
      (insert_base demo_trait (UserTy 0) 2 (demo_plain 9) rows_world) = Some (True, [1, 2], [1])"
  by (rule rows_world_eval) code_simp

text \<open>
  A tuple of optional parts alone lists every allocated entity but watches only the optional
  stores, so a spawned entity is a new row no watched store announces.
\<close>

theorem optional_interest_gap:
  "query_interest (param_impl demo_trait (TupleParam [] [ReadPart (OptRef (UserTy 3))])) (filter_impl demo_trait NoFilter) = Some [UserTy 3]
   \<and> store_watermark (spawn_two rows_world) (UserTy 3) = store_watermark rows_world (UserTy 3)
   \<and> demo_rows rows_world (TupleParam [] [ReadPart (OptRef (UserTy 3))]) NoFilter = [0, 1, 2, 3]
   \<and> demo_rows (spawn_two rows_world) (TupleParam [] [ReadPart (OptRef (UserTy 3))]) NoFilter = [0, 1, 2, 3, 4, 5]"
  by (rule rows_world_eval) code_simp

end
