(* ===== verification/Params.thy ===== *)
theory Params
  imports Query_Props
begin

text \<open>
  System parameters and planning (system.rs, prepared/rows.rs): the states each parameter
  enumerates, the product a tuple of parameters forms with its bound joins, the validation of
  the bindings, and the plan of a system: which invocations run and which the memo skips.

  As for queries, the trait is a record of methods with a function for its default bodies, and
  every implementation is a value.  A tuple is the list of its parameters and its state the list
  of their states.  The type id order that \<open>sort_unstable\<close> uses is an argument-free
  deduplication here, since nothing depends on the order.  \<open>None\<close> is a panic.
\<close>

section \<open>The trait\<close>

text \<open>The state of one parameter: a row, the placeholder of an unmatched outer join, or unit.\<close>

datatype pstate = RowS entity | AbsentS | UnitS

datatype delta_shape = Inert | Driver | PairBound | OpaqueShape

datatype binding_error =
    OuterWithoutBinding
  | RelatedInView
  | BoundView type_id
  | MutableTrackedView
  | MemberView type_id
  | ProviderCount type_id nat

record 'v param_methods =
  sp_states :: "'v world \<Rightarrow> pstate list"
  sp_states_hinted :: "'v world \<Rightarrow> entity list \<Rightarrow> pstate list"
  sp_delta_shape :: delta_shape
  sp_has_pair_bound :: bool
  sp_hint_providers :: "'v world \<Rightarrow> entity list \<Rightarrow> entity list"
  sp_row_bound :: "'v world \<Rightarrow> 64 word"
  sp_keys :: "pstate \<Rightarrow> entity list"
  sp_deps :: "'v world \<Rightarrow> pstate \<Rightarrow> dep list option"
  sp_access :: "'v world \<Rightarrow> pstate \<Rightarrow> access list"
  sp_always_run :: bool
  sp_interest :: "type_id list option"
  sp_bound_keys :: "'v world \<Rightarrow> pstate \<Rightarrow> (type_id \<times> nat option) list"
  sp_bound_key_types :: "type_id list"
  sp_in_keys :: "'v world \<Rightarrow> pstate \<Rightarrow> (type_id \<times> entity) list"
  sp_in_key_types :: "type_id list"
  sp_provided_members :: "'v world \<Rightarrow> pstate \<Rightarrow> type_id \<Rightarrow> entity list option"
  sp_pair_expandable :: bool
  sp_prepared :: "'v world \<Rightarrow> entity list \<Rightarrow> pstate list"
  sp_view_sets :: "type_id list list"
  sp_view_freshness :: "type_id list"
  sp_tracked_stores :: "type_id list"
  sp_written :: "type_id list"
  sp_outputs :: "type_id list option"
  sp_absent_keys :: "pstate \<Rightarrow> type_id list"
  sp_absent_matches :: "'v world \<Rightarrow> type_id \<Rightarrow> nat \<Rightarrow> bool"
  sp_provides_key :: "type_id \<Rightarrow> bool"
  sp_provided_key :: "'v world \<Rightarrow> pstate \<Rightarrow> type_id \<Rightarrow> nat option option"
  sp_validate_local :: "binding_error option"

definition system_param_trait ::
  "('v world \<Rightarrow> pstate list) \<Rightarrow> (pstate \<Rightarrow> entity list) \<Rightarrow> ('v world \<Rightarrow> pstate \<Rightarrow> dep list option) \<Rightarrow>
   ('v world \<Rightarrow> pstate \<Rightarrow> access list) \<Rightarrow> 'v param_methods" where
  "system_param_trait sts ks deps acc =
     \<lparr>sp_states = sts, sp_states_hinted = (\<lambda>W hint. sts W), sp_delta_shape = OpaqueShape,
      sp_has_pair_bound = False, sp_hint_providers = (\<lambda>W hint. []), sp_row_bound = (\<lambda>W. usize_max),
      sp_keys = ks, sp_deps = deps, sp_access = acc, sp_always_run = False, sp_interest = None,
      sp_bound_keys = (\<lambda>W s. []), sp_bound_key_types = [], sp_in_keys = (\<lambda>W s. []), sp_in_key_types = [],
      sp_provided_members = (\<lambda>W s key. None), sp_pair_expandable = False,
      sp_prepared = (\<lambda>W cs. sts W), sp_view_sets = [], sp_view_freshness = [], sp_tracked_stores = [],
      sp_written = [], sp_outputs = Some [], sp_absent_keys = (\<lambda>s. []),
      sp_absent_matches = (\<lambda>W key f. True), sp_provides_key = (\<lambda>key. False),
      sp_provided_key = (\<lambda>W s key. None), sp_validate_local = None\<rparr>"

section \<open>Prepared candidate collection\<close>

text \<open>
  A bound query collects its rows among the partners of a provider through a collector made
  once per plan: a resolved store for a single component, one mask over the required parts of
  the facet and of the tuple for an entity tuple, the plain hinted rows for a bare handle.
\<close>

fun parts_required :: "'v part_methods list \<Rightarrow> type_id list \<times> bool" where
  "parts_required [] = ([], True)"
| "parts_required (p # ps) = (case (pm_presence p, parts_required ps) of
     (Requires ty, (tys, pure)) \<Rightarrow> (ty # tys, pure)
   | (Free, (tys, pure)) \<Rightarrow> (tys, pure)
   | (Opaque, (tys, _)) \<Rightarrow> (tys, False))"

record entity_rows =
  er_required :: "type_id list"
  er_mask :: "64 word list option"

definition entity_rows_new :: "facet \<Rightarrow> 'v part_methods list \<Rightarrow> 'v world \<Rightarrow> entity_rows" where
  "entity_rows_new H ps W =
     (let (tys, pure) = parts_required ps
      in \<lparr>er_required = facet_required H,
          er_mask = (if pure then Option.bind (w_presence W) (\<lambda>P. presence_mask P (facet_required H @ tys))
            else None)\<rparr>)"

definition entity_rows_matches :: "'v part_methods list \<Rightarrow> entity_rows \<Rightarrow> 'v world \<Rightarrow> entity \<Rightarrow> bool" where
  "entity_rows_matches ps er W e = (case (er_mask er, w_presence W) of
     (Some m, Some P) \<Rightarrow> presence_matches P e m
   | _ \<Rightarrow> has_all W (er_required er) e \<and> list_all (\<lambda>p. pm_matches p W e) ps)"

fun prepared_rows :: "'v component_trait \<Rightarrow> query_param \<Rightarrow> 'v world \<Rightarrow> entity list \<Rightarrow> entity list" where
  "prepared_rows ct (EntityParam H) W cs = qm_rows_hinted (entity_param H) W (Some cs)"
| "prepared_rows ct (RefParam ty) W cs = filter (resolved_contains (resolve_store W ty)) cs"
| "prepared_rows ct (MutParam ty) W cs = filter (resolved_contains (resolve_store W ty)) cs"
| "prepared_rows ct (TupleParam H ps) W cs =
     (let ds = map (part_impl ct) ps in filter (entity_rows_matches ds (entity_rows_new H ds W) W) cs)"

definition prepared_filtered ::
  "'v component_trait \<Rightarrow> query_param \<Rightarrow> 'v filter_methods \<Rightarrow> 'v world \<Rightarrow> entity list \<Rightarrow> entity list" where
  "prepared_filtered ct Q F W cs = filter (fm_matches F W) (prepared_rows ct Q W cs)"

section \<open>Implementations\<close>

fun row_keys :: "pstate \<Rightarrow> entity list" where
  "row_keys (RowS e) = [e]"
| "row_keys _ = []"

fun on_row :: "(entity \<Rightarrow> 'a) \<Rightarrow> 'a \<Rightarrow> pstate \<Rightarrow> 'a" where
  "on_row f d (RowS e) = f e"
| "on_row f d _ = d"

definition written_components :: "access list \<Rightarrow> type_id list" where
  "written_components as = map acc_component (filter (\<lambda>a. acc_kind a = Write) as)"

text \<open>\<open>Query<Q, F>\<close>\<close>

definition query_sp :: "'v component_trait \<Rightarrow> query_param \<Rightarrow> 'v filter_methods \<Rightarrow> 'v param_methods" where
  "query_sp ct Qp F = (let Q = param_impl ct Qp; expandable = length (fm_in_key_types F) + length (fm_bound_key_types F) = 1
     in (system_param_trait (\<lambda>W. map RowS (filtered_rows Q F W)) (on_row (qm_keys Q) [])
          (\<lambda>W. on_row (filtered_deps Q F W) (Some [])) (\<lambda>W. on_row (filtered_access Q F W) []))
     \<lparr>sp_interest := query_interest Q F,
      sp_states_hinted := (\<lambda>W hint. map RowS (filtered_rows_from_candidates Q F W hint)),
      sp_row_bound := (\<lambda>W. min (qm_row_bound Q W) (fm_candidate_bound F W)),
      sp_delta_shape := (if fm_bound_key_types F = [] \<and> fm_in_key_types F = [] then Driver
        else if expandable then PairBound else OpaqueShape),
      sp_has_pair_bound := (fm_bound_key_types F \<noteq> [] \<or> fm_in_key_types F \<noteq> []),
      sp_hint_providers := (\<lambda>W hint. qm_hint_providers Q W hint @ fm_hint_providers F W hint),
      sp_written := written_components (qm_access_all Q),
      sp_bound_keys := (\<lambda>W. on_row (fm_bound_keys F W) []), sp_bound_key_types := fm_bound_key_types F,
      sp_in_keys := (\<lambda>W. on_row (fm_in_keys F W) []), sp_in_key_types := fm_in_key_types F,
      sp_pair_expandable := expandable,
      sp_prepared := (\<lambda>W cs. map RowS (prepared_filtered ct Qp F W cs)),
      sp_provides_key := qm_provides_key Q,
      sp_provided_key := (\<lambda>W s key. on_row (\<lambda>e. qm_provided_key Q W e key) None s),
      sp_provided_members := (\<lambda>W s key. on_row (\<lambda>e. qm_provided_members Q W e key) None s)\<rparr>)"

text \<open>\<open>Option<Query<Q, F>>\<close>, the outer join\<close>

definition outer_sp :: "'v component_trait \<Rightarrow> query_param \<Rightarrow> 'v filter_methods \<Rightarrow> 'v param_methods" where
  "outer_sp ct Qp F = (let Q = param_impl ct Qp
     in (system_param_trait (\<lambda>W. map RowS (filtered_rows Q F W) @ [AbsentS]) (on_row (qm_keys Q) [])
          (\<lambda>W s. case s of
              RowS e \<Rightarrow> filtered_deps Q F W e
            | _ \<Rightarrow> Some (map (\<lambda>a. store_watermark_dep W (acc_component a)) (qm_access_all Q)
                @ map (store_watermark_dep W) (fm_bound_key_types F)))
          (\<lambda>W s. case s of
              RowS e \<Rightarrow> filtered_access Q F W e
            | _ \<Rightarrow> qm_access_all Q @ fm_access_all F))
     \<lparr>sp_interest := query_interest Q F,
      sp_has_pair_bound := (fm_bound_key_types F \<noteq> [] \<or> fm_in_key_types F \<noteq> []),
      sp_bound_keys := (\<lambda>W. on_row (fm_bound_keys F W) []), sp_bound_key_types := fm_bound_key_types F,
      sp_absent_keys := (\<lambda>s. case s of AbsentS \<Rightarrow> fm_bound_key_types F | _ \<Rightarrow> []),
      sp_absent_matches := (\<lambda>W key f. \<not> list_ex (\<lambda>e. list_ex (\<lambda>(k, g). k = key \<and> g = Some f) (fm_bound_keys F W e))
        (filtered_rows Q F W)),
      sp_validate_local := (if fm_bound_key_types F = [] then Some OuterWithoutBinding else None)\<rparr>)"

text \<open>\<open>View<Q, F>\<close>\<close>

definition view_sp :: "'v query_methods \<Rightarrow> 'v filter_methods \<Rightarrow> 'v param_methods" where
  "view_sp Q F = (system_param_trait (\<lambda>W. [UnitS]) (\<lambda>s. []) (\<lambda>W s. Some [])
       (\<lambda>W s. qm_access_all Q @ fm_access_all F))
     \<lparr>sp_delta_shape := Inert, sp_interest := Some [],
      sp_view_sets := [map acc_component (qm_access_all Q)],
      sp_view_freshness := map acc_component (qm_access_all Q) @ map acc_component (fm_access_all F),
      sp_validate_local := (if \<not> qm_supports_view Q then Some RelatedInView
        else case fm_bound_key_types F of key # _ \<Rightarrow> Some (BoundView key) | [] \<Rightarrow> None)\<rparr>"

definition tracked_view_types :: "'v query_methods \<Rightarrow> 'v filter_methods \<Rightarrow> type_id list" where
  "tracked_view_types Q F = remdups (map acc_component (qm_access_all Q @ fm_access_all F))"

text \<open>\<open>TrackedView<Q, F>\<close>\<close>

definition tracked_view_sp :: "'v query_methods \<Rightarrow> 'v filter_methods \<Rightarrow> 'v param_methods" where
  "tracked_view_sp Q F = (system_param_trait (\<lambda>W. [UnitS]) (\<lambda>s. [])
       (\<lambda>W s. Some (map (store_watermark_dep W) (tracked_view_types Q F)))
       (\<lambda>W s. qm_access_all Q @ fm_access_all F))
     \<lparr>sp_delta_shape := OpaqueShape, sp_interest := Some (tracked_view_types Q F),
      sp_tracked_stores := tracked_view_types Q F,
      sp_validate_local := (if \<not> qm_supports_view Q then Some RelatedInView
        else if list_ex (\<lambda>a. acc_kind a = Write) (qm_access_all Q) then Some MutableTrackedView
        else case fm_bound_key_types F of key # _ \<Rightarrow> Some (BoundView key)
        | [] \<Rightarrow> (case fm_in_key_types F of key # _ \<Rightarrow> Some (MemberView key) | [] \<Rightarrow> None))\<rparr>"

text \<open>\<open>Commands<S>\<close>; the argument is what the declaration covers, \<open>None\<close> the wildcard.\<close>

definition commands_sp :: "type_id list option \<Rightarrow> 'v param_methods" where
  "commands_sp declared = (system_param_trait (\<lambda>W. [UnitS]) (\<lambda>s. []) (\<lambda>W s. Some []) (\<lambda>W s. []))
     \<lparr>sp_delta_shape := Inert, sp_interest := Some [], sp_outputs := declared\<rparr>"

definition world_meta_sp :: "'v param_methods" where
  "world_meta_sp = (system_param_trait (\<lambda>W. [UnitS]) (\<lambda>s. []) (\<lambda>W s. Some []) (\<lambda>W s. []))
     \<lparr>sp_always_run := True\<rparr>"

datatype system_param =
    QueryP query_param query_filter
  | OuterP query_param query_filter
  | ViewP query_param query_filter
  | TrackedViewP query_param query_filter
  | CommandsP "type_id list option"
  | WorldMetaP

fun sp_impl :: "'v component_trait \<Rightarrow> system_param \<Rightarrow> 'v param_methods" where
  "sp_impl ct (QueryP Q F) = query_sp ct Q (filter_impl ct F)"
| "sp_impl ct (OuterP Q F) = outer_sp ct Q (filter_impl ct F)"
| "sp_impl ct (ViewP Q F) = view_sp (param_impl ct Q) (filter_impl ct F)"
| "sp_impl ct (TrackedViewP Q F) = tracked_view_sp (param_impl ct Q) (filter_impl ct F)"
| "sp_impl ct (CommandsP declared) = commands_sp declared"
| "sp_impl ct WorldMetaP = world_meta_sp"

section \<open>The product of a parameter tuple\<close>

datatype binding = Unbound | Membership type_id | Equality type_id | Invalid

definition binding_of :: "'v param_methods \<Rightarrow> binding" where
  "binding_of p = (if \<not> sp_pair_expandable p then Unbound
     else case sp_in_key_types p of key # _ \<Rightarrow> Membership key
     | [] \<Rightarrow> (case sp_bound_key_types p of key # _ \<Rightarrow> Equality key | [] \<Rightarrow> Invalid))"

text \<open>
  The rows of one parameter once its predecessors are picked: its own, or those among the
  partners of the first predecessor that provides the key.
\<close>

definition bound_rows :: "'v world \<Rightarrow> ('v param_methods \<times> pstate) list \<Rightarrow> 'v param_methods \<Rightarrow>
    pstate list \<Rightarrow> pstate list option" where
  "bound_rows W picked p own = (case binding_of p of
     Unbound \<Rightarrow> Some own
   | Membership key \<Rightarrow> map_option (sp_prepared p W) (first_some (\<lambda>(q, s). sp_provided_members q W s key) picked)
   | Equality key \<Rightarrow> Option.bind (first_some (\<lambda>(q, s). sp_provided_key q W s key) picked)
       (map_option (\<lambda>f. sp_prepared p W (entities_with_fingerprint W key f)))
   | Invalid \<Rightarrow> None)"

fun for_each_state :: "'v world \<Rightarrow> ('v param_methods \<times> pstate) list \<Rightarrow>
    ('v param_methods \<times> pstate list) list \<Rightarrow> pstate list list option" where
  "for_each_state W picked [] = Some [map snd picked]"
| "for_each_state W picked ((p, own) # rest) =
     Option.bind (bound_rows W picked p own)
       (\<lambda>rs. concat_opt (map (\<lambda>s. for_each_state W (picked @ [(p, s)]) rest) rs))"

text \<open>The first provider among the other parameters of the tuple.\<close>

definition sibling :: "('v param_methods \<Rightarrow> pstate \<Rightarrow> 'a option) \<Rightarrow> 'v param_methods list \<Rightarrow> pstate list \<Rightarrow> nat \<Rightarrow> 'a option" where
  "sibling f ps ss i = first_some (\<lambda>j. if j \<noteq> i then f (ps ! j) (ss ! j) else None) [0..<length ps]"

text \<open>A conjunction of checks that stops at the first failure or panic.\<close>

fun check_all :: "('a \<Rightarrow> bool option) \<Rightarrow> 'a list \<Rightarrow> bool option" where
  "check_all f [] = Some True"
| "check_all f (x # xs) = (case f x of None \<Rightarrow> None | Some ok \<Rightarrow> if ok then check_all f xs else Some False)"

definition indexed :: "('v param_methods \<Rightarrow> pstate \<Rightarrow> 'a list) \<Rightarrow> 'v param_methods list \<Rightarrow> pstate list \<Rightarrow> (nat \<times> 'a) list" where
  "indexed f ps ss = concat (map (\<lambda>i. map (Pair i) (f (ps ! i) (ss ! i))) [0..<length ps])"

definition check_key :: "'v world \<Rightarrow> 'v param_methods list \<Rightarrow> pstate list \<Rightarrow> nat \<times> type_id \<times> nat option \<Rightarrow> bool option" where
  "check_key W ps ss b = (case b of (i, key, fp) \<Rightarrow>
     (case fp of
        None \<Rightarrow> None
      | Some f \<Rightarrow> (case sibling (\<lambda>q s. sp_provided_key q W s key) ps ss i of
            Some (Some g) \<Rightarrow> Some (g = f)
          | Some None \<Rightarrow> None
          | None \<Rightarrow> Some False)))"

definition check_member :: "'v world \<Rightarrow> 'v param_methods list \<Rightarrow> pstate list \<Rightarrow> nat \<times> type_id \<times> entity \<Rightarrow> bool option" where
  "check_member W ps ss b = (case b of (i, key, m) \<Rightarrow>
     (case sibling (\<lambda>q s. sp_provided_members q W s key) ps ss i of
        Some ms \<Rightarrow> Some (case binary_search ms m of Inl _ \<Rightarrow> True | Inr _ \<Rightarrow> False)
      | None \<Rightarrow> None))"

definition check_absent :: "'v world \<Rightarrow> 'v param_methods list \<Rightarrow> pstate list \<Rightarrow> nat \<times> type_id \<Rightarrow> bool option" where
  "check_absent W ps ss b = (case b of (i, key) \<Rightarrow>
     (case sibling (\<lambda>q s. sp_provided_key q W s key) ps ss i of
        Some (Some f) \<Rightarrow> Some (sp_absent_matches (ps ! i) W key f)
      | _ \<Rightarrow> None))"

definition both_checks :: "bool option \<Rightarrow> bool option \<Rightarrow> bool option" where
  "both_checks a b = (case a of None \<Rightarrow> None | Some ok \<Rightarrow> if ok then b else Some False)"

definition binding_matches :: "'v world \<Rightarrow> 'v param_methods list \<Rightarrow> pstate list \<Rightarrow> bool option" where
  "binding_matches W ps ss =
     both_checks (check_all (check_key W ps ss) (indexed (\<lambda>p. sp_bound_keys p W) ps ss))
       (both_checks (check_all (check_member W ps ss) (indexed (\<lambda>p. sp_in_keys p W) ps ss))
          (check_all (check_absent W ps ss) (indexed sp_absent_keys ps ss)))"

fun filter_opt :: "('a \<Rightarrow> bool option) \<Rightarrow> 'a list \<Rightarrow> 'a list option" where
  "filter_opt f [] = Some []"
| "filter_opt f (x # xs) = (case f x of None \<Rightarrow> None
     | Some ok \<Rightarrow> map_option (if ok then Cons x else id) (filter_opt f xs))"

definition needs_prune :: "'v param_methods list \<Rightarrow> bool" where
  "needs_prune ps \<longleftrightarrow> list_ex (\<lambda>p. (sp_bound_key_types p \<noteq> [] \<or> sp_in_key_types p \<noteq> []) \<and> \<not> sp_pair_expandable p) ps"

definition own_states :: "'v world \<Rightarrow> 'v param_methods \<Rightarrow> pstate list" where
  "own_states W p = (if sp_pair_expandable p then [] else sp_states p W)"

definition tuple_states :: "'v param_methods list \<Rightarrow> 'v world \<Rightarrow> pstate list list option" where
  "tuple_states ps W = Option.bind
     (for_each_state W [] (map (\<lambda>p. (p, own_states W p)) ps))
     (\<lambda>sts. if needs_prune ps then filter_opt (binding_matches W ps) sts else Some sts)"

section \<open>A tuple as one parameter\<close>

definition tuple_interest :: "'v param_methods list \<Rightarrow> type_id list option" where
  "tuple_interest ps = concat_opt (map sp_interest ps)"

fun tuple_delta_from :: "'v param_methods list \<Rightarrow> nat \<Rightarrow> delta_shape" where
  "tuple_delta_from [] drivers = (if drivers \<ge> 1 then Driver else OpaqueShape)"
| "tuple_delta_from (p # ps) drivers = (case sp_delta_shape p of
     OpaqueShape \<Rightarrow> OpaqueShape
   | Driver \<Rightarrow> tuple_delta_from ps (drivers + 1)
   | _ \<Rightarrow> tuple_delta_from ps drivers)"

definition tuple_delta_shape :: "'v param_methods list \<Rightarrow> delta_shape" where
  "tuple_delta_shape ps = tuple_delta_from ps 0"

definition tuple_has_pair_bound :: "'v param_methods list \<Rightarrow> bool" where
  "tuple_has_pair_bound ps \<longleftrightarrow> list_ex sp_has_pair_bound ps"

text \<open>
  Enumeration from dirty entities.  Drivers with at most one row are enumerated in full and
  force the whole product when their row is dirty; so do two large drivers.
\<close>

definition large_driver :: "'v world \<Rightarrow> 'v param_methods \<Rightarrow> bool" where
  "large_driver W p \<longleftrightarrow> sp_delta_shape p = Driver \<and> sp_row_bound p W > 1"

definition expand_hint :: "'v param_methods list \<Rightarrow> 'v world \<Rightarrow> entity list \<Rightarrow> entity list" where
  "expand_hint ps W hint = remdups (sort (hint @ concat (map (\<lambda>p. sp_hint_providers p W hint) ps)))"

definition tiny_dirty :: "'v world \<Rightarrow> entity list \<Rightarrow> 'v param_methods \<Rightarrow> bool" where
  "tiny_dirty W hint p \<longleftrightarrow> sp_delta_shape p = Driver \<and> \<not> large_driver W p
     \<and> list_ex (\<lambda>s. list_ex (\<lambda>k. k \<in> set hint) (sp_keys p s)) (sp_states p W)"

definition hinted_own :: "'v world \<Rightarrow> entity list \<Rightarrow> 'v param_methods \<Rightarrow> pstate list" where
  "hinted_own W hint p = (if sp_delta_shape p = PairBound then []
     else if large_driver W p then sp_states_hinted p W hint else sp_states p W)"

definition tuple_states_hinted :: "'v param_methods list \<Rightarrow> 'v world \<Rightarrow> entity list \<Rightarrow> pstate list list option" where
  "tuple_states_hinted ps W hint =
     (if length (filter (large_driver W) ps) > 1 then tuple_states ps W
      else let hint' = expand_hint ps W hint in
        if list_ex (tiny_dirty W hint') ps then tuple_states ps W
        else for_each_state W [] (map (\<lambda>p. (p, hinted_own W hint' p)) ps))"

definition tuple_keys :: "'v param_methods list \<Rightarrow> pstate list \<Rightarrow> entity list" where
  "tuple_keys ps ss = concat (map2 sp_keys ps ss)"

definition tuple_deps :: "'v param_methods list \<Rightarrow> 'v world \<Rightarrow> pstate list \<Rightarrow> dep list option" where
  "tuple_deps ps W ss = concat_opt (map2 (\<lambda>p s. sp_deps p W s) ps ss)"

definition tuple_access :: "'v param_methods list \<Rightarrow> 'v world \<Rightarrow> pstate list \<Rightarrow> access list" where
  "tuple_access ps W ss = concat (map2 (\<lambda>p s. sp_access p W s) ps ss)"

definition tuple_always_run :: "'v param_methods list \<Rightarrow> bool" where
  "tuple_always_run ps \<longleftrightarrow> list_ex sp_always_run ps"

definition tuple_view_sets :: "'v param_methods list \<Rightarrow> type_id list list" where
  "tuple_view_sets ps = concat (map sp_view_sets ps)"

definition tuple_view_freshness :: "'v param_methods list \<Rightarrow> type_id list" where
  "tuple_view_freshness ps = concat (map sp_view_freshness ps)"

definition tuple_tracked_stores :: "'v param_methods list \<Rightarrow> type_id list" where
  "tuple_tracked_stores ps = concat (map sp_tracked_stores ps)"

definition tuple_written :: "'v param_methods list \<Rightarrow> type_id list" where
  "tuple_written ps = concat (map sp_written ps)"

definition tuple_outputs :: "'v param_methods list \<Rightarrow> type_id list option" where
  "tuple_outputs ps = concat_opt (map sp_outputs ps)"

text \<open>Registration-time validation: every bound key has exactly one sibling that provides it.\<close>

definition bound_types :: "'v param_methods list \<Rightarrow> (nat \<times> type_id) list" where
  "bound_types ps = concat (map (\<lambda>i. map (Pair i) (sp_bound_key_types (ps ! i)) @ map (Pair i) (sp_in_key_types (ps ! i)))
     [0..<length ps])"

definition provider_count :: "'v param_methods list \<Rightarrow> nat \<Rightarrow> type_id \<Rightarrow> nat" where
  "provider_count ps i key = length (filter (\<lambda>j. j \<noteq> i \<and> sp_provides_key (ps ! j) key) [0..<length ps])"

definition validate_bindings :: "'v param_methods list \<Rightarrow> binding_error option" where
  "validate_bindings ps = (case first_some sp_validate_local ps of
     Some err \<Rightarrow> Some err
   | None \<Rightarrow> first_some (\<lambda>(i, key). if provider_count ps i key \<noteq> 1
       then Some (ProviderCount key (provider_count ps i key)) else None) (bound_types ps))"

section \<open>The plan of a system\<close>

type_synonym memo_table = "(system_invocation \<times> memo_entry) list"

record planned_invocation =
  pi_state :: "pstate list"
  pi_owner :: system_invocation
  pi_deps :: "dep list"
  pi_access :: "access list"

record planned_run =
  pr_completed :: bool
  pr_invocations :: "planned_invocation list"

definition memo_hit :: "memo_table \<Rightarrow> bool \<Rightarrow> system_invocation \<Rightarrow> dep list \<Rightarrow> bool" where
  "memo_hit memo always owner deps \<longleftrightarrow> \<not> always
     \<and> (case map_of memo owner of None \<Rightarrow> False | Some entry \<Rightarrow> list_all2 dep_equal (me_deps entry) deps)"

fun plan_loop :: "'v param_methods list \<Rightarrow> nat \<Rightarrow> 'v world \<Rightarrow> memo_table \<Rightarrow> pstate list list \<Rightarrow>
    planned_invocation list option" where
  "plan_loop ps system W memo [] = Some []"
| "plan_loop ps system W memo (ss # rest) = (case tuple_deps ps W ss of
     None \<Rightarrow> None
   | Some deps \<Rightarrow>
       (let owner = \<lparr>inv_system = system, inv_keys = tuple_keys ps ss\<rparr>
        in if memo_hit memo (tuple_always_run ps) owner deps then plan_loop ps system W memo rest
           else map_option (Cons \<lparr>pi_state = ss, pi_owner = owner, pi_deps = deps, pi_access = tuple_access ps W ss\<rparr>)
             (plan_loop ps system W memo rest)))"

definition plan_prepared :: "'v param_methods list \<Rightarrow> nat \<Rightarrow> 'v world \<Rightarrow> memo_table \<Rightarrow> entity list option \<Rightarrow>
    planned_run option" where
  "plan_prepared ps system W memo hint = Option.bind
     (case hint of Some h \<Rightarrow> tuple_states_hinted ps W h | None \<Rightarrow> tuple_states ps W)
     (\<lambda>sts. map_option (\<lambda>invs. \<lparr>pr_completed = (sts \<noteq> []), pr_invocations = invs\<rparr>)
        (plan_loop ps system W memo sts))"

text \<open>\<open>None\<close> inside is a panic while counting.\<close>

fun count_memoized :: "'v param_methods list \<Rightarrow> nat \<Rightarrow> 'v world \<Rightarrow> memo_table \<Rightarrow> pstate list list \<Rightarrow> nat option" where
  "count_memoized ps system W memo [] = Some 0"
| "count_memoized ps system W memo (ss # rest) = (case tuple_deps ps W ss of
     None \<Rightarrow> None
   | Some deps \<Rightarrow> map_option (\<lambda>n. n + (if memo_hit memo (tuple_always_run ps)
         \<lparr>inv_system = system, inv_keys = tuple_keys ps ss\<rparr> deps then 1 else 0))
       (count_memoized ps system W memo rest))"

definition count_rows :: "'v param_methods list \<Rightarrow> nat \<Rightarrow> 'v world \<Rightarrow> memo_table \<Rightarrow> (nat \<times> nat) option" where
  "count_rows ps system W memo = Option.bind (tuple_states ps W)
     (\<lambda>sts. map_option (Pair (length sts)) (count_memoized ps system W memo sts))"

lemmas sp_impl_defs = system_param_trait_def query_sp_def outer_sp_def view_sp_def tracked_view_sp_def
  commands_sp_def world_meta_sp_def

end
