(* ===== verification/Param_Props.thy ===== *)
theory Param_Props
  imports Params
begin

text \<open>
  Planning is exact: a tuple with bound joins enumerates, pair by pair, exactly the states of
  the full product whose bindings match, and the plan of a system is exactly the states the
  memo does not cover.
\<close>

section \<open>Collectors\<close>

lemma parts_required_iff:
  "parts_required (map (part_impl ct) ps) = (tys, True) \<Longrightarrow>
    (\<forall>ty\<in>set tys. has_component W ty e) \<longleftrightarrow> list_all (\<lambda>p. pm_matches (part_impl ct p) W e) ps"
proof (induction ps arbitrary: tys)
  case (Cons p ps)
  obtain tys' pure where r: "parts_required (map (part_impl ct) ps) = (tys', pure)" by (cases "parts_required (map (part_impl ct) ps)")
  show ?case using Cons.prems Cons.IH [of tys'] r by (cases p rule: query_part_cases) auto
qed simp

lemma resolved_contains_iff: "resolved_contains (resolve_store W ty) e \<longleftrightarrow> has_component W ty e"
  by (auto simp: resolved_contains_def resolved_lookup_def resolve_store_def has_component_def entry_of_def
      split: option.splits Option.bind_splits)

lemma entity_rows_iff:
  assumes "presence_inv W"
  shows "entity_rows_matches (map (part_impl ct) ps) (entity_rows_new H (map (part_impl ct) ps) W) W e
    \<longleftrightarrow> param_matches ct W (TupleParam H ps) e"
proof -
  obtain tys pure where r: "parts_required (map (part_impl ct) ps) = (tys, pure)" by (cases "parts_required (map (part_impl ct) ps)")
  let ?er = "entity_rows_new H (map (part_impl ct) ps) W"
  show ?thesis
  proof (cases "er_mask ?er")
    case None
    then show ?thesis by (simp add: entity_rows_matches_def entity_rows_new_def r list.pred_map o_def)
  next
    case (Some m)
    then obtain P where P: "pure" "w_presence W = Some P" "presence_mask P (facet_required H @ tys) = Some m"
      by (auto simp: entity_rows_new_def r split: if_splits Option.bind_splits)
    have "entity_rows_matches (map (part_impl ct) ps) ?er W e \<longleftrightarrow> presence_matches P e m"
      by (simp add: entity_rows_matches_def Some P(2))
    also have "\<dots> \<longleftrightarrow> has_all W (facet_required H) e \<and> (\<forall>ty\<in>set tys. has_component W ty e)"
      using presence_inv_mask(1) [OF assms P(2,3)] by (auto simp: has_all_iff)
    finally show ?thesis using parts_required_iff [of ct ps tys W e] r P(1) by simp
  qed
qed

text \<open>A collector and the plain enumeration from candidates pick the same rows.\<close>

lemma prepared_filtered_eq:
  assumes "presence_inv W" and "anchored Q"
  shows "prepared_filtered ct Q (filter_impl ct F) W cs = filter (row_of ct W Q F) cs"
proof -
  have "prepared_rows ct Q W cs = filter (param_matches ct W Q) cs"
  proof (cases Q)
    case (TupleParam H ps)
    show ?thesis unfolding TupleParam prepared_rows.simps Let_def
      by (intro filter_cong refl entity_rows_iff [OF assms(1)])
  qed (use assms(2) in \<open>auto simp: resolved_contains_iff anchored_def has_all_def intro: filter_cong\<close>)
  then show ?thesis by (auto simp: prepared_filtered_def row_of_def intro: filter_cong)
qed

section \<open>Keys of a filter\<close>

lemma filter_key_types:
  "map fst (fm_bound_keys (filter_impl ct F) W e) = fm_bound_key_types (filter_impl ct F)"
  "map fst (fm_in_keys (filter_impl ct F) W e) = fm_in_key_types (filter_impl ct F)"
  by (induction F) simp_all

lemma filter_keys:
  "(k, fp) \<in> set (fm_bound_keys (filter_impl ct F) W e) \<Longrightarrow> fp = fingerprint_of W k e"
  "(k, m) \<in> set (fm_in_keys (filter_impl ct F) W e) \<Longrightarrow> m = e"
  by (induction F) auto

lemma bound_keys_single:
  assumes "fm_bound_key_types (filter_impl ct F) = [k]"
  shows "fm_bound_keys (filter_impl ct F) W e = [(k, fingerprint_of W k e)]"
proof -
  obtain fp where "fm_bound_keys (filter_impl ct F) W e = [(k, fp)]"
    using filter_key_types(1) [of ct F W e] assms by (cases "fm_bound_keys (filter_impl ct F) W e") auto
  then show ?thesis using filter_keys(1) [of k fp ct F W e] by simp
qed

lemma in_keys_single:
  assumes "fm_in_key_types (filter_impl ct F) = [k]"
  shows "fm_in_keys (filter_impl ct F) W e = [(k, e)]"
proof -
  obtain m where "fm_in_keys (filter_impl ct F) W e = [(k, m)]"
    using filter_key_types(2) [of ct F W e] assms by (cases "fm_in_keys (filter_impl ct F) W e") auto
  then show ?thesis using filter_keys(2) [of k m ct F W e] by simp
qed

section \<open>The product as a set\<close>

lemma concat_opt_set:
  "concat_opt xs = Some ys \<Longrightarrow> set ys = {y. \<exists>x\<in>set xs. \<exists>zs. x = Some zs \<and> y \<in> set zs}"
  by (induction xs arbitrary: ys) (auto split: option.splits)

lemma concat_opt_defined: "concat_opt xs = Some ys \<Longrightarrow> x \<in> set xs \<Longrightarrow> x \<noteq> None"
  using concat_opt_Some by fastforce

text \<open>Every parameter's state is among the rows its predecessors leave it.\<close>

definition picks :: "'v world \<Rightarrow> ('v param_methods \<times> pstate) list \<Rightarrow> ('v param_methods \<times> pstate list) list \<Rightarrow>
    pstate list \<Rightarrow> bool" where
  "picks W picked rest ts \<longleftrightarrow> length ts = length rest \<and> (\<forall>k<length rest. \<exists>rs.
     bound_rows W (picked @ zip (map fst (take k rest)) (take k ts)) (fst (rest ! k)) (snd (rest ! k)) = Some rs
     \<and> ts ! k \<in> set rs)"

lemma picks_Nil [simp]: "picks W picked [] ts \<longleftrightarrow> ts = []"
  by (auto simp: picks_def)

lemma all_less_Suc: "(\<forall>k<Suc n. P k) \<longleftrightarrow> P 0 \<and> (\<forall>k<n. P (Suc k))"
  using less_Suc_eq_0_disj by auto

lemma picks_Cons:
  "picks W picked ((p, own) # rest) (t # ts) \<longleftrightarrow>
    (\<exists>rs. bound_rows W picked p own = Some rs \<and> t \<in> set rs) \<and> picks W (picked @ [(p, t)]) rest ts"
  by (auto simp: picks_def all_less_Suc)

lemma picks_length: "picks W picked rest ts \<Longrightarrow> length ts = length rest"
  by (simp add: picks_def)

lemma for_each_state_set:
  "for_each_state W picked rest = Some out \<Longrightarrow> set out = {map snd picked @ ts |ts. picks W picked rest ts}"
proof (induction rest arbitrary: picked out)
  case (Cons x rest)
  obtain p own where x: "x = (p, own)" by (cases x)
  obtain rs where rs: "bound_rows W picked p own = Some rs"
    and out: "concat_opt (map (\<lambda>s. for_each_state W (picked @ [(p, s)]) rest) rs) = Some out"
    using Cons.prems by (auto simp: x split: Option.bind_splits)
  have IH: "for_each_state W (picked @ [(p, s)]) rest = Some zs \<Longrightarrow>
      set zs = {map snd picked @ s # ts |ts. picks W (picked @ [(p, s)]) rest ts}" for s zs
    using Cons.IH [of "picked @ [(p, s)]" zs] by simp
  have def: "\<exists>zs. for_each_state W (picked @ [(p, s)]) rest = Some zs" if "s \<in> set rs" for s
    using concat_opt_defined [OF out] that by fastforce
  have "y \<in> set out \<longleftrightarrow> (\<exists>ts. y = map snd picked @ ts \<and> picks W picked (x # rest) ts)" for y
  proof
    assume "y \<in> set out"
    then obtain s zs where s: "s \<in> set rs" "for_each_state W (picked @ [(p, s)]) rest = Some zs" "y \<in> set zs"
      unfolding concat_opt_set [OF out] by auto
    then obtain ts where "y = map snd picked @ s # ts" "picks W (picked @ [(p, s)]) rest ts" using IH by auto
    then show "\<exists>ts. y = map snd picked @ ts \<and> picks W picked (x # rest) ts"
      using s(1) rs by (auto simp: x picks_Cons intro!: exI [of _ "s # ts"])
  next
    assume "\<exists>ts. y = map snd picked @ ts \<and> picks W picked (x # rest) ts"
    then obtain ts where ts: "y = map snd picked @ ts" "picks W picked (x # rest) ts" by blast
    then obtain s ts' where t: "ts = s # ts'" using picks_length [OF ts(2)] by (cases ts) auto
    then have s: "s \<in> set rs" "picks W (picked @ [(p, s)]) rest ts'"
      using ts(2) rs by (auto simp: x picks_Cons)
    obtain zs where zs: "for_each_state W (picked @ [(p, s)]) rest = Some zs" using def [OF s(1)] by blast
    then have "y \<in> set zs" using IH [OF zs] s(2) ts(1) t by blast
    then show "y \<in> set out" unfolding concat_opt_set [OF out] using s(1) zs by force
  qed
  then show ?case by blast
qed simp

lemma first_some_None: "first_some f xs = None \<longleftrightarrow> (\<forall>x\<in>set xs. f x = None)"
  by (induction xs) (auto split: option.splits)

lemma first_some_unique:
  assumes "j < length xs" and "\<And>i. i < length xs \<Longrightarrow> i \<noteq> j \<Longrightarrow> f (xs ! i) = None"
  shows "first_some f xs = f (xs ! j)"
  using assms
proof (induction xs arbitrary: j)
  case (Cons x xs)
  show ?case
  proof (cases j)
    case 0
    have "f (xs ! i) = None" if "i < length xs" for i using Cons.prems(2) [of "Suc i"] that 0 by simp
    then have "first_some f xs = None" by (simp add: first_some_None all_set_conv_all_nth)
    then show ?thesis using 0 by (simp split: option.split)
  next
    case (Suc j')
    then show ?thesis using Cons.IH [of j'] Cons.prems(1) Cons.prems(2) [of 0] Cons.prems(2) [of "Suc _"] by simp
  qed
qed simp

section \<open>Bound joins\<close>

text \<open>
  A tuple the registration accepts: rows are well defined, and the key of a single-key join is
  read by exactly one other parameter, which precedes it.
\<close>

definition sole_provider :: "'v param_methods list \<Rightarrow> nat \<Rightarrow> type_id \<Rightarrow> bool" where
  "sole_provider ps i key \<longleftrightarrow> (\<exists>j<i. \<forall>k<length ps. k \<noteq> i \<longrightarrow> sp_provides_key (ps ! k) key \<longleftrightarrow> k = j)"

fun joinable_at :: "'v component_trait \<Rightarrow> 'v param_methods list \<Rightarrow> nat \<Rightarrow> system_param \<Rightarrow> bool" where
  "joinable_at ct ps i (QueryP Q F) \<longleftrightarrow> anchored Q \<and>
     (sp_pair_expandable (ps ! i) \<longrightarrow> (param_drives Q \<or> filter_drives F)
       \<and> list_all (sole_provider ps i) (sp_bound_key_types (ps ! i) @ sp_in_key_types (ps ! i)))"
| "joinable_at ct ps i _ \<longleftrightarrow> True"

definition joinable :: "'v component_trait \<Rightarrow> system_param list \<Rightarrow> bool" where
  "joinable ct sps \<longleftrightarrow> list_all (\<lambda>i. joinable_at ct (map (sp_impl ct) sps) i (sps ! i)) [0..<length sps]"

lemma part_provides:
  "pm_provided_key (part_impl ct p) W e key \<noteq> None \<Longrightarrow> pm_provides_key (part_impl ct p) key"
  "pm_provided_members (part_impl ct p) W e key \<noteq> None \<Longrightarrow> pm_provides_key (part_impl ct p) key"
  by (cases p rule: query_part_cases; simp split: if_splits)+

lemma first_some_Some: "first_some f xs \<noteq> None \<Longrightarrow> \<exists>x\<in>set xs. f x \<noteq> None"
  by (auto simp: first_some_None)

lemma param_provides:
  "qm_provided_key (param_impl ct Q) W e key \<noteq> None \<Longrightarrow> qm_provides_key (param_impl ct Q) key"
  "qm_provided_members (param_impl ct Q) W e key \<noteq> None \<Longrightarrow> qm_provides_key (param_impl ct Q) key"
proof -
  have "list_ex (\<lambda>p. pm_provides_key p key) (map (part_impl ct) ps)"
    if "first_some f (map (part_impl ct) ps) \<noteq> None"
      "\<And>p. f (part_impl ct p) \<noteq> None \<Longrightarrow> pm_provides_key (part_impl ct p) key"
    for ps and f :: "'a part_methods \<Rightarrow> 'x option"
    using first_some_Some [OF that(1)] that(2) by (auto simp: list_ex_iff)
  note t = this
  show "qm_provided_key (param_impl ct Q) W e key \<noteq> None \<Longrightarrow> qm_provides_key (param_impl ct Q) key"
    using t [OF _ part_provides(1)] by (cases Q) (simp_all split: if_splits)
  show "qm_provided_members (param_impl ct Q) W e key \<noteq> None \<Longrightarrow> qm_provides_key (param_impl ct Q) key"
    using t [OF _ part_provides(2)] by (cases Q) (simp_all split: if_splits)
qed

lemma sp_provides:
  "sp_provided_key (sp_impl ct p) W s key \<noteq> None \<Longrightarrow> sp_provides_key (sp_impl ct p) key"
  "sp_provided_members (sp_impl ct p) W s key \<noteq> None \<Longrightarrow> sp_provides_key (sp_impl ct p) key"
  using param_provides [of ct _ W _ key] by (cases p; cases s; simp add: sp_impl_defs Let_def)+

lemma sibling_unique:
  assumes prov: "\<And>p s. f (sp_impl ct p) s \<noteq> None \<Longrightarrow> sp_provides_key (sp_impl ct p) key"
    and len: "length ss = length sps" "i < length sps"
    and sole: "sole_provider (map (sp_impl ct) sps) i key"
  shows "sibling f (map (sp_impl ct) sps) ss i
    = first_some (\<lambda>(q, s). f q s) (zip (take i (map (sp_impl ct) sps)) (take i ss))"
proof -
  let ?ps = "map (sp_impl ct) sps"
  obtain j where j: "j < i" "\<And>k. k < length ?ps \<Longrightarrow> k \<noteq> i \<Longrightarrow> sp_provides_key (?ps ! k) key \<longleftrightarrow> k = j"
    using sole unfolding sole_provider_def by blast
  have other: "f (?ps ! k) s = None" if "k < length ?ps" "k \<noteq> i" "k \<noteq> j" for k s
  proof -
    have "\<not> sp_provides_key (sp_impl ct (sps ! k)) key" using j(2) [of k] that by simp
    then have "f (sp_impl ct (sps ! k)) s = None" using prov by blast
    then show ?thesis using that(1) by simp
  qed
  have "sibling f ?ps ss i = f (?ps ! j) (ss ! j)"
    unfolding sibling_def using first_some_unique [of j "[0..<length ?ps]" "\<lambda>k. if k \<noteq> i then f (?ps ! k) (ss ! k) else None"]
      other j(1) len by fastforce
  moreover have "first_some (\<lambda>(q, s). f q s) (zip (take i ?ps) (take i ss)) = f (?ps ! j) (ss ! j)"
    using first_some_unique [of j "zip (take i ?ps) (take i ss)" "\<lambda>(q, s). f q s"] other j(1) len by fastforce
  ultimately show ?thesis by simp
qed

text \<open>The pair condition of a parameter, for the states of the whole tuple.\<close>

definition pair_ok :: "'v world \<Rightarrow> 'v param_methods list \<Rightarrow> pstate list \<Rightarrow> nat \<Rightarrow> bool" where
  "pair_ok W ps ss k \<longleftrightarrow> (case binding_of (ps ! k) of
     Unbound \<Rightarrow> True
   | Membership key \<Rightarrow> (\<exists>ms e. sibling (\<lambda>q s. sp_provided_members q W s key) ps ss k = Some ms
        \<and> ss ! k = RowS e \<and> e \<in> set ms)
   | Equality key \<Rightarrow> (\<exists>f e. sibling (\<lambda>q s. sp_provided_key q W s key) ps ss k = Some (Some f)
        \<and> ss ! k = RowS e \<and> fingerprint_of W key e = Some f)
   | Invalid \<Rightarrow> False)"

lemma expandable_query:
  assumes "sp_pair_expandable (sp_impl ct p)"
  obtains Q F where "p = QueryP Q F"
    "length (fm_in_key_types (filter_impl ct F)) + length (fm_bound_key_types (filter_impl ct F)) = 1"
  using assms by (cases p) (simp_all add: sp_impl_defs Let_def)

lemma query_binding:
  assumes "length (fm_in_key_types (filter_impl ct F)) + length (fm_bound_key_types (filter_impl ct F)) = 1"
  obtains key where "fm_in_key_types (filter_impl ct F) = [key]" "fm_bound_key_types (filter_impl ct F) = []"
    "binding_of (sp_impl ct (QueryP Q F)) = Membership key"
  | key where "fm_in_key_types (filter_impl ct F) = []" "fm_bound_key_types (filter_impl ct F) = [key]"
    "binding_of (sp_impl ct (QueryP Q F)) = Equality key"
  using assms
  by (cases "fm_in_key_types (filter_impl ct F)"; cases "fm_bound_key_types (filter_impl ct F)")
    (auto simp: binding_of_def sp_impl_defs Let_def)

lemma bound_rows_iff:
  assumes inv: "stores_inv W" "presence_inv W" and al: "allocated W" and J: "joinable ct sps"
    and len: "length ss = length sps" "k < length sps"
  shows "(\<exists>rs. bound_rows W (zip (take k (map (sp_impl ct) sps)) (take k ss)) (sp_impl ct (sps ! k))
        (own_states W (sp_impl ct (sps ! k))) = Some rs
      \<and> ss ! k \<in> set rs)
    \<longleftrightarrow> ss ! k \<in> set (sp_states (sp_impl ct (sps ! k)) W) \<and> pair_ok W (map (sp_impl ct) sps) ss k"
proof (cases "sp_pair_expandable (sp_impl ct (sps ! k))")
  case False
  then show ?thesis using len by (simp add: bound_rows_def binding_of_def pair_ok_def own_states_def)
next
  case True
  let ?ps = "map (sp_impl ct) sps"
  obtain Q F where QF: "sps ! k = QueryP Q F"
    and one: "length (fm_in_key_types (filter_impl ct F)) + length (fm_bound_key_types (filter_impl ct F)) = 1"
    using expandable_query [OF True] by blast
  have "joinable_at ct ?ps k (sps ! k)" using J len(2) by (simp add: joinable_def list_all_length)
  then have at: "joinable_at ct ?ps k (QueryP Q F)" by (simp add: QF)
  then have Q: "anchored Q" and d: "param_drives Q \<or> filter_drives F"
    and sole: "\<And>key. key \<in> set (sp_bound_key_types (?ps ! k) @ sp_in_key_types (?ps ! k)) \<Longrightarrow> sole_provider ?ps k key"
    using True len by (auto simp: list_all_iff)
  have keys: "sp_bound_key_types (?ps ! k) = fm_bound_key_types (filter_impl ct F)"
    "sp_in_key_types (?ps ! k) = fm_in_key_types (filter_impl ct F)"
    using QF len by (simp_all add: query_sp_def Let_def system_param_trait_def)
  have prep: "sp_prepared (sp_impl ct (sps ! k)) W cs = map RowS (filter (row_of ct W Q F) cs)" for cs
    using prepared_filtered_eq [OF inv(2) Q] by (simp add: QF query_sp_def Let_def)
  have sts: "set (sp_states (sp_impl ct (sps ! k)) W) = RowS ` {e. row_of ct W Q F e}"
  proof -
    have "row_of ct W Q F e \<Longrightarrow> e < w_next_entity W" for e
      using d param_drives_component [of Q ct W e] filter_drives_component [of F ct W e]
      by (auto simp: row_of_def dest: allocatedD [OF al])
    then show ?thesis
      by (auto simp: QF query_sp_def Let_def system_param_trait_def filtered_rows_eq [OF inv al Q])
  qed
  from one show ?thesis
  proof (cases rule: query_binding [where Q = Q])
    case (1 key)
    have s: "sibling (\<lambda>q s. sp_provided_members q W s key) ?ps ss k
        = first_some (\<lambda>(q, s). sp_provided_members q W s key) (zip (take k ?ps) (take k ss))"
      using sole [of key] keys 1 by (intro sibling_unique [OF sp_provides(2) len]) simp_all
    show ?thesis using 1(3) len
      by (auto simp: bound_rows_def pair_ok_def QF [symmetric] s prep sts)
  next
    case (2 key)
    have s: "sibling (\<lambda>q s. sp_provided_key q W s key) ?ps ss k
        = first_some (\<lambda>(q, s). sp_provided_key q W s key) (zip (take k ?ps) (take k ss))"
      using sole [of key] keys 2 by (intro sibling_unique [OF sp_provides(1) len]) simp_all
    show ?thesis using 2(3) len
      by (auto simp: bound_rows_def pair_ok_def QF [symmetric] s prep sts fingerprint_bucket_spec(1) [OF inv(1)]
          split: Option.bind_splits)
  qed
qed

lemma check_all_True: "check_all f xs = Some True \<longleftrightarrow> (\<forall>x\<in>set xs. f x = Some True)"
  by (induction xs) (auto split: option.splits)

lemma both_checks_True: "both_checks a b = Some True \<longleftrightarrow> a = Some True \<and> b = Some True"
  by (auto simp: both_checks_def split: option.splits)

lemma set_indexed: "set (indexed f ps ss) = {(i, x). i < length ps \<and> x \<in> set (f (ps ! i) (ss ! i))}"
  by (auto simp: indexed_def)

lemma check_key_True: "check_key W ps ss (i, key, fp) = Some True \<longleftrightarrow>
    (\<exists>f. fp = Some f \<and> sibling (\<lambda>q s. sp_provided_key q W s key) ps ss i = Some (Some f))"
  by (auto simp: check_key_def split: option.splits)

lemma check_member_True: "check_member W ps ss (i, key, m) = Some True \<longleftrightarrow>
    (\<exists>ms. sibling (\<lambda>q s. sp_provided_members q W s key) ps ss i = Some ms \<and> m \<in> set ms)"
  by (auto simp: check_member_def binary_search_def Let_def split: option.splits)

lemma filter_opt_set:
  "filter_opt f xs = Some ys \<Longrightarrow> set ys = {x \<in> set xs. f x = Some True}"
  by (induction xs arbitrary: ys) (auto split: option.splits if_splits)

lemma query_keys:
  "sp_bound_keys (sp_impl ct (QueryP Q F)) W (RowS e) = fm_bound_keys (filter_impl ct F) W e"
  "sp_in_keys (sp_impl ct (QueryP Q F)) W (RowS e) = fm_in_keys (filter_impl ct F) W e"
  by (simp_all add: sp_impl_defs Let_def)

lemma binding_pair_ok:
  assumes len: "length ss = length sps" "k < length sps"
    and st: "ss ! k \<in> set (sp_states (sp_impl ct (sps ! k)) W)"
    and m: "binding_matches W (map (sp_impl ct) sps) ss = Some True"
  shows "pair_ok W (map (sp_impl ct) sps) ss k"
proof (cases "sp_pair_expandable (sp_impl ct (sps ! k))")
  case False
  then show ?thesis using len by (simp add: pair_ok_def binding_of_def)
next
  case True
  let ?ps = "map (sp_impl ct) sps"
  have ck: "\<And>i key fp. i < length sps \<Longrightarrow> (key, fp) \<in> set (sp_bound_keys (?ps ! i) W (ss ! i)) \<Longrightarrow>
      check_key W ?ps ss (i, key, fp) = Some True"
    and cm: "\<And>i key x. i < length sps \<Longrightarrow> (key, x) \<in> set (sp_in_keys (?ps ! i) W (ss ! i)) \<Longrightarrow>
      check_member W ?ps ss (i, key, x) = Some True"
    using m by (auto simp: binding_matches_def both_checks_True check_all_True set_indexed)
  obtain Q F where QF: "sps ! k = QueryP Q F"
    and one: "length (fm_in_key_types (filter_impl ct F)) + length (fm_bound_key_types (filter_impl ct F)) = 1"
    using expandable_query [OF True] by blast
  obtain e where e: "ss ! k = RowS e" using st by (auto simp: QF sp_impl_defs Let_def)
  have pk: "?ps ! k = sp_impl ct (QueryP Q F)" using len by (simp add: QF)
  from one show ?thesis
  proof (cases rule: query_binding [where Q = Q])
    case (1 key)
    have "(key, e) \<in> set (sp_in_keys (?ps ! k) W (ss ! k))"
      unfolding pk e query_keys in_keys_single [OF 1(1)] by simp
    then show ?thesis using cm [OF len(2)] 1(3) by (auto simp: pair_ok_def pk e check_member_True)
  next
    case (2 key)
    have "(key, fingerprint_of W key e) \<in> set (sp_bound_keys (?ps ! k) W (ss ! k))"
      unfolding pk e query_keys bound_keys_single [OF 2(2)] by simp
    then show ?thesis using ck [OF len(2)] 2(3) by (auto simp: pair_ok_def pk e check_key_True)
  qed
qed

lemma no_keys:
  assumes "sp_bound_key_types (sp_impl ct p) = []" and "sp_in_key_types (sp_impl ct p) = []"
  shows "sp_bound_keys (sp_impl ct p) W s = []" "sp_in_keys (sp_impl ct p) W s = []"
    "sp_absent_keys (sp_impl ct p) s = []"
proof -
  have f: "fm_bound_key_types (filter_impl ct F) = [] \<Longrightarrow> fm_bound_keys (filter_impl ct F) W e = []"
    "fm_in_key_types (filter_impl ct F) = [] \<Longrightarrow> fm_in_keys (filter_impl ct F) W e = []" for F e
    using filter_key_types [of ct F W e] by simp_all
  show "sp_bound_keys (sp_impl ct p) W s = []" "sp_in_keys (sp_impl ct p) W s = []"
    "sp_absent_keys (sp_impl ct p) s = []"
    using assms f by (cases p; cases s; simp add: sp_impl_defs Let_def)+
qed

lemma pair_ok_binding:
  assumes len: "length ss = length sps" and prune: "\<not> needs_prune (map (sp_impl ct) sps)"
    and st: "\<And>k. k < length sps \<Longrightarrow> ss ! k \<in> set (sp_states (sp_impl ct (sps ! k)) W)"
    and ok: "\<And>k. k < length sps \<Longrightarrow> pair_ok W (map (sp_impl ct) sps) ss k"
  shows "binding_matches W (map (sp_impl ct) sps) ss = Some True"
proof -
  let ?ps = "map (sp_impl ct) sps"
  have "(\<forall>(key, fp)\<in>set (sp_bound_keys (?ps ! k) W (ss ! k)). check_key W ?ps ss (k, key, fp) = Some True)
      \<and> (\<forall>(key, x)\<in>set (sp_in_keys (?ps ! k) W (ss ! k)). check_member W ?ps ss (k, key, x) = Some True)
      \<and> sp_absent_keys (?ps ! k) (ss ! k) = []" if k: "k < length sps" for k
  proof (cases "sp_pair_expandable (sp_impl ct (sps ! k))")
    case False
    then have "sp_bound_key_types (sp_impl ct (sps ! k)) = []" "sp_in_key_types (sp_impl ct (sps ! k)) = []"
      using prune k by (auto simp: needs_prune_def list_ex_iff)
    then show ?thesis using no_keys [of ct "sps ! k"] k by simp
  next
    case True
    obtain Q F where QF: "sps ! k = QueryP Q F"
      and one: "length (fm_in_key_types (filter_impl ct F)) + length (fm_bound_key_types (filter_impl ct F)) = 1"
      using expandable_query [OF True] by blast
    obtain e where e: "ss ! k = RowS e" using st [OF k] by (auto simp: QF sp_impl_defs Let_def)
    have pk: "?ps ! k = sp_impl ct (QueryP Q F)" using k by (simp add: QF)
    have absent: "sp_absent_keys (?ps ! k) (ss ! k) = []" unfolding pk by (simp add: sp_impl_defs Let_def)
    from one show ?thesis
    proof (cases rule: query_binding [where Q = Q])
      case (1 key)
      have b: "sp_bound_keys (?ps ! k) W (ss ! k) = []" "sp_in_keys (?ps ! k) W (ss ! k) = [(key, e)]"
        unfolding pk e query_keys in_keys_single [OF 1(1)] using filter_key_types(1) [of ct F W e] 1(2) by simp_all
      show ?thesis unfolding b absent using ok [OF k] 1(3) by (auto simp: pair_ok_def pk e check_member_True)
    next
      case (2 key)
      have b: "sp_bound_keys (?ps ! k) W (ss ! k) = [(key, fingerprint_of W key e)]" "sp_in_keys (?ps ! k) W (ss ! k) = []"
        unfolding pk e query_keys bound_keys_single [OF 2(2)] using filter_key_types(2) [of ct F W e] 2(1) by simp_all
      show ?thesis unfolding b absent using ok [OF k] 2(3) by (auto simp: pair_ok_def pk e check_key_True)
    qed
  qed
  then show ?thesis
    by (auto simp: binding_matches_def both_checks_True check_all_True set_indexed)
qed

section \<open>Properties\<close>

text \<open>
  C31. Bound joins are exact for joinable tuples.  Enumerating a tuple pair by pair, from the member
  list or the fingerprint bucket of the provider, and pruning only compound joins, yields exactly
  the states of the full product whose bindings all match.  Joinable means: no query is a bare
  facet handle (its partners are listed without a check of the facet, so members that are no rows
  would join), a query that is joined on a single key has rows drawn from a store or a driving
  filter, and its key is read by exactly one other parameter, which precedes it.
\<close>

theorem bound_join_exact:
  assumes "reachable ct (X, W)" and al: "allocated W" and J: "joinable ct sps"
    and sts: "tuple_states (map (sp_impl ct) sps) W = Some sts"
  shows "set sts = {ss. length ss = length sps
    \<and> list_all (\<lambda>k. ss ! k \<in> set (sp_states (sp_impl ct (sps ! k)) W)) [0..<length sps]
    \<and> binding_matches W (map (sp_impl ct) sps) ss = Some True}"
proof -
  note inv = world_okD(1,2) [OF reachable_ok [OF assms(1), simplified]]
  let ?ps = "map (sp_impl ct) sps"
  let ?own = "map (\<lambda>p. (p, own_states W p)) ?ps"
  obtain prod where prod: "for_each_state W [] ?own = Some prod"
    and sts': "(if needs_prune ?ps then filter_opt (binding_matches W ?ps) prod else Some prod) = Some sts"
    using sts by (auto simp: tuple_states_def split: Option.bind_splits)
  have fst_own: "map fst (take k ?own) = take k ?ps" for k by (simp add: take_map o_def)
  have in_prod: "ss \<in> set prod \<longleftrightarrow> length ss = length sps
      \<and> (\<forall>k<length sps. ss ! k \<in> set (sp_states (sp_impl ct (sps ! k)) W) \<and> pair_ok W ?ps ss k)" for ss
  proof -
    have "ss \<in> set prod \<longleftrightarrow> picks W [] ?own ss" using for_each_state_set [OF prod] by simp
    also have "\<dots> \<longleftrightarrow> length ss = length sps \<and> (\<forall>k<length sps.
        ss ! k \<in> set (sp_states (sp_impl ct (sps ! k)) W) \<and> pair_ok W ?ps ss k)"
      unfolding picks_def fst_own by (simp del: take_map add: bound_rows_iff [OF inv al J] cong: conj_cong)
    finally show ?thesis .
  qed
  let ?combos = "\<lambda>ss. length ss = length sps
    \<and> list_all (\<lambda>k. ss ! k \<in> set (sp_states (sp_impl ct (sps ! k)) W)) [0..<length sps]"
  have combos: "ss \<in> set prod \<longleftrightarrow> ?combos ss \<and> (\<forall>k<length sps. pair_ok W ?ps ss k)" for ss
    unfolding in_prod by (auto simp: list_all_length)
  have matching: "?combos ss \<Longrightarrow> binding_matches W ?ps ss = Some True \<Longrightarrow> \<forall>k<length sps. pair_ok W ?ps ss k" for ss
    by (auto simp: list_all_length intro: binding_pair_ok)
  show ?thesis
  proof (cases "needs_prune ?ps")
    case True
    then have "filter_opt (binding_matches W ?ps) prod = Some sts" using sts' by simp
    then have "set sts = {ss \<in> set prod. binding_matches W ?ps ss = Some True}" by (rule filter_opt_set)
    then show ?thesis using combos matching by blast
  next
    case False
    then have "set sts = set prod" using sts' by simp
    moreover have "?combos ss \<Longrightarrow> \<forall>k<length sps. pair_ok W ?ps ss k \<Longrightarrow> binding_matches W ?ps ss = Some True" for ss
      by (rule pair_ok_binding [OF _ False]) (auto simp: list_all_length)
    ultimately show ?thesis using combos matching by blast
  qed
qed

section \<open>Dependencies just recorded are current\<close>

definition fresh_deps :: "'v world \<Rightarrow> dep list option \<Rightarrow> bool" where
  "fresh_deps W x \<longleftrightarrow> (\<forall>ds. x = Some ds \<longrightarrow> list_all (dep_is_current W) ds)"

lemma fresh_Some [simp]: "fresh_deps W (Some ds) \<longleftrightarrow> list_all (dep_is_current W) ds" "fresh_deps W None"
  by (simp_all add: fresh_deps_def)

lemma fresh_concat: "list_all (fresh_deps W) xs \<Longrightarrow> fresh_deps W (concat_opt xs)"
  by (induction xs) (auto simp: fresh_deps_def split: option.splits)

lemma fresh_component:
  "fresh_deps W (map_option option_list (component_dep_if_tracked ct W ty e))"
  "list_all (dep_is_current W) (option_list (optional_component_dep ct W ty e))"
  "dep_is_current W (tracker_dep W e p)"
  "dep_is_current W (store_watermark_dep W ty)"
  by (auto simp: component_dep_if_tracked_def optional_component_dep_def tracker_dep_def store_watermark_dep_def
      option_list_def dep_is_current_def dep_lookup_def revision_raw_def split: option.splits)

lemma fresh_read: "fresh_deps W (pm_member_deps (read_impl ct p) W e)"
  by (cases p) (simp_all add: part_impl_defs fresh_component)

lemma fresh_part: "fresh_deps W (pm_deps (part_impl ct p) W e)"
proof (cases p)
  case (ReadPart q)
  then show ?thesis by (cases q) (simp_all add: part_impl_defs fresh_component)
next
  case (Related r edge ps)
  have "fresh_deps W (related_observed_deps (map (read_impl ct) ps) W m)" for m
    unfolding related_observed_deps_def by (rule fresh_concat) (simp add: list_all_iff fresh_read)
  then show ?thesis unfolding Related
    by (simp add: part_impl_defs del: concat_opt.simps) (rule fresh_concat, simp add: fresh_component list.pred_map list.pred_True o_def)
qed (simp_all add: part_impl_defs fresh_component list_all_iff)

lemma fresh_param: "fresh_deps W (qm_deps (param_impl ct Q) W e)"
proof (cases Q)
  case (TupleParam H ps)
  show ?thesis unfolding TupleParam
    by (simp add: param_impl_defs) (rule fresh_concat, simp add: list_all_iff fresh_part)
qed (simp_all add: param_impl_defs fresh_component)

lemma fresh_filter: "fresh_deps W (fm_deps (filter_impl ct F) W e)"
  by (induction F) (simp_all add: filter_impl_defs fresh_component fresh_concat del: concat_opt.simps)

lemma fresh_state: "fresh_deps W (sp_deps (sp_impl ct p) W s)"
proof -
  have "fresh_deps W (filtered_deps (param_impl ct Q) (filter_impl ct F) W e)" for Q F e
    unfolding filtered_deps_def by (rule fresh_concat) (simp add: fresh_param fresh_filter)
  then show ?thesis
    by (cases p; cases s) (auto simp: sp_impl_defs Let_def fresh_component list_all_iff)
qed

lemma fresh_tuple: "tuple_deps (map (sp_impl ct) sps) W ss = Some ds \<Longrightarrow> list_all (dep_is_current W) ds"
proof -
  have "fresh_deps W (tuple_deps (map (sp_impl ct) sps) W ss)"
    unfolding tuple_deps_def by (rule fresh_concat) (auto simp: list_all_iff fresh_state dest!: set_zip_leftD)
  then show "tuple_deps (map (sp_impl ct) sps) W ss = Some ds \<Longrightarrow> list_all (dep_is_current W) ds" by simp
qed

text \<open>A recorded dependency that equals a current one is current, also when it was read through a slot.\<close>

lemma dep_equal_current:
  assumes "stores_wf (w_stores W)" and "dep_equal d d'" and "dep_is_current W d'"
  shows "dep_is_current W d"
proof -
  have slot: "dep_lookup W d = revision_by_type W (dep_type d) (dep_entity d)" for d
    by (simp add: dep_lookup_def revision_by_slot_def revision_by_type_def stores_get_slot_eq [OF assms(1)] split: option.split)
  show ?thesis using assms(2,3) by (auto simp: dep_equal_def dep_is_current_def slot revision_raw_def split: if_splits)
qed

text \<open>
  What it means that the memo covers a state: there is an entry under the system and the keys of
  the state, and it recorded, one by one and in order, the observations the state makes now: the
  same component of the same entity (or the same whole store) at the same revision.
\<close>

definition remembered :: "'v param_methods list \<Rightarrow> nat \<Rightarrow> 'v world \<Rightarrow> memo_table \<Rightarrow> pstate list \<Rightarrow> bool" where
  "remembered ps system W memo ss \<longleftrightarrow> (\<exists>entry deps. map_of memo \<lparr>inv_system = system, inv_keys = tuple_keys ps ss\<rparr> = Some entry
     \<and> tuple_deps ps W ss = Some deps
     \<and> map dep_type (me_deps entry) = map dep_type deps \<and> map dep_entity (me_deps entry) = map dep_entity deps
     \<and> map dep_revision (me_deps entry) = map dep_revision deps \<and> map dep_store_scoped (me_deps entry) = map dep_store_scoped deps)"

lemma deps_equal_iff:
  "list_all2 dep_equal ds ds' \<longleftrightarrow> map dep_type ds = map dep_type ds' \<and> map dep_entity ds = map dep_entity ds'
     \<and> map dep_revision ds = map dep_revision ds' \<and> map dep_store_scoped ds = map dep_store_scoped ds'"
proof (induction ds arbitrary: ds')
  case (Cons d ds)
  then show ?case by (cases ds') (auto simp: dep_equal_def)
qed auto

lemma memo_hit_remembered:
  "tuple_deps ps W ss = Some deps \<Longrightarrow>
    memo_hit memo always \<lparr>inv_system = system, inv_keys = tuple_keys ps ss\<rparr> deps \<longleftrightarrow> \<not> always \<and> remembered ps system W memo ss"
  by (auto simp: memo_hit_def remembered_def deps_equal_iff split: option.split)

lemma remembered_current:
  assumes "stores_wf (w_stores W)" and "remembered (map (sp_impl ct) sps) system W memo ss"
  shows "\<exists>entry. map_of memo \<lparr>inv_system = system, inv_keys = tuple_keys (map (sp_impl ct) sps) ss\<rparr> = Some entry
    \<and> entry_is_current W entry"
proof -
  obtain entry deps where e: "map_of memo \<lparr>inv_system = system, inv_keys = tuple_keys (map (sp_impl ct) sps) ss\<rparr> = Some entry"
    and deps: "tuple_deps (map (sp_impl ct) sps) W ss = Some deps" "list_all2 dep_equal (me_deps entry) deps"
    using assms(2) unfolding remembered_def deps_equal_iff by blast
  have "list_all (dep_is_current W) (me_deps entry)"
    using deps(2) fresh_tuple [OF deps(1)] by induction (auto intro: dep_equal_current [OF assms(1)])
  then show ?thesis using e by (auto simp: entry_is_current_def)
qed

text \<open>
  C32. A full plan skips exactly what the memo still covers.  Unless the tuple always runs, an
  enumerated state is left out when and only when the memo has an entry under the system and the
  state's keys that recorded, one by one, the observations the state makes now; a system that
  always runs leaves none out.  The others run once each, in the order of enumeration, with their
  own keys, dependencies and locks.  An entry on whose word a state is left out is current in every
  dependency, so a state whose entry observed something that has moved runs; and the row counts
  shown to users are those of the plan.
\<close>

theorem plan_runs_unmemoized:
  assumes "reachable ct (X, W)" and plan: "plan_prepared (map (sp_impl ct) sps) system W memo None = Some run"
  shows "\<exists>sts. tuple_states (map (sp_impl ct) sps) W = Some sts
    \<and> pr_completed run = (sts \<noteq> [])
    \<and> map pi_state (pr_invocations run) = filter (\<lambda>ss. WorldMetaP \<in> set sps
        \<or> \<not> remembered (map (sp_impl ct) sps) system W memo ss) sts
    \<and> list_all (\<lambda>i. pi_owner i = \<lparr>inv_system = system, inv_keys = tuple_keys (map (sp_impl ct) sps) (pi_state i)\<rparr>
        \<and> tuple_deps (map (sp_impl ct) sps) W (pi_state i) = Some (pi_deps i)
        \<and> pi_access i = tuple_access (map (sp_impl ct) sps) W (pi_state i)) (pr_invocations run)
    \<and> list_all (\<lambda>ss. ss \<in> pi_state ` set (pr_invocations run)
        \<or> (\<exists>entry. map_of memo \<lparr>inv_system = system, inv_keys = tuple_keys (map (sp_impl ct) sps) ss\<rparr> = Some entry
            \<and> list_all (dep_is_current W) (me_deps entry))) sts
    \<and> count_rows (map (sp_impl ct) sps) system W memo = Some (length sts, length sts - length (pr_invocations run))"
proof -
  let ?ps = "map (sp_impl ct) sps"
  let ?runs = "\<lambda>ss. WorldMetaP \<in> set sps \<or> \<not> remembered ?ps system W memo ss"
  have wf: "stores_wf (w_stores W)" using world_okD(1) [OF reachable_ok [OF assms(1)]] by (simp add: stores_inv_def)
  have "sp_always_run (sp_impl ct p) \<longleftrightarrow> p = WorldMetaP" for p by (cases p) (simp_all add: sp_impl_defs Let_def)
  then have always: "tuple_always_run ?ps \<longleftrightarrow> WorldMetaP \<in> set sps"
    unfolding tuple_always_run_def list_ex_iff by auto
  obtain sts invs where sts: "tuple_states ?ps W = Some sts" and invs: "plan_loop ?ps system W memo sts = Some invs"
    and run: "run = \<lparr>pr_completed = (sts \<noteq> []), pr_invocations = invs\<rparr>"
    using plan by (auto simp: plan_prepared_def split: Option.bind_splits)
  have loop: "map pi_state invs = filter ?runs sts
    \<and> list_all (\<lambda>i. pi_owner i = \<lparr>inv_system = system, inv_keys = tuple_keys ?ps (pi_state i)\<rparr>
        \<and> tuple_deps ?ps W (pi_state i) = Some (pi_deps i) \<and> pi_access i = tuple_access ?ps W (pi_state i)) invs
    \<and> count_memoized ?ps system W memo sts = Some (length sts - length invs) \<and> length invs \<le> length sts"
    using invs
  proof (induction sts arbitrary: invs)
    case (Cons ss rest)
    show ?case using Cons.prems Cons.IH
      by (auto simp: Let_def Suc_diff_le memo_hit_remembered always split: option.splits if_splits)
  qed simp
  have "ss \<in> pi_state ` set invs \<or> (\<exists>entry. map_of memo \<lparr>inv_system = system, inv_keys = tuple_keys ?ps ss\<rparr> = Some entry
      \<and> list_all (dep_is_current W) (me_deps entry))" if "ss \<in> set sts" for ss
  proof (cases "?runs ss")
    case True
    then have "ss \<in> set (map pi_state invs)" using loop that by simp
    then show ?thesis by simp
  next
    case False
    then show ?thesis using remembered_current [OF wf] by (auto simp: entry_is_current_def)
  qed
  then show ?thesis using sts run loop by (simp add: count_rows_def list_all_iff)
qed

section \<open>A concrete join\<close>

text \<open>
  Entities with component 0, joined with the entities that share its value; entities 0 and 1
  do, so there are four pairs.
\<close>

definition join_params :: "system_param list" where
  "join_params = [QueryP (TupleParam [] [ReadPart (Ref (UserTy 0))]) NoFilter,
     QueryP (TupleParam [] [ReadPart (OptRef (UserTy 3))]) (WhereEq (UserTy 0)), CommandsP (Some [])]"

lemma join_params_ok: "joinable demo_trait join_params" "validate_bindings (map (sp_impl demo_trait) join_params) = None"
  by code_simp+

lemma join_states:
  "tuple_states (map (sp_impl demo_trait) join_params) rows_world
    = Some [[RowS 0, RowS 0, UnitS], [RowS 0, RowS 1, UnitS], [RowS 1, RowS 0, UnitS], [RowS 1, RowS 1, UnitS]]"
  by (rule rows_world_eval) code_simp

theorem bound_join_exact_witness:
  "binding_matches rows_world (map (sp_impl demo_trait) join_params) [RowS 0, RowS 1, UnitS] = Some True
    \<and> [RowS 0, RowS 2, UnitS] \<notin> {ss. length ss = length join_params
      \<and> list_all (\<lambda>k. ss ! k \<in> set (sp_states (sp_impl demo_trait (join_params ! k)) rows_world)) [0..<length join_params]
      \<and> binding_matches rows_world (map (sp_impl demo_trait) join_params) ss = Some True}"
proof -
  have "[RowS 0, RowS 1, UnitS] \<in> set [[RowS 0, RowS 0, UnitS], [RowS 0, RowS 1, UnitS], [RowS 1, RowS 0, UnitS], [RowS 1, RowS 1, UnitS]]"
    "[RowS 0, RowS 2, UnitS] \<notin> set [[RowS 0, RowS 0, UnitS], [RowS 0, RowS 1, UnitS], [RowS 1, RowS 0, UnitS], [RowS 1, RowS 1, UnitS]]"
    by simp_all
  then show ?thesis
    unfolding bound_join_exact [OF rows_world_reachable rows_world_allocated(1) join_params_ok(1) join_states] by blast
qed

theorem plan_runs_unmemoized_witness:
  "\<exists>run. plan_prepared (map (sp_impl demo_trait) join_params) 3 rows_world [] None = Some run
    \<and> map pi_state (pr_invocations run)
      = [[RowS 0, RowS 0, UnitS], [RowS 0, RowS 1, UnitS], [RowS 1, RowS 0, UnitS], [RowS 1, RowS 1, UnitS]]"
proof -
  have "plan_prepared (map (sp_impl demo_trait) join_params) 3 rows_world [] None \<noteq> None"
    by (rule rows_world_eval) code_simp
  then obtain run where run: "plan_prepared (map (sp_impl demo_trait) join_params) 3 rows_world [] None = Some run" by blast
  show ?thesis using plan_runs_unmemoized [OF rows_world_reachable run] run by (auto simp: join_states remembered_def)
qed

end
