(* ===== verification/Systems.thy ===== *)
theory Systems
  imports Params Commands Reservations
begin

text \<open>
  Systems (system.rs, dispatch/plan.rs, system/synchronous.rs): what one invocation runs and
  hands back, the function systems and the hooks wrapped around them, their registration, the
  planning marks and the write-log cursor of a registered system, and the admission of planned
  rows.

  A user function and a hook are parameters: what they do to their command buffer and to the
  shared entity allocator.  Values they write through a guard reach the world as steps of their
  own.  Polling order inside one batch is not modelled: rows run in the order of the plan.
\<close>

section \<open>Outputs and runs\<close>

record 'v system_output =
  so_owner :: system_invocation
  so_commands :: "'v command_queue"

record 'v system_run =
  sr_completed :: bool
  sr_outputs :: "'v system_output list"
  sr_memo_updates :: "(system_invocation \<times> memo_entry) list"
  sr_writes :: "out_pair list"

definition run_empty :: "'v system_run" where
  "run_empty = \<lparr>sr_completed = False, sr_outputs = [], sr_memo_updates = [], sr_writes = []\<rparr>"

text \<open>The rows an invocation has exclusive write access to.\<close>

definition written_rows :: "access list \<Rightarrow> out_pair list" where
  "written_rows as = List.map_filter (\<lambda>a. if acc_kind a = Write
     then map_option (Pair (acc_component a)) (acc_entity a) else None) as"

definition finish_invocation :: "system_invocation \<Rightarrow> dep list \<Rightarrow> nat \<Rightarrow> 'v command_buffer \<Rightarrow>
    'v system_output \<times> system_invocation \<times> memo_entry" where
  "finish_invocation owner deps planned_revision commands =
     (\<lparr>so_owner = owner, so_commands = fst (commands_take commands)\<rparr>,
      (owner, \<lparr>me_deps = deps, me_planned_revision = planned_revision, me_settle_epoch = 0\<rparr>))"

text \<open>The function over a snapshot and a row; a hook has no row.\<close>

type_synonym 'v callback = "'v command_buffer \<times> nat \<Rightarrow> 'v command_buffer \<times> nat"
type_synonym 'v kernel = "'v world \<Rightarrow> pstate list \<Rightarrow> 'v callback"

record 'v planned_system_run =
  psr_owner :: system_invocation
  psr_access :: "access list"
  psr_run :: "nat \<Rightarrow> 'v system_run \<times> nat"

definition run_invocation :: "'v kernel \<Rightarrow> 'v world \<Rightarrow> planned_invocation \<Rightarrow> 'v command_queue \<Rightarrow>
    nat \<Rightarrow> 'v system_run \<times> nat" where
  "run_invocation f W row q next_entity =
     (let (commands, next_entity') = f W (pi_state row) (with_queue (spawn_slots W (pi_owner row)) q, next_entity);
          (output, memo_update) = finish_invocation (pi_owner row) (pi_deps row) (w_revision W) commands
      in (\<lparr>sr_completed = True, sr_outputs = [output], sr_memo_updates = [memo_update],
           sr_writes = written_rows (pi_access row)\<rparr>, next_entity'))"

text \<open>Every planned row leases a queue from the driver's pool; without a driver, a new one.\<close>

fun lease :: "planned_invocation list \<Rightarrow> 'v pool \<Rightarrow> (planned_invocation \<times> 'v command_queue) list \<times> 'v pool" where
  "lease [] P = ([], P)"
| "lease (row # rest0) P = (let (q, P1) = pool_take P; (rest, P2) = lease rest0 P1 in ((row, q) # rest, P2))"

definition prepare_invocations :: "'v param_methods list \<Rightarrow> nat \<Rightarrow> 'v world \<Rightarrow> memo_table \<Rightarrow> entity list option \<Rightarrow>
    'v pool option \<Rightarrow> ((planned_invocation \<times> 'v command_queue) list \<times> 'v pool option) option" where
  "prepare_invocations ps system W memo hint buffers = map_option (\<lambda>planned. case buffers of
       None \<Rightarrow> (map (\<lambda>row. (row, queue_default)) (pr_invocations planned), None)
     | Some P \<Rightarrow> (let (rows, P') = lease (pr_invocations planned) P in (rows, Some P')))
     (plan_prepared ps system W memo hint)"

definition plan_rows :: "'v param_methods list \<Rightarrow> 'v kernel \<Rightarrow> nat \<Rightarrow> 'v world \<Rightarrow> memo_table \<Rightarrow> entity list option \<Rightarrow>
    'v pool option \<Rightarrow> ('v planned_system_run list \<times> 'v pool option) option" where
  "plan_rows ps f system W memo hint buffers = map_option (\<lambda>(rows, buffers').
       (map (\<lambda>(row, q). \<lparr>psr_owner = pi_owner row, psr_access = pi_access row, psr_run = run_invocation f W row q\<rparr>) rows,
        buffers'))
     (prepare_invocations ps system W memo hint buffers)"

text \<open>Runs executed one after the other, threading the allocator.\<close>

fun run_all :: "'v planned_system_run list \<Rightarrow> nat \<Rightarrow> 'v system_run list \<times> nat" where
  "run_all [] n = ([], n)"
| "run_all (p # ps) n = (let (r, n1) = psr_run p n; (rs, n2) = run_all ps n1 in (r # rs, n2))"

definition collect_invocations :: "'v system_run list \<Rightarrow> 'v system_run" where
  "collect_invocations rs = \<lparr>sr_completed = False, sr_outputs = concat (map sr_outputs rs),
     sr_memo_updates = concat (map sr_memo_updates rs), sr_writes = concat (map sr_writes rs)\<rparr>"

text \<open>What a hook's wrapper merges: complete when every row is.\<close>

definition merge_runs :: "'v system_run list \<Rightarrow> 'v system_run" where
  "merge_runs rs = (collect_invocations rs)\<lparr>sr_completed := list_all sr_completed rs\<rparr>"

section \<open>Runnables\<close>

datatype 'v runnable =
    FunctionSystem nat "'v param_methods list" "'v kernel"
  | OnStartSystem nat "'v runnable" "'v callback"
  | OnCompleteSystem nat "'v runnable" "'v callback"
  | OnSettledSystem nat "'v runnable" "'v callback"

primrec has_settled_hook :: "'v runnable \<Rightarrow> bool" where
  "has_settled_hook (FunctionSystem i ps f) = False"
| "has_settled_hook (OnStartSystem i r c) = False"
| "has_settled_hook (OnCompleteSystem i r c) = False"
| "has_settled_hook (OnSettledSystem i r c) = True"

primrec has_work :: "'v runnable \<Rightarrow> 'v world \<Rightarrow> memo_table \<Rightarrow> bool option" where
  "has_work (FunctionSystem i ps f) W memo = map_option (\<lambda>run. pr_invocations run \<noteq> []) (plan_prepared ps i W memo None)"
| "has_work (OnStartSystem i r c) W memo = has_work r W memo"
| "has_work (OnCompleteSystem i r c) W memo = has_work r W memo"
| "has_work (OnSettledSystem i r c) W memo = has_work r W memo"

primrec row_counts :: "'v runnable \<Rightarrow> 'v world \<Rightarrow> memo_table \<Rightarrow> (nat \<times> nat) option" where
  "row_counts (FunctionSystem i ps f) W memo = count_rows ps i W memo"
| "row_counts (OnStartSystem i r c) W memo = row_counts r W memo"
| "row_counts (OnCompleteSystem i r c) W memo = row_counts r W memo"
| "row_counts (OnSettledSystem i r c) W memo = row_counts r W memo"

text \<open>The owner and the buffer a hook runs with, and its output.\<close>

definition hook_owner :: "nat \<Rightarrow> system_invocation" where
  "hook_owner i = \<lparr>inv_system = i, inv_keys = []\<rparr>"

definition run_hook :: "nat \<Rightarrow> 'v callback \<Rightarrow> 'v world \<Rightarrow> nat \<Rightarrow> 'v system_output \<times> nat" where
  "run_hook i c W n = (let (commands, n') = c (with_queue (spawn_slots W (hook_owner i)) queue_default, n)
     in (\<lparr>so_owner = hook_owner i, so_commands = fst (commands_take commands)\<rparr>, n'))"

text \<open>\<open>Runnable::run\<close>: all rows as one run.\<close>

primrec run_runnable :: "'v runnable \<Rightarrow> 'v world \<Rightarrow> memo_table \<Rightarrow> nat \<Rightarrow> ('v system_run \<times> nat) option" where
  "run_runnable (FunctionSystem i ps f) W memo n = Option.bind (plan_prepared ps i W memo None) (\<lambda>planned.
     map_option (\<lambda>(runs, _). let (rs, n') = run_all runs n
         in ((collect_invocations rs)\<lparr>sr_completed := pr_completed planned\<rparr>, n'))
       (plan_rows ps f i W memo None None))"
| "run_runnable (OnStartSystem i r c) W memo n = Option.bind (has_work r W memo) (\<lambda>work.
     let (start, n1) = (if work then (let (out, n1) = run_hook i c W n in ([out], n1)) else ([], n))
     in map_option (\<lambda>(run, n2). (run\<lparr>sr_outputs := start @ sr_outputs run\<rparr>, n2)) (run_runnable r W memo n1))"
| "run_runnable (OnCompleteSystem i r c) W memo n = map_option (\<lambda>(run, n1).
     if sr_outputs run \<noteq> [] then (let (out, n2) = run_hook i c W n1
       in (run\<lparr>sr_outputs := sr_outputs run @ [out]\<rparr>, n2)) else (run, n1))
     (run_runnable r W memo n)"
| "run_runnable (OnSettledSystem i r c) W memo n = run_runnable r W memo n"

text \<open>\<open>stream_runs\<close>: the rows one by one; a start or completion hook makes one run of them all.\<close>

definition start_run :: "nat \<Rightarrow> 'v callback \<Rightarrow> 'v world \<Rightarrow> 'v planned_system_run list \<Rightarrow> nat \<Rightarrow> 'v system_run \<times> nat" where
  "start_run i c W inner n = (let (out, n1) = run_hook i c W n; (rs, n2) = run_all inner n1; merged = merge_runs rs
     in (merged\<lparr>sr_outputs := out # sr_outputs merged\<rparr>, n2))"

definition complete_run :: "nat \<Rightarrow> 'v callback \<Rightarrow> 'v world \<Rightarrow> 'v planned_system_run list \<Rightarrow> nat \<Rightarrow> 'v system_run \<times> nat" where
  "complete_run i c W inner n = (let (rs, n1) = run_all inner n; merged = merge_runs rs
     in if sr_outputs merged \<noteq> [] then (let (out, n2) = run_hook i c W n1
          in (merged\<lparr>sr_outputs := sr_outputs merged @ [out]\<rparr>, n2)) else (merged, n1))"

definition hooked_runs :: "nat \<Rightarrow> ('v planned_system_run list \<Rightarrow> nat \<Rightarrow> 'v system_run \<times> nat) \<Rightarrow>
    'v planned_system_run list \<Rightarrow> 'v planned_system_run list" where
  "hooked_runs i wrap inner = (if inner = [] then []
     else [\<lparr>psr_owner = hook_owner i, psr_access = [], psr_run = wrap inner\<rparr>])"

primrec stream_runs :: "'v runnable \<Rightarrow> 'v world \<Rightarrow> memo_table \<Rightarrow> entity list option \<Rightarrow> 'v planned_system_run list option" where
  "stream_runs (FunctionSystem i ps f) W memo hint = map_option fst (plan_rows ps f i W memo hint None)"
| "stream_runs (OnStartSystem i r c) W memo hint = map_option (hooked_runs i (start_run i c W)) (stream_runs r W memo hint)"
| "stream_runs (OnCompleteSystem i r c) W memo hint = map_option (hooked_runs i (complete_run i c W)) (stream_runs r W memo hint)"
| "stream_runs (OnSettledSystem i r c) W memo hint = stream_runs r W memo hint"

text \<open>\<open>plan_runs\<close>, which leases the queues where the rows are not wrapped.\<close>

primrec plan_runs :: "'v runnable \<Rightarrow> 'v world \<Rightarrow> memo_table \<Rightarrow> entity list option \<Rightarrow> 'v pool \<Rightarrow>
    ('v planned_system_run list \<times> 'v pool) option" where
  "plan_runs (FunctionSystem i ps f) W memo hint P =
     map_option (map_prod id (case_option P id)) (plan_rows ps f i W memo hint (Some P))"
| "plan_runs (OnStartSystem i r c) W memo hint P = map_option (\<lambda>runs. (runs, P)) (stream_runs (OnStartSystem i r c) W memo hint)"
| "plan_runs (OnCompleteSystem i r c) W memo hint P = map_option (\<lambda>runs. (runs, P)) (stream_runs (OnCompleteSystem i r c) W memo hint)"
| "plan_runs (OnSettledSystem i r c) W memo hint P = plan_runs r W memo hint P"

text \<open>
  \<open>run_settled\<close>: the hook fires when the system has rows, none of them is left to run and the
  live world \<open>L\<close> holds no output of the hook.
\<close>

primrec run_settled :: "'v runnable \<Rightarrow> 'v world \<Rightarrow> 'v world \<Rightarrow> memo_table \<Rightarrow> nat \<Rightarrow> ('v system_run \<times> nat) option" where
  "run_settled (FunctionSystem i ps f) L W memo n = Some (run_empty, n)"
| "run_settled (OnStartSystem i r c) L W memo n = Some (run_empty, n)"
| "run_settled (OnCompleteSystem i r c) L W memo n = Some (run_empty, n)"
| "run_settled (OnSettledSystem i r c) L W memo n = map_option (\<lambda>(run, n1).
     if sr_completed run \<and> sr_outputs run = [] \<and> \<not> has_derived_owned L (hook_owner i)
     then (let (out, n2) = run_hook i c W n1
       in (\<lparr>sr_completed = True, sr_outputs = [out], sr_memo_updates = [], sr_writes = []\<rparr>, n2))
     else (run_empty, n1)) (run_runnable r W memo n)"

section \<open>Registered systems\<close>

text \<open>
  The marks the planner keeps per system.  The sentinel \<open>u64::MAX\<close> of the planned mark is \<open>None\<close>
  (watermarks are unbounded here); that of the plan epoch is \<open>- 1\<close>.
\<close>

record 'v boxed_system =
  bs_runnable :: "'v runnable"
  bs_phase :: phase
  bs_view_sets :: "type_id list list"
  bs_view_freshness :: "type_id list"
  bs_tracked_stores :: "type_id list"
  bs_written :: "type_id list"
  bs_declared :: "type_id list option"
  bs_interest :: "type_id list option"
  bs_planned_mark :: "nat option"
  bs_delta_eligible :: bool
  bs_pair_bound :: bool
  bs_plan_epoch :: "64 word"
  bs_log_pos :: nat
  bs_forced_dirty :: "entity list"

text \<open>The refusal to watch a store one writes; \<open>False\<close> is the panic at registration.\<close>

definition validate_tracked_store_writes :: "type_id list \<Rightarrow> type_id list \<Rightarrow> type_id list option \<Rightarrow> bool" where
  "validate_tracked_store_writes tracked_stores written declared = (tracked_stores = [] \<or>
     (case declared of None \<Rightarrow> False
      | Some ds \<Rightarrow> \<not> list_ex (\<lambda>ty. ty \<in> set written \<or> ty \<in> set ds) tracked_stores))"

definition boxed_system_new :: "'v runnable \<Rightarrow> 'v param_methods list \<Rightarrow> 'v boxed_system option" where
  "boxed_system_new r ps = (let tracked_stores = remdups (tuple_tracked_stores ps); written = remdups (tuple_written ps) in
     if \<not> validate_tracked_store_writes tracked_stores written (tuple_outputs ps) then None
     else Some \<lparr>bs_runnable = r, bs_phase = Evaluate, bs_view_sets = tuple_view_sets ps,
       bs_view_freshness = remdups (tuple_view_freshness ps), bs_tracked_stores = tracked_stores,
       bs_written = written, bs_declared = tuple_outputs ps, bs_interest = tuple_interest ps,
       bs_planned_mark = None,
       bs_delta_eligible = (tuple_delta_shape ps = Driver \<and> tuple_interest ps \<noteq> None),
       bs_pair_bound = tuple_has_pair_bound ps, bs_plan_epoch = - 1, bs_log_pos = 0, bs_forced_dirty = []\<rparr>)"

definition merge_declarations :: "type_id list option \<Rightarrow> type_id list option \<Rightarrow> type_id list option" where
  "merge_declarations inner hook = (case (inner, hook) of (Some xs, Some ys) \<Rightarrow> Some (xs @ ys) | _ \<Rightarrow> None)"

text \<open>What is registered: a function, a hook around a system with its declaration, a phase.\<close>

datatype 'v system_decl =
    FunctionD "'v param_methods list" "'v kernel"
  | OnStartD "'v system_decl" "'v callback" "type_id list option"
  | OnCompleteD "'v system_decl" "'v callback" "type_id list option"
  | OnSettledD "'v system_decl" "'v callback" "type_id list option"
  | RunDuringD "'v system_decl" phase

definition hook_system :: "('v runnable \<Rightarrow> 'v runnable) \<Rightarrow> type_id list option \<Rightarrow> 'v boxed_system \<Rightarrow> 'v boxed_system option" where
  "hook_system wrap hook_declared s = (let declared = merge_declarations (bs_declared s) hook_declared in
     if \<not> validate_tracked_store_writes (bs_tracked_stores s) (bs_written s) declared then None
     else Some (s\<lparr>bs_runnable := wrap (bs_runnable s), bs_declared := declared, bs_planned_mark := None,
       bs_plan_epoch := - 1, bs_log_pos := 0, bs_forced_dirty := []\<rparr>))"

definition run_during :: "phase \<Rightarrow> 'v boxed_system \<Rightarrow> 'v boxed_system" where
  "run_during ph s = s\<lparr>bs_phase := ph\<rparr>"

primrec into_system :: "nat \<Rightarrow> 'v system_decl \<Rightarrow> 'v boxed_system option" where
  "into_system i (FunctionD ps f) =
     (if validate_bindings ps \<noteq> None then None else boxed_system_new (FunctionSystem i ps f) ps)"
| "into_system i (OnStartD d c ty) = Option.bind (into_system i d) (hook_system (\<lambda>r. OnStartSystem i r c) ty)"
| "into_system i (OnCompleteD d c ty) = Option.bind (into_system i d) (hook_system (\<lambda>r. OnCompleteSystem i r c) ty)"
| "into_system i (OnSettledD d c ty) = Option.bind (into_system i d) (hook_system (\<lambda>r. OnSettledSystem i r c) ty)"
| "into_system i (RunDuringD d ph) = map_option (run_during ph) (into_system i d)"

end
