(* ===== verification/Planner.thy ===== *)
theory Planner
  imports Systems Param_Props
begin

text \<open>
  The planner (system.rs, bowl.rs, dispatch/plan.rs): when a registered system needs planning,
  the dirty entities it plans from, the compaction of the write log, and the admission of the
  planned rows to execution.

  The marks of a system are atomics shared by every handle to it; here they are fields of the
  system, returned updated.
\<close>

section \<open>Marks\<close>

definition interest_mark :: "'v world \<Rightarrow> type_id list \<Rightarrow> nat" where
  "interest_mark W tys = fold max (map (store_watermark W) tys) 0"

definition peek_needs_planning :: "'v world \<Rightarrow> 'v boxed_system \<Rightarrow> bool" where
  "peek_needs_planning W s = (if bs_forced_dirty s \<noteq> [] then True
     else case bs_interest s of
       None \<Rightarrow> True
     | Some tys \<Rightarrow> (case bs_planned_mark s of None \<Rightarrow> True | Some mark \<Rightarrow> interest_mark W tys > mark))"

definition needs_planning :: "'v world \<Rightarrow> 'v boxed_system \<Rightarrow> bool \<times> 'v boxed_system" where
  "needs_planning W s = (if \<not> peek_needs_planning W s then (False, s)
     else case bs_interest s of
       None \<Rightarrow> (True, s)
     | Some tys \<Rightarrow> (True, s\<lparr>bs_planned_mark := Some (interest_mark W tys)\<rparr>))"

definition reset_full :: "'v boxed_system \<Rightarrow> 'v boxed_system" where
  "reset_full s = s\<lparr>bs_planned_mark := None, bs_plan_epoch := - 1\<rparr>"

definition force_replan :: "entity list \<Rightarrow> 'v boxed_system \<Rightarrow> 'v boxed_system" where
  "force_replan keys s = (if bs_delta_eligible s \<and> keys \<noteq> []
     then s\<lparr>bs_forced_dirty := bs_forced_dirty s @ keys\<rparr> else reset_full s)"

definition take_forced_dirty :: "'v boxed_system \<Rightarrow> entity list \<times> 'v boxed_system" where
  "take_forced_dirty s = (bs_forced_dirty s, s\<lparr>bs_forced_dirty := []\<rparr>)"

text \<open>\<open>sort_unstable\<close> and \<open>dedup\<close>.\<close>

definition sort_dedup :: "entity list \<Rightarrow> entity list" where
  "sort_dedup es = remdups_adj (sort es)"

definition logged_entities :: "type_id list \<Rightarrow> out_pair list \<Rightarrow> entity list" where
  "logged_entities tys log = map snd (filter (\<lambda>(ty, _). ty \<in> set tys) log)"

text \<open>The panics are a cursor past the log and a delta planner without interest.\<close>

definition compact_plan_log :: "64 word \<Rightarrow> out_pair list \<Rightarrow> 'v world \<Rightarrow> 'v boxed_system \<Rightarrow> 'v boxed_system option" where
  "compact_plan_log epoch log W s =
     (if \<not> bs_delta_eligible s \<or> bs_phase s = Startup \<or> bs_plan_epoch s \<noteq> epoch then Some s
      else if length log < bs_log_pos s then None
      else map_option (\<lambda>s1. s1\<lparr>bs_log_pos := 0, bs_plan_epoch := epoch + 1\<rparr>)
        (if peek_needs_planning W s then map_option (\<lambda>tys. s\<lparr>bs_forced_dirty :=
             sort_dedup (bs_forced_dirty s @ logged_entities tys (drop (bs_log_pos s) log))\<rparr>) (bs_interest s)
         else Some s))"

text \<open>The hint of the next plan, from the log of the wave's snapshot; \<open>None\<close> inside plans in full.\<close>

definition plan_hint :: "'v boxed_system \<Rightarrow> entity list \<Rightarrow> out_pair list \<Rightarrow> 64 word \<Rightarrow> entity list option option" where
  "plan_hint s forced log epoch = (if bs_delta_eligible s \<and> bs_plan_epoch s = epoch
     then map_option (\<lambda>tys. Some (sort_dedup
         (logged_entities tys (drop (min (bs_log_pos s) (length log)) log) @ forced))) (bs_interest s)
     else Some None)"

definition plan_system :: "'v world \<Rightarrow> memo_table \<Rightarrow> out_pair list \<Rightarrow> 64 word \<Rightarrow> 'v boxed_system \<Rightarrow> 'v pool \<Rightarrow>
    ('v planned_system_run list \<times> 'v boxed_system \<times> 'v pool) option" where
  "plan_system W memo log epoch s P = (let (forced, s1) = take_forced_dirty s in
     Option.bind (plan_hint s1 forced log epoch) (\<lambda>hint.
       map_option (\<lambda>(runs, P'). (runs,
           if bs_delta_eligible s1 then s1\<lparr>bs_log_pos := length log, bs_plan_epoch := epoch\<rparr> else s1, P'))
         (plan_runs (bs_runnable s1) W memo hint P)))"

section \<open>Admission\<close>

text \<open>Rows per batch; the argument is the number of worker threads, \<open>None\<close> without a runtime.\<close>

definition grain :: "nat option \<Rightarrow> nat \<Rightarrow> nat \<Rightarrow> nat" where
  "grain workers ready maximum = (case workers of
     None \<Rightarrow> maximum
   | Some n \<Rightarrow> (let k = max (n * 4) 1 in min (max ((ready + k - 1) div k) 1) maximum))"

type_synonym 'v queued_run = "run_id \<times> (nat \<Rightarrow> 'v system_run \<times> nat)"

record 'v admission =
  ad_system :: "'v boxed_system"
  ad_reservations :: reservations
  ad_deferred_conflicts :: bool
  ad_readers :: "'v queued_run list list"
  ad_writers :: "'v queued_run list list"

text \<open>Batches being filled, and the submission of a full one.\<close>

record 'v batches =
  bt_readers :: "'v queued_run list"
  bt_writers :: "'v queued_run list"

definition push_reader :: "nat \<Rightarrow> 'v queued_run \<Rightarrow> 'v batches \<times> 'v admission \<Rightarrow> 'v batches \<times> 'v admission" where
  "push_reader limit r s = (case s of (b, a) \<Rightarrow> let batch = bt_readers b @ [r] in
     if length batch = limit then (b\<lparr>bt_readers := []\<rparr>, a\<lparr>ad_readers := ad_readers a @ [batch]\<rparr>)
     else (b\<lparr>bt_readers := batch\<rparr>, a))"

definition push_writer :: "nat \<Rightarrow> 'v queued_run \<Rightarrow> 'v batches \<times> 'v admission \<Rightarrow> 'v batches \<times> 'v admission" where
  "push_writer limit r s = (case s of (b, a) \<Rightarrow> let batch = bt_writers b @ [r] in
     if length batch = limit then (b\<lparr>bt_writers := []\<rparr>, a\<lparr>ad_writers := ad_writers a @ [batch]\<rparr>)
     else (b\<lparr>bt_writers := batch\<rparr>, a))"

fun dispatch_loop :: "nat \<Rightarrow> 'v planned_system_run list \<Rightarrow> 'v batches \<times> 'v admission \<Rightarrow>
    ('v batches \<times> 'v admission) option" where
  "dispatch_loop limit [] s = Some s"
| "dispatch_loop limit (planned # runs) (b, a) =
     (case admit (psr_owner planned) (psr_access planned) (ad_reservations a) of
        None \<Rightarrow> None
      | Some (r, Inl Duplicate) \<Rightarrow> dispatch_loop limit runs (b, a\<lparr>ad_reservations := r\<rparr>)
      | Some (r, Inl (Conflict owner)) \<Rightarrow> dispatch_loop limit runs (b, a\<lparr>ad_reservations := r,
            ad_deferred_conflicts := True, ad_system := force_replan (inv_keys owner) (ad_system a)\<rparr>)
      | Some (r, Inr i) \<Rightarrow> (case is_writer r i of
            None \<Rightarrow> None
          | Some True \<Rightarrow> dispatch_loop limit runs (push_writer limit (i, psr_run planned) (b, a\<lparr>ad_reservations := r\<rparr>))
          | Some False \<Rightarrow> dispatch_loop limit runs (push_reader limit (i, psr_run planned) (b, a\<lparr>ad_reservations := r\<rparr>))))"

definition submit_rest :: "'v batches \<times> 'v admission \<Rightarrow> 'v admission" where
  "submit_rest s = (case s of (b, a) \<Rightarrow>
     a\<lparr>ad_readers := ad_readers a @ (if bt_readers b = [] then [] else [bt_readers b]),
       ad_writers := ad_writers a @ (if bt_writers b = [] then [] else [bt_writers b])\<rparr>)"

definition dispatch_rows :: "nat option \<Rightarrow> nat \<Rightarrow> 'v planned_system_run list \<Rightarrow> 'v admission \<Rightarrow> 'v admission option" where
  "dispatch_rows workers maximum runs a = map_option submit_rest
     (dispatch_loop (grain workers (length runs) maximum) runs (\<lparr>bt_readers = [], bt_writers = []\<rparr>, a))"

section \<open>A planning wave\<close>

text \<open>What a wave shares between the systems it plans.\<close>

record 'v wave =
  wv_reservations :: reservations
  wv_deferred_conflicts :: bool
  wv_readers :: "'v queued_run list list"
  wv_writers :: "'v queued_run list list"
  wv_pool :: "'v pool"

definition plan_and_dispatch :: "nat option \<Rightarrow> nat \<Rightarrow> 'v world \<Rightarrow> memo_table \<Rightarrow> out_pair list \<Rightarrow> 64 word \<Rightarrow>
    'v boxed_system \<Rightarrow> 'v wave \<Rightarrow> ('v boxed_system \<times> 'v wave) option" where
  "plan_and_dispatch workers maximum W memo log epoch s v =
     Option.bind (plan_system W memo log epoch s (wv_pool v)) (\<lambda>(runs, s1, P).
       map_option (\<lambda>a. (ad_system a, \<lparr>wv_reservations = ad_reservations a, wv_deferred_conflicts = ad_deferred_conflicts a,
           wv_readers = ad_readers a, wv_writers = ad_writers a, wv_pool = P\<rparr>))
         (dispatch_rows workers maximum runs \<lparr>ad_system = s1, ad_reservations = wv_reservations v,
           ad_deferred_conflicts = wv_deferred_conflicts v, ad_readers = wv_readers v, ad_writers = wv_writers v\<rparr>))"

fun plan_wave :: "nat option \<Rightarrow> nat \<Rightarrow> phase \<Rightarrow> 'v world \<Rightarrow> memo_table \<Rightarrow> out_pair list \<Rightarrow> 64 word \<Rightarrow>
    'v boxed_system list \<Rightarrow> 'v wave \<Rightarrow> ('v boxed_system list \<times> 'v wave) option" where
  "plan_wave workers maximum ph W memo log epoch [] v = Some ([], v)"
| "plan_wave workers maximum ph W memo log epoch (s # ss) v =
     (let (planned, s1) = (if bs_phase s = ph then needs_planning W s else (False, s)) in
      Option.bind (if planned then plan_and_dispatch workers maximum W memo log epoch s1 v else Some (s1, v))
        (\<lambda>(s2, v1). map_option (\<lambda>(ss', v2). (s2 # ss', v2)) (plan_wave workers maximum ph W memo log epoch ss v1)))"

end
