(* ===== verification/Planner_Props.thy ===== *)
theory Planner_Props
  imports Planner
begin

text \<open>
  What the planner guarantees: planned rows are never lost, log compaction keeps the work a
  system still has to do.
\<close>

section \<open>Admission keeps every planned row\<close>

lemma records_insert_get:
  assumes "records_insert rc rs = Some (rs', i)" and "records_ok rs"
  shows "records_get rs' j = (if j = i then Some rc else records_get rs j)"
  by (rule records_insert_cases [OF assms];
      cases i; cases j; auto simp: records_get_def nth_list_update nth_append Let_def)

lemma admit_get:
  assumes ok: "reservations_ok r" and adm: "admit ow as r = Some (r', res)"
  shows "reservations_ok r'"
    and "res = Inl e \<Longrightarrow> records_get (records r') j = records_get (records r) j"
  using admit_ok [OF ok adm] admit_rejects_ok [OF ok] adm by simp_all

definition planned_writes :: "'v planned_system_run \<Rightarrow> bool" where
  "planned_writes p \<longleftrightarrow> list_ex (\<lambda>a. acc_kind a = Write) (psr_access p)"

lemma resolved_writes:
  assumes "reservations_ok r" and "resolve_all (components r) as = (cs, ras)"
  shows "(\<exists>ra \<in> set ras. ra_kind ra = Write) \<longleftrightarrow> list_ex (\<lambda>a. acc_kind a = Write) as"
proof -
  have "list_all2 (resolved_as cs) as ras"
    using resolve_all_spec [OF _ _ assms(2)] assms(1) by (auto simp: reservations_ok_def)
  then show ?thesis by induction (auto simp: resolved_as_def)
qed

lemma admit_get_new:
  assumes ok: "reservations_ok r" and adm: "admit ow as r = Some (r', Inr i)"
  shows "\<exists>rc. rec_owner rc = ow \<and> rec_writer rc = list_ex (\<lambda>a. acc_kind a = Write) as \<and> records_get (records r) i = None
    \<and> (\<forall>j. records_get (records r') j = (if j = i then Some rc else records_get (records r) j))"
proof (rule admit_accepts [OF ok adm])
  fix cs ras rc
  assume rc: "rc = \<lparr>rec_owner = ow, rec_accesses = ras, rec_writer = (\<exists>a \<in> set ras. ra_kind a = Write)\<rparr>"
    and ins: "records_insert rc (records r) = Some (records r', i)" and res: "resolve_all (components r) as = (cs, ras)"
  have rok: "records_ok (records r)" using ok by (simp add: reservations_ok_def)
  have "records_get (records r) i = None"
    using records_insert_live(2) [OF ins rok] records_get_live [of "records r" i] by (cases "records_get (records r) i") auto
  then show ?thesis using records_insert_get [OF ins rok] rc resolved_writes [OF ok res] by (intro exI [of _ rc]) simp
qed

text \<open>What becomes of a row that cannot be admitted: its keys wait for the next plan.\<close>

definition sent_back :: "'v boxed_system \<Rightarrow> system_invocation \<Rightarrow> bool" where
  "sent_back s ow = (if bs_delta_eligible s \<and> inv_keys ow \<noteq> [] then set (inv_keys ow) \<subseteq> set (bs_forced_dirty s)
     else bs_planned_mark s = None \<and> bs_plan_epoch s = - 1)"

definition in_flight :: "reservations \<Rightarrow> system_invocation \<Rightarrow> bool" where
  "in_flight r ow \<longleftrightarrow> (\<exists>i rc. records_get (records r) i = Some rc \<and> rec_owner rc = ow)"

lemma force_replan_marks:
  "bs_delta_eligible (force_replan keys s) = bs_delta_eligible s"
  "bs_forced_dirty (force_replan keys s) = bs_forced_dirty s @ (if bs_delta_eligible s then keys else [])"
  "bs_planned_mark (force_replan keys s) = (if bs_delta_eligible s \<and> keys \<noteq> [] then bs_planned_mark s else None)"
  "bs_plan_epoch (force_replan keys s) = (if bs_delta_eligible s \<and> keys \<noteq> [] then bs_plan_epoch s else - 1)"
  by (simp_all add: force_replan_def reset_full_def)

lemma force_replan_sent_back: "sent_back (force_replan (inv_keys ow) s) ow"
  by (simp add: sent_back_def force_replan_marks)

lemma force_replan_keeps: "sent_back s ow \<Longrightarrow> sent_back (force_replan keys s) ow"
  by (cases "bs_delta_eligible s"; cases "inv_keys ow = []"; cases "keys = []")
    (simp_all add: sent_back_def force_replan_marks le_supI1)

lemma duplicate_in_flight:
  assumes "reservations_ok r" and "admit ow as r = Some (r', Inl Duplicate)"
  shows "in_flight r ow"
proof -
  have "map_of (owners r) ow \<noteq> None"
  proof
    assume none: "map_of (owners r) ow = None"
    obtain cs ras where res: "resolve_all (components r) as = (cs, ras)" by (rule prod.exhaust)
    show False
    proof (cases "\<exists>a \<in> set ras. \<exists>b \<in># live_accesses (records r). ra_conflicts a b")
      case True
      then show False using admit_new(1) [OF assms(1) none res] assms(2) by simp
    next
      case False
      then show False using admit_new(2) [OF assms(1) none res] assms(2) by (auto split: Option.bind_splits prod.splits)
    qed
  qed
  then show ?thesis using assms(1) by (auto simp: reservations_parts in_flight_def)
qed

lemma admit_conflict_owner:
  assumes "reservations_ok r" and "admit ow as r = Some (r', Inl (Conflict owner))"
  shows "owner = ow"
proof (cases "map_of (owners r) ow")
  case None
  obtain cs ras where res: "resolve_all (components r) as = (cs, ras)" by (rule prod.exhaust)
  show ?thesis
  proof (cases "\<exists>a \<in> set ras. \<exists>b \<in># live_accesses (records r). ra_conflicts a b")
    case True
    then show ?thesis using admit_new(1) [OF assms(1) None res] assms(2) by simp
  next
    case False
    then show ?thesis using admit_new(2) [OF assms(1) None res] assms(2) by (auto split: Option.bind_splits prod.splits)
  qed
qed (use assms(2) in \<open>simp add: admit_def\<close>)

text \<open>Everything handed to a queue, batch by batch or still in the batch being filled.\<close>

definition all_readers :: "'v batches \<times> 'v admission \<Rightarrow> 'v queued_run list" where
  "all_readers s = concat (ad_readers (snd s)) @ bt_readers (fst s)"

definition all_writers :: "'v batches \<times> 'v admission \<Rightarrow> 'v queued_run list" where
  "all_writers s = concat (ad_writers (snd s)) @ bt_writers (fst s)"

lemma push_reader_all [simp]:
  "all_readers (push_reader limit r s) = all_readers s @ [r]" "all_writers (push_reader limit r s) = all_writers s"
  "ad_system (snd (push_reader limit r s)) = ad_system (snd s)"
  "ad_reservations (snd (push_reader limit r s)) = ad_reservations (snd s)"
  "ad_deferred_conflicts (snd (push_reader limit r s)) = ad_deferred_conflicts (snd s)"
  by (cases s; simp add: push_reader_def all_readers_def all_writers_def Let_def)+

lemma push_writer_all [simp]:
  "all_writers (push_writer limit r s) = all_writers s @ [r]" "all_readers (push_writer limit r s) = all_readers s"
  "ad_system (snd (push_writer limit r s)) = ad_system (snd s)"
  "ad_reservations (snd (push_writer limit r s)) = ad_reservations (snd s)"
  "ad_deferred_conflicts (snd (push_writer limit r s)) = ad_deferred_conflicts (snd s)"
  by (cases s; simp add: push_writer_def all_readers_def all_writers_def Let_def)+

text \<open>The rows of one class that were admitted, in the order they were planned, each under its id.\<close>

definition queued_as :: "bool \<Rightarrow> 'v planned_system_run list \<Rightarrow> run_id option list \<Rightarrow> 'v queued_run list" where
  "queued_as w runs ids = concat (map2 (\<lambda>p io. case io of None \<Rightarrow> []
     | Some i \<Rightarrow> if planned_writes p = w then [(i, psr_run p)] else []) runs ids)"

definition admitted_ids :: "run_id option list \<Rightarrow> run_id list" where
  "admitted_ids ids = concat (map (\<lambda>io. case io of None \<Rightarrow> [] | Some i \<Rightarrow> [i]) ids)"

definition keeps_back :: "'v admission \<Rightarrow> 'v admission \<Rightarrow> bool" where
  "keeps_back a a' \<longleftrightarrow> (ad_deferred_conflicts a \<longrightarrow> ad_deferred_conflicts a')
     \<and> (\<forall>ow. sent_back (ad_system a) ow \<longrightarrow> sent_back (ad_system a') ow)"

definition gained :: "reservations \<Rightarrow> reservations \<Rightarrow> run_id set \<Rightarrow> bool" where
  "gained r r' ids \<longleftrightarrow> (\<forall>i\<in>ids. records_get (records r) i = None)
     \<and> (\<forall>i. i \<notin> ids \<longrightarrow> records_get (records r') i = records_get (records r) i)"

lemma gained_trans: "gained r r1 I \<Longrightarrow> gained r1 r' J \<Longrightarrow> gained r r' (I \<union> J)"
  unfolding gained_def by (metis Un_iff)

text \<open>
  What became of a planned row: it holds the reservation it was given, or it was given none and its
  invocation runs already or it was sent back with the conflict flagged.
\<close>

definition row_outcome :: "'v admission \<Rightarrow> 'v planned_system_run \<Rightarrow> run_id option \<Rightarrow> bool" where
  "row_outcome a p io = (case io of
     Some i \<Rightarrow> (\<exists>rc. records_get (records (ad_reservations a)) i = Some rc
       \<and> rec_owner rc = psr_owner p \<and> rec_writer rc = planned_writes p)
   | None \<Rightarrow> in_flight (ad_reservations a) (psr_owner p) \<or> ad_deferred_conflicts a \<and> sent_back (ad_system a) (psr_owner p))"

lemma row_outcome_mono:
  assumes "row_outcome a p io" and "keeps_back a a'"
    and "\<And>i rc. records_get (records (ad_reservations a)) i = Some rc \<Longrightarrow> records_get (records (ad_reservations a')) i = Some rc"
  shows "row_outcome a' p io"
proof (cases io)
  case None
  have "in_flight (ad_reservations a) ow \<Longrightarrow> in_flight (ad_reservations a') ow" for ow
    using assms(3) unfolding in_flight_def by blast
  then show ?thesis using assms(1,2) None unfolding row_outcome_def keeps_back_def by auto
qed (use assms(1,3) in \<open>auto simp: row_outcome_def\<close>)

definition handed_over :: "'v planned_system_run list \<Rightarrow> run_id option list \<Rightarrow> 'v batches \<times> 'v admission \<Rightarrow> 'v batches \<times> 'v admission \<Rightarrow> bool" where
  "handed_over runs ids s s' \<longleftrightarrow>
     all_readers s' = all_readers s @ queued_as False runs ids \<and> all_writers s' = all_writers s @ queued_as True runs ids
     \<and> distinct (admitted_ids ids) \<and> gained (ad_reservations (snd s)) (ad_reservations (snd s')) (set (admitted_ids ids))
     \<and> list_all2 (row_outcome (snd s')) runs ids \<and> keeps_back (snd s) (snd s')"

lemma outcome_live:
  "list_all2 (row_outcome a) runs ids \<Longrightarrow> i \<in> set (admitted_ids ids) \<Longrightarrow> records_get (records (ad_reservations a)) i \<noteq> None"
  by (induction rule: list_all2_induct) (auto simp: admitted_ids_def row_outcome_def split: option.splits)

lemma handed_over_grows:
  assumes "handed_over runs ids s s'" and "records_get (records (ad_reservations (snd s))) i = Some rc"
  shows "records_get (records (ad_reservations (snd s'))) i = Some rc"
  using assms unfolding handed_over_def gained_def by (metis option.distinct(1))

lemma handed_over_append:
  assumes 1: "handed_over xs is s s1" and 2: "handed_over ys js s1 s'"
  shows "handed_over (xs @ ys) (is @ js) s s'"
proof -
  have len: "length xs = length is" using 1 unfolding handed_over_def by (auto dest: list_all2_lengthD)
  have ids: "admitted_ids (is @ js) = admitted_ids is @ admitted_ids js" by (simp add: admitted_ids_def)
  have "gained (ad_reservations (snd s)) (ad_reservations (snd s')) (set (admitted_ids (is @ js)))"
    using 1 2 gained_trans unfolding handed_over_def ids set_append by blast
  moreover have "distinct (admitted_ids (is @ js))"
    using 1 2 outcome_live [of "snd s1" xs "is"] unfolding handed_over_def ids gained_def by fastforce
  moreover have kb: "keeps_back (snd s) (snd s')" "keeps_back (snd s1) (snd s')"
    using 1 2 unfolding handed_over_def keeps_back_def by blast+
  moreover have "list_all2 (row_outcome (snd s')) xs is"
    using 1 unfolding handed_over_def by (auto elim!: list_all2_mono intro: row_outcome_mono [OF _ kb(2)] handed_over_grows [OF 2])
  ultimately show ?thesis
    using 1 2 len unfolding handed_over_def by (auto simp: queued_as_def intro: list_all2_appendI)
qed

lemmas handed_row = handed_over_def queued_as_def admitted_ids_def row_outcome_def keeps_back_def gained_def

lemma dispatch_loop_handed:
  "dispatch_loop limit runs s = Some s' \<Longrightarrow> reservations_ok (ad_reservations (snd s)) \<Longrightarrow> \<exists>ids. handed_over runs ids s s'"
proof (induction runs arbitrary: s)
  case Nil
  then show ?case by (intro exI [of _ "[]"]) (simp add: handed_row)
next
  case (Cons p runs)
  obtain b a where s: "s = (b, a)" by (rule prod.exhaust)
  from Cons.prems(1) obtain r res where adm: "admit (psr_owner p) (psr_access p) (ad_reservations a) = Some (r, res)"
    by (auto simp: s split: option.splits)
  note ok = Cons.prems(2) [unfolded s, simplified]
  note g = admit_get [OF ok adm]
  let ?a = "a\<lparr>ad_reservations := r\<rparr>"
  have "\<exists>s1 io. dispatch_loop limit runs s1 = Some s' \<and> ad_reservations (snd s1) = r \<and> handed_over [p] [io] s s1"
  proof (cases res)
    case (Inl e)
    note same = g(2) [OF Inl]
    show ?thesis
    proof (cases e)
      case Duplicate
      have "in_flight r (psr_owner p)"
        using duplicate_in_flight [OF ok adm [unfolded Inl Duplicate]] same by (simp add: in_flight_def)
      then have "handed_over [p] [None] s (b, ?a)"
        by (simp add: handed_row s all_readers_def all_writers_def same)
      moreover have "dispatch_loop limit runs (b, ?a) = Some s'"
        using Cons.prems(1) by (simp add: s adm Inl Duplicate)
      ultimately show ?thesis by (intro exI [of _ "(b, ?a)"] exI [of _ None]) simp
    next
      case (Conflict owner)
      have owner: "owner = psr_owner p"
        by (rule admit_conflict_owner [OF ok adm [unfolded Inl Conflict]])
      let ?a' = "?a\<lparr>ad_deferred_conflicts := True, ad_system := force_replan (inv_keys owner) (ad_system a)\<rparr>"
      have "handed_over [p] [None] s (b, ?a')"
        by (simp add: handed_row s all_readers_def all_writers_def same owner force_replan_sent_back force_replan_keeps)
      moreover have "dispatch_loop limit runs (b, ?a') = Some s'"
        using Cons.prems(1) by (simp add: s adm Inl Conflict)
      ultimately show ?thesis by (intro exI [of _ "(b, ?a')"] exI [of _ None]) simp
    qed
  next
    case (Inr i)
    obtain rc where rc: "rec_owner rc = psr_owner p" "rec_writer rc = planned_writes p" "records_get (records (ad_reservations a)) i = None"
      "records_get (records r) j = (if j = i then Some rc else records_get (records (ad_reservations a)) j)" for j
      using admit_get_new [OF ok adm [unfolded Inr]] unfolding planned_writes_def by blast
    have w: "is_writer r i = Some (planned_writes p)" by (simp add: is_writer_def rc(2,4))
    let ?s1 = "if planned_writes p then push_writer limit (i, psr_run p) (b, ?a) else push_reader limit (i, psr_run p) (b, ?a)"
    have "handed_over [p] [Some i] s ?s1"
      using rc by (simp add: handed_row s) (simp add: all_readers_def all_writers_def)
    moreover have "dispatch_loop limit runs ?s1 = Some s'" using Cons.prems(1) by (cases "planned_writes p") (simp_all add: s adm Inr w)
    ultimately show ?thesis by (intro exI [of _ ?s1] exI) simp_all
  qed
  then obtain s1 io where 1: "dispatch_loop limit runs s1 = Some s'" "ad_reservations (snd s1) = r"
    "handed_over [p] [io] s s1" by blast
  obtain ids where "handed_over runs ids s1 s'" using Cons.IH [OF 1(1)] 1(2) g(1) by blast
  then show ?case using handed_over_append [OF 1(3)] by fastforce
qed

text \<open>Batches are full, except that the last one may be smaller; it is not empty.\<close>

definition batched :: "nat \<Rightarrow> 'v queued_run list list \<Rightarrow> bool" where
  "batched limit bs \<longleftrightarrow> list_all (\<lambda>b. length b = limit) (butlast bs) \<and> (bs = [] \<or> last bs \<noteq> [] \<and> length (last bs) \<le> limit)"

definition batches_from :: "nat \<Rightarrow> 'v batches \<times> 'v admission \<Rightarrow> 'v batches \<times> 'v admission \<Rightarrow> bool" where
  "batches_from limit s s' \<longleftrightarrow> length (bt_readers (fst s')) < limit \<and> length (bt_writers (fst s')) < limit
     \<and> (\<exists>rb. ad_readers (snd s') = ad_readers (snd s) @ rb \<and> list_all (\<lambda>b. length b = limit) rb)
     \<and> (\<exists>wb. ad_writers (snd s') = ad_writers (snd s) @ wb \<and> list_all (\<lambda>b. length b = limit) wb)"

lemma batches_from_trans: "batches_from limit s s1 \<Longrightarrow> batches_from limit s1 s' \<Longrightarrow> batches_from limit s s'"
  unfolding batches_from_def by (elim conjE exE) (simp add: list_all_append)

lemma batches_from_refl:
  assumes "length (bt_readers (fst s)) < limit" and "length (bt_writers (fst s)) < limit"
    and "fst s' = fst s" and "ad_readers (snd s') = ad_readers (snd s)" and "ad_writers (snd s') = ad_writers (snd s)"
  shows "batches_from limit s s'"
  using assms by (simp add: batches_from_def)

lemma push_batches:
  assumes "length (bt_readers b) < limit" and "length (bt_writers b) < limit"
  shows "batches_from limit (b, a) (push_reader limit r (b, a\<lparr>ad_reservations := v\<rparr>))"
    and "batches_from limit (b, a) (push_writer limit r (b, a\<lparr>ad_reservations := v\<rparr>))"
  using assms by (auto simp: batches_from_def push_reader_def push_writer_def Let_def)

lemma dispatch_loop_batches:
  "dispatch_loop limit runs s = Some s' \<Longrightarrow> length (bt_readers (fst s)) < limit \<Longrightarrow> length (bt_writers (fst s)) < limit \<Longrightarrow>
   batches_from limit s s'"
proof (induction runs arbitrary: s)
  case Nil
  then show ?case by (auto intro: batches_from_refl)
next
  case (Cons p runs)
  obtain b a where s: "s = (b, a)" by (rule prod.exhaust)
  have "\<exists>s1. dispatch_loop limit runs s1 = Some s' \<and> batches_from limit s s1"
    using Cons.prems unfolding s
    by (simp del: split_paired_Ex split: option.splits prod.splits sum.splits rejected.splits bool.splits)
      ((intro exI conjI, assumption, rule push_batches batches_from_refl; simp)+)
  then obtain s1 where 1: "dispatch_loop limit runs s1 = Some s'" "batches_from limit s s1" by blast
  then have "batches_from limit s1 s'" using Cons.IH [OF 1(1)] by (simp add: batches_from_def)
  then show ?case using 1(2) batches_from_trans by blast
qed

lemma batched_rest:
  assumes "list_all (\<lambda>b. length b = limit) bs" and "length rest < limit"
  shows "batched limit (bs @ (if rest = [] then [] else [rest]))"
proof (cases "rest = []")
  case True
  then show ?thesis using assms by (cases bs rule: rev_cases) (auto simp: batched_def)
qed (use assms in \<open>simp add: batched_def\<close>)

text \<open>
  The size of a batch: the least with which four batches for every worker hold all the rows, at
  most the maximum; the maximum when there is no runtime to ask for its workers.
\<close>

definition batch_size :: "nat option \<Rightarrow> nat \<Rightarrow> nat \<Rightarrow> nat \<Rightarrow> bool" where
  "batch_size workers ready maximum g \<longleftrightarrow> 0 < g \<and> g \<le> maximum \<and> (case workers of
     None \<Rightarrow> g = maximum
   | Some n \<Rightarrow> (let k = max 1 (4 * n) in (g < maximum \<longrightarrow> ready \<le> g * k) \<and> (1 < g \<longrightarrow> (g - 1) * k < ready)))"

lemma div_up: "0 < k \<Longrightarrow> m \<le> (m + k - 1) div k * k \<and> (0 < m \<longrightarrow> ((m + k - 1) div k - 1) * k < m)" for k m :: nat
proof -
  assume k: "0 < k"
  let ?q = "(m + k - 1) div k"
  have e: "m + k - 1 = ?q * k + (m + k - 1) mod k" by simp
  have r: "(m + k - 1) mod k < k" using k by simp
  have "m \<le> ?q * k" using e r k by linarith
  moreover have "(?q - 1) * k < m" if "0 < m"
  proof -
    have "?q * k \<le> m + k - 1" using e by linarith
    moreover have "(?q - 1) * k = ?q * k - k" by (simp add: diff_mult_distrib)
    ultimately show ?thesis using k that by linarith
  qed
  ultimately show ?thesis by blast
qed

lemma grain_size: "0 < maximum \<Longrightarrow> batch_size workers ready maximum (grain workers ready maximum)"
proof (cases workers)
  case (Some n)
  assume m: "0 < maximum"
  define k where "k = max 1 (4 * n)"
  define q where "q = (ready + k - 1) div k"
  have k: "0 < k" by (simp add: k_def)
  have g: "grain workers ready maximum = min (max q 1) maximum"
    by (simp add: grain_def Some Let_def k_def q_def max.commute mult.commute)
  have up: "ready \<le> q * k" "0 < ready \<Longrightarrow> (q - 1) * k < ready" using div_up [OF k, of ready] by (simp_all add: q_def)
  have "ready \<le> max q 1 * k" by (rule order.trans [OF up(1)]) simp
  moreover have "(min (max q 1) maximum - 1) * k < ready" if "1 < min (max q 1) maximum"
  proof -
    have "1 < q" using that by auto
    then have "0 < ready" using up(1) k by (cases ready) (auto simp: q_def)
    then have "(q - 1) * k < ready" by (rule up(2))
    moreover have "min (max q 1) maximum - 1 \<le> q - 1" using that by auto
    ultimately show ?thesis by (meson mult_le_mono1 order.strict_trans1)
  qed
  ultimately have "batch_size (Some n) ready maximum (min (max q 1) maximum)"
    using m unfolding batch_size_def option.case Let_def k_def [symmetric] by (auto simp: min_def)
  then show ?thesis using g Some by simp
qed (simp add: batch_size_def grain_def)

text \<open>
  C33. Admission loses no planned row.  Every planned row is either given a run id of its own, and
  then it is in flight under that id, which was free before, and is queued exactly once: with the
  run planned for it, among the writers exactly when its accesses write, in the order of planning.
  Or it is given none: then its invocation is in flight already, or the conflict is flagged and it
  is sent back to its system, whose next plan starts from its keys when the system plans from
  deltas (and the row has keys) and from everything otherwise.  Nothing else is queued, and no
  other reservation changes.  The batches of a class are full except the last, where a batch is the
  least number of rows with which four batches per worker suffice, at most the maximum.
\<close>

theorem dispatch_loses_no_row:
  assumes "dispatch_rows workers maximum runs a = Some a'" and "reservations_ok (ad_reservations a)" and "0 < maximum"
  shows "\<exists>rb wb ids g. ad_readers a' = ad_readers a @ rb \<and> ad_writers a' = ad_writers a @ wb
    \<and> batch_size workers (length runs) maximum g \<and> batched g rb \<and> batched g wb
    \<and> concat rb = queued_as False runs ids \<and> concat wb = queued_as True runs ids
    \<and> distinct (admitted_ids ids)
    \<and> gained (ad_reservations a) (ad_reservations a') (set (admitted_ids ids))
    \<and> list_all2 (row_outcome a') runs ids"
proof -
  let ?s = "(\<lparr>bt_readers = [], bt_writers = []\<rparr>, a)" and ?limit = "grain workers (length runs) maximum"
  obtain s' where loop: "dispatch_loop ?limit runs ?s = Some s'" and a': "a' = submit_rest s'"
    using assms(1) by (auto simp: dispatch_rows_def)
  obtain b1 a1 where s': "s' = (b1, a1)" by (rule prod.exhaust)
  obtain ids where h: "handed_over runs ids ?s s'" using dispatch_loop_handed [OF loop] assms(2) by auto
  note g = grain_size [OF assms(3), of workers "length runs"]
  have "batches_from ?limit ?s s'" using dispatch_loop_batches [OF loop] g by (simp add: batch_size_def)
  then obtain rb wb where b: "ad_readers a1 = ad_readers a @ rb" "list_all (\<lambda>b. length b = ?limit) rb"
    "ad_writers a1 = ad_writers a @ wb" "list_all (\<lambda>b. length b = ?limit) wb"
    "length (bt_readers b1) < ?limit" "length (bt_writers b1) < ?limit"
    by (auto simp: batches_from_def s')
  let ?rb = "rb @ (if bt_readers b1 = [] then [] else [bt_readers b1])"
  let ?wb = "wb @ (if bt_writers b1 = [] then [] else [bt_writers b1])"
  have q: "ad_readers a' = ad_readers a @ ?rb" "ad_writers a' = ad_writers a @ ?wb" "ad_reservations a' = ad_reservations a1"
    by (simp_all add: a' s' submit_rest_def b)
  have c: "concat ?rb = queued_as False runs ids" "concat ?wb = queued_as True runs ids"
    using h b by (auto simp: handed_over_def all_readers_def all_writers_def s')
  have o: "row_outcome a' = row_outcome a1"
    by (rule ext, rule ext) (simp add: row_outcome_def a' s' submit_rest_def split: option.split)
  show ?thesis
    using h g batched_rest [OF b(2,5)] batched_rest [OF b(4,6)] c unfolding handed_over_def q o s' snd_conv
    by (intro exI [of _ ?rb] exI [of _ ?wb] exI [of _ ids] exI [of _ ?limit]) simp
qed

section \<open>Compaction keeps the work\<close>

lemma sort_dedup_set [simp]: "set (sort_dedup es) = set es"
  by (simp add: sort_dedup_def)

lemma remdups_adj_sorted: "sorted xs \<Longrightarrow> distinct (remdups_adj xs)"
  by (induction xs rule: remdups_adj.induct) auto

lemma sort_dedup_eq: "set xs = set ys \<Longrightarrow> sort_dedup xs = sort_dedup ys"
  unfolding sort_dedup_def
  by (rule sorted_distinct_set_unique) (simp_all add: remdups_adj_sorted)

lemma logged_append [simp]: "logged_entities tys (xs @ ys) = logged_entities tys xs @ logged_entities tys ys"
  by (simp add: logged_entities_def)

lemma fold_max_mono:
  fixes f g :: "'a \<Rightarrow> nat"
  shows "\<forall>x\<in>set xs. f x \<le> g x \<Longrightarrow> a \<le> b \<Longrightarrow> fold max (map f xs) a \<le> fold max (map g xs) b"
  by (induction xs arbitrary: a b) (auto simp: max.coboundedI1 max.coboundedI2)

lemma fold_max_upper:
  fixes a :: nat
  shows "a \<le> fold max xs a \<and> (\<forall>x\<in>set xs. x \<le> fold max xs a)"
proof (induction xs arbitrary: a)
  case (Cons x xs)
  have "max x a \<le> fold max xs (max x a)" using Cons.IH by blast
  moreover have "\<forall>y\<in>set xs. y \<le> fold max xs (max x a)" using Cons.IH by blast
  ultimately show ?case by simp
qed simp

lemma interest_mark_upper: "ty \<in> set tys \<Longrightarrow> store_watermark W ty \<le> interest_mark W tys"
  using fold_max_upper [of 0 "map (store_watermark W) tys"] by (simp add: interest_mark_def)

lemma interest_mark_mono:
  "list_all (\<lambda>ty. store_watermark W ty \<le> store_watermark W' ty) tys \<Longrightarrow> interest_mark W tys \<le> interest_mark W' tys"
  unfolding interest_mark_def by (rule fold_max_mono) (simp_all add: list_all_iff)


section \<open>Witnesses\<close>

text \<open>
  A system that writes component 0 of every entity holding it and emits component 3, planned in
  full once; the two conflicting rows of entity 1 are planned next to a row of entity 3.
\<close>

definition writer_params :: "system_param list" where
  "writer_params = [QueryP (TupleParam [] [MutPart (UserTy 0)]) NoFilter, CommandsP (Some [UserTy 3])]"

definition writer_kernel :: "nat user_value kernel" where
  "writer_kernel W ss s = (case ss of
     RowS e # _ \<Rightarrow> (entity_insert e (UserTy 3) (demo_plain (e + 1)) (fst s), snd s)
   | _ \<Rightarrow> s)"

definition writer_decl :: "nat user_value system_decl" where
  "writer_decl = FunctionD (map (sp_impl demo_trait) writer_params) writer_kernel"

definition writer_system :: "nat user_value boxed_system" where
  "writer_system = the (into_system 0 writer_decl)"

lemma writer_system_eq:
  "writer_system = \<lparr>bs_runnable = FunctionSystem 0 (map (sp_impl demo_trait) writer_params) writer_kernel,
     bs_phase = Evaluate, bs_view_sets = [], bs_view_freshness = [], bs_tracked_stores = [],
     bs_written = [UserTy 0], bs_declared = Some [UserTy 3], bs_interest = Some [UserTy 0],
     bs_planned_mark = None, bs_delta_eligible = True, bs_pair_bound = False, bs_plan_epoch = - 1,
     bs_log_pos = 0, bs_forced_dirty = []\<rparr>"
proof -
  have "validate_bindings (map (sp_impl demo_trait) writer_params) = None"
    "tuple_tracked_stores (map (sp_impl demo_trait) writer_params) = []"
    "remdups (tuple_written (map (sp_impl demo_trait) writer_params)) = [UserTy 0]"
    "tuple_outputs (map (sp_impl demo_trait) writer_params) = Some [UserTy 3]"
    "tuple_view_sets (map (sp_impl demo_trait) writer_params) = []"
    "tuple_view_freshness (map (sp_impl demo_trait) writer_params) = []"
    "tuple_interest (map (sp_impl demo_trait) writer_params) = Some [UserTy 0]"
    "tuple_delta_shape (map (sp_impl demo_trait) writer_params) = Driver"
    "tuple_has_pair_bound (map (sp_impl demo_trait) writer_params) = False"
    by code_simp+
  then show ?thesis
    by (simp add: writer_system_def writer_decl_def boxed_system_new_def validate_tracked_store_writes_def)
qed

definition demo_run :: "nat \<Rightarrow> entity \<Rightarrow> access list \<Rightarrow> nat user_value planned_system_run" where
  "demo_run i e as = \<lparr>psr_owner = \<lparr>inv_system = i, inv_keys = [e]\<rparr>, psr_access = as, psr_run = Pair run_empty\<rparr>"

definition demo_runs :: "nat user_value planned_system_run list" where
  "demo_runs = [demo_run 0 1 [access_write (UserTy 0) 1], demo_run 1 1 [access_read (UserTy 0) 1],
     demo_run 0 3 [access_read (UserTy 0) 3]]"

definition demo_admission :: "nat user_value admission" where
  "demo_admission = \<lparr>ad_system = writer_system, ad_reservations = reservations_new [],
     ad_deferred_conflicts = False, ad_readers = [], ad_writers = []\<rparr>"

lemma demo_dispatch:
  "map_option (\<lambda>a. (length (concat (ad_readers a)), length (concat (ad_writers a)), ad_deferred_conflicts a, bs_forced_dirty (ad_system a)))
     (dispatch_rows (Some 1) 2 demo_runs demo_admission) = Some (1, 1, True, [1])"
  unfolding demo_admission_def writer_system_eq by code_simp

theorem dispatch_loses_no_row_witness:
  "\<exists>a rb ids. dispatch_rows (Some 1) 2 demo_runs demo_admission = Some a \<and> ad_readers a = rb
    \<and> length (concat (ad_writers a)) = 1 \<and> concat rb = queued_as False demo_runs ids \<and> distinct (admitted_ids ids)
    \<and> list_all2 (row_outcome a) demo_runs ids"
proof -
  obtain a where a: "dispatch_rows (Some 1) 2 demo_runs demo_admission = Some a" "length (concat (ad_writers a)) = 1"
    using demo_dispatch by auto
  have "reservations_ok (ad_reservations demo_admission)"
    by (simp add: demo_admission_def reservations_new_ok registry_ok_def)
  from dispatch_loses_no_row [OF a(1) this] have "\<exists>rb ids. ad_readers a = ad_readers demo_admission @ rb
    \<and> concat rb = queued_as False demo_runs ids \<and> distinct (admitted_ids ids) \<and> list_all2 (row_outcome a) demo_runs ids"
    by simp blast
  then show ?thesis using a unfolding demo_admission_def by auto
qed

definition planned_writer :: "nat user_value boxed_system" where
  "planned_writer = writer_system\<lparr>bs_planned_mark := Some 0, bs_plan_epoch := 0, bs_forced_dirty := [3]\<rparr>"


end
