(* ===== verification/Delta.thy ===== *)
theory Delta
  imports Planner_Props
begin

text \<open>
  Planning from the write log.  Every change of a tracked row is in the log of its plan epoch,
  whatever operation made it (the second interpretation of the relations between worlds); so a
  system that plans only from the rows logged since its last plan misses nothing.
\<close>

section \<open>The log is complete\<close>

definition logged :: "'v component_trait \<Rightarrow> 'v world \<Rightarrow> 'v world \<Rightarrow> bool" where
  "logged ct W W' \<longleftrightarrow> unat (w_plan_epoch W) \<le> unat (w_plan_epoch W')
     \<and> (w_plan_epoch W' = w_plan_epoch W \<longrightarrow> (\<exists>new. w_log W' = w_log W @ new
        \<and> (\<forall>ty e. tracked ct ty \<longrightarrow> (ty, e) \<notin> set new \<longrightarrow> rel_option similar (entry_of W ty e) (entry_of W' ty e))))"

lemma loggedI:
  assumes "w_plan_epoch W' = w_plan_epoch W" and "w_log W' = w_log W @ new"
    and "\<And>ty e. tracked ct ty \<Longrightarrow> (ty, e) \<notin> set new \<Longrightarrow> rel_option similar (entry_of W ty e) (entry_of W' ty e)"
  shows "logged ct W W'"
  using assms unfolding logged_def by auto

lemma rel_option_similar_trans: "rel_option similar x y \<Longrightarrow> rel_option similar y z \<Longrightarrow> rel_option similar x z"
  by (cases x; cases y; cases z) (auto intro: similar_trans)

lemma logged_trans:
  assumes "logged ct W W1" and "logged ct W1 W2"
  shows "logged ct W W2"
  unfolding logged_def
proof (intro conjI impI)
  show "unat (w_plan_epoch W) \<le> unat (w_plan_epoch W2)" using assms by (auto simp: logged_def)
  assume eq: "w_plan_epoch W2 = w_plan_epoch W"
  then have "unat (w_plan_epoch W1) = unat (w_plan_epoch W)" using assms by (simp add: logged_def)
  then have 1: "w_plan_epoch W1 = w_plan_epoch W" by (simp add: word_unat_eq_iff)
  obtain new where n: "w_log W1 = w_log W @ new"
    "\<And>ty e. tracked ct ty \<Longrightarrow> (ty, e) \<notin> set new \<Longrightarrow> rel_option similar (entry_of W ty e) (entry_of W1 ty e)"
    using assms(1) 1 unfolding logged_def by blast
  obtain new' where n': "w_log W2 = w_log W1 @ new'"
    "\<And>ty e. tracked ct ty \<Longrightarrow> (ty, e) \<notin> set new' \<Longrightarrow> rel_option similar (entry_of W1 ty e) (entry_of W2 ty e)"
    using assms(2) 1 eq unfolding logged_def by auto
  show "\<exists>new. w_log W2 = w_log W @ new
      \<and> (\<forall>ty e. tracked ct ty \<longrightarrow> (ty, e) \<notin> set new \<longrightarrow> rel_option similar (entry_of W ty e) (entry_of W2 ty e))"
  proof (intro exI [of _ "new @ new'"] conjI allI impI)
    show "w_log W2 = w_log W @ new @ new'" using n(1) n'(1) by simp
    fix ty e assume "tracked ct ty" "(ty, e) \<notin> set (new @ new')"
    then show "rel_option similar (entry_of W ty e) (entry_of W2 ty e)"
      using n(2) [of ty e] n'(2) [of ty e] rel_option_similar_trans by (simp, blast)
  qed
qed

lemma remove_from_stores_epoch: "w_plan_epoch (snd (remove_from_stores e tys W)) = w_plan_epoch W"
proof (induction tys arbitrary: W)
  case (Cons ty tys)
  show ?case
    by (simp add: Cons.IH Let_def split: option.split prod.split) (use Cons.IH in \<open>auto simp: prod_eq_iff\<close>)
qed simp

lemma cleared_logged:
  assumes inv: "stores_inv W"
  shows "logged ct W (cleared_world e W)"
proof -
  have wf: "stores_wf (w_stores W)" using inv by (simp add: stores_inv_def)
  let ?tys = "map fst (stores_list (w_stores W))"
  obtain removed W1 where r: "remove_from_stores e ?tys W = (removed, W1)" by (rule prod.exhaust)
  note sp = remove_from_stores_spec [OF r inv table.listing_distinct [OF wf]]
  have ep: "w_plan_epoch W1 = w_plan_epoch W" using remove_from_stores_epoch [of e ?tys W] by (simp add: r)
  have lg: "w_log W1 = w_log W" using remove_from_stores_fields(5) [OF r] .
  have st: "entry_of (cleared_world e W) = entry_of W1"
    by (rule entry_of_stores) (simp add: cleared_world_def r Let_def w_presence_clear_def unindex_all_fields fold_log_fields)
  have uep: "w_plan_epoch (unindex_all e rs V) = w_plan_epoch V" for rs and V :: "'a world"
    by (induction rs arbitrary: V) (auto split: option.split)
  show ?thesis
  proof (rule loggedI)
    show "w_plan_epoch (cleared_world e W) = w_plan_epoch W"
      by (simp add: cleared_world_def r Let_def w_presence_clear_def uep fold_log_fields ep)
    show "w_log (cleared_world e W) = w_log W @ map (\<lambda>p. (fst p, e)) removed"
      by (simp add: cleared_world_def r Let_def w_presence_clear_def unindex_all_fields fold_log_fields lg)
    fix ty e' assume "(ty, e') \<notin> set (map (\<lambda>p. (fst p, e)) removed)"
    then have none: "entry_of W ty e = None" if "e' = e" "ty \<in> set ?tys"
    proof (cases "entry_of W ty e")
      case (Some en)
      then have "(ty, ce_owner en) \<in> set removed" using sp that(2) by blast
      then have "(ty, e) \<in> (\<lambda>p. (fst p, e)) ` set removed" by (rule rev_image_eqI) simp
      then show ?thesis using \<open>(ty, e') \<notin> _\<close> that(1) by simp
    qed
    then have "entry_of W1 ty e' = entry_of W ty e'" using sp by auto
    then show "rel_option similar (entry_of W ty e') (entry_of (cleared_world e W) ty e')" by (simp add: st)
  qed
qed

lemma put_entry_of:
  assumes "stores_wf (w_stores W)" and "w_stores W' = stores_put ty s (w_stores W)"
  shows "entry_of W' ty' e' = (if ty' = ty then map_of (entries s) e' else entry_of W ty' e')"
  using table.get_put [of "w_stores W" ty' ty s] assms by (simp add: entry_of_def)

lemma update_logged:
  assumes inv: "stores_inv W" and up: "try_update_component_live ct ty e held f W = Applied changed W'"
  shows "logged ct W W'"
proof -
  obtain s en where s: "stores_get ty (w_stores W) = Some s" "map_of (entries s) e = Some en"
    and ch: "changed = (tracked ct ty \<and> (ce_fingerprint en = None \<or> ce_fingerprint en \<noteq> fingerprint ct ty (f (ce_value en))))"
    and W': "W' = (let s1 = reindex e (ce_fingerprint en) (fingerprint ct ty (f (ce_value en)))
               (s\<lparr>entries := AList.update e (en\<lparr>ce_value := f (ce_value en),
                  ce_fingerprint := fingerprint ct ty (f (ce_value en)),
                  ce_revision := if changed then w_revision W + 1 else ce_revision en\<rparr>) (entries s)\<rparr>);
             W1 = put_store ty (if changed then bump_watermark (w_revision W + 1) s1 else s1) W
         in if changed then (log_write ty e W1)\<lparr>w_revision := w_revision W + 1\<rparr> else W1)"
    using up by (rule try_updateE)
  let ?en = "en\<lparr>ce_value := f (ce_value en), ce_fingerprint := fingerprint ct ty (f (ce_value en)),
      ce_revision := if changed then w_revision W + 1 else ce_revision en\<rparr>"
  let ?s1 = "reindex e (ce_fingerprint en) (fingerprint ct ty (f (ce_value en)))
      (s\<lparr>entries := AList.update e ?en (entries s)\<rparr>)"
  have wf: "stores_wf (w_stores W)" using inv by (simp add: stores_inv_def)
  have ent: "entry_of W' ty' e' = (if ty' = ty \<and> e' = e then Some ?en else entry_of W ty' e')" for ty' e'
    using put_entry_of [OF wf, of W' ty "if changed then bump_watermark (w_revision W + 1) ?s1 else ?s1" ty' e'] s(1)
    by (simp add: W' Let_def map_of_update entry_of_def)
  show ?thesis
  proof (rule loggedI)
    show "w_plan_epoch W' = w_plan_epoch W" by (simp add: W' Let_def)
    show "w_log W' = w_log W @ (if changed then [(ty, e)] else [])" by (simp add: W' Let_def)
    fix ty' e' assume t: "tracked ct ty'" "(ty', e') \<notin> set (if changed then [(ty, e)] else [])"
    show "rel_option similar (entry_of W ty' e') (entry_of W' ty' e')"
    proof (cases "ty' = ty \<and> e' = e")
      case True
      then have "\<not> changed" using t(2) by auto
      then have "similar en ?en" using ch t(1) True by (auto simp: similar_def)
      moreover have "entry_of W ty e = Some en" by (simp add: entry_of_def s)
      ultimately show ?thesis using True by (simp add: ent)
    qed (auto simp: ent)
  qed
qed

lemma reconcile_row_frame:
  assumes wf: "stores_wf (w_stores W)"
  shows "w_plan_epoch (reconcile_row ct (ty, e) W) = w_plan_epoch W"
    and "w_log (reconcile_row ct (ty, e) W) = w_log W @ (if stores_get ty (w_stores W) = None then [] else [(ty, e)])"
    and "(ty', e') \<noteq> (ty, e) \<Longrightarrow> entry_of (reconcile_row ct (ty, e) W) ty' e' = entry_of W ty' e'"
    and "stores_get ty (w_stores W) = None \<Longrightarrow> reconcile_row ct (ty, e) W = W"
proof -
  let ?W' = "reconcile_row ct (ty, e) W"
  have "w_plan_epoch ?W' = w_plan_epoch W
    \<and> w_log ?W' = w_log W @ (if stores_get ty (w_stores W) = None then [] else [(ty, e)])
    \<and> ((ty', e') \<noteq> (ty, e) \<longrightarrow> entry_of ?W' ty' e' = entry_of W ty' e')
    \<and> (stores_get ty (w_stores W) = None \<longrightarrow> ?W' = W)"
  proof (cases "stores_get ty (w_stores W)")
    case None
    then show ?thesis by (simp add: reconcile_row_def)
  next
    case (Some s)
    obtain s' r' where r: "reconcile_entry ct ty e (w_revision W) s = (s', r')" by (rule prod.exhaust)
    have W': "?W' = log_write ty e ((put_store ty s' W)\<lparr>w_revision := r'\<rparr>)"
      by (simp add: reconcile_row_def Some r)
    have e: "x \<noteq> e \<Longrightarrow> map_of (entries s') x = map_of (entries s) x" for x
    proof (cases "map_of (entries s) e")
      case None
      then show ?thesis using r by (simp add: reconcile_entry_def)
    next
      case en: (Some en)
      show "x \<noteq> e \<Longrightarrow> map_of (entries s') x = map_of (entries s) x"
        using reconcile_entryD(2) [OF en r refl] by simp
    qed
    have "entry_of ?W' ty' e' = (if ty' = ty then map_of (entries s') e' else entry_of W ty' e')"
      by (rule put_entry_of [OF wf]) (simp add: W')
    then show ?thesis using Some e by (auto simp: W' entry_of_def)
  qed
  then show "w_plan_epoch ?W' = w_plan_epoch W"
    and "w_log ?W' = w_log W @ (if stores_get ty (w_stores W) = None then [] else [(ty, e)])"
    and "(ty', e') \<noteq> (ty, e) \<Longrightarrow> entry_of ?W' ty' e' = entry_of W ty' e'"
    and "stores_get ty (w_stores W) = None \<Longrightarrow> ?W' = W" by blast+
qed

lemma reconcile_logged:
  assumes inv: "stores_inv W"
  shows "logged ct W (reconcile_row ct row W)"
proof -
  obtain ty e where row: "row = (ty, e)" by (cases row)
  have wf: "stores_wf (w_stores W)" using inv by (simp add: stores_inv_def)
  note f = reconcile_row_frame [OF wf, where ct = ct and ty = ty and e = e]
  show ?thesis
  proof (cases "stores_get ty (w_stores W)")
    case None
    then show ?thesis using f(4) by (intro loggedI [of _ _ "[]"]) (simp_all add: row)
  next
    case (Some s)
    then show ?thesis using f by (intro loggedI [of _ _ "[(ty, e)]"]) (simp_all add: row)
  qed
qed

lemma commit_write_logged:
  assumes inv: "stores_inv W"
  shows "logged ct W (commit_write ct ty e v W)"
proof -
  have c: "commit_write ct ty e v W = reconcile_row ct (ty, e) (write_cell ty e v W)"
    by (simp add: commit_write_def reconcile_written_def)
  show ?thesis
  proof (cases "\<exists>s en. stores_get ty (w_stores W) = Some s \<and> map_of (entries s) e = Some en")
    case True
    then obtain s en where s: "stores_get ty (w_stores W) = Some s" "map_of (entries s) e = Some en" by blast
    let ?s1 = "s\<lparr>entries := AList.update e (en\<lparr>ce_value := v\<rparr>) (entries s)\<rparr>"
    have wf: "stores_wf (w_stores W)" using inv by (simp add: stores_inv_def)
    have w: "write_cell ty e v W = put_store ty ?s1 W" by (simp add: write_cell_def s)
    then have wf1: "stores_wf (w_stores (write_cell ty e v W))" by (simp add: stores_put_wf wf)
    have ent: "(ty', e') \<noteq> (ty, e) \<Longrightarrow> entry_of (write_cell ty e v W) ty' e' = entry_of W ty' e'" for ty' e'
      using put_entry_of [OF wf, of "write_cell ty e v W" ty ?s1 ty' e'] s(1) by (auto simp: w map_of_update entry_of_def)
    have "stores_get ty (w_stores (write_cell ty e v W)) \<noteq> None" by (simp add: w table.get_put [OF wf])
    then show ?thesis using reconcile_row_frame [OF wf1, where ct = ct and ty = ty and e = e] ent
      by (intro loggedI [of _ _ "[(ty, e)]"]) (simp_all add: c w)
  next
    case False
    then have "write_cell ty e v W = W" by (auto simp: write_cell_def split: option.split)
    then show ?thesis using reconcile_logged [OF inv] by (simp add: c)
  qed
qed

lemma roll_logged:
  assumes "maybe_roll_plan_epoch W = Some (old, W')"
  shows "logged ct W W'"
proof (cases "length (w_log W) \<le> plan_log_budget")
  case True
  then show ?thesis using assms by (intro loggedI [of _ _ "[]"]) (auto simp: maybe_roll_plan_epoch_def)
next
  case False
  then have ne: "w_plan_epoch W \<noteq> - 1" and W': "w_plan_epoch W' = w_plan_epoch W + 1"
    using assms by (auto simp: maybe_roll_plan_epoch_def split: if_splits)
  have "w_plan_epoch W + 1 \<noteq> 0" using ne by (metis eq_neg_iff_add_eq_0)
  then have "unat (1 + w_plan_epoch W) = Suc (unat (w_plan_epoch W))" by (simp add: unatSuc add.commute)
  then have "unat (w_plan_epoch W') = Suc (unat (w_plan_epoch W))" by (simp add: W' add.commute)
  then show ?thesis unfolding logged_def by auto
qed

interpretation log_run: world_relation ct "logged ct" for ct
proof
  show "logged ct W W'" if "stores_inv W" "insert_entry ct ty e v owner W = (previous, W')" for W W' :: "'a world" and ty e v owner previous
    by (rule loggedI [of _ _ "[(ty, e)]"])
      (auto simp: insert_entry_fields(5,15) [OF that(2)] insert_entry_entry_of [OF that])
  show "logged ct W (drop_entry ty e s' W)" if "stores_inv W" "stores_get ty (w_stores W) = Some s" "store_remove e s = Some (en, s')"
    for W :: "'a world" and ty e s en s'
    by (rule loggedI [of _ _ "[(ty, e)]"]) (auto simp: drop_entry_spec(2) [OF that])
  show "logged ct W W'" if "w_stores W' = w_stores W" "w_log W' = w_log W" "w_plan_epoch W' = w_plan_epoch W" for W W' :: "'a world"
    by (rule loggedI [of _ _ "[]"]) (use that entry_of_stores [of W' W] in simp_all)
qed (auto intro: logged_trans cleared_logged update_logged reconcile_logged commit_write_logged roll_logged)

section \<open>Systems that plan from the log\<close>

text \<open>
  The parameters of a delta-eligible system: queries whose rows come from a store and that read no
  inverse, unbound or joined on one key whose filter translates a hinted member into its providers,
  beside views and commands.
\<close>

fun hints_members :: "query_filter \<Rightarrow> bool" where
  "hints_members (WhereAnd _ _) = False"
| "hints_members (AndF l r) = (hints_members l \<and> hints_members r)"
| "hints_members _ = True"

fun delta_param :: "'v component_trait \<Rightarrow> system_param \<Rightarrow> bool" where
  "delta_param ct (QueryP Q F) \<longleftrightarrow> anchored Q \<and> bounded ct Q \<and> (param_drives Q \<or> filter_drives F) \<and> param_inverses Q = []
     \<and> fm_in_key_types (filter_impl ct F :: 'v filter_methods) = []
     \<and> (fm_bound_key_types (filter_impl ct F :: 'v filter_methods) = []
        \<or> length (fm_bound_key_types (filter_impl ct F :: 'v filter_methods)) = 1 \<and> hints_members F)"
| "delta_param ct (ViewP Q F) \<longleftrightarrow> True"
| "delta_param ct (CommandsP declared) \<longleftrightarrow> True"
| "delta_param ct _ \<longleftrightarrow> False"

text \<open>Every joined key is read by exactly one other parameter, which precedes it and is not joined itself.\<close>

definition driven_at :: "'v param_methods list \<Rightarrow> nat \<Rightarrow> type_id \<Rightarrow> bool" where
  "driven_at ps i key \<longleftrightarrow> list_ex (\<lambda>j. sp_delta_shape (ps ! j) = Driver
     \<and> list_all (\<lambda>k. k = i \<or> (sp_provides_key (ps ! k) key \<longleftrightarrow> k = j)) [0..<length ps]) [0..<i]"

definition driven_joins :: "'v param_methods list \<Rightarrow> bool" where
  "driven_joins ps \<longleftrightarrow> list_all (\<lambda>i. list_all (driven_at ps i) (sp_bound_key_types (ps ! i))) [0..<length ps]"

lemma delta_param_cases [case_names Query View Commands]:
  assumes "delta_param ct q"
  obtains Q F where "q = QueryP Q F" | Q F where "q = ViewP Q F" | declared where "q = CommandsP declared"
  using assms by (cases "(ct, q)" rule: delta_param.cases) auto

lemma delta_param_fields:
  assumes "delta_param ct q"
  shows "sp_pair_expandable (sp_impl ct q) \<longleftrightarrow> sp_bound_key_types (sp_impl ct q) \<noteq> []"
    and "sp_in_key_types (sp_impl ct q) = []"
    and "sp_delta_shape (sp_impl ct q) = PairBound \<longleftrightarrow> sp_pair_expandable (sp_impl ct q)"
    and "sp_delta_shape (sp_impl ct q) \<noteq> OpaqueShape" and "sp_always_run (sp_impl ct q) = False"
  using assms by (cases rule: delta_param_cases; auto simp: sp_impl_defs Let_def)+

lemma concat_opt_all: "(\<And>x. x \<in> set xs \<Longrightarrow> x \<noteq> None) \<Longrightarrow> concat_opt xs \<noteq> None"
proof (induction xs)
  case (Cons x xs)
  then show ?case by (cases x) auto
qed simp

text \<open>Fewer own rows make fewer states, and no panic that was not there.\<close>

lemma product_mono:
  assumes "for_each_state W picked (map (\<lambda>p. (p, own p)) ps) = Some out"
    and "\<And>p. p \<in> set ps \<Longrightarrow> \<not> sp_pair_expandable p \<Longrightarrow> set (own' p) \<subseteq> set (own p)"
  shows "\<exists>out'. for_each_state W picked (map (\<lambda>p. (p, own' p)) ps) = Some out'"
  using assms
proof (induction ps arbitrary: picked out)
  case (Cons p ps)
  obtain rs where rs: "bound_rows W picked p (own p) = Some rs"
    and out: "concat_opt (map (\<lambda>s. for_each_state W (picked @ [(p, s)]) (map (\<lambda>p. (p, own p)) ps)) rs) = Some out"
    using Cons.prems(1) by (auto split: Option.bind_splits)
  obtain rs' where rs': "bound_rows W picked p (own' p) = Some rs'" "set rs' \<subseteq> set rs"
    using rs Cons.prems(2) [of p] by (cases "sp_pair_expandable p") (auto simp: bound_rows_def binding_of_def split: list.splits)
  have "for_each_state W (picked @ [(p, s)]) (map (\<lambda>p. (p, own' p)) ps) \<noteq> None" if "s \<in> set rs'" for s
  proof -
    have "s \<in> set rs" using that rs'(2) by blast
    then obtain zs where "for_each_state W (picked @ [(p, s)]) (map (\<lambda>p. (p, own p)) ps) = Some zs"
      using concat_opt_defined [OF out] by fastforce
    then show ?thesis using Cons.IH Cons.prems(2) by fastforce
  qed
  then have "concat_opt (map (\<lambda>s. for_each_state W (picked @ [(p, s)]) (map (\<lambda>p. (p, own' p)) ps)) rs') \<noteq> None"
    by (intro concat_opt_all) auto
  then show ?case using rs'(1) by simp
qed simp

lemma product_defined:
  assumes "list_all (\<lambda>p. \<not> sp_pair_expandable p) ps"
  shows "\<exists>out. for_each_state W picked (map (\<lambda>p. (p, own p)) ps) = Some out"
  using assms
proof (induction ps arbitrary: picked)
  case (Cons p ps)
  have "concat_opt (map (\<lambda>s. for_each_state W (picked @ [(p, s)]) (map (\<lambda>p. (p, own p)) ps)) (own p)) \<noteq> None"
    using Cons.IH Cons.prems by (intro concat_opt_all) fastforce
  then show ?case using Cons.prems by (simp add: bound_rows_def binding_of_def)
qed simp

lemma delta_rows:
  assumes inv: "stores_inv W" "presence_inv W" and al: "allocated W" and q: "delta_param ct (QueryP Q F)"
  shows "set (filtered_rows (param_impl ct Q) (filter_impl ct F) W) = {e. row_of ct W Q F e}"
    and "set (filtered_rows_from_candidates (param_impl ct Q) (filter_impl ct F) W hint) = {e. row_of ct W Q F e \<and> e \<in> set hint}"
proof -
  have Q: "anchored Q" and d: "param_drives Q \<or> filter_drives F" using q by simp_all
  have "e < w_next_entity W" if "row_of ct W Q F e" for e
    using that d al param_drives_component [of Q ct W e] filter_drives_component [of F ct W e]
    by (auto simp: row_of_def dest: allocatedD)
  then show "set (filtered_rows (param_impl ct Q) (filter_impl ct F) W) = {e. row_of ct W Q F e}"
    unfolding filtered_rows_eq [OF inv al Q] by auto
  show "set (filtered_rows_from_candidates (param_impl ct Q) (filter_impl ct F) W hint) = {e. row_of ct W Q F e \<and> e \<in> set hint}"
    by (auto simp: filtered_rows_from_candidates_def param_rows_from_eq [OF inv(2) Q] row_of_def)
qed

lemma query_keys_self [simp]: "qm_keys (param_impl ct Q) e = [e]"
  by (cases Q) (simp_all add: param_impl_defs)

lemma delta_states:
  assumes inv: "stores_inv W" "presence_inv W" "allocated W" and q: "delta_param ct q"
  shows "sp_delta_shape (sp_impl ct q) = Driver \<Longrightarrow> t \<in> set (sp_states_hinted (sp_impl ct q) W hint) \<longleftrightarrow>
      t \<in> set (sp_states (sp_impl ct q) W) \<and> set (sp_keys (sp_impl ct q) t) \<inter> set hint \<noteq> {}"
    and "t \<in> set (sp_states (sp_impl ct q) W) \<Longrightarrow> sp_deps (sp_impl ct q) W t \<noteq> None"
    and "sp_delta_shape (sp_impl ct q) = Inert \<Longrightarrow> sp_keys (sp_impl ct q) t = []"
proof -
  have "(sp_delta_shape (sp_impl ct q) = Driver \<longrightarrow> t \<in> set (sp_states_hinted (sp_impl ct q) W hint) \<longleftrightarrow>
      t \<in> set (sp_states (sp_impl ct q) W) \<and> set (sp_keys (sp_impl ct q) t) \<inter> set hint \<noteq> {})
    \<and> (t \<in> set (sp_states (sp_impl ct q) W) \<longrightarrow> sp_deps (sp_impl ct q) W t \<noteq> None)
    \<and> (sp_delta_shape (sp_impl ct q) = Inert \<longrightarrow> sp_keys (sp_impl ct q) t = [])"
    using q
  proof (cases rule: delta_param_cases)
    case (Query Q F)
    then have dq: "delta_param ct (QueryP Q F)" using q by simp
    have shape: "sp_delta_shape (sp_impl ct q) \<noteq> Inert" by (simp add: Query sp_impl_defs Let_def)
    have "filtered_deps (param_impl ct Q) (filter_impl ct F) W e \<noteq> None" if "row_of ct W Q F e" for e
    proof -
      have "covered (filtered_deps (param_impl ct Q) (filter_impl ct F) W e) (filtered_access (param_impl ct Q) (filter_impl ct F) W e)"
        using that unfolding filtered_deps_def filtered_access_def row_of_def
        by (blast intro: covered_append param_runs(1) filter_runs)
      then show ?thesis by (auto simp: covered_def)
    qed
    then show ?thesis using delta_rows(1) [OF inv dq] delta_rows(2) [OF inv dq, of hint] shape
      by (cases t) (auto simp: Query sp_impl_defs Let_def)
  qed (auto simp: sp_impl_defs)
  then show "sp_delta_shape (sp_impl ct q) = Driver \<Longrightarrow> t \<in> set (sp_states_hinted (sp_impl ct q) W hint) \<longleftrightarrow>
      t \<in> set (sp_states (sp_impl ct q) W) \<and> set (sp_keys (sp_impl ct q) t) \<inter> set hint \<noteq> {}"
    and "t \<in> set (sp_states (sp_impl ct q) W) \<Longrightarrow> sp_deps (sp_impl ct q) W t \<noteq> None"
    and "sp_delta_shape (sp_impl ct q) = Inert \<Longrightarrow> sp_keys (sp_impl ct q) t = []" by blast+
qed

lemma delta_unmoved:
  assumes inv: "stores_inv W" "presence_inv W" "allocated W" and inv': "stores_inv W'" "presence_inv W'" "allocated W'"
    and q: "delta_param ct q" and tys: "sp_interest (sp_impl ct q) = Some tys"
    and same: "\<And>e. e \<in> set (sp_keys (sp_impl ct q) t) \<Longrightarrow> same_rows {e} W W' tys"
    and t: "t \<in> set (sp_states (sp_impl ct q) W')"
  shows "t \<in> set (sp_states (sp_impl ct q) W) \<and> sp_deps (sp_impl ct q) W' t = sp_deps (sp_impl ct q) W t"
  using q
proof (cases rule: delta_param_cases)
  case (Query Q F)
  then have dq: "delta_param ct (QueryP Q F)" using q by simp
  obtain e where e: "t = RowS e" "row_of ct W' Q F e"
    using t delta_rows(1) [OF inv' dq] by (auto simp: Query sp_impl_defs Let_def)
  have "same_rows {e} W W' tys" using same [of e] by (simp add: Query sp_impl_defs Let_def e(1))
  then have "row_of ct W' Q F e = row_of ct W Q F e
    \<and> filtered_deps (param_impl ct Q) (filter_impl ct F) W' e = filtered_deps (param_impl ct Q) (filter_impl ct F) W e"
    using query_same [of ct Q F tys "{e}" W W' e] dq tys by (simp add: Query sp_impl_defs Let_def)
  then show ?thesis using e delta_rows(1) [OF inv dq] by (simp add: Query sp_impl_defs Let_def image_def)
qed (use t in \<open>auto simp: sp_impl_defs\<close>)

definition planned :: "'v param_methods list \<Rightarrow> nat \<Rightarrow> 'v world \<Rightarrow> pstate list \<Rightarrow> planned_invocation" where
  "planned ps system W ss = \<lparr>pi_state = ss, pi_owner = \<lparr>inv_system = system, inv_keys = tuple_keys ps ss\<rparr>,
     pi_deps = the (tuple_deps ps W ss), pi_access = tuple_access ps W ss\<rparr>"

definition memoized :: "'v param_methods list \<Rightarrow> nat \<Rightarrow> 'v world \<Rightarrow> memo_table \<Rightarrow> pstate list \<Rightarrow> bool" where
  "memoized ps system W memo ss = memo_hit memo (tuple_always_run ps)
     \<lparr>inv_system = system, inv_keys = tuple_keys ps ss\<rparr> (the (tuple_deps ps W ss))"

lemma plan_loop_eq:
  "plan_loop ps system W memo sts = Some invs \<Longrightarrow>
     invs = map (planned ps system W) (filter (\<lambda>ss. \<not> memoized ps system W memo ss) sts)"
proof (induction sts arbitrary: invs)
  case (Cons ss rest)
  show ?case using Cons.prems Cons.IH
    by (auto simp: Let_def planned_def memoized_def split: option.splits if_splits)
qed simp

lemma plan_loop_defined: "(\<And>ss. ss \<in> set sts \<Longrightarrow> tuple_deps ps W ss \<noteq> None) \<Longrightarrow> plan_loop ps system W memo sts \<noteq> None"
  by (induction sts) (auto simp: Let_def split: option.splits)

lemma tuple_keys_set:
  "length ss = length ps \<Longrightarrow> set (tuple_keys ps ss) = {x. \<exists>k<length ps. x \<in> set (sp_keys (ps ! k) (ss ! k))}"
  by (auto simp: tuple_keys_def set_zip)

text \<open>
  The pair condition of a joined parameter: its row and the row of the driver that provides the
  key agree on the fingerprint; and a hinted member is translated into every such provider.
\<close>

lemma param_provided:
  "qm_provided_key (param_impl ct Q) W e key
     = (if qm_provides_key (param_impl ct Q) key then Some (fingerprint_of W key e) else None)"
proof -
  have part: "pm_provided_key (part_impl ct p) W e key
      = (if pm_provides_key (part_impl ct p) key then Some (fingerprint_of W key e) else None)" for p
    by (cases p rule: query_part_cases) simp_all
  have "first_some (\<lambda>p. pm_provided_key p W e key) (map (part_impl ct) ps)
      = (if list_ex (\<lambda>p. pm_provides_key p key) (map (part_impl ct) ps) then Some (fingerprint_of W key e) else None)" for ps
    by (induction ps) (simp_all add: part)
  then show ?thesis by (cases Q) simp_all
qed

lemma sp_provided:
  "sp_provided_key (sp_impl ct q) W s key
     = (if sp_provides_key (sp_impl ct q) key \<and> s \<in> range RowS then Some (fingerprint_of W key (hd (row_keys s))) else None)"
  by (cases q; cases s) (auto simp: sp_impl_defs Let_def param_provided)

lemma hints_providers:
  assumes "hints_members F" and "key \<in> set (fm_bound_key_types (filter_impl ct F))"
    and "e \<in> set hint" and "fingerprint_of W key e = Some f"
  shows "set (entities_with_fingerprint W key f) \<subseteq> set (fm_hint_providers (filter_impl ct F) W hint)"
  using assms by (induction F) force+

lemma bound_interest:
  "fm_interest (filter_impl ct F) = Some tf \<Longrightarrow> set (fm_bound_key_types (filter_impl ct F)) \<subseteq> set tf"
  by (induction F arbitrary: tf) (auto simp: both_interests_def split: option.splits)

lemma driven_pair:
  assumes qs: "list_all (delta_param ct) qs" "ps = map (sp_impl ct) qs" "driven_joins ps"
    and k: "k < length ps" "sp_pair_expandable (ps ! k)" and len: "length ts = length ps"
  obtains key j where "j < k" "sp_delta_shape (ps ! j) = Driver"
    and "\<And>W. pair_ok W ps ts k \<longleftrightarrow> (\<exists>e e' f. ts ! k = RowS e \<and> ts ! j = RowS e'
      \<and> fingerprint_of W key e = Some f \<and> fingerprint_of W key e' = Some f)"
    and "\<And>W hint e f. e \<in> set hint \<Longrightarrow> fingerprint_of W key e = Some f \<Longrightarrow>
      set (entities_with_fingerprint W key f) \<subseteq> set (sp_hint_providers (ps ! k) W hint)"
    and "\<And>tys. sp_interest (ps ! k) = Some tys \<Longrightarrow> key \<in> set tys"
proof -
  obtain Q F where QF: "qs ! k = QueryP Q F" using expandable_query k qs(2) by (metis length_map nth_map)
  have pk: "ps ! k = sp_impl ct (QueryP Q F)" using k(1) qs(2) by (simp add: QF)
  have "delta_param ct (QueryP Q F)" using qs(1,2) k(1) QF by (metis length_map list_all_length)
  then obtain key where key: "fm_bound_key_types (filter_impl ct F) = [key]" "fm_in_key_types (filter_impl ct F) = []" "hints_members F"
    using k(2) by (auto simp: pk sp_impl_defs Let_def length_Suc_conv)
  have "driven_at ps k key" using qs(3) k(1) key(1) by (auto simp: driven_joins_def list_all_length pk sp_impl_defs Let_def)
  then obtain j where j: "j < k" "sp_delta_shape (ps ! j) = Driver"
    "\<And>i. i < length ps \<Longrightarrow> i \<noteq> k \<Longrightarrow> sp_provides_key (ps ! i) key \<longleftrightarrow> i = j"
    unfolding driven_at_def list_ex_iff list_all_length by fastforce
  have prov: "sp_provided_key (ps ! i) W s key = (if i = j \<and> s \<in> range RowS then Some (fingerprint_of W key (hd (row_keys s))) else None)"
    if "i < length ps" "i \<noteq> k" for i W s
    using that j(3) [OF that] sp_provided [of ct "qs ! i" W s key] qs(2) by simp
  have "sibling (\<lambda>q s. sp_provided_key q W s key) ps ts k = sp_provided_key (ps ! j) W (ts ! j) key" for W
    unfolding sibling_def
    using first_some_unique [of j "[0..<length ps]" "\<lambda>i. if i \<noteq> k then sp_provided_key (ps ! i) W (ts ! i) key else None"]
      prov j(1) k(1) by auto
  moreover have "binding_of (ps ! k) = Equality key" using key k(2) by (simp add: binding_of_def pk sp_impl_defs Let_def)
  ultimately have a: "pair_ok W ps ts k \<longleftrightarrow> (\<exists>e e' f. ts ! k = RowS e \<and> ts ! j = RowS e'
      \<and> fingerprint_of W key e = Some f \<and> fingerprint_of W key e' = Some f)" for W
    using prov [of j W "ts ! j"] j(1) k(1) by (auto simp: pair_ok_def)
  have b: "set (entities_with_fingerprint W key f) \<subseteq> set (sp_hint_providers (ps ! k) W hint)"
    if "e \<in> set hint" "fingerprint_of W key e = Some f" for W hint e f
    using hints_providers [OF key(3) _ that, of ct] key(1) by (auto simp: pk sp_impl_defs Let_def)
  have c: "key \<in> set tys" if "sp_interest (ps ! k) = Some tys" for tys
    using that bound_interest [of ct F] key(1)
    by (auto simp: pk sp_impl_defs Let_def query_interest_def split: option.splits if_splits)
  show ?thesis by (rule that [OF j(1,2) a b c])
qed

lemma delta_joinable:
  assumes "list_all (delta_param ct) qs" and "driven_joins (map (sp_impl ct) qs)"
  shows "joinable ct qs"
  unfolding joinable_def list_all_iff
proof
  fix i assume i: "i \<in> set [0..<length qs]"
  then have q: "delta_param ct (qs ! i)" using assms(1) by (simp add: list_all_length)
  let ?ps = "map (sp_impl ct) qs"
  have "list_all (sole_provider ?ps i) (sp_bound_key_types (?ps ! i))"
    unfolding list_all_iff
  proof
    fix key assume "key \<in> set (sp_bound_key_types (?ps ! i))"
    then have "driven_at ?ps i key" using assms(2) i by (auto simp: driven_joins_def list_all_iff)
    then show "sole_provider ?ps i key" unfolding driven_at_def sole_provider_def list_ex_iff list_all_length by fastforce
  qed
  moreover have "sp_in_key_types (?ps ! i) = []" using delta_param_fields(2) [OF q] i by simp
  ultimately show "joinable_at ct ?ps i (qs ! i)" using q by (cases "qs ! i") auto
qed

section \<open>The states of a delta system\<close>

text \<open>States drawn from any own rows: the product of the rows with the pair conditions.\<close>

definition paired :: "'v world \<Rightarrow> 'v param_methods list \<Rightarrow> pstate list \<Rightarrow> bool" where
  "paired W ps ts \<longleftrightarrow> length ts = length ps
     \<and> (\<forall>k<length ps. ts ! k \<in> set (sp_states (ps ! k) W) \<and> pair_ok W ps ts k)"

lemma product_paired:
  assumes inv: "stores_inv W" "presence_inv W" "allocated W" and J: "joinable ct qs" and ps: "ps = map (sp_impl ct) qs"
    and out: "for_each_state W [] (map (\<lambda>p. (p, own p)) ps) = Some out"
    and own: "\<And>p. p \<in> set ps \<Longrightarrow> \<not> sp_pair_expandable p \<Longrightarrow> set (own p) \<subseteq> set (sp_states p W)"
  shows "set out = {ts. paired W ps ts \<and> (\<forall>k<length ps. \<not> sp_pair_expandable (ps ! k) \<longrightarrow> ts ! k \<in> set (own (ps ! k)))}"
proof -
  have at: "(\<exists>rs. bound_rows W (zip (take k ps) (take k ts)) (ps ! k) (own (ps ! k)) = Some rs \<and> ts ! k \<in> set rs)
      \<longleftrightarrow> (ts ! k \<in> set (sp_states (ps ! k) W) \<and> pair_ok W ps ts k) \<and> (\<not> sp_pair_expandable (ps ! k) \<longrightarrow> ts ! k \<in> set (own (ps ! k)))"
    if "length ts = length ps" "k < length ps" for ts k
  proof (cases "sp_pair_expandable (ps ! k)")
    case True
    then have "bound_rows W picked (ps ! k) (own (ps ! k)) = bound_rows W picked (ps ! k) (own_states W (ps ! k))" for picked
      by (simp add: bound_rows_def binding_of_def split: list.splits)
    then show ?thesis using bound_rows_iff [OF inv J, of ts k] that True by (simp add: ps)
  next
    case False
    then show ?thesis using own [of "ps ! k"] that by (auto simp: bound_rows_def binding_of_def pair_ok_def)
  qed
  have fst_own: "map fst (take k (map (\<lambda>p. (p, own p)) ps)) = take k ps" for k by (simp add: take_map o_def)
  have "picks W [] (map (\<lambda>p. (p, own p)) ps) ts
      \<longleftrightarrow> paired W ps ts \<and> (\<forall>k<length ps. \<not> sp_pair_expandable (ps ! k) \<longrightarrow> ts ! k \<in> set (own (ps ! k)))" for ts
    unfolding picks_def fst_own paired_def by (auto simp del: take_map simp: at cong: conj_cong)
  then show ?thesis by (simp add: for_each_state_set [OF out])
qed

lemma delta_tuple:
  assumes "list_all (delta_param ct) qs" and "ps = map (sp_impl ct) qs"
  shows "\<not> needs_prune ps" and "tuple_always_run ps = False"
    and "k < length ps \<Longrightarrow> sp_delta_shape (ps ! k) = PairBound \<longleftrightarrow> sp_pair_expandable (ps ! k)"
proof -
  have q: "delta_param ct (qs ! k)" if "k < length qs" for k using assms(1) that by (simp add: list_all_length)
  show "\<not> needs_prune ps" "tuple_always_run ps = False"
    using delta_param_fields(1,2,5) [OF q]
    by (auto simp: assms(2) needs_prune_def tuple_always_run_def list_ex_length)
  show "k < length ps \<Longrightarrow> sp_delta_shape (ps ! k) = PairBound \<longleftrightarrow> sp_pair_expandable (ps ! k)"
    using delta_param_fields(3) [OF q] by (simp add: assms(2))
qed

lemma full_states:
  assumes inv: "stores_inv W" "presence_inv W" "allocated W"
    and qs: "list_all (delta_param ct) qs" "ps = map (sp_impl ct) qs" "driven_joins ps" and sts: "tuple_states ps W = Some sts"
  shows "for_each_state W [] (map (\<lambda>p. (p, own_states W p)) ps) = Some sts" and "set sts = {ts. paired W ps ts}"
proof -
  show prod: "for_each_state W [] (map (\<lambda>p. (p, own_states W p)) ps) = Some sts"
    using sts delta_tuple(1) [OF qs(1,2)] by (auto simp: tuple_states_def split: Option.bind_splits)
  have "paired W ps ts \<Longrightarrow> \<forall>k<length ps. \<not> sp_pair_expandable (ps ! k) \<longrightarrow> ts ! k \<in> set (own_states W (ps ! k))" for ts
    by (simp add: paired_def own_states_def)
  then show "set sts = {ts. paired W ps ts}"
    unfolding product_paired [OF inv delta_joinable [OF qs(1), folded qs(2), OF qs(3)] qs(2) prod, unfolded own_states_def, simplified]
    by (auto simp: own_states_def)
qed

text \<open>From a hint: states of the full product, and every one of them with a dirty row.\<close>

lemma dirty_driver:
  assumes inv: "stores_inv W" "presence_inv W" "allocated W"
    and qs: "list_all (delta_param ct) qs" "ps = map (sp_impl ct) qs" "driven_joins ps"
    and ts: "paired W ps ts" and dirty: "set (tuple_keys ps ts) \<inter> set hint \<noteq> {}"
  shows "\<exists>j<length ps. sp_delta_shape (ps ! j) = Driver \<and> set (sp_keys (ps ! j) (ts ! j)) \<inter> set (expand_hint ps W hint) \<noteq> {}"
proof -
  have len: "length ts = length ps" using ts by (simp add: paired_def)
  obtain k x where k: "k < length ps" "x \<in> set (sp_keys (ps ! k) (ts ! k))" "x \<in> set hint"
    using dirty by (auto simp: tuple_keys_set [OF len])
  have q: "delta_param ct (qs ! i)" if "i < length ps" for i using qs that by (simp add: list_all_length)
  have query: "\<exists>Q F. ps ! i = sp_impl ct (QueryP Q F)" if "i < length ps" "sp_delta_shape (ps ! i) \<noteq> Inert" for i
    using q [OF that(1)] that qs(2) by (cases rule: delta_param_cases) (auto simp: sp_impl_defs)
  show ?thesis
  proof (cases "sp_pair_expandable (ps ! k)")
    case True
    obtain key j where j: "j < k" "sp_delta_shape (ps ! j) = Driver"
      and pair: "\<And>W. pair_ok W ps ts k \<longleftrightarrow> (\<exists>e e' f. ts ! k = RowS e \<and> ts ! j = RowS e'
        \<and> fingerprint_of W key e = Some f \<and> fingerprint_of W key e' = Some f)"
      and hp: "\<And>W hint e f. e \<in> set hint \<Longrightarrow> fingerprint_of W key e = Some f \<Longrightarrow>
        set (entities_with_fingerprint W key f) \<subseteq> set (sp_hint_providers (ps ! k) W hint)"
      by (rule driven_pair [OF qs k(1) True len]) blast
    obtain e e' f where e: "ts ! k = RowS e" "ts ! j = RowS e'" "fingerprint_of W key e = Some f" "fingerprint_of W key e' = Some f"
      using ts k(1) pair unfolding paired_def by blast
    have "sp_delta_shape (ps ! k) \<noteq> Inert" using delta_tuple(3) [OF qs(1,2) k(1)] True by simp
    then have "x = e" using query [OF k(1)] k(2) e(1) by (auto simp: sp_impl_defs Let_def)
    then have "e' \<in> set (sp_hint_providers (ps ! k) W hint)"
      using hp [OF k(3)] e(3,4) fingerprint_bucket_spec(1) [OF inv(1), of key f] by blast
    then have "e' \<in> set (expand_hint ps W hint)" using k(1) by (auto simp: expand_hint_def)
    moreover have "e' \<in> set (sp_keys (ps ! j) (ts ! j))"
      using query [of j] j k(1) e(2) by (auto simp: sp_impl_defs Let_def)
    ultimately show ?thesis using j k(1) by (intro exI [of _ j]) auto
  next
    case False
    then have "sp_delta_shape (ps ! k) = Driver"
      using delta_states(3) [OF inv q [OF k(1)], of "ts ! k"] delta_param_fields(3,4) [OF q [OF k(1)]] k(1,2) qs(2)
      by (cases "sp_delta_shape (ps ! k)") fastforce+
    then show ?thesis using k by (auto simp: expand_hint_def)
  qed
qed

lemma hinted_states:
  assumes inv: "stores_inv W" "presence_inv W" "allocated W"
    and qs: "list_all (delta_param ct) qs" "ps = map (sp_impl ct) qs" "driven_joins ps" and full: "tuple_states ps W = Some sts"
  shows "\<exists>sts'. tuple_states_hinted ps W hint = Some sts' \<and> set sts' \<subseteq> set sts
    \<and> (\<forall>ts\<in>set sts. set (tuple_keys ps ts) \<inter> set hint \<noteq> {} \<longrightarrow> ts \<in> set sts')"
proof (cases "length (filter (large_driver W) ps) > 1 \<or> list_ex (tiny_dirty W (expand_hint ps W hint)) ps")
  case True
  then have "tuple_states_hinted ps W hint = Some sts" by (auto simp: tuple_states_hinted_def Let_def full)
  then show ?thesis by blast
next
  case False
  let ?hint = "expand_hint ps W hint"
  note sts = full_states [OF inv qs full]
  note J = delta_joinable [OF qs(1), folded qs(2), OF qs(3)]
  have own: "t \<in> set (hinted_own W ?hint (ps ! k)) \<longleftrightarrow> t \<in> set (sp_states (ps ! k) W)
      \<and> (large_driver W (ps ! k) \<longrightarrow> set (sp_keys (ps ! k) t) \<inter> set ?hint \<noteq> {})"
    if "k < length ps" "\<not> sp_pair_expandable (ps ! k)" for k t
  proof -
    have q: "delta_param ct (qs ! k)" using qs that(1) by (simp add: list_all_length)
    show ?thesis using delta_states(1) [OF inv q, of t ?hint] delta_tuple(3) [OF qs(1,2) that(1)] that
      by (auto simp: hinted_own_def qs(2) large_driver_def)
  qed
  then have sub: "set (hinted_own W ?hint p) \<subseteq> set (sp_states p W)" if "p \<in> set ps" "\<not> sp_pair_expandable p" for p
    using that by (auto simp: in_set_conv_nth)
  obtain sts' where sts': "for_each_state W [] (map (\<lambda>p. (p, hinted_own W ?hint p)) ps) = Some sts'"
    using product_mono [OF sts(1), of "hinted_own W ?hint"] sub by (auto simp: own_states_def)
  have set': "set sts' = {ts. paired W ps ts \<and> (\<forall>k<length ps. \<not> sp_pair_expandable (ps ! k) \<longrightarrow> ts ! k \<in> set (hinted_own W ?hint (ps ! k)))}"
    by (rule product_paired [OF inv J qs(2) sts' sub])
  have "ts \<in> set sts'" if ts: "paired W ps ts" and dirty: "set (tuple_keys ps ts) \<inter> set hint \<noteq> {}" for ts
  proof -
    have st: "length ts = length ps" "\<And>k. k < length ps \<Longrightarrow> ts ! k \<in> set (sp_states (ps ! k) W)" using ts by (simp_all add: paired_def)
    obtain j where j: "j < length ps" "sp_delta_shape (ps ! j) = Driver" "set (sp_keys (ps ! j) (ts ! j)) \<inter> set ?hint \<noteq> {}"
      using dirty_driver [OF inv qs ts dirty] by blast
    have big: "large_driver W (ps ! j)"
    proof (rule ccontr)
      assume "\<not> large_driver W (ps ! j)"
      then have "tiny_dirty W ?hint (ps ! j)"
        using st(2) [OF j(1)] j(2,3) by (auto simp: tiny_dirty_def list_ex_iff)
      then show False using False j(1) by (auto simp: list_ex_length)
    qed
    have "k = j" if "k < length ps" "large_driver W (ps ! k)" for k
    proof (rule ccontr)
      assume "k \<noteq> j"
      then have "card {k, j} = 2" "{k, j} \<subseteq> {i. i < length ps \<and> large_driver W (ps ! i)}" using that j(1) big by auto
      then have "2 \<le> card {i. i < length ps \<and> large_driver W (ps ! i)}" by (metis card_mono finite_Collect_conjI finite_Collect_less_nat)
      then show False using False by (simp add: length_filter_conv_card)
    qed
    then show ?thesis unfolding set' using own st(2) j(3) ts by blast
  qed
  then show ?thesis using False sts' set' sts(2) by (auto simp: tuple_states_hinted_def Let_def)
qed

lemma tuple_deps_defined:
  assumes "stores_inv W" "presence_inv W" "allocated W" and qs: "list_all (delta_param ct) qs" "ps = map (sp_impl ct) qs"
    and ts: "length ts = length ps" "\<And>k. k < length ps \<Longrightarrow> ts ! k \<in> set (sp_states (ps ! k) W)"
  shows "tuple_deps ps W ts \<noteq> None"
  unfolding tuple_deps_def
proof (rule concat_opt_all)
  fix x assume "x \<in> set (map2 (\<lambda>p s. sp_deps p W s) ps ts)"
  then obtain k where k: "k < length ps" "x = sp_deps (ps ! k) W (ts ! k)" using ts(1) by (auto simp: set_zip)
  have "delta_param ct (qs ! k)" using qs k(1) by (simp add: list_all_length)
  then show "x \<noteq> None" using delta_states(2) [OF assms(1-3), of ct "qs ! k" "ts ! k"] ts(2) k qs(2) by simp
qed

lemma state_unmoved:
  assumes inv: "stores_inv W" "presence_inv W" "allocated W" and inv': "stores_inv W'" "presence_inv W'" "allocated W'"
    and qs: "list_all (delta_param ct) qs" "ps = map (sp_impl ct) qs" "driven_joins ps" and tys: "tuple_interest ps = Some tys"
    and sim: "\<And>e ty. e \<in> set (tuple_keys ps ts) \<Longrightarrow> ty \<in> set tys \<Longrightarrow> rel_option similar (entry_of W ty e) (entry_of W' ty e)"
    and ts: "paired W' ps ts"
  shows "paired W ps ts \<and> tuple_deps ps W' ts = tuple_deps ps W ts"
proof -
  have len: "length ts = length ps" using ts by (simp add: paired_def)
  have interest: "\<exists>zs. sp_interest (ps ! k) = Some zs \<and> set zs \<subseteq> set tys" if "k < length ps" for k
  proof -
    have "sp_interest (ps ! k) \<in> set (map sp_interest ps)" using that by simp
    then show ?thesis using concat_opt_Some tys unfolding tuple_interest_def by blast
  qed
  have same: "same_rows {e} W W' tys" and fp: "ty \<in> set tys \<Longrightarrow> fingerprint_of W' ty e = fingerprint_of W ty e"
    if "e \<in> set (tuple_keys ps ts)" for e ty
  proof -
    note r = sim [OF that]
    show "same_rows {e} W W' tys"
      unfolding same_rows_def has_component_def revision_by_type_entry using r by (blast dest: similar_rows)
    show "ty \<in> set tys \<Longrightarrow> fingerprint_of W' ty e = fingerprint_of W ty e"
      using r [of ty] by (cases "entry_of W ty e"; cases "entry_of W' ty e") (auto simp: fingerprint_of_def similar_def)
  qed
  have keys: "e \<in> set (tuple_keys ps ts)" if "k < length ps" "e \<in> set (sp_keys (ps ! k) (ts ! k))" for k e
    using that by (auto simp: tuple_keys_set [OF len])
  have q: "delta_param ct (qs ! k)" "sp_impl ct (qs ! k) = ps ! k" if "k < length ps" for k
    using qs that by (simp_all add: list_all_length)
  have row: "ts ! k \<in> set (sp_states (ps ! k) W) \<and> sp_deps (ps ! k) W' (ts ! k) = sp_deps (ps ! k) W (ts ! k)"
    if k: "k < length ps" for k
  proof -
    obtain zs where zs: "sp_interest (ps ! k) = Some zs" "set zs \<subseteq> set tys" using interest [OF k] by blast
    have "same_rows {e} W W' zs" if "e \<in> set (sp_keys (ps ! k) (ts ! k))" for e
      using same [OF keys [OF k that]] same_rows_mono [OF _ zs(2)] by blast
    then show ?thesis using delta_unmoved [OF inv inv' q(1) [OF k]] zs(1) ts k by (simp add: q(2) [OF k] paired_def)
  qed
  have pair: "pair_ok W ps ts k" if k: "k < length ps" for k
  proof (cases "sp_pair_expandable (ps ! k)")
    case True
    obtain key j where j: "j < k" and ok: "\<And>W. pair_ok W ps ts k \<longleftrightarrow> (\<exists>e e' f. ts ! k = RowS e \<and> ts ! j = RowS e'
        \<and> fingerprint_of W key e = Some f \<and> fingerprint_of W key e' = Some f)"
      and int: "\<And>tys. sp_interest (ps ! k) = Some tys \<Longrightarrow> key \<in> set tys"
      by (rule driven_pair [OF qs k True len]) blast
    obtain e e' f where e: "ts ! k = RowS e" "ts ! j = RowS e'" "fingerprint_of W' key e = Some f" "fingerprint_of W' key e' = Some f"
      using ts k ok unfolding paired_def by blast
    have key: "key \<in> set tys" using int interest [OF k] by blast
    have mine: "x \<in> set (tuple_keys ps ts)" if "i < length ps" "ts ! i = RowS x" for i x
    proof -
      have "ts ! i \<in> set (sp_states (ps ! i) W')" using ts that(1) by (simp add: paired_def)
      then have "x \<in> set (sp_keys (ps ! i) (ts ! i))"
        using that(2) unfolding q(2) [OF that(1), symmetric]
        by (cases rule: delta_param_cases [OF q(1) [OF that(1)]]) (auto simp: sp_impl_defs Let_def)
      then show ?thesis by (rule keys [OF that(1)])
    qed
    have "e \<in> set (tuple_keys ps ts)" "e' \<in> set (tuple_keys ps ts)"
      using mine [OF k e(1)] mine [OF _ e(2)] j k by simp_all
    then show ?thesis unfolding ok using e key by (auto simp: fp)
  next
    case False
    then show ?thesis by (simp add: pair_ok_def binding_of_def)
  qed
  have "map2 (\<lambda>p s. sp_deps p W' s) ps ts = map2 (\<lambda>p s. sp_deps p W s) ps ts"
    using row len by (auto simp: set_zip)
  then have "tuple_deps ps W' ts = tuple_deps ps W ts" unfolding tuple_deps_def by (rule arg_cong)
  then show ?thesis using row pair len by (simp add: paired_def)
qed

section \<open>Properties\<close>

text \<open>
  C35. Planning from the write log is complete.  A system whose parameters are views, commands and
  queries that are anchored (no bare facet handle), declare their interest and draw rows from a
  store or a driving filter, over tracked components, without inverse reads, and whose joins are
  equality joins on a single key read by exactly one preceding unjoined query, and whose cursor is
  the log of a world it planned, with the rows then left to run forced dirty, is given a hint from
  which the plan of any later world of the same epoch returns whenever a full plan does (always,
  without a join) and runs exactly the same invocations.  Membership joins, inverse reads and bare
  handles are not covered; for a bare handle and for a join on a joined query the statement is
  false (\<open>facet_hint_spurious_row\<close>, \<open>chained_join_missed\<close>).
\<close>

theorem delta_plan_complete:
  assumes run: "reachable ct (X, W)" "engine_run ct (X, W) (X', W')" and al: "allocated W" "allocated W'"
    and qs: "list_all (delta_param ct) qs" "ps = map (sp_impl ct) qs" "driven_joins ps"
    and tys: "tuple_interest ps = Some tys" "list_all (tracked ct) tys"
    and cursor: "bs_delta_eligible s" "bs_interest s = Some tys" "bs_plan_epoch s = w_plan_epoch W" "bs_log_pos s = length (w_log W)"
    and epoch: "w_plan_epoch W' = w_plan_epoch W"
    and before: "plan_prepared ps system W memo None = Some r0"
    and forced: "list_all (\<lambda>i. list_ex (\<lambda>k. k \<in> set forced) (inv_keys (pi_owner i))) (pr_invocations r0)"
  shows "\<exists>hint. plan_hint s forced (w_log W') (w_plan_epoch W') = Some (Some hint)
    \<and> (\<forall>r'. plan_prepared ps system W' memo None = Some r' \<longrightarrow>
         (\<exists>r. plan_prepared ps system W' memo (Some hint) = Some r \<and> set (pr_invocations r) = set (pr_invocations r')))
    \<and> (list_all (\<lambda>p. sp_bound_key_types p = []) ps \<longrightarrow> plan_prepared ps system W' memo None \<noteq> None)"
proof -
  have r': "reachable ct (X', W')" and "logged ct W W'"
    using log_run.engine_run_carries [OF run(2,1)] by simp_all
  then obtain new where new: "w_log W' = w_log W @ new"
    "\<And>ty e. tracked ct ty \<Longrightarrow> (ty, e) \<notin> set new \<Longrightarrow> rel_option similar (entry_of W ty e) (entry_of W' ty e)"
    using epoch unfolding logged_def by blast
  obtain hint where hint: "plan_hint s forced (w_log W') (w_plan_epoch W') = Some (Some hint)"
    "set hint = set (logged_entities tys new) \<union> set forced"
    using cursor epoch by (simp add: plan_hint_def new(1))
  have sim: "rel_option similar (entry_of W ty e) (entry_of W' ty e)" if "e \<notin> set hint" "ty \<in> set tys" for e ty
  proof (rule new(2))
    show "tracked ct ty" using tys(2) that(2) by (simp add: list_all_iff)
    show "(ty, e) \<notin> set new" using that by (force simp: hint(2) logged_entities_def)
  qed
  note inv = world_okD(1,2) [OF reachable_ok [OF run(1)], simplified]
  note inv' = world_okD(1,2) [OF reachable_ok [OF r'], simplified]
  obtain sts0 where sts0: "tuple_states ps W = Some sts0" using before by (auto simp: plan_prepared_def split: Option.bind_splits)
  note full0 = full_states(2) [OF inv al(1) qs sts0]
  obtain invs0 where invs0: "plan_loop ps system W memo sts0 = Some invs0" "pr_invocations r0 = invs0"
    using before sts0 by (auto simp: plan_prepared_def)
  have memo: "memoized ps system W' memo ts" if ts: "paired W' ps ts" and clean: "set (tuple_keys ps ts) \<inter> set hint = {}" for ts
  proof -
    have "rel_option similar (entry_of W ty e) (entry_of W' ty e)" if "e \<in> set (tuple_keys ps ts)" "ty \<in> set tys" for e ty
      using sim that clean by blast
    then have *: "ts \<in> set sts0 \<and> tuple_deps ps W' ts = tuple_deps ps W ts"
      using state_unmoved [OF inv al(1) inv' al(2) qs tys(1) _ ts] by (simp add: full0)
    have "memoized ps system W memo ts"
    proof (rule ccontr)
      assume "\<not> memoized ps system W memo ts"
      then have "planned ps system W ts \<in> set (pr_invocations r0)"
        using * plan_loop_eq [OF invs0(1)] invs0(2) by simp
      then have "\<exists>k\<in>set (tuple_keys ps ts). k \<in> set forced"
        using forced by (fastforce simp: list_all_iff list_ex_iff planned_def)
      then show False using clean hint(2) by blast
    qed
    then show ?thesis using * by (simp add: memoized_def)
  qed
  have def: "tuple_deps ps W' ts \<noteq> None" if "paired W' ps ts" for ts
    using tuple_deps_defined [OF inv' al(2) qs(1,2)] that by (simp add: paired_def)
  have hinted: "\<exists>r. plan_prepared ps system W' memo (Some hint) = Some r \<and> set (pr_invocations r) = set (pr_invocations r')"
    if full: "plan_prepared ps system W' memo None = Some r'" for r'
  proof -
    obtain sts where sts: "tuple_states ps W' = Some sts" using full by (auto simp: plan_prepared_def split: Option.bind_splits)
    note full' = full_states(2) [OF inv' al(2) qs sts]
    obtain hsts where hsts: "tuple_states_hinted ps W' hint = Some hsts" "set hsts \<subseteq> set sts"
      "\<And>ts. ts \<in> set sts \<Longrightarrow> set (tuple_keys ps ts) \<inter> set hint \<noteq> {} \<Longrightarrow> ts \<in> set hsts"
      using hinted_states [OF inv' al(2) qs sts, of hint] by blast
    obtain hinvs where hinvs: "plan_loop ps system W' memo hsts = Some hinvs" using plan_loop_defined def hsts(2) full' by blast
    have invs: "plan_loop ps system W' memo sts = Some (pr_invocations r')" using full sts by (auto simp: plan_prepared_def)
    have "{ts \<in> set hsts. \<not> memoized ps system W' memo ts} = {ts \<in> set sts. \<not> memoized ps system W' memo ts}"
      using hsts(2,3) memo full' by blast
    then have "set hinvs = set (pr_invocations r')" unfolding plan_loop_eq [OF invs] plan_loop_eq [OF hinvs] by simp
    then show ?thesis using hsts(1) hinvs by (auto simp: plan_prepared_def)
  qed
  have "plan_prepared ps system W' memo None \<noteq> None" if "list_all (\<lambda>p. sp_bound_key_types p = []) ps"
  proof -
    have "list_all (\<lambda>p. \<not> sp_pair_expandable p) ps"
      using that delta_param_fields(1) qs(1,2) by (auto simp: list_all_iff)
    then obtain sts where "for_each_state W' [] (map (\<lambda>p. (p, own_states W' p)) ps) = Some sts" using product_defined by blast
    then have sts: "tuple_states ps W' = Some sts" using delta_tuple(1) [OF qs(1,2)] by (simp add: tuple_states_def)
    have "plan_loop ps system W' memo sts \<noteq> None"
      using plan_loop_defined def full_states(2) [OF inv' al(2) qs sts] by blast
    then show ?thesis using sts by (simp add: plan_prepared_def)
  qed
  then show ?thesis using hint(1) hinted by blast
qed

text \<open>
  Entity 2 gains component 0, with the value of entities 0 and 1, after the pairs of \<open>rows_world\<close>
  were planned and run: the hint is entity 2, its providers are entities 0 and 1, and the
  invocations left to run are its pairs with them and with itself.
\<close>

definition rows_grown :: "nat user_value world" where
  "rows_grown = the (insert_base demo_trait (UserTy 0) 2 (demo_plain 5) rows_world)"

abbreviation join_ps :: "nat user_value param_methods list" where
  "join_ps \<equiv> map (sp_impl demo_trait) join_params"

definition rows_memo :: memo_table where
  "rows_memo = map (\<lambda>i. (pi_owner i, \<lparr>me_deps = pi_deps i, me_planned_revision = 4, me_settle_epoch = 0\<rparr>))
     (case plan_prepared join_ps 0 rows_world [] None of None \<Rightarrow> [] | Some r \<Rightarrow> pr_invocations r)"

definition join_system :: "nat user_value boxed_system" where
  "join_system = the (into_system 0 (FunctionD join_ps writer_kernel))"

definition join_at_rows :: "nat user_value boxed_system" where
  "join_at_rows = join_system\<lparr>bs_plan_epoch := w_plan_epoch rows_world, bs_log_pos := length (w_log rows_world)\<rparr>"

lemma join_system_plans:
  "tuple_interest join_ps = Some [UserTy 0, UserTy 3, UserTy 0]" "tuple_delta_shape join_ps = Driver"
  "bs_interest join_system = tuple_interest join_ps" "bs_delta_eligible join_system"
proof -
  show i: "tuple_interest join_ps = Some [UserTy 0, UserTy 3, UserTy 0]" "tuple_delta_shape join_ps = Driver" by code_simp+
  have "validate_bindings join_ps = None" "tuple_tracked_stores join_ps = []" by code_simp+
  then show "bs_interest join_system = tuple_interest join_ps" "bs_delta_eligible join_system"
    using i by (simp_all add: join_system_def boxed_system_new_def validate_tracked_store_writes_def)
qed

lemma rows_grown_run: "engine_run demo_trait ({}, rows_world) ({}, rows_grown)"
proof -
  have "insert_base demo_trait (UserTy 0) 2 (demo_plain 5) rows_world \<noteq> None"
    unfolding rows_world_def by code_simp
  then have "world_insert demo_trait (UserTy 0) 2 (demo_plain 5) None rows_world = Some rows_grown"
    by (auto simp: rows_grown_def insert_base_def)
  then show ?thesis by (intro run_step [OF run_refl] es_op ws_insert)
qed

lemma rows_grown_allocated: "allocated rows_grown"
proof -
  have "listed_allocated rows_grown" unfolding rows_grown_def rows_world_def by code_simp
  moreover have r: "reachable demo_trait ({}, rows_grown)"
    using engine_run_progress [OF rows_grown_run rows_world_reachable] by simp
  ultimately show ?thesis using listed_allocated_code world_okD(1) [OF reachable_ok [OF r], simplified] by blast
qed

theorem delta_plan_complete_witness:
  "\<exists>hint r r'. plan_hint join_at_rows [] (w_log rows_grown) (w_plan_epoch rows_grown) = Some (Some hint)
    \<and> plan_prepared join_ps 0 rows_grown rows_memo (Some hint) = Some r \<and> plan_prepared join_ps 0 rows_grown rows_memo None = Some r'
    \<and> set (pr_invocations r) = set (pr_invocations r')
    \<and> map pi_state (pr_invocations r') = [[RowS 0, RowS 2, UnitS], [RowS 1, RowS 2, UnitS],
        [RowS 2, RowS 0, UnitS], [RowS 2, RowS 1, UnitS], [RowS 2, RowS 2, UnitS]]"
proof -
  have qs: "list_all (delta_param demo_trait) join_params" "driven_joins join_ps" by code_simp+
  have tys: "tuple_interest join_ps = Some [UserTy 0, UserTy 3, UserTy 0]" "list_all (tracked demo_trait) [UserTy 0, UserTy 3, UserTy 0]"
    by code_simp+
  have epoch: "w_plan_epoch rows_grown = w_plan_epoch rows_world"
    unfolding rows_grown_def rows_world_def by code_simp
  have "map_option pr_invocations (plan_prepared join_ps 0 rows_world rows_memo None) = Some []"
    unfolding rows_memo_def rows_world_def by code_simp
  then obtain r0 where r0: "plan_prepared join_ps 0 rows_world rows_memo None = Some r0" "pr_invocations r0 = []" by blast
  have "map_option (map pi_state \<circ> pr_invocations) (plan_prepared join_ps 0 rows_grown rows_memo None)
      = Some [[RowS 0, RowS 2, UnitS], [RowS 1, RowS 2, UnitS], [RowS 2, RowS 0, UnitS], [RowS 2, RowS 1, UnitS], [RowS 2, RowS 2, UnitS]]"
    unfolding rows_memo_def rows_grown_def rows_world_def by code_simp
  then obtain r' where r': "plan_prepared join_ps 0 rows_grown rows_memo None = Some r'"
    "map pi_state (pr_invocations r') = [[RowS 0, RowS 2, UnitS], [RowS 1, RowS 2, UnitS],
      [RowS 2, RowS 0, UnitS], [RowS 2, RowS 1, UnitS], [RowS 2, RowS 2, UnitS]]" by auto
  have at: "bs_delta_eligible join_at_rows" "bs_interest join_at_rows = Some [UserTy 0, UserTy 3, UserTy 0]"
    "bs_plan_epoch join_at_rows = w_plan_epoch rows_world" "bs_log_pos join_at_rows = length (w_log rows_world)"
    using join_system_plans by (simp_all add: join_at_rows_def)
  have "list_all (\<lambda>i. list_ex (\<lambda>k. k \<in> set []) (inv_keys (pi_owner i))) (pr_invocations r0)" using r0(2) by simp
  note delta_plan_complete [OF rows_world_reachable rows_grown_run rows_world_allocated(1) rows_grown_allocated qs(1) refl qs(2) tys
      at epoch r0(1) this]
  then obtain hint r where "plan_hint join_at_rows [] (w_log rows_grown) (w_plan_epoch rows_grown) = Some (Some hint)"
    "plan_prepared join_ps 0 rows_grown rows_memo (Some hint) = Some r" "set (pr_invocations r) = set (pr_invocations r')"
    using r'(1) by blast
  then show ?thesis using r' by (intro exI [of _ hint] exI [of _ r] exI [of _ r']) simp
qed

section \<open>A join on a joined query\<close>

text \<open>
  A hint is translated through one join only.  Components 0 and 3 are hashed; the third query is
  joined on component 3, which the second one reads, and the second on component 0, which the
  first reads.  When entity 2 gets the value of entity 1 in component 3 the pair (1, 2) becomes a
  partner of both entities with component 0, but the hinted plan finds the driver row 1 only.
\<close>

definition hashed_impls :: "nat \<Rightarrow> component_impl" where
  "hashed_impls n = (demo_impls n)\<lparr>ci_fingerprint := HashSelf\<rparr>"

definition hashed_trait :: "nat user_value component_trait" where
  "hashed_trait = derived_trait hashed_impls uv_payload (\<lambda>ms. foldr (\<lambda>x a. 2 * a + x + 1) ms 0) length 0"

definition chain_ps :: "nat user_value param_methods list" where
  "chain_ps = map (sp_impl hashed_trait) [QueryP (TupleParam [] [ReadPart (Ref (UserTy 0))]) NoFilter,
     QueryP (TupleParam [] [ReadPart (Ref (UserTy 3))]) (WhereEq (UserTy 0)),
     QueryP (TupleParam [] [ReadPart (Ref (UserTy 3))]) (WhereEq (UserTy 3))]"

definition chain_build :: "nat user_value world \<Rightarrow> nat user_value world option" where
  "chain_build W = do {
     W \<leftarrow> insert_base hashed_trait (UserTy 0) 0 (demo_plain 5) W;
     W \<leftarrow> insert_base hashed_trait (UserTy 0) 1 (demo_plain 5) W;
     W \<leftarrow> insert_base hashed_trait (UserTy 3) 1 (demo_plain 7) W;
     insert_base hashed_trait (UserTy 3) 2 (demo_plain 8) W }"

theorem chained_join_missed:
  "\<exists>W W' before full hinted. chain_build (spawn_two (spawn_two world_new)) = Some W \<and> reachable hashed_trait ({}, W)
    \<and> insert_base hashed_trait (UserTy 3) 2 (demo_plain 7) W = Some W'
    \<and> validate_bindings chain_ps = None \<and> tuple_delta_shape chain_ps = Driver
    \<and> w_plan_epoch W' = w_plan_epoch W \<and> w_log W' = w_log W @ [(UserTy 3, 2)]
    \<and> tuple_states chain_ps W = Some before \<and> tuple_states chain_ps W' = Some full \<and> tuple_states_hinted chain_ps W' [2] = Some hinted
    \<and> [RowS 0, RowS 1, RowS 2] \<in> set full - set before \<and> [RowS 0, RowS 1, RowS 2] \<notin> set hinted"
proof -
  let ?missed = "[RowS 0, RowS 1, RowS 2]"
  let ?P = "\<lambda>W W'. w_plan_epoch W' = w_plan_epoch W \<and> w_log W' = w_log W @ [(UserTy 3, 2)]
    \<and> map_option (\<lambda>sts. ?missed \<in> set sts) (tuple_states chain_ps W) = Some False
    \<and> map_option (\<lambda>sts. ?missed \<in> set sts) (tuple_states chain_ps W') = Some True
    \<and> map_option (\<lambda>sts. ?missed \<in> set sts) (tuple_states_hinted chain_ps W' [2]) = Some False"
  have "Option.bind (chain_build (spawn_two (spawn_two world_new)))
      (\<lambda>W. map_option (?P W) (insert_base hashed_trait (UserTy 3) 2 (demo_plain 7) W)) = Some True"
    by code_simp
  then obtain W W' where W: "chain_build (spawn_two (spawn_two world_new)) = Some W"
    "insert_base hashed_trait (UserTy 3) 2 (demo_plain 7) W = Some W'" "?P W W'"
    by (auto elim!: bind_SomeE)
  have "reachable hashed_trait ({}, spawn_two (spawn_two world_new))" by (intro spawn_two_reachable reach_new)
  then have "reachable hashed_trait ({}, W)"
    using W(1) unfolding chain_build_def insert_base_def by (elim bind_SomeE) (blast intro: reachable_insert)
  moreover have "validate_bindings chain_ps = None" "tuple_delta_shape chain_ps = Driver" by code_simp+
  ultimately show ?thesis using W by auto
qed

end
