(* ===== verification/Commit.thy ===== *)
theory Commit
  imports Planner_Props
begin

text \<open>
  Commits (bowl.rs): the state of a bowl, the replacement of an invocation's outputs, the checks
  on what a commit wrote, the retirement of invocations that lost a key or an output, and the
  budget of one evaluation.

  The driver owns the memo while it runs, so a commit takes it next to the state.  A hash set of
  entities or owners is a list here, without repetition where the code relies on it; nothing
  depends on its order but the order of independent removals.  Checks of debug builds are on.  A
  panic is \<open>None\<close>.
\<close>

section \<open>The state of a bowl\<close>

record shape_desc =
  sh_required :: "type_id list"
  sh_optional :: "type_id list"

record 'v state =
  st_world :: "'v world"
  st_snapshot_cache :: "((nat \<times> nat \<times> nat) \<times> 'v world) option"
  st_systems :: "'v boxed_system list"
  st_settled_hooks :: "nat list"
  st_settle_systems :: "nat list"
  st_memo :: memo_table
  st_completed :: nat
  st_running :: "nat option"
  st_next :: nat
  st_pending :: "nat option"
  st_pending_inputs :: "'v command_queue"
  st_planning_storage :: "'v pool option"
  st_deferred_inputs :: "(nat \<times> 'v command_queue) list"
  st_deferred_settle :: "'v system_output list"
  st_schema :: "shape_desc list option"
  st_input_seq :: nat
  st_settling :: nat
  st_preempt_window :: bool
  st_preempt_restart :: bool
  st_settle_epoch :: nat
  st_waiters :: "(nat \<times> nat) list"
  st_boundary_waiters :: "nat list"
  st_settled_revision :: nat
  st_settled_snapshot :: "'v world option"
  st_settle_watchers :: "nat list"
  st_normal_clean :: bool
  st_startup_ran :: bool

definition bowl_new :: "'v state" where
  "bowl_new = \<lparr>st_world = world_new, st_snapshot_cache = None, st_systems = [], st_settled_hooks = [],
     st_settle_systems = [], st_memo = [], st_completed = 0, st_running = None, st_next = 1, st_pending = None,
     st_pending_inputs = queue_default, st_planning_storage = Some pool_default, st_deferred_inputs = [],
     st_deferred_settle = [], st_schema = None, st_input_seq = 0, st_settling = 0, st_preempt_window = False,
     st_preempt_restart = False, st_settle_epoch = 0, st_waiters = [], st_boundary_waiters = [],
     st_settled_revision = 0, st_settled_snapshot = None, st_settle_watchers = [], st_normal_clean = True,
     st_startup_ran = False\<rparr>"

section \<open>The commit budget\<close>

datatype commit_limit = Unlimited | MaxCommits "64 word"

record commit_progress =
  cp_needs_followup :: bool
  cp_stale :: bool
  cp_commits :: "64 word"

definition progress_default :: commit_progress where
  "progress_default = \<lparr>cp_needs_followup = False, cp_stale = False, cp_commits = 0\<rparr>"

record commit_budget =
  cb_limit :: commit_limit
  cb_commits :: "64 word"

definition budget_new :: "commit_limit \<Rightarrow> commit_budget" where
  "budget_new limit = \<lparr>cb_limit = limit, cb_commits = 0\<rparr>"

definition checked_add64 :: "64 word \<Rightarrow> 64 word \<Rightarrow> 64 word option" where
  "checked_add64 a b = (if unat a + unat b < 2 ^ 64 then Some (a + b) else None)"

definition budget_record :: "64 word \<Rightarrow> commit_budget \<Rightarrow> commit_budget option" where
  "budget_record n b = (if n = 0 then Some b
     else Option.bind (checked_add64 (cb_commits b) n) (\<lambda>total.
       case cb_limit b of
         Unlimited \<Rightarrow> Some (b\<lparr>cb_commits := total\<rparr>)
       | MaxCommits limit \<Rightarrow> if total \<le> limit then Some (b\<lparr>cb_commits := total\<rparr>) else None))"

section \<open>Schema conformance\<close>

definition shape_contains :: "shape_desc \<Rightarrow> type_id \<Rightarrow> bool" where
  "shape_contains shape ty \<longleftrightarrow> ty \<in> set (sh_required shape) \<or> ty \<in> set (sh_optional shape)"

text \<open>What the panic names: the nearest shape and what is missing from it or extra.\<close>

datatype shape_error =
    LeftMissing shape_desc "type_id list"
  | MatchesNone shape_desc "type_id list"
  | NoShapes

fun check_shapes :: "'v world \<Rightarrow> entity \<Rightarrow> type_id list \<Rightarrow> (shape_desc \<times> nat) option \<Rightarrow>
    (shape_desc \<times> type_id list) option \<Rightarrow> shape_desc list \<Rightarrow> shape_error + unit" where
  "check_shapes W e tys best nearest [] = Inl (case (nearest, best) of
       (Some (shape, missing), _) \<Rightarrow> LeftMissing shape missing
     | (None, Some (shape, _)) \<Rightarrow> MatchesNone shape (filter (\<lambda>ty. \<not> shape_contains shape ty) tys)
     | (None, None) \<Rightarrow> NoShapes)"
| "check_shapes W e tys best nearest (shape # shapes) =
     (let covered = length (filter (shape_contains shape) tys) in
      if covered = length tys then
        (let missing = filter (\<lambda>ty. \<not> has_component W ty e) (sh_required shape) in
         if missing = [] then Inr ()
         else check_shapes W e tys best
           (case nearest of None \<Rightarrow> Some (shape, missing)
            | Some (_, best_missing) \<Rightarrow> if length missing < length best_missing then Some (shape, missing) else nearest)
           shapes)
      else check_shapes W e tys
        (case best of None \<Rightarrow> Some (shape, covered)
         | Some (_, best_covered) \<Rightarrow> if covered > best_covered then Some (shape, covered) else best)
        nearest shapes)"

definition check_shape_conformance :: "'v world \<Rightarrow> shape_desc list \<Rightarrow> entity \<Rightarrow> type_id list \<Rightarrow> shape_error + unit" where
  "check_shape_conformance W shapes e tys = check_shapes W e tys None None shapes"

text \<open>The writes of a commit, grouped by entity.\<close>

definition per_entity :: "out_pair list \<Rightarrow> (entity \<times> type_id list) list" where
  "per_entity written = map (\<lambda>e. (e, map fst (filter (\<lambda>p. snd p = e) written))) (remdups (map snd written))"

definition check_schema :: "'v world \<Rightarrow> shape_desc list option \<Rightarrow> out_pair list \<Rightarrow> bool" where
  "check_schema W sch written = (case sch of None \<Rightarrow> True
     | Some shapes \<Rightarrow> list_all (\<lambda>(e, tys). check_shape_conformance W shapes e tys = Inr ()) (per_entity written))"

section \<open>Same-phase races\<close>

definition view_races :: "'v world \<Rightarrow> type_id list list \<Rightarrow> out_pair \<Rightarrow> bool" where
  "view_races W view_sets p \<longleftrightarrow> list_ex (\<lambda>required. fst p \<in> set required
     \<and> list_all (\<lambda>ty. has_component W ty (snd p)) required) view_sets"

text \<open>\<open>Some True\<close> when the write cannot have raced the viewer; counting its rows may panic.\<close>

definition check_viewer :: "'v world \<Rightarrow> memo_table \<Rightarrow> nat \<Rightarrow> phase \<Rightarrow> out_pair \<Rightarrow> nat \<times> 'v boxed_system \<Rightarrow> bool option" where
  "check_viewer W memo writer ph p s = (case s of (i, system) \<Rightarrow>
     if i = writer \<or> bs_phase system \<noteq> ph \<or> \<not> view_races W (bs_view_sets system) p then Some True
     else map_option (\<lambda>(matched, _). \<not> matched > 0) (row_counts (bs_runnable system) W memo))"

definition check_same_phase :: "'v world \<Rightarrow> memo_table \<Rightarrow> 'v boxed_system list \<Rightarrow> nat \<Rightarrow> phase option \<Rightarrow> out_pair list \<Rightarrow> bool option" where
  "check_same_phase W memo defs writer ph written = (case ph of None \<Rightarrow> Some True
     | Some ph \<Rightarrow> check_all (\<lambda>(p, s). check_viewer W memo writer ph p s)
         (List.product written (List.enumerate 0 defs)))"

section \<open>Replacing an invocation's outputs\<close>

definition lease_deferred :: "bool \<Rightarrow> 'v pool option \<Rightarrow> 'v command_queue \<times> 'v pool option" where
  "lease_deferred defers storage = (case (defers, storage) of
     (True, Some P) \<Rightarrow> map_prod id Some (pool_take P)
   | _ \<Rightarrow> (queue_default, storage))"

text \<open>
  The old outputs leave the index, the commands run over them, and whatever they did not emit
  again is swept.  Operations a settle phase defers are kept for the start of the next run.
\<close>

definition replace_outputs :: "'v component_trait \<Rightarrow> bool \<Rightarrow> 'v system_output \<Rightarrow> 'v state \<Rightarrow> 'v state option" where
  "replace_outputs ct defers output st = (let owner = so_owner output;
       (previous, W1) = take_derived_outputs owner (st_world st);
       (leased, storage) = lease_deferred defers (st_planning_storage st);
       (applied, target, _) = apply_or_defer ct (Some owner) W1 (if defers then Some leased else None) (so_commands output);
       deferred = (case target of Some q \<Rightarrow> q | None \<Rightarrow> leased)
     in do {
       W2 \<leftarrow> applied;
       W3 \<leftarrow> flush_derived_from ct W2;
       W4 \<leftarrow> remove_derived_stale ct owner previous (finish_derived_spawns owner W3);
       Some (st\<lparr>st_world := W4, st_planning_storage := storage,
         st_deferred_settle := st_deferred_settle st
           @ (if queue_is_empty deferred then [] else [\<lparr>so_owner = owner, so_commands = deferred\<rparr>])\<rparr>) })"

definition commit_output :: "'v component_trait \<Rightarrow> phase option \<Rightarrow> memo_table \<Rightarrow> 'v system_output \<Rightarrow> 'v state \<Rightarrow> 'v state option" where
  "commit_output ct ph memo output st =
     Option.bind (replace_outputs ct (ph = Some Settle) output st) (\<lambda>st1.
       let (written, W) = take_written_derived (st_world st1) in
       if check_schema W (st_schema st1) written
          \<and> check_same_phase W memo (st_systems st1) (inv_system (so_owner output)) ph written = Some True
       then Some (st1\<lparr>st_world := W\<rparr>) else None)"

section \<open>Retiring invocations\<close>

definition remove_memo_touched_by :: "entity list \<Rightarrow> memo_table \<Rightarrow> memo_table" where
  "remove_memo_touched_by keys memo = filter (\<lambda>(owner, _). \<not> list_ex (\<lambda>k. k \<in> set keys) (inv_keys owner)) memo"

fun reconcile_removed_output_owners :: "nat set option \<Rightarrow> system_invocation list \<Rightarrow>
    memo_table \<times> 'v boxed_system list \<Rightarrow> (bool \<times> memo_table \<times> 'v boxed_system list) option" where
  "reconcile_removed_output_owners systems [] s = Some (False, s)"
| "reconcile_removed_output_owners systems (owner # ows) (memo, defs) =
     (if (case systems of None \<Rightarrow> False | Some ss \<Rightarrow> inv_system owner \<notin> ss) \<or> map_of memo owner = None
      then reconcile_removed_output_owners systems ows (memo, defs)
      else if inv_system owner < length defs
      then map_option (\<lambda>(_, s). (True, s)) (reconcile_removed_output_owners systems ows
        (AList.delete owner memo, defs[inv_system owner := force_replan (inv_keys owner) (defs ! inv_system owner)]))
      else None)"

text \<open>
  The loop from a frontier of keys: the outputs of every selected owner with such a key go, and
  their entities not seen before are the next frontier.
\<close>

partial_function (option) retire_loop :: "'v component_trait \<Rightarrow> nat set option \<Rightarrow> entity list \<Rightarrow> entity list \<Rightarrow> bool \<Rightarrow>
    memo_table \<Rightarrow> 'v world \<Rightarrow> (bool \<times> memo_table \<times> 'v world) option" where
  "retire_loop ct systems frontier seen gone memo W =
     (if frontier = [] then Some (gone, memo, W)
      else Option.bind (remove_derived_touched_by_systems ct (set frontier) systems W) (\<lambda>(removed, W1).
        let fresh = remdups (filter (\<lambda>e. e \<notin> set seen) removed) in
        retire_loop ct systems fresh (fresh @ seen) (gone \<or> removed \<noteq> [])
          (remove_memo_touched_by frontier memo) W1))"

definition reconcile_removed_invocations :: "'v component_trait \<Rightarrow> nat set option \<Rightarrow> entity list \<Rightarrow> system_invocation list \<Rightarrow>
    'v state \<times> memo_table \<Rightarrow> (bool \<times> 'v state \<times> memo_table) option" where
  "reconcile_removed_invocations ct systems removed removed_owners s = (case s of (st, memo) \<Rightarrow>
     Option.bind (reconcile_removed_output_owners systems removed_owners (memo, st_systems st)) (\<lambda>(gone, memo1, defs).
       map_option (\<lambda>(gone', memo2, W). (gone', st\<lparr>st_systems := defs, st_world := W\<rparr>, memo2))
         (retire_loop ct systems (remdups removed) (remdups removed) gone memo1 (st_world st))))"

section \<open>Commits\<close>

definition world_moved :: "'v world \<Rightarrow> 'v world \<Rightarrow> bool" where
  "world_moved W W' \<longleftrightarrow> w_revision W' \<noteq> w_revision W \<or> w_mutations W' \<noteq> w_mutations W"

definition commit_memo :: "'v state \<Rightarrow> out_pair list \<Rightarrow> (system_invocation \<times> memo_entry) list \<Rightarrow> memo_table \<Rightarrow> memo_table" where
  "commit_memo st writes updates memo = fold (\<lambda>(owner, entry).
     AList.update owner ((entry_refresh_written (st_world st) writes entry)\<lparr>me_settle_epoch := st_settle_epoch st\<rparr>)) updates memo"

definition pair_bound_systems :: "'v boxed_system list \<Rightarrow> nat set" where
  "pair_bound_systems defs = set (filter (\<lambda>i. bs_pair_bound (defs ! i)) [0..<length defs])"

text \<open>What was removed by the commit, drained and reconciled.\<close>

definition retire_removed :: "'v component_trait \<Rightarrow> 'v state \<times> memo_table \<Rightarrow> ('v state \<times> memo_table) option" where
  "retire_removed ct s = (case s of (st, memo) \<Rightarrow>
     let (removed, W1) = take_removed_entities (st_world st); (ows, W2) = take_removed_owners W1;
         (component_owners, W3) = take_removed_component_owners W2; st1 = st\<lparr>st_world := W3\<rparr>
     in if removed = [] \<and> ows = [] \<and> component_owners = [] then Some (st1, memo)
        else Option.bind (reconcile_removed_output_owners None component_owners (memo, st_systems st1)) (\<lambda>(gone, memo1, defs).
          let st2 = st1\<lparr>st_systems := defs\<rparr> in
          if gone then Some (st2\<lparr>st_normal_clean := False\<rparr>, memo1)
          else map_option (\<lambda>(gone, st3, memo2). (if gone then st3\<lparr>st_normal_clean := False\<rparr> else st3, memo2))
            (reconcile_removed_invocations ct (Some (pair_bound_systems (st_systems st1))) removed ows (st2, memo1))))"

definition run_is_current :: "'v world \<Rightarrow> 'v system_run \<Rightarrow> bool" where
  "run_is_current W run \<longleftrightarrow> list_all (\<lambda>(_, entry). entry_is_current W entry) (sr_memo_updates run)"

definition commit_system_run :: "'v component_trait \<Rightarrow> phase option \<Rightarrow> 'v system_run \<Rightarrow> 'v state \<times> memo_table \<Rightarrow>
    (commit_progress \<times> 'v state \<times> memo_table) option" where
  "commit_system_run ct ph run s = (case s of (st, memo) \<Rightarrow> let W = st_world st in
     if \<not> run_is_current W run then
       (let W1 = reconcile_written ct (sr_writes run) W; needs = (w_revision W1 \<noteq> w_revision W)
        in Some (\<lparr>cp_needs_followup = needs, cp_stale = True, cp_commits = (if needs then 1 else 0)\<rparr>,
             st\<lparr>st_world := W1\<rparr>, memo))
     else do {
       st1 \<leftarrow> fold_opt (commit_output ct ph memo) (sr_outputs run) st;
       let st2 = st1\<lparr>st_world := reconcile_written ct (sr_writes run) (st_world st1)\<rparr>;
       (st3, memo3) \<leftarrow> retire_removed ct (st2, commit_memo st2 (sr_writes run) (sr_memo_updates run) memo);
       let needs = world_moved W (st_world st3);
       Some (\<lparr>cp_needs_followup = needs, cp_stale = False, cp_commits = (if needs then 1 else 0)\<rparr>, st3, memo3) })"

text \<open>The sum of the accepted commits overflows only past \<open>u64::MAX\<close>; then it panics.\<close>

fun commit_system_runs :: "'v component_trait \<Rightarrow> 'v system_run list \<Rightarrow> commit_progress \<Rightarrow> 'v state \<times> memo_table \<Rightarrow>
    (commit_progress \<times> 'v state \<times> memo_table) option" where
  "commit_system_runs ct [] acc s = Some (acc, s)"
| "commit_system_runs ct (run # runs) acc s = Option.bind (commit_system_run ct None run s) (\<lambda>(step, s1).
     Option.bind (checked_add64 (cp_commits acc) (cp_commits step)) (\<lambda>total.
       commit_system_runs ct runs (acc\<lparr>cp_needs_followup := cp_needs_followup acc \<or> cp_needs_followup step,
         cp_commits := total\<rparr>) s1))"

section \<open>Cleanup of bound entities\<close>

definition forget_owners :: "'v component_trait \<Rightarrow> system_invocation list \<Rightarrow> memo_table \<times> 'v world \<Rightarrow> (memo_table \<times> 'v world) option" where
  "forget_owners ct ows s = fold_opt (\<lambda>owner (memo, W).
     map_option (Pair (AList.delete owner memo)) (remove_derived_owned ct owner W)) ows s"

fun remove_roots :: "'v component_trait \<Rightarrow> entity list \<Rightarrow> system_invocation list \<times> 'v world \<Rightarrow>
    (system_invocation list \<times> 'v world) option" where
  "remove_roots ct [] s = Some s"
| "remove_roots ct (e # es) (ows, W) = Option.bind (remove_entity ct e W) (\<lambda>(removed, W1).
     remove_roots ct es (List.union ows removed, W1))"

definition cleanup_bound_entities :: "'v component_trait \<Rightarrow> entity list \<Rightarrow> 'v state \<Rightarrow> 'v state option" where
  "cleanup_bound_entities ct entities st = (let roots = remdups entities in
     if roots = [] then Some st
     else do {
       (_, memo1, W1) \<leftarrow> retire_loop ct None roots [] False (st_memo st) (st_world st);
       (ows, W2) \<leftarrow> remove_roots ct roots ([], W1);
       (memo3, W3) \<leftarrow> forget_owners ct ows (memo1, W2);
       Some (st\<lparr>st_memo := memo3, st_world := W3\<rparr>) })"

end
