(* ===== verification/Commit_Props.thy ===== *)
theory Commit_Props
  imports Commit
begin

text \<open>
  Properties of commits: outputs are replaced, worlds stay reachable, the retirement loop reaches
  its fixed point, and the budget counts exactly.
\<close>

section \<open>What a commit writes\<close>

text \<open>Every output gained is in the record of derived writes.\<close>

definition emits :: "'v world \<Rightarrow> 'v world \<Rightarrow> bool" where
  "emits W W' \<longleftrightarrow> (\<exists>new. w_written_derived W' = w_written_derived W @ new
     \<and> (\<forall>ow. set (outputs_of W' ow) \<subseteq> set (outputs_of W ow) \<union> set new))"

lemma emits_trans: "emits W W1 \<Longrightarrow> emits W1 W2 \<Longrightarrow> emits W W2"
proof -
  assume "emits W W1" "emits W1 W2"
  then obtain new new' where "w_written_derived W1 = w_written_derived W @ new"
      "\<forall>ow. set (outputs_of W1 ow) \<subseteq> set (outputs_of W ow) \<union> set new"
      "w_written_derived W2 = w_written_derived W1 @ new'"
      "\<forall>ow. set (outputs_of W2 ow) \<subseteq> set (outputs_of W1 ow) \<union> set new'"
    unfolding emits_def by blast
  then have "w_written_derived W2 = w_written_derived W @ (new @ new')"
    "\<forall>ow. set (outputs_of W2 ow) \<subseteq> set (outputs_of W ow) \<union> set (new @ new')" by (simp, fastforce)
  then show "emits W W2" unfolding emits_def by blast
qed

lemma emits_shrink:
  "w_written_derived W' = w_written_derived W \<Longrightarrow> (\<And>ow. set (outputs_of W' ow) \<subseteq> set (outputs_of W ow)) \<Longrightarrow> emits W W'"
  unfolding emits_def by (rule exI [of _ "[]"]) simp

lemma emits_cong: "w_written_derived W' = w_written_derived W \<Longrightarrow> w_owners W' = w_owners W \<Longrightarrow> emits W W'"
  by (rule emits_shrink) (simp_all add: outputs_of_def)

lemma emits_refl: "emits W W"
  by (rule emits_cong) simp_all

lemma written_fields [simp]:
  "w_written_derived (put_store ty s W) = w_written_derived W"
  "w_written_derived (log_write ty e W) = w_written_derived W"
  "w_written_derived (w_presence_set ty e b W) = w_written_derived W"
  "w_written_derived (unindex_derived ow ty e W) = w_written_derived W"
  "w_written_derived (index_derived ow ty e W) = w_written_derived W"
  "w_written_derived (deregister_singleton ty e W) = w_written_derived W"
  by (simp_all add: put_store_def log_write_def w_presence_set_def unindex_derived_def index_derived_def
      deregister_singleton_def Let_def split: option.split)

lemma insert_entry_written:
  assumes "insert_entry ct ty e v owner W = (previous, W')"
  shows "w_written_derived W' = w_written_derived W @ (if owner = None then [] else [(ty, e)])"
proof -
  have t: "w_written_derived (transfer_owner old new ty e V) = w_written_derived V" for old new and V :: "'a world"
    by (simp add: transfer_owner_def Let_def split: option.split)
  have "W' = snd (insert_entry ct ty e v owner W)" by (simp add: assms)
  then show ?thesis unfolding insert_entry_def Let_def by (simp add: case_prod_beta t)
qed

lemma drop_entry_emits: "emits W (drop_entry ty e s W)"
  by (rule emits_cong) (simp_all add: drop_entry_def Let_def)

lemma cleared_world_emits: "emits W (cleared_world e W)"
proof -
  have rs: "w_written_derived (snd (remove_from_stores e tys V)) = w_written_derived V
      \<and> w_owners (snd (remove_from_stores e tys V)) = w_owners V" for tys and V :: "'a world"
    by (induction tys arbitrary: V) (simp_all add: Let_def case_prod_beta split: option.split)
  have un: "w_written_derived (unindex_all e rs V) = w_written_derived V" for rs and V :: "'a world"
    by (induction rs arbitrary: V) (auto split: option.split)
  obtain removed W1 where r: "remove_from_stores e (map fst (stores_list (w_stores W))) W = (removed, W1)"
    by (rule prod.exhaust)
  have W1: "w_written_derived W1 = w_written_derived W" "outputs_of W1 = outputs_of W"
    using rs [of "map fst (stores_list (w_stores W))" W] outputs_of_cong [of W1 W] by (simp_all add: r)
  have o: "outputs_of (cleared_world e W) = outputs_of (unindex_all e removed (fold (\<lambda>(ty, _). log_write ty e) removed W1))"
    by (rule outputs_of_cong) (simp add: cleared_world_def r Let_def w_presence_clear_def)
  have "outputs_of (fold (\<lambda>(ty, _). log_write ty e) removed W1) = outputs_of W"
    unfolding W1(2) [symmetric] by (rule outputs_of_cong) (simp add: fold_log_fields)
  then have "set (outputs_of (cleared_world e W) ow) \<subseteq> set (outputs_of W ow)" for ow
    by (simp add: o unindex_all_outputs Diff_subset)
  moreover have "w_written_derived (cleared_world e W) = w_written_derived W"
    by (simp add: cleared_world_def r Let_def w_presence_clear_def un fold_log_fields W1(1))
  ultimately show ?thesis by (rule emits_shrink [rotated])
qed

interpretation emit_books: flush_relation ct emits for ct
proof
  show "emits W W'" if "register_singleton ty e W = Some W'" for W W' :: "'a world" and ty e
    using that by (auto simp: register_singleton_def split: option.splits if_splits intro: emits_cong emits_refl)
  show "emits W W'" if "insert_entry ct ty e v owner W = (previous, W')" for W W' :: "'a world" and ty e v owner previous
    unfolding emits_def insert_entry_written [OF that] insert_entry_outputs(2) [OF that]
    by (intro exI [of _ "if owner = None then [] else [(ty, e)]"]) auto
  show "emits W (removed_world ty e remover en s W)" for W :: "'a world" and ty e remover en s
  proof (rule emits_trans [OF drop_entry_emits])
    show "emits (drop_entry ty e s W) (removed_world ty e remover en s W)"
    proof (rule emits_shrink)
      show "w_written_derived (removed_world ty e remover en s W) = w_written_derived (drop_entry ty e s W)"
        by (simp add: removed_world_def Let_def split: option.split)
      fix ow
      have "outputs_of (removed_world ty e remover en s W) = outputs_of (case ce_owner en of
          None \<Rightarrow> drop_entry ty e s W | Some o' \<Rightarrow> unindex_derived o' ty e (drop_entry ty e s W))"
        by (rule outputs_of_cong) (simp add: removed_world_def Let_def split: option.split)
      then show "set (outputs_of (removed_world ty e remover en s W) ow) \<subseteq> set (outputs_of (drop_entry ty e s W) ow)"
        by (auto simp: outputs_of_unindex split: option.splits if_splits)
    qed
  qed
  show "emits W (cleared_world e W)" for W :: "'a world" and e by (rule cleared_world_emits)
qed (auto intro: emits_trans emits_cong emits_refl)

section \<open>Applying a queue\<close>

lemma apply_loop_invariant:
  assumes "apply_loop ct owner st W target = (Some W', st', target')" and "P W"
    and "\<And>op W W1. P W \<Longrightarrow> operation_apply ct owner op W = Some W1 \<Longrightarrow> P W1"
  shows "P W'"
  using assms
proof (induction ct owner st W target rule: apply_loop.induct)
  case (1 ct owner st W target)
  show ?case
  proof (cases "st_cursor st < length (st_entries st)")
    case True
    let ?en = "st_entries st ! st_cursor st" and ?st = "st\<lparr>st_cursor := st_cursor st + 1\<rparr>"
    show ?thesis
    proof (cases "if en_deferred ?en then target else None")
      case None
      then obtain W1 where W1: "operation_apply ct owner (en_operation ?en) W = Some W1"
        and rest: "apply_loop ct owner ?st W1 target = (Some W', st', target')"
        using "1.prems"(1) True by (subst (asm) apply_loop.simps) (auto simp: Let_def split: option.splits)
      show ?thesis by (rule "1.IH"(1) [OF True refl refl None W1 rest "1.prems"(3) [OF "1.prems"(2) W1] "1.prems"(3)])
    next
      case (Some q)
      then have "apply_loop ct owner ?st W (Some (push_operation (en_operation ?en) q)) = (Some W', st', target')"
        using "1.prems"(1) True by (subst (asm) apply_loop.simps) (simp add: Let_def)
      then show ?thesis by (rule "1.IH"(2) [OF True refl refl Some _ "1.prems"(2,3)])
    qed
  next
    case False
    then show ?thesis using "1.prems" by (subst (asm) apply_loop.simps) simp
  qed
qed

lemma apply_or_defer_invariant:
  assumes "apply_or_defer ct owner W target q = (Some W', target', q')" and "P W"
    and "\<And>op W W1. P W \<Longrightarrow> operation_apply ct owner op W = Some W1 \<Longrightarrow> P W1"
  shows "P W'"
  using assms by (auto simp: apply_or_defer_def split: option.splits prod.splits intro: apply_loop_invariant)

text \<open>The worlds that operations and in-place writes lead to from a given one.\<close>

abbreviation leads :: "'v component_trait \<Rightarrow> 'v world_state \<Rightarrow> 'v world_state \<Rightarrow> bool" where
  "leads ct \<equiv> (world_step ct)\<^sup>*\<^sup>*"

lemma reachable_op: "reachable ct s \<Longrightarrow> world_op ct s s' \<Longrightarrow> reachable ct s'"
  by (erule reach_step) (rule ws_op)

lemma leads_op: "leads ct s0 s \<Longrightarrow> world_op ct s s' \<Longrightarrow> leads ct s0 s'"
  by (erule rtranclp.rtrancl_into_rtrancl) (rule ws_op)

lemma leads_reachable: "leads ct s s' \<Longrightarrow> reachable ct s \<Longrightarrow> reachable ct s'"
  by (induction rule: rtranclp_induct) (auto intro: reach_step)

lemma leads_fold:
  assumes "fold_opt f xs W = Some W'" and "leads ct s0 (X, W)"
    and "\<And>x W W1. leads ct s0 (X, W) \<Longrightarrow> f x W = Some W1 \<Longrightarrow> leads ct s0 (X, W1)"
  shows "leads ct s0 (X, W')"
  using fold_opt_invariant [where P = "\<lambda>W. leads ct s0 (X, W)", OF assms(1,2)] assms(3) by blast

lemma operation_leads:
  assumes "leads ct s0 (X, W)" and "operation_apply ct owner op W = Some W'"
  shows "leads ct s0 (X, W')"
proof (cases op)
  case (Derived c)
  then obtain ow where c: "command_apply ct c ow W = Some W'" using assms(2) by (auto elim: bind_SomeE)
  show ?thesis
  proof (cases c)
    case (InsertCommand e ty v)
    then show ?thesis using c by (auto simp: insert_derived_def intro: leads_op [OF assms(1)] ws_insert)
  next
    case (SpawnCommand b reserved)
    then obtain key where "bundle_singleton_key b = Some key" using c by (auto elim!: bind_SomeE)
    moreover obtain e W1 where e: "(case key of None \<Rightarrow> (reserved, W)
        | Some k \<Rightarrow> singleton_entity_or_register k reserved W) = (e, W1)" by (rule prod.exhaust)
    ultimately have ins: "bundle_insert_derived ct b e ow (record_derived_spawn ow e W1) = Some W'"
      using c SpawnCommand by (simp add: Let_def)
    have "leads ct s0 (X, W1)"
      using e assms(1) by (auto split: option.splits intro: leads_op ws_register)
    then have r: "leads ct s0 (X, record_derived_spawn ow e W1)" by (rule leads_op) (rule ws_record)
    show ?thesis
    proof (rule leads_fold [OF ins [unfolded bundle_insert_derived_def] r])
      fix x and W W1 :: "'a world"
      assume "leads ct s0 (X, W)" "(case x of (ty, v) \<Rightarrow> \<lambda>W. insert_derived ct ty e v ow W) W = Some W1"
      then show "leads ct s0 (X, W1)"
        by (cases x) (auto simp: insert_derived_def intro: leads_op [OF _ ws_insert])
    qed
  next
    case (RemoveEntityCommand e)
    then show ?thesis using c by (auto intro: leads_op [OF assms(1)] ws_despawn)
  next
    case (RemoveComponentCommand ty e)
    then show ?thesis using c by (auto intro: leads_op [OF assms(1)] ws_remove)
  qed
next
  case (Base c)
  then show ?thesis using assms(2)
    by (cases c) (auto simp: insert_base_def intro: leads_op [OF assms(1)] ws_insert ws_remove ws_despawn)
qed

lemma operation_emits:
  assumes "operation_apply ct owner op W = Some W'"
  shows "emits W W'"
proof (cases op)
  case (Derived c)
  then obtain ow where c: "command_apply ct c ow W = Some W'" using assms by (auto elim: bind_SomeE)
  show ?thesis
  proof (cases c)
    case (SpawnCommand b reserved)
    then obtain key where "bundle_singleton_key b = Some key" using c by (auto elim!: bind_SomeE)
    moreover obtain e W1 where e: "(case key of None \<Rightarrow> (reserved, W)
        | Some k \<Rightarrow> singleton_entity_or_register k reserved W) = (e, W1)" by (rule prod.exhaust)
    ultimately have ins: "bundle_insert_derived ct b e ow (record_derived_spawn ow e W1) = Some W'"
      using c SpawnCommand by (simp add: Let_def)
    have "emits W W1"
      using e by (auto simp: singleton_entity_or_register_def split: option.splits intro: emits_cong emits_refl)
    moreover have "emits W1 (record_derived_spawn ow e W1)"
      by (rule emits_cong) (simp_all add: record_derived_spawn_def Let_def)
    moreover have "keeps emits (bundle_insert_derived ct b e ow)"
      unfolding bundle_insert_derived_def by (rule emit_books.keeps_fold) (auto simp: emit_books.world_ops_keep)
    ultimately show ?thesis using keepsD [of emits "bundle_insert_derived ct b e ow"] ins emits_trans by blast
  qed (use c in \<open>auto intro: keepsD [OF emit_books.world_ops_keep(2)] keepsD [OF emit_books.world_ops_keep(4)]
      emit_books.remove_entity_keeps\<close>)
next
  case (Base c)
  then show ?thesis using assms
    by (cases c) (auto intro: keepsD [OF emit_books.world_ops_keep(3)] keepsD [OF emit_books.world_ops_keep(4)]
      emit_books.remove_entity_keeps)
qed

lemma remove_derived_entry_emits:
  "remove_derived_entry ct ty e owner W = Some (hit, W') \<Longrightarrow> emits W W'"
  using keepsD [OF emit_books.world_ops_keep(5)] drop_entry_emits [of W ty e] emits_refl emits_trans
  by (auto simp: remove_derived_entry_def Let_def split: option.splits) blast+

lemma remove_derived_stale_emits: "remove_derived_stale ct owner previous W = Some W' \<Longrightarrow> emits W W'"
proof (induction ct owner previous W rule: remove_derived_stale.induct)
  case (2 ct owner ty e previous W)
  then show ?case
    by (auto split: if_splits elim!: bind_SomeE intro: emits_trans [OF remove_derived_entry_emits])
qed (simp add: emits_refl)

lemma replace_outputs_steps:
  assumes "replace_outputs ct defers output st = Some st1"
  obtains W2 W3 where
    "\<And>P. P (snd (take_derived_outputs (so_owner output) (st_world st))) \<Longrightarrow>
      (\<And>op W W1. P W \<Longrightarrow> operation_apply ct (Some (so_owner output)) op W = Some W1 \<Longrightarrow> P W1) \<Longrightarrow> P W2"
    "flush_derived_from ct W2 = Some W3"
    "remove_derived_stale ct (so_owner output) (outputs_of (st_world st) (so_owner output))
       (finish_derived_spawns (so_owner output) W3) = Some (st_world st1)"
    "st_memo st1 = st_memo st" "st_systems st1 = st_systems st"
proof -
  let ?ow = "so_owner output"
  obtain leased storage where l: "lease_deferred defers (st_planning_storage st) = (leased, storage)" by (rule prod.exhaust)
  let ?W1 = "snd (take_derived_outputs ?ow (st_world st))"
  obtain applied target q where a: "apply_or_defer ct (Some ?ow) ?W1 (if defers then Some leased else None) (so_commands output)
      = (applied, target, q)" by (metis prod_cases3)
  obtain W2 W3 W4 where W: "applied = Some W2" "flush_derived_from ct W2 = Some W3"
    "remove_derived_stale ct ?ow (outputs_of (st_world st) ?ow) (finish_derived_spawns ?ow W3) = Some W4"
    and st1: "st_world st1 = W4" "st_memo st1 = st_memo st" "st_systems st1 = st_systems st"
    using assms a unfolding replace_outputs_def
    by (auto simp: Let_def take_derived_outputs_def l elim!: bind_SomeE)
  have "P W2" if "P ?W1" "\<And>op W W1. P W \<Longrightarrow> operation_apply ct (Some ?ow) op W = Some W1 \<Longrightarrow> P W1" for P
    using apply_or_defer_invariant [OF a [unfolded W(1)]] that by blast
  then show thesis by (rule that) (use W st1 in simp_all)
qed

lemma replace_outputs_ok:
  assumes ro: "replace_outputs ct defers output st = Some st1"
  shows "leads ct ({}, st_world st) ({}, st_world st1)"
    and "\<exists>new. w_written_derived (st_world st1) = w_written_derived (st_world st) @ new
      \<and> set (outputs_of (st_world st1) (so_owner output)) \<subseteq> set new"
proof -
  let ?ow = "so_owner output" and ?W = "st_world st"
  let ?W1 = "snd (take_derived_outputs ?ow ?W)" and ?X = "{?ow} \<times> set (outputs_of ?W ?ow)"
  obtain W2 W3 where steps: "\<And>P. P ?W1 \<Longrightarrow> (\<And>op W W1. P W \<Longrightarrow> operation_apply ct (Some ?ow) op W = Some W1 \<Longrightarrow> P W1) \<Longrightarrow> P W2"
    and fl: "flush_derived_from ct W2 = Some W3"
    and stale: "remove_derived_stale ct ?ow (outputs_of ?W ?ow) (finish_derived_spawns ?ow W3) = Some (st_world st1)"
    using replace_outputs_steps [OF ro] by blast
  have "world_op ct ({}, ?W) ({} \<union> ?X, ?W1)" by (rule ws_take) (simp add: take_derived_outputs_def)
  then have "leads ct ({}, ?W) (?X, ?W1)" by (intro leads_op [OF rtranclp.rtrancl_refl]) simp
  then have "leads ct ({}, ?W) (?X, W2)" by (rule steps) (rule operation_leads)
  then have r3: "leads ct ({}, ?W) (?X, finish_derived_spawns ?ow W3)"
    using leads_op [OF _ ws_flush [OF fl]] leads_op [OF _ ws_finish] by blast
  then have "leads ct ({}, ?W) (?X - ?X, st_world st1)" using leads_op [OF _ ws_stale [OF stale]] by blast
  then show "leads ct ({}, ?W) ({}, st_world st1)" by simp
  have "emits ?W1 W2" by (rule steps) (auto intro: emits_refl emits_trans operation_emits)
  moreover have "emits W2 W3" by (rule keepsD [OF emit_books.flush_keeps fl])
  moreover have "emits W3 (finish_derived_spawns ?ow W3)"
    by (rule emits_cong) (simp_all add: finish_derived_spawns_def Let_def split: option.split)
  ultimately have "emits ?W1 (finish_derived_spawns ?ow W3)" by (blast intro: emits_trans)
  then have "emits ?W1 (st_world st1)" using remove_derived_stale_emits [OF stale] by (rule emits_trans)
  then obtain new where "w_written_derived (st_world st1) = w_written_derived ?W1 @ new"
    "\<forall>ow. set (outputs_of (st_world st1) ow) \<subseteq> set (outputs_of ?W1 ow) \<union> set new" unfolding emits_def by blast
  moreover have "outputs_of ?W1 ?ow = []" "w_written_derived ?W1 = w_written_derived ?W"
    using outputs_of_delete [where W = ?W and ow = ?ow and ow' = ?ow] by (simp_all add: take_derived_outputs_def)
  ultimately show "\<exists>new. w_written_derived (st_world st1) = w_written_derived ?W @ new
      \<and> set (outputs_of (st_world st1) ?ow) \<subseteq> set new" by fastforce
qed

text \<open>
  C36. A commit replaces: when an invocation's commands have been applied in a world between
  commits, the world is again one between commits, and every component the invocation owns in it
  was written by this commit; what it wrote before and did not write again is no longer its own.
\<close>

theorem commit_replaces_outputs:
  assumes "reachable ct ({}, st_world st)" and "replace_outputs ct defers output st = Some st1"
  shows "reachable ct ({}, st_world st1)
    \<and> (\<exists>new. w_written_derived (st_world st1) = w_written_derived (st_world st) @ new
        \<and> (\<forall>p. owner_of (st_world st1) p = Some (so_owner output) \<longrightarrow> p \<in> set new))"
proof -
  have r: "reachable ct ({}, st_world st1)" by (rule leads_reachable [OF replace_outputs_ok(1) [OF assms(2)] assms(1)])
  have "owners_inv {} (st_world st1)" using world_okD(3) [OF reachable_ok [OF r]] by simp
  then have "p \<in> set (outputs_of (st_world st1) (so_owner output))"
    if "owner_of (st_world st1) p = Some (so_owner output)" for p using owners_invD(3) that by blast
  then show ?thesis using r replace_outputs_ok(2) [OF assms(2)] by blast
qed

text \<open>The invocation that owned a component of entity 2 now writes one of entity 4.\<close>

theorem commit_replaces_outputs_witness:
  "\<exists>st1. replace_outputs demo_trait False \<lparr>so_owner = demo_owner, so_commands = demo_queue\<rparr> (bowl_new\<lparr>st_world := demo_world\<rparr>) = Some st1
    \<and> owner_of demo_world (UserTy 3, 2) = Some demo_owner \<and> owner_of (st_world st1) (UserTy 3, 2) = None
    \<and> owner_of (st_world st1) (UserTy 0, 4) = Some demo_owner
    \<and> (\<exists>new. w_written_derived (st_world st1) = w_written_derived demo_world @ new \<and> (UserTy 0, 4) \<in> set new)"
proof -
  let ?o = "\<lparr>so_owner = demo_owner, so_commands = demo_queue\<rparr>" and ?st = "bowl_new\<lparr>st_world := demo_world\<rparr>"
  have "map_option (\<lambda>st1. (owner_of (st_world st1) (UserTy 3, 2), owner_of (st_world st1) (UserTy 0, 4)))
      (replace_outputs demo_trait False ?o ?st) = Some (None, Some demo_owner)"
    unfolding demo_world_def by code_simp
  then obtain st1 where st1: "replace_outputs demo_trait False ?o ?st = Some st1"
    "owner_of (st_world st1) (UserTy 3, 2) = None" "owner_of (st_world st1) (UserTy 0, 4) = Some demo_owner" by auto
  have "owner_of demo_world (UserTy 3, 2) = Some demo_owner" unfolding demo_world_def by code_simp
  then show ?thesis
    using st1 commit_replaces_outputs [OF _ st1(1)] demo_world_reachable by auto
qed

section \<open>The budget\<close>

definition budget_cap :: "commit_limit \<Rightarrow> nat" where
  "budget_cap limit = (case limit of Unlimited \<Rightarrow> 2 ^ 64 - 1 | MaxCommits m \<Rightarrow> unat m)"

lemma budget_cap_word: "budget_cap limit < 2 ^ 64"
  using unsigned_less [of "_ :: 64 word"] by (auto simp: budget_cap_def split: commit_limit.split)

lemma budget_record_exact:
  assumes "t \<le> budget_cap limit"
  shows "budget_record n \<lparr>cb_limit = limit, cb_commits = of_nat t\<rparr>
    = (if t + unat n \<le> budget_cap limit then Some \<lparr>cb_limit = limit, cb_commits = of_nat (t + unat n)\<rparr> else None)"
proof -
  have t: "unat (of_nat t :: 64 word) = t" using assms budget_cap_word [of limit] by (simp add: unat_of_nat)
  have le: "of_nat t + n \<le> m \<longleftrightarrow> t + unat n \<le> unat m" if "t + unat n < 2 ^ 64" for m :: "64 word"
    using that by (simp add: word_le_nat_alt unat_word_ariths t)
  show ?thesis
  proof (cases "n = 0")
    case False
    then show ?thesis using le budget_cap_word [of limit]
      by (auto simp: budget_record_def checked_add64_def t budget_cap_def split: commit_limit.split)
  qed (use assms in \<open>simp add: budget_record_def\<close>)
qed

text \<open>
  C38. The budget is exact: recording any sequence of commit counts succeeds iff their sum, taken
  without wrap-around, stays within the limit (within \<open>u64::MAX\<close> without one), and the counter
  then holds that sum; otherwise the evaluation panics.
\<close>

theorem budget_exact:
  "fold_opt budget_record ns (budget_new limit)
    = (if sum_list (map unat ns) \<le> budget_cap limit
       then Some \<lparr>cb_limit = limit, cb_commits = of_nat (sum_list (map unat ns))\<rparr> else None)"
proof -
  have "fold_opt budget_record ns \<lparr>cb_limit = limit, cb_commits = of_nat t\<rparr>
      = (if t + sum_list (map unat ns) \<le> budget_cap limit
         then Some \<lparr>cb_limit = limit, cb_commits = of_nat (t + sum_list (map unat ns))\<rparr> else None)"
    if "t \<le> budget_cap limit" for t
    using that
  proof (induction ns arbitrary: t)
    case (Cons n ns)
    show ?case using Cons.IH [of "t + unat n"] by (simp add: budget_record_exact [OF Cons.prems] add.assoc)
  qed simp
  from this [of 0] show ?thesis by (simp add: budget_new_def)
qed

end
