(* ===== verification/Retirement.thy ===== *)
theory Retirement
  imports Commit_Props Relationships
begin

text \<open>
  The retirement loop of a commit: it returns, and it leaves the least fixed point of the
  ownership graph above the removed entities.
\<close>

section \<open>One sweep\<close>

text \<open>No inverse is an invocation's output.\<close>

definition plain_owned :: "(nat \<Rightarrow> nat option) \<Rightarrow> 'v world \<Rightarrow> bool" where
  "plain_owned kind W \<longleftrightarrow> (\<forall>p ow. owner_of W p = Some ow \<longrightarrow> \<not> is_inverse kind (fst p))"

lemma sweep_rel:
  assumes dict: "relationship_dict kind ct"
    and "world_ok X W" "relationships_ok kind ct W" "outputs_of W owner = []" "\<forall>p\<in>set os. \<not> is_inverse kind (fst p)"
  shows "\<exists>es W'. sweep ct owner os W = Some (es, W') \<and> relationships_ok kind ct W'
    \<and> (\<forall>ty e. \<not> is_inverse kind ty \<longrightarrow> entry_of W' ty e =
        (if (ty, e) \<in> set os \<and> owner_of W (ty, e) = Some owner then None else entry_of W ty e))
    \<and> set es = {e. \<exists>ty. (ty, e) \<in> set os \<and> owner_of W (ty, e) = Some owner}"
  using assms(2-)
proof (induction os arbitrary: X W)
  case Nil
  then show ?case by simp
next
  case (Cons p os)
  obtain ty e where p: "p = (ty, e)" by (rule prod.exhaust)
  have ty: "\<not> is_inverse kind ty" and os: "\<forall>p\<in>set os. \<not> is_inverse kind (fst p)" using Cons.prems(4) by (auto simp: p)
  have out: "(ty, e) \<notin> set (outputs_of W owner)" using Cons.prems(3) by simp
  obtain hit W1 where rd: "remove_derived_entry ct ty e owner W = Some (hit, W1)" and rel1: "relationships_ok kind ct W1"
    and hit: "hit = (owner_of W (ty, e) = Some owner)"
    and en1: "\<forall>ty' e'. \<not> is_inverse kind ty' \<longrightarrow> entry_of W1 ty' e' = (if hit \<and> ty' = ty \<and> e' = e then None else entry_of W ty' e')"
    using remove_derived_entry_rel [OF dict Cons.prems(1,2) ty out] by blast
  note d = remove_derived_entry_ok [OF Cons.prems(1) out rd]
  have emp: "outputs_of W1 owner = []" using d(2) [of owner] Cons.prems(3) by simp
  obtain es W' where sw: "sweep ct owner os W1 = Some (es, W')" "relationships_ok kind ct W'"
    and en: "\<forall>ty e. \<not> is_inverse kind ty \<longrightarrow> entry_of W' ty e =
        (if (ty, e) \<in> set os \<and> owner_of W1 (ty, e) = Some owner then None else entry_of W1 ty e)"
    and es: "set es = {e. \<exists>ty. (ty, e) \<in> set os \<and> owner_of W1 (ty, e) = Some owner}"
    using Cons.IH [OF d(1) rel1 emp os] by blast
  have own1: "owner_of W1 (ty', e') = (if hit \<and> ty' = ty \<and> e' = e then None else owner_of W (ty', e'))"
    if "\<not> is_inverse kind ty'" for ty' e' using en1 that by (simp add: owner_of_def)
  have own1': "owner_of W1 (ty', e') = (if hit \<and> ty' = ty \<and> e' = e then None else owner_of W (ty', e'))"
    if "(ty', e') \<in> set os" for ty' e' using own1 os that by fastforce
  have "set (if hit then e # es else es) = {e'. \<exists>ty'. (ty', e') \<in> set (p # os) \<and> owner_of W (ty', e') = Some owner}"
    using own1' es hit by (auto simp: p split: if_splits)
  moreover have "entry_of W' ty' e' = (if (ty', e') \<in> set (p # os) \<and> owner_of W (ty', e') = Some owner then None else entry_of W ty' e')"
    if "\<not> is_inverse kind ty'" for ty' e'
    using en en1 own1 [OF that, of e'] that hit by (auto simp: p split: if_splits)
  ultimately show ?case using sw rd by (auto simp: p)
qed

lemma relationships_cong: "w_stores W' = w_stores W \<Longrightarrow> relationships_ok kind ct W' = relationships_ok kind ct W"
  using entry_of_stores [of W' W]
  by (simp add: relationships_ok_def reflects_def edge_of_def members_of_def member_list_ok_def has_component_def)

lemma retire_owners_rel:
  assumes dict: "relationship_dict kind ct"
    and "world_ok {} W" "relationships_ok kind ct W" "plain_owned kind W"
  shows "\<exists>es W'. retire_owners ct ows W = Some (es, W') \<and> relationships_ok kind ct W' \<and> plain_owned kind W'
    \<and> (\<forall>ty e. \<not> is_inverse kind ty \<longrightarrow> entry_of W' ty e =
        (if \<exists>ow\<in>set ows. owner_of W (ty, e) = Some ow then None else entry_of W ty e))
    \<and> set es = {e. \<exists>ty. \<exists>ow\<in>set ows. owner_of W (ty, e) = Some ow}"
  using assms(2-)
proof (induction ows arbitrary: W)
  case Nil
  then show ?case by simp
next
  case (Cons owner ows)
  let ?W = "W\<lparr>w_spawns := AList.delete owner (w_spawns W)\<rparr>"
  have ok1: "world_ok {} ?W" by (rule spawns_update_ok [OF Cons.prems(1)])
  have en1: "entry_of ?W = entry_of W" by (rule entry_of_stores) simp
  then have own1: "owner_of ?W = owner_of W" by (simp add: owner_of_def fun_eq_iff)
  have rel1: "relationships_ok kind ct ?W"
    using Cons.prems(2) relationships_cong [of ?W W] by simp
  show ?case
  proof (cases "map_of (w_owners W) owner")
    case None
    then have "owner_of W p \<noteq> Some owner" for p
      using owners_invD(3) [OF world_okD(3) [OF Cons.prems(1)], of p owner] by (auto simp: outputs_of_def)
    moreover have pl1: "plain_owned kind ?W" using Cons.prems(3) by (simp add: plain_owned_def own1)
    obtain es W' where "retire_owners ct ows ?W = Some (es, W')" "relationships_ok kind ct W'" "plain_owned kind W'"
      "\<forall>ty e. \<not> is_inverse kind ty \<longrightarrow> entry_of W' ty e = (if \<exists>ow\<in>set ows. owner_of W (ty, e) = Some ow then None else entry_of W ty e)"
      "set es = {e. \<exists>ty. \<exists>ow\<in>set ows. owner_of W (ty, e) = Some ow}"
      using Cons.IH [OF ok1 rel1 pl1] unfolding en1 own1 by blast
    ultimately show ?thesis using None by simp
  next
    case (Some outputs)
    let ?W1 = "?W\<lparr>w_owners := AList.delete owner (w_owners ?W)\<rparr>"
    have o: "outputs_of ?W owner = outputs" using Some by (simp add: outputs_of_def)
    have en2: "entry_of ?W1 = entry_of W" using entry_of_stores [of ?W1 W] by simp
    then have own2: "owner_of ?W1 = owner_of W" by (simp add: owner_of_def fun_eq_iff)
    have ok2: "world_ok ({owner} \<times> set outputs) ?W1" using take_outputs_ok [OF ok1, of owner] o by simp
    have rel2: "relationships_ok kind ct ?W1"
      using rel1 relationships_cong [of ?W1 ?W] by simp
    have emp: "outputs_of ?W1 owner = []" by (subst outputs_of_delete) simp
    have owned: "p \<in> set outputs \<longleftrightarrow> owner_of W p = Some owner" for p
      using owners_invD(2,3) [OF world_okD(3) [OF ok1], of p owner] by (auto simp: o own1)
    have plain: "\<forall>p\<in>set outputs. \<not> is_inverse kind (fst p)" using owned Cons.prems(3) unfolding plain_owned_def by blast
    obtain es W2 where sw: "sweep ct owner outputs ?W1 = Some (es, W2)" "relationships_ok kind ct W2"
      and en: "\<forall>ty e. \<not> is_inverse kind ty \<longrightarrow> entry_of W2 ty e = (if owner_of W (ty, e) = Some owner then None else entry_of W ty e)"
      and es: "set es = {e. \<exists>ty. owner_of W (ty, e) = Some owner}"
      using sweep_rel [OF dict ok2 rel2 emp plain] unfolding owned own2 en2 by auto
    note ts = take_sweep_ok [OF ok1 _ sw(1)]
    have ok3: "world_ok {} W2" using ts(1) Some by simp
    have own: "owner_of W2 p = Some ow \<longleftrightarrow> owner_of W p = Some ow \<and> ow \<noteq> owner" for p ow
    proof
      show "owner_of W2 p = Some ow \<Longrightarrow> owner_of W p = Some ow \<and> ow \<noteq> owner"
        using ts(4) [of p ow] Some owned by (auto simp: own1)
      assume a: "owner_of W p = Some ow \<and> ow \<noteq> owner"
      then have "\<not> is_inverse kind (fst p)" using Cons.prems(3) unfolding plain_owned_def by blast
      then show "owner_of W2 p = Some ow" using a en by (cases p) (simp add: owner_of_def)
    qed
    then have pl: "plain_owned kind W2" using Cons.prems(3) unfolding plain_owned_def by blast
    obtain es' W' where rec: "retire_owners ct ows W2 = Some (es', W')" "relationships_ok kind ct W'" "plain_owned kind W'"
      "\<forall>ty e. \<not> is_inverse kind ty \<longrightarrow> entry_of W' ty e =
        (if \<exists>ow\<in>set ows. owner_of W2 (ty, e) = Some ow then None else entry_of W2 ty e)"
      "set es' = {e. \<exists>ty. \<exists>ow\<in>set ows. owner_of W2 (ty, e) = Some ow}"
      using Cons.IH [OF ok3 sw(2) pl] by blast
    have "retire_owners ct (owner # ows) W = Some (es @ es', W')" using Some sw(1) rec(1) by simp
    moreover have "set (es @ es') = {e. \<exists>ty. \<exists>ow\<in>set (owner # ows). owner_of W (ty, e) = Some ow}"
      using es rec(5) own by auto
    moreover have "entry_of W' ty e = (if \<exists>ow\<in>set (owner # ows). owner_of W (ty, e) = Some ow then None else entry_of W ty e)"
      if "\<not> is_inverse kind ty" for ty e using rec(4) en own that by auto
    ultimately show ?thesis using rec(2,3) by blast
  qed
qed

section \<open>The fixed point\<close>

definition selected :: "nat set option \<Rightarrow> system_invocation \<Rightarrow> bool" where
  "selected systems ow \<longleftrightarrow> (case systems of None \<Rightarrow> True | Some ss \<Rightarrow> inv_system ow \<in> ss)"

text \<open>
  The keys that are doomed: the roots, and the entity of every output of a selected invocation
  one of whose keys is doomed.
\<close>

inductive_set doomed :: "'v world \<Rightarrow> nat set option \<Rightarrow> entity set \<Rightarrow> entity set"
  for W systems roots where
  doomed_root: "e \<in> roots \<Longrightarrow> e \<in> doomed W systems roots"
| doomed_output: "owner_of W (ty, e) = Some ow \<Longrightarrow> selected systems ow \<Longrightarrow> k \<in> set (inv_keys ow) \<Longrightarrow>
    k \<in> doomed W systems roots \<Longrightarrow> e \<in> doomed W systems roots"

lemma owner_touched_iff: "owner_touched D systems ow \<longleftrightarrow> selected systems ow \<and> (\<exists>k\<in>set (inv_keys ow). k \<in> D)"
  by (auto simp: owner_touched_def selected_def list_ex_iff)

lemma touched_Un: "owner_touched (D \<union> E) systems ow \<longleftrightarrow> owner_touched D systems ow \<or> owner_touched E systems ow"
  by (auto simp: owner_touched_iff)

lemma doomed_touched: "owner_of W (ty, e) = Some ow \<Longrightarrow> owner_touched (doomed W systems roots) systems ow \<Longrightarrow>
    e \<in> doomed W systems roots"
  by (auto simp: owner_touched_iff intro: doomed_output)

text \<open>A set of keys above the roots and closed under the outputs is all of them.\<close>

lemma doomed_least:
  assumes "roots \<subseteq> D" and "\<And>ty e ow. owner_of W (ty, e) = Some ow \<Longrightarrow> owner_touched D systems ow \<Longrightarrow> e \<in> D"
  shows "doomed W systems roots \<subseteq> D"
proof
  show "e \<in> D" if "e \<in> doomed W systems roots" for e
    using that
  proof induction
    case (doomed_root e)
    then show ?case using assms(1) by blast
  next
    case (doomed_output ty e ow k)
    then show ?case using assms(2) [OF doomed_output(1)] by (auto simp: owner_touched_iff)
  qed
qed

lemma touched_rel:
  assumes "relationship_dict kind ct" and r: "reachable ct ({}, W)" and "relationships_ok kind ct W" "plain_owned kind W"
  obtains removed W' where "remove_derived_touched_by_systems ct D systems W = Some (removed, W')"
    "reachable ct ({}, W')" "relationships_ok kind ct W'" "plain_owned kind W'"
    "\<And>ty e. \<not> is_inverse kind ty \<Longrightarrow> entry_of W' ty e =
      (if \<exists>ow. owner_of W (ty, e) = Some ow \<and> owner_touched D systems ow then None else entry_of W ty e)"
    "set removed = {e. \<exists>ty ow. owner_of W (ty, e) = Some ow \<and> owner_touched D systems ow}"
    "\<And>p ow. owner_of W' p = Some ow \<longleftrightarrow> owner_of W p = Some ow \<and> \<not> owner_touched D systems ow"
proof -
  note ok = reachable_ok [OF r, simplified]
  let ?ows = "filter (owner_touched D systems) (map fst (w_owners W))"
  have listed: "ow \<in> fst ` set (w_owners W)" if "owner_of W p = Some ow" for p ow
  proof -
    have "p \<in> set (outputs_of W ow)" using owners_invD(3) [OF world_okD(3) [OF ok] that] by simp
    then show ?thesis by (cases "map_of (w_owners W) ow") (auto simp: outputs_of_def dest: map_of_SomeD intro: rev_image_eqI)
  qed
  then have sel: "(\<exists>ow\<in>set ?ows. owner_of W p = Some ow) \<longleftrightarrow> (\<exists>ow. owner_of W p = Some ow \<and> owner_touched D systems ow)" for p
    using listed [of p] by fastforce
  obtain removed W' where rt: "retire_owners ct ?ows W = Some (removed, W')" "relationships_ok kind ct W'" "plain_owned kind W'"
    "\<forall>ty e. \<not> is_inverse kind ty \<longrightarrow> entry_of W' ty e =
        (if \<exists>ow\<in>set ?ows. owner_of W (ty, e) = Some ow then None else entry_of W ty e)"
    "set removed = {e. \<exists>ty. \<exists>ow\<in>set ?ows. owner_of W (ty, e) = Some ow}"
    using retire_owners_rel [OF assms(1) ok assms(3,4), of ?ows] by blast
  have t: "remove_derived_touched_by_systems ct D systems W = Some (removed, W')"
    using rt(1) by (simp add: remove_derived_touched_by_systems_def)
  have r': "reachable ct ({}, W')" using reachable_op [OF r ws_touched [OF t]] .
  have en: "entry_of W' ty e = (if \<exists>ow. owner_of W (ty, e) = Some ow \<and> owner_touched D systems ow then None else entry_of W ty e)"
    if "\<not> is_inverse kind ty" for ty e using rt(4) that unfolding sel by blast
  have own: "owner_of W' p = Some ow \<longleftrightarrow> owner_of W p = Some ow \<and> \<not> owner_touched D systems ow" for p ow
  proof (cases "is_inverse kind (fst p)")
    case True
    then show ?thesis using rt(3) assms(4) unfolding plain_owned_def by blast
  next
    case False
    then show ?thesis using en [of "fst p" "snd p"] by (auto simp: owner_of_def)
  qed
  show thesis by (rule that [OF t r' rt(2,3) en _ own]) (use rt(5) sel in auto)
qed

text \<open>What the loop has retired when the keys \<open>D\<close> are done.\<close>

definition retired_below :: "(nat \<Rightarrow> nat option) \<Rightarrow> nat set option \<Rightarrow> entity set \<Rightarrow> 'v world \<Rightarrow> 'v world \<Rightarrow> bool" where
  "retired_below kind systems D W W' \<longleftrightarrow>
     (\<forall>ty e. \<not> is_inverse kind ty \<longrightarrow> entry_of W' ty e =
        (if \<exists>ow. owner_of W (ty, e) = Some ow \<and> owner_touched D systems ow then None else entry_of W ty e))
     \<and> (\<forall>p ow. owner_of W' p = Some ow \<longleftrightarrow> owner_of W p = Some ow \<and> \<not> owner_touched D systems ow)"

definition live_memo :: "entity set \<Rightarrow> memo_table \<Rightarrow> memo_table" where
  "live_memo D memo = filter (\<lambda>(ow, _). \<not> list_ex (\<lambda>k. k \<in> D) (inv_keys ow)) memo"

lemma live_memo_step: "remove_memo_touched_by F (live_memo D memo) = live_memo (D \<union> set F) memo"
  by (auto simp: remove_memo_touched_by_def live_memo_def list_ex_iff intro!: filter_cong)

definition busy_owners :: "'v world \<Rightarrow> nat" where
  "busy_owners W = card {ow. \<exists>p. owner_of W p = Some ow}"

lemma busy_finite: "world_ok {} W \<Longrightarrow> finite {ow. \<exists>p. owner_of W p = Some ow}"
proof (rule finite_subset)
  assume ok: "world_ok {} W"
  show "{ow. \<exists>p. owner_of W p = Some ow} \<subseteq> fst ` set (w_owners W)"
  proof safe
    fix ow ty e assume "owner_of W (ty, e) = Some ow"
    then have "(ty, e) \<in> set (outputs_of W ow)" using owners_invD(3) [OF world_okD(3) [OF ok]] by blast
    then show "ow \<in> fst ` set (w_owners W)"
      by (cases "map_of (w_owners W) ow") (auto simp: outputs_of_def dest: map_of_SomeD intro: rev_image_eqI)
  qed
qed simp

text \<open>
  Where the loop stands: the keys \<open>D\<close> are done in \<open>W1\<close>, those of the frontier are to do, and
  every output retired so far hangs on a key of one or the other.
\<close>

definition sweeping :: "(nat \<Rightarrow> nat option) \<Rightarrow> 'v component_trait \<Rightarrow> nat set option \<Rightarrow> entity set \<Rightarrow> 'v world \<Rightarrow>
    entity set \<Rightarrow> entity set \<Rightarrow> entity set \<Rightarrow> 'v world \<Rightarrow> bool" where
  "sweeping kind ct systems roots W D F S W1 \<longleftrightarrow>
     reachable ct ({}, W1) \<and> relationships_ok kind ct W1 \<and> plain_owned kind W1
     \<and> retired_below kind systems D W W1
     \<and> roots \<subseteq> D \<union> F \<and> D \<union> F \<subseteq> doomed W systems roots \<and> S \<subseteq> D \<union> F
     \<and> (\<forall>ty e ow. owner_of W (ty, e) = Some ow \<longrightarrow> owner_touched D systems ow \<longrightarrow> e \<in> D \<union> F)"

lemma sweepingD:
  assumes "sweeping kind ct systems roots W D F S W1"
  shows "reachable ct ({}, W1)" "relationships_ok kind ct W1" "plain_owned kind W1"
    and "retired_below kind systems D W W1" "roots \<subseteq> D \<union> F" "D \<union> F \<subseteq> doomed W systems roots" "S \<subseteq> D \<union> F"
    and "owner_of W (ty, e) = Some ow \<Longrightarrow> owner_touched D systems ow \<Longrightarrow> e \<in> D \<union> F"
  using assms unfolding sweeping_def by blast+

lemma retired_below_owner:
  "retired_below kind systems D W W1 \<Longrightarrow>
    owner_of W1 p = Some ow \<longleftrightarrow> owner_of W p = Some ow \<and> \<not> owner_touched D systems ow"
  unfolding retired_below_def by blast

lemma sweeping_done:
  assumes "sweeping kind ct systems roots W D {} S W1"
  shows "D = doomed W systems roots"
proof
  show "D \<subseteq> doomed W systems roots" using sweepingD(6) [OF assms] by simp
  show "doomed W systems roots \<subseteq> D"
    by (rule doomed_least) (use sweepingD(5,8) [OF assms] in auto)
qed

lemma retired_below_step:
  assumes below: "retired_below kind systems D W W1"
    and en: "\<And>ty e. \<not> is_inverse kind ty \<Longrightarrow> entry_of W2 ty e =
      (if \<exists>ow. owner_of W1 (ty, e) = Some ow \<and> owner_touched F systems ow then None else entry_of W1 ty e)"
    and own: "\<And>p ow. owner_of W2 p = Some ow \<longleftrightarrow> owner_of W1 p = Some ow \<and> \<not> owner_touched F systems ow"
  shows "retired_below kind systems (D \<union> F) W W2"
  unfolding retired_below_def
proof (intro conjI allI impI)
  fix ty e assume "\<not> is_inverse kind ty"
  then have "entry_of W1 ty e = (if \<exists>ow. owner_of W (ty, e) = Some ow \<and> owner_touched D systems ow then None else entry_of W ty e)"
    "entry_of W2 ty e = (if \<exists>ow. owner_of W1 (ty, e) = Some ow \<and> owner_touched F systems ow then None else entry_of W1 ty e)"
    by (rule below [unfolded retired_below_def, THEN conjunct1, rule_format], rule en)
  then show "entry_of W2 ty e = (if \<exists>ow. owner_of W (ty, e) = Some ow \<and> owner_touched (D \<union> F) systems ow then None else entry_of W ty e)"
    by (cases "owner_of W (ty, e)") (simp_all add: retired_below_owner [OF below] touched_Un)
next
  show "owner_of W2 p = Some ow \<longleftrightarrow> owner_of W p = Some ow \<and> \<not> owner_touched (D \<union> F) systems ow" for p ow
    unfolding own retired_below_owner [OF below] touched_Un by blast
qed

lemma sweeping_step:
  assumes "relationship_dict kind ct" and s: "sweeping kind ct systems roots W D F S W1"
  obtains removed W2 where "remove_derived_touched_by_systems ct F systems W1 = Some (removed, W2)"
    "set removed = {e. \<exists>ty ow. owner_of W1 (ty, e) = Some ow \<and> owner_touched F systems ow}"
    "\<And>p ow. owner_of W2 p = Some ow \<longleftrightarrow> owner_of W1 p = Some ow \<and> \<not> owner_touched F systems ow"
    "sweeping kind ct systems roots W (D \<union> F) (set removed - S) (set removed \<union> S) W2"
proof -
  note s' = sweepingD [OF s]
  obtain removed W2 where t: "remove_derived_touched_by_systems ct F systems W1 = Some (removed, W2)"
    "reachable ct ({}, W2)" "relationships_ok kind ct W2" "plain_owned kind W2"
    and en: "\<And>ty e. \<not> is_inverse kind ty \<Longrightarrow> entry_of W2 ty e =
      (if \<exists>ow. owner_of W1 (ty, e) = Some ow \<and> owner_touched F systems ow then None else entry_of W1 ty e)"
    and rm: "set removed = {e. \<exists>ty ow. owner_of W1 (ty, e) = Some ow \<and> owner_touched F systems ow}"
    and own: "\<And>p ow. owner_of W2 p = Some ow \<longleftrightarrow> owner_of W1 p = Some ow \<and> \<not> owner_touched F systems ow"
    by (rule touched_rel [OF assms(1) s'(1-3), of F systems]) (rule that, assumption+)
  note own1 = retired_below_owner [OF s'(4)]
  have below: "retired_below kind systems (D \<union> F) W W2" using s'(4) en own by (rule retired_below_step)
  have up: "owner_touched (doomed W systems roots) systems ow" if "owner_touched F systems ow" for ow
    using that s'(6) by (auto simp: owner_touched_iff)
  have fresh: "set removed \<subseteq> doomed W systems roots"
    using own1 up doomed_touched unfolding rm by blast
  have closed: "e \<in> (D \<union> F) \<union> (set removed - S)" if "owner_of W (ty, e) = Some ow" "owner_touched (D \<union> F) systems ow" for ty e ow
  proof (cases "owner_touched D systems ow")
    case False
    then have "e \<in> set removed" using that by (auto simp: rm own1 touched_Un)
    then show ?thesis using s'(7) by auto
  qed (use s'(8) [OF that(1)] in blast)
  have "sweeping kind ct systems roots W (D \<union> F) (set removed - S) (set removed \<union> S) W2"
    unfolding sweeping_def using t(2-4) below s'(5-7) fresh closed by blast
  then show thesis using that [OF t(1) rm own] by blast
qed

lemma busy_step:
  assumes "world_ok {} W1"
    and own: "\<And>p ow. owner_of W2 p = Some ow \<longleftrightarrow> owner_of W1 p = Some ow \<and> \<not> owner_touched F systems ow"
  shows "busy_owners W2 \<le> busy_owners W1"
    and "owner_of W1 p = Some ow \<Longrightarrow> owner_touched F systems ow \<Longrightarrow> busy_owners W2 < busy_owners W1"
  unfolding busy_owners_def
  by (rule card_mono [OF busy_finite [OF assms(1)]], use own in blast,
      rule psubset_card_mono [OF busy_finite [OF assms(1)]], use own in blast)

text \<open>Each turn retires an owner or empties the frontier.\<close>

lemma retire_loop_spec:
  assumes dict: "relationship_dict kind ct" and "sweeping kind ct systems roots W D (set frontier) (set seen) W1"
  shows "\<exists>W'. retire_loop ct systems frontier seen b (live_memo D memo) W1
      = Some (b \<or> (\<exists>p ow. owner_of W1 p = Some ow \<and> owner_touched (doomed W systems roots) systems ow),
          live_memo (doomed W systems roots) memo, W')
    \<and> sweeping kind ct systems roots W (doomed W systems roots) {} {} W'"
  using assms(2)
proof (induction "2 * busy_owners W1 + (if frontier = [] then 0 else 1)" arbitrary: W1 D frontier seen b rule: less_induct)
  case less
  let ?Z = "doomed W systems roots"
  note s = sweepingD [OF less.prems]
  show ?case
  proof (cases "frontier = []")
    case True
    then have Z: "D = ?Z" using sweeping_done less.prems by fastforce
    have b: "(b \<or> (\<exists>p ow. owner_of W1 p = Some ow \<and> owner_touched ?Z systems ow)) = b"
      using retired_below_owner [OF s(4)] Z by blast
    have r: "retire_loop ct systems frontier seen b (live_memo D memo) W1 = Some (b, live_memo D memo, W1)"
      by (subst retire_loop.simps) (simp add: True)
    have "sweeping kind ct systems roots W D {} {} W1" using less.prems True by (simp add: sweeping_def)
    then show ?thesis unfolding b using r by (intro exI [of _ W1]) (simp add: Z [symmetric])
  next
    case False
    obtain removed W2 where t: "remove_derived_touched_by_systems ct (set frontier) systems W1 = Some (removed, W2)"
      and rm: "set removed = {e. \<exists>ty ow. owner_of W1 (ty, e) = Some ow \<and> owner_touched (set frontier) systems ow}"
      and own: "\<And>p ow. owner_of W2 p = Some ow \<longleftrightarrow> owner_of W1 p = Some ow \<and> \<not> owner_touched (set frontier) systems ow"
      and s2: "sweeping kind ct systems roots W (D \<union> set frontier) (set removed - set seen) (set removed \<union> set seen) W2"
      by (rule sweeping_step [OF dict less.prems]) (rule that)
    let ?fresh = "remdups (filter (\<lambda>e. e \<notin> set seen) removed)" and ?D = "D \<union> set frontier"
    have s3: "sweeping kind ct systems roots W ?D (set ?fresh) (set (?fresh @ seen)) W2"
    proof -
      have "set ?fresh = set removed - set seen" "set (?fresh @ seen) = set removed \<union> set seen" by auto
      then show ?thesis using s2 by (simp only:)
    qed
    have step: "retire_loop ct systems frontier seen b (live_memo D memo) W1
        = retire_loop ct systems ?fresh (?fresh @ seen) (b \<or> removed \<noteq> []) (live_memo ?D memo) W2"
      by (subst retire_loop.simps) (simp add: False t live_memo_step Let_def)
    have hit: "removed \<noteq> [] \<longleftrightarrow> (\<exists>p ow. owner_of W1 p = Some ow \<and> owner_touched (set frontier) systems ow)"
      using rm by (auto simp: set_empty [symmetric] simp del: set_empty)
    have up: "owner_touched ?Z systems ow" if "owner_touched (set frontier) systems ow" for ow
      using that s(6) by (auto simp: owner_touched_iff)
    have g: "(b \<or> (\<exists>p ow. owner_of W1 p = Some ow \<and> owner_touched ?Z systems ow))
        = ((b \<or> removed \<noteq> []) \<or> (\<exists>p ow. owner_of W2 p = Some ow \<and> owner_touched ?Z systems ow))"
      unfolding hit own using up by blast
    have ok: "world_ok {} W1" using reachable_ok [OF s(1)] by simp
    have "busy_owners W2 < busy_owners W1" if "?fresh \<noteq> []"
    proof -
      have "removed \<noteq> []" using that by auto
      then show ?thesis unfolding hit using busy_step(2) [OF ok own] by blast
    qed
    then have "2 * busy_owners W2 + (if ?fresh = [] then 0 else 1) < 2 * busy_owners W1 + (if frontier = [] then 0 else 1)"
      using busy_step(1) [OF ok own] False by (cases "?fresh = []") auto
    from less.hyps [OF this s3] show ?thesis unfolding step g .
  qed
qed

text \<open>
  C37. Retirement returns, and retires exactly what is doomed: from any roots the loop ends, and
  in the world it leaves every component owned by a selected invocation one of whose keys is a
  root, or the entity of such an invocation's output, and so on, is gone, every other one is as
  it was, the memo forgets exactly the invocations with a doomed key, and the loop reports
  whether anything was retired.
\<close>

theorem retirement_returns:
  assumes "relationship_dict kind ct" and "reachable ct ({}, W)" "relationships_ok kind ct W" "plain_owned kind W"
    and "set seen \<subseteq> set roots"
  shows "\<exists>W'. retire_loop ct systems roots seen gone memo W
      = Some (gone \<or> (\<exists>p ow. owner_of W p = Some ow \<and> owner_touched (doomed W systems (set roots)) systems ow),
          live_memo (doomed W systems (set roots)) memo, W')
    \<and> reachable ct ({}, W') \<and> relationships_ok kind ct W'
    \<and> (\<forall>ty e. \<not> is_inverse kind ty \<longrightarrow> entry_of W' ty e =
        (if \<exists>ow. owner_of W (ty, e) = Some ow \<and> owner_touched (doomed W systems (set roots)) systems ow
         then None else entry_of W ty e))"
proof -
  have none: "\<not> owner_touched {} systems ow" for ow by (simp add: owner_touched_iff)
  have "sweeping kind ct systems (set roots) W {} (set roots) (set seen) W"
    using assms(2-5) by (auto simp: sweeping_def retired_below_def none intro: doomed_root)
  from retire_loop_spec [OF assms(1) this, of gone memo] obtain W' where
    "retire_loop ct systems roots seen gone (live_memo {} memo) W
      = Some (gone \<or> (\<exists>p ow. owner_of W p = Some ow \<and> owner_touched (doomed W systems (set roots)) systems ow),
          live_memo (doomed W systems (set roots)) memo, W')"
    "sweeping kind ct systems (set roots) W (doomed W systems (set roots)) {} {} W'" by blast
  moreover have "live_memo {} memo = memo" by (simp add: live_memo_def list_ex_iff)
  ultimately show ?thesis
    using sweepingD(1-4) [of kind ct systems "set roots" W "doomed W systems (set roots)" "{}" "{}" W']
    unfolding retired_below_def by (intro exI [of _ W']) simp
qed

text \<open>Entity 1 goes: the component its invocation wrote on entity 2 goes with it.\<close>

theorem retirement_returns_witness:
  "\<exists>W'. retire_loop demo_trait None [1] [1] False [] demo_world = Some (True, [], W')
    \<and> entry_of demo_world (UserTy 3) 2 \<noteq> None \<and> entry_of W' (UserTy 3) 2 = None
    \<and> entry_of W' (UserTy 0) 1 = entry_of demo_world (UserTy 0) 1"
proof -
  let ?k = "\<lambda>n. ci_edge (demo_impls n)"
  have own: "map (\<lambda>p. (p, owner_of demo_world p)) [(UserTy 3, 2), (UserTy 0, 1)]
      = [((UserTy 3, 2), Some demo_owner), ((UserTy 0, 1), None)]" "w_owners demo_world = [(demo_owner, [(UserTy 3, 2)])]"
    unfolding demo_world_def by code_simp+
  have outs: "owner_of demo_world p = Some ow \<Longrightarrow> p = (UserTy 3, 2) \<and> ow = demo_owner" for p ow
    using owners_invD(3) [OF world_okD(3) [OF reachable_ok [OF demo_world_reachable, simplified]], of p ow] own(2)
    by (auto simp: outputs_of_def split: if_splits)
  have plain: "plain_owned ?k demo_world"
    unfolding plain_owned_def using outs by (fastforce simp: demo_inverse)
  have "1 \<in> doomed demo_world None (set [1])" by (rule doomed_root) simp
  then have dead: "owner_touched (doomed demo_world None (set [1])) None demo_owner"
    by (simp add: owner_touched_iff selected_def demo_owner_def)
  have hit: "(False \<or> (\<exists>p ow. owner_of demo_world p = Some ow \<and> owner_touched (doomed demo_world None (set [1])) None ow)) = True"
    using own(1) dead by auto
  obtain W' where W': "retire_loop demo_trait None [1] [1] False [] demo_world
      = Some (True, live_memo (doomed demo_world None (set [1])) [], W')"
    "\<forall>ty e. \<not> is_inverse ?k ty \<longrightarrow> entry_of W' ty e =
        (if \<exists>ow. owner_of demo_world (ty, e) = Some ow \<and> owner_touched (doomed demo_world None (set [1])) None ow
         then None else entry_of demo_world ty e)"
    using retirement_returns [where systems = None and gone = False and memo = "[]", OF demo_dict demo_world_reachable demo_world_relationships plain order.refl [of "set [1]"]]
    unfolding hit by blast
  have "entry_of demo_world (UserTy 3) 2 \<noteq> None" using own(1) by (auto simp: owner_of_def elim: bind_SomeE)
  then show ?thesis using W' own(1) dead by (auto simp: live_memo_def demo_inverse)
qed

end
