(* ===== verification/Engine.thy ===== *)
theory Engine
  imports Commit_Props
begin

text \<open>
  Generations and epochs (bowl.rs): the state shared by the callers of a bowl, the inputs they
  queue, the preemption protocol, the start, completion and abandonment of a generation, the
  sections of a settle, and the removal of bound entities.

  A definition here is what runs under one acquisition of the state lock; between two of them
  any other caller may run.  Wakers and channels carry no data: a waiter that is woken takes the
  lock and looks again, so a step may be taken at any time and only the lists of registered
  senders are kept.  Counters of 64 bits are natural numbers.  A queue that is dropped returns
  its storage, empty, to the pool; that is left out, since a leased queue is empty in any case.
  A panic is \<open>None\<close>.
\<close>

section \<open>The shared state and the callers\<close>

text \<open>What a caller waits to do at a boundary; a mutation may name the revision it expects.\<close>

datatype 'v wait_call =
    QueueInput "'v command_queue"
  | MutateComponent type_id entity "'v cvalue \<Rightarrow> 'v cvalue" "nat option option"

record 'v waiter =
  wt_registered :: bool
  wt_deferred :: bool
  wt_call :: "'v wait_call"

text \<open>
  \<open>Inner\<close>, and what the futures of its callers own: the driver's guard with the generation and
  the memo, the watermarks of the settles in progress, the calls waiting for a boundary, and the
  memos held by the settled hooks and settle phases in progress.
\<close>

record 'v engine =
  eg_state :: "'v state"
  eg_completed :: nat
  eg_settled_read :: "'v world option"
  eg_commit_limit :: commit_limit
  eg_healing :: bool
  eg_phases :: "8 word"
  eg_cleanup :: "entity list"
  eg_preempt_waiters :: nat
  eg_guard :: "(nat \<times> memo_table) option"
  eg_epochs :: "nat list"
  eg_waiting :: "'v waiter list"
  eg_hook_memos :: "memo_table list"

definition inner_new :: "'v engine" where
  "inner_new = \<lparr>eg_state = bowl_new, eg_completed = 0, eg_settled_read = None, eg_commit_limit = MaxCommits 10000,
     eg_healing = False, eg_phases = 0, eg_cleanup = [], eg_preempt_waiters = 0, eg_guard = None, eg_epochs = [],
     eg_waiting = [], eg_hook_memos = []\<rparr>"

abbreviation on_state :: "('v state \<Rightarrow> 'v state) \<Rightarrow> 'v engine \<Rightarrow> 'v engine" where
  "on_state f E \<equiv> E\<lparr>eg_state := f (eg_state E)\<rparr>"

section \<open>Snapshots\<close>

definition snapshot_key :: "'v world \<Rightarrow> nat \<times> nat \<times> nat" where
  "snapshot_key W = (w_next_entity W, w_revision W, w_mutations W)"

definition snapshot_fresh :: "'v state \<Rightarrow> ('v world \<times> 'v state) option" where
  "snapshot_fresh st = map_option (\<lambda>W. (W, st\<lparr>st_snapshot_cache := Some (snapshot_key (st_world st), W)\<rparr>))
     (world_snapshot (st_world st))"

definition snapshot_locked :: "'v state \<Rightarrow> ('v world \<times> 'v state) option" where
  "snapshot_locked st = (case st_snapshot_cache st of
     Some (k, W) \<Rightarrow> if k = snapshot_key (st_world st) then Some (W, st) else snapshot_fresh st
   | None \<Rightarrow> snapshot_fresh st)"

definition refresh_settled_snapshot :: "'v engine \<Rightarrow> 'v engine option" where
  "refresh_settled_snapshot E = map_option (\<lambda>(W, st). E\<lparr>eg_state := st\<lparr>st_settled_snapshot := Some W\<rparr>, eg_settled_read := Some W\<rparr>)
     (snapshot_locked (eg_state E))"

definition publish_settled_revision :: "'v state \<Rightarrow> 'v state" where
  "publish_settled_revision st = (let revision = w_revision (st_world st) in
     if st_settled_revision st \<noteq> revision
     then st\<lparr>st_settled_revision := revision, st_settle_epoch := st_settle_epoch st + 1\<rparr> else st)"

definition bowl_is_settled :: "'v state \<Rightarrow> bool" where
  "bowl_is_settled st \<longleftrightarrow> st_pending st = None \<and> st_running st = None \<and> w_revision (st_world st) = st_settled_revision st"

section \<open>Inputs\<close>

definition enqueue_next_generation :: "'v state \<Rightarrow> 'v state" where
  "enqueue_next_generation st = (if st_pending st = None then st\<lparr>st_pending := Some (st_next st)\<rparr> else st)"

text \<open>\<open>pending_inputs.append\<close> and \<open>get_or_insert\<close>: the generation that will drain the input.\<close>

definition queue_pending :: "'v command_queue \<Rightarrow> 'v state \<Rightarrow> nat \<times> 'v state" where
  "queue_pending commands st =
     (let st1 = enqueue_next_generation (st\<lparr>st_pending_inputs := fst (queue_append (st_pending_inputs st) commands)\<rparr>)
      in (the (st_pending st1), st1))"

text \<open>What the first section of an input reports.\<close>

datatype input_outcome = Queued nat | DeferredTo nat | MustWait

definition submit_input :: "bool \<Rightarrow> 'v command_queue \<Rightarrow> 'v state \<Rightarrow> input_outcome \<times> 'v state" where
  "submit_input preempting commands st =
     (if st_settling st = 0 then (let (g, st1) = queue_pending commands st in (Queued g, st1))
      else if \<not> preempting then (let tag = st_input_seq st + 1 in
        (DeferredTo (st_completed st), st\<lparr>st_input_seq := tag, st_deferred_inputs := st_deferred_inputs st @ [(tag, commands)]\<rparr>))
      else (MustWait, st))"

text \<open>A call that must wait becomes a waiter that may preempt.\<close>

definition submit :: "bool \<Rightarrow> 'v command_queue \<Rightarrow> 'v engine \<Rightarrow> input_outcome \<times> 'v engine" where
  "submit preempting commands E = (let (res, st) = submit_input preempting commands (eg_state E); E1 = E\<lparr>eg_state := st\<rparr>
     in (res, if res = MustWait
          then E1\<lparr>eg_waiting := eg_waiting E1 @ [\<lparr>wt_registered = False, wt_deferred = False, wt_call = QueueInput commands\<rparr>]\<rparr> else E1))"

definition despawn_inner :: "entity \<Rightarrow> bool \<Rightarrow> 'v engine \<Rightarrow> input_outcome \<times> 'v engine" where
  "despawn_inner e preempting = submit preempting (base_push (DespawnBaseCommand e) queue_default)"

definition remove_component_inner :: "type_id \<Rightarrow> entity \<Rightarrow> bool \<Rightarrow> 'v engine \<Rightarrow> input_outcome \<times> 'v engine" where
  "remove_component_inner ty e preempting = submit preempting (base_push (RemoveComponentBaseCommand ty e) queue_default)"

definition insert_target :: "'v component_bundle \<Rightarrow> entity option \<Rightarrow> 'v world \<Rightarrow> (entity \<times> 'v world) option" where
  "insert_target b target W = (case target of Some e \<Rightarrow> Some (e, W)
     | None \<Rightarrow> map_option (\<lambda>key. case key of None \<Rightarrow> spawn_empty W | Some k \<Rightarrow> singleton_entity_or_spawn k W)
         (bundle_singleton_key b))"

definition stage_commands :: "'v state \<Rightarrow> 'v command_queue \<times> 'v state" where
  "stage_commands st = (case st_planning_storage st of
     None \<Rightarrow> (queue_default, st)
   | Some P \<Rightarrow> (let (q, P') = pool_take P in (q, st\<lparr>st_planning_storage := Some P'\<rparr>)))"

definition insert_inner :: "'v component_bundle \<Rightarrow> bool \<Rightarrow> entity option \<Rightarrow> 'v engine \<Rightarrow>
    (entity \<times> input_outcome \<times> 'v engine) option" where
  "insert_inner b preempting target E = map_option (\<lambda>(e, W).
       let (q, st) = stage_commands ((eg_state E)\<lparr>st_world := W\<rparr>);
           (res, E1) = submit preempting (bundle_queue b e q) (E\<lparr>eg_state := st\<rparr>)
       in (e, res, E1))
     (insert_target b target (st_world (eg_state E)))"

section \<open>The preemption protocol\<close>

definition boundary_reached :: "'v waiter \<Rightarrow> 'v engine \<Rightarrow> bool \<times> 'v waiter \<times> 'v engine" where
  "boundary_reached w E = (let st = eg_state E in
     if st_settling st = 0 \<and> st_running st = None then (True, w, E)
     else if st_running st = None \<or> st_preempt_window st then (True, w, on_state (\<lambda>st. st\<lparr>st_preempt_restart := True\<rparr>) E)
     else if wt_deferred w then (False, w, E)
     else if \<not> wt_registered w then (False, w\<lparr>wt_registered := True\<rparr>, E\<lparr>eg_preempt_waiters := eg_preempt_waiters E + 1\<rparr>)
     else (False, w, E))"

definition waiter_finish :: "'v waiter \<Rightarrow> 'v engine \<Rightarrow> 'v engine" where
  "waiter_finish w E = (if wt_registered w then E\<lparr>eg_preempt_waiters := eg_preempt_waiters E - 1\<rparr> else E)"

definition apply_component_mutation :: "'v component_trait \<Rightarrow> type_id \<Rightarrow> entity \<Rightarrow> bool \<Rightarrow> ('v cvalue \<Rightarrow> 'v cvalue) \<Rightarrow>
    'v state \<Rightarrow> 'v try_update \<times> 'v state" where
  "apply_component_mutation ct ty e held f st = (let outcome = try_update_component_live ct ty e held f (st_world st) in
     (outcome, case outcome of
        Applied changed W \<Rightarrow> (if changed then enqueue_next_generation (st\<lparr>st_world := W, st_normal_clean := False\<rparr>) else st\<lparr>st_world := W\<rparr>)
      | Missing \<Rightarrow> st
      | Busy \<Rightarrow> st))"

text \<open>
  One turn of a waiting call: \<open>Some None\<close> when it is done without effect, \<open>Some (Some g)\<close> when it
  is done, with the generation of an input.  \<open>None\<close>: it goes on waiting.
\<close>

definition waiter_turn :: "'v component_trait \<Rightarrow> bool \<Rightarrow> 'v waiter \<Rightarrow> 'v engine \<Rightarrow> nat option option \<times> 'v waiter \<times> 'v engine" where
  "waiter_turn ct held w E = (let wait = (\<lambda>(w, E). (None, w, on_state (\<lambda>st. st\<lparr>st_boundary_waiters := st_boundary_waiters st @ [0]\<rparr>) E)) in
     case wt_call w of
       QueueInput commands \<Rightarrow> (let (reached, w1, E1) = boundary_reached w E in
         if reached then (let (g, st) = queue_pending commands (eg_state E1) in (Some (Some g), w1, (waiter_finish w1 E1)\<lparr>eg_state := st\<rparr>))
         else wait (w1, E1))
     | MutateComponent ty e f original \<Rightarrow>
         if original \<noteq> None \<and> original \<noteq> Some (revision_by_type (st_world (eg_state E)) ty e) then (Some None, w, waiter_finish w E)
         else (let (reached, w1, E1) = boundary_reached w E in
           if reached then (let (outcome, st) = apply_component_mutation ct ty e held f (eg_state E1) in
             if outcome = Busy then (None, w1, E1) else (Some None, w1, (waiter_finish w1 E1)\<lparr>eg_state := st\<rparr>))
           else wait (w1, E1)))"

definition drop_nth :: "nat \<Rightarrow> 'a list \<Rightarrow> 'a list" where
  "drop_nth i xs = take i xs @ drop (i + 1) xs"

definition retry_waiter :: "'v component_trait \<Rightarrow> bool \<Rightarrow> nat \<Rightarrow> 'v engine \<Rightarrow> nat option option \<times> 'v engine" where
  "retry_waiter ct held i E = (let (res, w, E1) = waiter_turn ct held (eg_waiting E ! i) E in
     (res, E1\<lparr>eg_waiting := (if res = None then (eg_waiting E1)[i := w] else drop_nth i (eg_waiting E1))\<rparr>))"

text \<open>The waiting call's future is dropped.\<close>

definition drop_waiter :: "nat \<Rightarrow> 'v engine \<Rightarrow> 'v engine" where
  "drop_waiter i E = (waiter_finish (eg_waiting E ! i) E)\<lparr>eg_waiting := drop_nth i (eg_waiting E)\<rparr>"

definition open_preempt_window :: "'v state \<Rightarrow> 'v state" where
  "open_preempt_window st = st\<lparr>st_preempt_window := True, st_boundary_waiters := []\<rparr>"

text \<open>Taken once no preempt waiter is registered.\<close>

definition close_preempt_window :: "'v state \<Rightarrow> 'v state" where
  "close_preempt_window st = st\<lparr>st_preempt_window := False\<rparr>"

definition after_preemption :: "'v state \<Rightarrow> 'v state" where
  "after_preemption st = st\<lparr>st_preempt_restart := False, st_systems := map reset_full (st_systems st)\<rparr>"

section \<open>Epochs\<close>

text \<open>A watermark of \<open>None\<close> is \<open>u64::MAX\<close>.\<close>

primrec promote_loop :: "nat option \<Rightarrow> (nat \<times> 'v command_queue) list \<Rightarrow> 'v command_queue \<Rightarrow> bool \<Rightarrow>
    (nat \<times> 'v command_queue) list \<times> 'v command_queue \<times> bool" where
  "promote_loop mark [] q promoted = ([], q, promoted)"
| "promote_loop mark (d # ds) q promoted =
     (if (case mark of None \<Rightarrow> True | Some w \<Rightarrow> fst d \<le> w)
      then promote_loop mark ds (fst (queue_append q (snd d))) True else (d # ds, q, promoted))"

definition promote_deferred_inputs :: "nat option \<Rightarrow> 'v state \<Rightarrow> bool \<times> 'v state" where
  "promote_deferred_inputs mark st = (if st_deferred_inputs st = [] then (False, st) else
     (let (ds, q, promoted) = promote_loop mark (st_deferred_inputs st) (st_pending_inputs st) False;
          st1 = st\<lparr>st_deferred_inputs := ds, st_pending_inputs := q\<rparr>
      in (promoted, if promoted then enqueue_next_generation st1 else st1)))"

definition epoch_enter :: "'v engine \<Rightarrow> 'v engine" where
  "epoch_enter E = (on_state (\<lambda>st. st\<lparr>st_settling := st_settling st + 1\<rparr>) E)\<lparr>eg_epochs := eg_epochs E @ [st_input_seq (eg_state E)]\<rparr>"

definition epoch_drop :: "nat \<Rightarrow> 'v engine \<Rightarrow> 'v engine" where
  "epoch_drop i E = (let st = (eg_state E)\<lparr>st_settling := st_settling (eg_state E) - 1\<rparr>;
       st1 = (if st_settling st = 0 then snd (promote_deferred_inputs None st) else st)
     in E\<lparr>eg_state := st1\<lparr>st_boundary_waiters := []\<rparr>, eg_epochs := drop_nth i (eg_epochs E)\<rparr>)"

section \<open>A generation\<close>

definition compact_logs :: "'v state \<Rightarrow> 'v state option" where
  "compact_logs st = Option.bind (maybe_roll_plan_epoch (st_world st)) (\<lambda>(rolled, W).
     case rolled of
       None \<Rightarrow> Some (st\<lparr>st_world := W\<rparr>)
     | Some (epoch, log) \<Rightarrow> map_option (\<lambda>defs. st\<lparr>st_world := W, st_systems := defs\<rparr>)
         (those (map (compact_plan_log epoch log W) (st_systems st))))"

definition apply_deferred_settle :: "'v component_trait \<Rightarrow> 'v system_output list \<Rightarrow> 'v world \<Rightarrow> 'v world option" where
  "apply_deferred_settle ct outs W = fold_opt (\<lambda>out W. fst (queue_apply ct (Some (so_owner out)) W (so_commands out))) outs W"

text \<open>The generation is marked as running; whether it goes through the startup phase.\<close>

definition mark_running :: "nat \<Rightarrow> 'v state \<Rightarrow> bool \<times> 'v state" where
  "mark_running generation st = (\<not> st_startup_ran st \<or> st_preempt_restart st,
     st\<lparr>st_running := Some generation, st_next := generation + 1, st_normal_clean := False,
       st_preempt_restart := (\<not> st_startup_ran st \<and> st_preempt_restart st), st_startup_ran := True,
       st_preempt_window := False, st_memo := []\<rparr>)"

text \<open>\<open>Some None\<close>: no generation is pending.  Otherwise the generation, the memo and the startup flag.\<close>

definition start_evaluation :: "'v component_trait \<Rightarrow> 'v state \<Rightarrow> ((nat \<times> memo_table \<times> bool) option \<times> 'v state) option" where
  "start_evaluation ct st0 = (case st_pending st0 of None \<Rightarrow> Some (None, st0) | Some generation \<Rightarrow> do {
     st \<leftarrow> compact_logs (st0\<lparr>st_pending := None\<rparr>);
     W1 \<leftarrow> apply_deferred_settle ct (st_deferred_settle st) (st_world st);
     let (applied, inputs) = queue_apply ct None W1 (st_pending_inputs st);
     W2 \<leftarrow> applied;
     W3 \<leftarrow> flush_derived_from ct W2;
     let W4 = snd (take_written_derived W3);
     let (removed, W5) = take_removed_entities W4;
     let (component_owners, W6) = take_removed_component_owners W5;
     let W7 = snd (take_removed_owners W6);
     (_, memo1, defs) \<leftarrow> reconcile_removed_output_owners None component_owners (st_memo st, st_systems st);
     (_, st1, memo2) \<leftarrow> reconcile_removed_invocations ct None removed []
       (st\<lparr>st_world := W7, st_deferred_settle := [], st_pending_inputs := inputs, st_systems := defs\<rparr>, memo1);
     let (startup, st2) = mark_running generation st1;
     Some (Some (generation, memo2, startup), st2) })"

text \<open>The runner's permit is taken by \<open>begin_generation\<close> and given back with the guard.\<close>

definition begin_generation :: "'v component_trait \<Rightarrow> 'v engine \<Rightarrow> (bool option \<times> 'v engine) option" where
  "begin_generation ct E = map_option (\<lambda>(started, st). case started of
       None \<Rightarrow> (None, E\<lparr>eg_state := st\<rparr>)
     | Some (generation, memo, startup) \<Rightarrow> (Some startup, E\<lparr>eg_state := st, eg_guard := Some (generation, memo)\<rparr>))
     (start_evaluation ct (eg_state E))"

text \<open>A run of the phase \<open>ph\<close> is committed against the driver's memo.\<close>

definition driver_commit :: "'v component_trait \<Rightarrow> phase \<Rightarrow> 'v system_run \<Rightarrow> 'v engine \<Rightarrow> (commit_progress \<times> 'v engine) option" where
  "driver_commit ct ph run E = Option.bind (eg_guard E) (\<lambda>(generation, memo).
     map_option (\<lambda>(progress, st, memo'). (progress, E\<lparr>eg_state := st, eg_guard := Some (generation, memo')\<rparr>))
       (commit_system_run ct (Some ph) run (eg_state E, memo)))"

definition complete_generation :: "bool \<Rightarrow> 'v engine \<Rightarrow> 'v engine" where
  "complete_generation changed E = (case eg_guard E of None \<Rightarrow> E | Some (generation, memo) \<Rightarrow>
     E\<lparr>eg_state := (eg_state E)\<lparr>st_memo := memo, st_normal_clean := \<not> changed, st_completed := generation,
          st_running := None, st_boundary_waiters := [],
          st_waiters := filter (\<lambda>(target, _). \<not> target \<le> generation) (st_waiters (eg_state E))\<rparr>,
       eg_completed := generation, eg_guard := None\<rparr>)"

text \<open>The driver's future is dropped with the guard still holding the memo.\<close>

definition abandon_generation :: "'v engine \<Rightarrow> 'v engine" where
  "abandon_generation E = (case eg_guard E of None \<Rightarrow> E | Some (generation, memo) \<Rightarrow>
     (let st = eg_state E in
      E\<lparr>eg_state := st\<lparr>st_memo := memo, st_running := None,
           st_pending := (if st_pending st = None then Some generation else st_pending st),
           st_systems := map reset_full (st_systems st), st_waiters := []\<rparr>,
        eg_guard := None\<rparr>))"

definition wait_for_generation :: "nat \<Rightarrow> 'v state \<Rightarrow> bool \<times> 'v state" where
  "wait_for_generation target st = (if target \<le> st_completed st then (True, st)
     else (False, st\<lparr>st_waiters := st_waiters st @ [(target, 0)]\<rparr>))"

end
