(* ===== verification/Settle.thy ===== *)
theory Settle
  imports Engine
begin

text \<open>
  The sections of a settle (bowl.rs), in the order a settle takes them: the fast path, the look
  at the head of the loop, the look after an evaluation, the healing of stale ambient reads, the
  settled hooks, the settle phase and the close; then the removal of bound entities, and the
  building of a bowl.
\<close>

section \<open>The loop of a settle\<close>

datatype settle_next = SettleLoop | SettleReturn | SettleDrive nat | SettleEvaluated bool

text \<open>The settled fast path: whether the caller returns.\<close>

definition settle_fast :: "'v engine \<Rightarrow> (bool \<times> 'v engine) option" where
  "settle_fast E = (if bowl_is_settled (eg_state E) \<and> st_deferred_inputs (eg_state E) = []
     then map_option (Pair True) (refresh_settled_snapshot E) else Some (False, E))"

text \<open>At an epoch boundary the settle's own inputs are driven next; without any it returns.\<close>

definition settle_boundary :: "nat \<Rightarrow> 'v engine \<Rightarrow> (settle_next \<times> 'v engine) option" where
  "settle_boundary mark E = (let (promoted, st) = promote_deferred_inputs (Some mark) (eg_state E); E1 = E\<lparr>eg_state := st\<rparr> in
     if promoted then Some (SettleLoop, E1) else map_option (Pair SettleReturn) (refresh_settled_snapshot E1))"

definition settle_head :: "nat \<Rightarrow> 'v engine \<Rightarrow> (settle_next \<times> 'v engine) option" where
  "settle_head mark E = (let st = eg_state E in
     if bowl_is_settled st then settle_boundary mark E
     else Some (SettleDrive (case st_pending st of Some g \<Rightarrow> g
        | None \<Rightarrow> (case st_running st of Some g \<Rightarrow> g | None \<Rightarrow> st_completed st)), E))"

definition settle_evaluated :: "nat \<Rightarrow> 'v engine \<Rightarrow> (settle_next \<times> 'v engine) option" where
  "settle_evaluated mark E = (let st = eg_state E; clean = (st_pending st = None \<and> st_running st = None) in
     if clean \<and> w_revision (st_world st) = st_settled_revision st then settle_boundary mark E
     else Some (SettleEvaluated (clean \<and> st_normal_clean st), E))"

text \<open>The watchers fire with the settled revision.\<close>

definition settle_close :: "nat \<Rightarrow> 'v engine \<Rightarrow> (settle_next \<times> 'v engine) option" where
  "settle_close mark E = (let (promoted, st) = promote_deferred_inputs (Some mark) (eg_state E) in
     if promoted then Some (SettleLoop, E\<lparr>eg_state := st\<rparr>)
     else map_option (\<lambda>E1. (SettleReturn, on_state (\<lambda>st. st\<lparr>st_settle_watchers := []\<rparr>) E1))
       (refresh_settled_snapshot (E\<lparr>eg_state := publish_settled_revision st\<rparr>)))"

section \<open>Healing\<close>

text \<open>
  An invocation of the current healing epoch is stale when a store its views read has moved past
  the revision it was planned at.
\<close>

definition ambient_stale :: "'v state \<Rightarrow> system_invocation \<times> memo_entry \<Rightarrow> bool" where
  "ambient_stale st m = (case m of (owner, entry) \<Rightarrow>
     me_settle_epoch entry = st_settle_epoch st \<and> inv_system owner < length (st_systems st)
     \<and> (let system = st_systems st ! inv_system owner in
        bs_phase system \<noteq> Settle \<and> bs_view_freshness system \<noteq> []
        \<and> list_ex (\<lambda>ty. store_watermark (st_world st) ty > me_planned_revision entry) (bs_view_freshness system)))"

definition heal_attempt_limit :: nat where
  "heal_attempt_limit = 128"

fun heal_victims :: "system_invocation list \<Rightarrow> (system_invocation \<times> nat) list \<times> 'v state \<Rightarrow>
    ((system_invocation \<times> nat) list \<times> 'v state) option" where
  "heal_victims [] s = Some s"
| "heal_victims (owner # ows) (attempts, st) =
     (let n = (case map_of attempts owner of None \<Rightarrow> 0 | Some n \<Rightarrow> n) + 1 in
      if n > heal_attempt_limit then None
      else heal_victims ows (AList.update owner n attempts, st\<lparr>st_memo := AList.delete owner (st_memo st),
        st_systems := (st_systems st)[inv_system owner := force_replan (inv_keys owner) (st_systems st ! inv_system owner)]\<rparr>))"

definition heal_stale_ambient :: "(system_invocation \<times> nat) list \<Rightarrow> 'v engine \<Rightarrow>
    (bool \<times> (system_invocation \<times> nat) list \<times> 'v engine) option" where
  "heal_stale_ambient attempts E = (if \<not> eg_healing E then Some (False, attempts, E) else
     (let victims = map fst (filter (ambient_stale (eg_state E)) (st_memo (eg_state E))) in
      if victims = [] then Some (False, attempts, E)
      else map_option (\<lambda>(attempts, st). (True, attempts, E\<lparr>eg_state := st\<rparr>)) (heal_victims victims (attempts, eg_state E))))"

section \<open>Settled hooks and the settle phase\<close>

text \<open>
  Both take the memo out of the state, commit against it, and put it back; nothing holds the
  runner's permit meanwhile.
\<close>

definition hooks_begin :: "'v engine \<Rightarrow> 'v engine" where
  "hooks_begin E = (on_state (\<lambda>st. st\<lparr>st_memo := []\<rparr>) E)\<lparr>eg_hook_memos := eg_hook_memos E @ [st_memo (eg_state E)]\<rparr>"

definition hook_commit :: "'v component_trait \<Rightarrow> phase option \<Rightarrow> nat \<Rightarrow> 'v system_run \<Rightarrow> 'v engine \<Rightarrow>
    (commit_progress \<times> 'v engine) option" where
  "hook_commit ct ph i run E = map_option (\<lambda>(progress, st, memo). (progress, E\<lparr>eg_state := st, eg_hook_memos := (eg_hook_memos E)[i := memo]\<rparr>))
     (commit_system_run ct ph run (eg_state E, eg_hook_memos E ! i))"

definition hooks_end :: "nat \<Rightarrow> 'v engine \<Rightarrow> 'v engine" where
  "hooks_end i E = (on_state (\<lambda>st. st\<lparr>st_memo := eg_hook_memos E ! i\<rparr>) E)\<lparr>eg_hook_memos := drop_nth i (eg_hook_memos E)\<rparr>"

text \<open>The runs of the hooks, from one snapshot \<open>W\<close> and one memo, in registration order.\<close>

primrec settled_hook_runs :: "'v boxed_system list \<Rightarrow> 'v world \<Rightarrow> 'v world \<Rightarrow> memo_table \<Rightarrow> nat \<Rightarrow> ('v system_run list \<times> nat) option" where
  "settled_hook_runs [] L W memo n = Some ([], n)"
| "settled_hook_runs (s # ss) L W memo n = Option.bind (run_settled (bs_runnable s) L W memo n) (\<lambda>(run, n1).
     map_option (\<lambda>(runs, n2). (run # runs, n2)) (settled_hook_runs ss L W memo n1))"

definition run_settled_hooks :: "'v component_trait \<Rightarrow> commit_budget \<Rightarrow> 'v engine \<Rightarrow> (bool \<times> commit_budget \<times> 'v engine) option" where
  "run_settled_hooks ct b E = (if st_settled_hooks (eg_state E) = [] then Some (False, b, E) else
     (let systems = map (\<lambda>i. st_systems (eg_state E) ! i) (st_settled_hooks (eg_state E));
          E1 = hooks_begin E; memo = last (eg_hook_memos E1)
      in do {
        (W, st) \<leftarrow> snapshot_locked (eg_state E1);
        (runs, n) \<leftarrow> settled_hook_runs systems (st_world st) W memo (w_next_entity (st_world st));
        (progress, st2, memo2) \<leftarrow> commit_system_runs ct runs progress_default
          (st\<lparr>st_world := (st_world st)\<lparr>w_next_entity := n\<rparr>\<rparr>, memo);
        b2 \<leftarrow> budget_record (cp_commits progress) b;
        Some (cp_needs_followup progress, b2,
          hooks_end (length (eg_hook_memos E)) (E1\<lparr>eg_state := st2, eg_hook_memos := eg_hook_memos E @ [memo2]\<rparr>)) }))"

primrec settle_phase_runs :: "'v boxed_system list \<Rightarrow> 'v world \<Rightarrow> memo_table \<Rightarrow> 'v planned_system_run list option" where
  "settle_phase_runs [] W memo = Some []"
| "settle_phase_runs (s # ss) W memo = Option.bind (stream_runs (bs_runnable s) W memo None) (\<lambda>runs.
     map_option ((@) runs) (settle_phase_runs ss W memo))"

text \<open>The rows commit in the order they finish; here that is the order \<open>sched\<close> makes of them.\<close>

definition run_settle_phase :: "'v component_trait \<Rightarrow> ('v system_run list \<Rightarrow> 'v system_run list) \<Rightarrow> 'v engine \<Rightarrow>
    (bool \<times> 'v engine) option" where
  "run_settle_phase ct sched E = (if st_settle_systems (eg_state E) = [] then Some (False, E) else
     (let systems = map (\<lambda>i. st_systems (eg_state E) ! i) (st_settle_systems (eg_state E));
          before = w_revision (st_world (eg_state E)); E1 = hooks_begin E; memo = last (eg_hook_memos E1)
      in do {
        (W, st) \<leftarrow> snapshot_locked (eg_state E1);
        planned \<leftarrow> settle_phase_runs systems W memo;
        let (runs, n) = run_all planned (w_next_entity (st_world st));
        (st2, memo2) \<leftarrow> fold_opt (\<lambda>run s. map_option snd (commit_system_run ct (Some Settle) run s)) (sched runs)
          (st\<lparr>st_world := (st_world st)\<lparr>w_next_entity := n\<rparr>\<rparr>, memo);
        Some (w_revision (st_world st2) \<noteq> before,
          hooks_end (length (eg_hook_memos E)) (E1\<lparr>eg_state := st2, eg_hook_memos := eg_hook_memos E @ [memo2]\<rparr>)) }))"

section \<open>Bound entities\<close>

definition drop_bound :: "entity \<Rightarrow> 'v engine \<Rightarrow> 'v engine" where
  "drop_bound e E = E\<lparr>eg_cleanup := eg_cleanup E @ [e]\<rparr>"

definition publish_if :: "bool \<Rightarrow> 'v state \<Rightarrow> 'v state" where
  "publish_if was_settled st = (if was_settled then publish_settled_revision st else st)"

definition drain_deferred_bound_cleanup :: "'v component_trait \<Rightarrow> 'v engine \<Rightarrow> 'v engine option" where
  "drain_deferred_bound_cleanup ct E = (if eg_cleanup E = [] then Some E else
     (let was_settled = bowl_is_settled (eg_state E) in
      Option.bind (cleanup_bound_entities ct (eg_cleanup E) (eg_state E)) (\<lambda>st.
        let E1 = E\<lparr>eg_state := publish_if was_settled st, eg_cleanup := []\<rparr>
        in if was_settled then refresh_settled_snapshot E1 else Some E1)))"

text \<open>The components of a bundle, each required or not; \<open>Inl\<close> names the one that is missing.\<close>

fun take_bundle :: "'v component_trait \<Rightarrow> (type_id \<times> bool) list \<Rightarrow> entity \<Rightarrow> 'v world \<Rightarrow>
    ((type_id + 'v cvalue option list) \<times> 'v world) option" where
  "take_bundle ct [] e W = Some (Inr [], W)"
| "take_bundle ct ((ty, required) # ps) e W = (let value = map_option ce_value (entry_of W ty e) in
     Option.bind (remove_component ct ty e None W) (\<lambda>W1.
       if value = None \<and> required then Some (Inl ty, W1)
       else map_option (\<lambda>(res, W2). (map_sum id (Cons value) res, W2)) (take_bundle ct ps e W1)))"

text \<open>
  \<open>blocked\<close> says that a component is still shared with a snapshot or a result; then only the
  caches are dropped and the caller tries again.
\<close>

definition take_bound :: "'v component_trait \<Rightarrow> bool \<Rightarrow> (type_id \<times> bool) list \<Rightarrow> entity \<Rightarrow> 'v engine \<Rightarrow>
    ((type_id + 'v cvalue option list) option \<times> 'v engine) option" where
  "take_bound ct blocked ps e E =
     (let st = (eg_state E)\<lparr>st_snapshot_cache := None, st_settled_snapshot := None\<rparr>; E1 = E\<lparr>eg_settled_read := None\<rparr> in
      if blocked then Some (None, E1\<lparr>eg_state := st\<rparr>)
      else do {
        (res, W) \<leftarrow> take_bundle ct ps e (st_world st);
        st2 \<leftarrow> cleanup_bound_entities ct [e] (st\<lparr>st_world := W\<rparr>);
        Some (Some res, E1\<lparr>eg_state := publish_if (bowl_is_settled st) st2\<rparr>) })"

text \<open>The drain read removes the entities of the rows it returns.\<close>

definition drain_rows :: "'v component_trait \<Rightarrow> entity list \<Rightarrow> 'v engine \<Rightarrow> 'v engine option" where
  "drain_rows ct es E = Option.bind (snapshot_locked (eg_state E)) (\<lambda>(_, st).
     map_option (\<lambda>st2. E\<lparr>eg_state := publish_if (bowl_is_settled st) st2\<rparr>) (cleanup_bound_entities ct es st))"

section \<open>Building a bowl\<close>

definition register_system :: "'v system_decl \<Rightarrow> 'v engine \<Rightarrow> 'v engine option" where
  "register_system d E = map_option (\<lambda>s.
     (on_state (\<lambda>st. enqueue_next_generation (st\<lparr>st_systems := st_systems st @ [s]\<rparr>)) E)
       \<lparr>eg_healing := eg_healing E \<or> (bs_phase s \<noteq> Settle \<and> bs_view_freshness s \<noteq> [])\<rparr>)
     (into_system (length (st_systems (eg_state E))) d)"

text \<open>A plugin is its shapes and the systems it registers.\<close>

datatype 'v build_step = SystemStep "'v system_decl" | PluginStep "shape_desc list" "'v system_decl list"

primrec step_shapes :: "'v build_step \<Rightarrow> shape_desc list" where
  "step_shapes (SystemStep d) = []"
| "step_shapes (PluginStep shapes ds) = shapes"

primrec step_systems :: "'v build_step \<Rightarrow> 'v system_decl list" where
  "step_systems (SystemStep d) = [d]"
| "step_systems (PluginStep shapes ds) = ds"

definition schema_universe :: "shape_desc list \<Rightarrow> type_id list" where
  "schema_universe shapes = fold (\<lambda>ty tys. if ty \<in> set tys then tys else tys @ [ty])
     (concat (map (\<lambda>shape. sh_required shape @ sh_optional shape) shapes)) []"

definition seal_schema :: "shape_desc list \<Rightarrow> 'v engine \<Rightarrow> 'v engine option" where
  "seal_schema shapes E = (if shapes = [] then Some E
     else map_option (\<lambda>W. on_state (\<lambda>st. st\<lparr>st_world := W, st_schema := Some shapes\<rparr>) E)
       (init_presence (schema_universe shapes) (st_world (eg_state E))))"

definition seal_systems :: "'v engine \<Rightarrow> 'v engine" where
  "seal_systems E = (let defs = st_systems (eg_state E) in
     (on_state (\<lambda>st. st\<lparr>
         st_settled_hooks := filter (\<lambda>i. bs_phase (defs ! i) \<noteq> Settle \<and> has_settled_hook (bs_runnable (defs ! i))) [0..<length defs],
         st_settle_systems := filter (\<lambda>i. bs_phase (defs ! i) = Settle) [0..<length defs]\<rparr>) E)
       \<lparr>eg_phases := fold (\<lambda>s acc. or acc (phase_bit (bs_phase s))) defs 0\<rparr>)"

definition build :: "shape_desc list \<Rightarrow> 'v build_step list \<Rightarrow> 'v engine option" where
  "build shapes steps = do {
     E \<leftarrow> seal_schema (shapes @ concat (map step_shapes steps)) inner_new;
     E1 \<leftarrow> fold_opt register_system (concat (map step_systems steps)) E;
     Some (seal_systems E1) }"

end
