(* ===== verification/Engine_World.thy ===== *)
theory Engine_World
  imports Settle
begin

text \<open>
  What the sections of the engine do to the world and to the rest of the state: every section
  leaves a world between commits, and a commit touches neither the generations nor the inputs.
\<close>

abbreviation world_settled :: "'v component_trait \<Rightarrow> 'v world \<Rightarrow> bool" where
  "world_settled ct W \<equiv> reachable ct ({}, W)"

text \<open>The fields of the state that say which generation runs and which inputs it gets.\<close>

definition st_ledger where
  "st_ledger st = ((st_pending st, st_pending_inputs st, st_deferred_inputs st, st_next st),
     (st_running st, st_completed st, st_input_seq st, st_settling st))"

text \<open>A snapshot with its key was taken of a world between commits that came before.\<close>

definition cached_from :: "'v component_trait \<Rightarrow> 'v world \<Rightarrow> (nat \<times> nat \<times> nat) \<times> 'v world \<Rightarrow> bool" where
  "cached_from ct L c \<longleftrightarrow> (\<exists>V. fst c = snapshot_key V \<and> world_snapshot V = Some (snd c)
     \<and> world_settled ct V \<and> leads ct ({}, V) ({}, L))"

lemma cached_later: "cached_from ct W c \<Longrightarrow> leads ct ({}, W) ({}, W') \<Longrightarrow> cached_from ct W' c"
  unfolding cached_from_def by (meson rtranclp_trans)

text \<open>The pool leases empty queues, and the cached snapshot is an earlier world.\<close>

definition pool_fine :: "'v component_trait \<Rightarrow> 'v state \<Rightarrow> bool" where
  "pool_fine ct st \<longleftrightarrow> (\<forall>P. st_planning_storage st = Some P \<longrightarrow> pool_ok P)
     \<and> (\<forall>c. st_snapshot_cache st = Some c \<longrightarrow> cached_from ct (st_world st) c)"

text \<open>A section that works on the world: it keeps the ledger and the pool, and operations lead to its world.\<close>

abbreviation world_later :: "'v component_trait \<Rightarrow> 'v world \<Rightarrow> 'v world \<Rightarrow> bool" where
  "world_later ct W W' \<equiv> leads ct ({}, W) ({}, W')"

definition section_ok :: "'v component_trait \<Rightarrow> 'v state \<Rightarrow> 'v state \<Rightarrow> bool" where
  "section_ok ct st st' \<longleftrightarrow> st_ledger st' = st_ledger st
     \<and> world_later ct (st_world st) (st_world st')
     \<and> (world_settled ct (st_world st) \<longrightarrow> world_settled ct (st_world st') \<and> (pool_fine ct st \<longrightarrow> pool_fine ct st'))"

lemma section_refl [simp]: "section_ok ct st st"
  by (simp add: section_ok_def)

lemma section_trans: "section_ok ct st st1 \<Longrightarrow> section_ok ct st1 st2 \<Longrightarrow> section_ok ct st st2"
  unfolding section_ok_def by (intro conjI impI) (simp, blast intro: rtranclp_trans, blast+)

lemma later_settled: "world_later ct W W' \<Longrightarrow> world_settled ct W \<Longrightarrow> world_settled ct W'"
  by (rule leads_reachable)

lemma section_world:
  assumes "world_later ct (st_world st) W" and "st_ledger st' = st_ledger st"
    and "st_planning_storage st' = st_planning_storage st" and "st_snapshot_cache st' = st_snapshot_cache st \<or> st_snapshot_cache st' = None"
    and "st_world st' = W"
  shows "section_ok ct st st'"
  using assms cached_later [OF _ assms(1)] leads_reachable [OF assms(1)] by (auto simp: section_ok_def pool_fine_def)

lemma later_op: "world_later ct W0 W \<Longrightarrow> world_op ct ({}, W) ({}, W') \<Longrightarrow> world_later ct W0 W'"
  by (rule leads_op)

lemma op_later: "world_op ct ({}, W) ({}, W') \<Longrightarrow> world_later ct W W'"
  by (rule later_op) (rule rtranclp.rtrancl_refl)

lemma later_drains:
  "take_removed_entities W = (es, W') \<Longrightarrow> world_later ct W W'"
  "take_removed_owners W = (ows, W') \<Longrightarrow> world_later ct W W'"
  "take_removed_component_owners W = (ows, W') \<Longrightarrow> world_later ct W W'"
  "take_written_derived W = (ps, W') \<Longrightarrow> world_later ct W W'"
  by (intro op_later ws_drain_entities ws_drain_owners ws_drain_components ws_drain_written; assumption)+

lemma later_drained:
  assumes "world_later ct W0 W"
  shows "world_later ct W0 (W\<lparr>w_removed_entities := []\<rparr>)" "world_later ct W0 (W\<lparr>w_removed_owners := []\<rparr>)"
    "world_later ct W0 (W\<lparr>w_removed_component_owners := []\<rparr>)" "world_later ct W0 (W\<lparr>w_written_derived := []\<rparr>)"
  using rtranclp_trans [OF assms later_drains(1)] rtranclp_trans [OF assms later_drains(2)]
    rtranclp_trans [OF assms later_drains(3)] rtranclp_trans [OF assms later_drains(4)]
  by (simp_all add: take_removed_entities_def take_removed_owners_def take_removed_component_owners_def take_written_derived_def)

section \<open>Commits\<close>

lemma replace_outputs_section:
  assumes "replace_outputs ct defers out st = Some st1"
  shows "section_ok ct st st1"
proof -
  obtain leased storage where l: "lease_deferred defers (st_planning_storage st) = (leased, storage)" by (rule prod.exhaust)
  have leased_ok: "\<forall>P. storage = Some P \<longrightarrow> pool_ok P" if "pool_fine ct st"
    using that l pool_ok_steps(3)
    by (auto simp: lease_deferred_def pool_fine_def map_prod_def split: bool.splits option.splits prod.splits)
  have f: "st_planning_storage st1 = storage \<and> st_ledger st1 = st_ledger st \<and> st_snapshot_cache st1 = st_snapshot_cache st"
  proof -
    obtain applied target q where a: "apply_or_defer ct (Some (so_owner out)) (snd (take_derived_outputs (so_owner out) (st_world st)))
        (if defers then Some leased else None) (so_commands out) = (applied, target, q)" by (metis prod_cases3)
    obtain W ds where "st1 = st\<lparr>st_world := W, st_planning_storage := storage, st_deferred_settle := ds\<rparr>"
    proof -
      have "Option.bind applied (\<lambda>W2. Option.bind (flush_derived_from ct W2) (\<lambda>W3.
          Option.bind (remove_derived_stale ct (so_owner out) (outputs_of (st_world st) (so_owner out)) (finish_derived_spawns (so_owner out) W3))
          (\<lambda>W4. Some (st\<lparr>st_world := W4, st_planning_storage := storage, st_deferred_settle := st_deferred_settle st
            @ (if queue_is_empty (case target of Some q \<Rightarrow> q | None \<Rightarrow> leased) then []
               else [\<lparr>so_owner = so_owner out, so_commands = (case target of Some q \<Rightarrow> q | None \<Rightarrow> leased)\<rparr>])\<rparr>)))) = Some st1"
        using assms a unfolding replace_outputs_def Let_def l by (simp add: take_derived_outputs_def)
      then show thesis by (elim bind_SomeE) (drule option.inject [THEN iffD1], rule that, erule sym)
    qed
    then show ?thesis by (simp add: st_ledger_def)
  qed
  note later = replace_outputs_ok(1) [OF assms]
  have "pool_fine ct st1" if "pool_fine ct st"
    using leased_ok [OF that] f that cached_later [OF _ later] by (simp add: pool_fine_def)
  then show ?thesis using later f leads_reachable [OF later] unfolding section_ok_def by blast
qed

lemma commit_output_section:
  assumes "commit_output ct ph memo out st = Some st1"
  shows "section_ok ct st st1"
proof -
  obtain st0 where st0: "replace_outputs ct (ph = Some Settle) out st = Some st0"
    and rest: "st1 = st0\<lparr>st_world := snd (take_written_derived (st_world st0))\<rparr>"
    using assms by (auto simp: commit_output_def take_written_derived_def elim!: bind_SomeE split: if_splits)
  have "section_ok ct st0 st1"
    by (rule section_world [where W = "snd (take_written_derived (st_world st0))"])
      (use later_drains(4) [of "st_world st0"] in \<open>simp_all add: rest st_ledger_def take_written_derived_def\<close>)
  then show ?thesis using replace_outputs_section [OF st0] section_trans by blast
qed

lemma reconcile_owners_systems:
  "reconcile_removed_output_owners systems ows (memo, defs) = Some (gone, memo', defs') \<Longrightarrow> length defs' = length defs"
proof (induction systems ows "(memo, defs)" arbitrary: memo defs gone rule: reconcile_removed_output_owners.induct)
  case (2 systems ow ows memo defs)
  then show ?case by (auto split: if_splits)
qed simp

lemma retire_loop_later:
  assumes "retire_loop ct systems frontier seen b memo W = Some r"
  shows "world_later ct W0 W \<longrightarrow> world_later ct W0 (snd (snd r))"
  using assms
proof (induction rule: retire_loop.raw_induct [rotated, consumes 1, case_names step])
  case (step loop ct systems frontier seen b memo W r)
  show ?case
  proof (cases "frontier = []")
    case False
    then obtain removed W1 where t: "remove_derived_touched_by_systems ct (set frontier) systems W = Some (removed, W1)"
      and rest: "loop ct systems (remdups (filter (\<lambda>e. e \<notin> set seen) removed))
          (remdups (filter (\<lambda>e. e \<notin> set seen) removed) @ seen) (b \<or> removed \<noteq> []) (remove_memo_touched_by frontier memo) W1 = Some r"
      using step.hyps by (auto simp: Let_def elim!: bind_SomeE)
    show ?thesis using step.IH [OF rest] later_op [OF _ ws_touched [OF t]] by blast
  qed (use step.hyps in auto)
qed

lemma reconcile_invocations_section:
  assumes "reconcile_removed_invocations ct systems removed ows (st, memo) = Some (gone, st', memo')"
  shows "section_ok ct st st'"
proof -
  obtain g memo1 defs where "reconcile_removed_output_owners systems ows (memo, st_systems st) = Some (g, memo1, defs)"
    and loop: "map_option (\<lambda>(gone', memo2, W). (gone', st\<lparr>st_systems := defs, st_world := W\<rparr>, memo2))
      (retire_loop ct systems (remdups removed) (remdups removed) g memo1 (st_world st)) = Some (gone, st', memo')"
    using assms by (auto simp: reconcile_removed_invocations_def elim!: bind_SomeE)
  then obtain W where "retire_loop ct systems (remdups removed) (remdups removed) g memo1 (st_world st) = Some (gone, memo', W)"
    and st': "st' = st\<lparr>st_systems := defs, st_world := W\<rparr>" by auto
  then show ?thesis using retire_loop_later by (intro section_world [where W = W]) (fastforce simp: st_ledger_def)+
qed

lemma section_marks:
  "section_ok ct st (st\<lparr>st_systems := defs\<rparr>)" "section_ok ct st (st\<lparr>st_normal_clean := c\<rparr>)"
  "section_ok ct st (st\<lparr>st_memo := m\<rparr>)"
  by (rule section_world; simp add: st_ledger_def)+

lemma retire_removed_section:
  assumes "retire_removed ct (st, memo) = Some (st', memo')"
  shows "section_ok ct st st'"
proof -
  let ?W = "(st_world st)\<lparr>w_removed_entities := [], w_removed_owners := [], w_removed_component_owners := []\<rparr>"
  let ?st1 = "st\<lparr>st_world := ?W\<rparr>" and ?lists = "(w_removed_entities (st_world st), w_removed_owners (st_world st), w_removed_component_owners (st_world st))"
  have "world_later ct (st_world st) ?W" by (intro later_drained) (rule rtranclp.rtrancl_refl)
  then have s1: "section_ok ct st ?st1" by (rule section_world) (simp_all add: st_ledger_def)
  note rr = assms [unfolded retire_removed_def Let_def prod.case take_removed_entities_def take_removed_owners_def
      take_removed_component_owners_def, simplified]
  show ?thesis
  proof (cases "?lists = ([], [], [])")
    case True
    then show ?thesis using rr s1 by simp
  next
    case False
    then obtain gone memo1 defs where "reconcile_removed_output_owners None (w_removed_component_owners (st_world st)) (memo, st_systems st)
        = Some (gone, memo1, defs)"
      and rest: "(if gone then Some (?st1\<lparr>st_systems := defs, st_normal_clean := False\<rparr>, memo1)
        else map_option (\<lambda>(gone, st3, memo2). (if gone then st3\<lparr>st_normal_clean := False\<rparr> else st3, memo2))
          (reconcile_removed_invocations ct (Some (pair_bound_systems (st_systems st))) (w_removed_entities (st_world st))
            (w_removed_owners (st_world st)) (?st1\<lparr>st_systems := defs\<rparr>, memo1))) = Some (st', memo')"
      using rr by (auto elim!: bind_SomeE split: if_splits)
    have s2: "section_ok ct st (?st1\<lparr>st_systems := defs\<rparr>)" using s1 section_marks(1) by (rule section_trans)
    show ?thesis
    proof (cases gone)
      case True
      then have "st' = (?st1\<lparr>st_systems := defs\<rparr>)\<lparr>st_normal_clean := False\<rparr>" using rest by simp
      then show ?thesis using s2 section_marks(2) by (simp only:) (rule section_trans)
    next
      case False
      then obtain gone' st3 where r: "reconcile_removed_invocations ct (Some (pair_bound_systems (st_systems st))) (w_removed_entities (st_world st))
            (w_removed_owners (st_world st)) (?st1\<lparr>st_systems := defs\<rparr>, memo1) = Some (gone', st3, memo')"
        and st': "st' = (if gone' then st3\<lparr>st_normal_clean := False\<rparr> else st3)"
        using rest by (auto split: prod.splits)
      have s3: "section_ok ct st st3" using s2 reconcile_invocations_section [OF r] by (rule section_trans)
      then show ?thesis unfolding st' using section_trans [OF s3 section_marks(2)] by simp
    qed
  qed
qed

lemma commit_run_section:
  assumes "commit_system_run ct ph run (st, memo) = Some (prog, st', memo')"
  shows "section_ok ct st st'"
proof -
  have rec: "section_ok ct st1 (st1\<lparr>st_world := reconcile_written ct ws (st_world st1)\<rparr>)" for st1 :: "'a state" and ws
    by (rule section_world [OF later_op [OF _ ws_reconcile]]) (simp_all add: st_ledger_def)
  show ?thesis
  proof (cases "run_is_current (st_world st) run")
    case False
    then show ?thesis using assms rec by (auto simp: commit_system_run_def Let_def)
  next
    case True
    then obtain st1 where st1: "fold_opt (commit_output ct ph memo) (sr_outputs run) st = Some st1"
      and rr: "\<exists>memo2. retire_removed ct (st1\<lparr>st_world := reconcile_written ct (sr_writes run) (st_world st1)\<rparr>, memo2) = Some (st', memo')"
      using assms by (auto simp: commit_system_run_def Let_def elim!: bind_SomeE)
    have "section_ok ct st st1"
      by (rule fold_opt_invariant [OF st1, where P = "section_ok ct st"])
        (auto intro: section_trans commit_output_section)
    then show ?thesis using rec rr retire_removed_section section_trans by metis
  qed
qed

section \<open>Bound entities\<close>

lemma remove_roots_later:
  "remove_roots ct es (ows, W) = Some (ows', W') \<Longrightarrow> world_later ct W0 W \<Longrightarrow> world_later ct W0 W'"
proof (induction ct es "(ows, W)" arbitrary: ows W rule: remove_roots.induct)
  case (2 ct e es ows W)
  then obtain removed W1 where r: "remove_entity ct e W = Some (removed, W1)"
    and rest: "remove_roots ct es (List.union ows removed, W1) = Some (ows', W')" by (auto elim!: bind_SomeE)
  show ?case using "2.hyps" [OF r refl rest] later_op [OF "2.prems"(2) ws_despawn [OF r]] by blast
qed simp

lemma forget_owners_later:
  assumes "forget_owners ct ows (memo, W) = Some (memo', W')" and "world_later ct W0 W"
  shows "world_later ct W0 W'"
proof -
  have "world_later ct W0 (snd (memo', W'))"
    by (rule fold_opt_invariant [OF assms(1) [unfolded forget_owners_def], where P = "\<lambda>s. world_later ct W0 (snd s)"])
      (use assms(2) in \<open>auto intro: later_op [OF _ ws_owned]\<close>)
  then show ?thesis by simp
qed

lemma cleanup_section:
  assumes "cleanup_bound_entities ct es st = Some st'"
  shows "section_ok ct st st'"
proof (cases "remdups es = []")
  case True
  then show ?thesis using assms by (simp add: cleanup_bound_entities_def)
next
  case False
  then obtain g memo1 W1 ows W2 memo3 W3 where
    a: "retire_loop ct None (remdups es) [] False (st_memo st) (st_world st) = Some (g, memo1, W1)"
    and b: "remove_roots ct (remdups es) ([], W1) = Some (ows, W2)"
    and c: "forget_owners ct ows (memo1, W2) = Some (memo3, W3)"
    and st': "st' = st\<lparr>st_memo := memo3, st_world := W3\<rparr>"
    using assms unfolding cleanup_bound_entities_def Let_def by (auto elim!: bind_SomeE split: if_splits)
  have "world_later ct (st_world st) W3"
    using retire_loop_later [OF a, of "st_world st"] remove_roots_later [OF b] forget_owners_later [OF c] by auto
  then show ?thesis by (rule section_world) (simp_all add: st' st_ledger_def)
qed

lemma take_bundle_later:
  "take_bundle ct ps e W = Some (res, W') \<Longrightarrow> world_later ct W0 W \<Longrightarrow> world_later ct W0 W'"
proof (induction ct ps e W arbitrary: res rule: take_bundle.induct)
  case (2 ct ty required ps e W)
  then obtain W1 where r: "remove_component ct ty e None W = Some W1" by (auto simp: Let_def elim!: bind_SomeE)
  have "world_later ct W0 W1" by (rule later_op [OF "2.prems"(2) ws_remove [OF r]])
  then show ?case using "2.prems"(1) "2.IH" [OF refl, of W1] r by (auto simp: Let_def split: if_splits)
qed simp

section \<open>The start of a generation\<close>

lemma queue_apply_later:
  assumes "queue_apply ct owner W q = (Some W', q')" and "world_later ct W0 W"
  shows "world_later ct W0 W'"
proof -
  obtain t where "apply_or_defer ct owner W None q = (Some W', t, q')"
    using assms(1) by (auto simp: queue_apply_def split: prod.splits)
  then show ?thesis using assms(2) operation_leads by (rule apply_or_defer_invariant)
qed

lemma compact_logs_section:
  assumes "compact_logs st = Some st'"
  shows "section_ok ct st st'" and "st_deferred_settle st' = st_deferred_settle st"
proof -
  obtain rolled W where r: "maybe_roll_plan_epoch (st_world st) = Some (rolled, W)"
    and rest: "(case rolled of None \<Rightarrow> Some (st\<lparr>st_world := W\<rparr>)
      | Some (epoch, log) \<Rightarrow> map_option (\<lambda>defs. st\<lparr>st_world := W, st_systems := defs\<rparr>)
          (those (map (compact_plan_log epoch log W) (st_systems st)))) = Some st'"
    using assms by (auto simp: compact_logs_def elim!: bind_SomeE)
  obtain defs where st': "st' = st\<lparr>st_world := W, st_systems := defs\<rparr>"
  proof (cases rolled)
    case None
    then have "st' = st\<lparr>st_world := W, st_systems := st_systems st\<rparr>" using rest by (cases st) auto
    then show thesis by (rule that)
  next
    case (Some p)
    then show thesis using rest that by (cases p) auto
  qed
  show "section_ok ct st st'"
    by (rule section_world [OF later_op [OF _ ws_roll [OF r]]]) (simp_all add: st' st_ledger_def)
  show "st_deferred_settle st' = st_deferred_settle st" by (simp add: st')
qed

lemma deferred_settle_later:
  assumes "apply_deferred_settle ct outs W = Some W'" and "world_later ct W0 W"
  shows "world_later ct W0 W'"
  by (rule fold_opt_invariant [OF assms(1) [unfolded apply_deferred_settle_def], where P = "world_later ct W0"])
    (use assms(2) queue_apply_later in \<open>fastforce simp: prod_eq_iff\<close>)+

lemma start_evaluation_steps:
  assumes "start_evaluation ct st0 = Some (Some (generation, memo, startup), st')"
  shows "st_pending st0 = Some generation"
    and "\<exists>W inputs W'. queue_apply ct None W (st_pending_inputs st0) = (Some W', inputs)
      \<and> st_ledger st' = ((None, inputs, st_deferred_inputs st0, generation + 1),
          (Some generation, st_completed st0, st_input_seq st0, st_settling st0))"
    and "world_later ct (st_world st0) (st_world st')"
    and "world_settled ct (st_world st0) \<Longrightarrow> pool_fine ct st0 \<Longrightarrow> pool_fine ct st'"
proof -
  show g: "st_pending st0 = Some generation"
    using assms by (auto simp: start_evaluation_def Let_def elim!: bind_SomeE split: option.splits prod.splits)
  let ?take = "\<lambda>W. W\<lparr>w_written_derived := [], w_removed_entities := [], w_removed_component_owners := [], w_removed_owners := []\<rparr>"
  obtain st W1 W2 inputs W3 g1 memo1 defs g2 st1 where
    c: "compact_logs (st0\<lparr>st_pending := None\<rparr>) = Some st"
    and d: "apply_deferred_settle ct (st_deferred_settle st) (st_world st) = Some W1"
    and q: "queue_apply ct None W1 (st_pending_inputs st) = (Some W2, inputs)"
    and f: "flush_derived_from ct W2 = Some W3"
    and ro: "reconcile_removed_output_owners None (w_removed_component_owners W3) (st_memo st, st_systems st) = Some (g1, memo1, defs)"
    and ri: "reconcile_removed_invocations ct None (w_removed_entities W3) []
        (st\<lparr>st_world := ?take W3, st_deferred_settle := [], st_pending_inputs := inputs, st_systems := defs\<rparr>, memo1) = Some (g2, st1, memo)"
    and st': "mark_running generation st1 = (startup, st')"
    using assms by (auto simp: start_evaluation_def g take_written_derived_def take_removed_entities_def
        take_removed_component_owners_def take_removed_owners_def elim!: bind_SomeE split: prod.splits)
  let ?st1 = "st\<lparr>st_world := ?take W3, st_deferred_settle := [], st_pending_inputs := inputs, st_systems := defs\<rparr>"
  have c': "section_ok ct (st0\<lparr>st_pending := None\<rparr>) st" by (rule compact_logs_section(1) [OF c])
  have ri': "section_ok ct ?st1 st1" by (rule reconcile_invocations_section [OF ri])
  have marked: "st_world st' = st_world st1" "st_planning_storage st' = st_planning_storage st1"
    "st_snapshot_cache st' = st_snapshot_cache st1"
    "st_ledger st' = ((st_pending st1, st_pending_inputs st1, st_deferred_inputs st1, generation + 1),
       (Some generation, st_completed st1, st_input_seq st1, st_settling st1))"
    using st' by (auto simp: mark_running_def st_ledger_def)
  show "\<exists>W inputs W'. queue_apply ct None W (st_pending_inputs st0) = (Some W', inputs)
      \<and> st_ledger st' = ((None, inputs, st_deferred_inputs st0, generation + 1),
          (Some generation, st_completed st0, st_input_seq st0, st_settling st0))"
    using c' ri' q marked unfolding section_ok_def st_ledger_def by auto
  have l1: "world_later ct (st_world st0) (st_world st)" using c' by (simp add: section_ok_def)
  have "world_later ct (st_world st) W3"
    by (rule later_op [OF queue_apply_later [OF q deferred_settle_later [OF d rtranclp.rtrancl_refl]] ws_flush [OF f]])
  then have l2: "world_later ct (st_world st) (?take W3)" by (intro later_drained)
  show later: "world_later ct (st_world st0) (st_world st')"
    using rtranclp_trans [OF rtranclp_trans [OF l1 l2]] ri' marked by (simp add: section_ok_def)
  assume settled: "world_settled ct (st_world st0)" and "pool_fine ct st0"
  then have "pool_fine ct st" using c' by (simp add: section_ok_def pool_fine_def)
  then have "pool_fine ct ?st1" using cached_later [OF _ l2] by (auto simp: pool_fine_def)
  moreover have "world_settled ct (?take W3)" using leads_reachable [OF rtranclp_trans [OF l1 l2] settled] .
  ultimately show "pool_fine ct st'" using ri' marked by (simp add: section_ok_def pool_fine_def)
qed

end
