(* ===== verification/Externals.thy ===== *)
theory Externals
  imports Settle "HOL-Library.Sublist"
begin

text \<open>
  Reads and writes from outside the systems (query.rs, bowl.rs): the runtime arguments of a scoop,
  its filters, the rows it materializes, the cursor and drain reads, the handles for optimistic
  writes, the copy-on-write updates, and the report on one system.

  The comparisons of a component (\<open>PartialEq\<close>, \<open>PartialOrd\<close>) are code of the user and come as a
  record of functions.  A panic is \<open>None\<close>.  A scoop settles first; that is other steps of the
  engine, and a definition here is the section that follows.
\<close>

section \<open>Runtime arguments\<close>

text \<open>Values by component type, shared or scoped to the tag of a named query.\<close>

type_synonym tag = nat

record 'v query_args =
  qa_shared :: "type_id \<rightharpoonup> 'v cvalue"
  qa_scoped :: "tag \<times> type_id \<rightharpoonup> 'v cvalue"

definition query_args_default :: "'v query_args" where
  "query_args_default = \<lparr>qa_shared = Map.empty, qa_scoped = Map.empty\<rparr>"

text \<open>A second argument of one type panics; \<open>None\<close> as a result of \<open>args_get\<close> is the missing argument.\<close>

definition args_insert :: "tag option \<Rightarrow> type_id \<Rightarrow> 'v cvalue \<Rightarrow> 'v query_args \<Rightarrow> 'v query_args option" where
  "args_insert scope ty v A = (case scope of
     Some tag \<Rightarrow> if qa_scoped A (tag, ty) \<noteq> None then None else Some (A\<lparr>qa_scoped := (qa_scoped A)((tag, ty) \<mapsto> v)\<rparr>)
   | None \<Rightarrow> if qa_shared A ty \<noteq> None then None else Some (A\<lparr>qa_shared := (qa_shared A)(ty \<mapsto> v)\<rparr>))"

definition args_get :: "tag option \<Rightarrow> type_id \<Rightarrow> 'v query_args \<Rightarrow> 'v cvalue option" where
  "args_get scope ty A = (case Option.bind scope (\<lambda>tag. qa_scoped A (tag, ty)) of
     Some v \<Rightarrow> Some v | None \<Rightarrow> qa_shared A ty)"

text \<open>An argument is a component or a tuple of arguments.\<close>

datatype 'v arg_bundle = Arg type_id "'v cvalue" | ArgTuple "'v arg_bundle list"

fun insert_into :: "tag option \<Rightarrow> 'v arg_bundle \<Rightarrow> 'v query_args \<Rightarrow> 'v query_args option"
  and insert_tuple :: "tag option \<Rightarrow> 'v arg_bundle list \<Rightarrow> 'v query_args \<Rightarrow> 'v query_args option" where
  "insert_into scope (Arg ty v) A = args_insert scope ty v A"
| "insert_into scope (ArgTuple bs) A = insert_tuple scope bs A"
| "insert_tuple scope [] A = Some A"
| "insert_tuple scope (b # bs) A = Option.bind (insert_into scope b A) (insert_tuple scope bs)"

text \<open>The builder's calls of \<open>args\<close> (no tag) and \<open>args_for\<close>.\<close>

definition scoop_args :: "(tag option \<times> 'v arg_bundle) list \<Rightarrow> 'v query_args option" where
  "scoop_args calls = fold_opt (\<lambda>(scope, b). insert_into scope b) calls query_args_default"

section \<open>Filters\<close>

record 'v comparisons =
  cmp_eq :: "type_id \<Rightarrow> 'v cvalue \<Rightarrow> 'v cvalue \<Rightarrow> bool"
  cmp_ge :: "type_id \<Rightarrow> 'v cvalue \<Rightarrow> 'v cvalue \<Rightarrow> bool"

datatype filter_expr =
    EqE type_id
  | GteE type_id
  | WithE type_id
  | WithoutE type_id
  | AndE filter_expr filter_expr
  | OrE filter_expr filter_expr
  | NotE filter_expr

text \<open>\<open>value.is_some_and(..)\<close>: the argument is only looked up for a component that is there.\<close>

definition compare_arg ::
  "(type_id \<Rightarrow> 'v cvalue \<Rightarrow> 'v cvalue \<Rightarrow> bool) \<Rightarrow> type_id \<Rightarrow> entity \<Rightarrow> 'v world \<Rightarrow> 'v query_args \<Rightarrow> tag option \<Rightarrow> bool option" where
  "compare_arg cmp ty e W A scope = (case value_of W ty e of
     None \<Rightarrow> Some False | Some v \<Rightarrow> map_option (cmp ty v) (args_get scope ty A))"

fun expr_matches :: "'v comparisons \<Rightarrow> filter_expr \<Rightarrow> entity \<Rightarrow> 'v world \<Rightarrow> 'v query_args \<Rightarrow> tag option \<Rightarrow> bool option" where
  "expr_matches cmp (EqE ty) e W A scope = compare_arg (cmp_eq cmp) ty e W A scope"
| "expr_matches cmp (GteE ty) e W A scope = compare_arg (cmp_ge cmp) ty e W A scope"
| "expr_matches cmp (WithE ty) e W A scope = Some (has_component W ty e)"
| "expr_matches cmp (WithoutE ty) e W A scope = Some (\<not> has_component W ty e)"
| "expr_matches cmp (AndE a b) e W A scope = Option.bind (expr_matches cmp a e W A scope)
     (\<lambda>x. if x then expr_matches cmp b e W A scope else Some False)"
| "expr_matches cmp (OrE a b) e W A scope = Option.bind (expr_matches cmp a e W A scope)
     (\<lambda>x. if x then Some True else expr_matches cmp b e W A scope)"
| "expr_matches cmp (NotE a) e W A scope = map_option Not (expr_matches cmp a e W A scope)"

text \<open>
  The entities an index offers: \<open>None\<close> is a panic, \<open>Some None\<close> an expression that cannot narrow
  them.  A conjunction takes the first side that can.
\<close>

fun expr_candidates :: "'v component_trait \<Rightarrow> filter_expr \<Rightarrow> 'v world \<Rightarrow> 'v query_args \<Rightarrow> tag option \<Rightarrow> entity list option option" where
  "expr_candidates ct (EqE ty) W A scope = map_option
     (\<lambda>v. map_option (entities_with_fingerprint W ty) (fingerprint ct ty v)) (args_get scope ty A)"
| "expr_candidates ct (GteE ty) W A scope = Some None"
| "expr_candidates ct (WithE ty) W A scope = Some (Some (entities_with W ty))"
| "expr_candidates ct (WithoutE ty) W A scope = Some None"
| "expr_candidates ct (AndE a b) W A scope = Option.bind (expr_candidates ct a W A scope)
     (\<lambda>cs. case cs of Some es \<Rightarrow> Some (Some es) | None \<Rightarrow> expr_candidates ct b W A scope)"
| "expr_candidates ct (OrE a b) W A scope = Some None"
| "expr_candidates ct (NotE a) W A scope = Some None"

text \<open>The filters of an external query: \<open>()\<close>, \<open>Where<F>\<close>, \<open>With<T>\<close>, \<open>Without<T>\<close>.\<close>

datatype external_filter = NoFilterX | WhereX filter_expr | WithX type_id | WithoutX type_id

fun ext_matches :: "'v comparisons \<Rightarrow> external_filter \<Rightarrow> 'v world \<Rightarrow> 'v query_args \<Rightarrow> tag option \<Rightarrow> entity \<Rightarrow> bool option" where
  "ext_matches cmp NoFilterX W A scope e = Some True"
| "ext_matches cmp (WhereX F) W A scope e = expr_matches cmp F e W A scope"
| "ext_matches cmp (WithX ty) W A scope e = Some (has_component W ty e)"
| "ext_matches cmp (WithoutX ty) W A scope e = Some (\<not> has_component W ty e)"

fun ext_candidates :: "'v component_trait \<Rightarrow> external_filter \<Rightarrow> 'v world \<Rightarrow> 'v query_args \<Rightarrow> tag option \<Rightarrow> entity list option option" where
  "ext_candidates ct NoFilterX W A scope = Some None"
| "ext_candidates ct (WhereX F) W A scope = expr_candidates ct F W A scope"
| "ext_candidates ct (WithX ty) W A scope = Some (Some (entities_with W ty))"
| "ext_candidates ct (WithoutX ty) W A scope = Some None"

section \<open>Rows\<close>

definition external_filtered_rows :: "'v component_trait \<Rightarrow> 'v comparisons \<Rightarrow> query_param \<Rightarrow> external_filter \<Rightarrow>
    'v world \<Rightarrow> 'v query_args \<Rightarrow> tag option \<Rightarrow> entity list option" where
  "external_filtered_rows ct cmp Q F W A scope = Option.bind (ext_candidates ct F W A scope)
     (\<lambda>cs. filter_opt (ext_matches cmp F W A scope) (qm_rows_hinted (param_impl ct Q) W cs))"

definition cow_rows_hinted :: "type_id \<Rightarrow> 'v world \<Rightarrow> entity list option \<Rightarrow> entity list" where
  "cow_rows_hinted ty W hint = (case hint of
     Some cs \<Rightarrow> filter (has_component W ty) cs | None \<Rightarrow> entities_with W ty)"

text \<open>The rows of \<open>Cow<T>\<close>, with or without the entity.\<close>

definition external_filtered_cow_rows :: "'v component_trait \<Rightarrow> 'v comparisons \<Rightarrow> type_id \<Rightarrow> external_filter \<Rightarrow>
    'v world \<Rightarrow> 'v query_args \<Rightarrow> tag option \<Rightarrow> entity list option" where
  "external_filtered_cow_rows ct cmp ty F W A scope = Option.bind (ext_candidates ct F W A scope)
     (\<lambda>cs. filter_opt (ext_matches cmp F W A scope) (cow_rows_hinted ty W cs))"

definition external_mut_rows :: "'v component_trait \<Rightarrow> 'v comparisons \<Rightarrow> type_id \<Rightarrow> external_filter \<Rightarrow>
    'v world \<Rightarrow> 'v query_args \<Rightarrow> tag option \<Rightarrow> (entity \<times> nat option) list option" where
  "external_mut_rows ct cmp ty F W A scope = Option.bind (ext_candidates ct F W A scope)
     (\<lambda>cs. map_option (map (\<lambda>e. (e, revision_by_type W ty e)))
       (filter_opt (ext_matches cmp F W A scope)
         (case cs of Some es \<Rightarrow> filter (has_component W ty) es | None \<Rightarrow> entities_with W ty)))"

section \<open>Scoops\<close>

text \<open>One or more result sets from one snapshot; a name decides whose arguments its filters read.\<close>

datatype scoop =
    QueryScoop query_param external_filter
  | MutScoop type_id external_filter
  | EntityMutScoop type_id external_filter
  | NamedScoop tag scoop
  | ScoopTuple "scoop list"

datatype scooped =
    QueryRows "entity list"
  | MutRows "(entity \<times> nat option) list"
  | EntityMutRows "(entity \<times> nat option) list"
  | ScoopedTuple "scooped list"

fun materialize :: "'v component_trait \<Rightarrow> 'v comparisons \<Rightarrow> 'v world \<Rightarrow> 'v query_args \<Rightarrow> tag option \<Rightarrow> scoop \<Rightarrow> scooped option"
  and materialize_all :: "'v component_trait \<Rightarrow> 'v comparisons \<Rightarrow> 'v world \<Rightarrow> 'v query_args \<Rightarrow> tag option \<Rightarrow> scoop list \<Rightarrow> scooped list option" where
  "materialize ct cmp W A scope (QueryScoop Q F) = map_option QueryRows (external_filtered_rows ct cmp Q F W A scope)"
| "materialize ct cmp W A scope (MutScoop ty F) = map_option MutRows (external_mut_rows ct cmp ty F W A scope)"
| "materialize ct cmp W A scope (EntityMutScoop ty F) = map_option EntityMutRows (external_mut_rows ct cmp ty F W A scope)"
| "materialize ct cmp W A scope (NamedScoop tag s) = materialize ct cmp W A (Some tag) s"
| "materialize ct cmp W A scope (ScoopTuple ss) = map_option ScoopedTuple (materialize_all ct cmp W A scope ss)"
| "materialize_all ct cmp W A scope [] = Some []"
| "materialize_all ct cmp W A scope (s # ss) = Option.bind (materialize ct cmp W A scope s)
     (\<lambda>r. map_option (Cons r) (materialize_all ct cmp W A scope ss))"

text \<open>
  The snapshot of a scoop: of the last settled state when asked for and retained, else of the
  current one.
\<close>

definition scoop_snapshot :: "bool \<Rightarrow> 'v engine \<Rightarrow> ('v world \<times> 'v engine) option" where
  "scoop_snapshot last_settled E = (case (if last_settled then eg_settled_read E else None) of
     Some W \<Rightarrow> Some (W, E)
   | None \<Rightarrow> map_option (\<lambda>(W, st). (W, E\<lparr>eg_state := st\<rparr>)) (snapshot_locked (eg_state E)))"

definition scoop_section :: "'v component_trait \<Rightarrow> 'v comparisons \<Rightarrow> bool \<Rightarrow> scoop \<Rightarrow> 'v query_args \<Rightarrow> 'v engine \<Rightarrow> (scooped \<times> 'v engine) option" where
  "scoop_section ct cmp last_settled s A E = do {
     (W, E1) \<leftarrow> scoop_snapshot last_settled E;
     r \<leftarrow> materialize ct cmp W A None s;
     Some (r, E1) }"

text \<open>The rows a result hands out: the item of every row.\<close>

definition collect_rows :: "'v component_trait \<Rightarrow> query_param \<Rightarrow> 'v world \<Rightarrow> entity list \<Rightarrow> 'v item list option" where
  "collect_rows ct Q W es = all_opt (map (qm_fetch (param_impl ct Q) W) es)"

text \<open>Only the rows with a dependency newer than the cursor.\<close>

definition changed_rows :: "'v component_trait \<Rightarrow> query_param \<Rightarrow> nat \<Rightarrow> 'v world \<Rightarrow> entity list \<Rightarrow> entity list option" where
  "changed_rows ct Q cursor W es = filter_opt (\<lambda>e. map_option (list_ex (\<lambda>d. cursor < revision_raw d)) (qm_deps (param_impl ct Q) W e)) es"

definition changed_since :: "'v component_trait \<Rightarrow> 'v comparisons \<Rightarrow> query_param \<Rightarrow> external_filter \<Rightarrow> 'v query_args \<Rightarrow> nat \<Rightarrow>
    'v engine \<Rightarrow> (entity list \<times> 'v engine) option" where
  "changed_since ct cmp Q F A cursor E = do {
     (W, st) \<leftarrow> snapshot_locked (eg_state E);
     es \<leftarrow> external_filtered_rows ct cmp Q F W A None;
     changed \<leftarrow> changed_rows ct Q cursor W es;
     Some (changed, E\<lparr>eg_state := st\<rparr>) }"

text \<open>The drain read: the rows, and their entities removed under the same lock.\<close>

definition drain_read :: "'v component_trait \<Rightarrow> 'v comparisons \<Rightarrow> query_param \<Rightarrow> external_filter \<Rightarrow> 'v query_args \<Rightarrow>
    'v engine \<Rightarrow> (entity list \<times> 'v engine) option" where
  "drain_read ct cmp Q F A E = do {
     (W, st) \<leftarrow> snapshot_locked (eg_state E);
     es \<leftarrow> external_filtered_rows ct cmp Q F W A None;
     E' \<leftarrow> drain_rows ct es E;
     Some (es, E') }"

section \<open>Handles for optimistic writes\<close>

record mut_handle =
  mh_entity :: entity
  mh_revision :: "nat option"
  mh_deferred :: bool

definition mut_new :: "entity \<Rightarrow> nat option \<Rightarrow> mut_handle" where
  "mut_new e revision = \<lparr>mh_entity = e, mh_revision = revision, mh_deferred = False\<rparr>"

definition mut_deferred :: "mut_handle \<Rightarrow> mut_handle" where
  "mut_deferred h = h\<lparr>mh_deferred := True\<rparr>"

definition collect_handles :: "(entity \<times> nat option) list \<Rightarrow> mut_handle list" where
  "collect_handles ps = map (\<lambda>(e, revision). mut_new e revision) ps"

text \<open>Both calls wait for a boundary; \<open>with_original\<close> names the revision it expects.\<close>

definition with_original :: "type_id \<Rightarrow> ('v cvalue \<Rightarrow> 'v cvalue) \<Rightarrow> mut_handle \<Rightarrow> 'v engine \<Rightarrow> 'v engine" where
  "with_original ty f h E = E\<lparr>eg_waiting := eg_waiting E
     @ [\<lparr>wt_registered = False, wt_deferred = mh_deferred h, wt_call = MutateComponent ty (mh_entity h) f (Some (mh_revision h))\<rparr>]\<rparr>"

definition with_latest :: "type_id \<Rightarrow> ('v cvalue \<Rightarrow> 'v cvalue) \<Rightarrow> mut_handle \<Rightarrow> 'v engine \<Rightarrow> 'v engine" where
  "with_latest ty f h E = E\<lparr>eg_waiting := eg_waiting E
     @ [\<lparr>wt_registered = False, wt_deferred = mh_deferred h, wt_call = MutateComponent ty (mh_entity h) f None\<rparr>]\<rparr>"

section \<open>Copy-on-write updates\<close>

text \<open>
  The closure is called for one row after another and may remember what it was handed before: it
  is a function of the rows it has seen and the row it gets.  \<open>update_component\<close> blocks until the
  component's cell is free.
\<close>

type_synonym 'v cow_closure = "(entity \<times> 'v cvalue) list \<Rightarrow> entity \<times> 'v cvalue \<Rightarrow> 'v cvalue"

text \<open>
  The critical section is that of the optimistic write; a free cell is never \<open>Busy\<close>.
\<close>

definition update_component_live :: "'v component_trait \<Rightarrow> type_id \<Rightarrow> entity \<Rightarrow> ('v cvalue \<Rightarrow> 'v cvalue) \<Rightarrow> 'v world \<Rightarrow> (bool \<times> 'v world) option" where
  "update_component_live ct ty e f W = (case try_update_component_live ct ty e False f W of
     Applied changed W' \<Rightarrow> Some (changed, W') | Missing \<Rightarrow> None | Busy \<Rightarrow> None)"

text \<open>Whether the row changed; a row without the component is left alone.\<close>

definition cow_for_each_mut :: "'v component_trait \<Rightarrow> type_id \<Rightarrow> entity \<Rightarrow> ('v cvalue \<Rightarrow> 'v cvalue) \<Rightarrow> 'v world \<Rightarrow> bool \<times> 'v world" where
  "cow_for_each_mut ct ty e f W = (case update_component_live ct ty e f W of
     Some p \<Rightarrow> p | None \<Rightarrow> (False, W))"

primrec cow_loop :: "'v component_trait \<Rightarrow> type_id \<Rightarrow> 'v cow_closure \<Rightarrow> entity list \<Rightarrow> (entity \<times> 'v cvalue) list \<Rightarrow> 'v world \<Rightarrow>
    bool \<Rightarrow> bool \<times> 'v world" where
  "cow_loop ct ty f [] seen W changed = (changed, W)"
| "cow_loop ct ty f (e # es) seen W changed =
     (let (c, W') = cow_for_each_mut ct ty e (\<lambda>v. f seen (e, v)) W;
          seen' = (case value_of W ty e of None \<Rightarrow> seen | Some v \<Rightarrow> seen @ [(e, v)])
      in cow_loop ct ty f es seen' W' (changed \<or> c))"

definition for_each :: "'v component_trait \<Rightarrow> 'v comparisons \<Rightarrow> type_id \<Rightarrow> external_filter \<Rightarrow> 'v query_args \<Rightarrow> tag option \<Rightarrow>
    'v cow_closure \<Rightarrow> 'v engine \<Rightarrow> 'v engine option" where
  "for_each ct cmp ty F A scope f E = map_option (\<lambda>es.
       let (changed, W) = cow_loop ct ty f es [] (st_world (eg_state E)) False;
           st = (eg_state E)\<lparr>st_world := W\<rparr>
       in E\<lparr>eg_state := if changed then enqueue_next_generation (st\<lparr>st_normal_clean := False\<rparr>) else st\<rparr>)
     (external_filtered_cow_rows ct cmp ty F (st_world (eg_state E)) A scope)"

section \<open>Explaining a system\<close>

text \<open>
  The first system whose name ends with what is asked for; its rows, those the memo makes up to
  date, and the viewed stores that have moved past the plan of one of its invocations.
\<close>

record explain_report =
  er_registered :: bool
  er_phase :: "phase option"
  er_matched :: nat
  er_memoized :: nat
  er_stale_views :: nat

definition stale_view_count :: "'v boxed_system \<Rightarrow> nat \<Rightarrow> 'v world \<Rightarrow> memo_table \<Rightarrow> nat" where
  "stale_view_count s index W memo = length (filter (\<lambda>ty. list_ex (\<lambda>(owner, entry).
       inv_system owner = index \<and> me_planned_revision entry < store_watermark W ty) memo) (remdups (bs_view_freshness s)))"

definition explain :: "string list \<Rightarrow> string \<Rightarrow> 'v engine \<Rightarrow> (explain_report \<times> 'v engine) option" where
  "explain names system E = (let st = eg_state E in
     Option.bind (snapshot_locked st) (\<lambda>(W, st').
       case find (\<lambda>i. suffix system (names ! i)) [0..<length (st_systems st)] of
         None \<Rightarrow> Some (\<lparr>er_registered = False, er_phase = None, er_matched = 0, er_memoized = 0, er_stale_views = 0\<rparr>,
           E\<lparr>eg_state := st'\<rparr>)
       | Some i \<Rightarrow> map_option (\<lambda>(matched, memoized).
           (\<lparr>er_registered = True, er_phase = Some (bs_phase (st_systems st ! i)), er_matched = matched, er_memoized = memoized,
             er_stale_views = stale_view_count (st_systems st ! i) i W (st_memo st)\<rparr>, E\<lparr>eg_state := st'\<rparr>))
           (row_counts (bs_runnable (st_systems st ! i)) W (st_memo st))))"

end
