(* ===== verification/Engine_Steps.thy ===== *)
theory Engine_Steps
  imports Engine_World Externals
begin

text \<open>
  The engine as a transition system: any number of callers insert, mutate, settle, read and drop
  their futures, one of them drives at a time.  A step is one section under the state lock; its
  event says what it did with the inputs.
\<close>

section \<open>Steps\<close>

datatype 'v event =
    Accepted "'v operation list" "nat option"
  | Held "'v operation list"
  | Released "'v operation list" nat
  | Withdrawn "'v operation list"
  | Began nat "'v operation list"
  | Quiet

primrec input_event :: "'v operation list \<Rightarrow> input_outcome \<Rightarrow> 'v event" where
  "input_event ops (Queued g) = Accepted ops (Some g)"
| "input_event ops (DeferredTo g) = Accepted ops None"
| "input_event ops MustWait = Held ops"

primrec call_ops :: "'v wait_call \<Rightarrow> 'v operation list" where
  "call_ops (QueueInput q) = contents q"
| "call_ops (MutateComponent ty e f original) = []"

abbreviation put_state :: "'v engine \<Rightarrow> 'v state \<Rightarrow> 'v engine" where
  "put_state E st \<equiv> E\<lparr>eg_state := st\<rparr>"

definition on_world :: "('v world \<Rightarrow> 'v world) \<Rightarrow> 'v engine \<Rightarrow> 'v engine" where
  "on_world f E = on_state (\<lambda>st. st\<lparr>st_world := f (st_world st)\<rparr>) E"

text \<open>
  The marks and the pool after a planning wave over a snapshot \<open>W\<close> with its log, with whatever the
  phase has dispatched before and the pool it was lent.
\<close>

definition planned :: "nat option \<Rightarrow> nat \<Rightarrow> phase \<Rightarrow> 'v world \<Rightarrow> out_pair list \<Rightarrow> 64 word \<Rightarrow> 'v wave \<Rightarrow> memo_table \<Rightarrow>
    'v state \<Rightarrow> ('v wave \<times> 'v state) option" where
  "planned workers maximum ph W log epoch v memo st =
     map_option (\<lambda>(defs, v'). (v', st\<lparr>st_systems := defs, st_planning_storage := Some (wv_pool v')\<rparr>))
       (plan_wave workers maximum ph W memo log epoch (st_systems st) v)"

inductive engine_step :: "'v component_trait \<Rightarrow> 'v event \<Rightarrow> 'v engine \<Rightarrow> 'v engine \<Rightarrow> bool" for ct where
  es_insert: "insert_inner b preempting target E = Some (e, res, E') \<Longrightarrow>
    engine_step ct (input_event (map (\<lambda>(ty, v). Base (InsertBaseCommand e ty v)) b) res) E E'"
| es_despawn: "despawn_inner e preempting E = (res, E') \<Longrightarrow>
    engine_step ct (input_event [Base (DespawnBaseCommand e)] res) E E'"
| es_remove: "remove_component_inner ty e preempting E = (res, E') \<Longrightarrow>
    engine_step ct (input_event [Base (RemoveComponentBaseCommand ty e)] res) E E'"
| es_mutate: "engine_step ct Quiet E (E\<lparr>eg_waiting := eg_waiting E
      @ [\<lparr>wt_registered = False, wt_deferred = d, wt_call = MutateComponent ty e f original\<rparr>]\<rparr>)"
| es_retry: "i < length (eg_waiting E) \<Longrightarrow> retry_waiter ct held i E = (res, E') \<Longrightarrow>
    engine_step ct (case res of Some (Some g) \<Rightarrow> Released (call_ops (wt_call (eg_waiting E ! i))) g | _ \<Rightarrow> Quiet) E E'"
| es_withdraw: "i < length (eg_waiting E) \<Longrightarrow>
    engine_step ct (Withdrawn (call_ops (wt_call (eg_waiting E ! i)))) E (drop_waiter i E)"
| es_begin: "eg_guard E = None \<Longrightarrow> begin_generation ct E = Some (started, E') \<Longrightarrow>
    engine_step ct (case st_pending (eg_state E) of None \<Rightarrow> Quiet
      | Some g \<Rightarrow> Began g (contents (st_pending_inputs (eg_state E)))) E E'"
| es_lend: "engine_step ct Quiet E (on_state (\<lambda>st. st\<lparr>st_planning_storage := None\<rparr>) E)"
| es_plan: "eg_guard E = Some (g, memo) \<Longrightarrow> pool_ok (wv_pool v) \<Longrightarrow> planned workers maximum ph W log epoch v memo (eg_state E) = Some (v', st) \<Longrightarrow>
    engine_step ct Quiet E (put_state E st)"
| es_stale: "engine_step ct Quiet E (on_state (\<lambda>st. st\<lparr>st_systems := (st_systems st)[i := force_replan keys (st_systems st ! i)]\<rparr>) E)"
| es_spawn: "w_next_entity (st_world (eg_state E)) \<le> n \<Longrightarrow> engine_step ct Quiet E (on_world (\<lambda>W. W\<lparr>w_next_entity := n\<rparr>) E)"
| es_write: "engine_step ct Quiet E (on_world (write_cell ty e x) E)"
| es_commit: "driver_commit ct ph run E = Some (prog, E') \<Longrightarrow> engine_step ct Quiet E E'"
| es_open: "engine_step ct Quiet E (on_state open_preempt_window E)"
| es_close: "engine_step ct Quiet E (on_state close_preempt_window E)"
| es_restart: "engine_step ct Quiet E (on_state after_preemption E)"
| es_complete: "engine_step ct Quiet E (complete_generation changed E)"
| es_abandon: "engine_step ct Quiet E (abandon_generation E)"
| es_wait: "engine_step ct Quiet E (on_state (\<lambda>st. snd (wait_for_generation target st)) E)"
| es_enqueue: "engine_step ct Quiet E (on_state enqueue_next_generation E)"
| es_enter: "engine_step ct Quiet E (epoch_enter E)"
| es_leave: "i < length (eg_epochs E) \<Longrightarrow> engine_step ct Quiet E (epoch_drop i E)"
| es_fast: "settle_fast E = Some (done, E') \<Longrightarrow> engine_step ct Quiet E E'"
| es_head: "mark \<in> set (eg_epochs E) \<Longrightarrow> settle_head mark E = Some (nxt, E') \<Longrightarrow> engine_step ct Quiet E E'"
| es_evaluated: "mark \<in> set (eg_epochs E) \<Longrightarrow> settle_evaluated mark E = Some (nxt, E') \<Longrightarrow> engine_step ct Quiet E E'"
| es_settled: "mark \<in> set (eg_epochs E) \<Longrightarrow> settle_close mark E = Some (nxt, E') \<Longrightarrow> engine_step ct Quiet E E'"
| es_heal: "heal_stale_ambient attempts E = Some (healed, attempts', E') \<Longrightarrow> engine_step ct Quiet E E'"
| es_hooks_begin: "engine_step ct Quiet E (hooks_begin E)"
| es_hook_commit: "i < length (eg_hook_memos E) \<Longrightarrow> hook_commit ct phase i run E = Some (prog, E') \<Longrightarrow> engine_step ct Quiet E E'"
| es_hooks_end: "i < length (eg_hook_memos E) \<Longrightarrow> engine_step ct Quiet E (hooks_end i E)"
| es_hooks_dropped: "engine_step ct Quiet E (E\<lparr>eg_hook_memos := drop_nth i (eg_hook_memos E)\<rparr>)"
| es_drop_bound: "engine_step ct Quiet E (drop_bound e E)"
| es_cleanup: "drain_deferred_bound_cleanup ct E = Some E' \<Longrightarrow> engine_step ct Quiet E E'"
| es_take: "take_bound ct blocked ps e E = Some (res, E') \<Longrightarrow> engine_step ct Quiet E E'"
| es_drain: "drain_rows ct es E = Some E' \<Longrightarrow> engine_step ct Quiet E E'"
| es_for_each: "for_each ct cmp ty F A scope f E = Some E' \<Longrightarrow> engine_step ct Quiet E E'"
| es_snapshot: "snapshot_locked (eg_state E) = Some (W, st) \<Longrightarrow> engine_step ct Quiet E (put_state E st)"

inductive engine_run :: "'v component_trait \<Rightarrow> 'v event list \<Rightarrow> 'v engine \<Rightarrow> bool" for ct where
  er_build: "build shapes steps = Some E \<Longrightarrow> engine_run ct [] E"
| er_step: "engine_run ct tr E \<Longrightarrow> engine_step ct ev E E' \<Longrightarrow> engine_run ct (tr @ [ev]) E'"

section \<open>The state invariant\<close>

text \<open>The generations, the queued inputs and the deferred ones.\<close>

definition ledger_ok :: "'v state \<Rightarrow> bool" where
  "ledger_ok st \<longleftrightarrow> st_completed st < st_next st
     \<and> (\<forall>p. st_pending st = Some p \<longrightarrow> st_completed st < p \<and> (p = st_next st \<or> st_running st = None \<and> Suc p = st_next st))
     \<and> (\<forall>g. st_running st = Some g \<longrightarrow> st_completed st < g \<and> st_next st = Suc g)
     \<and> queue_ok (st_pending_inputs st) \<and> (st_pending st = None \<longrightarrow> contents (st_pending_inputs st) = [])
     \<and> (\<forall>d\<in>set (st_deferred_inputs st). queue_ok (snd d) \<and> fst d \<le> st_input_seq st)
     \<and> sorted_wrt (<) (map fst (st_deferred_inputs st))
     \<and> (st_settling st = 0 \<longrightarrow> st_deferred_inputs st = [])"

definition waiter_ok :: "'v waiter \<Rightarrow> bool" where
  "waiter_ok w \<longleftrightarrow> (wt_deferred w \<longrightarrow> \<not> wt_registered w)
     \<and> (case wt_call w of QueueInput q \<Rightarrow> queue_ok q | MutateComponent ty e f original \<Rightarrow> True)"

definition tasks_ok :: "'v engine \<Rightarrow> bool" where
  "tasks_ok E \<longleftrightarrow> eg_completed E = st_completed (eg_state E) \<and> st_running (eg_state E) = map_option fst (eg_guard E)
     \<and> st_settling (eg_state E) = length (eg_epochs E) \<and> (\<forall>m\<in>set (eg_epochs E). m \<le> st_input_seq (eg_state E))
     \<and> eg_preempt_waiters E = length (filter wt_registered (eg_waiting E)) \<and> (\<forall>w\<in>set (eg_waiting E). waiter_ok w)"

definition engine_ok :: "'v component_trait \<Rightarrow> 'v engine \<Rightarrow> bool" where
  "engine_ok ct E \<longleftrightarrow> world_settled ct (st_world (eg_state E)) \<and> pool_fine ct (eg_state E)
     \<and> ledger_ok (eg_state E) \<and> tasks_ok E"

section \<open>The account of the inputs\<close>

definition deferred_ops :: "'v state \<Rightarrow> 'v operation multiset" where
  "deferred_ops st = (\<Sum>d\<leftarrow>st_deferred_inputs st. mset (contents (snd d)))"

definition waiting_ops :: "'v engine \<Rightarrow> 'v operation multiset" where
  "waiting_ops E = (\<Sum>w\<leftarrow>eg_waiting E. mset (call_ops (wt_call w)))"

definition outstanding :: "'v engine \<Rightarrow> 'v operation multiset" where
  "outstanding E = mset (contents (st_pending_inputs (eg_state E))) + deferred_ops (eg_state E) + waiting_ops E"

text \<open>The queued inputs that a generation up to \<open>n\<close> is going to drain.\<close>

definition due :: "nat \<Rightarrow> 'v state \<Rightarrow> 'v operation multiset" where
  "due n st = (case st_pending st of None \<Rightarrow> {#}
     | Some p \<Rightarrow> if p \<le> n then mset (contents (st_pending_inputs st)) else {#})"

primrec submitted_by :: "'v event \<Rightarrow> 'v operation multiset" where
  "submitted_by (Accepted ops g) = mset ops"
| "submitted_by (Held ops) = mset ops"
| "submitted_by (Released ops g) = {#}"
| "submitted_by (Withdrawn ops) = {#}"
| "submitted_by (Began g ops) = {#}"
| "submitted_by Quiet = {#}"

primrec applied_by :: "'v event \<Rightarrow> 'v operation multiset" where
  "applied_by (Accepted ops g) = {#}"
| "applied_by (Held ops) = {#}"
| "applied_by (Released ops g) = {#}"
| "applied_by (Withdrawn ops) = {#}"
| "applied_by (Began g ops) = mset ops"
| "applied_by Quiet = {#}"

primrec withdrawn_by :: "'v event \<Rightarrow> 'v operation multiset" where
  "withdrawn_by (Accepted ops g) = {#}"
| "withdrawn_by (Held ops) = {#}"
| "withdrawn_by (Released ops g) = {#}"
| "withdrawn_by (Withdrawn ops) = mset ops"
| "withdrawn_by (Began g ops) = {#}"
| "withdrawn_by Quiet = {#}"

text \<open>The operations whose caller was told a generation up to \<open>n\<close>.\<close>

primrec promised_by :: "nat \<Rightarrow> 'v event \<Rightarrow> 'v operation multiset" where
  "promised_by n (Accepted ops g) = (case g of None \<Rightarrow> {#} | Some g \<Rightarrow> if g \<le> n then mset ops else {#})"
| "promised_by n (Held ops) = {#}"
| "promised_by n (Released ops g) = (if g \<le> n then mset ops else {#})"
| "promised_by n (Withdrawn ops) = {#}"
| "promised_by n (Began g ops) = {#}"
| "promised_by n Quiet = {#}"

definition over :: "('v event \<Rightarrow> 'v operation multiset) \<Rightarrow> 'v event list \<Rightarrow> 'v operation multiset" where
  "over f tr = (\<Sum>ev\<leftarrow>tr. f ev)"

lemma over_simps [simp]: "over f [] = {#}" "over f (tr @ [ev]) = over f tr + f ev"
  by (simp_all add: over_def)

text \<open>A step that keeps the invariant and the books.\<close>

definition good_step :: "'v component_trait \<Rightarrow> 'v event \<Rightarrow> 'v engine \<Rightarrow> 'v engine \<Rightarrow> bool" where
  "good_step ct ev E E' \<longleftrightarrow> engine_ok ct E'
     \<and> outstanding E + submitted_by ev = outstanding E' + applied_by ev + withdrawn_by ev
     \<and> (\<forall>n. due n (eg_state E) + promised_by n ev \<subseteq># due n (eg_state E') + applied_by ev)"

section \<open>Sections that leave the ledger alone\<close>

lemma ledger_fields:
  assumes "st_ledger st' = st_ledger st"
  shows "st_pending st' = st_pending st" "st_pending_inputs st' = st_pending_inputs st"
    "st_deferred_inputs st' = st_deferred_inputs st" "st_next st' = st_next st" "st_running st' = st_running st"
    "st_completed st' = st_completed st" "st_input_seq st' = st_input_seq st" "st_settling st' = st_settling st"
  using assms by (simp_all add: st_ledger_def)

lemma ledger_cong:
  assumes "st_ledger st' = st_ledger st"
  shows "ledger_ok st' = ledger_ok st" "deferred_ops st' = deferred_ops st" "due n st' = due n st"
  unfolding ledger_ok_def deferred_ops_def due_def ledger_fields [OF assms] by (rule refl)+

definition same_tasks :: "'v engine \<Rightarrow> 'v engine \<Rightarrow> bool" where
  "same_tasks E E' \<longleftrightarrow> eg_completed E' = eg_completed E \<and> map_option fst (eg_guard E') = map_option fst (eg_guard E)
     \<and> eg_epochs E' = eg_epochs E \<and> eg_waiting E' = eg_waiting E \<and> eg_preempt_waiters E' = eg_preempt_waiters E"

lemma section_step:
  assumes "engine_ok ct E" and "section_ok ct (eg_state E) (eg_state E')" and "same_tasks E E'"
  shows "good_step ct Quiet E E'"
proof -
  have l: "st_ledger (eg_state E') = st_ledger (eg_state E)" using assms(2) by (simp add: section_ok_def)
  have "tasks_ok E'" using assms(1,3) by (simp add: engine_ok_def tasks_ok_def same_tasks_def ledger_fields [OF l])
  moreover have "waiting_ops E' = waiting_ops E" using assms(3) by (simp add: waiting_ops_def same_tasks_def)
  ultimately show ?thesis
    using assms(1,2) by (simp add: good_step_def engine_ok_def section_ok_def ledger_cong [OF l] outstanding_def ledger_fields [OF l])
qed

end
