(* ===== verification/Engine_Props.thy ===== *)
theory Engine_Props
  imports Engine_Steps
begin

text \<open>
  Every step of the engine keeps its invariant and its books, so whatever the interleaving the
  inputs are applied once, in the generation their caller was told.
\<close>

section \<open>Queueing\<close>

definition scheduled :: "'v state \<Rightarrow> nat" where
  "scheduled st = (case st_pending st of None \<Rightarrow> st_next st | Some g \<Rightarrow> g)"

text \<open>The state once \<open>q\<close> is what the scheduled generation drains.\<close>

abbreviation schedule :: "'v command_queue \<Rightarrow> 'v state \<Rightarrow> 'v state" where
  "schedule q st \<equiv> st\<lparr>st_pending_inputs := q, st_pending := Some (scheduled st)\<rparr>"

lemma enqueue_eq: "enqueue_next_generation st = schedule (st_pending_inputs st) st"
  by (cases st) (auto simp: enqueue_next_generation_def scheduled_def split: option.split)

lemma enqueue_inputs: "enqueue_next_generation (st\<lparr>st_pending_inputs := q\<rparr>) = schedule q st"
  by (simp add: enqueue_eq scheduled_def split: option.split)

lemma queue_pending_eq: "queue_pending commands st = (scheduled st, schedule (fst (queue_append (st_pending_inputs st) commands)) st)"
  by (simp add: queue_pending_def enqueue_inputs Let_def)

lemma append_queue:
  assumes "queue_ok q" and "queue_ok other"
  shows "queue_ok (fst (queue_append q other))" and "contents (fst (queue_append q other)) = contents q @ contents other"
  using queue_append_spec [of q other "fst (queue_append q other)" "snd (queue_append q other)"] assms by simp_all

lemma ledger_okD:
  assumes "ledger_ok st"
  shows "queue_ok (st_pending_inputs st)" "st_pending st = None \<Longrightarrow> contents (st_pending_inputs st) = []"
    and "d \<in> set (st_deferred_inputs st) \<Longrightarrow> queue_ok (snd d) \<and> fst d \<le> st_input_seq st"
    and "sorted_wrt (<) (map fst (st_deferred_inputs st))"
    and "st_settling st = 0 \<Longrightarrow> st_deferred_inputs st = []"
    and "st_completed st < st_next st" "st_running st = Some g \<Longrightarrow> st_completed st < g \<and> st_next st = Suc g"
    and "st_pending st = Some p \<Longrightarrow> st_completed st < p \<and> (p = st_next st \<or> st_running st = None \<and> Suc p = st_next st)"
  using assms by (auto simp: ledger_ok_def)

lemma ledger_schedule: "ledger_ok st \<Longrightarrow> queue_ok q \<Longrightarrow> ledger_ok (schedule q st)"
  by (auto simp: ledger_ok_def scheduled_def split: option.splits)

lemma due_schedule:
  assumes "ledger_ok st" and "mset (contents q) = mset (contents (st_pending_inputs st)) + M"
  shows "due n (schedule q st) = due n st + (if scheduled st \<le> n then M else {#})"
  using ledger_okD(2) [OF assms(1)] assms(2) by (auto simp: due_def scheduled_def split: option.split)

lemma due_schedule_mono:
  assumes "ledger_ok st" and "mset (contents q) = mset (contents (st_pending_inputs st)) + M"
  shows "due n st \<subseteq># due n (schedule q st)"
  by (simp add: due_schedule [OF assms])

section \<open>Promotion\<close>

lemma promote_loop_spec:
  "promote_loop m ds q b = (ds', q', b') \<Longrightarrow> queue_ok q \<Longrightarrow> \<forall>d\<in>set ds. queue_ok (snd d) \<Longrightarrow>
    (\<exists>pre. ds = pre @ ds' \<and> queue_ok q' \<and> contents q' = contents q @ concat (map (\<lambda>d. contents (snd d)) pre)
      \<and> b' = (b \<or> pre \<noteq> []) \<and> (pre = [] \<longrightarrow> q' = q)) \<and> (m = None \<longrightarrow> ds' = [])"
proof (induction ds arbitrary: q b)
  case (Cons d ds)
  show ?case
  proof (cases "case m of None \<Rightarrow> True | Some w \<Rightarrow> fst d \<le> w")
    case True
    have ok: "queue_ok (snd d)" using Cons.prems(3) by simp
    have rec: "promote_loop m ds (fst (queue_append q (snd d))) True = (ds', q', b')" using Cons.prems(1) True by simp
    from Cons.IH [OF rec append_queue(1) [OF Cons.prems(2) ok]] obtain pre where
      "ds = pre @ ds'" "queue_ok q'" "contents q' = (contents q @ contents (snd d)) @ concat (map (\<lambda>d. contents (snd d)) pre)"
      "b'" "m = None \<longrightarrow> ds' = []"
      using Cons.prems(3) append_queue(2) [OF Cons.prems(2) ok] by auto
    then show ?thesis by (intro conjI exI [of _ "d # pre"]) auto
  next
    case False
    then show ?thesis using Cons.prems by (auto split: option.splits)
  qed
qed auto

lemma promote_spec:
  assumes "promote_deferred_inputs m st = (b, st')" and ok: "ledger_ok st"
  shows "\<exists>pre ds q. st_deferred_inputs st = pre @ ds \<and> queue_ok q
    \<and> contents q = contents (st_pending_inputs st) @ concat (map (\<lambda>d. contents (snd d)) pre)
    \<and> st' = (if b then schedule q (st\<lparr>st_deferred_inputs := ds\<rparr>) else st) \<and> (\<not> b \<longrightarrow> pre = []) \<and> (m = None \<longrightarrow> ds = [])"
proof (cases "st_deferred_inputs st = []")
  case True
  then show ?thesis using assms ledger_okD(1) [OF ok]
    by (intro exI [of _ "[]"] exI [of _ "st_pending_inputs st"]) (simp add: promote_deferred_inputs_def)
next
  case False
  obtain ds q p where l: "promote_loop m (st_deferred_inputs st) (st_pending_inputs st) False = (ds, q, p)" by (metis prod_cases3)
  obtain pre where pre: "st_deferred_inputs st = pre @ ds" "queue_ok q"
    "contents q = contents (st_pending_inputs st) @ concat (map (\<lambda>d. contents (snd d)) pre)"
    "p = (pre \<noteq> [])" "pre = [] \<longrightarrow> q = st_pending_inputs st" "m = None \<longrightarrow> ds = []"
    using promote_loop_spec [OF l ledger_okD(1) [OF ok]] ledger_okD(3) [OF ok] by auto
  have b: "b = p" and st': "st' = (if p then enqueue_next_generation (st\<lparr>st_deferred_inputs := ds, st_pending_inputs := q\<rparr>)
      else st\<lparr>st_deferred_inputs := ds, st_pending_inputs := q\<rparr>)"
    using assms(1) False l by (auto simp: promote_deferred_inputs_def Let_def)
  have "st\<lparr>st_deferred_inputs := ds, st_pending_inputs := q\<rparr> = st" if "\<not> p"
    using that pre(1,4,5) by (cases st) simp
  then have "st' = (if b then schedule q (st\<lparr>st_deferred_inputs := ds\<rparr>) else st)"
    unfolding b st' enqueue_inputs by simp
  then show ?thesis using pre b by blast
qed

lemma schedule_deferred: "scheduled (st\<lparr>st_deferred_inputs := ds\<rparr>) = scheduled st"
  by (simp add: scheduled_def split: option.split)

lemma ledger_deferred:
  assumes "ledger_ok st" and "st_deferred_inputs st = pre @ ds"
  shows "ledger_ok (st\<lparr>st_deferred_inputs := ds\<rparr>)" and "due n (st\<lparr>st_deferred_inputs := ds\<rparr>) = due n st"
  using assms by (auto simp: ledger_ok_def due_def sorted_wrt_append split: option.split)

text \<open>What promotion does to the books: nothing but the move.\<close>

lemma promote_good:
  assumes p: "promote_deferred_inputs m st = (b, st')" and ok: "ledger_ok st"
  shows "ledger_ok st'" "due n st \<subseteq># due n st'"
    and "mset (contents (st_pending_inputs st')) + deferred_ops st' = mset (contents (st_pending_inputs st)) + deferred_ops st"
    and "st_world st' = st_world st" "st_planning_storage st' = st_planning_storage st" "st_running st' = st_running st"
      "st_completed st' = st_completed st" "st_settling st' = st_settling st" "st_input_seq st' = st_input_seq st"
      "st_settled_revision st' = st_settled_revision st" "st_snapshot_cache st' = st_snapshot_cache st" "m = None \<Longrightarrow> st_deferred_inputs st' = []"
proof -
  obtain pre ds q where s: "st_deferred_inputs st = pre @ ds" "queue_ok q"
    "contents q = contents (st_pending_inputs st) @ concat (map (\<lambda>d. contents (snd d)) pre)"
    "st' = (if b then schedule q (st\<lparr>st_deferred_inputs := ds\<rparr>) else st)" "\<not> b \<longrightarrow> pre = []" "m = None \<longrightarrow> ds = []"
    using promote_spec [OF p ok] by blast
  note d = ledger_deferred [OF ok s(1)]
  have "mset (concat (map (\<lambda>d. contents (snd d)) pre)) = (\<Sum>d\<leftarrow>pre. mset (contents (snd d)))"
    by (induction pre) simp_all
  then have q: "mset (contents q) = mset (contents (st_pending_inputs st)) + (\<Sum>d\<leftarrow>pre. mset (contents (snd d)))"
    by (simp add: s(3))
  show "ledger_ok st'" using ledger_schedule [OF d(1) s(2)] ok by (simp add: s(4))
  have "due n (st\<lparr>st_deferred_inputs := ds\<rparr>) \<subseteq># due n (schedule q (st\<lparr>st_deferred_inputs := ds\<rparr>))"
    by (rule due_schedule_mono [OF d(1)]) (simp add: q)
  then show "due n st \<subseteq># due n st'" by (simp add: s(4) d(2))
  show "mset (contents (st_pending_inputs st')) + deferred_ops st' = mset (contents (st_pending_inputs st)) + deferred_ops st"
    by (simp add: s(4) deferred_ops_def s(1) q)
  show "m = None \<Longrightarrow> st_deferred_inputs st' = []"
    using s(1,4,5,6) by (cases b) simp_all
  show "st_world st' = st_world st" "st_planning_storage st' = st_planning_storage st" "st_running st' = st_running st"
    "st_completed st' = st_completed st" "st_settling st' = st_settling st" "st_input_seq st' = st_input_seq st"
    "st_settled_revision st' = st_settled_revision st" "st_snapshot_cache st' = st_snapshot_cache st"
    by (simp_all add: s(4))
qed

section \<open>Sections that move no input in or out\<close>

definition quiet_state :: "'v component_trait \<Rightarrow> 'v state \<Rightarrow> 'v state \<Rightarrow> bool" where
  "quiet_state ct st st' \<longleftrightarrow> ledger_ok st' \<and> (\<forall>n. due n st \<subseteq># due n st')
     \<and> mset (contents (st_pending_inputs st')) + deferred_ops st' = mset (contents (st_pending_inputs st)) + deferred_ops st
     \<and> world_later ct (st_world st) (st_world st')
     \<and> (world_settled ct (st_world st) \<longrightarrow> world_settled ct (st_world st') \<and> (pool_fine ct st \<longrightarrow> pool_fine ct st'))
     \<and> st_running st' = st_running st \<and> st_completed st' = st_completed st
     \<and> st_settling st' = st_settling st \<and> st_input_seq st' = st_input_seq st"

lemma quiet_trans: "quiet_state ct st st1 \<Longrightarrow> quiet_state ct st1 st2 \<Longrightarrow> quiet_state ct st st2"
  unfolding quiet_state_def by (auto intro: subset_mset.order_trans rtranclp_trans)

lemma quiet_section:
  assumes "ledger_ok st" and s: "section_ok ct st st'"
  shows "quiet_state ct st st'"
proof -
  have l: "st_ledger st' = st_ledger st" and w: "world_later ct (st_world st) (st_world st')"
    and p: "world_settled ct (st_world st) \<longrightarrow> world_settled ct (st_world st') \<and> (pool_fine ct st \<longrightarrow> pool_fine ct st')"
    using s by (simp_all add: section_ok_def)
  show ?thesis
    unfolding quiet_state_def ledger_cong [OF l] ledger_fields [OF l] using assms(1) w p by blast
qed

lemma quiet_promote: "ledger_ok st \<Longrightarrow> promote_deferred_inputs m st = (b, st') \<Longrightarrow> quiet_state ct st st'"
  using promote_good [of m st b st'] by (simp add: quiet_state_def pool_fine_def)

lemma quiet_enqueue: "ledger_ok st \<Longrightarrow> quiet_state ct st (enqueue_next_generation st)"
  unfolding enqueue_eq quiet_state_def
  using ledger_schedule [OF _ ledger_okD(1), of st st] due_schedule_mono [of st "st_pending_inputs st" "{#}"]
  by (simp add: deferred_ops_def pool_fine_def)

lemma quiet_step:
  assumes "engine_ok ct E" and "quiet_state ct (eg_state E) (eg_state E')" and "same_tasks E E'"
  shows "good_step ct Quiet E E'"
proof -
  have "tasks_ok E'" using assms by (simp add: engine_ok_def tasks_ok_def same_tasks_def quiet_state_def)
  moreover have "waiting_ops E' = waiting_ops E" using assms(3) by (simp add: waiting_ops_def same_tasks_def)
  ultimately show ?thesis using assms(1,2) by (simp add: good_step_def engine_ok_def quiet_state_def outstanding_def)
qed

lemma good_step_after:
  assumes "good_step ct Quiet E E1" and "good_step ct ev E1 E'"
  shows "good_step ct ev E E'"
proof -
  have "due n (eg_state E) + promised_by n ev \<subseteq># due n (eg_state E') + applied_by ev" for n
  proof -
    have "due n (eg_state E) \<subseteq># due n (eg_state E1)" using assms(1) by (simp add: good_step_def)
    then have "due n (eg_state E) + promised_by n ev \<subseteq># due n (eg_state E1) + promised_by n ev" by simp
    also have "\<dots> \<subseteq># due n (eg_state E') + applied_by ev" using assms(2) by (simp add: good_step_def)
    finally show ?thesis .
  qed
  then show ?thesis using assms by (simp add: good_step_def)
qed

section \<open>Inputs\<close>

lemma engine_okD:
  assumes "engine_ok ct E"
  shows "world_settled ct (st_world (eg_state E))" "pool_fine ct (eg_state E)" "ledger_ok (eg_state E)" "tasks_ok E"
  using assms by (simp_all add: engine_ok_def)

lemma submit_good:
  assumes ok: "engine_ok ct E" and q: "queue_ok commands" and s: "submit preempting commands E = (res, E')"
  shows "good_step ct (input_event (contents commands) res) E E'"
proof -
  let ?st = "eg_state E"
  note l = engine_okD(3) [OF ok]
  consider "st_settling ?st = 0" | "st_settling ?st \<noteq> 0" "\<not> preempting" | "st_settling ?st \<noteq> 0" preempting by blast
  then show ?thesis
  proof cases
    case 1
    let ?q = "fst (queue_append (st_pending_inputs ?st) commands)"
    have E': "res = Queued (scheduled ?st)" "E' = put_state E (schedule ?q ?st)"
      using s 1 by (auto simp: submit_def submit_input_def queue_pending_eq)
    note a = append_queue [OF ledger_okD(1) [OF l] q]
    have "tasks_ok E'" using engine_okD(4) [OF ok] by (simp add: E' tasks_ok_def)
    then have "engine_ok ct E'"
      using engine_okD(1,2) [OF ok] ledger_schedule [OF l a(1)] by (simp add: E' engine_ok_def pool_fine_def)
    moreover have "due n (schedule ?q ?st) = due n ?st + (if scheduled ?st \<le> n then mset (contents commands) else {#})" for n
      by (rule due_schedule [OF l]) (simp add: a(2))
    ultimately show ?thesis
      by (simp add: E' good_step_def outstanding_def deferred_ops_def waiting_ops_def a(2))
  next
    case 2
    have E': "res = DeferredTo (st_completed ?st)" "E' = put_state E (?st\<lparr>st_input_seq := st_input_seq ?st + 1,
        st_deferred_inputs := st_deferred_inputs ?st @ [(st_input_seq ?st + 1, commands)]\<rparr>)"
      using s 2 by (auto simp: submit_def submit_input_def Let_def)
    have "ledger_ok (eg_state E')"
      using l 2 q by (auto simp: E' ledger_ok_def sorted_wrt_append le_Suc_eq less_Suc_eq_le)
    moreover have "tasks_ok E'" using engine_okD(4) [OF ok] by (auto simp: E' tasks_ok_def le_Suc_eq)
    ultimately have "engine_ok ct E'" using engine_okD(1,2) [OF ok] by (simp add: E' engine_ok_def pool_fine_def)
    then show ?thesis
      by (simp add: E' good_step_def outstanding_def deferred_ops_def waiting_ops_def due_def split: option.split)
  next
    case 3
    have E': "res = MustWait" "E' = E\<lparr>eg_waiting := eg_waiting E @ [\<lparr>wt_registered = False, wt_deferred = False, wt_call = QueueInput commands\<rparr>]\<rparr>"
      using s 3 by (auto simp: submit_def submit_input_def Let_def)
    have "engine_ok ct E'" using ok q by (auto simp: E' engine_ok_def tasks_ok_def waiter_ok_def)
    then show ?thesis by (simp add: E' good_step_def outstanding_def waiting_ops_def)
  qed
qed

lemma insert_target_later:
  assumes "insert_target b target W = Some (e, W')"
  shows "world_later ct W W'"
  using assms op_later [OF ws_spawn] op_later [OF ws_singleton]
  by (auto simp: insert_target_def split: option.splits)

lemma insert_inner_good:
  assumes ok: "engine_ok ct E" and i: "insert_inner b preempting target E = Some (e, res, E')"
  shows "good_step ct (input_event (map (\<lambda>(ty, v). Base (InsertBaseCommand e ty v)) b) res) E E'"
proof -
  obtain W q st where t: "insert_target b target (st_world (eg_state E)) = Some (e, W)"
    and st: "stage_commands ((eg_state E)\<lparr>st_world := W\<rparr>) = (q, st)"
    and sub: "submit preempting (bundle_queue b e q) (put_state E st) = (res, E')"
  proof -
    obtain e1 W where t: "insert_target b target (st_world (eg_state E)) = Some (e1, W)"
      using i by (auto simp: insert_inner_def)
    obtain q st where st: "stage_commands ((eg_state E)\<lparr>st_world := W\<rparr>) = (q, st)" by (rule prod.exhaust)
    have "e1 = e" "submit preempting (bundle_queue b e1 q) (put_state E st) = (res, E')"
      using i t st by (auto simp: insert_inner_def Let_def split: prod.splits)
    then show thesis using that t st by blast
  qed
  have w: "world_later ct (st_world (eg_state E)) W" by (rule insert_target_later [OF t])
  have stage: "queue_ok q \<and> contents q = []" "section_ok ct (eg_state E) st"
  proof -
    have "queue_ok q \<and> contents q = [] \<and> section_ok ct (eg_state E) st"
    proof (cases "st_planning_storage (eg_state E)")
      case None
      then have "q = queue_default" "st = (eg_state E)\<lparr>st_world := W\<rparr>" using st by (auto simp: stage_commands_def)
      then show ?thesis using w cached_later [OF _ w] leads_reachable [OF w] by (simp add: section_ok_def st_ledger_def pool_fine_def)
    next
      case (Some P)
      obtain P' where p: "pool_take P = (q, P')" and s: "st = (eg_state E)\<lparr>st_world := W, st_planning_storage := Some P'\<rparr>"
        using st Some by (auto simp: stage_commands_def split: prod.splits)
      have "pool_ok P' \<and> queue_ok q \<and> contents q = []"
        using pool_ok_steps(3) [OF _ p] engine_okD(2) [OF ok] Some by (simp add: pool_fine_def)
      then show ?thesis using w cached_later [OF _ w] leads_reachable [OF w] by (simp add: s section_ok_def st_ledger_def pool_fine_def)
    qed
    then show "queue_ok q \<and> contents q = []" "section_ok ct (eg_state E) st" by blast+
  qed
  have g: "good_step ct Quiet E (put_state E st)"
    by (rule section_step [OF ok]) (use stage(2) in \<open>simp_all add: same_tasks_def\<close>)
  then have "engine_ok ct (put_state E st)" by (simp add: good_step_def)
  from submit_good [OF this _ sub] have "good_step ct (input_event (contents (bundle_queue b e q)) res) (put_state E st) E'"
    using bundle_queue_contents(1) stage(1) by blast
  then show ?thesis using good_step_after [OF g] bundle_queue_contents(2) [of q b e] stage(1) by simp
qed

lemma remove_input_good:
  assumes ok: "engine_ok ct E"
  shows "despawn_inner e preempting E = (res, E') \<Longrightarrow> good_step ct (input_event [Base (DespawnBaseCommand e)] res) E E'"
    and "remove_component_inner ty e preempting E = (res, E') \<Longrightarrow>
      good_step ct (input_event [Base (RemoveComponentBaseCommand ty e)] res) E E'"
  using submit_good [OF ok push_operation_ok(1) [OF queue_default_ok(1)],
      unfolded push_operation_ok(2) [OF queue_default_ok(1)] queue_default_ok(2) append_Nil]
  by (auto simp: despawn_inner_def remove_component_inner_def base_push_def)

section \<open>Waiting calls\<close>

lemma nth_split:
  assumes "i < length xs"
  obtains a b where "xs = a @ xs ! i # b" "\<And>w. xs[i := w] = a @ w # b" "drop_nth i xs = a @ b"
  using that [of "take i xs" "drop (Suc i) xs"] id_take_nth_drop [OF assms] upd_conv_take_nth_drop [OF assms]
  by (simp add: drop_nth_def)

lemma boundary_spec:
  assumes "boundary_reached w E = (reached, w1, E1)"
  shows "wt_call w1 = wt_call w" "wt_deferred w1 = wt_deferred w" "eg_waiting E1 = eg_waiting E"
    and "eg_epochs E1 = eg_epochs E" "eg_guard E1 = eg_guard E" "eg_completed E1 = eg_completed E"
    and "reached \<Longrightarrow> w1 = w \<and> eg_preempt_waiters E1 = eg_preempt_waiters E"
    and "eg_preempt_waiters E1 + (if wt_registered w then 1 else 0) = eg_preempt_waiters E + (if wt_registered w1 then 1 else 0)"
    and "waiter_ok w \<Longrightarrow> waiter_ok w1" and "section_ok ct (eg_state E) (eg_state E1)"
  using assms by (auto simp: boundary_reached_def Let_def waiter_ok_def section_ok_def st_ledger_def pool_fine_def split: if_splits)

text \<open>A call that goes on waiting.\<close>

lemma waiting_good:
  assumes ok: "engine_ok ct E" and i: "i < length (eg_waiting E)" and w: "waiter_ok w" "wt_call w = wt_call (eg_waiting E ! i)"
    and n: "eg_preempt_waiters E1 + (if wt_registered (eg_waiting E ! i) then 1 else 0) = eg_preempt_waiters E + (if wt_registered w then 1 else 0)"
    and same: "eg_epochs E1 = eg_epochs E" "eg_guard E1 = eg_guard E" "eg_completed E1 = eg_completed E"
    and sec: "section_ok ct (eg_state E) (eg_state E1)"
  shows "good_step ct Quiet E (E1\<lparr>eg_waiting := (eg_waiting E)[i := w]\<rparr>)"
proof -
  let ?E = "E1\<lparr>eg_waiting := (eg_waiting E)[i := w]\<rparr>"
  obtain a b where s: "eg_waiting E = a @ eg_waiting E ! i # b" "\<And>w. (eg_waiting E)[i := w] = a @ w # b"
    by (rule nth_split [OF i]) (rule that)
  have l: "st_ledger (eg_state E1) = st_ledger (eg_state E)" using sec by (simp add: section_ok_def)
  have len: "length (filter wt_registered (eg_waiting E)) = length (filter wt_registered (a @ eg_waiting E ! i # b))"
    and mem: "set (eg_waiting E) = set (a @ eg_waiting E ! i # b)"
    and ops: "waiting_ops E = (\<Sum>w\<leftarrow>a @ eg_waiting E ! i # b. mset (call_ops (wt_call w)))"
    unfolding waiting_ops_def using s(1) by simp_all
  have "tasks_ok ?E"
    using engine_okD(4) [OF ok] n w(1) mem len by (auto simp: tasks_ok_def same ledger_fields [OF l] s(2) split: if_splits)
  moreover have "waiting_ops ?E = waiting_ops E" unfolding ops by (simp add: waiting_ops_def s(2) w(2))
  ultimately show ?thesis
    using engine_okD(1-3) [OF ok] sec by (simp add: good_step_def engine_ok_def section_ok_def ledger_cong [OF l] outstanding_def ledger_fields [OF l])
qed

text \<open>A call that is done, or whose future is dropped: it leaves the list with its registration.\<close>

lemma done_tasks:
  assumes t: "tasks_ok E" and i: "i < length (eg_waiting E)"
    and n: "eg_preempt_waiters E1 = eg_preempt_waiters (waiter_finish (eg_waiting E ! i) E)"
    and same: "eg_waiting E1 = drop_nth i (eg_waiting E)" "eg_epochs E1 = eg_epochs E" "eg_guard E1 = eg_guard E" "eg_completed E1 = eg_completed E"
    and st: "st_running (eg_state E1) = st_running (eg_state E)" "st_completed (eg_state E1) = st_completed (eg_state E)"
      "st_settling (eg_state E1) = st_settling (eg_state E)" "st_input_seq (eg_state E1) = st_input_seq (eg_state E)"
  shows "tasks_ok E1" and "waiting_ops E = waiting_ops E1 + mset (call_ops (wt_call (eg_waiting E ! i)))"
proof -
  obtain a b where s: "eg_waiting E = a @ eg_waiting E ! i # b" "drop_nth i (eg_waiting E) = a @ b"
    by (rule nth_split [OF i]) (rule that)
  have len: "length (filter wt_registered (eg_waiting E)) = length (filter wt_registered (a @ eg_waiting E ! i # b))"
    and mem: "set (eg_waiting E) = set (a @ eg_waiting E ! i # b)"
    and ops: "waiting_ops E = (\<Sum>w\<leftarrow>a @ eg_waiting E ! i # b. mset (call_ops (wt_call w)))"
    unfolding waiting_ops_def using s(1) by simp_all
  have "eg_preempt_waiters E1 = length (filter wt_registered (a @ b))"
    using t n len by (auto simp: tasks_ok_def waiter_finish_def split: if_splits)
  then show "tasks_ok E1" using t mem by (simp add: tasks_ok_def same st s(2))
  show "waiting_ops E = waiting_ops E1 + mset (call_ops (wt_call (eg_waiting E ! i)))"
    unfolding ops by (simp add: waiting_ops_def same s(2))
qed

lemma done_quiet:
  assumes ok: "engine_ok ct E" and i: "i < length (eg_waiting E)"
    and n: "eg_preempt_waiters E1 = eg_preempt_waiters (waiter_finish (eg_waiting E ! i) E)"
    and same: "eg_waiting E1 = drop_nth i (eg_waiting E)" "eg_epochs E1 = eg_epochs E" "eg_guard E1 = eg_guard E" "eg_completed E1 = eg_completed E"
    and q: "quiet_state ct (eg_state E) (eg_state E1)"
  shows "good_step ct (Withdrawn (call_ops (wt_call (eg_waiting E ! i)))) E E1"
proof -
  have st: "st_running (eg_state E1) = st_running (eg_state E)" "st_completed (eg_state E1) = st_completed (eg_state E)"
      "st_settling (eg_state E1) = st_settling (eg_state E)" "st_input_seq (eg_state E1) = st_input_seq (eg_state E)"
    using q by (simp_all add: quiet_state_def)
  note d = done_tasks [OF engine_okD(4) [OF ok] i n same st]
  show ?thesis using engine_okD(1,2) [OF ok] q d by (simp add: good_step_def engine_ok_def quiet_state_def outstanding_def)
qed

lemma withdraw_good:
  assumes ok: "engine_ok ct E" and i: "i < length (eg_waiting E)"
  shows "good_step ct (Withdrawn (call_ops (wt_call (eg_waiting E ! i)))) E (drop_waiter i E)"
  by (rule done_quiet [OF ok i])
    (use quiet_section [OF engine_okD(3) [OF ok] section_refl] in \<open>simp_all add: drop_waiter_def waiter_finish_def\<close>)

lemma mutation_quiet:
  assumes "ledger_ok st" and "apply_component_mutation ct ty e held f st = (outcome, st')"
  shows "quiet_state ct st st'" and "outcome = Busy \<Longrightarrow> st' = st"
proof -
  have "quiet_state ct st st' \<and> (outcome = Busy \<longrightarrow> st' = st)"
  proof (cases "try_update_component_live ct ty e held f (st_world st)")
    case (Applied changed W)
    let ?st1 = "st\<lparr>st_world := W\<rparr>" and ?st2 = "st\<lparr>st_world := W, st_normal_clean := False\<rparr>"
    have s: "section_ok ct st ?st1" "section_ok ct st ?st2"
      by (rule section_world [OF op_later [OF ws_update [OF Applied]]]; simp add: st_ledger_def)+
    have "ledger_ok ?st2" using quiet_section [OF assms(1) s(2)] by (simp add: quiet_state_def)
    then have "quiet_state ct st (enqueue_next_generation ?st2)"
      using quiet_section [OF assms(1) s(2)] quiet_enqueue quiet_trans by blast
    then show ?thesis using assms(2) quiet_section [OF assms(1) s(1)] Applied
      by (auto simp: apply_component_mutation_def Let_def split: if_splits)
  qed (use assms(2) quiet_section [OF assms(1) section_refl] in \<open>auto simp: apply_component_mutation_def\<close>)
  then show "quiet_state ct st st'" "outcome = Busy \<Longrightarrow> st' = st" by blast+
qed

lemma withdrawn_nothing: "good_step ct (Withdrawn []) E E' = good_step ct Quiet E E'"
  by (simp add: good_step_def)

lemma finish_fields [simp]:
  "eg_waiting (waiter_finish w E) = eg_waiting E" "eg_epochs (waiter_finish w E) = eg_epochs E"
  "eg_guard (waiter_finish w E) = eg_guard E" "eg_completed (waiter_finish w E) = eg_completed E"
  "eg_state (waiter_finish w E) = eg_state E"
  by (simp_all add: waiter_finish_def)

lemma finish_same: "eg_preempt_waiters E1 = eg_preempt_waiters E \<Longrightarrow>
    eg_preempt_waiters (waiter_finish w E1) = eg_preempt_waiters (waiter_finish w E)"
  by (simp add: waiter_finish_def)

lemma queued_good:
  assumes ok: "engine_ok ct E" and i: "i < length (eg_waiting E)" and c: "wt_call (eg_waiting E ! i) = QueueInput q"
    and b: "boundary_reached (eg_waiting E ! i) E = (True, w1, E1)"
  shows "good_step ct (Released (contents q) (scheduled (eg_state E1))) E
    ((waiter_finish (eg_waiting E ! i) E1)\<lparr>eg_state := schedule (fst (queue_append (st_pending_inputs (eg_state E1)) q)) (eg_state E1),
       eg_waiting := drop_nth i (eg_waiting E1)\<rparr>)"
proof -
  let ?w = "eg_waiting E ! i" and ?st = "eg_state E" and ?st1 = "eg_state E1"
  let ?q = "fst (queue_append (st_pending_inputs ?st1) q)"
  let ?E = "(waiter_finish ?w E1)\<lparr>eg_state := schedule ?q ?st1, eg_waiting := drop_nth i (eg_waiting E1)\<rparr>"
  note bs = boundary_spec [OF b]
  have qs: "quiet_state ct ?st ?st1" by (rule quiet_section [OF engine_okD(3) [OF ok] bs(10)])
  then have l1: "ledger_ok ?st1" by (simp add: quiet_state_def)
  have "?w \<in> set (eg_waiting E)" using i by simp
  then have q: "queue_ok q" using engine_okD(4) [OF ok] c by (force simp: tasks_ok_def waiter_ok_def)
  note a = append_queue [OF ledger_okD(1) [OF l1] q]
  have n: "eg_preempt_waiters ?E = eg_preempt_waiters (waiter_finish ?w E)" using bs(7) finish_same [of E1 E] by simp
  have d: "tasks_ok ?E" "waiting_ops E = waiting_ops ?E + mset (contents q)"
    using done_tasks [OF engine_okD(4) [OF ok] i n] qs c by (simp_all add: bs(3-6) quiet_state_def)
  have "engine_ok ct ?E"
    using engine_okD(1,2) [OF ok] qs ledger_schedule [OF l1 a(1)] d(1) by (simp add: engine_ok_def quiet_state_def pool_fine_def)
  moreover have "due n ?st + (if scheduled ?st1 \<le> n then mset (contents q) else {#}) \<subseteq># due n (schedule ?q ?st1)" for n
    using due_schedule [OF l1, of ?q "mset (contents q)" n] qs a(2) by (simp add: quiet_state_def)
  ultimately show ?thesis
    using qs d(2) by (simp add: good_step_def outstanding_def quiet_state_def a(2) deferred_ops_def add.assoc)
qed

lemma mutated_good:
  assumes ok: "engine_ok ct E" and i: "i < length (eg_waiting E)" and c: "call_ops (wt_call (eg_waiting E ! i)) = []"
    and b: "boundary_reached (eg_waiting E ! i) E = (True, w1, E1)"
    and m: "apply_component_mutation ct ty e held f (eg_state E1) = (outcome, st)"
  shows "good_step ct Quiet E ((waiter_finish (eg_waiting E ! i) E1)\<lparr>eg_state := st, eg_waiting := drop_nth i (eg_waiting E1)\<rparr>)"
proof -
  note bs = boundary_spec [OF b]
  have qs: "quiet_state ct (eg_state E) (eg_state E1)" by (rule quiet_section [OF engine_okD(3) [OF ok] bs(10)])
  then have "ledger_ok (eg_state E1)" by (simp add: quiet_state_def)
  then have q: "quiet_state ct (eg_state E) st" using mutation_quiet(1) [OF _ m] quiet_trans [OF qs] by blast
  have n: "eg_preempt_waiters E1 = eg_preempt_waiters E" using bs(7) by simp
  show ?thesis
    using done_quiet [OF ok i, of "(waiter_finish (eg_waiting E ! i) E1)\<lparr>eg_state := st, eg_waiting := drop_nth i (eg_waiting E1)\<rparr>"]
      q finish_same [OF n] by (simp add: bs(3-6) c withdrawn_nothing)
qed

lemma retry_good:
  assumes ok: "engine_ok ct E" and i: "i < length (eg_waiting E)" and r: "retry_waiter ct held i E = (res, E')"
  shows "good_step ct (case res of Some (Some g) \<Rightarrow> Released (call_ops (wt_call (eg_waiting E ! i))) g | _ \<Rightarrow> Quiet) E E'"
proof -
  let ?w = "eg_waiting E ! i"
  let ?wait = "\<lambda>E1 :: 'a engine. on_state (\<lambda>st. st\<lparr>st_boundary_waiters := st_boundary_waiters st @ [0]\<rparr>) E1"
  have wok: "waiter_ok ?w" using engine_okD(4) [OF ok] i by (simp add: tasks_ok_def)
  obtain reached w1 E1 where b: "boundary_reached ?w E = (reached, w1, E1)" by (rule prod_cases3)
  note bs = boundary_spec [OF b]
  have wait: "good_step ct Quiet E ((?wait E1)\<lparr>eg_waiting := (eg_waiting E)[i := w1]\<rparr>)"
    "good_step ct Quiet E (E1\<lparr>eg_waiting := (eg_waiting E)[i := w1]\<rparr>)"
  proof -
    have "section_ok ct (eg_state E1) (eg_state (?wait E1))" by (rule section_world) (simp_all add: st_ledger_def)
    then have "section_ok ct (eg_state E) (eg_state (?wait E1))" using bs(10) by (rule section_trans [rotated])
    then show "good_step ct Quiet E ((?wait E1)\<lparr>eg_waiting := (eg_waiting E)[i := w1]\<rparr>)"
      by (intro waiting_good [OF ok i bs(9) [OF wok] bs(1)]) (use bs(8) in \<open>simp_all add: bs(4-6)\<close>)
    show "good_step ct Quiet E (E1\<lparr>eg_waiting := (eg_waiting E)[i := w1]\<rparr>)"
      by (intro waiting_good [OF ok i bs(9) [OF wok] bs(1)]) (use bs(8,10) in \<open>simp_all add: bs(4-6)\<close>)
  qed
  show ?thesis
  proof (cases "wt_call ?w")
    case (QueueInput q)
    show ?thesis
    proof (cases reached)
      case True
      then have "w1 = ?w" using bs(7) by simp
      then show ?thesis
        using queued_good [OF ok i QueueInput, of ?w E1] r True QueueInput b
        by (auto simp: retry_waiter_def waiter_turn_def queue_pending_eq Let_def)
    next
      case False
      then show ?thesis using r QueueInput b wait(1) by (auto simp: retry_waiter_def waiter_turn_def Let_def bs(3))
    qed
  next
    case (MutateComponent ty e f original)
    then have ops: "call_ops (wt_call ?w) = []" by simp
    show ?thesis
    proof (cases "original \<noteq> None \<and> original \<noteq> Some (revision_by_type (st_world (eg_state E)) ty e)")
      case True
      then show ?thesis
        using withdraw_good [OF ok i] r MutateComponent
        by (auto simp: retry_waiter_def waiter_turn_def drop_waiter_def withdrawn_nothing Let_def)
    next
      case False
      note turn = r [unfolded retry_waiter_def waiter_turn_def Let_def MutateComponent wait_call.case if_not_P [OF False] b prod.case]
      show ?thesis
      proof (cases reached)
        case True
        obtain outcome st where m: "apply_component_mutation ct ty e held f (eg_state E1) = (outcome, st)" by (rule prod.exhaust)
        have w1: "w1 = ?w" using bs(7) True by simp
        show ?thesis
        proof (cases "outcome = Busy")
          case True
          then show ?thesis using turn \<open>reached\<close> m wait(2) by (auto simp: bs(3))
        next
          case False
          then show ?thesis using turn \<open>reached\<close> m mutated_good [OF ok i ops, of ?w E1] b w1 by auto
        qed
      next
        case False
        then show ?thesis using turn wait(1) by (auto simp: bs(3))
      qed
    qed
  qed
qed

section \<open>Generations and epochs\<close>

lemma begin_good:
  assumes ok: "engine_ok ct E" and free: "eg_guard E = None" and b: "begin_generation ct E = Some (started, E')"
  shows "good_step ct (case st_pending (eg_state E) of None \<Rightarrow> Quiet
      | Some g \<Rightarrow> Began g (contents (st_pending_inputs (eg_state E)))) E E'"
proof (cases "st_pending (eg_state E)")
  case None
  then have "E' = E" using b by (auto simp: begin_generation_def start_evaluation_def)
  then show ?thesis using ok None by (simp add: good_step_def)
next
  case (Some g)
  let ?st = "eg_state E"
  obtain res st where se: "start_evaluation ct ?st = Some (res, st)" using b by (auto simp: begin_generation_def)
  then obtain memo startup where res: "res = Some (g, memo, startup)"
    using Some by (auto simp: start_evaluation_def Let_def elim!: bind_SomeE split: prod.splits)
  have E': "E' = E\<lparr>eg_state := st, eg_guard := Some (g, memo)\<rparr>" using b se res by (auto simp: begin_generation_def)
  note s = start_evaluation_steps [OF se [unfolded res]]
  obtain W inputs W' where q: "queue_apply ct None W (st_pending_inputs ?st) = (Some W', inputs)"
    and l: "st_ledger st = ((None, inputs, st_deferred_inputs ?st, g + 1), (Some g, st_completed ?st, st_input_seq ?st, st_settling ?st))"
    using s(2) by blast
  note lok = engine_okD(3) [OF ok]
  have inputs: "queue_ok inputs" "contents inputs = []"
    using apply_or_defer_run_ops [OF ledger_okD(1) [OF lok], of ct None W None] q by (auto simp: queue_apply_def)
  have "st_completed ?st < g" using ledger_okD(8) [OF lok Some] by simp
  then have "ledger_ok st" using l lok inputs by (auto simp: ledger_ok_def st_ledger_def)
  moreover have "tasks_ok E'" using engine_okD(4) [OF ok] l by (simp add: E' tasks_ok_def st_ledger_def)
  ultimately have "engine_ok ct E'"
    using engine_okD(1,2) [OF ok] s(4) leads_reachable [OF s(3)] by (simp add: E' engine_ok_def)
  moreover have "due n ?st \<subseteq># mset (contents (st_pending_inputs ?st))" for n by (simp add: due_def Some)
  ultimately show ?thesis
    using l inputs(2) Some by (simp add: good_step_def E' outstanding_def waiting_ops_def deferred_ops_def st_ledger_def due_def)
qed

text \<open>The driver is done, or dropped.\<close>

lemma complete_good:
  assumes ok: "engine_ok ct E"
  shows "good_step ct Quiet E (complete_generation changed E)"
proof (cases "eg_guard E")
  case None
  then show ?thesis using ok by (simp add: good_step_def complete_generation_def)
next
  case (Some p)
  obtain g memo where p: "p = (g, memo)" by (rule prod.exhaust)
  let ?st = "eg_state E" and ?E = "complete_generation changed E"
  have run: "st_running ?st = Some g" using engine_okD(4) [OF ok] Some by (simp add: tasks_ok_def p)
  have "ledger_ok (eg_state ?E)"
    using engine_okD(3) [OF ok] run by (auto simp: complete_generation_def Some p ledger_ok_def)
  moreover have "tasks_ok ?E" using engine_okD(4) [OF ok] by (simp add: complete_generation_def Some p tasks_ok_def)
  ultimately have "engine_ok ct ?E"
    using engine_okD(1,2) [OF ok] by (simp add: engine_ok_def complete_generation_def Some p pool_fine_def)
  then show ?thesis
    by (simp add: good_step_def complete_generation_def Some p outstanding_def waiting_ops_def deferred_ops_def due_def split: option.split)
qed

lemma abandon_good:
  assumes ok: "engine_ok ct E"
  shows "good_step ct Quiet E (abandon_generation E)"
proof (cases "eg_guard E")
  case None
  then show ?thesis using ok by (simp add: good_step_def abandon_generation_def)
next
  case (Some p)
  obtain g memo where p: "p = (g, memo)" by (rule prod.exhaust)
  let ?st = "eg_state E" and ?E = "abandon_generation E"
  have run: "st_running ?st = Some g" using engine_okD(4) [OF ok] Some by (simp add: tasks_ok_def p)
  have "ledger_ok (eg_state ?E)"
    using engine_okD(3) [OF ok] run by (auto simp: abandon_generation_def Some p ledger_ok_def Let_def)
  moreover have "tasks_ok ?E" using engine_okD(4) [OF ok] by (simp add: abandon_generation_def Some p tasks_ok_def Let_def)
  ultimately have "engine_ok ct ?E"
    using engine_okD(1,2) [OF ok] by (simp add: engine_ok_def abandon_generation_def Some p pool_fine_def Let_def)
  moreover have "due n ?st \<subseteq># due n (eg_state ?E)" for n
    by (simp add: due_def abandon_generation_def Some p Let_def split: option.split)
  ultimately show ?thesis
    by (simp add: good_step_def abandon_generation_def Some p outstanding_def waiting_ops_def deferred_ops_def Let_def)
qed

lemma enter_good:
  assumes ok: "engine_ok ct E"
  shows "good_step ct Quiet E (epoch_enter E)"
proof -
  have "engine_ok ct (epoch_enter E)"
    using ok by (auto simp: engine_ok_def epoch_enter_def ledger_ok_def tasks_ok_def pool_fine_def)
  then show ?thesis
    by (simp add: good_step_def epoch_enter_def outstanding_def waiting_ops_def deferred_ops_def due_def split: option.split)
qed

lemma leave_good:
  assumes ok: "engine_ok ct E" and i: "i < length (eg_epochs E)"
  shows "good_step ct Quiet E (epoch_drop i E)"
proof -
  let ?st = "eg_state E"
  let ?st1 = "?st\<lparr>st_settling := st_settling ?st - 1\<rparr>"
  let ?b = "promote_deferred_inputs None ?st"
  note l = engine_okD(3) [OF ok]
  obtain b st2 where p: "?b = (b, st2)" by (rule prod.exhaust)
  note g = promote_good [OF p l]
  have p1: "promote_deferred_inputs None ?st1 = (b, st2\<lparr>st_settling := st_settling ?st - 1\<rparr>)"
    using p by (auto simp: promote_deferred_inputs_def Let_def enqueue_next_generation_def split: prod.splits if_splits)
  define st3 where "st3 = (if st_settling ?st1 = 0 then st2\<lparr>st_settling := st_settling ?st - 1\<rparr> else ?st1)\<lparr>st_boundary_waiters := []\<rparr>"
  have E': "epoch_drop i E = E\<lparr>eg_state := st3, eg_epochs := drop_nth i (eg_epochs E)\<rparr>"
    unfolding epoch_drop_def Let_def p1 st3_def snd_conv by simp
  obtain a c where s: "eg_epochs E = a @ eg_epochs E ! i # c" "drop_nth i (eg_epochs E) = a @ c"
    by (rule nth_split [OF i]) (rule that)
  have len: "length (eg_epochs E) = length (a @ eg_epochs E ! i # c)" "set (eg_epochs E) = set (a @ eg_epochs E ! i # c)"
    using s(1) by simp_all
  have f: "st_running st3 = st_running ?st" "st_completed st3 = st_completed ?st" "st_input_seq st3 = st_input_seq ?st"
    "st_settling st3 = st_settling ?st - 1" "st_world st3 = st_world ?st" "st_planning_storage st3 = st_planning_storage ?st"
    "st_snapshot_cache st3 = st_snapshot_cache ?st"
    by (simp_all add: st3_def g(4-9) g(11))
  have "ledger_ok st3" using l g(1,12) by (auto simp: ledger_ok_def st3_def)
  moreover have "tasks_ok (epoch_drop i E)" using engine_okD(4) [OF ok] len by (auto simp: E' tasks_ok_def f s(2))
  ultimately have "engine_ok ct (epoch_drop i E)" using engine_okD(1,2) [OF ok] by (simp add: E' engine_ok_def f pool_fine_def)
  moreover have "due n ?st \<subseteq># due n st3" for n
    using g(2) [of n] by (simp add: st3_def due_def split: option.splits if_splits)
  moreover have "mset (contents (st_pending_inputs st3)) + deferred_ops st3 = mset (contents (st_pending_inputs ?st)) + deferred_ops ?st"
    using g(3) by (simp add: st3_def deferred_ops_def)
  ultimately show ?thesis by (simp add: good_step_def E' outstanding_def waiting_ops_def)
qed

end
