(* ===== verification/Engine_Claims.thy ===== *)
theory Engine_Claims
  imports Engine_Props
begin

text \<open>
  The sections that touch the world only, and what holds in every run of the engine.
\<close>

section \<open>Planning\<close>

lemma lease_pool: "pool_ok P \<Longrightarrow> lease ps P = (xs, P') \<Longrightarrow> pool_ok P'"
proof (induction ps P arbitrary: xs P' rule: lease.induct)
  case (2 row rest P)
  obtain q P1 where q: "pool_take P = (q, P1)" by (rule prod.exhaust)
  have "pool_ok P1" using pool_ok_steps(3) [OF "2.prems"(1) q] by blast
  then show ?case using "2.IH" [OF q [symmetric] refl] "2.prems"(2) q by (auto split: prod.splits)
qed simp

lemma plan_runs_pool: "plan_runs r W memo hint P = Some (runs, P') \<Longrightarrow> pool_ok P \<Longrightarrow> pool_ok P'"
proof (induction r)
  case (FunctionSystem i ps f)
  obtain planned where pl: "plan_prepared ps i W memo hint = Some planned"
    using FunctionSystem.prems(1) by (auto simp: plan_rows_def prepare_invocations_def)
  obtain rs P1 where l: "lease (pr_invocations planned) P = (rs, P1)" by (rule prod.exhaust)
  then have "P' = P1" using FunctionSystem.prems(1) pl by (auto simp: plan_rows_def prepare_invocations_def map_prod_def)
  then show ?case using lease_pool [OF FunctionSystem.prems(2) l] by simp
qed auto

lemma plan_wave_pool: "plan_wave workers maximum ph W memo log epoch ss v = Some (ss', v') \<Longrightarrow> pool_ok (wv_pool v) \<Longrightarrow> pool_ok (wv_pool v')"
proof (induction workers maximum ph W memo log epoch ss v arbitrary: ss' rule: plan_wave.induct)
  case (2 workers maximum ph W memo log epoch s ss v)
  obtain plan s1 where p: "(if bs_phase s = ph then needs_planning W s else (False, s)) = (plan, s1)" by (rule prod.exhaust)
  obtain s2 v1 ss1 where v1: "(if plan then plan_and_dispatch workers maximum W memo log epoch s1 v else Some (s1, v)) = Some (s2, v1)"
    and rest: "plan_wave workers maximum ph W memo log epoch ss v1 = Some (ss1, v')"
    using "2.prems"(1) p by (auto elim!: bind_SomeE split: prod.splits)
  have "pool_ok (wv_pool v1)"
  proof (cases plan)
    case True
    then obtain runs s3 where "plan_system W memo log epoch s1 (wv_pool v) = Some (runs, s3, wv_pool v1)"
      using v1 by (auto simp: plan_and_dispatch_def elim!: bind_SomeE split: prod.splits)
    then show ?thesis using plan_runs_pool "2.prems"(2)
      by (fastforce simp: plan_system_def elim!: bind_SomeE split: prod.splits)
  qed (use v1 "2.prems"(2) in auto)
  then show ?case using "2.IH" [OF refl p [symmetric] v1 refl rest] by simp
qed simp

section \<open>Settling\<close>

lemma snapshot_section:
  assumes "snapshot_locked st = Some (W, st')"
  shows "section_ok ct st st'"
proof -
  have f: "st_ledger st' = st_ledger st \<and> st_planning_storage st' = st_planning_storage st \<and> st_world st' = st_world st"
    using assms by (auto simp: snapshot_locked_def snapshot_fresh_def st_ledger_def split: option.splits if_splits)
  have "st_snapshot_cache st' = st_snapshot_cache st
      \<or> world_snapshot (st_world st) = Some W \<and> st_snapshot_cache st' = Some (snapshot_key (st_world st), W)"
    using assms by (auto simp: snapshot_locked_def snapshot_fresh_def split: option.splits if_splits)
  moreover have "cached_from ct (st_world st) (snapshot_key (st_world st), W)"
    if "world_settled ct (st_world st)" "world_snapshot (st_world st) = Some W"
    using that by (auto simp: cached_from_def)
  ultimately show ?thesis using f by (auto simp: section_ok_def pool_fine_def)
qed

lemma planned_section:
  assumes "planned workers maximum ph W log epoch v memo st = Some (v', st')" and pool: "pool_ok (wv_pool v)"
  shows "section_ok ct st st'"
proof -
  obtain defs where w: "plan_wave workers maximum ph W memo log epoch (st_systems st) v = Some (defs, v')"
    and st': "st' = st\<lparr>st_systems := defs, st_planning_storage := Some (wv_pool v')\<rparr>"
    using assms by (auto simp: planned_def)
  have "pool_ok (wv_pool v')" by (rule plan_wave_pool [OF w pool])
  then show ?thesis by (simp add: st' section_ok_def st_ledger_def pool_fine_def)
qed

text \<open>A section on the state that leaves the callers' futures alone.\<close>

definition engine_section :: "'v component_trait \<Rightarrow> 'v engine \<Rightarrow> 'v engine \<Rightarrow> bool" where
  "engine_section ct E E' \<longleftrightarrow> section_ok ct (eg_state E) (eg_state E') \<and> same_tasks E E'"

lemma engine_section_good: "engine_ok ct E \<Longrightarrow> engine_section ct E E' \<Longrightarrow> good_step ct Quiet E E'"
  by (auto simp: engine_section_def intro: section_step)

lemma engine_section_state: "section_ok ct (eg_state E) st \<Longrightarrow> engine_section ct E (put_state E st)"
  by (simp add: engine_section_def same_tasks_def)

lemma engine_section_trivial:
  assumes "st_ledger st = st_ledger (eg_state E)" "st_world st = st_world (eg_state E)" "st_planning_storage st = st_planning_storage (eg_state E)"
    "st_snapshot_cache st = st_snapshot_cache (eg_state E)"
  shows "engine_section ct E (put_state E st)"
  by (rule engine_section_state [OF section_world]) (use assms in simp_all)

lemma refresh_section: "refresh_settled_snapshot E = Some E' \<Longrightarrow> engine_section ct E E'"
proof -
  assume "refresh_settled_snapshot E = Some E'"
  then obtain W st where s: "snapshot_locked (eg_state E) = Some (W, st)"
    and E': "E' = E\<lparr>eg_state := st\<lparr>st_settled_snapshot := Some W\<rparr>, eg_settled_read := Some W\<rparr>"
    by (auto simp: refresh_settled_snapshot_def)
  have "section_ok ct st (st\<lparr>st_settled_snapshot := Some W\<rparr>)" by (rule section_world) (simp_all add: st_ledger_def)
  then show ?thesis using section_trans [OF snapshot_section [OF s]] by (simp add: engine_section_def E' same_tasks_def)
qed

lemma publish_section: "section_ok ct st (publish_settled_revision st)" "section_ok ct st (publish_if b st)"
  by (auto simp: publish_if_def publish_settled_revision_def Let_def section_ok_def st_ledger_def pool_fine_def)

lemma heal_section:
  assumes "heal_stale_ambient attempts E = Some (healed, attempts', E')"
  shows "engine_section ct E E'"
proof -
  have "heal_victims ows (as, st) = Some (as', st') \<Longrightarrow> section_ok ct st st'" for ows as st as' and st' :: "'a state"
  proof (induction ows "(as, st)" arbitrary: as st rule: heal_victims.induct)
    case (2 owner ows attempts st)
    let ?st1 = "st\<lparr>st_memo := AList.delete owner (st_memo st), st_systems := (st_systems st)[inv_system owner :=
        force_replan (inv_keys owner) (st_systems st ! inv_system owner)]\<rparr>"
    have "section_ok ct st ?st1" by (rule section_world) (simp_all add: st_ledger_def)
    moreover have "section_ok ct ?st1 st'" using 2 by (auto simp: Let_def split: if_splits)
    ultimately show ?case by (rule section_trans)
  qed simp
  then show ?thesis
    using assms by (auto simp: heal_stale_ambient_def Let_def engine_section_def same_tasks_def split: if_splits)
qed

lemma take_section: "take_bound ct blocked ps e E = Some (res, E') \<Longrightarrow> engine_section ct E E'"
proof -
  assume t: "take_bound ct blocked ps e E = Some (res, E')"
  let ?st = "(eg_state E)\<lparr>st_snapshot_cache := None, st_settled_snapshot := None\<rparr>"
  have s: "section_ok ct (eg_state E) ?st" by (rule section_world) (simp_all add: st_ledger_def)
  show ?thesis
  proof (cases blocked)
    case True
    then show ?thesis using t s by (auto simp: take_bound_def Let_def engine_section_def same_tasks_def)
  next
    case False
    then obtain r W st2 where b: "take_bundle ct ps e (st_world (eg_state E)) = Some (r, W)"
      and c: "cleanup_bound_entities ct [e] (?st\<lparr>st_world := W\<rparr>) = Some st2"
      and E': "E' = E\<lparr>eg_settled_read := None, eg_state := publish_if (bowl_is_settled ?st) st2\<rparr>"
      using t by (auto simp: take_bound_def Let_def elim!: bind_SomeE)
    have "section_ok ct (eg_state E) (?st\<lparr>st_world := W\<rparr>)"
      by (rule section_world [OF take_bundle_later [OF b]]) (simp_all add: st_ledger_def)
    then show ?thesis
      using section_trans [OF _ section_trans [OF cleanup_section [OF c] publish_section(2)]]
      by (simp add: E' engine_section_def same_tasks_def)
  qed
qed

lemma drain_section: "drain_rows ct es E = Some E' \<Longrightarrow> engine_section ct E E'"
  using section_trans [OF snapshot_section section_trans [OF cleanup_section publish_section(2)]]
  by (fastforce simp: drain_rows_def engine_section_def same_tasks_def elim!: bind_SomeE)

lemma cleanup_engine: "drain_deferred_bound_cleanup ct E = Some E' \<Longrightarrow> engine_section ct E E'"
proof (cases "eg_cleanup E = []")
  case False
  assume d: "drain_deferred_bound_cleanup ct E = Some E'"
  let ?b = "bowl_is_settled (eg_state E)"
  obtain st where c: "cleanup_bound_entities ct (eg_cleanup E) (eg_state E) = Some st"
    and rest: "(if ?b then refresh_settled_snapshot (E\<lparr>eg_state := publish_if ?b st, eg_cleanup := []\<rparr>)
        else Some (E\<lparr>eg_state := publish_if ?b st, eg_cleanup := []\<rparr>)) = Some E'"
    using d False by (auto simp: drain_deferred_bound_cleanup_def Let_def elim!: bind_SomeE)
  have s: "engine_section ct E (E\<lparr>eg_state := publish_if ?b st, eg_cleanup := []\<rparr>)"
    using section_trans [OF cleanup_section [OF c] publish_section(2)] by (simp add: engine_section_def same_tasks_def)
  show ?thesis
  proof (cases ?b)
    case True
    then have "engine_section ct (E\<lparr>eg_state := publish_if ?b st, eg_cleanup := []\<rparr>) E'" using rest refresh_section by simp
    then show ?thesis using s section_trans by (fastforce simp: engine_section_def same_tasks_def)
  next
    case False
    then show ?thesis using s rest by simp
  qed
qed (auto simp: drain_deferred_bound_cleanup_def engine_section_def same_tasks_def)

lemma promote_engine_good:
  assumes ok: "engine_ok ct E" and p: "promote_deferred_inputs m (eg_state E) = (b, st)"
  shows "good_step ct Quiet E (put_state E st)"
  by (rule quiet_step [OF ok]) (use quiet_promote [OF engine_okD(3) [OF ok] p] in \<open>simp_all add: same_tasks_def\<close>)

lemma good_engine: "good_step ct ev E E' \<Longrightarrow> engine_ok ct E'"
  by (simp add: good_step_def)

lemma boundary_good:
  assumes ok: "engine_ok ct E" and s: "settle_boundary mark E = Some (nxt, E')"
  shows "good_step ct Quiet E E'"
proof -
  obtain b st where p: "promote_deferred_inputs (Some mark) (eg_state E) = (b, st)" by (rule prod.exhaust)
  note g = promote_engine_good [OF ok p]
  show ?thesis
  proof (cases b)
    case True
    then show ?thesis using s p g by (simp add: settle_boundary_def Let_def)
  next
    case False
    then obtain E1 where "refresh_settled_snapshot (put_state E st) = Some E1" "E' = E1"
      using s p by (auto simp: settle_boundary_def Let_def)
    then show ?thesis using good_step_after [OF g engine_section_good [OF good_engine [OF g] refresh_section]] by blast
  qed
qed

lemma settle_sections_good:
  assumes ok: "engine_ok ct E"
  shows "settle_fast E = Some (b, E') \<Longrightarrow> good_step ct Quiet E E'"
    and "settle_head mark E = Some (nxt, E') \<Longrightarrow> good_step ct Quiet E E'"
    and "settle_evaluated mark E = Some (nxt, E') \<Longrightarrow> good_step ct Quiet E E'"
    and "settle_close mark E = Some (nxt, E') \<Longrightarrow> good_step ct Quiet E E'"
proof -
  have same: "good_step ct Quiet E E" using ok by (simp add: good_step_def)
  show "settle_fast E = Some (b, E') \<Longrightarrow> good_step ct Quiet E E'"
    using same engine_section_good [OF ok refresh_section] by (auto simp: settle_fast_def split: if_splits)
  show "settle_head mark E = Some (nxt, E') \<Longrightarrow> good_step ct Quiet E E'"
    using same boundary_good [OF ok] by (auto simp: settle_head_def Let_def split: if_splits)
  show "settle_evaluated mark E = Some (nxt, E') \<Longrightarrow> good_step ct Quiet E E'"
    using same boundary_good [OF ok] by (auto simp: settle_evaluated_def Let_def split: if_splits)
  assume s: "settle_close mark E = Some (nxt, E')"
  obtain b st where p: "promote_deferred_inputs (Some mark) (eg_state E) = (b, st)" by (rule prod.exhaust)
  note g = promote_engine_good [OF ok p]
  show "good_step ct Quiet E E'"
  proof (cases b)
    case True
    then show ?thesis using s p g by (simp add: settle_close_def)
  next
    case False
    let ?E1 = "put_state E (publish_settled_revision st)"
    obtain E2 where r: "refresh_settled_snapshot ?E1 = Some E2" and E': "E' = on_state (\<lambda>st. st\<lparr>st_settle_watchers := []\<rparr>) E2"
      using s p False by (auto simp: settle_close_def)
    have e: "engine_section ct (put_state E st) ?E1"
      using publish_section(1) by (simp add: engine_section_def same_tasks_def)
    have "good_step ct Quiet E ?E1" using good_step_after [OF g engine_section_good [OF good_engine [OF g] e]] .
    then have "good_step ct Quiet E E2" using good_step_after engine_section_good [OF good_engine refresh_section [OF r]] by blast
    then show ?thesis
      unfolding E' by (rule good_step_after) (rule engine_section_good [OF good_engine engine_section_trivial],
        use \<open>good_step ct Quiet E E2\<close> in \<open>simp_all add: st_ledger_def\<close>)
  qed
qed

lemma commit_engine:
  "driver_commit ct ph run E = Some (prog, E') \<Longrightarrow> engine_section ct E E'"
  "hook_commit ct phase i run E = Some (prog, E') \<Longrightarrow> engine_section ct E E'"
  using commit_run_section
  by (fastforce simp: driver_commit_def hook_commit_def engine_section_def same_tasks_def elim!: bind_SomeE split: prod.splits)+

lemma world_section:
  assumes "world_later ct (st_world (eg_state E)) (f (st_world (eg_state E)))"
  shows "engine_section ct E (on_world f E)"
  unfolding on_world_def by (rule engine_section_state [OF section_world]) (use assms in \<open>simp_all add: st_ledger_def\<close>)

text \<open>Reserving entities is spawning them.\<close>

lemma spawn_later:
  assumes "w_next_entity W \<le> n"
  shows "world_later ct W (W\<lparr>w_next_entity := n\<rparr>)"
proof -
  have "world_later ct W (W\<lparr>w_next_entity := w_next_entity W + k\<rparr>)" for k
  proof (induction k)
    case (Suc k)
    then show ?case by (rule later_op) (rule ws_spawn, simp add: spawn_empty_def)
  qed simp
  then show ?thesis using assms by (metis le_add_diff_inverse)
qed

text \<open>An update of rows from outside is a sequence of updates of one component.\<close>

lemma cow_loop_later: "cow_loop ct ty f es seen W changed = (changed', W') \<Longrightarrow> world_later ct W W'"
proof (induction es arbitrary: seen W changed)
  case (Cons e es)
  obtain c W1 where c: "cow_for_each_mut ct ty e (\<lambda>v. f seen (e, v)) W = (c, W1)" by (rule prod.exhaust)
  have "world_later ct W W1"
    using c op_later [OF ws_update] by (auto simp: cow_for_each_mut_def update_component_live_def split: try_update.splits)
  moreover have "world_later ct W1 W'" using Cons c by (auto simp: Let_def split: option.splits)
  ultimately show ?case by (rule rtranclp_trans)
qed simp

lemma for_each_good:
  assumes ok: "engine_ok ct E" and fe: "for_each ct cmp ty F A scope f E = Some E'"
  shows "good_step ct Quiet E E'"
proof -
  obtain es where fe': "E' = (let (changed, W) = cow_loop ct ty f es [] (st_world (eg_state E)) False;
         st = (eg_state E)\<lparr>st_world := W\<rparr>
       in E\<lparr>eg_state := if changed then enqueue_next_generation (st\<lparr>st_normal_clean := False\<rparr>) else st\<rparr>)"
    using fe by (auto simp: for_each_def)
  obtain changed W where l: "cow_loop ct ty f es [] (st_world (eg_state E)) False = (changed, W)" by (rule prod.exhaust)
  have E': "E' = put_state E (let st = (eg_state E)\<lparr>st_world := W\<rparr> in
        if changed then enqueue_next_generation (st\<lparr>st_normal_clean := False\<rparr>) else st)"
    using fe' by (simp add: l Let_def)
  let ?st1 = "(eg_state E)\<lparr>st_world := W\<rparr>" and ?st2 = "(eg_state E)\<lparr>st_world := W, st_normal_clean := False\<rparr>"
  have s: "section_ok ct (eg_state E) ?st1" "section_ok ct (eg_state E) ?st2"
    by (rule section_world [OF cow_loop_later [OF l]]; simp add: st_ledger_def)+
  note q = quiet_section [OF engine_okD(3) [OF ok]]
  have "ledger_ok ?st2" using q [OF s(2)] by (simp add: quiet_state_def)
  then have "quiet_state ct (eg_state E) (enqueue_next_generation ?st2)"
    using q [OF s(2)] quiet_enqueue quiet_trans by blast
  then show ?thesis
    by (intro quiet_step [OF ok]) (use q [OF s(1)] in \<open>auto simp: E' Let_def same_tasks_def\<close>)
qed

lemma engine_step_good:
  assumes ok: "engine_ok ct E" and s: "engine_step ct ev E E'"
  shows "good_step ct ev E E'"
  using s
proof cases
  case es_insert
  then show ?thesis using insert_inner_good [OF ok] by blast
next
  case es_despawn
  then show ?thesis using remove_input_good(1) [OF ok] by blast
next
  case es_remove
  then show ?thesis using remove_input_good(2) [OF ok] by blast
next
  case (es_mutate d ty e f original)
  have "engine_ok ct E'" using ok by (simp add: es_mutate engine_ok_def tasks_ok_def waiter_ok_def)
  then show ?thesis by (simp add: es_mutate good_step_def outstanding_def waiting_ops_def)
next
  case es_retry
  then show ?thesis using retry_good [OF ok] by blast
next
  case es_withdraw
  then show ?thesis using withdraw_good [OF ok] by blast
next
  case es_begin
  then show ?thesis using begin_good [OF ok] by blast
next
  case es_lend
  have "section_ok ct (eg_state E) (eg_state E')" by (simp add: es_lend section_ok_def st_ledger_def pool_fine_def)
  then show ?thesis unfolding es_lend by (intro section_step [OF ok]) (simp_all add: es_lend same_tasks_def)
next
  case (es_plan g memo workers maximum ph W log epoch v v' st)
  then show ?thesis using engine_section_good [OF ok engine_section_state [OF planned_section]] by blast
next
  case (es_stale i keys)
  have "engine_section ct E E'" by (simp add: es_stale engine_section_def same_tasks_def section_marks(1))
  then show ?thesis unfolding es_stale(1) by (rule engine_section_good [OF ok])
next
  case (es_spawn n)
  from engine_section_good [OF ok world_section [where f = "\<lambda>W. W\<lparr>w_next_entity := n\<rparr>", OF spawn_later]]
  show ?thesis unfolding es_spawn(1,2) using es_spawn(3) .
next
  case (es_write ty e x)
  have "world_later ct W (write_cell ty e x W)" for W by (rule r_into_rtranclp) (rule ws_write)
  from engine_section_good [OF ok world_section [where f = "write_cell ty e x", OF this]] show ?thesis unfolding es_write .
next
  case es_commit
  then show ?thesis using engine_section_good [OF ok commit_engine(1)] by blast
next
  case es_open
  then show ?thesis using engine_section_good [OF ok engine_section_trivial] by (simp add: open_preempt_window_def st_ledger_def)
next
  case es_close
  then show ?thesis using engine_section_good [OF ok engine_section_trivial] by (simp add: close_preempt_window_def st_ledger_def)
next
  case es_restart
  then show ?thesis using engine_section_good [OF ok engine_section_trivial] by (simp add: after_preemption_def st_ledger_def)
next
  case es_complete
  then show ?thesis using complete_good [OF ok] by blast
next
  case es_abandon
  then show ?thesis using abandon_good [OF ok] by blast
next
  case es_wait
  then show ?thesis using engine_section_good [OF ok engine_section_trivial] by (simp add: wait_for_generation_def st_ledger_def)
next
  case es_enqueue
  then show ?thesis
    using quiet_step [OF ok, of E'] quiet_enqueue [OF engine_okD(3) [OF ok]] by (simp add: same_tasks_def)
next
  case es_enter
  then show ?thesis using enter_good [OF ok] by blast
next
  case es_leave
  then show ?thesis using leave_good [OF ok] by blast
next
  case es_fast
  then show ?thesis using settle_sections_good(1) [OF ok] by blast
next
  case es_head
  then show ?thesis using settle_sections_good(2) [OF ok] by blast
next
  case es_evaluated
  then show ?thesis using settle_sections_good(3) [OF ok] by blast
next
  case es_settled
  then show ?thesis using settle_sections_good(4) [OF ok] by blast
next
  case es_heal
  then show ?thesis using engine_section_good [OF ok heal_section] by blast
next
  case es_hooks_begin
  have "engine_section ct E E'" by (simp add: es_hooks_begin hooks_begin_def engine_section_def same_tasks_def section_marks(3))
  then show ?thesis unfolding es_hooks_begin(1) by (rule engine_section_good [OF ok])
next
  case es_hook_commit
  then show ?thesis using engine_section_good [OF ok commit_engine(2)] by blast
next
  case es_hooks_end
  have "engine_section ct E E'" by (simp add: es_hooks_end hooks_end_def engine_section_def same_tasks_def section_marks(3))
  then show ?thesis unfolding es_hooks_end(1) by (rule engine_section_good [OF ok])
next
  case es_hooks_dropped
  have "engine_section ct E E'" by (simp add: es_hooks_dropped engine_section_def same_tasks_def)
  then show ?thesis unfolding es_hooks_dropped(1) by (rule engine_section_good [OF ok])
next
  case es_drop_bound
  have "engine_section ct E E'" by (simp add: es_drop_bound drop_bound_def engine_section_def same_tasks_def)
  then show ?thesis unfolding es_drop_bound(1) by (rule engine_section_good [OF ok])
next
  case es_cleanup
  then show ?thesis using engine_section_good [OF ok cleanup_engine] by blast
next
  case es_take
  then show ?thesis using engine_section_good [OF ok take_section] by blast
next
  case es_drain
  then show ?thesis using engine_section_good [OF ok drain_section] by blast
next
  case es_for_each
  then show ?thesis using for_each_good [OF ok] by blast
next
  case es_snapshot
  then show ?thesis using engine_section_good [OF ok engine_section_state [OF snapshot_section]] by blast
qed

section \<open>Every run\<close>

lemma universe_distinct: "distinct (schema_universe shapes)"
proof -
  have "distinct (fold (\<lambda>ty tys. if ty \<in> set tys then tys else tys @ [ty]) xs ys)" if "distinct ys" for xs ys :: "type_id list"
    using that by (induction xs arbitrary: ys) auto
  then show ?thesis unfolding schema_universe_def by simp
qed

lemma register_good:
  assumes "register_system d E = Some E'" and ok: "engine_ok ct E" "outstanding E = {#}"
  shows "engine_ok ct E' \<and> outstanding E' = {#}"
proof -
  obtain s where E': "E' = (on_state (\<lambda>st. enqueue_next_generation (st\<lparr>st_systems := st_systems st @ [s]\<rparr>)) E)
       \<lparr>eg_healing := eg_healing E \<or> (bs_phase s \<noteq> Settle \<and> bs_view_freshness s \<noteq> [])\<rparr>"
    using assms(1) by (auto simp: register_system_def)
  have q: "quiet_state ct (eg_state E) ((eg_state E)\<lparr>st_systems := st_systems (eg_state E) @ [s]\<rparr>)"
    by (rule quiet_section [OF engine_okD(3) [OF ok(1)] section_marks(1)])
  then have "ledger_ok ((eg_state E)\<lparr>st_systems := st_systems (eg_state E) @ [s]\<rparr>)" by (simp add: quiet_state_def)
  then have "quiet_state ct (eg_state E) (eg_state E')" using quiet_trans [OF q quiet_enqueue] by (simp add: E')
  then have "good_step ct Quiet E E'" by (rule quiet_step [OF ok(1)]) (simp add: E' same_tasks_def)
  then show ?thesis using ok(2) by (simp add: good_step_def)
qed

lemma build_good:
  assumes "build shapes steps = Some E"
  shows "engine_ok ct E \<and> outstanding E = {#}"
proof -
  obtain E0 E1 where E0: "seal_schema (shapes @ concat (map step_shapes steps)) inner_new = Some E0"
    and E1: "fold_opt register_system (concat (map step_systems steps)) E0 = Some E1" and E: "E = seal_systems E1"
    using assms by (auto simp: build_def elim!: bind_SomeE)
  obtain W sch where W: "E0 = on_state (\<lambda>st. st\<lparr>st_world := W, st_schema := sch\<rparr>) inner_new" and r: "world_settled ct W"
  proof (cases "shapes @ concat (map step_shapes steps) = []")
    case True
    then have "E0 = inner_new" using E0 by (simp add: seal_schema_def)
    then have "E0 = on_state (\<lambda>st. st\<lparr>st_world := world_new, st_schema := None\<rparr>) inner_new"
      by (simp add: inner_new_def bowl_new_def)
    then show thesis using that reach_new by blast
  next
    case False
    have w: "st_world (eg_state inner_new) = world_new" by (simp add: inner_new_def bowl_new_def)
    then obtain W where W: "init_presence (schema_universe (shapes @ concat (map step_shapes steps))) world_new = Some W"
      "E0 = on_state (\<lambda>st. st\<lparr>st_world := W, st_schema := Some (shapes @ concat (map step_shapes steps))\<rparr>) inner_new"
      using E0 unfolding seal_schema_def if_not_P [OF False] w by auto
    then show thesis using that reach_schema [OF universe_distinct] by blast
  qed
  have "engine_ok ct E0 \<and> outstanding E0 = {#}"
    using r by (simp add: W engine_ok_def inner_new_def bowl_new_def ledger_ok_def tasks_ok_def pool_fine_def
        pool_ok_steps(1) outstanding_def deferred_ops_def waiting_ops_def)
  then have E1_ok: "engine_ok ct E1 \<and> outstanding E1 = {#}"
    by (rule fold_opt_invariant [OF E1, where P = "\<lambda>E. engine_ok ct E \<and> outstanding E = {#}"]) (use register_good in blast)
  have "section_ok ct (eg_state E1) (eg_state E)"
    by (rule section_world) (simp_all add: E seal_systems_def Let_def st_ledger_def)
  then have "good_step ct Quiet E1 E"
    by (rule section_step [OF conjunct1 [OF E1_ok]]) (simp add: E seal_systems_def same_tasks_def Let_def)
  then show ?thesis using E1_ok by (simp add: good_step_def)
qed

lemma run_good:
  assumes "engine_run ct tr E"
  shows "engine_ok ct E" and "over submitted_by tr = over applied_by tr + over withdrawn_by tr + outstanding E"
    and "over (promised_by n) tr \<subseteq># over applied_by tr + due n (eg_state E)"
proof -
  have "engine_ok ct E \<and> over submitted_by tr = over applied_by tr + over withdrawn_by tr + outstanding E
      \<and> (\<forall>n. over (promised_by n) tr \<subseteq># over applied_by tr + due n (eg_state E))"
    using assms
  proof induction
    case (er_build shapes steps E)
    then show ?case using build_good by simp
  next
    case (er_step tr E ev E')
    note g = engine_step_good [OF conjunct1 [OF er_step.IH] er_step.hyps(2), unfolded good_step_def]
    have "over (promised_by n) (tr @ [ev]) \<subseteq># over applied_by (tr @ [ev]) + due n (eg_state E')" for n
    proof -
      have "over (promised_by n) tr + promised_by n ev \<subseteq># over applied_by tr + (due n (eg_state E) + promised_by n ev)"
        using er_step.IH by (simp add: add.assoc [symmetric])
      also have "\<dots> \<subseteq># over applied_by tr + (due n (eg_state E') + applied_by ev)" using g by simp
      finally show ?thesis by (simp add: ac_simps)
    qed
    moreover have "over submitted_by tr + submitted_by ev = over applied_by tr + over withdrawn_by tr + (outstanding E + submitted_by ev)"
      using er_step.IH by (simp add: ac_simps)
    then have "over submitted_by (tr @ [ev]) = over applied_by (tr @ [ev]) + over withdrawn_by (tr @ [ev]) + outstanding E'"
      using g by (simp add: ac_simps)
    ultimately show ?case using g by blast
  qed
  then show "engine_ok ct E" "over submitted_by tr = over applied_by tr + over withdrawn_by tr + outstanding E"
    "over (promised_by n) tr \<subseteq># over applied_by tr + due n (eg_state E)" by blast+
qed

text \<open>
  C39. The state is well formed in every run, whatever callers do and whichever of their futures
  are dropped: the world is one between commits; the generation fields name a generation only
  while a driver holds its guard, and order completed, running, pending and next one; inputs that
  are queued always have a generation to drain them; without a settle in progress no input is
  left deferred; and the count the runner waits on is that of the registered waiters.
\<close>

theorem engine_state_typed:
  assumes "engine_run ct tr E"
  shows "reachable ct ({}, st_world (eg_state E))
    \<and> eg_completed E = st_completed (eg_state E) \<and> st_running (eg_state E) = map_option fst (eg_guard E)
    \<and> st_completed (eg_state E) < st_next (eg_state E)
    \<and> (\<forall>g. st_running (eg_state E) = Some g \<longrightarrow> st_completed (eg_state E) < g \<and> st_next (eg_state E) = Suc g)
    \<and> (\<forall>p. st_pending (eg_state E) = Some p \<longrightarrow> st_completed (eg_state E) < p
        \<and> (p = st_next (eg_state E) \<or> st_running (eg_state E) = None \<and> Suc p = st_next (eg_state E)))
    \<and> (queue_is_empty (st_pending_inputs (eg_state E)) \<or> st_pending (eg_state E) \<noteq> None)
    \<and> st_settling (eg_state E) = length (eg_epochs E)
    \<and> (eg_epochs E = [] \<longrightarrow> st_deferred_inputs (eg_state E) = [])
    \<and> eg_preempt_waiters E = length (filter wt_registered (eg_waiting E))"
proof -
  note ok = run_good(1) [OF assms]
  note l = engine_okD(3) [OF ok]
  have t: "st_settling (eg_state E) = length (eg_epochs E)" using engine_okD(4) [OF ok] by (simp add: tasks_ok_def)
  have q: "queue_is_empty (st_pending_inputs (eg_state E)) \<or> st_pending (eg_state E) \<noteq> None"
    using queue_len_contents(2) [OF ledger_okD(1) [OF l]] ledger_okD(2) [OF l] by blast
  have d: "eg_epochs E = [] \<longrightarrow> st_deferred_inputs (eg_state E) = []" using ledger_okD(5) [OF l] t by simp
  show ?thesis
    using engine_okD(1,4) [OF ok] ledger_okD(6-8) [OF l] t q d unfolding tasks_ok_def by blast
qed

section \<open>What a generation applies\<close>

text \<open>
  The world a generation starts from, as its inputs make it: after the write log has been rolled
  and the settle outputs held back are in, the operations run on the world one after the other, in
  order; then the ownership edges are flushed, the commit records emptied, and the outputs of what
  the inputs removed are retired.
\<close>

definition inputs_applied :: "'v component_trait \<Rightarrow> 'v operation list \<Rightarrow> 'v state \<Rightarrow> 'v state \<Rightarrow> bool" where
  "inputs_applied ct ops st st' \<longleftrightarrow> (\<exists>rolled W0 W1 W2 W3 gone memo res.
     maybe_roll_plan_epoch (st_world st) = Some (rolled, W0)
     \<and> apply_deferred_settle ct (st_deferred_settle st) W0 = Some W1
     \<and> fold_opt (operation_apply ct None) ops W1 = Some W2
     \<and> flush_derived_from ct W2 = Some W3
     \<and> retire_loop ct None (remdups (w_removed_entities W3)) (remdups (w_removed_entities W3)) gone memo
         (W3\<lparr>w_written_derived := [], w_removed_entities := [], w_removed_component_owners := [], w_removed_owners := []\<rparr>) = Some res
     \<and> snd (snd res) = st_world st')"

lemma compact_logs_world:
  "compact_logs st = Some st' \<Longrightarrow> \<exists>rolled. maybe_roll_plan_epoch (st_world st) = Some (rolled, st_world st')"
  by (auto simp: compact_logs_def elim!: bind_SomeE split: option.splits)

lemma compact_logs_inputs:
  "compact_logs st = Some st' \<Longrightarrow> st_pending_inputs st' = st_pending_inputs st \<and> st_deferred_settle st' = st_deferred_settle st"
  by (auto simp: compact_logs_def elim!: bind_SomeE split: option.splits)

lemma start_evaluation_applies:
  assumes se: "start_evaluation ct st0 = Some (Some (generation, memo, startup), st')" and q0: "queue_ok (st_pending_inputs st0)"
  shows "inputs_applied ct (contents (st_pending_inputs st0)) st0 st'"
proof -
  have g: "st_pending st0 = Some generation" by (rule start_evaluation_steps(1) [OF se])
  let ?take = "\<lambda>W. W\<lparr>w_written_derived := [], w_removed_entities := [], w_removed_component_owners := [], w_removed_owners := []\<rparr>"
  obtain st W1 W2 inputs W3 g1 memo1 defs g2 st1 where
    c: "compact_logs (st0\<lparr>st_pending := None\<rparr>) = Some st"
    and d: "apply_deferred_settle ct (st_deferred_settle st) (st_world st) = Some W1"
    and q: "queue_apply ct None W1 (st_pending_inputs st) = (Some W2, inputs)"
    and f: "flush_derived_from ct W2 = Some W3"
    and ri: "reconcile_removed_invocations ct None (w_removed_entities W3) []
        (st\<lparr>st_world := ?take W3, st_deferred_settle := [], st_pending_inputs := inputs, st_systems := defs\<rparr>, memo1) = Some (g2, st1, memo)"
    and st': "mark_running generation st1 = (startup, st')"
    using se by (auto simp: start_evaluation_def g take_written_derived_def take_removed_entities_def
        take_removed_component_owners_def take_removed_owners_def elim!: bind_SomeE split: prod.splits)
  obtain rolled where r: "maybe_roll_plan_epoch (st_world st0) = Some (rolled, st_world st)"
    using compact_logs_world [OF c] by auto
  have same: "st_pending_inputs st = st_pending_inputs st0" "st_deferred_settle st = st_deferred_settle st0"
    using compact_logs_inputs [OF c] by simp_all
  have ops: "fold_opt (operation_apply ct None) (contents (st_pending_inputs st0)) W1 = Some W2"
    using q queue_apply_eq [OF q0, of ct None W1] by (auto simp: same)
  obtain gone memo2 res where "retire_loop ct None (remdups (w_removed_entities W3)) (remdups (w_removed_entities W3)) gone memo2 (?take W3) = Some res"
    and "snd (snd res) = st_world st1"
    using ri by (auto simp: reconcile_removed_invocations_def elim!: bind_SomeE split: prod.splits)
  moreover have "st_world st' = st_world st1" using st' by (auto simp: mark_running_def)
  ultimately show ?thesis
    using r d ops f unfolding inputs_applied_def same by (intro exI conjI) (assumption | simp)+
qed

text \<open>The part of a run after a step.\<close>

inductive engine_path :: "'v component_trait \<Rightarrow> 'v event list \<Rightarrow> 'v engine \<Rightarrow> 'v engine \<Rightarrow> bool" for ct where
  ep_here: "engine_path ct [] E E"
| ep_step: "engine_path ct tr E E1 \<Longrightarrow> engine_step ct ev E1 E2 \<Longrightarrow> engine_path ct (tr @ [ev]) E E2"

inductive_cases engine_run_snocE: "engine_run ct (tr @ [ev]) E"

lemma engine_run_at:
  "engine_run ct (tr1 @ ev # tr2) E \<Longrightarrow>
   \<exists>E1 E2. engine_run ct tr1 E1 \<and> engine_step ct ev E1 E2 \<and> engine_path ct tr2 E2 E"
proof (induction tr2 arbitrary: E rule: rev_induct)
  case Nil
  then show ?case by (auto elim!: engine_run_snocE intro: ep_here)
next
  case (snoc ev' tr2)
  from snoc.prems have "engine_run ct ((tr1 @ ev # tr2) @ [ev']) E" by simp
  then obtain E' where "engine_run ct (tr1 @ ev # tr2) E'" "engine_step ct ev' E' E" by (rule engine_run_snocE) auto
  then show ?case using snoc.IH by (blast intro: ep_step)
qed

lemma input_event_cases: "Began g ops \<noteq> input_event ops' res"
  by (cases res) simp_all

lemma began_applies:
  assumes "engine_step ct (Began g ops) E E'" and ok: "engine_ok ct E"
  shows "st_pending (eg_state E) = Some g \<and> st_running (eg_state E') = Some g \<and> inputs_applied ct ops (eg_state E) (eg_state E')"
  using assms(1)
proof cases
  case (es_begin started)
  then have g: "st_pending (eg_state E) = Some g" and ops: "ops = contents (st_pending_inputs (eg_state E))"
    by (auto split: option.splits)
  obtain res st where se: "start_evaluation ct (eg_state E) = Some (res, st)" using es_begin by (auto simp: begin_generation_def)
  then obtain memo startup where res: "res = Some (g, memo, startup)"
    using g by (auto simp: start_evaluation_def Let_def elim!: bind_SomeE split: prod.splits)
  have "eg_state E' = st" using es_begin se res by (auto simp: begin_generation_def)
  then show ?thesis
    using start_evaluation_applies [OF se [unfolded res] ledger_okD(1) [OF engine_okD(3) [OF ok]]]
      start_evaluation_steps(2) [OF se [unfolded res]] g ops by (auto simp: st_ledger_def)
qed (auto simp: input_event_cases split: option.splits)

text \<open>
  C40. Inputs are applied exactly once, and no later than promised.  In every run what was
  submitted is, with multiplicities, what generations applied, what callers withdrew by dropping
  their future before it was accepted and what is still queued, deferred or waiting: an input is
  applied at most once, and one that is not withdrawn is applied or still on its way.  Every input
  whose caller was told a generation has been applied once that generation has completed, also when
  the driver was dropped in between.  And what counts as applied has been done to the world: where
  the run starts generation \<open>g\<close> with inputs \<open>ops\<close>, that generation was the pending one,
  becomes the running one, and the world it runs on is the one before with every operation of
  \<open>ops\<close> carried out in order.
\<close>

theorem inputs_exactly_once:
  assumes "engine_run ct tr E"
  shows "over submitted_by tr = over applied_by tr + over withdrawn_by tr + outstanding E
    \<and> (\<forall>n \<le> eg_completed E. over (promised_by n) tr \<subseteq># over applied_by tr)
    \<and> (\<forall>tr1 g ops tr2. tr = tr1 @ Began g ops # tr2 \<longrightarrow> (\<exists>E1 E2. engine_run ct tr1 E1
        \<and> engine_step ct (Began g ops) E1 E2 \<and> engine_path ct tr2 E2 E
        \<and> st_pending (eg_state E1) = Some g \<and> st_running (eg_state E2) = Some g
        \<and> inputs_applied ct ops (eg_state E1) (eg_state E2)))"
proof -
  note ok = run_good(1) [OF assms]
  have "due n (eg_state E) = {#}" if "n \<le> eg_completed E" for n
  proof -
    have "eg_completed E = st_completed (eg_state E)" using engine_okD(4) [OF ok] by (simp add: tasks_ok_def)
    then show ?thesis using ledger_okD(8) [OF engine_okD(3) [OF ok]] that by (force simp: due_def split: option.split)
  qed
  moreover have "\<exists>E1 E2. engine_run ct tr1 E1 \<and> engine_step ct (Began g ops) E1 E2 \<and> engine_path ct tr2 E2 E
        \<and> st_pending (eg_state E1) = Some g \<and> st_running (eg_state E2) = Some g
        \<and> inputs_applied ct ops (eg_state E1) (eg_state E2)"
    if "tr = tr1 @ Began g ops # tr2" for tr1 g ops tr2
    using engine_run_at [OF assms [unfolded that]] began_applies run_good(1) by blast
  ultimately show ?thesis using run_good(2,3) [OF assms] by (metis add.right_neutral)
qed

section \<open>Witnesses\<close>

text \<open>One caller inserts an entity, drives its generation and completes it.\<close>

definition demo_input :: "nat user_value operation" where
  "demo_input = Base (InsertBaseCommand 0 (UserTy 0) (demo_plain 5))"

definition demo_built :: "nat user_value engine" where
  "demo_built = the (build [] [])"

definition demo_inserted :: "nat user_value engine" where
  "demo_inserted = snd (snd (the (insert_inner [(UserTy 0, demo_plain 5)] False None demo_built)))"

definition demo_begun :: "nat user_value engine" where
  "demo_begun = snd (the (begin_generation demo_trait demo_inserted))"

definition demo_completed :: "nat user_value engine" where
  "demo_completed = complete_generation True demo_begun"

lemmas retire_loop_code [code] = retire_loop.simps

lemma demo_engine_begun:
  "engine_run demo_trait [Accepted [demo_input] (Some 1)] demo_inserted"
  "eg_guard demo_inserted = None" "st_pending (eg_state demo_inserted) = Some 1"
  "contents (st_pending_inputs (eg_state demo_inserted)) = [demo_input]"
proof -
  have "build [] ([] :: nat user_value build_step list) \<noteq> None" by code_simp
  then have b: "engine_run demo_trait [] demo_built" unfolding demo_built_def by (auto intro: er_build)
  have "map_option (\<lambda>(e, res, E). (e, res)) (insert_inner [(UserTy 0, demo_plain 5)] False None demo_built) = Some (0, Queued 1)"
    unfolding demo_built_def by code_simp
  then have i: "insert_inner [(UserTy 0, demo_plain 5)] False None demo_built = Some (0, Queued 1, demo_inserted)"
    unfolding demo_inserted_def by auto
  show "engine_run demo_trait [Accepted [demo_input] (Some 1)] demo_inserted"
    using er_step [OF b es_insert [OF i]] by (simp add: demo_input_def)
  show "eg_guard demo_inserted = None" "st_pending (eg_state demo_inserted) = Some 1"
    "contents (st_pending_inputs (eg_state demo_inserted)) = [demo_input]"
    unfolding demo_inserted_def demo_built_def by code_simp+
qed

lemma demo_engine_run:
  "engine_run demo_trait [Accepted [demo_input] (Some 1), Began 1 [demo_input], Quiet] demo_completed"
proof -
  note f = demo_engine_begun
  have "map_option (\<lambda>(started, E). (started, st_next (eg_state E))) (begin_generation demo_trait demo_inserted) = Some (Some True, 2)"
    unfolding demo_inserted_def demo_built_def by code_simp
  then obtain started where "begin_generation demo_trait demo_inserted = Some (started, demo_begun)"
    unfolding demo_begun_def by auto
  from er_step [OF f(1) es_begin [OF f(2) this]] have "engine_run demo_trait [Accepted [demo_input] (Some 1), Began 1 [demo_input]] demo_begun"
    by (simp add: f)
  from er_step [OF this es_complete] show ?thesis unfolding demo_completed_def by simp
qed

theorem engine_state_typed_witness:
  "engine_run demo_trait [Accepted [demo_input] (Some 1), Began 1 [demo_input], Quiet] demo_completed
    \<and> reachable demo_trait ({}, st_world (eg_state demo_completed)) \<and> st_completed (eg_state demo_completed) < st_next (eg_state demo_completed)"
  using demo_engine_run engine_state_typed [OF demo_engine_run] by blast

theorem inputs_exactly_once_witness:
  "over applied_by [Accepted [demo_input] (Some 1), Began 1 [demo_input], Quiet] = {#demo_input#}
    \<and> outstanding demo_completed = {#} \<and> eg_completed demo_completed = 1
    \<and> over (promised_by 1) [Accepted [demo_input] (Some 1), Began 1 [demo_input], Quiet] = {#demo_input#}"
proof -
  have c: "eg_completed demo_completed = 1"
    unfolding demo_completed_def demo_begun_def demo_inserted_def demo_built_def by code_simp
  show ?thesis using inputs_exactly_once [OF demo_engine_run] c by (simp add: over_def)
qed

end
