(* ===== verification/Snapshots.thy ===== *)
theory Snapshots
  imports Engine_Claims
begin

text \<open>
  The snapshot cache (\<open>snapshot_locked\<close> in bowl.rs).  The key of a snapshot is three counters of
  the world; here it is shown to be enough: while the revision stays the same no component
  appears, disappears or changes its stamp, so a snapshot that is served again is what a fresh
  one would be to a planner.
\<close>

section \<open>Worlds with the same revision\<close>

text \<open>What a planner sees of an entry: its revision and, where it is tracked, its fingerprint.\<close>

definition stamp :: "'v component_trait \<Rightarrow> type_id \<Rightarrow> 'v component_entry \<Rightarrow> nat \<times> nat option" where
  "stamp ct ty en = (ce_revision en, if tracked ct ty then ce_fingerprint en else None)"

definition same_stamps :: "'v component_trait \<Rightarrow> 'v world \<Rightarrow> 'v world \<Rightarrow> bool" where
  "same_stamps ct W W' \<longleftrightarrow> (\<forall>ty. store_watermark W' ty = store_watermark W ty
     \<and> (\<forall>e. map_option (stamp ct ty) (entry_of W' ty e) = map_option (stamp ct ty) (entry_of W ty e)))"

definition still :: "'v component_trait \<Rightarrow> 'v world \<Rightarrow> 'v world \<Rightarrow> bool" where
  "still ct W W' \<longleftrightarrow> w_revision W \<le> w_revision W' \<and> (w_revision W' = w_revision W \<longrightarrow> same_stamps ct W W')"

lemma stillD:
  assumes "still ct W W'"
  shows "w_revision W \<le> w_revision W'" and "w_revision W' = w_revision W \<Longrightarrow> same_stamps ct W W'"
  using assms by (simp_all add: still_def)

lemma still_trans: "still ct W W1 \<Longrightarrow> still ct W1 W2 \<Longrightarrow> still ct W W2"
  by (auto simp: still_def same_stamps_def)

lemma still_cong: "w_stores W' = w_stores W \<Longrightarrow> w_revision W' = w_revision W \<Longrightarrow> still ct W W'"
  by (simp add: still_def same_stamps_def entry_of_def store_watermark_def)

lemma still_moved: "w_revision W < w_revision W' \<Longrightarrow> still ct W W'"
  by (simp add: still_def)

lemma still_put:
  assumes "stores_wf (w_stores W)" and "w_stores W' = stores_put ty s (w_stores W)" and "w_revision W \<le> w_revision W'"
    and "w_revision W' = w_revision W \<Longrightarrow> watermark s = store_watermark W ty
      \<and> (\<forall>e. map_option (stamp ct ty) (map_of (entries s) e) = map_option (stamp ct ty) (entry_of W ty e))"
  shows "still ct W W'"
proof -
  have "store_watermark W' ty' = (if ty' = ty then watermark s else store_watermark W ty')
      \<and> entry_of W' ty' e = (if ty' = ty then map_of (entries s) e else entry_of W ty' e)" for ty' e
    using table.get_put [OF assms(1), of ty' ty s] by (simp add: entry_of_def store_watermark_def assms(2))
  then show ?thesis using assms(3,4) by (auto simp: still_def same_stamps_def)
qed

lemma insert_entry_still:
  assumes inv: "stores_inv W" and ins: "insert_entry ct ty e v owner W = (previous, W')"
  shows "still ct W W'"
proof -
  note f = insert_entry_fields [OF ins]
  let ?s = "stores_get_or_insert ty (w_stores W)" and ?en = "inserted_entry ct ty e v owner W"
  have view: "map_of (entries ?s) = entry_of W ty" "watermark ?s = store_watermark W ty"
    using get_or_insert_view [of ty W] by (simp_all add: store_view_def)
  have rev: "w_revision W \<le> w_revision W'" unfolding f(3) by (simp add: insert_revision_def split: option.split)
  show ?thesis
  proof (rule still_put [OF conjunct1 [OF inv [unfolded stores_inv_def]] f(2) rev])
    let ?ir = "insert_revision ct ty (entry_of W ty e) (fingerprint ct ty v) (w_revision W)"
    assume "w_revision W' = w_revision W"
    then have same: "snd ?ir = w_revision W" by (simp add: f(3))
    then have t: "tracked ct ty" by (auto simp: insert_revision_def split: if_splits)
    have "\<exists>p. entry_of W ty e = Some p \<and> ce_fingerprint p = fingerprint ct ty v \<and> ?ir = (ce_revision p, w_revision W)"
      using same t by (cases "entry_of W ty e") (auto simp: insert_revision_def fingerprint_matches_def dest: sym split: if_splits)
    then obtain p where p: "entry_of W ty e = Some p" "ce_fingerprint p = fingerprint ct ty v" "?ir = (ce_revision p, w_revision W)"
      by blast
    have "ce_revision p \<le> store_watermark W ty" by (rule stores_inv_entry_revision [OF inv p(1)])
    moreover have "stamp ct ty ?en = stamp ct ty p" "ce_revision ?en = ce_revision p"
      by (simp_all add: stamp_def inserted_entry_def p(2,3))
    ultimately show "watermark (snd (store_insert e ?en ?s)) = store_watermark W ty
      \<and> (\<forall>e'. map_option (stamp ct ty) (map_of (entries (snd (store_insert e ?en ?s))) e')
          = map_option (stamp ct ty) (entry_of W ty e'))"
      by (simp add: view p(1) max_absorb1)
  qed
qed

lemma cleared_world_still:
  assumes inv: "stores_inv W"
  shows "still ct W (cleared_world e W)"
proof -
  have rs: "remove_from_stores e tys V = (removed, V') \<Longrightarrow> w_revision V \<le> w_revision V'
      \<and> (w_revision V' = w_revision V \<longrightarrow> w_stores V' = w_stores V)" for tys removed and V V' :: "'a world"
  proof (induction tys arbitrary: V removed)
    case (Cons ty tys)
    show ?case
    proof (cases "Option.bind (stores_get ty (w_stores V)) (remove_entity_entry e (w_revision V))")
      case None
      then show ?thesis using Cons by simp
    next
      case (Some t)
      obtain owner s' r' where t: "t = (owner, s', r')" by (rule prod_cases3)
      then have r': "r' = w_revision V + 1" using remove_entity_entryD [OF Some [unfolded t]] by blast
      let ?V = "(put_store ty s' V)\<lparr>w_revision := r', w_mutations := w_mutations V + 1\<rparr>"
      obtain removed' where "remove_from_stores e tys ?V = (removed', V')"
        using Cons.prems Some t by (auto simp: Let_def split: prod.splits)
      then have "w_revision ?V \<le> w_revision V'" using Cons.IH by blast
      then show ?thesis using r' by simp
    qed
  qed simp
  obtain removed W1 where r: "remove_from_stores e (map fst (stores_list (w_stores W))) W = (removed, W1)" by (rule prod.exhaust)
  have W': "w_stores (cleared_world e W) = w_stores W1" "w_revision (cleared_world e W) = w_revision W1"
    by (simp_all add: cleared_world_def r Let_def w_presence_clear_def unindex_all_fields fold_log_fields)
  show ?thesis
  proof (cases "w_revision W1 = w_revision W")
    case True
    then show ?thesis using rs [OF r] by (intro still_cong) (simp_all add: W')
  next
    case False
    then show ?thesis using rs [OF r] by (intro still_moved) (simp add: W')
  qed
qed

text \<open>Every in-place update stamps the entry anew or leaves its stamp as it is.\<close>

lemma update_still:
  assumes wf: "stores_wf (w_stores W)" and s: "stores_get ty (w_stores W) = Some s" "map_of (entries s) e = Some en"
    and s': "map_of (entries s') = (map_of (entries s))(e \<mapsto> en\<lparr>ce_value := v, ce_fingerprint := fp,
        ce_revision := if changed then w_revision W + 1 else ce_revision en\<rparr>)"
      "watermark s' = (if changed then max (watermark s) (w_revision W + 1) else watermark s)"
    and ch: "\<not> changed \<Longrightarrow> \<not> tracked ct ty \<or> ce_fingerprint en = fp"
    and W': "w_stores W' = stores_put ty s' (w_stores W)" "w_revision W' = (if changed then w_revision W + 1 else w_revision W)"
  shows "still ct W W'"
proof (rule still_put [OF wf W'(1)])
  show "w_revision W \<le> w_revision W'" by (simp add: W'(2))
  assume "w_revision W' = w_revision W"
  then have "\<not> changed" by (simp add: W'(2) split: if_splits)
  moreover have "entry_of W ty = map_of (entries s)" by (simp add: entry_of_def s fun_eq_iff)
  ultimately show "watermark s' = store_watermark W ty
      \<and> (\<forall>e. map_option (stamp ct ty) (map_of (entries s') e) = map_option (stamp ct ty) (entry_of W ty e))"
    using ch s s' by (auto simp: store_watermark_def stamp_def)
qed

lemma drop_entry_still: "still ct W (drop_entry ty e s W)"
  by (rule still_moved) (simp add: drop_entry_def Let_def)

lemma try_update_still:
  assumes inv: "stores_inv W" and up: "try_update_component_live ct ty e held f W = Applied changed W'"
  shows "still ct W W'"
proof -
  obtain s en s1 where s: "stores_get ty (w_stores W) = Some s" "map_of (entries s) e = Some en"
    and ch: "changed = (tracked ct ty \<and> (ce_fingerprint en = None \<or> ce_fingerprint en \<noteq> fingerprint ct ty (f (ce_value en))))"
    and s1: "map_of (entries s1) = (map_of (entries s))(e \<mapsto> en\<lparr>ce_value := f (ce_value en), ce_fingerprint := fingerprint ct ty (f (ce_value en)),
        ce_revision := if changed then w_revision W + 1 else ce_revision en\<rparr>)"
      "watermark s1 = (if changed then max (watermark s) (w_revision W + 1) else watermark s)"
    and W': "w_stores W' = stores_put ty s1 (w_stores W)" "w_revision W' = (if changed then w_revision W + 1 else w_revision W)"
    using up by (rule try_update_shape)
  show ?thesis
    by (rule update_still [OF conjunct1 [OF inv [unfolded stores_inv_def]] s s1 _ W']) (use ch in auto)
qed

lemma reconcile_row_still:
  assumes inv: "stores_inv W"
  shows "still ct W (reconcile_row ct row W)"
proof -
  obtain ty e where row: "row = (ty, e)" by (cases row)
  have wf: "stores_wf (w_stores W)" using inv by (auto simp: stores_inv_def)
  show ?thesis
  proof (cases "stores_get ty (w_stores W)")
    case None
    then show ?thesis by (simp add: reconcile_row_def row still_cong)
  next
    case (Some s)
    obtain s' r' where r: "reconcile_entry ct ty e (w_revision W) s = (s', r')" by (rule prod.exhaust)
    have W': "reconcile_row ct row W = log_write ty e ((put_store ty s' W)\<lparr>w_revision := r'\<rparr>)"
      by (simp add: reconcile_row_def row Some r)
    show ?thesis
    proof (cases "map_of (entries s) e")
      case None
      then have "s' = s" "r' = w_revision W" using r by (auto simp: reconcile_entry_def)
      then show ?thesis using Some
        by (intro still_put [OF wf, of _ ty s']) (auto simp: W' store_watermark_def entry_of_def)
    next
      case en: (Some en)
      note d = reconcile_entryD [OF en r refl]
      show ?thesis
        by (rule update_still [OF wf Some en, where v = "ce_value en", OF _ d(3)]) (auto simp: W' d(1,2))
    qed
  qed
qed

lemma write_cell_still:
  assumes inv: "stores_inv W"
  shows "still ct W (write_cell ty e v W)"
proof (cases "\<exists>s en. stores_get ty (w_stores W) = Some s \<and> map_of (entries s) e = Some en")
  case True
  then obtain s en where s: "stores_get ty (w_stores W) = Some s" "map_of (entries s) e = Some en" by blast
  then show ?thesis
    by (intro update_still [OF conjunct1 [OF inv [unfolded stores_inv_def]] s,
          where v = v and fp = "ce_fingerprint en" and changed = False])
      (auto simp: write_cell_def map_of_update)
next
  case False
  then show ?thesis by (intro still_cong) (auto simp: write_cell_def split: option.split)
qed

interpretation still_run: world_relation ct "still ct" for ct
proof
  show "still ct W (commit_write ct ty e v W)" if inv: "stores_inv W" for W :: "'a world" and ty e v
  proof -
    have "stores_inv (write_cell ty e v W)" using write_cell_stores [OF inv] .
    then show ?thesis
      using still_trans [OF write_cell_still [OF inv] reconcile_row_still] by (simp add: commit_write_def reconcile_written_def)
  qed
qed (auto intro: still_trans still_cong insert_entry_still drop_entry_still cleared_world_still
    try_update_still reconcile_row_still dest: roll_frame)

text \<open>From one settled world to a later one.\<close>

lemma leads_still:
  assumes "leads ct s s'" and "reachable ct s"
  shows "reachable ct s' \<and> still ct (snd s) (snd s')"
  using assms
proof (induction rule: rtranclp_induct)
  case base
  then show ?case by (simp add: still_cong)
next
  case (step s1 s2)
  then have r: "reachable ct s1" and p: "still ct (snd s) (snd s1)" by blast+
  have inv: "stores_inv (snd s1)" using world_okD(1) [OF reachable_ok [OF r]] .
  have "still ct (snd s1) (snd s2)"
    using step.hyps(2) by (cases rule: world_step.cases)
      (use inv still_run.world_op_carries [of ct s1 s2] write_cell_still in auto)
  then show ?case using p still_trans reach_step [OF r step.hyps(2)] by blast
qed

section \<open>The cache\<close>

lemma snapshot_contents:
  assumes "world_snapshot V = Some W"
  shows "w_stores W = w_stores V" "snapshot_key W = snapshot_key V"
  using assms by (auto simp: world_snapshot_def snapshot_key_def split: if_splits)

lemma snapshot_stamps:
  assumes "engine_ok ct E" and "snapshot_locked (eg_state E) = Some (W, st)"
  shows "same_stamps ct W (st_world (eg_state E)) \<and> snapshot_key W = snapshot_key (st_world (eg_state E))"
proof -
  let ?L = "st_world (eg_state E)"
  have settled: "world_settled ct ?L" and fine: "pool_fine ct (eg_state E)" using assms(1) by (simp_all add: engine_ok_def)
  consider "st_snapshot_cache (eg_state E) = Some (snapshot_key ?L, W)" | "world_snapshot ?L = Some W"
    using assms(2) by (auto simp: snapshot_locked_def snapshot_fresh_def split: option.splits if_splits)
  then have "cached_from ct ?L (snapshot_key ?L, W)"
  proof cases
    case 1
    then show ?thesis using fine by (simp add: pool_fine_def)
  next
    case 2
    then show ?thesis unfolding cached_from_def fst_conv snd_conv using settled by blast
  qed
  then obtain V where V: "snapshot_key V = snapshot_key ?L" "world_snapshot V = Some W" "world_settled ct V" "leads ct ({}, V) ({}, ?L)"
    by (auto simp: cached_from_def)
  have "same_stamps ct V ?L"
    using leads_still [OF V(4,3)] V(1) by (simp add: still_def snapshot_key_def)
  moreover note snapshot_contents [OF V(2)]
  ultimately show ?thesis using V(1) by (simp add: same_stamps_def entry_of_def store_watermark_def)
qed

section \<open>Properties\<close>

text \<open>
  C26. A snapshot served from the cache is never stale to a planner.  In every run of the engine
  the snapshot that a caller gets, cached or taken afresh, has the components of the live world:
  each entity carries the same components with the same revisions and, where they are tracked,
  the same content fingerprints, every store has the same watermark, and no entity was allocated
  since.  The three counters of the cache key decide this alone.
\<close>

theorem snapshot_never_stale:
  assumes "engine_run ct tr E" and "snapshot_locked (eg_state E) = Some (W, st)"
  shows "st_world st = st_world (eg_state E) \<and> w_next_entity W = w_next_entity (st_world st) \<and> w_revision W = w_revision (st_world st)
    \<and> (\<forall>ty. store_watermark W ty = store_watermark (st_world st) ty)
    \<and> (\<forall>ty e. map_option ce_revision (entry_of W ty e) = map_option ce_revision (entry_of (st_world st) ty e)
        \<and> (tracked ct ty \<longrightarrow> map_option ce_fingerprint (entry_of W ty e) = map_option ce_fingerprint (entry_of (st_world st) ty e)))"
proof -
  have st: "st_world st = st_world (eg_state E)"
    using assms(2) by (auto simp: snapshot_locked_def snapshot_fresh_def split: option.splits if_splits)
  note s = snapshot_stamps [OF run_good(1) [OF assms(1)] assms(2)]
  have "map_option ce_revision (entry_of W ty e) = map_option ce_revision (entry_of (st_world st) ty e)
      \<and> (tracked ct ty \<longrightarrow> map_option ce_fingerprint (entry_of W ty e) = map_option ce_fingerprint (entry_of (st_world st) ty e))" for ty e
  proof -
    have "map_option (stamp ct ty) (entry_of W ty e) = map_option (stamp ct ty) (entry_of (st_world st) ty e)"
      using s by (simp add: same_stamps_def st)
    then show ?thesis
      by (cases "entry_of W ty e"; cases "entry_of (st_world st) ty e") (auto simp: stamp_def split: if_splits)
  qed
  then show ?thesis using s by (simp add: st same_stamps_def snapshot_key_def)
qed

section \<open>Witnesses\<close>

text \<open>The snapshot of the completed generation holds the inserted component.\<close>

definition demo_snapshot :: "nat user_value world" where
  "demo_snapshot = fst (the (snapshot_locked (eg_state demo_completed)))"

theorem snapshot_never_stale_witness:
  "map_option ce_revision (entry_of demo_snapshot (UserTy 0) 0) = Some 1 \<and> w_next_entity demo_snapshot = 1"
proof -
  have "map_option (\<lambda>(W, st). ()) (snapshot_locked (eg_state demo_completed)) = Some ()"
    "map_option ce_revision (entry_of (st_world (eg_state demo_completed)) (UserTy 0) 0) = Some 1"
    "w_next_entity (st_world (eg_state demo_completed)) = 1"
    unfolding demo_completed_def demo_begun_def demo_inserted_def demo_built_def by code_simp+
  then obtain st where sn: "snapshot_locked (eg_state demo_completed) = Some (demo_snapshot, st)"
    and live: "map_option ce_revision (entry_of (st_world (eg_state demo_completed)) (UserTy 0) 0) = Some 1"
      "w_next_entity (st_world (eg_state demo_completed)) = 1"
    by (auto simp: demo_snapshot_def)
  note n = snapshot_never_stale [OF demo_engine_run sn]
  have st: "st_world st = st_world (eg_state demo_completed)" using n by (rule conjunct1)
  have "map_option ce_revision (entry_of demo_snapshot (UserTy 0) 0) = map_option ce_revision (entry_of (st_world st) (UserTy 0) 0)"
    "w_next_entity demo_snapshot = w_next_entity (st_world st)"
    using n by blast+
  then show ?thesis by (simp only: st live)
qed

end
