(* ===== verification/External_Props.thy ===== *)
theory External_Props
  imports Externals Param_Props
begin

text \<open>
  What reads and writes from outside the systems promise: runtime arguments are found where they
  were put, a scoop lists the rows a scan would, the cursor read misses no change of a component
  that is there, and an update from outside visits the matching rows once each.
\<close>

section \<open>Runtime arguments\<close>

text \<open>The arguments of a bundle, and those of the builder's calls with their scope.\<close>

fun bundle_args :: "'v arg_bundle \<Rightarrow> (type_id \<times> 'v cvalue) list" where
  "bundle_args (Arg ty v) = [(ty, v)]"
| "bundle_args (ArgTuple bs) = concat (map bundle_args bs)"

definition call_args :: "(tag option \<times> 'v arg_bundle) list \<Rightarrow> ((tag option \<times> type_id) \<times> 'v cvalue) list" where
  "call_args calls = concat (map (\<lambda>(scope, b). map (\<lambda>(ty, v). ((scope, ty), v)) (bundle_args b)) calls)"

definition arg_at :: "'v query_args \<Rightarrow> tag option \<times> type_id \<Rightarrow> 'v cvalue option" where
  "arg_at A k = (case fst k of None \<Rightarrow> qa_shared A (snd k) | Some tag \<Rightarrow> qa_scoped A (tag, snd k))"

definition insert_args :: "((tag option \<times> type_id) \<times> 'v cvalue) list \<Rightarrow> 'v query_args \<Rightarrow> 'v query_args option" where
  "insert_args kvs A = fold_opt (\<lambda>((scope, ty), v). args_insert scope ty v) kvs A"

lemma args_insert_at:
  "args_insert scope ty v A = Some A' \<longleftrightarrow> arg_at A (scope, ty) = None \<and> args_insert scope ty v A = Some A'"
  "args_insert scope ty v A = None \<longleftrightarrow> arg_at A (scope, ty) \<noteq> None"
  "args_insert scope ty v A = Some A' \<Longrightarrow> arg_at A' = (arg_at A)((scope, ty) \<mapsto> v)"
  by (auto simp: args_insert_def arg_at_def fun_eq_iff split: option.splits if_splits)

lemma insert_into_flat:
  "insert_into scope b A = insert_args (map (\<lambda>(ty, v). ((scope, ty), v)) (bundle_args b)) A"
  "insert_tuple scope bs A = insert_args (map (\<lambda>(ty, v). ((scope, ty), v)) (concat (map bundle_args bs))) A"
  by (induction scope b A and scope bs A rule: insert_into_insert_tuple.induct)
    (auto simp: insert_args_def fold_opt_append split: Option.bind_splits)

lemma scoop_args_flat: "scoop_args calls = insert_args (call_args calls) query_args_default"
proof -
  have "fold_opt (\<lambda>(scope, b). insert_into scope b) calls A = insert_args (call_args calls) A" for A :: "'a query_args"
    by (induction calls arbitrary: A)
      (auto simp: call_args_def insert_args_def fold_opt_append insert_into_flat split: Option.bind_splits)
  then show ?thesis by (simp add: scoop_args_def)
qed

lemma insert_args_spec:
  "(insert_args kvs A = None \<longleftrightarrow> \<not> distinct (map fst kvs) \<or> (\<exists>k\<in>set (map fst kvs). arg_at A k \<noteq> None))
    \<and> (\<forall>A'. insert_args kvs A = Some A' \<longrightarrow> (\<forall>k. arg_at A' k = (case map_of kvs k of Some v \<Rightarrow> Some v | None \<Rightarrow> arg_at A k)))"
proof (induction kvs arbitrary: A)
  case (Cons kv kvs)
  obtain scope ty v where kv: "kv = ((scope, ty), v)" by (metis surj_pair)
  show ?case
  proof (cases "args_insert scope ty v A")
    case None
    then show ?thesis using args_insert_at(2) [of scope ty v A] by (simp add: insert_args_def kv)
  next
    case (Some A1)
    note at = args_insert_at(3) [OF Some]
    have free: "arg_at A (scope, ty) = None" using args_insert_at(2) [of scope ty v A] Some by simp
    have step: "insert_args (kv # kvs) A = insert_args kvs A1" by (simp add: insert_args_def kv Some)
    show ?thesis
      unfolding step using Cons [of A1] free by (auto simp: at kv split: option.splits) force+
  qed
qed (simp add: insert_args_def)

section \<open>Fingerprints are current\<close>

text \<open>
  Between in-place writes and their commit a stored fingerprint may be that of the value before;
  in a run of the engine, where a write is part of its commit, it never is.
\<close>

definition fresh_stamps :: "'v component_trait \<Rightarrow> 'v world \<Rightarrow> bool" where
  "fresh_stamps ct W \<longleftrightarrow> (\<forall>ty e en. entry_of W ty e = Some en \<longrightarrow> ce_fingerprint en = fingerprint ct ty (ce_value en))"

abbreviation keeps_fresh :: "'v component_trait \<Rightarrow> 'v world \<Rightarrow> 'v world \<Rightarrow> bool" where
  "keeps_fresh ct W W' \<equiv> fresh_stamps ct W \<longrightarrow> fresh_stamps ct W'"

lemma keeps_fresh_cong: "w_stores W' = w_stores W \<Longrightarrow> keeps_fresh ct W W'"
  by (simp add: fresh_stamps_def entry_of_def)

lemma keeps_fresh_less:
  "(\<And>ty e. entry_of W' ty e = entry_of W ty e \<or> entry_of W' ty e = None) \<Longrightarrow> keeps_fresh ct W W'"
  by (metis fresh_stamps_def option.distinct(1))

text \<open>A store in which every entry is one of before or stamped anew.\<close>

lemma keeps_fresh_put:
  assumes "stores_wf (w_stores W)" and "w_stores W' = stores_put ty s (w_stores W)"
    and "\<And>e en. map_of (entries s) e = Some en \<Longrightarrow> entry_of W ty e = Some en \<or> ce_fingerprint en = fingerprint ct ty (ce_value en)"
  shows "keeps_fresh ct W W'"
proof -
  have "entry_of W' ty' e = (if ty' = ty then map_of (entries s) e else entry_of W ty' e)" for ty' e
    using entry_of_put [OF assms(1)] by (simp add: entry_of_def assms(2))
  then show ?thesis using assms(3) by (fastforce simp: fresh_stamps_def split: if_splits)
qed

lemma insert_entry_fresh:
  assumes inv: "stores_inv W" and ins: "insert_entry ct ty e v owner W = (previous, W')"
  shows "keeps_fresh ct W W'"
proof (rule keeps_fresh_put [OF conjunct1 [OF inv [unfolded stores_inv_def]] insert_entry_fields(2) [OF ins]])
  have "map_of (entries (stores_get_or_insert ty (w_stores W))) = entry_of W ty"
    using get_or_insert_view [of ty W] by (simp add: store_view_def)
  then show "entry_of W ty e' = Some en \<or> ce_fingerprint en = fingerprint ct ty (ce_value en)"
    if "map_of (entries (snd (store_insert e (inserted_entry ct ty e v owner W) (stores_get_or_insert ty (w_stores W))))) e' = Some en" for e' en
    using that by (auto simp: inserted_entry_def split: if_splits)
qed

lemma try_update_fresh:
  assumes inv: "stores_inv W" and up: "try_update_component_live ct ty e held f W = Applied changed W'"
  shows "keeps_fresh ct W W'"
proof -
  obtain s en s1 where s: "stores_get ty (w_stores W) = Some s"
    and s1: "map_of (entries s1) = (map_of (entries s))(e \<mapsto> en\<lparr>ce_value := f (ce_value en), ce_fingerprint := fingerprint ct ty (f (ce_value en)),
        ce_revision := if changed then w_revision W + 1 else ce_revision en\<rparr>)"
    and W': "w_stores W' = stores_put ty s1 (w_stores W)"
    using up by (rule try_update_shape)
  show ?thesis
    by (rule keeps_fresh_put [OF conjunct1 [OF inv [unfolded stores_inv_def]] W'])
      (use s s1 in \<open>auto simp: entry_of_def split: if_splits\<close>)
qed

lemma reconcile_row_fresh:
  assumes inv: "stores_inv W"
    and others: "\<And>ty e en. entry_of W ty e = Some en \<Longrightarrow> (ty, e) \<noteq> row \<Longrightarrow> ce_fingerprint en = fingerprint ct ty (ce_value en)"
  shows "fresh_stamps ct (reconcile_row ct row W)"
proof -
  obtain ty e where row: "row = (ty, e)" by (cases row)
  have wf: "stores_wf (w_stores W)" using inv by (simp add: stores_inv_def)
  show ?thesis
  proof (cases "stores_get ty (w_stores W)")
    case None
    then have "entry_of W ty e' = None" "reconcile_row ct row W = W" for e' by (simp_all add: reconcile_row_def row entry_of_def)
    then show ?thesis using others by (metis fresh_stamps_def option.distinct(1) prod.inject row)
  next
    case (Some s)
    obtain s' r' where r: "reconcile_entry ct ty e (w_revision W) s = (s', r')" by (rule prod.exhaust)
    have e': "entry_of (reconcile_row ct row W) ty' e' = (if ty' = ty then map_of (entries s') e' else entry_of W ty' e')" for ty' e'
      using entry_of_put [OF wf] by (simp add: reconcile_row_def row Some r entry_of_def)
    show ?thesis
    proof (cases "map_of (entries s) e")
      case None
      then have "s' = s" using r by (simp add: reconcile_entry_def)
      have w: "entry_of W ty e' = map_of (entries s) e'" for e' using Some by (simp add: entry_of_def)
      have "entry_of (reconcile_row ct row W) ty' e' = entry_of W ty' e'" for ty' e' using \<open>s' = s\<close> by (simp add: e' w)
      moreover have "entry_of W ty e = None" using None by (simp add: w)
      ultimately show ?thesis using others by (metis fresh_stamps_def option.distinct(1) prod.inject row)
    next
      case (Some en)
      have w: "entry_of W ty e' = map_of (entries s) e'" for e' using \<open>stores_get ty (w_stores W) = Some s\<close> by (simp add: entry_of_def)
      have g: "entry_of (reconcile_row ct row W) ty' e' = (if (ty', e') = row
          then Some (en\<lparr>ce_fingerprint := fingerprint ct ty (ce_value en),
            ce_revision := if tracked ct ty \<and> (ce_fingerprint en = None \<or> ce_fingerprint en \<noteq> fingerprint ct ty (ce_value en))
              then w_revision W + 1 else ce_revision en\<rparr>)
          else entry_of W ty' e')" for ty' e'
        using reconcile_entryD(2) [OF Some r refl] by (simp add: e' w) (simp add: row)
      show ?thesis
        unfolding fresh_stamps_def g using others by (auto simp: row)
    qed
  qed
qed

lemma cleared_entries:
  assumes inv: "stores_inv W"
  shows "entry_of (cleared_world e W) ty e' = entry_of W ty e' \<or> entry_of (cleared_world e W) ty e' = None"
proof -
  have wf: "stores_wf (w_stores W)" using inv by (simp add: stores_inv_def)
  obtain removed W1 where r: "remove_from_stores e (map fst (stores_list (w_stores W))) W = (removed, W1)" by (rule prod.exhaust)
  have "entry_of (cleared_world e W) = entry_of W1"
    by (rule entry_of_stores) (simp add: cleared_world_def r Let_def w_presence_clear_def unindex_all_fields fold_log_fields)
  then show ?thesis using remove_from_stores_spec [OF r inv table.listing_distinct [OF wf]] by simp
qed

interpretation fresh_run: world_relation ct "keeps_fresh ct" for ct
proof
  show "keeps_fresh ct W (drop_entry ty e s' W)"
    if "stores_inv W" "stores_get ty (w_stores W) = Some s" "store_remove e s = Some (en, s')" for W :: "'a world" and ty s e en s'
    using drop_entry_spec(2) [OF that] by (intro keeps_fresh_less) simp
  show "keeps_fresh ct W (cleared_world e W)" if "stores_inv W" for W :: "'a world" and e
    using cleared_entries [OF that] by (rule keeps_fresh_less)
  show "keeps_fresh ct W (reconcile_row ct row W)" if "stores_inv W" for W :: "'a world" and row
    by (intro impI reconcile_row_fresh [OF that]) (simp add: fresh_stamps_def)
  show "keeps_fresh ct W (commit_write ct ty e v W)" if inv: "stores_inv W" for W :: "'a world" and ty e v
  proof
    assume f: "fresh_stamps ct W"
    have w: "entry_of (write_cell ty e v W) ty' e' = entry_of W ty' e'" if "(ty', e') \<noteq> (ty, e)" for ty' e'
      using that entry_of_put [OF conjunct1 [OF inv [unfolded stores_inv_def]]]
      by (auto simp: write_cell_def map_of_update split: option.split) (auto simp: entry_of_def)
    have "fresh_stamps ct (reconcile_row ct (ty, e) (write_cell ty e v W))"
      by (rule reconcile_row_fresh [OF write_cell_stores [OF inv]]) (use f w in \<open>simp add: fresh_stamps_def\<close>)
    then show "fresh_stamps ct (commit_write ct ty e v W)" by (simp add: commit_write_def reconcile_written_def)
  qed
qed (auto intro: insert_entry_fresh [rule_format] try_update_fresh [rule_format] keeps_fresh_cong [rule_format] dest: roll_frame)

text \<open>A run that starts without components.\<close>

lemma run_fresh:
  assumes "reachable ct (X, V)" and "\<forall>ty e. \<not> has_component V ty e" and "engine_run ct (X, V) (X', W)"
  shows "reachable ct (X', W)" and "fresh_stamps ct W"
proof -
  have "fresh_stamps ct V" using assms(2) by (simp add: fresh_stamps_def has_component_def)
  then show "reachable ct (X', W)" "fresh_stamps ct W"
    using fresh_run.engine_run_carries [OF assms(3,1)] by simp_all
qed

section \<open>Rows\<close>

lemma filter_opt_total: "list_all (\<lambda>x. p x = Some (q x)) xs \<Longrightarrow> filter_opt p xs = Some (filter q xs)"
  by (induction xs) simp_all

text \<open>What a filter asks for, when its arguments are there; the arguments it reads.\<close>

definition holds_against ::
  "(type_id \<Rightarrow> 'v cvalue \<Rightarrow> 'v cvalue \<Rightarrow> bool) \<Rightarrow> type_id \<Rightarrow> 'v world \<Rightarrow> 'v query_args \<Rightarrow> tag option \<Rightarrow> entity \<Rightarrow> bool" where
  "holds_against cmp ty W A scope e \<longleftrightarrow> (case (value_of W ty e, args_get scope ty A) of
     (Some v, Some a) \<Rightarrow> cmp ty v a | _ \<Rightarrow> False)"

fun expr_holds :: "'v comparisons \<Rightarrow> filter_expr \<Rightarrow> 'v world \<Rightarrow> 'v query_args \<Rightarrow> tag option \<Rightarrow> entity \<Rightarrow> bool" where
  "expr_holds cmp (EqE ty) W A scope e = holds_against (cmp_eq cmp) ty W A scope e"
| "expr_holds cmp (GteE ty) W A scope e = holds_against (cmp_ge cmp) ty W A scope e"
| "expr_holds cmp (WithE ty) W A scope e = has_component W ty e"
| "expr_holds cmp (WithoutE ty) W A scope e = (\<not> has_component W ty e)"
| "expr_holds cmp (AndE a b) W A scope e = (expr_holds cmp a W A scope e \<and> expr_holds cmp b W A scope e)"
| "expr_holds cmp (OrE a b) W A scope e = (expr_holds cmp a W A scope e \<or> expr_holds cmp b W A scope e)"
| "expr_holds cmp (NotE a) W A scope e = (\<not> expr_holds cmp a W A scope e)"

fun ext_holds :: "'v comparisons \<Rightarrow> external_filter \<Rightarrow> 'v world \<Rightarrow> 'v query_args \<Rightarrow> tag option \<Rightarrow> entity \<Rightarrow> bool" where
  "ext_holds cmp NoFilterX W A scope e = True"
| "ext_holds cmp (WhereX F) W A scope e = expr_holds cmp F W A scope e"
| "ext_holds cmp (WithX ty) W A scope e = has_component W ty e"
| "ext_holds cmp (WithoutX ty) W A scope e = (\<not> has_component W ty e)"

fun expr_reads :: "filter_expr \<Rightarrow> type_id list" where
  "expr_reads (EqE ty) = [ty]"
| "expr_reads (GteE ty) = [ty]"
| "expr_reads (WithE ty) = []"
| "expr_reads (WithoutE ty) = []"
| "expr_reads (AndE a b) = expr_reads a @ expr_reads b"
| "expr_reads (OrE a b) = expr_reads a @ expr_reads b"
| "expr_reads (NotE a) = expr_reads a"

fun ext_reads :: "external_filter \<Rightarrow> type_id list" where
  "ext_reads (WhereX F) = expr_reads F"
| "ext_reads _ = []"

definition supplied :: "external_filter \<Rightarrow> 'v query_args \<Rightarrow> tag option \<Rightarrow> bool" where
  "supplied F A scope \<longleftrightarrow> list_all (\<lambda>ty. args_get scope ty A \<noteq> None) (ext_reads F)"

text \<open>Equal values hash alike.\<close>

definition hash_agrees :: "'v component_trait \<Rightarrow> 'v comparisons \<Rightarrow> bool" where
  "hash_agrees ct cmp \<longleftrightarrow> (\<forall>ty v a. cmp_eq cmp ty v a \<longrightarrow> fingerprint ct ty v = fingerprint ct ty a)"

lemma compare_arg_holds:
  "args_get scope ty A \<noteq> None \<Longrightarrow> compare_arg cmp ty e W A scope = Some (holds_against cmp ty W A scope e)"
  by (auto simp: compare_arg_def holds_against_def split: option.split)

lemma expr_matches_holds:
  "list_all (\<lambda>ty. args_get scope ty A \<noteq> None) (expr_reads F) \<Longrightarrow> expr_matches cmp F e W A scope = Some (expr_holds cmp F W A scope e)"
  by (induction F) (auto simp: compare_arg_holds)

lemma ext_matches_holds: "supplied F A scope \<Longrightarrow> ext_matches cmp F W A scope e = Some (ext_holds cmp F W A scope e)"
  by (cases F) (auto simp: supplied_def expr_matches_holds)

text \<open>The candidates of an index cover the matches, in order.\<close>

definition covers :: "'v world \<Rightarrow> (entity \<Rightarrow> bool) \<Rightarrow> entity list option \<Rightarrow> bool" where
  "covers W p cs \<longleftrightarrow> (\<forall>es. cs = Some es \<longrightarrow> (\<forall>e. p e \<longrightarrow> e \<in> set es) \<and> (\<forall>e\<in>set es. e < w_next_entity W) \<and> sorted_wrt (<) es)"

lemma covers_with: "stores_inv W \<Longrightarrow> allocated W \<Longrightarrow> covers W (has_component W ty) (Some (entities_with W ty))"
  using entities_with_spec [of W ty] by (auto simp: covers_def dest: allocatedD)

lemma expr_candidates_cover:
  assumes inv: "stores_inv W" and al: "allocated W" and fr: "fresh_stamps ct W" and h: "hash_agrees ct cmp"
    and "list_all (\<lambda>ty. args_get scope ty A \<noteq> None) (expr_reads F)"
  shows "\<exists>cs. expr_candidates ct F W A scope = Some cs \<and> covers W (expr_holds cmp F W A scope) cs"
  using assms(5)
proof (induction F)
  case (EqE ty)
  then obtain a where a: "args_get scope ty A = Some a" by auto
  have "covers W (holds_against (cmp_eq cmp) ty W A scope) (map_option (entities_with_fingerprint W ty) (fingerprint ct ty a))"
  proof (cases "fingerprint ct ty a")
    case (Some fp)
    note b = fingerprint_bucket_spec [OF inv, of ty fp]
    have "fingerprint_of W ty e = Some fp" if m: "holds_against (cmp_eq cmp) ty W A scope e" for e
    proof -
      obtain en where en: "entry_of W ty e = Some en" "cmp_eq cmp ty (ce_value en) a"
        using m a by (auto simp: holds_against_def value_of_def split: option.splits)
      then have "fingerprint ct ty (ce_value en) = Some fp" using h Some by (simp add: hash_agrees_def)
      then show ?thesis using fr en(1) by (simp add: fingerprint_of_def fresh_stamps_def)
    qed
    moreover have "e < w_next_entity W" if "fingerprint_of W ty e = Some fp" for e
      using that allocatedD [OF al, of ty e] by (auto simp: fingerprint_of_def has_component_def split: Option.bind_splits)
    ultimately show ?thesis using b Some by (simp add: covers_def)
  qed (simp add: covers_def)
  moreover have "expr_holds cmp (EqE ty) W A scope = holds_against (cmp_eq cmp) ty W A scope" by (simp add: fun_eq_iff)
  ultimately show ?case using a by simp
next
  case (WithE ty)
  then show ?case using covers_with [OF inv al, of ty] by (simp add: covers_def)
next
  case (AndE a b)
  then obtain ca cb where ca: "expr_candidates ct a W A scope = Some ca" "covers W (expr_holds cmp a W A scope) ca"
    and cb: "expr_candidates ct b W A scope = Some cb" "covers W (expr_holds cmp b W A scope) cb" by auto
  show ?case
  proof (cases ca)
    case None
    then show ?thesis using ca(1) cb by (auto simp: covers_def)
  next
    case (Some es)
    then show ?thesis using ca by (auto simp: covers_def)
  qed
qed (simp_all add: covers_def)

lemma ext_candidates_cover:
  assumes "stores_inv W" and "allocated W" and "fresh_stamps ct W" and "hash_agrees ct cmp" and "supplied F A scope"
  obtains cs where "ext_candidates ct F W A scope = Some cs" and "covers W (ext_holds cmp F W A scope) cs"
proof (cases F)
  case (WhereX G)
  then show thesis
    using that expr_candidates_cover [OF assms(1-4), of scope A G] assms(5) by (auto simp: supplied_def covers_def)
next
  case (WithX ty)
  then show thesis using that covers_with [OF assms(1,2), of ty] by (auto simp: covers_def)
qed (use that in \<open>auto simp: covers_def\<close>)

text \<open>Enumerating from the candidates and filtering is filtering a scan.\<close>

lemma covered_rows:
  assumes "covers W p cs" and "\<forall>e. q e \<longrightarrow> e < w_next_entity W"
    and "cs = None \<Longrightarrow> set xs = {e. q e} \<and> sorted_wrt (<) xs" and "\<And>es. cs = Some es \<Longrightarrow> xs = filter q es"
  shows "filter p xs = filter (\<lambda>e. q e \<and> p e) [0..<w_next_entity W]"
proof (rule strict_sorted_equal)
  show "sorted_wrt (<) (filter (\<lambda>e. q e \<and> p e) [0..<w_next_entity W])" by (intro sorted_wrt_filter) simp
  show "sorted_wrt (<) (filter p xs)"
    using assms by (cases cs) (auto simp: covers_def intro!: sorted_wrt_filter)
  show "set (filter p xs) = set (filter (\<lambda>e. q e \<and> p e) [0..<w_next_entity W])"
    using assms by (cases cs) (auto simp: covers_def)
qed

section \<open>What a cursor read compares\<close>

text \<open>A dependency is the revision of its component, or its absence.\<close>

definition observes :: "'v world \<Rightarrow> dep \<Rightarrow> bool" where
  "observes W d \<longleftrightarrow> dep_revision d = revision_by_type W (dep_type d) (dep_entity d)"

lemma dep_observes:
  "component_dep_if_tracked ct W ty e = Some d \<Longrightarrow> x \<in> set (option_list d) \<Longrightarrow> observes W x"
  "x \<in> set (option_list (optional_component_dep ct W ty e)) \<Longrightarrow> observes W x"
  "observes W (tracker_dep W e p)"
  by (auto simp: component_dep_if_tracked_def optional_component_dep_def tracker_dep_def observes_def option_list_def
      split: if_splits option.splits)

lemma read_observes:
  "pm_deps (read_impl ct q) W e = Some ds \<Longrightarrow> d \<in> set ds \<Longrightarrow> observes W d"
  "pm_member_deps (read_impl ct q) W e = Some ds \<Longrightarrow> d \<in> set ds \<Longrightarrow> observes W d"
  by (cases q; auto intro: dep_observes)+

lemma part_observes: "pm_deps (part_impl ct p) W e = Some ds \<Longrightarrow> d \<in> set ds \<Longrightarrow> observes W d"
proof (cases p rule: query_part_cases)
  case (Related r edge ps)
  assume ds: "pm_deps (part_impl ct p) W e = Some ds" "d \<in> set ds"
  then consider "d \<in> set (option_list (optional_component_dep ct W (UserTy r) e))"
    | m zs where "related_observed_deps (map (read_impl ct) ps) W m = Some zs" "d \<in> set zs"
    using concat_opt_set [of "Some (option_list (optional_component_dep ct W (UserTy r) e))
      # map (related_observed_deps (map (read_impl ct) ps) W) (inverse_members ct W r e)" ds] by (auto simp: Related simp del: concat_opt.simps)
  then show ?thesis
  proof cases
    case 1
    then show ?thesis by (rule dep_observes(2))
  next
    case (2 m zs)
    then show ?thesis using concat_opt_set [of _ zs] read_observes(2) by (fastforce simp: related_observed_deps_def)
  qed
qed (auto intro: dep_observes)

lemma param_observes:
  assumes "qm_deps (param_impl ct Q) W e = Some ds" and "d \<in> set ds"
  shows "observes W d"
proof (cases Q)
  case (TupleParam H ps)
  then show ?thesis using assms concat_opt_set [of _ ds] part_observes by fastforce
qed (use assms in \<open>auto intro: dep_observes\<close>)

lemma filter_opt_eq: "filter_opt p xs = Some ys \<Longrightarrow> ys = filter (\<lambda>x. p x = Some True) xs \<and> list_all (\<lambda>x. p x \<noteq> None) xs"
  by (induction xs arbitrary: ys) (auto split: option.splits if_splits)

section \<open>One update after another\<close>

lemma cow_step:
  assumes ok: "world_ok X W" and en: "entry_of W ty e = Some en" and c: "cow_for_each_mut ct ty e f W = (changed, W')"
  shows "world_ok X W'" and "value_of W' ty e = Some (f (ce_value en))"
    and "(ty', e') \<noteq> (ty, e) \<Longrightarrow> entry_of W' ty' e' = entry_of W ty' e'"
    and "w_revision W' = (if changed then w_revision W + 1 else w_revision W)"
proof -
  have wf: "stores_wf (w_stores W)" using world_okD(1) [OF ok] by (simp add: stores_inv_def)
  obtain s0 where s0: "stores_get ty (w_stores W) = Some s0" "map_of (entries s0) e = Some en"
    using en by (auto simp: entry_of_def split: Option.bind_splits)
  have up: "try_update_component_live ct ty e False f W = Applied changed W'"
  proof -
    have "try_update_component_live ct ty e False f W \<noteq> Missing" "try_update_component_live ct ty e False f W \<noteq> Busy"
      by (simp_all add: try_update_component_live_def s0 Let_def)
    then show ?thesis using c by (auto simp: cow_for_each_mut_def update_component_live_def split: try_update.splits)
  qed
  show "world_ok X W'" by (rule try_update_ok [OF ok up])
  obtain s en' s1 where s: "stores_get ty (w_stores W) = Some s" "map_of (entries s) e = Some en'"
    and s1: "map_of (entries s1) = (map_of (entries s))(e \<mapsto> en'\<lparr>ce_value := f (ce_value en'), ce_fingerprint := fingerprint ct ty (f (ce_value en')),
        ce_revision := if changed then w_revision W + 1 else ce_revision en'\<rparr>)"
    and W': "w_stores W' = stores_put ty s1 (w_stores W)" and r: "w_revision W' = (if changed then w_revision W + 1 else w_revision W)"
    using up by (rule try_update_shape)
  have en': "en' = en" using s s0 by simp
  have e: "entry_of W' ty' e' = (if ty' = ty then map_of (entries s1) e' else entry_of W ty' e')" for ty' e'
    using entry_of_put [OF wf] by (simp add: entry_of_def W')
  show "value_of W' ty e = Some (f (ce_value en))" by (simp add: value_of_def e s1 en')
  show "entry_of W' ty' e' = entry_of W ty' e'" if "(ty', e') \<noteq> (ty, e)"
    using that s(1) by (auto simp: e s1) (simp add: entry_of_def)
  show "w_revision W' = (if changed then w_revision W + 1 else w_revision W)" by (rule r)
qed

text \<open>The rows the closure has seen before row \<open>i\<close>, with the values they had.\<close>

definition seen_rows :: "type_id \<Rightarrow> 'v world \<Rightarrow> entity list \<Rightarrow> (entity \<times> 'v cvalue) list" where
  "seen_rows ty W es = map (\<lambda>e. (e, the (value_of W ty e))) es"

lemma cow_loop_spec:
  assumes "world_ok X W" and "list_all (has_component W ty) es" and "distinct es"
    and "cow_loop ct ty f es seen W c = (changed, W')"
  shows "(\<forall>i<length es. value_of W' ty (es ! i)
        = Some (f (seen @ seen_rows ty W (take i es)) (es ! i, the (value_of W ty (es ! i)))))
    \<and> (\<forall>ty' e. ty' \<noteq> ty \<or> e \<notin> set es \<longrightarrow> entry_of W' ty' e = entry_of W ty' e)
    \<and> w_revision W \<le> w_revision W' \<and> (changed \<longleftrightarrow> c \<or> w_revision W < w_revision W')"
  using assms
proof (induction es arbitrary: seen W c)
  case (Cons e es)
  obtain en where en: "entry_of W ty e = Some en" using Cons.prems(2) by (auto simp: has_component_def)
  obtain c1 W1 where c1: "cow_for_each_mut ct ty e (\<lambda>v. f seen (e, v)) W = (c1, W1)" by (rule prod.exhaust)
  note st = cow_step [OF Cons.prems(1) en c1]
  have v: "value_of W ty e = Some (ce_value en)" by (simp add: value_of_def en)
  have rest: "cow_loop ct ty f es (seen @ [(e, ce_value en)]) W1 (c \<or> c1) = (changed, W')"
    using Cons.prems(4) by (simp add: c1 v)
  have keep: "value_of W1 ty x = value_of W ty x" if "x \<in> set es" for x
    using st(3) [of ty x] that Cons.prems(3) by (cases "x = e") (auto simp: value_of_def)
  have "has_component W1 ty x" if "x \<in> set es" for x
    using st(3) [of ty x] that Cons.prems(2,3) by (cases "x = e") (auto simp: list_all_iff has_component_def)
  then have "list_all (has_component W1 ty) es" "distinct es" using Cons.prems(3) by (simp_all add: list_all_iff)
  from Cons.IH [OF st(1) this rest]
  have IH: "\<And>i. i < length es \<Longrightarrow> value_of W' ty (es ! i)
        = Some (f ((seen @ [(e, ce_value en)]) @ seen_rows ty W1 (take i es)) (es ! i, the (value_of W1 ty (es ! i))))"
    "\<And>ty' x. ty' \<noteq> ty \<or> x \<notin> set es \<Longrightarrow> entry_of W' ty' x = entry_of W1 ty' x"
    "w_revision W1 \<le> w_revision W'" "changed \<longleftrightarrow> (c \<or> c1) \<or> w_revision W1 < w_revision W'" by blast+
  have sr: "seen_rows ty W1 (take i es) = seen_rows ty W (take i es)" for i
    unfolding seen_rows_def by (rule map_cong) (auto dest: in_set_takeD simp: keep)
  have "value_of W' ty ((e # es) ! i)
      = Some (f (seen @ seen_rows ty W (take i (e # es))) ((e # es) ! i, the (value_of W ty ((e # es) ! i))))"
    if i: "i < length (e # es)" for i
  proof (cases i)
    case 0
    have "value_of W' ty e = value_of W1 ty e" using IH(2) [of ty e] Cons.prems(3) by (simp add: value_of_def)
    then show ?thesis using st(2) by (simp add: 0 v seen_rows_def)
  next
    case (Suc j)
    then have j: "j < length es" using i by simp
    show ?thesis using IH(1) [OF j] by (simp add: Suc sr keep [OF nth_mem [OF j]]) (simp add: seen_rows_def v)
  qed
  moreover have "entry_of W' ty' x = entry_of W ty' x" if "ty' \<noteq> ty \<or> x \<notin> set (e # es)" for ty' x
    using that IH(2) [of ty' x] st(3) [of ty' x] by auto
  moreover have "w_revision W \<le> w_revision W'" "changed \<longleftrightarrow> c \<or> w_revision W < w_revision W'"
    using IH(3,4) st(4) by (auto split: if_splits)
  ultimately show ?case by blast
qed simp

section \<open>The rows of a scoop\<close>

lemma component_rows:
  assumes "stores_inv W" and "allocated W" and "fresh_stamps ct W" and "hash_agrees ct cmp" and "supplied F A scope"
  shows "external_filtered_cow_rows ct cmp ty F W A scope
      = Some (filter (\<lambda>e. has_component W ty e \<and> ext_holds cmp F W A scope e) [0..<w_next_entity W])"
    and "external_mut_rows ct cmp ty F W A scope = map_option (map (\<lambda>e. (e, revision_by_type W ty e)))
      (external_filtered_cow_rows ct cmp ty F W A scope)"
proof -
  obtain cs where cs: "ext_candidates ct F W A scope = Some cs" "covers W (ext_holds cmp F W A scope) cs"
    using ext_candidates_cover [OF assms] .
  have "filter (ext_holds cmp F W A scope) (cow_rows_hinted ty W cs)
      = filter (\<lambda>e. has_component W ty e \<and> ext_holds cmp F W A scope e) [0..<w_next_entity W]"
    by (rule covered_rows [OF cs(2)]) (use entities_with_spec [OF assms(1), of ty] allocatedD [OF assms(2), of ty] in \<open>auto simp: cow_rows_hinted_def\<close>)
  then show "external_filtered_cow_rows ct cmp ty F W A scope
      = Some (filter (\<lambda>e. has_component W ty e \<and> ext_holds cmp F W A scope e) [0..<w_next_entity W])"
    by (simp add: external_filtered_cow_rows_def cs(1) filter_opt_total [where q = "ext_holds cmp F W A scope"]
        ext_matches_holds [OF assms(5)] list_all_iff)
  show "external_mut_rows ct cmp ty F W A scope = map_option (map (\<lambda>e. (e, revision_by_type W ty e)))
      (external_filtered_cow_rows ct cmp ty F W A scope)"
    by (simp add: external_mut_rows_def external_filtered_cow_rows_def cow_rows_hinted_def cs(1))
qed

section \<open>Properties\<close>

text \<open>
  A runtime argument is found where it was put.  Building the arguments of a scoop panics
  exactly when one type is given twice under the same scope; otherwise a filter under a name
  reads the argument given for that name and type, else the shared one of the type, and finds
  none exactly when neither was given.
\<close>

theorem query_args_exact:
  "(scoop_args calls = None \<longleftrightarrow> \<not> distinct (map fst (call_args calls)))
    \<and> (\<forall>A. scoop_args calls = Some A \<longrightarrow> args_get scope ty A
        = (case Option.bind scope (\<lambda>tag. map_of (call_args calls) (Some tag, ty)) of
             Some v \<Rightarrow> Some v | None \<Rightarrow> map_of (call_args calls) (None, ty)))"
proof -
  have none: "arg_at query_args_default k = None" for k :: "tag option \<times> type_id"
    by (simp add: arg_at_def query_args_default_def split: option.split)
  have get: "args_get scope ty A = (case Option.bind scope (\<lambda>tag. arg_at A (Some tag, ty)) of
      Some v \<Rightarrow> Some v | None \<Rightarrow> arg_at A (None, ty))" for A :: "'a query_args"
    by (cases scope) (simp_all add: args_get_def arg_at_def split: option.split)
  note spec = insert_args_spec [of "call_args calls" query_args_default, folded scoop_args_flat]
  have at: "arg_at A k = map_of (call_args calls) k" if "scoop_args calls = Some A" for A k
  proof -
    have "arg_at A k = (case map_of (call_args calls) k of Some v \<Rightarrow> Some v | None \<Rightarrow> arg_at query_args_default k)"
      using spec that by blast
    then show ?thesis by (cases "map_of (call_args calls) k") (simp_all add: none)
  qed
  have "scoop_args calls = None \<longleftrightarrow> \<not> distinct (map fst (call_args calls))" using spec by (simp add: none)
  then show ?thesis by (simp add: get at split: option.split)
qed

text \<open>
  C28. External rows are exact.  Whatever index the runtime filter offers (the fingerprint bucket of
  an argument, a store, the first side of a conjunction that narrows), a scoop lists the rows a
  scan over every allocated entity would, in order, and a conditional write gets the revision of
  every such row; neither panics.  The one exception is part of the statement: a bare facet handle
  whose filter offers candidates lists every entity that passes the filter, with or without the
  facet.  Equal values hash alike, the arguments the filter reads are given, no in-place write
  waits for its commit, components are on allocated ids, and trackers come with a facet anchor.
\<close>

theorem external_rows_exact:
  assumes "reachable ct (X, V)" and "\<forall>ty e. \<not> has_component V ty e" and "engine_run ct (X, V) (X', W)"
    and al: "allocated W" and Q: "tracker_anchored Q" and hash: "hash_agrees ct cmp" "supplied F A scope"
  shows "external_filtered_rows ct cmp Q F W A scope
      = Some (filter (\<lambda>e. (case Q of EntityParam H \<Rightarrow> ext_candidates ct F W A scope \<noteq> Some None \<or> has_all W (facet_required H) e
            | _ \<Rightarrow> param_matches ct W Q e) \<and> ext_holds cmp F W A scope e) [0..<w_next_entity W])
    \<and> external_mut_rows ct cmp ty F W A scope = Some (map (\<lambda>e. (e, revision_by_type W ty e))
        (filter (\<lambda>e. has_component W ty e \<and> ext_holds cmp F W A scope e) [0..<w_next_entity W]))"
proof -
  note r = run_fresh [OF assms(1-3)]
  note inv = world_okD(1,2) [OF reachable_ok [OF r(1), simplified]]
  obtain cs where cs: "ext_candidates ct F W A scope = Some cs" "covers W (ext_holds cmp F W A scope) cs"
    using ext_candidates_cover [OF inv(1) al r(2) hash] .
  have "filter (ext_holds cmp F W A scope) (qm_rows_hinted (param_impl ct Q) W cs)
      = filter (\<lambda>e. listed ct W Q cs e \<and> ext_holds cmp F W A scope e) [0..<w_next_entity W]"
  proof (rule anchored_cases [OF Q, of ct W cs])
    assume A: "anchored Q" and l: "\<And>e. listed ct W Q cs e = param_matches ct W Q e"
    have "filter (ext_holds cmp F W A scope) (qm_rows_hinted (param_impl ct Q) W cs)
        = filter (\<lambda>e. (e < w_next_entity W \<and> param_matches ct W Q e) \<and> ext_holds cmp F W A scope e) [0..<w_next_entity W]"
    proof (rule covered_rows [OF cs(2)])
      show "set (qm_rows_hinted (param_impl ct Q) W cs) = {e. e < w_next_entity W \<and> param_matches ct W Q e}
          \<and> sorted_wrt (<) (qm_rows_hinted (param_impl ct Q) W cs)" if "cs = None"
        using param_rows_spec [OF inv al A] that by simp
      show "qm_rows_hinted (param_impl ct Q) W cs = filter (\<lambda>e. e < w_next_entity W \<and> param_matches ct W Q e) es" if "cs = Some es" for es
        using param_rows_from_eq [OF inv(2) A] that cs(2) by (auto simp: covers_def intro: filter_cong)
    qed simp
    also have "\<dots> = filter (\<lambda>e. param_matches ct W Q e \<and> ext_holds cmp F W A scope e) [0..<w_next_entity W]"
      by (rule filter_cong) auto
    finally show ?thesis by (simp add: l)
  next
    fix H
    assume H: "Q = EntityParam H" "facet_required H \<noteq> []"
    then show ?thesis
      using bare_rows [OF inv al H(2), where P = "ext_holds cmp F W A scope" and cs = cs] cs(2)
      by (auto simp: covers_def split: option.splits)
  qed
  then have "external_filtered_rows ct cmp Q F W A scope
      = Some (filter (\<lambda>e. listed ct W Q cs e \<and> ext_holds cmp F W A scope e) [0..<w_next_entity W])"
    by (simp add: external_filtered_rows_def cs(1) filter_opt_total [where q = "ext_holds cmp F W A scope"]
        ext_matches_holds [OF hash(2)] list_all_iff)
  moreover have "listed ct W Q cs e = (case Q of EntityParam H \<Rightarrow> ext_candidates ct F W A scope \<noteq> Some None \<or> has_all W (facet_required H) e
            | _ \<Rightarrow> param_matches ct W Q e)" for e
    by (simp add: listed_def cs(1) split: query_param.split)
  ultimately show ?thesis using component_rows [OF inv(1) al r(2) hash] by simp
qed

text \<open>
  C25. The cursor read is exact on what is there.  With the revision of an earlier world as its
  cursor it returns those of the rows that observe a present component whose revision is not the
  one it had then; a row it leaves out has, for every component it observes and that is present
  now, the same revision, the same fingerprint and, without a fingerprint, the same value as then.
  All components the row observes are tracked.  Nothing is said of a component that is absent now:
  an optional one that was removed since is not reported (\<open>optional_loss_unreported\<close>).
\<close>

theorem changed_since_exact:
  assumes "reachable ct (X, W)" and "engine_run ct (X, W) (X', W')" and "changed_rows ct Q (w_revision W) W' es = Some cs"
    and "e \<in> set es" and "qm_deps (param_impl ct Q) W' e = Some ds" and "list_all (\<lambda>d. tracked ct (dep_type d)) ds"
  shows "(e \<in> set cs \<longleftrightarrow> (\<exists>d\<in>set ds. dep_revision d \<noteq> None \<and> revision_by_type W (dep_type d) (dep_entity d) \<noteq> dep_revision d))
    \<and> (e \<notin> set cs \<longrightarrow> (\<forall>d\<in>set ds. dep_revision d \<noteq> None \<longrightarrow>
        rel_option similar (entry_of W (dep_type d) (dep_entity d)) (entry_of W' (dep_type d) (dep_entity d))))"
proof -
  have inv: "stores_inv W" using world_okD(1) [OF reachable_ok [OF assms(1), simplified]] .
  have prog: "progress ct W W'" using engine_run_progress [OF assms(2,1)] by simp
  have mem: "e \<in> set cs \<longleftrightarrow> list_ex (\<lambda>d. w_revision W < revision_raw d) ds"
    using filter_opt_eq [OF assms(3) [unfolded changed_rows_def]] assms(4,5) by simp
  have old: "w_revision W < r \<Longrightarrow> revision_by_type W ty x \<noteq> Some r" for r ty x
    using stores_inv_entry_revision [OF inv, of ty x] by (fastforce simp: revision_by_type_entry)
  have same: "rel_option similar (entry_of W (dep_type d) (dep_entity d)) (entry_of W' (dep_type d) (dep_entity d))"
    if d: "d \<in> set ds" "dep_revision d = Some r" "r \<le> w_revision W" for d r
  proof -
    obtain en' where en': "entry_of W' (dep_type d) (dep_entity d) = Some en'" "ce_revision en' = r"
      using param_observes [OF assms(5) d(1)] d(2)
      by (cases "entry_of W' (dep_type d) (dep_entity d)") (auto simp: observes_def revision_by_type_entry)
    have "tracked ct (dep_type d)" using assms(6) d(1) by (simp add: list_all_iff)
    then obtain en where "entry_of W (dep_type d) (dep_entity d) = Some en" "similar en en'"
      using prog en' d(3) by (fastforce simp: progress_def evolves_def store_view_def)
    then show ?thesis using en'(1) by simp
  qed
  have new: "w_revision W < revision_raw d \<longleftrightarrow> dep_revision d \<noteq> None \<and> revision_by_type W (dep_type d) (dep_entity d) \<noteq> dep_revision d"
    if d: "d \<in> set ds" for d
  proof (cases "dep_revision d")
    case (Some r)
    have "revision_by_type W (dep_type d) (dep_entity d) = Some r" if "r \<le> w_revision W"
      using same [OF d Some that] param_observes [OF assms(5) d] Some
      by (auto simp: observes_def revision_by_type_entry similar_def rel_option_iff split: option.splits)
    then show ?thesis using old [of r] by (auto simp: revision_raw_def Some not_less [symmetric])
  qed (simp add: revision_raw_def)
  have "rel_option similar (entry_of W (dep_type d) (dep_entity d)) (entry_of W' (dep_type d) (dep_entity d))"
    if "e \<notin> set cs" "d \<in> set ds" "dep_revision d \<noteq> None" for d
    using same [of d] that mem by (auto simp: list_ex_iff revision_raw_def not_less)
  then show ?thesis using mem new by (auto simp: list_ex_iff)
qed

text \<open>
  C15. An update from outside visits each matching row once.  It returns; the closure is called for
  the rows of the filter in ascending order, each time with the value the row had at the start
  and the memory of the rows before; nothing else changes; and when a tracked value moved, a
  generation is pending that will derive from it, else only the world was written.
\<close>

theorem for_each_exact:
  assumes "reachable ct (X, V)" and "\<forall>ty e. \<not> has_component V ty e" and "engine_run ct (X, V) (X', st_world (eg_state E))"
    and "allocated (st_world (eg_state E))" and "hash_agrees ct cmp" and "supplied F A scope"
    and es: "es = filter (\<lambda>e. has_component (st_world (eg_state E)) ty e \<and> ext_holds cmp F (st_world (eg_state E)) A scope e)
        [0..<w_next_entity (st_world (eg_state E))]"
  shows "\<exists>E' W'. for_each ct cmp ty F A scope f E = Some E' \<and> W' = st_world (eg_state E')
    \<and> (\<forall>i<length es. value_of W' ty (es ! i)
        = Some (f (seen_rows ty (st_world (eg_state E)) (take i es)) (es ! i, the (value_of (st_world (eg_state E)) ty (es ! i)))))
    \<and> (\<forall>ty' e. ty' \<noteq> ty \<or> e \<notin> set es \<longrightarrow> entry_of W' ty' e = entry_of (st_world (eg_state E)) ty' e)
    \<and> (if w_revision (st_world (eg_state E)) < w_revision W'
       then st_pending (eg_state E') \<noteq> None \<and> \<not> st_normal_clean (eg_state E')
       else eg_state E' = (eg_state E)\<lparr>st_world := W'\<rparr>)"
proof -
  let ?W = "st_world (eg_state E)"
  note r = run_fresh [OF assms(1-3)]
  note ok = reachable_ok [OF r(1), simplified]
  have rows_eq: "external_filtered_cow_rows ct cmp ty F ?W A scope = Some es"
    using component_rows(1) [OF world_okD(1) [OF ok] assms(4) r(2) assms(5,6)] es by simp
  obtain changed W' where l: "cow_loop ct ty f es [] ?W False = (changed, W')" by (rule prod.exhaust)
  have "list_all (has_component ?W ty) es" "distinct es" by (auto simp: es list_all_iff)
  note c = cow_loop_spec [OF ok this l]
  let ?st = "(eg_state E)\<lparr>st_world := W'\<rparr>"
  have fe: "for_each ct cmp ty F A scope f E
      = Some (E\<lparr>eg_state := if changed then enqueue_next_generation (?st\<lparr>st_normal_clean := False\<rparr>) else ?st\<rparr>)"
    by (simp add: for_each_def rows_eq l Let_def)
  show ?thesis
    by (rule exI, rule exI [of _ W'], rule conjI [OF fe]) (use c in \<open>auto simp: enqueue_next_generation_def\<close>)
qed

section \<open>Witnesses\<close>

definition demo_cmp :: "nat user_value comparisons" where
  "demo_cmp = \<lparr>cmp_eq = (\<lambda>ty. (=)), cmp_ge = (\<lambda>ty v a. (case (v, a) of (UserV x, UserV y) \<Rightarrow> uv_payload y \<le> uv_payload x | _ \<Rightarrow> False))\<rparr>"

text \<open>Two shared arguments, the second overridden for the queries named 4.\<close>

definition demo_calls :: "(tag option \<times> nat user_value arg_bundle) list" where
  "demo_calls = [(None, ArgTuple [Arg (UserTy 0) (demo_plain 5), Arg (UserTy 3) (demo_plain 7)]), (Some 4, Arg (UserTy 3) (demo_plain 8))]"

definition demo_args :: "nat user_value query_args" where
  "demo_args = the (scoop_args demo_calls)"

lemma demo_args_defined: "scoop_args demo_calls = Some demo_args"
proof -
  have "scoop_args demo_calls \<noteq> None" by code_simp
  then show ?thesis by (auto simp: demo_args_def)
qed

theorem query_args_exact_witness:
  "args_get (Some 4) (UserTy 3) demo_args = Some (demo_plain 8) \<and> args_get (Some 4) (UserTy 0) demo_args = Some (demo_plain 5)
    \<and> args_get None (UserTy 3) demo_args = Some (demo_plain 7)"
  using query_args_exact [of demo_calls "Some 4" "UserTy 3"] query_args_exact [of demo_calls "Some 4" "UserTy 0"]
    query_args_exact [of demo_calls None "UserTy 3"] demo_args_defined
  by (simp add: demo_calls_def call_args_def)

text \<open>The entities of component 0 equal to the argument that have no component 3.\<close>

definition demo_filter :: external_filter where
  "demo_filter = WhereX (AndE (EqE (UserTy 0)) (NotE (WithE (UserTy 3))))"

lemma rows_world_run: "engine_run demo_trait ({}, spawn_two (spawn_two world_new)) ({}, rows_world)"
proof -
  have step: "engine_run demo_trait s ({}, W1)"
    if "engine_run demo_trait s ({}, W)" "insert_base demo_trait ty e v W = Some W1" for s W ty e v W1
    using run_step [OF that(1) es_op [OF ws_insert]] that(2) by (simp add: insert_base_def)
  obtain W1 W2 W3 where W: "insert_base demo_trait (UserTy 0) 0 (demo_plain 5) (spawn_two (spawn_two world_new)) = Some W1"
    "insert_base demo_trait (UserTy 0) 1 (demo_plain 5) W1 = Some W2" "insert_base demo_trait (UserTy 3) 1 (demo_plain 7) W2 = Some W3"
    "insert_base demo_trait (UserTy 3) 2 (demo_plain 8) W3 = Some rows_world"
    using rows_world_defined unfolding rows_build_def by (elim bind_SomeE) blast
  show ?thesis by (rule step [OF step [OF step [OF step [OF run_refl W(1)] W(2)] W(3)] W(4)])
qed

lemma rows_start: "reachable demo_trait ({}, spawn_two (spawn_two world_new))"
  "\<forall>ty e. \<not> has_component (spawn_two (spawn_two world_new) :: nat user_value world) ty e"
proof -
  show "reachable demo_trait ({}, spawn_two (spawn_two world_new))" by (intro spawn_two_reachable reach_new)
  have "entry_of (spawn_two (spawn_two world_new)) = entry_of (world_new :: nat user_value world)"
    by (rule entry_of_stores) (simp add: spawn_two_def spawn_empty_def)
  moreover have "entry_of (world_new :: nat user_value world) ty e = None" for ty e
    by (simp add: entry_of_def world_new_def stores_default_def stores_get_def)
  ultimately show "\<forall>ty e. \<not> has_component (spawn_two (spawn_two world_new) :: nat user_value world) ty e" by (simp add: has_component_def)
qed

lemma demo_filter_ok: "hash_agrees demo_trait demo_cmp" "supplied demo_filter demo_args None" "supplied NoFilterX demo_args None"
proof -
  show "hash_agrees demo_trait demo_cmp" by (simp add: hash_agrees_def demo_cmp_def)
  show "supplied demo_filter demo_args None" "supplied NoFilterX demo_args None"
    unfolding demo_args_def by code_simp+
qed

theorem external_rows_exact_witness:
  "external_filtered_rows demo_trait demo_cmp rows_query demo_filter rows_world demo_args None = Some [0]
    \<and> external_mut_rows demo_trait demo_cmp (UserTy 0) demo_filter rows_world demo_args None = Some [(0, Some 1)]"
proof -
  have "filter (\<lambda>e. param_matches demo_trait rows_world rows_query e \<and> ext_holds demo_cmp demo_filter rows_world demo_args None e)
      [0..<w_next_entity rows_world] = [0]
    \<and> filter (\<lambda>e. has_component rows_world (UserTy 0) e \<and> ext_holds demo_cmp demo_filter rows_world demo_args None e)
      [0..<w_next_entity rows_world] = [0] \<and> revision_by_type rows_world (UserTy 0) 0 = Some 1"
    unfolding rows_world_def demo_args_def by code_simp
  moreover have "tracker_anchored rows_query" by code_simp
  note external_rows_exact [OF rows_start rows_world_run rows_world_allocated(1) this demo_filter_ok(1,2), of "UserTy 0",
      unfolded rows_query_def query_param.case, folded rows_query_def]
  ultimately show ?thesis by simp
qed

text \<open>Component 0 of entity 0 is written with another value.\<close>

definition rows_changed :: "nat user_value world" where
  "rows_changed = the (insert_base demo_trait (UserTy 0) 0 (demo_plain 6) rows_world)"

lemma rows_changed_run: "engine_run demo_trait ({}, rows_world) ({}, rows_changed)"
proof -
  have "insert_base demo_trait (UserTy 0) 0 (demo_plain 6) rows_world \<noteq> None" unfolding rows_world_def by code_simp
  then have "world_insert demo_trait (UserTy 0) 0 (demo_plain 6) None rows_world = Some rows_changed"
    by (auto simp: rows_changed_def insert_base_def)
  then show ?thesis by (intro run_step [OF run_refl] es_op ws_insert)
qed

theorem changed_since_exact_witness:
  "changed_rows demo_trait rows_query (w_revision rows_world) rows_changed [0, 1] = Some [0]
    \<and> rel_option similar (entry_of rows_world (UserTy 0) 1) (entry_of rows_changed (UserTy 0) 1)"
proof -
  let ?ds = "qm_deps (param_impl demo_trait rows_query) rows_changed 1"
  have c: "changed_rows demo_trait rows_query (w_revision rows_world) rows_changed [0, 1] = Some [0]"
    and d: "map_option (\<lambda>ds. list_all (\<lambda>d. tracked demo_trait (dep_type d)) ds
      \<and> list_ex (\<lambda>d. dep_type d = UserTy 0 \<and> dep_entity d = 1 \<and> dep_revision d \<noteq> None) ds) ?ds = Some True"
    unfolding rows_changed_def rows_world_def by code_simp+
  obtain ds where ds: "?ds = Some ds" "list_all (\<lambda>d. tracked demo_trait (dep_type d)) ds"
    "\<exists>d\<in>set ds. dep_type d = UserTy 0 \<and> dep_entity d = 1 \<and> dep_revision d \<noteq> None"
    using d by (auto simp: list_ex_iff)
  show ?thesis
    using changed_since_exact [OF rows_world_reachable rows_changed_run c _ ds(1,2)] ds(3) c by auto
qed

text \<open>A closure that adds one more for every row it has seen.\<close>

definition demo_closure :: "nat user_value cow_closure" where
  "demo_closure seen x = (case snd x of UserV u \<Rightarrow> demo_plain (uv_payload u + length seen + 1) | v \<Rightarrow> v)"

definition demo_bowl :: "nat user_value engine" where
  "demo_bowl = on_state (\<lambda>st. st\<lparr>st_world := rows_world\<rparr>) inner_new"

theorem for_each_exact_witness:
  "\<exists>E' W'. for_each demo_trait demo_cmp (UserTy 0) NoFilterX demo_args None demo_closure demo_bowl = Some E' \<and> W' = st_world (eg_state E')
    \<and> value_of W' (UserTy 0) 0 = Some (demo_plain 6) \<and> value_of W' (UserTy 0) 1 = Some (demo_plain 7)"
proof -
  have w: "st_world (eg_state demo_bowl) = rows_world" by (simp add: demo_bowl_def)
  have es: "[0, 1] = filter (\<lambda>e. has_component rows_world (UserTy 0) e \<and> ext_holds demo_cmp NoFilterX rows_world demo_args None e)
      [0..<w_next_entity rows_world]"
    and v: "value_of rows_world (UserTy 0) 0 = Some (demo_plain 5)" "value_of rows_world (UserTy 0) 1 = Some (demo_plain 5)"
    unfolding rows_world_def by code_simp+
  show ?thesis
    using for_each_exact [where E = demo_bowl and ty = "UserTy 0" and F = NoFilterX and f = demo_closure and es = "[0, 1]",
        unfolded w, OF rows_start rows_world_run rows_world_allocated(1) demo_filter_ok(1,3) es]
    by (auto simp: nth_Cons' seen_rows_def v v [unfolded One_nat_def] demo_closure_def demo_plain_def all_less_Suc)
qed

section \<open>What a cursor read does not show\<close>

text \<open>
  A row that lost an optional component since the cursor is left out, although its dependencies
  changed and its invocations run again: an absence counts as older than every revision.
\<close>

definition rows_lost :: "nat user_value world" where
  "rows_lost = the (remove_component demo_trait (UserTy 3) 1 None rows_world)"

theorem optional_loss_unreported:
  "changed_rows demo_trait rows_query (w_revision rows_world) rows_lost [0, 1] = Some []
    \<and> qm_deps (param_impl demo_trait rows_query) rows_lost 1 \<noteq> qm_deps (param_impl demo_trait rows_query) rows_world 1"
  unfolding rows_lost_def rows_world_def by code_simp

end
