(* ===== verification/Prepared.thy ===== *)
theory Prepared
  imports Param_Props
begin

text \<open>
  Prepared queries (prepared.rs) and the items a callback is handed (system.rs).  A plan resolves
  the stores of its parameters once per snapshot and reads dependencies and items of every row
  through them; what a parameter has no preparation for falls back to its own methods.  The
  theorem says that this changes neither what a callback sees nor what the memo decides.
\<close>

section \<open>Prepared parts and queries\<close>

text \<open>What is left of a part or a query once it is prepared.\<close>

record 'v prepared =
  pp_deps :: "'v world \<Rightarrow> entity \<Rightarrow> dep list option"
  pp_fetch :: "'v world \<Rightarrow> entity \<Rightarrow> 'v item option"

definition fallback_part :: "'v part_methods \<Rightarrow> 'v prepared" where
  "fallback_part p = \<lparr>pp_deps = pm_deps p, pp_fetch = pm_fetch p\<rparr>"

definition fallback_query :: "'v query_methods \<Rightarrow> 'v prepared" where
  "fallback_query Q = \<lparr>pp_deps = qm_deps Q, pp_fetch = qm_fetch Q\<rparr>"

definition resolved_get :: "'v resolved_store \<Rightarrow> entity \<Rightarrow> 'v cvalue option" where
  "resolved_get rs e = map_option ce_value (resolved_lookup rs e)"

definition resolved_ref :: "'v component_trait \<Rightarrow> type_id \<Rightarrow> 'v resolved_store \<Rightarrow> 'v prepared" where
  "resolved_ref ct ty rs = \<lparr>pp_deps = (\<lambda>W e. map_option option_list (resolved_dependency ct ty rs e False)),
     pp_fetch = (\<lambda>W e. map_option RefItem (resolved_get rs e))\<rparr>"

definition resolved_opt :: "'v component_trait \<Rightarrow> type_id \<Rightarrow> 'v resolved_store \<Rightarrow> 'v prepared" where
  "resolved_opt ct ty rs = \<lparr>pp_deps = (\<lambda>W e. map_option option_list (resolved_dependency ct ty rs e True)),
     pp_fetch = (\<lambda>W e. Some (OptItem (resolved_get rs e)))\<rparr>"

definition resolved_mut :: "'v component_trait \<Rightarrow> type_id \<Rightarrow> 'v resolved_store \<Rightarrow> 'v prepared" where
  "resolved_mut ct ty rs = \<lparr>pp_deps = (\<lambda>W e. map_option option_list (resolved_dependency ct ty rs e False)),
     pp_fetch = (\<lambda>W e. map_option (MutItem e) (resolved_get rs e))\<rparr>"

text \<open>\<open>prepare\<close> over the snapshot \<open>W\<close>; a scalar query is its one part.\<close>

fun prepare_part :: "'v component_trait \<Rightarrow> 'v world \<Rightarrow> query_part \<Rightarrow> 'v prepared" where
  "prepare_part ct W (ReadPart (Ref ty)) = resolved_ref ct ty (resolve_store W ty)"
| "prepare_part ct W (ReadPart (OptRef ty)) = resolved_opt ct ty (resolve_store W ty)"
| "prepare_part ct W (MutPart ty) = resolved_mut ct ty (resolve_store W ty)"
| "prepare_part ct W (TrackedPart marker H) = fallback_part (part_impl ct (TrackedPart marker H))"
| "prepare_part ct W (Related r edge ps) = fallback_part (part_impl ct (Related r edge ps))"

definition entity_parts :: "'v prepared list \<Rightarrow> 'v prepared" where
  "entity_parts ps = \<lparr>pp_deps = (\<lambda>W e. concat_opt (map (\<lambda>p. pp_deps p W e) ps)),
     pp_fetch = (\<lambda>W e. map_option (TupleItem e) (all_opt (map (\<lambda>p. pp_fetch p W e) ps)))\<rparr>"

fun prepare_query :: "'v component_trait \<Rightarrow> 'v world \<Rightarrow> query_param \<Rightarrow> 'v prepared" where
  "prepare_query ct W (EntityParam H) = fallback_query (param_impl ct (EntityParam H))"
| "prepare_query ct W (RefParam ty) = resolved_ref ct ty (resolve_store W ty)"
| "prepare_query ct W (MutParam ty) = resolved_mut ct ty (resolve_store W ty)"
| "prepare_query ct W (TupleParam H ps) = entity_parts (map (prepare_part ct W) ps)"

definition prepare_filtered :: "'v component_trait \<Rightarrow> 'v world \<Rightarrow> query_param \<Rightarrow> 'v filter_methods \<Rightarrow> 'v prepared" where
  "prepare_filtered ct W Q F = (let q = prepare_query ct W Q in
     \<lparr>pp_deps = (\<lambda>V e. concat_opt [pp_deps q V e, fm_deps F V e]), pp_fetch = pp_fetch q\<rparr>)"

section \<open>The items of a callback\<close>

text \<open>
  A view enumerates its rows when it is built and fetches them as it is iterated, \<open>None\<close> being a
  panic there.  The handle of the commands and the world's metadata carry no row.
\<close>

datatype 'v param_item =
    RowItem "'v item"
  | OuterItem "'v item option"
  | ViewItem "'v item option list"
  | CommandsItem "type_id list option"
  | MetaItem

definition view_items :: "'v query_methods \<Rightarrow> 'v filter_methods \<Rightarrow> 'v world \<Rightarrow> 'v item option list" where
  "view_items Q F W = map (qm_fetch Q W) (filtered_rows Q F W)"

definition world_meta_is_current :: "'v component_trait \<Rightarrow> 'v world \<Rightarrow> derived_anchor list \<Rightarrow> bool" where
  "world_meta_is_current ct W as = is_current_revision (entity_revision ct W) as"

fun sp_fetch :: "'v component_trait \<Rightarrow> system_param \<Rightarrow> 'v world \<Rightarrow> pstate \<Rightarrow> 'v param_item option" where
  "sp_fetch ct (QueryP Q F) W s = on_row (\<lambda>e. map_option RowItem (qm_fetch (param_impl ct Q) W e)) None s"
| "sp_fetch ct (OuterP Q F) W s = on_row (\<lambda>e. map_option (\<lambda>i. OuterItem (Some i)) (qm_fetch (param_impl ct Q) W e)) (Some (OuterItem None)) s"
| "sp_fetch ct (ViewP Q F) W s = Some (ViewItem (view_items (param_impl ct Q) (filter_impl ct F) W))"
| "sp_fetch ct (TrackedViewP Q F) W s = Some (ViewItem (view_items (param_impl ct Q) (filter_impl ct F) W))"
| "sp_fetch ct (CommandsP declared) W s = Some (CommandsItem declared)"
| "sp_fetch ct WorldMetaP W s = Some MetaItem"

definition tuple_fetch :: "'v component_trait \<Rightarrow> system_param list \<Rightarrow> 'v world \<Rightarrow> pstate list \<Rightarrow> 'v param_item list option" where
  "tuple_fetch ct ps W ss = all_opt (map2 (\<lambda>p s. sp_fetch ct p W s) ps ss)"

section \<open>Prepared parameters\<close>

record 'v prepared_param =
  ppp_deps :: "'v world \<Rightarrow> pstate \<Rightarrow> dep list option"
  ppp_fetch :: "'v world \<Rightarrow> pstate \<Rightarrow> 'v param_item option"

definition fallback_param :: "'v component_trait \<Rightarrow> system_param \<Rightarrow> 'v prepared_param" where
  "fallback_param ct p = \<lparr>ppp_deps = sp_deps (sp_impl ct p), ppp_fetch = sp_fetch ct p\<rparr>"

fun prepare_param :: "'v component_trait \<Rightarrow> 'v world \<Rightarrow> system_param \<Rightarrow> 'v prepared_param" where
  "prepare_param ct W (QueryP Q F) = (let q = prepare_filtered ct W Q (filter_impl ct F) in
     \<lparr>ppp_deps = (\<lambda>V. on_row (pp_deps q V) (Some [])), ppp_fetch = (\<lambda>V. on_row (\<lambda>e. map_option RowItem (pp_fetch q V e)) None)\<rparr>)"
| "prepare_param ct W (OuterP Q F) = fallback_param ct (OuterP Q F)"
| "prepare_param ct W (ViewP Q F) = fallback_param ct (ViewP Q F)"
| "prepare_param ct W (TrackedViewP Q F) = fallback_param ct (TrackedViewP Q F)"
| "prepare_param ct W (CommandsP declared) = fallback_param ct (CommandsP declared)"
| "prepare_param ct W WorldMetaP = fallback_param ct WorldMetaP"

definition prepared_deps :: "'v component_trait \<Rightarrow> 'v world \<Rightarrow> system_param list \<Rightarrow> pstate list \<Rightarrow> dep list option" where
  "prepared_deps ct W ps ss = concat_opt (map2 (\<lambda>p s. ppp_deps (prepare_param ct W p) W s) ps ss)"

definition prepared_fetch :: "'v component_trait \<Rightarrow> 'v world \<Rightarrow> system_param list \<Rightarrow> pstate list \<Rightarrow> 'v param_item list option" where
  "prepared_fetch ct W ps ss = all_opt (map2 (\<lambda>p s. ppp_fetch (prepare_param ct W p) W s) ps ss)"

section \<open>Preparation changes nothing\<close>

text \<open>Two observations that no world of an engine tells apart.\<close>

definition same_dep :: "'v component_trait \<Rightarrow> dep \<Rightarrow> dep \<Rightarrow> bool" where
  "same_dep ct d d' \<longleftrightarrow> dep_equal d d' \<and> (\<forall>X (V :: 'v world). reachable ct (X, V) \<longrightarrow> dep_is_current V d = dep_is_current V d')"

abbreviation same_deps :: "'v component_trait \<Rightarrow> dep list option \<Rightarrow> dep list option \<Rightarrow> bool" where
  "same_deps ct \<equiv> rel_option (list_all2 (same_dep ct))"

lemma same_dep_refl [simp]: "list_all2 (same_dep ct) ds ds"
  by (simp add: same_dep_def dep_equal_def list_all2_same)

lemma same_deps_refl [simp]: "same_deps ct x x"
  by (cases x) simp_all

lemma same_deps_concat: "list_all2 (same_deps ct) xs ys \<Longrightarrow> same_deps ct (concat_opt xs) (concat_opt ys)"
proof (induction rule: list_all2_induct)
  case (Cons x xs y ys)
  then show ?case
    by (cases x; cases y; cases "concat_opt xs"; cases "concat_opt ys") (auto intro: list_all2_appendI)
qed simp

lemma resolved_get_value: "resolved_get (resolve_store W ty) e = value_of W ty e"
  by (cases "stores_get ty (w_stores W)")
    (simp_all add: resolved_get_def resolved_lookup_def resolve_store_def value_of_def entry_of_def)

lemma resolved_same:
  "same_deps ct (map_option option_list (resolved_dependency ct ty (resolve_store W ty) e False))
     (map_option option_list (component_dep_if_tracked ct W ty e))"
  "same_deps ct (map_option option_list (resolved_dependency ct ty (resolve_store W ty) e True))
     (Some (option_list (optional_component_dep ct W ty e)))"
proof -
  have slot: "dep_lookup V d = revision_by_type V (dep_type d) (dep_entity d)" if "reachable ct (X, V)" for X V d
  proof -
    have "stores_wf (w_stores V)" using world_okD(1) [OF reachable_ok [OF that]] by (simp add: stores_inv_def)
    then show ?thesis
      by (simp add: dep_lookup_def revision_by_slot_def revision_by_type_def stores_get_slot_eq split: option.split)
  qed
  have rev: "map_option ce_revision (resolved_lookup (resolve_store W ty) e) = revision_by_type W ty e"
    by (cases "stores_get ty (w_stores W)")
      (simp_all add: resolved_lookup_def resolve_store_def revision_by_type_def revision_for_entity_def)
  show "same_deps ct (map_option option_list (resolved_dependency ct ty (resolve_store W ty) e False))
      (map_option option_list (component_dep_if_tracked ct W ty e))"
    by (cases "revision_by_type W ty e")
      (simp_all add: resolved_dependency_def rev Let_def component_dep_if_tracked_def dep_component_def option_list_def
        same_dep_def dep_equal_def dep_is_current_def slot)
  show "same_deps ct (map_option option_list (resolved_dependency ct ty (resolve_store W ty) e True))
      (Some (option_list (optional_component_dep ct W ty e)))"
    by (simp add: resolved_dependency_def rev Let_def optional_component_dep_def dep_component_def option_list_def
        same_dep_def dep_equal_def dep_is_current_def slot)
qed

lemma prepare_part_same:
  "same_deps ct (pp_deps (prepare_part ct W p) W e) (pm_deps (part_impl ct p) W e)"
  "pp_fetch (prepare_part ct W p) W e = pm_fetch (part_impl ct p) W e"
proof -
  have "same_deps ct (pp_deps (prepare_part ct W p) W e) (pm_deps (part_impl ct p) W e)
      \<and> pp_fetch (prepare_part ct W p) W e = pm_fetch (part_impl ct p) W e"
    by (cases p rule: query_part_cases)
      (simp_all add: resolved_ref_def resolved_opt_def resolved_mut_def resolved_get_value resolved_same fallback_part_def)
  then show "same_deps ct (pp_deps (prepare_part ct W p) W e) (pm_deps (part_impl ct p) W e)"
    "pp_fetch (prepare_part ct W p) W e = pm_fetch (part_impl ct p) W e" by blast+
qed

lemma prepare_query_same:
  "same_deps ct (pp_deps (prepare_query ct W Q) W e) (qm_deps (param_impl ct Q) W e)"
  "pp_fetch (prepare_query ct W Q) W e = qm_fetch (param_impl ct Q) W e"
proof -
  have "same_deps ct (pp_deps (prepare_query ct W Q) W e) (qm_deps (param_impl ct Q) W e)
      \<and> pp_fetch (prepare_query ct W Q) W e = qm_fetch (param_impl ct Q) W e"
  proof (cases Q)
    case (TupleParam H ps)
    have "list_all2 (same_deps ct) (map (\<lambda>p. pp_deps (prepare_part ct W p) W e) ps) (map (\<lambda>p. pm_deps (part_impl ct p) W e) ps)"
      by (simp add: list_all2_map1 list_all2_map2 list_all2_same prepare_part_same)
    then show ?thesis
      by (simp add: TupleParam entity_parts_def same_deps_concat o_def prepare_part_same)
  qed (simp_all add: resolved_ref_def resolved_mut_def resolved_get_value resolved_same fallback_query_def)
  then show "same_deps ct (pp_deps (prepare_query ct W Q) W e) (qm_deps (param_impl ct Q) W e)"
    "pp_fetch (prepare_query ct W Q) W e = qm_fetch (param_impl ct Q) W e" by blast+
qed

lemma prepare_param_same:
  "same_deps ct (ppp_deps (prepare_param ct W p) W s) (sp_deps (sp_impl ct p) W s)"
  "ppp_fetch (prepare_param ct W p) W s = sp_fetch ct p W s"
proof -
  have "same_deps ct (concat_opt [pp_deps (prepare_query ct W Q) W e, fm_deps F W e]) (filtered_deps (param_impl ct Q) F W e)" for Q F e
    unfolding filtered_deps_def by (rule same_deps_concat) (simp add: prepare_query_same)
  then have "same_deps ct (ppp_deps (prepare_param ct W p) W s) (sp_deps (sp_impl ct p) W s)
      \<and> ppp_fetch (prepare_param ct W p) W s = sp_fetch ct p W s"
    by (cases p; cases s) (simp_all add: fallback_param_def prepare_filtered_def Let_def prepare_query_same sp_impl_defs
        del: concat_opt.simps)
  then show "same_deps ct (ppp_deps (prepare_param ct W p) W s) (sp_deps (sp_impl ct p) W s)"
    "ppp_fetch (prepare_param ct W p) W s = sp_fetch ct p W s" by blast+
qed

lemma memo_hit_same: "list_all2 (same_dep ct) ds ds' \<Longrightarrow> memo_hit memo always owner ds = memo_hit memo always owner ds'"
proof -
  assume s: "list_all2 (same_dep ct) ds ds'"
  have "list_all2 dep_equal ms ds = list_all2 dep_equal ms ds'" for ms
    using s by (auto simp: list_all2_conv_all_nth same_dep_def dep_equal_def)
  then show ?thesis by (simp add: memo_hit_def split: option.split)
qed

section \<open>Properties\<close>

text \<open>
  C7. Preparation is invisible.  Reading every row of a plan through stores resolved once hands a
  callback the same items as the parameters' own methods, panics on the same rows, and records
  the same observations: the memo decides alike on them now, and every later world of the engine
  agrees on whether they are current.
\<close>

theorem prepared_params_equiv:
  "prepared_fetch ct W ps ss = tuple_fetch ct ps W ss
    \<and> rel_option (\<lambda>ds ds'. (\<forall>memo always owner. memo_hit memo always owner ds = memo_hit memo always owner ds')
        \<and> list_all2 (\<lambda>d d'. dep_equal d d' \<and> (\<forall>X V. reachable ct (X, V) \<longrightarrow> dep_is_current V d = dep_is_current V d')) ds ds')
      (prepared_deps ct W ps ss) (tuple_deps (map (sp_impl ct) ps) W ss)"
proof -
  have l: "list_all2 (same_deps ct) (map2 (\<lambda>p s. ppp_deps (prepare_param ct W p) W s) ps ss)
      (map2 (\<lambda>p s. sp_deps p W s) (map (sp_impl ct) ps) ss)"
    by (induction ps ss rule: list_induct2') (simp_all add: prepare_param_same)
  have "same_deps ct (prepared_deps ct W ps ss) (tuple_deps (map (sp_impl ct) ps) W ss)"
    unfolding prepared_deps_def tuple_deps_def by (rule same_deps_concat [OF l])
  then have "rel_option (\<lambda>ds ds'. (\<forall>memo always owner. memo_hit memo always owner ds = memo_hit memo always owner ds')
      \<and> list_all2 (same_dep ct) ds ds') (prepared_deps ct W ps ss) (tuple_deps (map (sp_impl ct) ps) W ss)"
    by (rule option.rel_mono_strong) (use memo_hit_same in blast)
  moreover have "(\<lambda>p s. ppp_fetch (prepare_param ct W p) W s) = (\<lambda>p s. sp_fetch ct p W s)"
    by (simp add: fun_eq_iff prepare_param_same)
  ultimately show ?thesis unfolding same_dep_def prepared_fetch_def tuple_fetch_def by simp
qed

section \<open>Witnesses\<close>

text \<open>The second row of the join: component 0 of entity 0 with the optional component 3 of entity 1.\<close>

theorem prepared_params_equiv_witness:
  "prepared_fetch demo_trait rows_world join_params [RowS 0, RowS 1, UnitS]
      = Some [RowItem (TupleItem 0 [RefItem (demo_plain 5)]), RowItem (TupleItem 1 [OptItem (Some (demo_plain 7))]), CommandsItem (Some [])]
    \<and> map_option length (prepared_deps demo_trait rows_world join_params [RowS 0, RowS 1, UnitS]) = Some 3"
proof -
  have f: "tuple_fetch demo_trait join_params rows_world [RowS 0, RowS 1, UnitS]
      = Some [RowItem (TupleItem 0 [RefItem (demo_plain 5)]), RowItem (TupleItem 1 [OptItem (Some (demo_plain 7))]), CommandsItem (Some [])]"
    and "map_option length (tuple_deps (map (sp_impl demo_trait) join_params) rows_world [RowS 0, RowS 1, UnitS]) = Some 3"
    unfolding rows_world_def by code_simp+
  then obtain ds' where ds': "tuple_deps (map (sp_impl demo_trait) join_params) rows_world [RowS 0, RowS 1, UnitS] = Some ds'" "length ds' = 3"
    by auto
  note eq = prepared_params_equiv [of demo_trait rows_world join_params "[RowS 0, RowS 1, UnitS]"]
  obtain ds where "prepared_deps demo_trait rows_world join_params [RowS 0, RowS 1, UnitS] = Some ds" "length ds = length ds'"
    using eq unfolding ds'(1) option_rel_Some2 by (blast dest: list_all2_lengthD)
  then show ?thesis using eq f ds'(2) by simp
qed

end
