(* ===== verification/Declarations.thy ===== *)
theory Declarations
  imports Commit
begin

text \<open>
  Output declarations (declare.rs): which components a \<open>Commands<S>\<close> may emit, which bundles
  spawn as which shape, what may be written through a facet handle, and why writes the compiler
  lets through pass the check a commit makes at run time.

  A declaration type is a tree.  The compiler accepts a write when the trait has exactly one
  proof, its markers naming the path; a function here counts the proofs of a trait, one branch
  per \<open>impl\<close>.
\<close>

section \<open>Declarations\<close>

datatype output_decl = Wildcard | Comp type_id | Optionally output_decl | Tuple "output_decl list"

text \<open>\<open>DeclaredIn<S, M>\<close>\<close>

fun declared_proofs :: "type_id \<Rightarrow> output_decl \<Rightarrow> nat" where
  "declared_proofs c Wildcard = 1"
| "declared_proofs c (Comp d) = (if c = d then 1 else 0)"
| "declared_proofs c (Optionally s) = declared_proofs c s"
| "declared_proofs c (Tuple ss) = sum_list (map (declared_proofs c) ss)"

text \<open>\<open>BundleDeclaredIn<S, M>\<close> for a tuple of components\<close>

definition bundle_proofs :: "type_id list \<Rightarrow> output_decl \<Rightarrow> nat" where
  "bundle_proofs B s = prod_list (map (\<lambda>c. declared_proofs c s) B)"

definition bundle_set :: "type_id list \<Rightarrow> output_decl" where
  "bundle_set B = Tuple (map Comp B)"

text \<open>\<open>RequiredPartIn<B, M>\<close> and \<open>CoveredBy<B, M>\<close>: no implementation for a group within a shape.\<close>

fun required_proofs :: "type_id list \<Rightarrow> output_decl \<Rightarrow> nat" where
  "required_proofs B (Optionally s) = 1"
| "required_proofs B (Comp c) = declared_proofs c (bundle_set B)"
| "required_proofs B _ = 0"

fun covered_proofs :: "type_id list \<Rightarrow> output_decl \<Rightarrow> nat" where
  "covered_proofs B (Comp c) = declared_proofs c (bundle_set B)"
| "covered_proofs B (Tuple ps) = prod_list (map (required_proofs B) ps)"
| "covered_proofs B _ = 0"

definition match_proofs :: "type_id list \<Rightarrow> output_decl \<Rightarrow> nat" where
  "match_proofs B H = bundle_proofs B H * covered_proofs B H"

text \<open>\<open>SpawnsAs<S, M>\<close>, and the shape it names.\<close>

fun spawn_proofs :: "type_id list \<Rightarrow> output_decl \<Rightarrow> nat" where
  "spawn_proofs B Wildcard = 1"
| "spawn_proofs B (Tuple hs) = sum_list (map (match_proofs B) hs)"
| "spawn_proofs B _ = 0"

fun spawned_shape :: "type_id list \<Rightarrow> output_decl \<Rightarrow> output_decl option" where
  "spawned_shape B (Tuple hs) = find (\<lambda>h. match_proofs B h > 0) hs"
| "spawned_shape B _ = None"

text \<open>\<open>IncrementOf<H, M>\<close>; \<open>None\<close> is the untyped handle.\<close>

fun shape_increments :: "type_id \<Rightarrow> output_decl \<Rightarrow> nat" where
  "shape_increments c (Optionally (Comp d)) = (if c = d then 1 else 0)"
| "shape_increments c (Tuple ps) = sum_list (map (shape_increments c) ps)"
| "shape_increments c _ = 0"

definition increment_proofs :: "type_id \<Rightarrow> output_decl option \<Rightarrow> nat" where
  "increment_proofs c H = (case H of None \<Rightarrow> 1 | Some s \<Rightarrow> shape_increments c s)"

section \<open>Run-time descriptions\<close>

text \<open>\<open>ShapePart\<close> and \<open>FacetKind\<close>: a component or an optional one.\<close>

fun part_of :: "'v component_trait \<Rightarrow> output_decl \<Rightarrow> facet_part option" where
  "part_of ct (Comp c) = Some (shape_part ct c)"
| "part_of ct (Optionally (Comp c)) = Some (shape_part_optional ct c)"
| "part_of ct _ = None"

fun facet_of :: "'v component_trait \<Rightarrow> output_decl option \<Rightarrow> facet option" where
  "facet_of ct None = Some []"
| "facet_of ct (Some (Tuple ps)) = all_opt (map (part_of ct) ps)"
| "facet_of ct _ = None"

text \<open>\<open>DeclarationList\<close>: a wildcard anywhere makes the whole declaration one.\<close>

fun declared_types :: "output_decl \<Rightarrow> type_id list option" where
  "declared_types Wildcard = None"
| "declared_types (Comp c) = Some [c]"
| "declared_types (Optionally s) = declared_types s"
| "declared_types (Tuple ss) = concat_opt (map declared_types ss)"

section \<open>The static check and the declared types agree\<close>

lemma concat_opt_None: "concat_opt xs = None \<longleftrightarrow> None \<in> set xs"
  by (induction xs) (auto split: option.split)

lemma concat_opt_SomeD: "concat_opt xs = Some ys \<Longrightarrow> \<exists>zs. xs = map Some zs \<and> ys = concat zs"
proof (induction xs arbitrary: ys)
  case (Cons x xs)
  then obtain z zs where "x = Some z" "xs = map Some zs" "ys = z @ concat zs"
    by (auto split: option.splits)
  then have "x # xs = map Some (z # zs) \<and> ys = concat (z # zs)" by simp
  then show ?case by (rule exI)
qed simp

text \<open>Without a wildcard a component has as many proofs as it has occurrences.\<close>

lemma declared_proofs_count:
  "declared_types s = Some tys \<Longrightarrow> declared_proofs c s = count_list tys c"
proof (induction s arbitrary: tys)
  case (Tuple ss)
  then obtain zs where zs: "map declared_types ss = map Some zs" "tys = concat zs"
    using concat_opt_SomeD by (metis declared_types.simps(4))
  have "map (declared_proofs c) ss = map (\<lambda>z. count_list z c) zs"
  proof (rule nth_equalityI)
    show "length (map (declared_proofs c) ss) = length (map (\<lambda>z. count_list z c) zs)"
      using zs(1) map_eq_imp_length_eq by fastforce
    fix i assume i: "i < length (map (declared_proofs c) ss)"
    then have "declared_types (ss ! i) = Some (zs ! i)" using zs(1) by (metis length_map nth_map)
    then show "map (declared_proofs c) ss ! i = map (\<lambda>z. count_list z c) zs ! i"
      using Tuple.IH [of "ss ! i" "zs ! i"] i zs(1) by (metis length_map nth_map nth_mem)
  qed
  moreover have "sum_list (map (\<lambda>z. count_list z c) zs) = count_list (concat zs) c"
    by (induction zs) simp_all
  ultimately show ?case using zs(2) by simp
qed auto

lemma wildcard_declares: "declared_types s = None \<Longrightarrow> declared_proofs c s > 0"
proof (induction s)
  case (Tuple ss)
  then obtain s where "s \<in> set ss" "declared_types s = None" by (auto simp: concat_opt_None)
  with Tuple.IH have "declared_proofs c s > 0" by blast
  then show ?case using member_le_sum_list [of "declared_proofs c s" "map (declared_proofs c) ss"] \<open>s \<in> set ss\<close> by auto
qed simp_all

lemma declared_iff:
  "declared_proofs c s > 0 \<longleftrightarrow> (case declared_types s of None \<Rightarrow> True | Some tys \<Rightarrow> c \<in> set tys)"
proof (cases "declared_types s")
  case (Some tys)
  then show ?thesis using declared_proofs_count [OF Some, of c] count_list_0_iff [of tys c] by auto
qed (simp add: wildcard_declares)

section \<open>Strict writes conform\<close>

text \<open>A shape is a tuple of components, optional or not; its description for the schema.\<close>

definition plain_part :: "output_decl \<Rightarrow> bool" where
  "plain_part p \<longleftrightarrow> (\<exists>c. p = Comp c \<or> p = Optionally (Comp c))"

definition described_by :: "output_decl list \<Rightarrow> shape_desc \<Rightarrow> bool" where
  "described_by ps d \<longleftrightarrow> (\<forall>c. c \<in> set (sh_required d) \<longleftrightarrow> Comp c \<in> set ps)
     \<and> (\<forall>c. c \<in> set (sh_optional d) \<longleftrightarrow> Optionally (Comp c) \<in> set ps)"

lemma positive_sum: "sum_list (map f xs) > (0::nat) \<longleftrightarrow> (\<exists>x\<in>set xs. f x > 0)"
  by (induction xs) auto

lemma positive_prod: "prod_list (map f xs) > (0::nat) \<longleftrightarrow> (\<forall>x\<in>set xs. f x > 0)"
  by (induction xs) auto

lemma bundle_set_proofs: "declared_proofs c (bundle_set B) > 0 \<longleftrightarrow> c \<in> set B"
  by (auto simp: bundle_set_def positive_sum comp_def split: if_splits)

lemma declared_in_shape:
  assumes "list_all plain_part ps" and "described_by ps d"
  shows "declared_proofs c (Tuple ps) > 0 \<longleftrightarrow> shape_contains d c"
proof
  assume "declared_proofs c (Tuple ps) > 0"
  then obtain p where p: "p \<in> set ps" "declared_proofs c p > 0" by (auto simp: positive_sum)
  then have "p = Comp c \<or> p = Optionally (Comp c)" using assms(1) by (auto simp: list_all_iff plain_part_def split: if_splits)
  then show "shape_contains d c" using p(1) assms(2) by (auto simp: shape_contains_def described_by_def)
next
  assume "shape_contains d c"
  then have "Comp c \<in> set ps \<or> Optionally (Comp c) \<in> set ps" using assms(2) by (simp add: shape_contains_def described_by_def)
  then obtain p where "p \<in> set ps" "declared_proofs c p > 0" by force
  then show "declared_proofs c (Tuple ps) > 0" by (simp only: declared_proofs.simps positive_sum) blast
qed

lemma cover_has_required:
  assumes "described_by ps d" and "covered_proofs B (Tuple ps) > 0"
  shows "set (sh_required d) \<subseteq> set B"
proof
  fix c assume "c \<in> set (sh_required d)"
  then have "Comp c \<in> set ps" using assms(1) by (simp add: described_by_def)
  then have "required_proofs B (Comp c) > 0" using assms(2) unfolding covered_proofs.simps positive_prod by blast
  then show "c \<in> set B" by (simp add: bundle_set_proofs)
qed

lemma increment_optional:
  assumes "described_by ps d" and "shape_increments c (Tuple ps) > 0" and "list_all plain_part ps"
  shows "c \<in> set (sh_optional d)"
proof -
  obtain p where p: "p \<in> set ps" "shape_increments c p > 0" using assms(2) by (auto simp: positive_sum)
  then have "p = Optionally (Comp c)" using assms(3) by (auto simp: list_all_iff plain_part_def split: if_splits)
  then show ?thesis using p(1) assms(1) by (simp add: described_by_def)
qed

text \<open>The check passes as soon as one shape of the schema covers the write and is complete.\<close>

lemma check_shapes_passes:
  assumes "d \<in> set shapes" and "\<forall>ty\<in>set tys. shape_contains d ty" and "has_all W (sh_required d) e"
  shows "check_shapes W e tys best nearest shapes = Inr ()"
  using assms(1)
proof (induction shapes arbitrary: best nearest)
  case (Cons shape shapes)
  show ?case
  proof (cases "shape = d")
    case True
    have "filter (shape_contains d) tys = tys" using assms(2) by (simp add: filter_id_conv)
    moreover have "filter (\<lambda>ty. \<not> has_component W ty e) (sh_required d) = []"
      using assms(3) by (simp add: has_all_def list_all_iff filter_empty_conv)
    ultimately show ?thesis using True by simp
  next
    case False
    then show ?thesis using Cons by (simp add: Let_def)
  qed
qed simp

lemma facet_claims:
  assumes "described_by ps d" and "facet_of ct (Some (Tuple ps)) = Some H"
  shows "set (facet_required H) = set (sh_required d)"
proof -
  have "set (facet_required H) = {c. Comp c \<in> set ps}"
    using assms(2)
  proof (induction ps arbitrary: H)
    case (Cons p ps)
    then obtain q H' where "part_of ct p = Some q" "facet_of ct (Some (Tuple ps)) = Some H'" "H = q # H'"
      by (auto simp: all_opt_def split: option.splits)
    then show ?case using Cons.IH [of H']
      by (cases "(ct, p)" rule: part_of.cases)
        (auto simp: facet_required_def shape_part_def shape_part_optional_def)
  qed (simp add: all_opt_def facet_required_def)
  then show ?thesis using assms(1) by (auto simp: described_by_def)
qed

lemma facet_defined:
  assumes "list_all plain_part ps"
  shows "\<exists>H. facet_of ct (Some (Tuple ps)) = Some H"
  using assms
proof (induction ps)
  case (Cons p ps)
  then obtain H where "facet_of ct (Some (Tuple ps)) = Some H" by auto
  moreover obtain q where "part_of ct p = Some q" using Cons.prems by (auto simp: plain_part_def)
  ultimately have "facet_of ct (Some (Tuple (p # ps))) = Some (q # H)" by (simp add: all_opt_def)
  then show ?case by blast
qed (simp add: all_opt_def)

lemma spawned_matches:
  assumes "spawned_shape B s = Some h"
  obtains hs where "s = Tuple hs" and "h \<in> set hs" and "match_proofs B h > 0"
  using assms by (cases "(B, s)" rule: spawned_shape.cases) (auto simp: find_Some_iff)

lemma spawned_declared:
  assumes "spawned_shape B s = Some h" and "declared_types s = Some tys"
  shows "set B \<subseteq> set tys"
proof
  fix c assume c: "c \<in> set B"
  obtain hs where hs: "s = Tuple hs" "h \<in> set hs" "match_proofs B h > 0" using spawned_matches [OF assms(1)] .
  then have "bundle_proofs B h > 0" by (simp add: match_proofs_def)
  then have "declared_proofs c h > 0" using c unfolding bundle_proofs_def positive_prod by blast
  then have "declared_proofs c s > 0" using hs(1,2) unfolding hs(1) declared_proofs.simps positive_sum by blast
  then show "c \<in> set tys" using declared_iff [of c s] assms(2) by simp
qed

text \<open>
  C20. What the compiler lets through passes at commit.  Let a shape of components and optional
  components be described by one of the schema's shapes.  A bundle that spawns as this shape
  under a declaration, found complete on its entity, conforms to the schema, makes the claim of
  the handle it returns true (every required part is there), and stays within the declared
  types; and a component that may be written through a handle of the shape conforms whenever the
  claim of the handle holds.
\<close>

theorem strict_writes_conform:
  assumes "list_all plain_part ps" and "described_by ps d" and "d \<in> set shapes"
  shows "\<exists>H. facet_of ct (Some (Tuple ps)) = Some H
    \<and> (\<forall>B s. spawned_shape B s = Some (Tuple ps) \<longrightarrow> has_all W B e \<longrightarrow>
        check_shape_conformance W shapes e B = Inr () \<and> has_all W (facet_required H) e
        \<and> (\<forall>tys. declared_types s = Some tys \<longrightarrow> set B \<subseteq> set tys))
    \<and> (\<forall>c. increment_proofs c (Some (Tuple ps)) > 0 \<longrightarrow> has_all W (facet_required H) e \<longrightarrow>
        check_shape_conformance W shapes e [c] = Inr ())"
proof -
  obtain H where H: "facet_of ct (Some (Tuple ps)) = Some H" using facet_defined [OF assms(1)] by blast
  note claims = facet_claims [OF assms(2) H]
  have "check_shape_conformance W shapes e B = Inr () \<and> has_all W (facet_required H) e"
    if "spawned_shape B s = Some (Tuple ps)" "has_all W B e" for B s
  proof -
    have "match_proofs B (Tuple ps) > 0" using spawned_matches [OF that(1)] by blast
    then have within: "bundle_proofs B (Tuple ps) > 0" and cover: "covered_proofs B (Tuple ps) > 0"
      by (simp_all add: match_proofs_def)
    have "\<forall>ty\<in>set B. shape_contains d ty"
      using within declared_in_shape [OF assms(1,2)] unfolding bundle_proofs_def positive_prod by blast
    moreover have complete: "has_all W (sh_required d) e"
      using cover_has_required [OF assms(2) cover] that(2) by (auto simp: has_all_def list_all_iff)
    ultimately show ?thesis
      using check_shapes_passes [OF assms(3)] claims by (simp add: check_shape_conformance_def has_all_def list_all_iff)
  qed
  moreover have "check_shape_conformance W shapes e [c] = Inr ()"
    if "increment_proofs c (Some (Tuple ps)) > 0" "has_all W (facet_required H) e" for c
  proof -
    have "c \<in> set (sh_optional d)"
      using increment_optional [OF assms(2) _ assms(1)] that(1) by (simp add: increment_proofs_def)
    then have "\<forall>ty\<in>set [c]. shape_contains d ty" by (simp add: shape_contains_def)
    moreover have "has_all W (sh_required d) e" using that(2) claims by (simp add: has_all_def list_all_iff)
    ultimately show ?thesis unfolding check_shape_conformance_def by (rule check_shapes_passes [OF assms(3)])
  qed
  ultimately show ?thesis using H spawned_declared by blast
qed

section \<open>Witnesses\<close>

text \<open>A shape of component 0 with an optional component 3, spawned with both and written through its handle.\<close>

definition demo_shape :: "output_decl list" where
  "demo_shape = [Comp (UserTy 0), Optionally (Comp (UserTy 3))]"

definition demo_shape_desc :: shape_desc where
  "demo_shape_desc = \<lparr>sh_required = [UserTy 0], sh_optional = [UserTy 3]\<rparr>"

theorem strict_writes_conform_witness:
  "spawned_shape [UserTy 3, UserTy 0] (Tuple [Tuple [Comp (UserTy 1)], Tuple demo_shape]) = Some (Tuple demo_shape)
    \<and> check_shape_conformance demo_world [demo_shape_desc] 1 [UserTy 0] = Inr ()"
proof -
  have "list_all plain_part demo_shape" "described_by demo_shape demo_shape_desc"
    by (auto simp: demo_shape_def demo_shape_desc_def plain_part_def described_by_def)
  from strict_writes_conform [OF this, of "[demo_shape_desc]" demo_trait demo_world 1]
  have "spawned_shape [UserTy 0] (Tuple [Tuple demo_shape]) = Some (Tuple demo_shape) \<Longrightarrow> has_all demo_world [UserTy 0] 1 \<Longrightarrow>
      check_shape_conformance demo_world [demo_shape_desc] 1 [UserTy 0] = Inr ()" unfolding list.set by blast
  moreover have "spawned_shape [UserTy 0] (Tuple [Tuple demo_shape]) = Some (Tuple demo_shape)"
    and "spawned_shape [UserTy 3, UserTy 0] (Tuple [Tuple [Comp (UserTy 1)], Tuple demo_shape]) = Some (Tuple demo_shape)"
    by code_simp+
  moreover have "has_all demo_world [UserTy 0] 1" by code_simp
  ultimately show ?thesis by simp
qed

end
