(* ===== verification/Macros.thy ===== *)
theory Macros
  imports Commit "HOL-Library.Char_ord" "HOL-Library.Sublist"
begin

text \<open>
  The derive macros (crates/macros/lib.rs): the scanners that read a declaration's tokens, the
  schema and the component implementation they generate, and the bundle declaration that the
  \<open>SystemParam\<close> derive reads; the parameter it composes is in Bundles.

  A token stream is a list of token trees; an iterator is what is left of its list.  How a group
  prints belongs to the compiler and is the parameter \<open>group_text\<close>.  Identifiers are ASCII.  The
  generated implementation is given by its parts, not by its text.
\<close>

section \<open>Tokens\<close>

datatype delimiter = Parenthesis | Brace | Bracket | NoDelimiter

datatype token = Ident string | Punct char | Literal string | Group delimiter "token list"

fun token_text :: "(delimiter \<Rightarrow> token list \<Rightarrow> string) \<Rightarrow> token \<Rightarrow> string" where
  "token_text group_text (Ident s) = s"
| "token_text group_text (Punct c) = [c]"
| "token_text group_text (Literal s) = s"
| "token_text group_text (Group d ts) = group_text d ts"

definition tokens_text :: "(delimiter \<Rightarrow> token list \<Rightarrow> string) \<Rightarrow> token list \<Rightarrow> string" where
  "tokens_text group_text ts = concat (map (token_text group_text) ts)"

section \<open>Attributes\<close>

definition attribute_contains_component_ident :: "token list \<Rightarrow> string \<Rightarrow> bool" where
  "attribute_contains_component_ident ts needle = (case ts of
     Ident i # rest \<Rightarrow> i = ''component'' \<and> list_ex (\<lambda>t. case t of
         Group Parenthesis inner \<Rightarrow> Ident needle \<in> set inner | _ \<Rightarrow> False) rest
   | _ \<Rightarrow> False)"

text \<open>The token after a \<open>#\<close> is consumed whatever it is.\<close>

fun component_attribute_contains :: "token list \<Rightarrow> string \<Rightarrow> bool" where
  "component_attribute_contains [] needle = False"
| "component_attribute_contains (t # ts) needle = (if t \<noteq> Punct (CHR ''#'') then component_attribute_contains ts needle
     else case ts of
         [] \<Rightarrow> False
       | u # us \<Rightarrow> (case u of
           Group Bracket inner \<Rightarrow> attribute_contains_component_ident inner needle \<or> component_attribute_contains us needle
         | _ \<Rightarrow> component_attribute_contains us needle))"

text \<open>
  The arguments of one attribute: after \<open>key =\<close> the tokens up to a comma, concatenated.  A key
  without the sign loses the token behind it, and an empty value is passed over.
\<close>

definition is_comma :: "token \<Rightarrow> bool" where
  "is_comma t \<longleftrightarrow> t = Punct (CHR '','')"

function argument_value :: "(delimiter \<Rightarrow> token list \<Rightarrow> string) \<Rightarrow> string \<Rightarrow> token list \<Rightarrow> string option" where
  "argument_value gt key [] = None"
| "argument_value gt key (t # ts) = (if t \<noteq> Ident key then argument_value gt key ts
     else case ts of
         [] \<Rightarrow> None
       | u # us \<Rightarrow> if u \<noteq> Punct (CHR ''='') then argument_value gt key us
         else let v = tokens_text gt (takeWhile (\<lambda>t. \<not> is_comma t) us) in
           if v \<noteq> [] then Some v else argument_value gt key (drop 1 (dropWhile (\<lambda>t. \<not> is_comma t) us)))"
  by pat_completeness auto
termination
  by (relation "measure (\<lambda>(gt, key, ts). length ts)")
    (auto simp: less_Suc_eq_le intro!: le_SucI diff_le_self [THEN le_trans] length_dropWhile_le)

fun attribute_value :: "(delimiter \<Rightarrow> token list \<Rightarrow> string) \<Rightarrow> token list \<Rightarrow> string \<Rightarrow> string \<Rightarrow> string option" where
  "attribute_value gt [] attribute key = None"
| "attribute_value gt (t # ts) attribute key = (if t \<noteq> Punct (CHR ''#'') then attribute_value gt ts attribute key
     else case ts of
         [] \<Rightarrow> None
       | u # us \<Rightarrow> (case u of
           Group Bracket (Ident name # Group Parenthesis args # _) \<Rightarrow>
             (case (if name = attribute then argument_value gt key args else None) of
                Some v \<Rightarrow> Some v
              | None \<Rightarrow> attribute_value gt us attribute key)
         | _ \<Rightarrow> attribute_value gt us attribute key))"

text \<open>The first identifier after the keyword that is not a keyword again.\<close>

fun declared_name :: "bool \<Rightarrow> token list \<Rightarrow> string option" where
  "declared_name saw [] = None"
| "declared_name saw (Ident i # ts) = (if i = ''struct'' \<or> i = ''enum'' then declared_name True ts
     else if saw then Some i else declared_name saw ts)"
| "declared_name saw (t # ts) = declared_name saw ts"

text \<open>The attributes of a component declaration, its types resolved by the crate it stands in.\<close>

definition macro_attributes :: "(delimiter \<Rightarrow> token list \<Rightarrow> string) \<Rightarrow> (string \<Rightarrow> nat) \<Rightarrow> token list \<Rightarrow> derive_attributes" where
  "macro_attributes gt resolve_type input =
     \<lparr>use_hash = component_attribute_contains input ''hash'',
      untracked = component_attribute_contains input ''untracked'',
      use_revision = component_attribute_contains input ''revision'',
      edge_target = map_option resolve_type (attribute_value gt input ''relationship'' ''target''),
      target_edge = map_option resolve_type (attribute_value gt input ''relationship_target'' ''relationship''),
      type_name = map_option resolve_type (declared_name False input)\<rparr>"

definition derive_component_macro :: "(delimiter \<Rightarrow> token list \<Rightarrow> string) \<Rightarrow> (string \<Rightarrow> nat) \<Rightarrow> token list \<Rightarrow> derive_error + component_impl" where
  "derive_component_macro gt resolve_type input = derive_component (macro_attributes gt resolve_type input)"

section \<open>Names\<close>

definition is_uppercase :: "char \<Rightarrow> bool" where
  "is_uppercase c \<longleftrightarrow> of_char c \<in> {65..90 :: nat}"

definition is_lowercase :: "char \<Rightarrow> bool" where
  "is_lowercase c \<longleftrightarrow> of_char c \<in> {97..122 :: nat}"

definition to_lowercase :: "char \<Rightarrow> char" where
  "to_lowercase c = (if is_uppercase c then char_of (of_char c + 32 :: nat) else c)"

definition to_uppercase :: "char \<Rightarrow> char" where
  "to_uppercase c = (if is_lowercase c then char_of (of_char c - 32 :: nat) else c)"

fun snake_from :: "nat \<Rightarrow> string \<Rightarrow> string" where
  "snake_from i [] = []"
| "snake_from i (c # cs) = (if is_uppercase c then (if i > 0 then [CHR ''_''] else []) @ [to_lowercase c] else [c]) @ snake_from (i + 1) cs"

definition snake_case :: "string \<Rightarrow> string" where
  "snake_case pascal = snake_from 0 pascal"

text \<open>\<open>split('_')\<close>, its empty parts dropped.\<close>

fun split_parts :: "string \<Rightarrow> string \<Rightarrow> string list" where
  "split_parts part [] = [part]"
| "split_parts part (c # cs) = (if c = CHR ''_'' then part # split_parts [] cs else split_parts (part @ [c]) cs)"

fun capitalize :: "string \<Rightarrow> string" where
  "capitalize [] = []"
| "capitalize (c # cs) = to_uppercase c # cs"

definition pascal_case :: "string \<Rightarrow> string" where
  "pascal_case snake = concat (map capitalize (filter (\<lambda>part. part \<noteq> []) (split_parts [] snake)))"

section \<open>Schemas\<close>

text \<open>
  The parts of one shape: its tokens printed one after another and cut at the commas outside
  angle brackets; \<open>Option<T>\<close> around a part makes it optional.
\<close>

fun split_elements :: "(delimiter \<Rightarrow> token list \<Rightarrow> string) \<Rightarrow> nat \<Rightarrow> string \<Rightarrow> string list \<Rightarrow> token list \<Rightarrow> string list" where
  "split_elements gt depth current elements [] = (if current = [] then elements else elements @ [current])"
| "split_elements gt depth current elements (t # ts) = (
     if is_comma t \<and> depth = 0 then
       (if current = [] then split_elements gt depth [] elements ts else split_elements gt depth [] (elements @ [current]) ts)
     else if t = Punct (CHR ''<'') then split_elements gt (depth + 1) (current @ ''<'') elements ts
     else if t = Punct (CHR ''>'') then split_elements gt (depth - 1) (current @ ''>'') elements ts
     else split_elements gt depth (current @ token_text gt t) elements ts)"

definition strip_prefix :: "string \<Rightarrow> string \<Rightarrow> string option" where
  "strip_prefix p s = (if prefix p s then Some (drop (length p) s) else None)"

definition strip_suffix :: "string \<Rightarrow> string \<Rightarrow> string option" where
  "strip_suffix p s = (if suffix p s then Some (take (length s - length p) s) else None)"

definition classify_element :: "string \<Rightarrow> string \<times> bool" where
  "classify_element element = (case Option.bind (strip_prefix ''Option<'' element) (strip_suffix ''>'') of
     Some inner \<Rightarrow> (inner, True) | None \<Rightarrow> (element, False))"

definition shape_elements :: "(delimiter \<Rightarrow> token list \<Rightarrow> string) \<Rightarrow> token list \<Rightarrow> (string \<times> bool) list" where
  "shape_elements gt tuple = map classify_element (split_elements gt 0 [] [] tuple)"

definition skip_comma :: "token list \<Rightarrow> token list" where
  "skip_comma ts = (case ts of t # us \<Rightarrow> if is_comma t then us else ts | [] \<Rightarrow> [])"

lemma skip_comma_length: "length (skip_comma ts) \<le> length ts"
  by (simp add: skip_comma_def split: list.split)

function schema_fields :: "(delimiter \<Rightarrow> token list \<Rightarrow> string) \<Rightarrow> token list \<Rightarrow> (string \<times> (string \<times> bool) list) list option" where
  "schema_fields gt [] = Some []"
| "schema_fields gt (t # ts) = (case t of
     Ident field \<Rightarrow> (case ts of
         [] \<Rightarrow> Some []
       | u # us \<Rightarrow> if u \<noteq> Punct (CHR '':'') then schema_fields gt us
           else (case us of
               Group Parenthesis tuple # rest \<Rightarrow>
                 map_option (Cons (field, shape_elements gt tuple)) (schema_fields gt (skip_comma rest))
             | _ \<Rightarrow> None))
   | _ \<Rightarrow> schema_fields gt ts)"
  by pat_completeness auto
termination
  by (relation "measure (\<lambda>(gt, ts). length ts)")
    (auto simp: less_Suc_eq_le intro!: le_SucI skip_comma_length)

fun declaration_body :: "token list \<Rightarrow> token list option" where
  "declaration_body [] = None"
| "declaration_body (t # ts) = (case t of Group Brace body \<Rightarrow> Some body | _ \<Rightarrow> declaration_body ts)"

definition named_fields :: "(delimiter \<Rightarrow> token list \<Rightarrow> string) \<Rightarrow> token list \<Rightarrow> (string \<times> (string \<times> bool) list) list option" where
  "named_fields gt input = Option.bind (declaration_body input) (schema_fields gt)"

definition shape_width_cap :: nat where
  "shape_width_cap = 12"

datatype schema_error = NotAStruct | NoNamedFields | NoShapeFields | EmptyShape | ShapeTooWide string nat

definition shape_width_error :: "string \<Rightarrow> nat \<Rightarrow> schema_error option" where
  "shape_width_error field width = (if width > shape_width_cap then Some (ShapeTooWide field width) else None)"

text \<open>
  What the derive generates: the descriptions \<open>shapes()\<close> returns, the hidden tuple aliases, the
  companion module that renames them, and the fields read so that they do not count as dead.
\<close>

record generated_shape =
  gs_name :: string
  gs_required :: "string list"
  gs_optional :: "string list"

record schema_impl =
  si_name :: string
  si_shapes :: "generated_shape list"
  si_aliases :: "(string \<times> string list) list"
  si_module :: string
  si_module_aliases :: "(string \<times> string) list"
  si_field_reads :: "string list"

definition hidden_alias :: "string \<Rightarrow> string \<Rightarrow> string" where
  "hidden_alias name field = ''__'' @ name @ pascal_case field"

definition full_tuple :: "(string \<times> bool) list \<Rightarrow> string list" where
  "full_tuple elements = map (\<lambda>(ty, opt). if opt then ''::core::option::Option<'' @ ty @ ''>'' else ty) elements"

definition generate_shape :: "string \<times> (string \<times> bool) list \<Rightarrow> generated_shape" where
  "generate_shape shape = \<lparr>gs_name = fst shape,
     gs_required = map fst (filter (\<lambda>(ty, opt). \<not> opt) (snd shape)),
     gs_optional = map fst (filter (\<lambda>(ty, opt). opt) (snd shape))\<rparr>"

text \<open>The first shape in order that is empty or too wide.\<close>

fun first_shape_error :: "(string \<times> (string \<times> bool) list) list \<Rightarrow> schema_error option" where
  "first_shape_error [] = None"
| "first_shape_error ((field, elements) # shapes) = (if elements = [] then Some EmptyShape
     else case shape_width_error field (length elements) of Some e \<Rightarrow> Some e | None \<Rightarrow> first_shape_error shapes)"

definition derive_schema :: "(delimiter \<Rightarrow> token list \<Rightarrow> string) \<Rightarrow> token list \<Rightarrow> schema_error + schema_impl" where
  "derive_schema gt input = (case declared_name False input of
     None \<Rightarrow> Inl NotAStruct
   | Some name \<Rightarrow> (case named_fields gt input of
       None \<Rightarrow> Inl NoNamedFields
     | Some shapes \<Rightarrow> if shapes = [] then Inl NoShapeFields
         else (case first_shape_error shapes of
             Some e \<Rightarrow> Inl e
           | None \<Rightarrow> Inr \<lparr>si_name = name, si_shapes = map generate_shape shapes,
               si_aliases = map (\<lambda>(field, elements). (hidden_alias name field, full_tuple elements)) shapes,
               si_module = snake_case name,
               si_module_aliases = map (\<lambda>(field, elements). (pascal_case field, hidden_alias name field)) shapes,
               si_field_reads = map fst shapes\<rparr>)))"

text \<open>The generated \<open>shapes()\<close>, run in the crate that resolves its type names.\<close>

definition schema_shapes :: "(string \<Rightarrow> type_id) \<Rightarrow> schema_impl \<Rightarrow> shape_desc list" where
  "schema_shapes type_of si = map (\<lambda>g. \<lparr>sh_required = map type_of (gs_required g), sh_optional = map type_of (gs_optional g)\<rparr>) (si_shapes si)"

section \<open>Parameter bundles\<close>

record bundle_field =
  bf_name :: string
  bf_type :: "token list"

record param_bundle =
  bu_name :: string
  bu_lifetime :: "string option"
  bu_fields :: "bundle_field list"

datatype bundle_error =
    BundleNotAStruct
  | MalformedLifetime
  | TwoLifetimes
  | TypeParameters
  | UnterminatedGenerics
  | BundleUnnamedFields
  | NoColon string
  | EmptyType string
  | EmptyBundle

text \<open>The generics behind the opening bracket: at most one lifetime.\<close>

fun bundle_generics :: "string option \<Rightarrow> token list \<Rightarrow> bundle_error + string option \<times> token list" where
  "bundle_generics lifetime [] = Inl UnterminatedGenerics"
| "bundle_generics lifetime (t # ts) = (
     if t = Punct (CHR 0x27) then (case ts of
         Ident lt # rest \<Rightarrow> if lifetime \<noteq> None then Inl TwoLifetimes else bundle_generics (Some lt) rest
       | _ \<Rightarrow> Inl MalformedLifetime)
     else if t = Punct (CHR ''>'') then Inr (lifetime, ts)
     else if is_comma t then bundle_generics lifetime ts
     else Inl TypeParameters)"

lemma bundle_generics_length: "bundle_generics lifetime ts = Inr (lt, rest) \<Longrightarrow> length rest < length ts"
proof (induction lifetime ts rule: bundle_generics.induct)
  case (2 lifetime t ts)
  show ?case using 2(3) 
   2(1,2) by (fastforce split: if_splits list.splits token.splits intro: less_SucI)
qed simp

text \<open>The last name, lifetime and body of the declaration.\<close>

function bundle_scan :: "string option \<Rightarrow> string option \<Rightarrow> token list option \<Rightarrow> token list \<Rightarrow>
    bundle_error + string option \<times> string option \<times> token list option" where
  "bundle_scan name lifetime body [] = Inr (name, lifetime, body)"
| "bundle_scan name lifetime body (t # ts) = (
     if t = Punct (CHR ''#'') then bundle_scan name lifetime body (drop 1 ts)
     else if t = Ident ''struct'' then (case ts of
         Ident i # rest \<Rightarrow> (case rest of
             u # us \<Rightarrow> if u = Punct (CHR ''<'') then (case bundle_generics lifetime us of
                   Inl e \<Rightarrow> Inl e
                 | Inr (lt, rest') \<Rightarrow> bundle_scan (Some i) lt body rest')
               else bundle_scan (Some i) lifetime body rest
           | [] \<Rightarrow> Inr (Some i, lifetime, body))
       | _ \<Rightarrow> Inl BundleNotAStruct)
     else (case t of
         Group Brace inner \<Rightarrow> bundle_scan name lifetime (Some inner) ts
       | _ \<Rightarrow> bundle_scan name lifetime body ts))"
  by pat_completeness auto
termination
  by (relation "measure (\<lambda>(name, lifetime, body, ts). length ts)") (simp_all, metis bundle_generics_length less_SucI)

text \<open>Attributes and visibility before a field.\<close>

fun is_parenthesis :: "token \<Rightarrow> bool" where
  "is_parenthesis (Group Parenthesis _) = True"
| "is_parenthesis _ = False"

function skip_field_prefix :: "token list \<Rightarrow> token list" where
  "skip_field_prefix [] = []"
| "skip_field_prefix (t # ts) = (
     if t = Punct (CHR ''#'') then skip_field_prefix (drop 1 ts)
     else if t = Ident ''pub'' then (case ts of
         u # us \<Rightarrow> if is_parenthesis u then skip_field_prefix us else skip_field_prefix ts
       | [] \<Rightarrow> [])
     else t # ts)"
  by pat_completeness auto
termination by (relation "measure length") auto

lemma skip_field_prefix_length: "length (skip_field_prefix ts) \<le> length ts"
proof (induction ts rule: skip_field_prefix.induct)
  case (2 t ts)
  show ?case using 2 by (subst skip_field_prefix.simps(2)) (auto split: list.split simp del: skip_field_prefix.simps)
qed simp

text \<open>A type up to a comma at angle-bracket depth zero; the depth may turn negative.\<close>

fun take_type :: "int \<Rightarrow> token list \<Rightarrow> token list \<times> token list" where
  "take_type depth [] = ([], [])"
| "take_type depth (t # ts) = (
     if is_comma t \<and> depth = 0 then ([], ts)
     else let (ty, rest) = take_type (if t = Punct (CHR ''<'') then depth + 1
            else if t = Punct (CHR ''>'') then depth - 1 else depth) ts
          in (t # ty, rest))"

lemma take_type_length: "take_type depth ts = (ty, rest) \<Longrightarrow> length rest \<le> length ts"
  by (induction depth ts arbitrary: ty rule: take_type.induct) (fastforce split: if_splits prod.splits)+

text \<open>A token that is no identifier ends the fields.\<close>

function parse_fields :: "token list \<Rightarrow> bundle_error + bundle_field list" where
  "parse_fields ts = (case skip_field_prefix ts of
     Ident field # rest \<Rightarrow> (case rest of
         u # us \<Rightarrow> if u \<noteq> Punct (CHR '':'') then Inl (NoColon field)
           else (case take_type 0 us of
               (ty, rest') \<Rightarrow> if ty = [] then Inl (EmptyType field)
                 else map_sum id (Cons \<lparr>bf_name = field, bf_type = ty\<rparr>) (parse_fields rest'))
       | [] \<Rightarrow> Inl (NoColon field))
   | _ \<Rightarrow> Inr [])"
  by pat_completeness auto
termination
proof (relation "measure length")
  fix ts t rest field u us ty rest'
  assume "skip_field_prefix ts = t # rest" "rest = u # us" "(ty, rest') = take_type 0 us"
  then have "length rest' \<le> length us" "length (t # u # us) \<le> length ts"
    using take_type_length skip_field_prefix_length [of ts] by metis+
  then show "(rest', ts) \<in> measure length" by simp
qed simp
definition parse_bundle :: "token list \<Rightarrow> bundle_error + param_bundle" where
  "parse_bundle input = (case bundle_scan None None None input of
     Inl e \<Rightarrow> Inl e
   | Inr (None, _, _) \<Rightarrow> Inl BundleNotAStruct
   | Inr (Some name, _, None) \<Rightarrow> Inl BundleUnnamedFields
   | Inr (Some name, lifetime, Some body) \<Rightarrow> (case parse_fields body of
       Inl e \<Rightarrow> Inl e
     | Inr fs \<Rightarrow> if fs = [] then Inl EmptyBundle
         else Inr \<lparr>bu_name = name, bu_lifetime = lifetime, bu_fields = fs\<rparr>))"

text \<open>Every occurrence of the lifetime, groups included; the replacement is a parsed lifetime.\<close>

fun substitute_lifetime :: "string \<Rightarrow> token list \<Rightarrow> token list \<Rightarrow> token list" where
  "substitute_lifetime lt new [] = []"
| "substitute_lifetime lt new (Punct c # Ident i # ts) =
     (if c = CHR 0x27 \<and> i = lt then new @ substitute_lifetime lt new ts
      else Punct c # substitute_lifetime lt new (Ident i # ts))"
| "substitute_lifetime lt new (Group d inner # ts) = Group d (substitute_lifetime lt new inner) # substitute_lifetime lt new ts"
| "substitute_lifetime lt new (t # ts) = t # substitute_lifetime lt new ts"

definition lifetime_tokens :: "string \<Rightarrow> token list" where
  "lifetime_tokens name = [Punct (CHR 0x27), Ident name]"

definition ty_with_lifetime :: "string option \<Rightarrow> string \<Rightarrow> bundle_field \<Rightarrow> token list" where
  "ty_with_lifetime lifetime new f = (case lifetime of
     None \<Rightarrow> bf_type f | Some lt \<Rightarrow> substitute_lifetime lt (lifetime_tokens new) (bf_type f))"

end
