(* ===== verification/Bundles.thy ===== *)
theory Bundles
  imports Macros Prepared
begin

text \<open>
  Parameter bundles (\<open>derive_system_param\<close> in crates/macros/lib.rs): the parameter the derive
  composes from the fields of a struct, bundles within bundles included, and its equivalence
  with the fields listed one by one in the signature of a system.

  A field is a parameter of the library or a bundle again.  The state of a bundle is the tuple of
  its fields' single states; enumerating a field with none or several panics (\<open>None\<close>).
\<close>

section \<open>The generated parameter\<close>

datatype ambient = Field system_param | Nested "ambient list"

datatype ambient_state = FieldS pstate | NestedS "ambient_state list"

fun bundle_states :: "'v component_trait \<Rightarrow> ambient \<Rightarrow> 'v world \<Rightarrow> ambient_state list option"
  and bundle_field_states :: "'v component_trait \<Rightarrow> ambient list \<Rightarrow> 'v world \<Rightarrow> ambient_state list option" where
  "bundle_states ct (Field p) W = Some (map FieldS (sp_states (sp_impl ct p) W))"
| "bundle_states ct (Nested bs) W = map_option (\<lambda>ss. [NestedS ss]) (bundle_field_states ct bs W)"
| "bundle_field_states ct [] W = Some []"
| "bundle_field_states ct (b # bs) W = (case bundle_states ct b W of
     Some [s] \<Rightarrow> map_option (Cons s) (bundle_field_states ct bs W)
   | _ \<Rightarrow> None)"

fun bundle_keys :: "'v component_trait \<Rightarrow> ambient \<Rightarrow> ambient_state \<Rightarrow> entity list"
  and bundle_field_keys :: "'v component_trait \<Rightarrow> ambient list \<Rightarrow> ambient_state list \<Rightarrow> entity list" where
  "bundle_keys ct (Field p) (FieldS s) = sp_keys (sp_impl ct p) s"
| "bundle_keys ct (Nested bs) (NestedS ss) = bundle_field_keys ct bs ss"
| "bundle_keys ct _ _ = []"
| "bundle_field_keys ct (b # bs) (s # ss) = bundle_keys ct b s @ bundle_field_keys ct bs ss"
| "bundle_field_keys ct _ _ = []"

fun bundle_deps :: "'v component_trait \<Rightarrow> 'v world \<Rightarrow> ambient \<Rightarrow> ambient_state \<Rightarrow> dep list option"
  and bundle_field_deps :: "'v component_trait \<Rightarrow> 'v world \<Rightarrow> ambient list \<Rightarrow> ambient_state list \<Rightarrow> dep list option" where
  "bundle_deps ct W (Field p) (FieldS s) = sp_deps (sp_impl ct p) W s"
| "bundle_deps ct W (Nested bs) (NestedS ss) = bundle_field_deps ct W bs ss"
| "bundle_deps ct W _ _ = Some []"
| "bundle_field_deps ct W (b # bs) (s # ss) = Option.bind (bundle_deps ct W b s)
     (\<lambda>ds. map_option (append ds) (bundle_field_deps ct W bs ss))"
| "bundle_field_deps ct W _ _ = Some []"

fun bundle_access :: "'v component_trait \<Rightarrow> 'v world \<Rightarrow> ambient \<Rightarrow> ambient_state \<Rightarrow> access list"
  and bundle_field_access :: "'v component_trait \<Rightarrow> 'v world \<Rightarrow> ambient list \<Rightarrow> ambient_state list \<Rightarrow> access list" where
  "bundle_access ct W (Field p) (FieldS s) = sp_access (sp_impl ct p) W s"
| "bundle_access ct W (Nested bs) (NestedS ss) = bundle_field_access ct W bs ss"
| "bundle_access ct W _ _ = []"
| "bundle_field_access ct W (b # bs) (s # ss) = bundle_access ct W b s @ bundle_field_access ct W bs ss"
| "bundle_field_access ct W _ _ = []"

datatype 'v ambient_item = FieldItem "'v param_item" | BundleItem "'v ambient_item list"

fun bundle_fetch :: "'v component_trait \<Rightarrow> 'v world \<Rightarrow> ambient \<Rightarrow> ambient_state \<Rightarrow> 'v ambient_item option"
  and bundle_field_fetch :: "'v component_trait \<Rightarrow> 'v world \<Rightarrow> ambient list \<Rightarrow> ambient_state list \<Rightarrow> 'v ambient_item list option" where
  "bundle_fetch ct W (Field p) (FieldS s) = map_option FieldItem (sp_fetch ct p W s)"
| "bundle_fetch ct W (Nested bs) (NestedS ss) = map_option BundleItem (bundle_field_fetch ct W bs ss)"
| "bundle_fetch ct W _ _ = None"
| "bundle_field_fetch ct W (b # bs) (s # ss) = Option.bind (bundle_fetch ct W b s)
     (\<lambda>i. map_option (Cons i) (bundle_field_fetch ct W bs ss))"
| "bundle_field_fetch ct W _ _ = Some []"

lemma first_some_cong [fundef_cong]:
  "xs = ys \<Longrightarrow> (\<And>x. x \<in> set ys \<Longrightarrow> f x = g x) \<Longrightarrow> first_some f xs = first_some g ys"
  by (induction xs arbitrary: ys) (auto split: option.split)

text \<open>What the generated implementation forwards from its fields at registration.\<close>

fun bundle_always_run :: "'v component_trait \<Rightarrow> ambient \<Rightarrow> bool" where
  "bundle_always_run ct (Field p) = sp_always_run (sp_impl ct p)"
| "bundle_always_run ct (Nested bs) = list_ex (bundle_always_run ct) bs"

fun bundle_validate :: "'v component_trait \<Rightarrow> ambient \<Rightarrow> binding_error option" where
  "bundle_validate ct (Field p) = sp_validate_local (sp_impl ct p)"
| "bundle_validate ct (Nested bs) = first_some (bundle_validate ct) bs"

fun bundle_view_sets :: "'v component_trait \<Rightarrow> ambient \<Rightarrow> type_id list list" where
  "bundle_view_sets ct (Field p) = sp_view_sets (sp_impl ct p)"
| "bundle_view_sets ct (Nested bs) = concat (map (bundle_view_sets ct) bs)"

fun bundle_outputs :: "'v component_trait \<Rightarrow> ambient \<Rightarrow> type_id list option" where
  "bundle_outputs ct (Field p) = sp_outputs (sp_impl ct p)"
| "bundle_outputs ct (Nested bs) = concat_opt (map (bundle_outputs ct) bs)"

fun bundle_interest :: "'v component_trait \<Rightarrow> ambient \<Rightarrow> type_id list option" where
  "bundle_interest ct (Field p) = sp_interest (sp_impl ct p)"
| "bundle_interest ct (Nested bs) = concat_opt (map (bundle_interest ct) bs)"

text \<open>What it does not forward keeps the default body of the trait.\<close>

definition default_methods :: "'v param_methods" where
  "default_methods = system_param_trait (\<lambda>W. []) (\<lambda>s. []) (\<lambda>W s. Some []) (\<lambda>W s. [])"

fun bundle_default :: "('v param_methods \<Rightarrow> 'a) \<Rightarrow> 'v component_trait \<Rightarrow> ambient \<Rightarrow> 'a" where
  "bundle_default method ct (Field p) = method (sp_impl ct p)"
| "bundle_default method ct (Nested bs) = method default_methods"

section \<open>A bundle is its fields\<close>

fun leaves :: "ambient \<Rightarrow> system_param list" where
  "leaves (Field p) = [p]"
| "leaves (Nested bs) = concat (map leaves bs)"

fun leaf_states :: "ambient_state \<Rightarrow> pstate list" where
  "leaf_states (FieldS s) = [s]"
| "leaf_states (NestedS ss) = concat (map leaf_states ss)"

fun leaf_items :: "'v ambient_item \<Rightarrow> 'v param_item list" where
  "leaf_items (FieldItem i) = [i]"
| "leaf_items (BundleItem is) = concat (map leaf_items is)"

text \<open>A state of the bundle's shape.\<close>

fun state_fits :: "ambient \<Rightarrow> ambient_state \<Rightarrow> bool"
  and states_fit :: "ambient list \<Rightarrow> ambient_state list \<Rightarrow> bool" where
  "state_fits (Field p) (FieldS s) = True"
| "state_fits (Nested bs) (NestedS ss) = states_fit bs ss"
| "state_fits _ _ = False"
| "states_fit [] [] = True"
| "states_fit (b # bs) (s # ss) = (state_fits b s \<and> states_fit bs ss)"
| "states_fit _ _ = False"

definition single_state :: "'v component_trait \<Rightarrow> 'v world \<Rightarrow> system_param \<Rightarrow> bool" where
  "single_state ct W p \<longleftrightarrow> length (sp_states (sp_impl ct p) W) = 1"

lemma bundle_states_single:
  "bundle_states ct b W = Some ss \<Longrightarrow> length ss = 1 \<Longrightarrow>
     list_all (single_state ct W) (leaves b) \<and> state_fits b (hd ss)
     \<and> leaf_states (hd ss) = map (\<lambda>p. hd (sp_states (sp_impl ct p) W)) (leaves b)"
  "bundle_field_states ct bs W = Some ss \<Longrightarrow>
     list_all (single_state ct W) (concat (map leaves bs)) \<and> states_fit bs ss
     \<and> concat (map leaf_states ss) = map (\<lambda>p. hd (sp_states (sp_impl ct p) W)) (concat (map leaves bs))"
proof (induction ct b W and ct bs W arbitrary: ss and ss rule: bundle_states_bundle_field_states.induct)
  case (1 ct p W)
  then show ?case by (cases "sp_states (sp_impl ct p) W") (auto simp: single_state_def)
next
  case (4 ct b bs W)
  then show ?case by (fastforce split: option.splits list.splits)
qed auto

lemma bundle_states_total:
  "list_all (single_state ct W) (leaves b) \<Longrightarrow> \<exists>s. bundle_states ct b W = Some [s]"
  "list_all (single_state ct W) (concat (map leaves bs)) \<Longrightarrow> \<exists>ss. bundle_field_states ct bs W = Some ss"
proof (induction ct b W and ct bs W rule: bundle_states_bundle_field_states.induct)
  case (1 ct p W)
  then show ?case by (auto simp: single_state_def length_Suc_conv)
next
  case (4 ct b bs W)
  then show ?case by fastforce
qed auto

text \<open>A bundle panics exactly when one of its fields has no state or several.\<close>

lemma bundle_panics_iff:
  "bundle_states ct (Nested bs) W = None \<longleftrightarrow> \<not> list_all (single_state ct W) (leaves (Nested bs))"
proof
  assume "bundle_states ct (Nested bs) W = None"
  then show "\<not> list_all (single_state ct W) (leaves (Nested bs))" using bundle_states_total(1) by fastforce
next
  assume no: "\<not> list_all (single_state ct W) (leaves (Nested bs))"
  show "bundle_states ct (Nested bs) W = None"
  proof (rule ccontr)
    assume "bundle_states ct (Nested bs) W \<noteq> None"
    then obtain s where "bundle_states ct (Nested bs) W = Some [s]" by auto
    then show False using no bundle_states_single(1) by fastforce
  qed
qed

lemma fits_length:
  "state_fits b s \<Longrightarrow> length (leaf_states s) = length (leaves b)"
  "states_fit bs ss \<Longrightarrow> length (concat (map leaf_states ss)) = length (concat (map leaves bs))"
  by (induction b s and bs ss rule: state_fits_states_fit.induct) simp_all

lemma concat_opt_append:
  "concat_opt (xs @ ys) = Option.bind (concat_opt xs) (\<lambda>a. map_option (append a) (concat_opt ys))"
  by (induction xs) (cases "concat_opt ys"; auto split: option.splits bind_splits)+

lemma concat_opt_single: "concat_opt [x] = x"
  by (cases x) simp_all

lemma concat_opt_concat:
  "concat_opt (map (\<lambda>b. concat_opt (map f (g b))) bs) = concat_opt (map f (concat (map g bs)))"
  by (induction bs) (auto simp: concat_opt_append split: option.split)

lemma first_some_append: "first_some f (xs @ ys) = (case first_some f xs of Some y \<Rightarrow> Some y | None \<Rightarrow> first_some f ys)"
  by (induction xs) (auto split: option.split)

lemma first_some_concat: "first_some (\<lambda>b. first_some f (g b)) bs = first_some f (concat (map g bs))"
  by (induction bs) (auto simp: first_some_append split: option.split)

lemma zip_append_fits:
  "state_fits b s \<Longrightarrow> zip (leaves b @ ps) (leaf_states s @ ss) = zip (leaves b) (leaf_states s) @ zip ps ss"
  "state_fits b s \<Longrightarrow> zip (map f (leaves b) @ qs) (leaf_states s @ ss) = zip (map f (leaves b)) (leaf_states s) @ zip qs ss"
  using fits_length(1) by (simp_all add: zip_append)

text \<open>Row by row.\<close>

lemma bundle_keys_leaves:
  "state_fits b s \<Longrightarrow> bundle_keys ct b s = tuple_keys (map (sp_impl ct) (leaves b)) (leaf_states s)"
  "states_fit bs ss \<Longrightarrow> bundle_field_keys ct bs ss
     = tuple_keys (map (sp_impl ct) (concat (map leaves bs))) (concat (map leaf_states ss))"
  by (induction b s and bs ss rule: state_fits_states_fit.induct)
    (simp_all add: tuple_keys_def zip_append_fits)

lemma bundle_access_leaves:
  "state_fits b s \<Longrightarrow> bundle_access ct W b s = tuple_access (map (sp_impl ct) (leaves b)) W (leaf_states s)"
  "states_fit bs ss \<Longrightarrow> bundle_field_access ct W bs ss
     = tuple_access (map (sp_impl ct) (concat (map leaves bs))) W (concat (map leaf_states ss))"
  by (induction b s and bs ss rule: state_fits_states_fit.induct)
    (simp_all add: tuple_access_def zip_append_fits)

lemma bundle_deps_leaves:
  "state_fits b s \<Longrightarrow> bundle_deps ct W b s = tuple_deps (map (sp_impl ct) (leaves b)) W (leaf_states s)"
  "states_fit bs ss \<Longrightarrow> bundle_field_deps ct W bs ss
     = tuple_deps (map (sp_impl ct) (concat (map leaves bs))) W (concat (map leaf_states ss))"
  by (induction b s and bs ss rule: state_fits_states_fit.induct)
    (simp_all add: tuple_deps_def zip_append_fits concat_opt_append concat_opt_single del: concat_opt.simps(2))

lemma bundle_fetch_leaves:
  "state_fits b s \<Longrightarrow> map_option leaf_items (bundle_fetch ct W b s) = tuple_fetch ct (leaves b) W (leaf_states s)"
  "states_fit bs ss \<Longrightarrow> map_option (\<lambda>is. concat (map leaf_items is)) (bundle_field_fetch ct W bs ss)
     = tuple_fetch ct (concat (map leaves bs)) W (concat (map leaf_states ss))"
proof (induction b s and bs ss rule: state_fits_states_fit.induct)
  case (5 b bs s ss)
  then have b: "map_option leaf_items (bundle_fetch ct W b s) = tuple_fetch ct (leaves b) W (leaf_states s)"
    and bs: "map_option (\<lambda>is. concat (map leaf_items is)) (bundle_field_fetch ct W bs ss)
      = tuple_fetch ct (concat (map leaves bs)) W (concat (map leaf_states ss))" and fits: "state_fits b s"
    by simp_all
  have "tuple_fetch ct (concat (map leaves (b # bs))) W (concat (map leaf_states (s # ss)))
      = Option.bind (tuple_fetch ct (leaves b) W (leaf_states s))
          (\<lambda>a. map_option (append a) (tuple_fetch ct (concat (map leaves bs)) W (concat (map leaf_states ss))))"
    by (simp add: tuple_fetch_def all_opt_def zip_append_fits [OF fits] concat_opt_append)
  then show ?case unfolding b [symmetric] bs [symmetric]
    by (cases "bundle_fetch ct W b s") (simp_all add: option.map_comp comp_def)
qed (simp_all add: tuple_fetch_def all_opt_def concat_opt_single option.map_comp comp_def del: concat_opt.simps(2))

text \<open>What is forwarded at registration.\<close>

lemma concat_map_concat: "concat (map (\<lambda>x. concat (h x)) xs) = concat (concat (map h xs))"
  by (induction xs) simp_all

lemma bundle_forwards:
  "bundle_always_run ct b = tuple_always_run (map (sp_impl ct) (leaves b))"
  "bundle_validate ct b = first_some sp_validate_local (map (sp_impl ct) (leaves b))"
  "bundle_view_sets ct b = tuple_view_sets (map (sp_impl ct) (leaves b))"
  "bundle_outputs ct b = tuple_outputs (map (sp_impl ct) (leaves b))"
  "bundle_interest ct b = tuple_interest (map (sp_impl ct) (leaves b))"
proof -
  show "bundle_always_run ct b = tuple_always_run (map (sp_impl ct) (leaves b))"
    by (induction b) (auto simp: tuple_always_run_def list_ex_iff)
  have step: "bundle_validate ct b = first_some (\<lambda>p. sp_validate_local (sp_impl ct p)) (leaves b)"
    by (induction b) (auto simp flip: first_some_concat cong: first_some_cong split: option.split)
  have "first_some (\<lambda>p. f (g p)) ps = first_some f (map g ps)" for f :: "'v param_methods \<Rightarrow> binding_error option" and g :: "system_param \<Rightarrow> 'v param_methods" and ps
    by (induction ps) (auto split: option.split)
  with step show "bundle_validate ct b = first_some sp_validate_local (map (sp_impl ct) (leaves b))" by simp
  show "bundle_view_sets ct b = tuple_view_sets (map (sp_impl ct) (leaves b))"
    by (induction b) (simp_all add: tuple_view_sets_def map_concat comp_def concat_map_concat cong: map_cong)
  show "bundle_outputs ct b = tuple_outputs (map (sp_impl ct) (leaves b))"
    by (induction b) (auto simp: tuple_outputs_def concat_opt_single comp_def simp flip: concat_opt_concat
      simp del: concat_opt.simps(2) cong: map_cong)
  show "bundle_interest ct b = tuple_interest (map (sp_impl ct) (leaves b))"
    by (induction b) (auto simp: tuple_interest_def concat_opt_single comp_def simp flip: concat_opt_concat
      simp del: concat_opt.simps(2) cong: map_cong)
qed

section \<open>Ambient fields\<close>

fun ambient_param :: "system_param \<Rightarrow> bool" where
  "ambient_param (QueryP _ _) = False"
| "ambient_param (OuterP _ _) = False"
| "ambient_param (ViewP _ _) = True"
| "ambient_param (TrackedViewP _ _) = True"
| "ambient_param (CommandsP _) = True"
| "ambient_param WorldMetaP = True"

lemma ambient_methods:
  assumes "ambient_param p"
  shows "sp_states (sp_impl ct p) W = [UnitS]" and "\<not> sp_pair_expandable (sp_impl ct p)"
    and "sp_bound_key_types (sp_impl ct p) = []" and "sp_in_key_types (sp_impl ct p) = []"
  using assms by (cases p; simp add: view_sp_def tracked_view_sp_def commands_sp_def world_meta_sp_def system_param_trait_def)+

lemma ambient_single: "ambient_param p \<Longrightarrow> single_state ct W p"
  by (simp add: single_state_def ambient_methods)

lemma ambient_all_single: "list_all ambient_param ps \<Longrightarrow> list_all (single_state ct W) ps"
  by (auto simp: list_all_iff ambient_single)

lemma ambient_heads:
  "list_all ambient_param ps \<Longrightarrow> map (\<lambda>p. hd (sp_states (sp_impl ct p) W)) ps = replicate (length ps) UnitS"
  by (induction ps) (simp_all add: ambient_methods)

lemma ambient_product:
  "list_all ambient_param ps \<Longrightarrow>
     for_each_state W picked (map (\<lambda>p. (sp_impl ct p, own_states W (sp_impl ct p))) ps)
       = Some [map snd picked @ replicate (length ps) UnitS]"
  by (induction ps arbitrary: picked)
    (simp_all add: own_states_def ambient_methods bound_rows_def binding_of_def)

lemma ambient_states:
  assumes "list_all ambient_param ps"
  shows "tuple_states (map (sp_impl ct) ps) W = Some [replicate (length ps) UnitS]"
proof -
  have "\<not> needs_prune (map (sp_impl ct) ps)"
    using assms by (auto simp: needs_prune_def list_ex_iff list_all_iff ambient_methods)
  then show ?thesis using ambient_product [OF assms, of W "[]" ct] by (simp add: tuple_states_def comp_def)
qed

lemma ambient_bindings:
  assumes "list_all ambient_param ps"
  shows "bound_types (map (sp_impl ct) ps) = []"
  using assms by (auto simp: bound_types_def list_all_length ambient_methods)

text \<open>
  What is lost: a bundle declares nothing of the stores its views read and of those its tracked
  views watch, so neither a stale view nor a write to a watched store is noticed behind it.
\<close>

lemma bundle_hides_views:
  "bundle_default sp_view_freshness ct (Nested bs) = []"
  "bundle_default sp_tracked_stores ct (Nested bs) = []"
  by (simp_all add: default_methods_def system_param_trait_def)

lemma ambient_written:
  assumes "list_all ambient_param (leaves b)"
  shows "bundle_default sp_written ct b = tuple_written (map (sp_impl ct) (leaves b))"
proof -
  have none: "sp_written (sp_impl ct p) = []" if "ambient_param p" for p
    using that by (cases p) (simp_all add: sp_impl_defs)
  then have "concat (map sp_written (map (sp_impl ct) (leaves b))) = []" using assms by (auto simp: list_all_iff)
  then show ?thesis by (cases b) (simp_all add: tuple_written_def default_methods_def system_param_trait_def)
qed

text \<open>
  C18. What a parameter bundle shares with its fields, and what it drops.  For every bundle of
  ambient parameters, bundles within bundles included, the generated parameter has exactly one
  state, and with it plans, records and locks as the fields listed one by one in a signature do:
  the product of the fields' states is that one state, its keys, dependencies and accesses are
  theirs, the callback is handed the same items, and the registration sees the same interest,
  outputs, view sets, written types, liveness and validation errors.  Three declarations are not
  forwarded: whatever its fields are, a bundle has no stores whose freshness its views need and no
  stores its tracked views watch, and it is opaque to delta planning.
\<close>

theorem bundle_is_its_fields:
  assumes "list_all ambient_param (leaves b)"
  shows "(\<exists>s. bundle_states ct b W = Some [s]
        \<and> tuple_states (map (sp_impl ct) (leaves b)) W = Some [leaf_states s]
        \<and> bundle_keys ct b s = tuple_keys (map (sp_impl ct) (leaves b)) (leaf_states s)
        \<and> bundle_deps ct W b s = tuple_deps (map (sp_impl ct) (leaves b)) W (leaf_states s)
        \<and> bundle_access ct W b s = tuple_access (map (sp_impl ct) (leaves b)) W (leaf_states s)
        \<and> map_option leaf_items (bundle_fetch ct W b s) = tuple_fetch ct (leaves b) W (leaf_states s))
    \<and> bundle_interest ct b = tuple_interest (map (sp_impl ct) (leaves b))
    \<and> bundle_outputs ct b = tuple_outputs (map (sp_impl ct) (leaves b))
    \<and> bundle_view_sets ct b = tuple_view_sets (map (sp_impl ct) (leaves b))
    \<and> bundle_always_run ct b = tuple_always_run (map (sp_impl ct) (leaves b))
    \<and> bundle_validate ct b = validate_bindings (map (sp_impl ct) (leaves b))
    \<and> bundle_default sp_written ct b = tuple_written (map (sp_impl ct) (leaves b))
    \<and> (\<forall>bs. b = Nested bs \<longrightarrow> bundle_default sp_view_freshness ct b = [] \<and> bundle_default sp_tracked_stores ct b = []
        \<and> bundle_default sp_delta_shape ct b = OpaqueShape)"
proof -
  obtain s where s: "bundle_states ct b W = Some [s]" using bundle_states_total(1) [OF ambient_all_single [OF assms]] by blast
  from bundle_states_single(1) [OF s] have fits: "state_fits b s"
    and "leaf_states s = map (\<lambda>p. hd (sp_states (sp_impl ct p) W)) (leaves b)" by simp_all
  with assms have "tuple_states (map (sp_impl ct) (leaves b)) W = Some [leaf_states s]"
    by (simp add: ambient_states ambient_heads)
  moreover have "bundle_validate ct b = validate_bindings (map (sp_impl ct) (leaves b))"
    by (simp add: bundle_forwards validate_bindings_def ambient_bindings [OF assms] split: option.split)
  moreover have "bundle_default sp_written ct b = tuple_written (map (sp_impl ct) (leaves b))"
    using assms by (rule ambient_written)
  moreover have "b = Nested bs \<longrightarrow> bundle_default sp_view_freshness ct b = [] \<and> bundle_default sp_tracked_stores ct b = []
      \<and> bundle_default sp_delta_shape ct b = OpaqueShape" for bs
    by (simp add: default_methods_def system_param_trait_def)
  ultimately show ?thesis
    using s bundle_keys_leaves(1) [OF fits] bundle_deps_leaves(1) [OF fits] bundle_access_leaves(1) [OF fits]
      bundle_fetch_leaves(1) [OF fits] bundle_forwards by blast
qed

text \<open>The fields do declare what a bundle of them drops.\<close>

lemma fields_show_views:
  "sp_view_freshness (sp_impl ct (ViewP (RefParam ty) NoFilter)) = [ty]"
  "sp_tracked_stores (sp_impl ct (TrackedViewP (RefParam ty) NoFilter)) = [ty]"
  by (simp_all add: view_sp_def tracked_view_sp_def tracked_view_types_def ref_param_def no_filter_def
    query_param_trait_def query_filter_trait_def system_param_trait_def access_read_all_def)

section \<open>Witnesses\<close>

text \<open>A view of component 0, and a bundle of a command declaration and a tracked view of component 3.\<close>

definition demo_bundle :: ambient where
  "demo_bundle = Nested [Field (ViewP (RefParam (UserTy 0)) NoFilter),
     Nested [Field (CommandsP (Some [UserTy 1])), Field (TrackedViewP (RefParam (UserTy 3)) NoFilter)]]"

theorem bundle_is_its_fields_witness:
  "bundle_states demo_trait demo_bundle rows_world = Some [NestedS [FieldS UnitS, NestedS [FieldS UnitS, FieldS UnitS]]]
    \<and> bundle_deps demo_trait rows_world demo_bundle (NestedS [FieldS UnitS, NestedS [FieldS UnitS, FieldS UnitS]])
        = Some [store_watermark_dep rows_world (UserTy 3)]
    \<and> bundle_interest demo_trait demo_bundle = Some [UserTy 3]
    \<and> bundle_validate demo_trait demo_bundle = None"
proof -
  have "list_all ambient_param (leaves demo_bundle)" by (simp add: demo_bundle_def)
  note eq = bundle_is_its_fields [OF this, of demo_trait rows_world]
  have st: "bundle_states demo_trait demo_bundle rows_world = Some [NestedS [FieldS UnitS, NestedS [FieldS UnitS, FieldS UnitS]]]"
    unfolding demo_bundle_def by (simp add: ambient_methods del: sp_impl.simps)
  have "tuple_deps (map (sp_impl demo_trait) (leaves demo_bundle)) rows_world [UnitS, UnitS, UnitS]
      = Some [store_watermark_dep rows_world (UserTy 3)]"
    and "tuple_interest (map (sp_impl demo_trait) (leaves demo_bundle)) = Some [UserTy 3]"
    and "validate_bindings (map (sp_impl demo_trait) (leaves demo_bundle)) = None"
    unfolding rows_world_def by code_simp+
  then show ?thesis using eq st by auto
qed

end
