(* ===== verification/Macro_Props.thy ===== *)
theory Macro_Props
  imports Macros Declarations
begin

text \<open>
  The derive macros read back what a declaration writes: attributes, schema shapes and the names
  derived from them.  Declarations are printed as token lists; the scanners of Macros are run on
  the printed form.
\<close>

section \<open>Attributes\<close>

definition attribute_tokens :: "token list list \<Rightarrow> token list" where
  "attribute_tokens attributes = concat (map (\<lambda>a. [Punct (CHR ''#''), Group Bracket a]) attributes)"

lemma no_attribute_contains: "Punct (CHR ''#'') \<notin> set ts \<Longrightarrow> \<not> component_attribute_contains ts needle"
  by (induction ts needle rule: component_attribute_contains.induct) auto

lemma no_attribute_value: "Punct (CHR ''#'') \<notin> set ts \<Longrightarrow> attribute_value gt ts attribute key = None"
  by (induction gt ts attribute key rule: attribute_value.induct) auto

text \<open>A flag is set exactly when one of the declaration's attributes carries it.\<close>

lemma component_flag_exact:
  assumes "Punct (CHR ''#'') \<notin> set decl"
  shows "component_attribute_contains (attribute_tokens attributes @ decl) needle
    = list_ex (\<lambda>a. attribute_contains_component_ident a needle) attributes"
  using assms by (induction attributes) (simp_all add: attribute_tokens_def no_attribute_contains)

definition attribute_entry :: "(delimiter \<Rightarrow> token list \<Rightarrow> string) \<Rightarrow> string \<Rightarrow> string \<Rightarrow> token list \<Rightarrow> string option" where
  "attribute_entry gt attribute key a = (case a of
     Ident name # Group Parenthesis args # _ \<Rightarrow> if name = attribute then argument_value gt key args else None
   | _ \<Rightarrow> None)"

text \<open>A value is that of the first attribute of the name that gives the key one.\<close>

lemma attribute_value_exact:
  assumes "Punct (CHR ''#'') \<notin> set decl"
  shows "attribute_value gt (attribute_tokens attributes @ decl) attribute key
    = first_some (attribute_entry gt attribute key) attributes"
  using assms
proof (induction attributes)
  case Nil
  then show ?case by (simp add: attribute_tokens_def no_attribute_value)
next
  case (Cons a attributes)
  then have "attribute_value gt (attribute_tokens attributes @ decl) attribute key
      = first_some (attribute_entry gt attribute key) attributes" by simp
  then show ?case
    by (auto simp: attribute_tokens_def attribute_entry_def [of gt attribute key a] split: list.split token.split delimiter.split option.split)
qed

section \<open>Names\<close>

lemma of_char_lowercase:
  assumes "is_uppercase c"
  shows "of_char (to_lowercase c) = (of_char c + 32 :: nat)"
  using assms by (simp add: to_lowercase_def is_uppercase_def)

lemma to_uppercase_lowercase: "is_uppercase c \<Longrightarrow> to_uppercase (to_lowercase c) = c"
  using of_char_lowercase [of c] by (simp add: to_uppercase_def is_lowercase_def is_uppercase_def)

lemma lowercase_no_separator:
  assumes "is_uppercase c"
  shows "to_lowercase c \<noteq> CHR ''_''"
proof
  assume "to_lowercase c = CHR ''_''"
  then have "of_char (to_lowercase c) = (95 :: nat)" by simp
  then show False using of_char_lowercase [OF assms] assms by (simp add: is_uppercase_def)
qed

definition join_parts :: "string \<Rightarrow> string \<Rightarrow> string" where
  "join_parts part s = concat (map capitalize (filter (\<lambda>p. p \<noteq> []) (split_parts part s)))"

lemma join_parts_simps [simp]:
  "join_parts part [] = capitalize part"
  "join_parts part (CHR ''_'' # s) = capitalize part @ join_parts [] s"
  "c \<noteq> CHR ''_'' \<Longrightarrow> join_parts part (c # s) = join_parts (part @ [c]) s"
  by (cases part; simp add: join_parts_def)+

lemma capitalize_snoc: "part \<noteq> [] \<Longrightarrow> capitalize (part @ [c]) = capitalize part @ [c]"
  by (cases part) simp_all

lemma join_snake: "CHR ''_'' \<notin> set s \<Longrightarrow> part \<noteq> [] \<Longrightarrow> join_parts part (snake_from (Suc i) s) = capitalize part @ s"
  by (induction s arbitrary: part i)
    (auto simp: lowercase_no_separator to_uppercase_lowercase capitalize_snoc)

text \<open>The companion module's name determines the schema's.\<close>

lemma pascal_of_snake:
  assumes "is_uppercase c" and "CHR ''_'' \<notin> set s"
  shows "pascal_case (snake_case (c # s)) = c # s"
  using assms join_snake [OF assms(2), of "[to_lowercase c]" 0]
  by (simp add: snake_case_def pascal_case_def lowercase_no_separator to_uppercase_lowercase flip: join_parts_def)

section \<open>Schemas\<close>

text \<open>
  A part is the tokens of its type, whose angle brackets balance and whose commas are within
  them.  \<open>angle\<close> is the depth behind a token list, \<open>None\<close> when a comma stands outside all
  brackets or a bracket is closed that was not opened.
\<close>

fun angle :: "nat \<Rightarrow> token list \<Rightarrow> nat option" where
  "angle depth [] = Some depth"
| "angle depth (t # ts) = (
     if is_comma t \<and> depth = 0 then None
     else if t = Punct (CHR ''<'') then angle (depth + 1) ts
     else if t = Punct (CHR ''>'') then (if depth = 0 then None else angle (depth - 1) ts)
     else angle depth ts)"

definition part_ok :: "(delimiter \<Rightarrow> token list \<Rightarrow> string) \<Rightarrow> token list \<times> bool \<Rightarrow> bool" where
  "part_ok gt part \<longleftrightarrow> angle 0 (fst part) = Some 0 \<and> tokens_text gt (fst part) \<noteq> []
     \<and> (\<not> snd part \<longrightarrow> classify_element (tokens_text gt (fst part)) = (tokens_text gt (fst part), False))"

definition part_tokens :: "token list \<times> bool \<Rightarrow> token list" where
  "part_tokens part = (if snd part then [Ident ''Option'', Punct (CHR ''<'')] @ fst part @ [Punct (CHR ''>'')] else fst part)"

text \<open>A list with commas between its elements and, as the writer likes, behind the last one.\<close>

fun separated :: "bool \<Rightarrow> token list list \<Rightarrow> token list" where
  "separated trailing [] = []"
| "separated trailing [x] = x @ (if trailing then [Punct (CHR '','')] else [])"
| "separated trailing (x # y # xs) = x @ Punct (CHR '','') # separated trailing (y # xs)"

definition shape_tokens :: "bool \<Rightarrow> (token list \<times> bool) list \<Rightarrow> token list" where
  "shape_tokens trailing parts = separated trailing (map part_tokens parts)"

text \<open>
  A field of the schema as it may be written: with attributes and documentation, with one of the
  three forms of visibility (\<open>pub(crate)\<close>, \<open>pub(super)\<close> and \<open>pub(in ..)\<close> are \<open>pub\<close> with
  a group), and with the tuple of its parts.
\<close>

datatype written_visibility = Private | Public | Restricted "token list"

fun visibility_tokens :: "written_visibility \<Rightarrow> token list" where
  "visibility_tokens Private = []"
| "visibility_tokens Public = [Ident ''pub'']"
| "visibility_tokens (Restricted scope) = [Ident ''pub'', Group Parenthesis scope]"

record written_field =
  wf_attributes :: "token list list"
  wf_visibility :: written_visibility
  wf_name :: string
  wf_parts :: "(token list \<times> bool) list"
  wf_trailing :: bool

definition field_tokens :: "written_field \<Rightarrow> token list" where
  "field_tokens f = attribute_tokens (wf_attributes f) @ visibility_tokens (wf_visibility f)
     @ [Ident (wf_name f), Punct (CHR '':''), Group Parenthesis (shape_tokens (wf_trailing f) (wf_parts f))]"

definition schema_tokens :: "token list \<Rightarrow> string \<Rightarrow> bool \<Rightarrow> written_field list \<Rightarrow> token list" where
  "schema_tokens before name trailing wfs =
     before @ [Ident ''struct'', Ident name, Group Brace (separated trailing (map field_tokens wfs))]"

text \<open>The fields the derive sees: all but those that are plainly \<open>pub\<close>.\<close>

definition seen_shapes :: "written_field list \<Rightarrow> (string \<times> (token list \<times> bool) list) list" where
  "seen_shapes wfs = map (\<lambda>f. (wf_name f, wf_parts f)) (filter (\<lambda>f. wf_visibility f \<noteq> Public) wfs)"

text \<open>What stands before the keyword: visibility and attributes.\<close>

definition before_ok :: "token list \<Rightarrow> bool" where
  "before_ok before \<longleftrightarrow> list_all (\<lambda>t. case t of Ident i \<Rightarrow> i \<noteq> ''struct'' \<and> i \<noteq> ''enum'' | Group Brace _ \<Rightarrow> False | _ \<Rightarrow> True) before"

definition read_shape :: "(delimiter \<Rightarrow> token list \<Rightarrow> string) \<Rightarrow> string \<times> (token list \<times> bool) list \<Rightarrow> string \<times> (string \<times> bool) list" where
  "read_shape gt shape = (fst shape, map (\<lambda>p. (tokens_text gt (fst p), snd p)) (snd shape))"

lemma tokens_text_simps [simp]:
  "tokens_text gt [] = []"
  "tokens_text gt (t # ts) = token_text gt t @ tokens_text gt ts"
  "tokens_text gt (ts @ us) = tokens_text gt ts @ tokens_text gt us"
  by (simp_all add: tokens_text_def)

lemma is_comma_simps [simp]:
  "is_comma (Punct c) = (c = CHR '','')" "\<not> is_comma (Ident i)"
  by (simp_all add: is_comma_def)

lemma split_elements_type:
  "angle depth ty = Some depth' \<Longrightarrow>
     split_elements gt (depth + k) current elements (ty @ rest) = split_elements gt (depth' + k) (current @ tokens_text gt ty) elements rest"
proof (induction depth ty arbitrary: current rule: angle.induct)
  case (2 depth t ts)
  then show ?case by (auto split: if_splits simp: add.commute)
qed simp

lemma split_elements_part:
  assumes "part_ok gt p"
  shows "split_elements gt 0 [] elements (part_tokens p @ Punct (CHR '','') # rest)
    = split_elements gt 0 [] (elements @ [tokens_text gt (part_tokens p)]) rest"
    and "split_elements gt 0 [] elements (part_tokens p) = elements @ [tokens_text gt (part_tokens p)]"
  using assms split_elements_type [of 0 "fst p" 0 gt 0 "[]" elements "Punct (CHR '','') # rest"]
    split_elements_type [of 0 "fst p" 0 gt 0 "[]" elements "[]", simplified]
    split_elements_type [of 0 "fst p" 0 gt 1 "''Option<''" elements "Punct (CHR ''>'') # Punct (CHR '','') # rest"]
    split_elements_type [of 0 "fst p" 0 gt 1 "''Option<''" elements "[Punct (CHR ''>'')]"]
  by (auto simp: part_ok_def part_tokens_def)

lemma split_elements_shape:
  "list_all (part_ok gt) parts \<Longrightarrow> split_elements gt 0 [] elements (shape_tokens trailing parts)
     = elements @ map (\<lambda>p. tokens_text gt (part_tokens p)) parts"
proof (induction parts arbitrary: elements rule: induct_list012)
  case (2 p)
  then show ?case
    using split_elements_part(1) [of gt p elements "[]"] split_elements_part(2) [of gt p elements] by (cases trailing) (simp_all add: shape_tokens_def)
next
  case (3 p q parts)
  then show ?case using split_elements_part(1) [of gt p elements] by (simp add: shape_tokens_def)
qed (simp add: shape_tokens_def)

lemma classify_part:
  assumes "part_ok gt p"
  shows "classify_element (tokens_text gt (part_tokens p)) = (tokens_text gt (fst p), snd p)"
  using assms
  by (cases p; cases "snd p") (auto simp: part_ok_def part_tokens_def classify_element_def strip_prefix_def strip_suffix_def suffix_def)

lemma shape_elements_roundtrip:
  "list_all (part_ok gt) parts \<Longrightarrow> shape_elements gt (shape_tokens trailing parts) = map (\<lambda>p. (tokens_text gt (fst p), snd p)) parts"
  by (simp add: shape_elements_def split_elements_shape) (simp add: list_all_iff classify_part)

lemma schema_fields_attributes: "schema_fields gt (attribute_tokens attributes @ ts) = schema_fields gt ts"
  by (induction attributes) (simp_all add: attribute_tokens_def)

lemma append_nil_fun: "(@) [] = (\<lambda>xs. xs)" "(@) [x] = (#) x"
  by (rule ext, simp)+

text \<open>One field: read with its shape, or passed over when it is plainly \<open>pub\<close>.\<close>

lemma schema_fields_field:
  assumes "list_all (part_ok gt) (wf_parts f)" and "ts = [] \<or> (\<exists>us. ts = Punct (CHR '','') # us)"
  shows "schema_fields gt (field_tokens f @ ts)
    = map_option ((@) (map (read_shape gt) (seen_shapes [f]))) (schema_fields gt (skip_comma ts))"
proof -
  have field: "schema_fields gt (Ident (wf_name f) # Punct (CHR '':'') # Group Parenthesis (shape_tokens (wf_trailing f) (wf_parts f)) # ts)
      = map_option (Cons (read_shape gt (wf_name f, wf_parts f))) (schema_fields gt (skip_comma ts))"
    by (simp add: read_shape_def shape_elements_roundtrip assms(1))
  show ?thesis
  proof (cases "wf_visibility f")
    case Public
    then show ?thesis using assms(2)
      by (auto simp: field_tokens_def schema_fields_attributes seen_shapes_def skip_comma_def option.map_ident append_nil_fun(1))
  next
    case Private
    have "schema_fields gt (field_tokens f @ ts) = schema_fields gt (Ident (wf_name f) # Punct (CHR '':'')
        # Group Parenthesis (shape_tokens (wf_trailing f) (wf_parts f)) # ts)"
      by (simp only: field_tokens_def schema_fields_attributes append_assoc Private visibility_tokens.simps append.simps)
    then show ?thesis unfolding field by (simp add: Private seen_shapes_def append_nil_fun)
  next
    case (Restricted scope)
    have "schema_fields gt (field_tokens f @ ts) = schema_fields gt (Ident (wf_name f) # Punct (CHR '':'')
        # Group Parenthesis (shape_tokens (wf_trailing f) (wf_parts f)) # ts)"
      by (simp only: field_tokens_def schema_fields_attributes append_assoc Restricted visibility_tokens.simps append.simps
          schema_fields.simps(2) [of gt "Ident ''pub''"] token.case list.case token.distinct simp_thms if_True)
    then show ?thesis unfolding field by (simp add: Restricted seen_shapes_def append_nil_fun)
  qed
qed

lemma schema_fields_roundtrip:
  "list_all (\<lambda>f. list_all (part_ok gt) (wf_parts f)) wfs \<Longrightarrow>
     schema_fields gt (separated trailing (map field_tokens wfs)) = Some (map (read_shape gt) (seen_shapes wfs))"
proof (induction wfs rule: induct_list012)
  case (2 f)
  then show ?case using schema_fields_field [of gt f "if trailing then [Punct (CHR '','')] else []"]
    by (cases trailing) (simp_all add: skip_comma_def)
next
  case (3 f g wfs)
  then have "schema_fields gt (field_tokens f @ Punct (CHR '','') # separated trailing (map field_tokens (g # wfs)))
      = map_option ((@) (map (read_shape gt) (seen_shapes [f]))) (schema_fields gt (separated trailing (map field_tokens (g # wfs))))"
    using schema_fields_field [of gt f "Punct (CHR '','') # separated trailing (map field_tokens (g # wfs))"]
    by (simp add: skip_comma_def)
  then show ?case using 3 by (simp add: seen_shapes_def)
qed (simp add: seen_shapes_def)

lemma declared_name_before: "before_ok before \<Longrightarrow> declared_name False (before @ ts) = declared_name False ts"
  by (induction before) (auto simp: before_ok_def split: token.splits)

lemma declaration_body_before: "before_ok before \<Longrightarrow> declaration_body (before @ ts) = declaration_body ts"
  by (induction before) (auto simp: before_ok_def split: token.splits delimiter.splits)

text \<open>Shapes a schema accepts, and the error for the first it does not.\<close>

definition shape_fits :: "string \<times> (token list \<times> bool) list \<Rightarrow> bool" where
  "shape_fits shape \<longleftrightarrow> snd shape \<noteq> [] \<and> length (snd shape) \<le> 12"

lemma first_error_none: "list_all shape_fits shapes \<Longrightarrow> first_shape_error (map (read_shape gt) shapes) = None"
  by (induction shapes) (auto simp: shape_fits_def read_shape_def shape_width_error_def shape_width_cap_def)

lemma first_error_skip:
  "list_all shape_fits ok \<Longrightarrow>
     first_shape_error (map (read_shape gt) (ok @ shapes)) = first_shape_error (map (read_shape gt) shapes)"
  by (induction ok) (auto simp: shape_fits_def read_shape_def shape_width_error_def shape_width_cap_def)

lemma first_error_empty: "parts = [] \<Longrightarrow> first_shape_error (read_shape gt (f, parts) # shapes) = Some EmptyShape"
  by (simp add: read_shape_def)

lemma first_error_wide:
  "length parts > 12 \<Longrightarrow> first_shape_error (read_shape gt (f, parts) # shapes) = Some (ShapeTooWide f (length parts))"
  by (auto simp: read_shape_def shape_width_error_def shape_width_cap_def)

text \<open>The parts of a shape by name.\<close>

definition part_types :: "(delimiter \<Rightarrow> token list \<Rightarrow> string) \<Rightarrow> (string \<Rightarrow> type_id) \<Rightarrow> bool \<Rightarrow> (token list \<times> bool) list \<Rightarrow> type_id list" where
  "part_types gt type_of opt parts = map (\<lambda>p. type_of (tokens_text gt (fst p))) (filter (\<lambda>p. snd p = opt) parts)"

lemma generated_shape_types:
  "map type_of (gs_required (generate_shape (read_shape gt (f, parts)))) = part_types gt type_of False parts"
  "map type_of (gs_optional (generate_shape (read_shape gt (f, parts)))) = part_types gt type_of True parts"
  by (simp_all add: generate_shape_def read_shape_def part_types_def filter_map comp_def case_prod_beta)


text \<open>
  The alias generated for a shape is the shape of a declaration, and its generated description
  describes it: writes through the alias conform to the schema (\<open>strict_writes_conform\<close>).
\<close>

definition alias_parts :: "(delimiter \<Rightarrow> token list \<Rightarrow> string) \<Rightarrow> (string \<Rightarrow> type_id) \<Rightarrow> (token list \<times> bool) list \<Rightarrow> output_decl list" where
  "alias_parts gt type_of parts = map (\<lambda>p. if snd p then Optionally (Comp (type_of (tokens_text gt (fst p))))
     else Comp (type_of (tokens_text gt (fst p)))) parts"

lemma alias_described:
  "list_all plain_part (alias_parts gt type_of parts)"
  "described_by (alias_parts gt type_of parts) \<lparr>sh_required = part_types gt type_of False parts, sh_optional = part_types gt type_of True parts\<rparr>"
  by (auto simp: alias_parts_def part_types_def list_all_iff plain_part_def described_by_def image_iff split: if_splits) force+

text \<open>A field that is \<open>pub\<close> is not read: its name is taken for the colon, and its shape is skipped.\<close>

theorem public_shape_dropped:
  "wf_visibility f = Public \<Longrightarrow> schema_fields gt (field_tokens f @ ts) = schema_fields gt ts"
  by (simp add: field_tokens_def schema_fields_attributes)

section \<open>Bundle fields\<close>

lemma take_type_angle:
  "angle depth ty = Some depth' \<Longrightarrow> take_type (int depth) (ty @ rest)
     = (ty @ fst (take_type (int depth') rest), snd (take_type (int depth') rest))"
proof (induction depth ty rule: angle.induct)
  case (2 depth t ts)
  show ?case
  proof (cases "t = Punct (CHR ''>'')")
    case True
    then have "0 < depth" "angle (depth - 1) ts = Some depth'" using 2(4) by (auto split: if_splits)
    moreover from this(1) have "int (depth - 1) = int depth - 1" by simp
    ultimately show ?thesis using 2(2) True by simp
  next
    case False
    then show ?thesis using 2 by (auto split: if_splits simp: add.commute)
  qed
qed simp

definition bundle_field_tokens :: "token list \<Rightarrow> bundle_field \<Rightarrow> token list" where
  "bundle_field_tokens before f = before @ [Ident (bf_name f), Punct (CHR '':'')] @ bf_type f @ [Punct (CHR '','')]"

definition bundle_field_ok :: "bundle_field \<Rightarrow> bool" where
  "bundle_field_ok f \<longleftrightarrow> bf_name f \<noteq> ''pub'' \<and> bf_type f \<noteq> [] \<and> angle 0 (bf_type f) = Some 0"

lemma parse_field:
  assumes "skip_field_prefix (before @ Ident (bf_name f) # ts) = Ident (bf_name f) # ts" and "bundle_field_ok f"
    and "ts = Punct (CHR '':'') # bf_type f @ Punct (CHR '','') # rest"
  shows "parse_fields (before @ Ident (bf_name f) # ts) = map_sum id (Cons f) (parse_fields rest)"
proof -
  have "take_type 0 (bf_type f @ Punct (CHR '','') # rest) = (bf_type f, rest)"
    using take_type_angle [of 0 "bf_type f" 0 "Punct (CHR '','') # rest"] assms(2) by (simp add: bundle_field_ok_def)
  then show ?thesis using assms by (cases f, subst parse_fields.simps) (simp add: bundle_field_ok_def del: parse_fields.simps)
qed

text \<open>Fields are read back as written, whether they are private, \<open>pub\<close> or \<open>pub(crate)\<close>.\<close>

definition visibilities :: "token list set" where
  "visibilities = {[], [Ident ''pub''], [Ident ''pub'', Group Parenthesis [Ident ''crate'']]}"

lemma skip_visibility:
  assumes "before \<in> visibilities" and "name \<noteq> ''pub''"
  shows "skip_field_prefix (before @ Ident name # ts) = Ident name # ts"
  using assms by (auto simp: visibilities_def)

theorem bundle_fields_roundtrip:
  "list_all (\<lambda>(before, f). before \<in> visibilities \<and> bundle_field_ok f) fs \<Longrightarrow>
     parse_fields (concat (map (\<lambda>(before, f). bundle_field_tokens before f) fs)) = Inr (map snd fs)"
proof (induction fs)
  case Nil
  show ?case by (simp add: parse_fields.simps)
next
  case (Cons p fs)
  obtain before f where p: "p = (before, f)" by (cases p)
  with Cons.prems have ok: "before \<in> visibilities" "bundle_field_ok f" by simp_all
  then have "skip_field_prefix (before @ Ident (bf_name f) # ts) = Ident (bf_name f) # ts" for ts
    by (simp add: skip_visibility bundle_field_ok_def)
  from parse_field [OF this ok(2) refl] show ?case
    using Cons p by (simp add: bundle_field_tokens_def del: parse_fields.simps)
qed

text \<open>The arrow of a function type counts as a closing bracket, and the comma behind it as part of the type.\<close>

theorem arrow_swallows_field:
  "parse_fields [Ident ''f'', Punct (CHR '':''), Ident ''fn'', Group Parenthesis [], Punct (CHR ''-''), Punct (CHR ''>''), Ident ''X'',
       Punct (CHR '',''), Ident ''g'', Punct (CHR '':''), Ident ''Y'']
    = Inr [\<lparr>bf_name = ''f'', bf_type = [Ident ''fn'', Group Parenthesis [], Punct (CHR ''-''), Punct (CHR ''>''), Ident ''X'',
       Punct (CHR '',''), Ident ''g'', Punct (CHR '':''), Ident ''Y'']\<rparr>]"
  by code_simp

section \<open>Witnesses\<close>

text \<open>A shape of two required parts, one of them generic, and an optional one.\<close>

definition demo_fields :: "written_field list" where
  "demo_fields = [\<lparr>wf_attributes = [[Ident ''doc'', Punct (CHR ''=''), Literal ''x'']], wf_visibility = Private, wf_name = ''lookup'',
      wf_parts = [([Ident ''Span''], False),
        ([Ident ''Table'', Punct (CHR ''<''), Ident ''Key'', Punct (CHR '',''), Ident ''Row'', Punct (CHR ''>'')], False),
        ([Ident ''Note''], True)], wf_trailing = False\<rparr>,
    \<lparr>wf_attributes = [], wf_visibility = Public, wf_name = ''hidden'', wf_parts = [([Ident ''Span''], False)], wf_trailing = True\<rparr>,
    \<lparr>wf_attributes = [], wf_visibility = Restricted [Ident ''crate''], wf_name = ''note'', wf_parts = [([Ident ''Note''], False)], wf_trailing = True\<rparr>]"


end
