(* ===== verification/Phases.thy ===== *)
theory Phases
  imports Engine
begin

text \<open>
  The driver of a generation (bowl.rs, \<open>ensure_evaluated\<close>, \<open>run_evaluation\<close> and
  \<open>run_phase_streaming\<close>): the order of the phases with restarts after preemption, and one phase
  from its first planning wave until nothing is in flight.

  A turn of the driver is what it does between two points where other callers may take the state
  lock; what the code keeps in local variables is a record with a program point.  A planning wave
  over its snapshot is one turn, and so is the execution of the rows that a turn receives: which
  rows have finished, and in which order they arrive, is an argument.  Worker batches only group
  rows, so the queues of rows in flight are flat.  A panic is \<open>None\<close>.
\<close>

section \<open>Results\<close>

definition preemption_budget :: nat where
  "preemption_budget = 4"

datatype phase_outcome = Completed bool | Preempted bool

datatype 'v run_event = FinishedRows "'v queued_run list" | Drained | PreemptEvent

section \<open>A phase in progress\<close>

text \<open>
  Where the driver stands.  \<open>Committing\<close> holds the batch and, for the batch awaited after a
  planning wave, whether a commit asked for another one or found its run stale; the first flag
  says that the batch was awaited by a wave that had nothing to plan.
\<close>

datatype 'v phase_point =
    AtTop
  | Checking
  | Lending "'v world" "out_pair list" "64 word"
  | Planning "'v world" "out_pair list" "64 word" "'v pool"
  | Awaiting bool
  | Committing bool "(run_id \<times> 'v system_run) list" bool bool
  | Draining
  | Opening
  | InWindow
  | Closing
  | Ended phase_outcome

record 'v phase_run =
  pr_phase :: phase
  pr_allow :: bool
  pr_budget :: commit_budget
  pr_changed :: bool
  pr_access :: reservations
  pr_readers :: "'v queued_run list"
  pr_writers :: "'v queued_run list"
  pr_needs_plan :: bool
  pr_deferred :: bool
  pr_point :: "'v phase_point"

definition preempts :: "bool \<Rightarrow> 'v engine \<Rightarrow> bool" where
  "preempts allow E \<longleftrightarrow> allow \<and> eg_preempt_waiters E > 0"

text \<open>A phase without systems keeps its boundary and needs no reservations.\<close>

definition phase_begin :: "phase \<Rightarrow> bool \<Rightarrow> commit_budget \<Rightarrow> 'v engine \<Rightarrow> 'v phase_run" where
  "phase_begin ph allow budget E =
     (let p = \<lparr>pr_phase = ph, pr_allow = allow, pr_budget = budget, pr_changed = False, pr_access = reservations_new [],
            pr_readers = [], pr_writers = [], pr_needs_plan = True, pr_deferred = False, pr_point = AtTop\<rparr>
      in if and (eg_phases E) (phase_bit ph) = 0
         then p\<lparr>pr_point := if preempts allow E then Opening else Ended (Completed False)\<rparr>
         else p\<lparr>pr_access := reservations_new (registry (w_stores (st_world (eg_state E))))\<rparr>)"

section \<open>Planning waves\<close>

definition phase_top :: "'v phase_run \<Rightarrow> 'v engine \<Rightarrow> 'v phase_run option" where
  "phase_top p E = (if preempts (pr_allow p) E
     then map_option (\<lambda>r. p\<lparr>pr_readers := [], pr_access := r, pr_point := Draining\<rparr>) (cancel_readers (pr_access p))
     else if pr_needs_plan p then Some (p\<lparr>pr_deferred := False, pr_point := Checking\<rparr>)
     else Some (p\<lparr>pr_point := Awaiting False\<rparr>))"

definition plan_log :: "'v world \<Rightarrow> out_pair list \<times> 64 word" where
  "plan_log W = (w_log W, w_plan_epoch W)"

definition phase_ready :: "phase \<Rightarrow> 'v state \<Rightarrow> bool" where
  "phase_ready ph st \<longleftrightarrow> list_ex (\<lambda>s. bs_phase s = ph \<and> peek_needs_planning (st_world st) s) (st_systems st)"

definition phase_check :: "'v phase_run \<Rightarrow> 'v engine \<Rightarrow> ('v phase_run \<times> 'v engine) option" where
  "phase_check p E = (if phase_ready (pr_phase p) (eg_state E)
     then map_option (\<lambda>(W, st). let (log, epoch) = plan_log (st_world st)
         in (p\<lparr>pr_point := Lending W log epoch\<rparr>, E\<lparr>eg_state := st\<rparr>)) (snapshot_locked (eg_state E))
     else Some (p\<lparr>pr_point := Awaiting True\<rparr>, E))"

definition phase_lend :: "'v world \<Rightarrow> out_pair list \<Rightarrow> 64 word \<Rightarrow> 'v phase_run \<Rightarrow> 'v engine \<Rightarrow> 'v phase_run \<times> 'v engine" where
  "phase_lend W log epoch p E =
     (p\<lparr>pr_point := Planning W log epoch (case st_planning_storage (eg_state E) of None \<Rightarrow> pool_default | Some P \<Rightarrow> P)\<rparr>,
      on_state (\<lambda>st. st\<lparr>st_planning_storage := None\<rparr>) E)"

definition phase_plan :: "nat option \<Rightarrow> nat \<Rightarrow> 'v world \<Rightarrow> out_pair list \<Rightarrow> 64 word \<Rightarrow> 'v pool \<Rightarrow> 'v phase_run \<Rightarrow> 'v engine \<Rightarrow>
    ('v phase_run \<times> 'v engine) option" where
  "phase_plan workers maximum W log epoch P p E = Option.bind (eg_guard E) (\<lambda>(generation, memo).
     map_option (\<lambda>(defs, v).
         (p\<lparr>pr_access := wv_reservations v, pr_deferred := wv_deferred_conflicts v,
            pr_readers := pr_readers p @ concat (wv_readers v), pr_writers := pr_writers p @ concat (wv_writers v),
            pr_point := Awaiting False\<rparr>,
          on_state (\<lambda>st. st\<lparr>st_systems := defs, st_planning_storage := Some (wv_pool v)\<rparr>) E))
       (plan_wave workers maximum (pr_phase p) W memo log epoch (st_systems (eg_state E))
         \<lparr>wv_reservations = pr_access p, wv_deferred_conflicts = pr_deferred p, wv_readers = [], wv_writers = [], wv_pool = P\<rparr>))"

section \<open>Rows that finish\<close>

definition take_row :: "nat \<Rightarrow> 'a list \<Rightarrow> ('a \<times> 'a list) option" where
  "take_row i xs = (if i < length xs then Some (xs ! i, drop_nth i xs) else None)"

fun take_rows :: "nat list \<Rightarrow> 'a list \<Rightarrow> ('a list \<times> 'a list) option" where
  "take_rows [] xs = Some ([], xs)"
| "take_rows (i # is) xs = Option.bind (take_row i xs) (\<lambda>(x, xs1).
     map_option (\<lambda>(ys, xs2). (x # ys, xs2)) (take_rows is xs1))"

text \<open>
  What the two streams answer when they are polled: nothing yet, or a first row and whatever else
  is ready, the readers before the writers.
\<close>

datatype ready = NotReady | ReadFirst nat "nat list" "nat list" | WriteFirst nat "nat list" "nat list"

primrec ready_batch :: "ready \<Rightarrow> 'a list \<Rightarrow> 'a list \<Rightarrow> ('a list \<times> 'a list \<times> 'a list) option" where
  "ready_batch NotReady rs ws = None"
| "ready_batch (ReadFirst i ris wis) rs ws = Option.bind (take_row i rs) (\<lambda>(x, rs1).
     Option.bind (take_rows ris rs1) (\<lambda>(xs, rs2).
       map_option (\<lambda>(ys, ws1). (x # xs @ ys, rs2, ws1)) (take_rows wis ws)))"
| "ready_batch (WriteFirst i ris wis) rs ws = Option.bind (take_row i ws) (\<lambda>(x, ws1).
     Option.bind (take_rows ris rs) (\<lambda>(xs, rs1).
       map_option (\<lambda>(ys, ws2). (x # xs @ ys, rs1, ws2)) (take_rows wis ws1)))"

text \<open>The event, with the queues left; \<open>None\<close> goes on waiting.\<close>

definition await_next_run :: "bool \<Rightarrow> ready \<Rightarrow> 'v queued_run list \<Rightarrow> 'v queued_run list \<Rightarrow> 'v engine \<Rightarrow>
    ('v run_event \<times> 'v queued_run list \<times> 'v queued_run list) option" where
  "await_next_run allow ready rs ws E = (if preempts allow E then Some (PreemptEvent, rs, ws)
     else if rs = [] \<and> ws = [] then Some (Drained, rs, ws)
     else map_option (\<lambda>(batch, rs1, ws1). (FinishedRows batch, rs1, ws1)) (ready_batch ready rs ws))"

text \<open>The rows run with the shared allocator, which only counts up.\<close>

fun finish_rows :: "'v queued_run list \<Rightarrow> nat \<Rightarrow> (run_id \<times> 'v system_run) list \<times> nat" where
  "finish_rows [] n = ([], n)"
| "finish_rows ((i, f) # qs) n = (let (run, n1) = f n; (batch, n2) = finish_rows qs (max n n1) in ((i, run) # batch, n2))"

definition run_rows :: "'v queued_run list \<Rightarrow> 'v engine \<Rightarrow> (run_id \<times> 'v system_run) list \<times> 'v engine" where
  "run_rows qs E = (let (batch, n) = finish_rows qs (w_next_entity (st_world (eg_state E)))
     in (batch, on_state (\<lambda>st. st\<lparr>st_world := (st_world st)\<lparr>w_next_entity := n\<rparr>\<rparr>) E))"

definition phase_await :: "ready \<Rightarrow> bool \<Rightarrow> 'v phase_run \<Rightarrow> 'v engine \<Rightarrow> ('v phase_run \<times> 'v engine) option" where
  "phase_await ready quiet p E = map_option (\<lambda>(event, rs, ws). case event of
       PreemptEvent \<Rightarrow> (p\<lparr>pr_needs_plan := False, pr_point := AtTop\<rparr>, E)
     | Drained \<Rightarrow> (p\<lparr>pr_point := Ended (Completed (pr_changed p))\<rparr>, E)
     | FinishedRows qs \<Rightarrow> (let (batch, E1) = run_rows qs E
         in (p\<lparr>pr_readers := rs, pr_writers := ws, pr_point := Committing quiet batch False False\<rparr>, E1)))
     (await_next_run (pr_allow p) ready (pr_readers p) (pr_writers p) E)"

section \<open>Commits of finished rows\<close>

text \<open>The progress, the invocation and the new states; the panics are the assertion and the budget.\<close>

definition commit_row :: "'v component_trait \<Rightarrow> run_id \<times> 'v system_run \<Rightarrow> 'v phase_run \<Rightarrow> 'v engine \<Rightarrow>
    (commit_progress \<times> system_invocation \<times> 'v phase_run \<times> 'v engine) option" where
  "commit_row ct row p E = (if \<not> contains (pr_access p) (fst row) then None else do {
     (progress, E1) \<leftarrow> driver_commit ct (pr_phase p) (snd row) E;
     (r, released) \<leftarrow> release (fst row) (pr_access p);
     owner \<leftarrow> released;
     budget \<leftarrow> budget_record (cp_commits progress) (pr_budget p);
     Some (progress, owner, p\<lparr>pr_access := r, pr_budget := budget\<rparr>, E1) })"

definition force_stale :: "system_invocation \<Rightarrow> 'v engine \<Rightarrow> 'v engine option" where
  "force_stale owner E = (let defs = st_systems (eg_state E); i = inv_system owner in
     if i < length defs then Some (on_state (\<lambda>st. st\<lparr>st_systems := defs[i := force_replan (inv_keys owner) (defs ! i)]\<rparr>) E)
     else None)"

definition phase_commit :: "'v component_trait \<Rightarrow> bool \<Rightarrow> (run_id \<times> 'v system_run) list \<Rightarrow> bool \<Rightarrow> bool \<Rightarrow>
    'v phase_run \<Rightarrow> 'v engine \<Rightarrow> ('v phase_run \<times> 'v engine) option" where
  "phase_commit ct quiet batch followup stale p E = (case batch of
     [] \<Rightarrow> Some (if quiet then p\<lparr>pr_point := AtTop\<rparr>
       else p\<lparr>pr_changed := pr_changed p \<or> followup, pr_needs_plan := followup \<or> stale \<or> pr_deferred p, pr_point := AtTop\<rparr>, E)
   | row # others \<Rightarrow> do {
       (progress, owner, p1, E1) \<leftarrow> commit_row ct row p E;
       E2 \<leftarrow> (if cp_stale progress then force_stale owner E1 else Some E1);
       Some (if quiet then p1\<lparr>pr_changed := pr_changed p1 \<or> cp_needs_followup progress, pr_point := Committing quiet others followup stale\<rparr>
         else p1\<lparr>pr_point := Committing quiet others (followup \<or> cp_needs_followup progress) (stale \<or> cp_stale progress)\<rparr>, E2) })"

section \<open>The preemption boundary\<close>

text \<open>The writers in flight are awaited one by one; a stale one is not sent back, the restart plans in full.\<close>

definition phase_drain :: "'v component_trait \<Rightarrow> nat \<Rightarrow> 'v phase_run \<Rightarrow> 'v engine \<Rightarrow> ('v phase_run \<times> 'v engine) option" where
  "phase_drain ct i p E = (if pr_writers p = [] then Some (p\<lparr>pr_point := Opening\<rparr>, E)
     else Option.bind (take_row i (pr_writers p)) (\<lambda>(q, ws). let (batch, E1) = run_rows [q] E in
       map_option (\<lambda>(progress, _, p1, E2). (p1\<lparr>pr_changed := pr_changed p1 \<or> cp_needs_followup progress\<rparr>, E2))
         (commit_row ct (hd batch) (p\<lparr>pr_writers := ws\<rparr>) E1)))"

section \<open>Turns of a phase\<close>

definition phase_turn :: "'v component_trait \<Rightarrow> nat option \<Rightarrow> nat \<Rightarrow> ready \<Rightarrow> 'v phase_run \<Rightarrow> 'v engine \<Rightarrow>
    ('v phase_run \<times> 'v engine) option" where
  "phase_turn ct workers maximum ready p E = (case pr_point p of
     AtTop \<Rightarrow> map_option (\<lambda>p. (p, E)) (phase_top p E)
   | Checking \<Rightarrow> phase_check p E
   | Lending W log epoch \<Rightarrow> Some (phase_lend W log epoch p E)
   | Planning W log epoch P \<Rightarrow> phase_plan workers maximum W log epoch P p E
   | Awaiting quiet \<Rightarrow> phase_await ready quiet p E
   | Committing quiet batch followup stale \<Rightarrow> phase_commit ct quiet batch followup stale p E
   | Draining \<Rightarrow> phase_drain ct (case ready of WriteFirst i _ _ \<Rightarrow> i | _ \<Rightarrow> 0) p E
   | Opening \<Rightarrow> Some (p\<lparr>pr_point := InWindow\<rparr>, on_state open_preempt_window E)
   | InWindow \<Rightarrow> if eg_preempt_waiters E = 0 then Some (p\<lparr>pr_point := Closing\<rparr>, E) else None
   | Closing \<Rightarrow> Some (p\<lparr>pr_point := Ended (Preempted (pr_changed p))\<rparr>, on_state close_preempt_window E)
   | Ended outcome \<Rightarrow> None)"

section \<open>A generation\<close>

record drive =
  dr_phases :: "phase list"
  dr_index :: nat
  dr_preemptions :: nat
  dr_changed :: bool

definition drive_start :: "bool \<Rightarrow> drive" where
  "drive_start startup = \<lparr>dr_phases = phases_ordered startup, dr_index = 0, dr_preemptions = 0, dr_changed = False\<rparr>"

definition drive_allows :: "drive \<Rightarrow> bool" where
  "drive_allows d \<longleftrightarrow> dr_preemptions d < preemption_budget"

primrec drive_next :: "phase_outcome \<Rightarrow> drive \<Rightarrow> drive" where
  "drive_next (Completed changed) d = d\<lparr>dr_changed := dr_changed d \<or> changed, dr_index := dr_index d + 1\<rparr>"
| "drive_next (Preempted changed) d = d\<lparr>dr_changed := dr_changed d \<or> changed, dr_preemptions := dr_preemptions d + 1,
     dr_phases := phases_ordered True, dr_index := 0\<rparr>"

text \<open>The driver between and inside phases; \<open>Finished\<close> gives the budget back.\<close>

datatype 'v control = BetweenPhases drive commit_budget | InPhase drive "'v phase_run" | Finished commit_budget

text \<open>\<open>run_evaluation\<close> up to its loop: \<open>None\<close> inside when no generation is pending.\<close>

definition evaluation_begin :: "'v component_trait \<Rightarrow> commit_budget \<Rightarrow> 'v engine \<Rightarrow> ('v control \<times> 'v engine) option" where
  "evaluation_begin ct budget E = map_option (\<lambda>(started, E1). case started of
       None \<Rightarrow> (Finished budget, E1)
     | Some startup \<Rightarrow> (BetweenPhases (drive_start startup) budget, E1)) (begin_generation ct E)"

primrec evaluation_turn :: "'v component_trait \<Rightarrow> nat option \<Rightarrow> nat \<Rightarrow> ready \<Rightarrow> 'v control \<Rightarrow> 'v engine \<Rightarrow>
    ('v control \<times> 'v engine) option" where
  "evaluation_turn ct workers maximum ready (BetweenPhases d budget) E =
     (if dr_index d < length (dr_phases d)
      then Some (InPhase d (phase_begin (dr_phases d ! dr_index d) (drive_allows d) budget E), E)
      else Some (Finished budget, complete_generation (dr_changed d) E))"
| "evaluation_turn ct workers maximum ready (InPhase d p) E = (case pr_point p of
     Ended outcome \<Rightarrow> Some (BetweenPhases (drive_next outcome d) (pr_budget p),
       case outcome of Completed _ \<Rightarrow> E | Preempted _ \<Rightarrow> on_state after_preemption E)
   | _ \<Rightarrow> map_option (\<lambda>(p1, E1). (InPhase d p1, E1)) (phase_turn ct workers maximum ready p E))"
| "evaluation_turn ct workers maximum ready (Finished budget) E = None"

text \<open>The single-flight loop: what a caller that waits for \<open>target\<close> does next.\<close>

datatype evaluation_step = ReturnEvaluated | RunEvaluation | WaitProgress

definition ensure_evaluated :: "nat \<Rightarrow> 'v engine \<Rightarrow> evaluation_step" where
  "ensure_evaluated target E = (if target \<le> eg_completed E then ReturnEvaluated
     else if eg_guard E = None then RunEvaluation else WaitProgress)"

end
