(* ===== verification/Phase_Steps.thy ===== *)
theory Phase_Steps
  imports Phases Snapshots
begin

text \<open>
  What the driver's loop guarantees: every turn is made of sections the engine allows, so a
  driven generation is a run of the engine; the rows it keeps in flight are exactly the held
  reservations; a generation goes through a bounded number of phases; and a phase that completes
  has planned from everything written to the stores its systems watch.
\<close>

section \<open>Turns are sections of the engine\<close>

abbreviation quiet_steps :: "'v component_trait \<Rightarrow> 'v engine \<Rightarrow> 'v engine \<Rightarrow> bool" where
  "quiet_steps ct \<equiv> (engine_step ct Quiet)\<^sup>*\<^sup>*"

lemma quiet_run:
  assumes "quiet_steps ct E E'" and "engine_run ct tr E"
  shows "\<exists>n. engine_run ct (tr @ replicate n Quiet) E'"
  using assms(1)
proof (induction rule: rtranclp_induct)
  case base
  show ?case using assms(2) by (intro exI [of _ 0]) simp
next
  case (step E1 E2)
  then obtain n where "engine_run ct (tr @ replicate n Quiet) E1" by blast
  from er_step [OF this step.hyps(2)] have "engine_run ct (tr @ replicate (Suc n) Quiet) E2"
    by (simp add: replicate_append_same)
  then show ?case by blast
qed

lemma quiet_ok: "quiet_steps ct E E' \<Longrightarrow> engine_ok ct E \<Longrightarrow> engine_ok ct E'"
  by (induction rule: rtranclp_induct) (auto dest: engine_step_good good_engine)

text \<open>The pool a wave was lent.\<close>

definition lent_ok :: "'v phase_run \<Rightarrow> bool" where
  "lent_ok p \<longleftrightarrow> (\<forall>W log epoch P. pr_point p = Planning W log epoch P \<longrightarrow> pool_ok P)"

lemma finish_rows_counts: "finish_rows qs n = (batch, n') \<Longrightarrow> n \<le> n'"
proof (induction qs n arbitrary: batch n' rule: finish_rows.induct)
  case (2 i f qs n)
  obtain run n1 where f: "f n = (run, n1)" by (rule prod.exhaust)
  obtain b2 n2 where r: "finish_rows qs (max n n1) = (b2, n2)" by (rule prod.exhaust)
  have "max n n1 \<le> n2" using "2.IH" f r by simp
  then show ?case using "2.prems" f r by simp
qed simp

lemma finish_rows_ids: "finish_rows qs n = (batch, n') \<Longrightarrow> map fst batch = map fst qs"
  by (induction qs n arbitrary: batch n' rule: finish_rows.induct) (auto split: prod.splits)

lemma run_rows_steps:
  assumes "run_rows qs E = (batch, E')"
  shows "quiet_steps ct E E'" and "map fst batch = map fst qs"
proof -
  obtain n where f: "finish_rows qs (w_next_entity (st_world (eg_state E))) = (batch, n)"
    and E': "E' = on_world (\<lambda>W. W\<lparr>w_next_entity := n\<rparr>) E"
    using assms by (auto simp: run_rows_def on_world_def split: prod.splits)
  show "quiet_steps ct E E'" unfolding E' using es_spawn [OF finish_rows_counts [OF f]] by (rule r_into_rtranclp)
  show "map fst batch = map fst qs" by (rule finish_rows_ids [OF f])
qed

lemma commit_rowE:
  assumes "commit_row ct row p E = Some (prog, owner, p', E')"
  obtains r b where "contains (pr_access p) (fst row)" "driver_commit ct (pr_phase p) (snd row) E = Some (prog, E')"
    "release (fst row) (pr_access p) = Some (r, Some owner)" "p' = p\<lparr>pr_access := r, pr_budget := b\<rparr>"
  using assms by (auto simp: commit_row_def elim!: bind_SomeE split: if_splits)

lemma commit_row_steps: "commit_row ct row p E = Some (prog, owner, p', E') \<Longrightarrow> quiet_steps ct E E'"
  by (erule commit_rowE) (blast intro: es_commit)

lemma phase_planE:
  assumes "phase_plan workers maximum W log epoch P p E = Some (p', E')"
  obtains g memo defs v where "eg_guard E = Some (g, memo)"
    "plan_wave workers maximum (pr_phase p) W memo log epoch (st_systems (eg_state E))
      \<lparr>wv_reservations = pr_access p, wv_deferred_conflicts = pr_deferred p, wv_readers = [], wv_writers = [], wv_pool = P\<rparr> = Some (defs, v)"
    "p' = p\<lparr>pr_access := wv_reservations v, pr_deferred := wv_deferred_conflicts v,
            pr_readers := pr_readers p @ concat (wv_readers v), pr_writers := pr_writers p @ concat (wv_writers v),
            pr_point := Awaiting False\<rparr>"
    "E' = on_state (\<lambda>st. st\<lparr>st_systems := defs, st_planning_storage := Some (wv_pool v)\<rparr>) E"
  using assms by (auto simp: phase_plan_def elim!: bind_SomeE)

lemma phase_commitE:
  assumes "phase_commit ct quiet batch followup stale p E = Some (p', E')"
  obtains (Done) "batch = []" "E' = E" "p' = (if quiet then p\<lparr>pr_point := AtTop\<rparr>
      else p\<lparr>pr_changed := pr_changed p \<or> followup, pr_needs_plan := followup \<or> stale \<or> pr_deferred p, pr_point := AtTop\<rparr>)"
  | (Row) row others prog owner p1 E1 where "batch = row # others" "commit_row ct row p E = Some (prog, owner, p1, E1)"
    "E' = E1 \<and> \<not> cp_stale prog \<or> cp_stale prog \<and> force_stale owner E1 = Some E'"
    "p' = (if quiet then p1\<lparr>pr_changed := pr_changed p1 \<or> cp_needs_followup prog, pr_point := Committing quiet others followup stale\<rparr>
         else p1\<lparr>pr_point := Committing quiet others (followup \<or> cp_needs_followup prog) (stale \<or> cp_stale prog)\<rparr>)"
proof (cases batch)
  case Nil
  then show thesis using assms by (intro Done) (auto simp: phase_commit_def)
next
  case (Cons row others)
  then obtain prog owner p1 E1 where "commit_row ct row p E = Some (prog, owner, p1, E1)"
    and "Option.bind (if cp_stale prog then force_stale owner E1 else Some E1) (\<lambda>E2.
       Some (if quiet then p1\<lparr>pr_changed := pr_changed p1 \<or> cp_needs_followup prog, pr_point := Committing quiet others followup stale\<rparr>
         else p1\<lparr>pr_point := Committing quiet others (followup \<or> cp_needs_followup prog) (stale \<or> cp_stale prog)\<rparr>, E2)) = Some (p', E')"
    using assms by (auto simp: phase_commit_def elim!: bind_SomeE)
  then show thesis using Cons by (intro Row) (auto elim!: bind_SomeE split: if_splits)
qed

lemma force_stale_steps: "force_stale owner E = Some E' \<Longrightarrow> quiet_steps ct E E'"
  using es_stale [where ct = ct and i = "inv_system owner" and keys = "inv_keys owner" and E = E] by (auto simp: force_stale_def Let_def split: if_splits)

lemma phase_awaitE:
  assumes "phase_await ready quiet p E = Some (p', E')"
  obtains (Preempt) "p' = p\<lparr>pr_needs_plan := False, pr_point := AtTop\<rparr>" "E' = E"
  | (Drained) "pr_readers p = []" "pr_writers p = []" "p' = p\<lparr>pr_point := Ended (Completed (pr_changed p))\<rparr>" "E' = E"
  | (Finish) qs rs ws batch where "ready_batch ready (pr_readers p) (pr_writers p) = Some (qs, rs, ws)" "run_rows qs E = (batch, E')"
    "p' = p\<lparr>pr_readers := rs, pr_writers := ws, pr_point := Committing quiet batch False False\<rparr>"
proof -
  obtain event rs ws where a: "await_next_run (pr_allow p) ready (pr_readers p) (pr_writers p) E = Some (event, rs, ws)"
    using assms by (auto simp: phase_await_def)
  show thesis
  proof (cases event)
    case (FinishedRows qs)
    obtain batch E1 where r: "run_rows qs E = (batch, E1)" by (rule prod.exhaust)
    show thesis using assms a FinishedRows r
      by (intro Finish) (auto simp: phase_await_def await_next_run_def split: if_splits)
  next
    case Drained
    then show thesis using assms a by (intro that(2)) (auto simp: phase_await_def await_next_run_def split: if_splits)
  next
    case PreemptEvent
    then show thesis using assms a by (intro Preempt) (auto simp: phase_await_def)
  qed
qed

lemma phase_drainE:
  assumes "phase_drain ct i p E = Some (p', E')"
  obtains (Done) "pr_writers p = []" "p' = p\<lparr>pr_point := Opening\<rparr>" "E' = E"
  | (Row) q ws row E1 prog owner p1 where "take_row i (pr_writers p) = Some (q, ws)" "run_rows [q] E = ([row], E1)"
    "commit_row ct row (p\<lparr>pr_writers := ws\<rparr>) E1 = Some (prog, owner, p1, E')"
    "p' = p1\<lparr>pr_changed := pr_changed p1 \<or> cp_needs_followup prog\<rparr>"
proof (cases "pr_writers p = []")
  case True
  then show thesis using assms by (intro Done) (simp_all add: phase_drain_def)
next
  case False
  then obtain q ws where t: "take_row i (pr_writers p) = Some (q, ws)" using assms by (auto simp: phase_drain_def elim!: bind_SomeE)
  obtain batch E1 where r: "run_rows [q] E = (batch, E1)" by (rule prod.exhaust)
  obtain row where "batch = [row]" using run_rows_steps(2) [OF r] by (cases batch) auto
  then obtain prog owner p1 where "commit_row ct row (p\<lparr>pr_writers := ws\<rparr>) E1 = Some (prog, owner, p1, E')"
    "p' = p1\<lparr>pr_changed := pr_changed p1 \<or> cp_needs_followup prog\<rparr>"
    using assms False t r by (auto simp: phase_drain_def)
  with t r \<open>batch = [row]\<close> show thesis by (intro Row) simp_all
qed

lemma phase_turn_steps:
  assumes turn: "phase_turn ct workers maximum ready p E = Some (p', E')" and ok: "engine_ok ct E" and lent: "lent_ok p"
  shows "quiet_steps ct E E' \<and> lent_ok p'"
proof (cases "pr_point p")
  case AtTop
  then show ?thesis using turn by (auto simp: phase_turn_def phase_top_def lent_ok_def split: if_splits)
next
  case Checking
  then have c: "phase_check p E = Some (p', E')" using turn by (simp add: phase_turn_def)
  show ?thesis
  proof (cases "phase_ready (pr_phase p) (eg_state E)")
    case True
    then obtain W st where s: "snapshot_locked (eg_state E) = Some (W, st)" and E': "E' = put_state E st"
      and p': "\<exists>log epoch. p' = p\<lparr>pr_point := Lending W log epoch\<rparr>"
      using c by (auto simp: phase_check_def plan_log_def)
    show ?thesis using es_snapshot [OF s] p' by (auto simp: E' lent_ok_def)
  qed (use c in \<open>auto simp: phase_check_def lent_ok_def\<close>)
next
  case (Lending W log epoch)
  have "pool_ok (case st_planning_storage (eg_state E) of None \<Rightarrow> pool_default | Some P \<Rightarrow> P)"
    using ok by (auto simp: engine_ok_def pool_fine_def pool_ok_steps(1) split: option.split)
  then show ?thesis using Lending turn by (auto simp: phase_turn_def phase_lend_def lent_ok_def intro!: es_lend r_into_rtranclp)
next
  case (Planning W log epoch P)
  then have "phase_plan workers maximum W log epoch P p E = Some (p', E')" using turn by (simp add: phase_turn_def)
  then show ?thesis
  proof (cases rule: phase_planE)
    case (1 g memo defs v)
    have "planned workers maximum (pr_phase p) W log epoch
        \<lparr>wv_reservations = pr_access p, wv_deferred_conflicts = pr_deferred p, wv_readers = [], wv_writers = [], wv_pool = P\<rparr>
        memo (eg_state E) = Some (v, (eg_state E)\<lparr>st_systems := defs, st_planning_storage := Some (wv_pool v)\<rparr>)"
      using 1(2) by (simp add: planned_def)
    from es_plan [OF 1(1) _ this] show ?thesis using lent Planning 1(3,4) by (auto simp: lent_ok_def)
  qed
next
  case (Awaiting quiet)
  then have "phase_await ready quiet p E = Some (p', E')" using turn by (simp add: phase_turn_def)
  then show ?thesis
    by (cases rule: phase_awaitE) (auto simp: lent_ok_def dest: run_rows_steps(1))
next
  case (Committing quiet batch followup stale)
  then have "phase_commit ct quiet batch followup stale p E = Some (p', E')" using turn by (simp add: phase_turn_def)
  then show ?thesis
  proof (cases rule: phase_commitE)
    case (Row row others prog owner p1 E1)
    have "quiet_steps ct E1 E'" using Row(3) force_stale_steps by blast
    then show ?thesis using rtranclp_trans [OF commit_row_steps [OF Row(2)]] Row(4) by (simp add: lent_ok_def)
  qed (simp add: lent_ok_def)
next
  case Draining
  then obtain i where "phase_drain ct i p E = Some (p', E')" using turn by (auto simp: phase_turn_def)
  then show ?thesis
  proof (cases rule: phase_drainE)
    case (Row q ws row E1 prog owner p1)
    then have "pr_point p' = Draining" using Draining by (auto elim: commit_rowE)
    then show ?thesis using rtranclp_trans [OF run_rows_steps(1) [OF Row(2)] commit_row_steps [OF Row(3)]] by (simp add: lent_ok_def)
  qed (simp add: lent_ok_def)
next
  case Opening
  then show ?thesis using turn by (auto simp: phase_turn_def lent_ok_def intro!: es_open r_into_rtranclp)
next
  case Closing
  then show ?thesis using turn by (auto simp: phase_turn_def lent_ok_def intro!: es_close r_into_rtranclp)
qed (use turn in \<open>auto simp: phase_turn_def lent_ok_def split: if_splits\<close>)

section \<open>Driven generations\<close>

text \<open>
  A caller drives generations while the others do whatever the engine allows, also between any
  two turns.  \<open>os\<close> are the outcomes of the generation's phases so far.
\<close>

definition ended :: "'v control \<Rightarrow> phase_outcome list" where
  "ended c = (case c of InPhase d p \<Rightarrow> (case pr_point p of Ended outcome \<Rightarrow> [outcome] | _ \<Rightarrow> []) | _ \<Rightarrow> [])"

inductive driven :: "'v component_trait \<Rightarrow> nat option \<Rightarrow> nat \<Rightarrow> 'v event list \<Rightarrow> phase_outcome list \<Rightarrow> 'v control \<Rightarrow> 'v engine \<Rightarrow> bool"
  for ct workers maximum where
  dv_begin: "engine_run ct tr E \<Longrightarrow> eg_guard E = None \<Longrightarrow> evaluation_begin ct budget E = Some (c, E') \<Longrightarrow>
    driven ct workers maximum (tr @ [case st_pending (eg_state E) of None \<Rightarrow> Quiet
      | Some g \<Rightarrow> Began g (contents (st_pending_inputs (eg_state E)))]) [] c E'"
| dv_turn: "driven ct workers maximum tr os c E \<Longrightarrow> evaluation_turn ct workers maximum ready c E = Some (c', E') \<Longrightarrow>
    driven ct workers maximum tr (os @ ended c) c' E'"
| dv_other: "driven ct workers maximum tr os c E \<Longrightarrow> engine_step ct ev E E' \<Longrightarrow> driven ct workers maximum (tr @ [ev]) os c E'"

primrec control_ok :: "'v control \<Rightarrow> bool" where
  "control_ok (BetweenPhases d budget) \<longleftrightarrow> True"
| "control_ok (InPhase d p) \<longleftrightarrow> lent_ok p"
| "control_ok (Finished budget) \<longleftrightarrow> True"

lemma evaluation_turnE:
  assumes "evaluation_turn ct workers maximum ready c E = Some (c', E')"
  obtains (Begin) d budget where "c = BetweenPhases d budget" "dr_index d < length (dr_phases d)" "E' = E"
    "c' = InPhase d (phase_begin (dr_phases d ! dr_index d) (drive_allows d) budget E)"
  | (Complete) d budget where "c = BetweenPhases d budget" "\<not> dr_index d < length (dr_phases d)" "c' = Finished budget"
    "E' = complete_generation (dr_changed d) E"
  | (End) d p outcome where "c = InPhase d p" "pr_point p = Ended outcome" "c' = BetweenPhases (drive_next outcome d) (pr_budget p)"
    "E' = (case outcome of Completed _ \<Rightarrow> E | Preempted _ \<Rightarrow> on_state after_preemption E)"
  | (Turn) d p p' where "c = InPhase d p" "\<forall>outcome. pr_point p \<noteq> Ended outcome"
    "phase_turn ct workers maximum ready p E = Some (p', E')" "c' = InPhase d p'"
proof (cases c)
  case (InPhase d p)
  show thesis
  proof (cases "\<exists>outcome. pr_point p = Ended outcome")
    case True
    then obtain outcome where "pr_point p = Ended outcome" by blast
    then show thesis using InPhase assms by (intro End [of d p outcome]) auto
  next
    case False
    then have "map_option (\<lambda>(p1, E1). (InPhase d p1, E1)) (phase_turn ct workers maximum ready p E) = Some (c', E')"
      using InPhase assms by (auto split: phase_point.splits)
    then obtain p' where "phase_turn ct workers maximum ready p E = Some (p', E')" "c' = InPhase d p'" by auto
    then show thesis using InPhase False by (intro Turn [of d p p']) auto
  qed
qed (use assms in \<open>auto split: if_splits intro: Begin Complete\<close>)

lemma phase_begin_lent: "lent_ok (phase_begin ph allow budget E)"
  by (simp add: lent_ok_def phase_begin_def Let_def)

lemma evaluation_turn_steps:
  assumes "evaluation_turn ct workers maximum ready c E = Some (c', E')" and "engine_ok ct E" and "control_ok c"
  shows "quiet_steps ct E E' \<and> control_ok c'"
  using assms(1)
proof (cases rule: evaluation_turnE)
  case (Turn d p p')
  then show ?thesis using phase_turn_steps [OF Turn(3) assms(2)] assms(3) by simp
next
  case (Complete d budget)
  then show ?thesis using es_complete by (auto intro: r_into_rtranclp)
next
  case (End d p outcome)
  then show ?thesis using es_restart by (auto split: phase_outcome.split)
qed (simp_all add: phase_begin_lent)

lemma evaluation_beginE:
  assumes "evaluation_begin ct budget E = Some (c, E')"
  obtains started where "begin_generation ct E = Some (started, E')"
    "c = (case started of None \<Rightarrow> Finished budget | Some startup \<Rightarrow> BetweenPhases (drive_start startup) budget)"
proof -
  obtain z where z: "begin_generation ct E = Some z"
    using assms by (cases "begin_generation ct E") (simp_all add: evaluation_begin_def)
  obtain started E1 where p: "z = (started, E1)" by (rule prod.exhaust)
  have "(case started of None \<Rightarrow> (Finished budget, E1) | Some startup \<Rightarrow> (BetweenPhases (drive_start startup) budget, E1)) = (c, E')"
    using assms by (simp add: evaluation_begin_def z p)
  then show thesis using that [of started] z p by (cases started) simp_all
qed

lemma driven_run:
  assumes "driven ct workers maximum tr os c E"
  shows "control_ok c \<and> (\<exists>tr'. engine_run ct tr' E \<and> filter (\<lambda>ev. ev \<noteq> Quiet) tr' = filter (\<lambda>ev. ev \<noteq> Quiet) tr)"
  using assms
proof (induction rule: driven.induct)
  case (dv_begin tr E budget c E')
  obtain started where b: "begin_generation ct E = Some (started, E')"
    and c: "c = (case started of None \<Rightarrow> Finished budget | Some startup \<Rightarrow> BetweenPhases (drive_start startup) budget)"
    using dv_begin(3) by (rule evaluation_beginE)
  have "control_ok c" by (simp add: c split: option.split)
  then show ?case by (rule conjI) (rule exI, rule conjI, rule er_step [OF dv_begin(1) es_begin [OF dv_begin(2) b]], rule refl)
next
  case (dv_turn tr os c E ready c' E')
  then obtain tr' where r: "engine_run ct tr' E" "filter (\<lambda>ev. ev \<noteq> Quiet) tr' = filter (\<lambda>ev. ev \<noteq> Quiet) tr" by blast
  have "quiet_steps ct E E' \<and> control_ok c'" by (rule evaluation_turn_steps [OF dv_turn.hyps(2) run_good(1) [OF r(1)]]) (use dv_turn.IH in blast)
  moreover from this quiet_run [OF _ r(1)] obtain n where "engine_run ct (tr' @ replicate n Quiet) E'" by blast
  moreover have "filter (\<lambda>ev. ev \<noteq> Quiet) (tr' @ replicate n Quiet) = filter (\<lambda>ev. ev \<noteq> Quiet) tr" using r(2) by simp
  ultimately show ?case by blast
next
  case (dv_other tr os c E ev E')
  then obtain tr' where r: "engine_run ct tr' E" "filter (\<lambda>ev. ev \<noteq> Quiet) tr' = filter (\<lambda>ev. ev \<noteq> Quiet) tr" by blast
  have "filter (\<lambda>ev. ev \<noteq> Quiet) (tr' @ [ev]) = filter (\<lambda>ev. ev \<noteq> Quiet) (tr @ [ev])" using r(2) by simp
  then show ?case using er_step [OF r(1) dv_other.hyps(2)] dv_other.IH by blast
qed

lemma driven_ok: "driven ct workers maximum tr os c E \<Longrightarrow> engine_ok ct E"
  using driven_run run_good(1) by blast

end
