(* ===== verification/Phase_Rows.thy ===== *)
theory Phase_Rows
  imports Phase_Steps
begin

text \<open>
  The rows a phase has in flight: exactly those its reservations hold, each queued once in the
  queue of its access class, through planning waves, completions and the preemption boundary.
\<close>

section \<open>Queues that agree with the reservations\<close>

definition queued_exactly :: "reservations \<Rightarrow> 'v queued_run list \<Rightarrow> 'v queued_run list \<Rightarrow> run_id list \<Rightarrow> bool" where
  "queued_exactly r rs ws ids \<longleftrightarrow> reservations_ok r \<and> distinct (map fst rs @ map fst ws @ ids)
     \<and> (\<forall>i. contains r i \<longleftrightarrow> i \<in> set (map fst rs @ map fst ws @ ids))
     \<and> (\<forall>q\<in>set rs. is_writer r (fst q) = Some False) \<and> (\<forall>q\<in>set ws. is_writer r (fst q) = Some True)"

lemma queued_exactlyD:
  assumes "queued_exactly r rs ws ids"
  shows "reservations_ok r" "distinct (map fst rs @ map fst ws @ ids)"
    "contains r i \<longleftrightarrow> i \<in> set (map fst rs @ map fst ws @ ids)"
    "q \<in> set rs \<Longrightarrow> is_writer r (fst q) = Some False" "q \<in> set ws \<Longrightarrow> is_writer r (fst q) = Some True"
  using assms by (auto simp: queued_exactly_def)

lemma queued_cong:
  assumes "queued_exactly r rs ws ids" and "reservations_ok r'" and "\<And>i. records_get (records r') i = records_get (records r) i"
  shows "queued_exactly r' rs ws ids"
  using assms by (simp add: queued_exactly_def contains_def is_writer_def)

text \<open>Rows move between the queues and the batch being committed.\<close>

lemma queued_move:
  assumes q: "queued_exactly r rs ws ids" and "mset (rs @ ws) = mset (rs' @ ws' @ batch)"
    and "set rs' \<subseteq> set rs" and "set ws' \<subseteq> set ws"
  shows "queued_exactly r rs' ws' (map fst batch @ ids)"
proof -
  have m: "mset (map fst rs' @ map fst ws' @ map fst batch @ ids) = mset (map fst rs @ map fst ws @ ids)"
    using arg_cong [OF assms(2), of "image_mset fst"] by simp
  have "distinct (map fst rs' @ map fst ws' @ map fst batch @ ids)"
    using queued_exactlyD(2) [OF q] mset_eq_imp_distinct_iff [OF m] by blast
  moreover have "set (map fst rs' @ map fst ws' @ map fst batch @ ids) = set (map fst rs @ map fst ws @ ids)"
    by (rule mset_eq_setD [OF m])
  ultimately show ?thesis using q assms(3,4) unfolding queued_exactly_def by (simp only:) blast
qed

lemma queued_release:
  assumes q: "queued_exactly r rs ws (i # ids)" and rel: "release i r = Some (r', o')"
  shows "queued_exactly r' rs ws ids"
proof -
  note g = release_get [OF queued_exactlyD(1) [OF q] rel]
  have "reservations_ok r'" by (rule release_ok [OF queued_exactlyD(1) [OF q] rel])
  then show ?thesis using q unfolding queued_exactly_def contains_def is_writer_def g by auto
qed

lemma queued_cancel:
  assumes q: "queued_exactly r rs ws []" and can: "cancel_readers r = Some r'"
  shows "queued_exactly r' [] ws []"
proof -
  note g = cancel_readers_get [OF can queued_exactlyD(1) [OF q]]
  have "contains r' i \<longleftrightarrow> i \<in> fst ` set ws" for i
  proof (cases "records_get (records r) i")
    case None
    then show ?thesis using queued_exactlyD(3) [OF q, of i] by (auto simp: contains_def g)
  next
    case (Some rc)
    then have "i \<in> fst ` set rs \<or> i \<in> fst ` set ws" using queued_exactlyD(3) [OF q, of i] by (auto simp: contains_def)
    then show ?thesis
    proof
      assume "i \<in> fst ` set rs"
      then have "is_writer r i = Some False" "i \<notin> fst ` set ws" using queued_exactlyD(2,4) [OF q] by auto
      then show ?thesis using Some by (simp add: contains_def g is_writer_def)
    next
      assume "i \<in> fst ` set ws"
      then have "is_writer r i = Some True" using queued_exactlyD(5) [OF q] by auto
      then show ?thesis using Some \<open>i \<in> fst ` set ws\<close> by (simp add: contains_def g is_writer_def)
    qed
  qed
  moreover have "is_writer r' (fst x) = Some True" if "x \<in> set ws" for x
    using queued_exactlyD(5) [OF q that] by (auto simp: is_writer_def g)
  ultimately show ?thesis
    using queued_exactlyD(2) [OF q] cancel_readers_ok [OF queued_exactlyD(1) [OF q] can] by (simp add: queued_exactly_def)
qed

section \<open>Planning waves\<close>

lemma queued_admit:
  assumes q: "queued_exactly r rs ws ids" and adm: "admit ow as r = Some (r', Inr i)" and w: "is_writer r' i = Some b"
  shows "queued_exactly r' (if b then rs else rs @ [(i, f)]) (if b then ws @ [(i, f)] else ws) ids"
proof -
  obtain rc where rc: "records_get (records r) i = None"
    "records_get (records r') j = (if j = i then Some rc else records_get (records r) j)" for j
    using admit_get_new [OF queued_exactlyD(1) [OF q] adm] by blast
  have "i \<notin> set (map fst rs @ map fst ws @ ids)" using queued_exactlyD(3) [OF q, of i] rc(1) by (simp add: contains_def)
  moreover have "reservations_ok r'" by (rule admit_ok [OF queued_exactlyD(1) [OF q] adm])
  ultimately show ?thesis using q w unfolding queued_exactly_def contains_def is_writer_def rc(2) by auto
qed

lemma dispatch_loop_queued:
  "dispatch_loop limit runs s = Some s' \<Longrightarrow>
   queued_exactly (ad_reservations (snd s)) (rs @ all_readers s) (ws @ all_writers s) ids \<Longrightarrow>
   queued_exactly (ad_reservations (snd s')) (rs @ all_readers s') (ws @ all_writers s') ids"
proof (induction runs arbitrary: s)
  case (Cons p runs)
  obtain b a where s: "s = (b, a)" by (rule prod.exhaust)
  from Cons.prems(1) obtain r res where adm: "admit (psr_owner p) (psr_access p) (ad_reservations a) = Some (r, res)"
    by (auto simp: s split: option.splits)
  note q = Cons.prems(2) [unfolded s, simplified]
  note g = admit_get [OF queued_exactlyD(1) [OF q] adm]
  show ?case
  proof (cases res)
    case (Inl e)
    then have "queued_exactly r (rs @ all_readers (b, a)) (ws @ all_writers (b, a)) ids"
      using g(2) by (intro queued_cong [OF q g(1)]) simp
    then have k: "queued_exactly (ad_reservations (snd s1)) (rs @ all_readers s1) (ws @ all_writers s1) ids"
      if "ad_reservations (snd s1) = r" "all_readers s1 = all_readers (b, a)" "all_writers s1 = all_writers (b, a)" for s1
      using that by simp
    let ?a = "a\<lparr>ad_reservations := r\<rparr>"
    show ?thesis
    proof (cases e)
      case Duplicate
      then have "dispatch_loop limit runs (b, ?a) = Some s'" using Cons.prems(1) by (simp add: s adm Inl)
      then show ?thesis by (rule Cons.IH) (rule k; simp add: all_readers_def all_writers_def)
    next
      case (Conflict owner)
      let ?c = "?a\<lparr>ad_deferred_conflicts := True, ad_system := force_replan (inv_keys owner) (ad_system a)\<rparr>"
      have "dispatch_loop limit runs (b, ?c) = Some s'" using Conflict Cons.prems(1) by (simp add: s adm Inl)
      then show ?thesis by (rule Cons.IH) (rule k; simp add: all_readers_def all_writers_def)
    qed
  next
    case (Inr i)
    have "\<exists>w. is_writer r i = Some w" using admit_get_new [OF queued_exactlyD(1) [OF q] adm [unfolded Inr]] by (auto simp: is_writer_def)
    then obtain w where w: "is_writer r i = Some w" ..
    note k = queued_admit [OF q adm [unfolded Inr] w, of "psr_run p"]
    show ?thesis
    proof (cases w)
      case True
      let ?s = "push_writer limit (i, psr_run p) (b, a\<lparr>ad_reservations := r\<rparr>)"
      have "queued_exactly (ad_reservations (snd ?s)) (rs @ all_readers ?s) (ws @ all_writers ?s) ids"
        using k True by simp (simp add: all_readers_def all_writers_def)
      then show ?thesis using Cons.prems(1) Cons.IH True w by (simp add: s adm Inr)
    next
      case False
      let ?s = "push_reader limit (i, psr_run p) (b, a\<lparr>ad_reservations := r\<rparr>)"
      have "queued_exactly (ad_reservations (snd ?s)) (rs @ all_readers ?s) (ws @ all_writers ?s) ids"
        using k False by simp (simp add: all_readers_def all_writers_def)
      then show ?thesis using Cons.prems(1) Cons.IH False w by (simp add: s adm Inr)
    qed
  qed
qed simp

lemma dispatch_rows_queued:
  assumes "dispatch_rows workers maximum runs a = Some a'"
    and "queued_exactly (ad_reservations a) (rs @ concat (ad_readers a)) (ws @ concat (ad_writers a)) ids"
  shows "queued_exactly (ad_reservations a') (rs @ concat (ad_readers a')) (ws @ concat (ad_writers a')) ids"
proof -
  let ?s = "(\<lparr>bt_readers = [], bt_writers = []\<rparr>, a)"
  obtain s' where loop: "dispatch_loop (grain workers (length runs) maximum) runs ?s = Some s'" and a': "a' = submit_rest s'"
    using assms(1) by (auto simp: dispatch_rows_def)
  have "queued_exactly (ad_reservations (snd ?s)) (rs @ all_readers ?s) (ws @ all_writers ?s) ids"
    using assms(2) by (simp add: all_readers_def all_writers_def)
  from dispatch_loop_queued [OF loop this] show ?thesis
    by (cases s') (auto simp: a' submit_rest_def all_readers_def all_writers_def)
qed

lemma plan_wave_queued:
  "plan_wave workers maximum ph W memo log epoch ss v = Some (ss', v') \<Longrightarrow>
   queued_exactly (wv_reservations v) (rs @ concat (wv_readers v)) (ws @ concat (wv_writers v)) ids \<Longrightarrow>
   queued_exactly (wv_reservations v') (rs @ concat (wv_readers v')) (ws @ concat (wv_writers v')) ids"
proof (induction ss arbitrary: ss' v)
  case (Cons s ss)
  obtain chosen s1 where p: "(if bs_phase s = ph then needs_planning W s else (False, s)) = (chosen, s1)" by (rule prod.exhaust)
  obtain s2 v1 ss1 where v1: "(if chosen then plan_and_dispatch workers maximum W memo log epoch s1 v else Some (s1, v)) = Some (s2, v1)"
    and rest: "plan_wave workers maximum ph W memo log epoch ss v1 = Some (ss1, v')"
    using Cons.prems(1) by (auto simp: p elim!: bind_SomeE)
  have "queued_exactly (wv_reservations v1) (rs @ concat (wv_readers v1)) (ws @ concat (wv_writers v1)) ids"
  proof (cases chosen)
    case True
    then obtain runs s3 P a where "dispatch_rows workers maximum runs \<lparr>ad_system = s3, ad_reservations = wv_reservations v,
           ad_deferred_conflicts = wv_deferred_conflicts v, ad_readers = wv_readers v, ad_writers = wv_writers v\<rparr> = Some a"
      and "v1 = \<lparr>wv_reservations = ad_reservations a, wv_deferred_conflicts = ad_deferred_conflicts a,
           wv_readers = ad_readers a, wv_writers = ad_writers a, wv_pool = P\<rparr>"
      using v1 by (auto simp: plan_and_dispatch_def elim!: bind_SomeE)
    then show ?thesis using dispatch_rows_queued [where rs = rs and ws = ws and ids = ids] Cons.prems(2) by fastforce
  qed (use v1 Cons.prems(2) in auto)
  then show ?case using Cons.IH [OF rest] by simp
qed simp

section \<open>Phases\<close>

lemma take_row_mset: "take_row i xs = Some (x, ys) \<Longrightarrow> mset xs = add_mset x (mset ys) \<and> set ys \<subseteq> set xs"
proof -
  assume "take_row i xs = Some (x, ys)"
  then have i: "i < length xs" "x = xs ! i" "ys = take i xs @ drop (Suc i) xs"
    by (auto simp: take_row_def drop_nth_def split: if_splits)
  have "mset xs = mset (take i xs @ xs ! i # drop (Suc i) xs)" using id_take_nth_drop [OF i(1)] by simp
  then show ?thesis using set_take_subset [of i xs] set_drop_subset [of "Suc i" xs] by (auto simp: i(2,3))
qed

lemma take_rows_mset: "take_rows is xs = Some (ys, zs) \<Longrightarrow> mset xs = mset ys + mset zs \<and> set zs \<subseteq> set xs"
proof (induction "is" arbitrary: xs ys)
  case (Cons i "is")
  then obtain x xs1 ys1 where t: "take_row i xs = Some (x, xs1)" "take_rows is xs1 = Some (ys1, zs)" "ys = x # ys1"
    by (auto elim!: bind_SomeE)
  show ?case using take_row_mset [OF t(1)] Cons.IH [OF t(2)] by (auto simp: t(3))
qed simp

lemma ready_batch_mset:
  assumes "ready_batch ready rs ws = Some (qs, rs', ws')"
  shows "mset (rs @ ws) = mset (rs' @ ws' @ qs) \<and> set rs' \<subseteq> set rs \<and> set ws' \<subseteq> set ws"
proof (cases ready)
  case (ReadFirst i ris wis)
  then obtain x rs1 xs ys where t: "take_row i rs = Some (x, rs1)" "take_rows ris rs1 = Some (xs, rs')"
    "take_rows wis ws = Some (ys, ws')" "qs = x # xs @ ys" using assms by (auto elim!: bind_SomeE)
  then show ?thesis using take_row_mset [OF t(1)] take_rows_mset [OF t(2)] take_rows_mset [OF t(3)] by auto
next
  case (WriteFirst i ris wis)
  then obtain x ws1 xs ys where t: "take_row i ws = Some (x, ws1)" "take_rows ris rs = Some (xs, rs')"
    "take_rows wis ws1 = Some (ys, ws')" "qs = x # xs @ ys" using assms by (auto elim!: bind_SomeE)
  then show ?thesis using take_row_mset [OF t(1)] take_rows_mset [OF t(2)] take_rows_mset [OF t(3)] by auto
qed (use assms in simp)

definition batch_ids :: "'v phase_run \<Rightarrow> run_id list" where
  "batch_ids p = (case pr_point p of Committing quiet batch followup stale \<Rightarrow> map fst batch | _ \<Rightarrow> [])"

text \<open>Past the boundary the readers are gone, and at the end everything is; only an allowed boundary is taken.\<close>

definition boundary_ok :: "'v phase_run \<Rightarrow> bool" where
  "boundary_ok p \<longleftrightarrow> (case pr_point p of
       Draining \<Rightarrow> pr_readers p = [] \<and> pr_allow p
     | Ended (Completed changed) \<Rightarrow> pr_readers p = [] \<and> pr_writers p = []
     | Ended (Preempted changed) \<Rightarrow> pr_readers p = [] \<and> pr_writers p = [] \<and> pr_allow p
     | Opening \<Rightarrow> pr_readers p = [] \<and> pr_writers p = [] \<and> pr_allow p
     | InWindow \<Rightarrow> pr_readers p = [] \<and> pr_writers p = [] \<and> pr_allow p
     | Closing \<Rightarrow> pr_readers p = [] \<and> pr_writers p = [] \<and> pr_allow p
     | _ \<Rightarrow> True)"

definition rows_ok :: "'v phase_run \<Rightarrow> bool" where
  "rows_ok p \<longleftrightarrow> queued_exactly (pr_access p) (pr_readers p) (pr_writers p) (batch_ids p) \<and> boundary_ok p"

lemma registry_reservations:
  assumes "stores_wf S"
  shows "reservations_ok (reservations_new (registry S))"
proof (rule reservations_new_dense)
  note wf = stores_wfD [OF assms]
  show "map_of (registry S) ty = Some s \<Longrightarrow> map_of (registry S) ty' = Some s \<Longrightarrow> ty = ty'" for ty ty' s
    using wf(2) by blast
  have "{..<length (slots S)} \<subseteq> snd ` set (registry S)"
  proof
    fix n assume "n \<in> {..<length (slots S)}"
    then have "(fst (slots S ! n), n) \<in> set (registry S)" using map_of_SomeD [OF wf(3)] by simp
    then show "n \<in> snd ` set (registry S)" by force
  qed
  then have "length (slots S) \<le> card (snd ` set (registry S))" by (metis card_lessThan card_mono finite_imageI finite_set)
  also have "\<dots> \<le> card (set (registry S))" by (rule card_image_le) simp
  also have "\<dots> \<le> length (registry S)" by (rule card_length)
  finally show "map_of (registry S) ty = Some s \<Longrightarrow> s < length (registry S)" for ty s using wf(2) by fastforce
qed

lemma queued_new: "reservations_ok (reservations_new reg) \<Longrightarrow> queued_exactly (reservations_new reg) [] [] []"
  by (simp add: queued_exactly_def contains_def reservations_new_def records_default_def records_get_def)

lemma phase_begin_rows:
  assumes "engine_ok ct E"
  shows "rows_ok (phase_begin ph allow budget E)"
proof -
  have "stores_inv (st_world (eg_state E))" using assms world_okD(1) [OF reachable_ok] by (force simp: engine_ok_def)
  then have "stores_wf (w_stores (st_world (eg_state E)))" by (simp add: stores_inv_def)
  then have "reservations_ok (reservations_new (registry (w_stores (st_world (eg_state E)))))" by (rule registry_reservations)
  moreover have "reservations_ok (reservations_new [])" by (simp add: reservations_new_ok registry_ok_def)
  ultimately show ?thesis
    by (simp add: rows_ok_def phase_begin_def Let_def batch_ids_def boundary_ok_def preempts_def queued_new)
qed

lemma commit_row_queued:
  assumes "commit_row ct row p E = Some (prog, owner, p', E')"
    and q: "queued_exactly (pr_access p) (pr_readers p) (pr_writers p) (fst row # ids)"
  shows "queued_exactly (pr_access p') (pr_readers p') (pr_writers p') ids"
    and "pr_readers p' = pr_readers p" "pr_writers p' = pr_writers p" "pr_point p' = pr_point p" "pr_allow p' = pr_allow p"
  using assms(1) by (elim commit_rowE; simp add: queued_release [OF q])+

lemma phase_turn_rows:
  assumes turn: "phase_turn ct workers maximum ready p E = Some (p', E')" and ok: "rows_ok p"
  shows "rows_ok p'"
proof (cases "pr_point p")
  case AtTop
  have q: "queued_exactly (pr_access p) (pr_readers p) (pr_writers p) []" using ok AtTop by (simp add: rows_ok_def batch_ids_def)
  show ?thesis using turn AtTop q queued_cancel [OF q]
    by (auto simp: phase_turn_def phase_top_def rows_ok_def batch_ids_def boundary_ok_def preempts_def split: if_splits)
next
  case (Planning W log epoch P)
  then have "phase_plan workers maximum W log epoch P p E = Some (p', E')" using turn by (simp add: phase_turn_def)
  then show ?thesis
  proof (cases rule: phase_planE)
    case (1 g memo defs v)
    have "queued_exactly (pr_access p) (pr_readers p) (pr_writers p) []" using ok Planning by (simp add: rows_ok_def batch_ids_def)
    then show ?thesis using plan_wave_queued [OF 1(2), of "pr_readers p" "pr_writers p" "[]"] 1(3)
      by (simp add: rows_ok_def batch_ids_def boundary_ok_def)
  qed
next
  case (Awaiting quiet)
  then have q: "queued_exactly (pr_access p) (pr_readers p) (pr_writers p) []" using ok by (simp add: rows_ok_def batch_ids_def)
  have "phase_await ready quiet p E = Some (p', E')" using turn Awaiting by (simp add: phase_turn_def)
  then show ?thesis
  proof (cases rule: phase_awaitE)
    case (Finish qs rs ws batch)
    note m = ready_batch_mset [OF Finish(1)]
    have "queued_exactly (pr_access p) rs ws (map fst qs @ [])" by (rule queued_move [OF q]) (use m in auto)
    then show ?thesis using Finish(3) run_rows_steps(2) [OF Finish(2)] by (simp add: rows_ok_def batch_ids_def boundary_ok_def)
  qed (use q in \<open>auto simp: rows_ok_def batch_ids_def boundary_ok_def\<close>)
next
  case (Committing quiet batch followup stale)
  then have q: "queued_exactly (pr_access p) (pr_readers p) (pr_writers p) (map fst batch)" using ok by (simp add: rows_ok_def batch_ids_def)
  have "phase_commit ct quiet batch followup stale p E = Some (p', E')" using turn Committing by (simp add: phase_turn_def)
  then show ?thesis
  proof (cases rule: phase_commitE)
    case Done
    then show ?thesis using q by (simp add: rows_ok_def batch_ids_def boundary_ok_def)
  next
    case (Row row others prog owner p1 E1)
    have "queued_exactly (pr_access p1) (pr_readers p1) (pr_writers p1) (map fst others)"
      by (rule commit_row_queued(1) [OF Row(2)]) (use q Row(1) in simp)
    then show ?thesis using Row(4) by (simp add: rows_ok_def batch_ids_def boundary_ok_def)
  qed
next
  case Draining
  then have b: "pr_readers p = []" "pr_allow p" using ok by (simp_all add: rows_ok_def boundary_ok_def)
  then have q: "queued_exactly (pr_access p) [] (pr_writers p) []" using ok Draining by (simp add: rows_ok_def batch_ids_def)
  obtain i where "phase_drain ct i p E = Some (p', E')" using turn Draining by (auto simp: phase_turn_def)
  then show ?thesis
  proof (cases rule: phase_drainE)
    case Done
    then show ?thesis using q b by (simp add: rows_ok_def batch_ids_def boundary_ok_def)
  next
    case (Row x ws row E1 prog owner p1)
    have id: "fst row = fst x" using run_rows_steps(2) [OF Row(2)] by simp
    have "queued_exactly (pr_access p) [] ws (map fst [x] @ [])"
      by (rule queued_move [OF q]) (use take_row_mset [OF Row(1)] in auto)
    then have "queued_exactly (pr_access (p\<lparr>pr_writers := ws\<rparr>)) (pr_readers (p\<lparr>pr_writers := ws\<rparr>)) (pr_writers (p\<lparr>pr_writers := ws\<rparr>)) (fst row # [])"
      by (simp add: b id)
    from commit_row_queued [OF Row(3) this] show ?thesis
      using Draining b Row(4) by (simp add: rows_ok_def batch_ids_def boundary_ok_def)
  qed
qed (use turn ok in \<open>auto simp: phase_turn_def phase_check_def phase_lend_def plan_log_def rows_ok_def batch_ids_def boundary_ok_def
    split: if_splits phase_outcome.splits\<close>)

end
