(* ===== verification/Phase_Claims.thy ===== *)
theory Phase_Claims
  imports Phase_Rows
begin

text \<open>
  The properties of driven generations: refinement of the engine, the rows in flight, the number
  of phases, and what a completed phase has seen.
\<close>

section \<open>The drive\<close>

primrec is_preempted :: "phase_outcome \<Rightarrow> bool" where
  "is_preempted (Completed changed) = False"
| "is_preempted (Preempted changed) = True"

text \<open>The pass since the last preemption has completed the phases before the index.\<close>

definition drive_ok :: "phase_outcome list \<Rightarrow> drive \<Rightarrow> bool" where
  "drive_ok os d \<longleftrightarrow> (\<exists>startup. dr_phases d = phases_ordered startup) \<and> dr_index d \<le> length (dr_phases d)
     \<and> dr_preemptions d = length (filter is_preempted os) \<and> dr_preemptions d \<le> preemption_budget
     \<and> length os \<le> 3 * dr_preemptions d + dr_index d
     \<and> (\<exists>before cs. os = before @ map Completed cs \<and> length cs = dr_index d)"

lemma phases_length: "0 < length (phases_ordered startup)" "length (phases_ordered startup) \<le> 3"
  by (simp_all add: phases_ordered_def)

lemma drive_start_ok: "drive_ok [] (drive_start startup)"
  by (auto simp: drive_ok_def drive_start_def)

lemma drive_next_ok:
  assumes ok: "drive_ok os d" and i: "dr_index d < length (dr_phases d)" and allow: "is_preempted out \<Longrightarrow> drive_allows d"
  shows "drive_ok (os @ [out]) (drive_next out d)"
proof (cases out)
  case (Completed changed)
  obtain before cs where "os = before @ map Completed cs" "length cs = dr_index d" using ok by (auto simp: drive_ok_def)
  then have "os @ [out] = before @ map Completed (cs @ [changed])" "length (cs @ [changed]) = dr_index d + 1" by (simp_all add: Completed)
  then have "\<exists>before cs. os @ [out] = before @ map Completed cs \<and> length cs = dr_index d + 1" by blast
  then show ?thesis using ok i by (simp add: drive_ok_def Completed)
next
  case (Preempted changed)
  have "dr_index d < 3" using i ok phases_length(2) by (auto simp: drive_ok_def intro: less_le_trans)
  moreover have "dr_preemptions d < preemption_budget" using allow by (simp add: Preempted drive_allows_def)
  ultimately show ?thesis using ok by (auto simp: drive_ok_def Preempted)
qed

text \<open>What holds of the driver between any two steps.\<close>

primrec driver_ok :: "phase_outcome list \<Rightarrow> 'v control \<Rightarrow> bool" where
  "driver_ok os (BetweenPhases d budget) \<longleftrightarrow> drive_ok os d"
| "driver_ok os (InPhase d p) \<longleftrightarrow> drive_ok os d \<and> dr_index d < length (dr_phases d) \<and> pr_allow p = drive_allows d \<and> rows_ok p"
| "driver_ok os (Finished budget) \<longleftrightarrow> os = [] \<or> (\<exists>d. drive_ok os d \<and> dr_index d = length (dr_phases d))"

lemma phase_turn_allow:
  assumes "phase_turn ct workers maximum ready p E = Some (p', E')"
  shows "pr_allow p' = pr_allow p"
proof (cases "pr_point p")
  case (Planning W log epoch P)
  then have "phase_plan workers maximum W log epoch P p E = Some (p', E')" using assms by (simp add: phase_turn_def)
  then show ?thesis by (cases rule: phase_planE) simp
next
  case (Awaiting quiet)
  then have "phase_await ready quiet p E = Some (p', E')" using assms by (simp add: phase_turn_def)
  then show ?thesis by (cases rule: phase_awaitE) simp_all
next
  case (Committing quiet batch followup stale)
  then have "phase_commit ct quiet batch followup stale p E = Some (p', E')" using assms by (simp add: phase_turn_def)
  then show ?thesis by (cases rule: phase_commitE) (auto elim: commit_rowE)
next
  case Draining
  then obtain i where "phase_drain ct i p E = Some (p', E')" using assms by (auto simp: phase_turn_def)
  then show ?thesis by (cases rule: phase_drainE) (auto elim: commit_rowE)
qed (use assms in \<open>auto simp: phase_turn_def phase_top_def phase_check_def phase_lend_def plan_log_def split: if_splits\<close>)

lemma evaluation_turn_driver:
  assumes "evaluation_turn ct workers maximum ready c E = Some (c', E')" and "engine_ok ct E" and ok: "driver_ok os c"
  shows "driver_ok (os @ ended c) c'"
  using assms(1)
proof (cases rule: evaluation_turnE)
  case (Begin d budget)
  have "pr_allow (phase_begin (dr_phases d ! dr_index d) (drive_allows d) budget E) = drive_allows d"
    by (simp add: phase_begin_def Let_def)
  then show ?thesis using Begin ok phase_begin_rows [OF assms(2)] by (simp add: ended_def)
next
  case (Complete d budget)
  then have o: "drive_ok os d" using ok by simp
  then have "dr_index d = length (dr_phases d)" using Complete(2) by (simp add: drive_ok_def)
  then show ?thesis using Complete o by (auto simp: ended_def)
next
  case (End d p out)
  then have "drive_ok os d" "dr_index d < length (dr_phases d)" "pr_allow p = drive_allows d" "boundary_ok p"
    using ok by (simp_all add: rows_ok_def)
  then have "drive_ok (os @ [out]) (drive_next out d)"
    using End(2) by (intro drive_next_ok) (auto simp: boundary_ok_def split: phase_outcome.splits)
  then show ?thesis using End by (simp add: ended_def)
next
  case (Turn d p p')
  then have "ended c = []" by (auto simp: ended_def split: phase_point.split)
  then show ?thesis using Turn ok phase_turn_rows [OF Turn(3)] phase_turn_allow [OF Turn(3)] by simp
qed

lemma driven_driver:
  assumes "driven ct workers maximum tr os c E"
  shows "driver_ok os c"
  using assms
proof (induction rule: driven.induct)
  case (dv_begin tr E budget c E')
  obtain started where "c = (case started of None \<Rightarrow> Finished budget | Some startup \<Rightarrow> BetweenPhases (drive_start startup) budget)"
    using dv_begin(3) by (rule evaluation_beginE)
  then show ?case by (simp add: drive_start_ok split: option.split)
next
  case (dv_turn tr os c E ready c' E')
  show ?case by (rule evaluation_turn_driver [OF dv_turn.hyps(2) driven_ok [OF dv_turn.hyps(1)] dv_turn.IH])
qed

section \<open>Properties\<close>

text \<open>
  C23. The driver's loop refines the engine.  Whatever the other callers do between its turns, a
  generation driven through its phases, with planning waves, commits, restarts and completion, is
  a run of the engine with the same inputs accepted, applied and withdrawn in the same order; so
  whatever holds of every run of the engine holds while a generation is driven.
\<close>

theorem driver_refines_engine:
  assumes "driven ct workers maximum tr os c E"
  shows "\<exists>tr'. engine_run ct tr' E \<and> filter (\<lambda>ev. ev \<noteq> Quiet) tr' = filter (\<lambda>ev. ev \<noteq> Quiet) tr"
  using driven_run [OF assms] by blast

text \<open>
  C5. Every completion belongs to an active invocation.  While a phase runs, whatever other
  callers do, the rows in flight (queued, finished or being committed) are exactly the runs that
  hold reservations, each once, readers and writers in their own queues; so the assertion of a
  commit never fails and its release hands back the invocation; two rows in flight never hold
  conflicting accesses; and when the phase has ended, completed or preempted, no reservation is left.
\<close>

theorem rows_in_flight_exact:
  assumes "driven ct workers maximum tr os (InPhase d p) E"
  shows "distinct (map fst (pr_readers p) @ map fst (pr_writers p) @ batch_ids p)
    \<and> (\<forall>i. contains (pr_access p) i \<longleftrightarrow> i \<in> set (map fst (pr_readers p) @ map fst (pr_writers p) @ batch_ids p))
    \<and> (\<forall>q\<in>set (pr_readers p). is_writer (pr_access p) (fst q) = Some False)
    \<and> (\<forall>q\<in>set (pr_writers p). is_writer (pr_access p) (fst q) = Some True)
    \<and> (\<forall>i. contains (pr_access p) i \<longrightarrow> (\<exists>r owner. release i (pr_access p) = Some (r, Some owner)))
    \<and> (\<forall>i j as bs a b. running_with (pr_access p) i as \<longrightarrow> running_with (pr_access p) j bs \<longrightarrow> i \<noteq> j \<longrightarrow>
        a \<in> set as \<longrightarrow> b \<in> set bs \<longrightarrow> \<not> access_conflicts a b)
    \<and> (\<forall>out i. pr_point p = Ended out \<longrightarrow> \<not> contains (pr_access p) i)"
proof -
  have ok: "queued_exactly (pr_access p) (pr_readers p) (pr_writers p) (batch_ids p)" "boundary_ok p"
    using driven_driver [OF assms] by (simp_all add: rows_ok_def)
  note q = queued_exactlyD [OF ok(1)]
  have "\<exists>r owner. release i (pr_access p) = Some (r, Some owner)" if "contains (pr_access p) i" for i
    using that release_live [OF q(1), of i] by (auto simp: contains_def)
  moreover have "\<not> contains (pr_access p) i" if "pr_point p = Ended out" for out i
    using that ok(2) q(3) by (cases out) (auto simp: boundary_ok_def batch_ids_def)
  moreover have "\<not> access_conflicts a b" if "running_with (pr_access p) i as" "running_with (pr_access p) j bs" "i \<noteq> j"
    "a \<in> set as" "b \<in> set bs" for i j as bs a b
    by (rule running_exclusive [OF q(1) that])
  ultimately show ?thesis using q(2-5) by (intro conjI) blast+
qed

text \<open>
  C4. A generation ends.  It runs at most fifteen phases, four of which can be preempted, however
  often callers ask for a boundary; and when it completes, the phases of one whole pass have
  completed in order since the last restart.
\<close>

theorem generation_bounded:
  assumes "driven ct workers maximum tr os c E"
  shows "length os \<le> 15 \<and> length (filter is_preempted os) \<le> 4
    \<and> (\<forall>budget. c = Finished budget \<longrightarrow> os \<noteq> [] \<longrightarrow>
        (\<exists>before cs startup. os = before @ map Completed cs \<and> length cs = length (phases_ordered startup)))"
proof -
  have d: "length os \<le> 15 \<and> length (filter is_preempted os) \<le> 4" if "drive_ok os d" for d
  proof -
    have "length os \<le> 3 * dr_preemptions d + dr_index d" "dr_preemptions d \<le> 4" "dr_index d \<le> 3"
      "dr_preemptions d = length (filter is_preempted os)"
      using that phases_length(2) by (auto simp: drive_ok_def preemption_budget_def intro: order_trans)
    then show ?thesis by linarith
  qed
  note ok = driven_driver [OF assms]
  show ?thesis
  proof (cases c)
    case (Finished budget)
    show ?thesis
    proof (cases "os = []")
      case False
      then obtain d where "drive_ok os d" "dr_index d = length (dr_phases d)" using ok Finished by auto
      then show ?thesis using d [of d] by (auto simp: drive_ok_def)
    qed simp
  qed (use ok d in auto)
qed

section \<open>Witnesses\<close>

text \<open>
  A bowl with the writer system of the planner and one entity with its component.  The generation
  runs an empty startup phase, one wave with one row in flight whose commit adds a component, a
  wave with nothing to plan, and an empty completion phase.
\<close>

fun turns :: "'v component_trait \<Rightarrow> ready list \<Rightarrow> phase_outcome list \<times> 'v control \<times> 'v engine \<Rightarrow>
    (phase_outcome list \<times> 'v control \<times> 'v engine) option" where
  "turns ct [] s = Some s"
| "turns ct (r # rs) (os, c, E) = Option.bind (evaluation_turn ct None 16 r c E) (\<lambda>(c', E'). turns ct rs (os @ ended c, c', E'))"

lemma driven_turns:
  "turns ct rs (os, c, E) = Some (os', c', E') \<Longrightarrow> driven ct None 16 tr os c E \<Longrightarrow> driven ct None 16 tr os' c' E'"
proof (induction rs arbitrary: os c E)
  case (Cons r rs)
  then obtain c1 E1 where t: "evaluation_turn ct None 16 r c E = Some (c1, E1)" "turns ct rs (os @ ended c, c1, E1) = Some (os', c', E')"
    by (auto elim!: bind_SomeE)
  show ?case by (rule Cons.IH [OF t(2) dv_turn [OF Cons.prems(2) t(1)]])
qed simp

definition writer_bowl :: "nat user_value engine" where
  "writer_bowl = the (build [] [SystemStep writer_decl])"

definition writer_inserted :: "nat user_value engine" where
  "writer_inserted = snd (snd (the (insert_inner [(UserTy 0, demo_plain 5)] False None writer_bowl)))"

text \<open>The rows in flight once the wave has been dispatched.\<close>

definition in_phase :: "'v control \<Rightarrow> (run_id list \<times> run_id list) option" where
  "in_phase c = (case c of InPhase d p \<Rightarrow> Some (map fst (pr_readers p), map fst (pr_writers p)) | _ \<Rightarrow> None)"

lemma writer_dispatched:
  "\<exists>d p E. driven demo_trait None 16 [Accepted [demo_input] (Some 1), Began 1 [demo_input]] [Completed False] (InPhase d p) E
    \<and> map fst (pr_writers p) = [demo_id 0]"
proof -
  have "build [] [SystemStep writer_decl] \<noteq> None" by code_simp
  then have b: "engine_run demo_trait [] writer_bowl" unfolding writer_bowl_def by (auto intro: er_build)
  have "map_option (\<lambda>(e, res, E). (e, res)) (insert_inner [(UserTy 0, demo_plain 5)] False None writer_bowl) = Some (0, Queued 1)"
    unfolding writer_bowl_def by code_simp
  then have i: "insert_inner [(UserTy 0, demo_plain 5)] False None writer_bowl = Some (0, Queued 1, writer_inserted)"
    unfolding writer_inserted_def by auto
  have e: "engine_run demo_trait [Accepted [demo_input] (Some 1)] writer_inserted"
    using er_step [OF b es_insert [OF i]] by (simp add: demo_input_def)
  have f: "eg_guard writer_inserted = None" "st_pending (eg_state writer_inserted) = Some 1"
    "contents (st_pending_inputs (eg_state writer_inserted)) = [demo_input]"
    unfolding writer_inserted_def writer_bowl_def by code_simp+
  have t: "Option.bind (evaluation_begin demo_trait (budget_new Unlimited) writer_inserted) (\<lambda>(c, E).
      map_option (\<lambda>(os, c, E). (os, in_phase c)) (turns demo_trait (replicate 7 NotReady) ([], c, E))) = Some ([Completed False], Some ([], [demo_id 0]))"
    unfolding writer_inserted_def writer_bowl_def by code_simp
  then obtain c E where s: "evaluation_begin demo_trait (budget_new Unlimited) writer_inserted = Some (c, E)" by (auto elim!: bind_SomeE)
  with t obtain c' E' where n: "turns demo_trait (replicate 7 NotReady) ([], c, E) = Some ([Completed False], c', E')"
    and c': "in_phase c' = Some ([], [demo_id 0])" by auto
  have "driven demo_trait None 16 [Accepted [demo_input] (Some 1), Began 1 [demo_input]] [] c E"
    using dv_begin [OF e f(1) s] by (simp add: f)
  note dr = driven_turns [OF n this]
  obtain d p where p: "c' = InPhase d p" "map fst (pr_writers p) = [demo_id 0]" using c' by (cases c') (auto simp: in_phase_def)
  show ?thesis using dr unfolding p(1) by (intro exI conjI) (assumption, rule p(2))
qed

theorem rows_in_flight_exact_witness:
  "\<exists>d p E. driven demo_trait None 16 [Accepted [demo_input] (Some 1), Began 1 [demo_input]] [Completed False] (InPhase d p) E
    \<and> contains (pr_access p) (demo_id 0) \<and> is_writer (pr_access p) (demo_id 0) = Some True"
proof -
  obtain d p E where dr: "driven demo_trait None 16 [Accepted [demo_input] (Some 1), Began 1 [demo_input]] [Completed False] (InPhase d p) E"
    and w: "map fst (pr_writers p) = [demo_id 0]" using writer_dispatched by (elim exE conjE)
  note r = rows_in_flight_exact [OF dr]
  have "contains (pr_access p) (demo_id 0)" using r w by simp
  moreover obtain f where "pr_writers p = [(demo_id 0, f)]" using w by (cases "pr_writers p") auto
  then have "is_writer (pr_access p) (demo_id 0) = Some True" using r by simp
  ultimately show ?thesis using dr by blast
qed

theorem driver_refines_engine_witness:
  "\<exists>tr (E :: nat user_value engine). engine_run demo_trait tr E \<and> filter (\<lambda>ev. ev \<noteq> Quiet) tr = [Accepted [demo_input] (Some 1), Began 1 [demo_input]]"
  using writer_dispatched driver_refines_engine by fastforce

text \<open>A generation of a bowl without systems goes through its three phases.\<close>

lemma empty_generation:
  "\<exists>budget E. driven demo_trait None 16 [Accepted [demo_input] (Some 1), Began 1 [demo_input]]
    [Completed False, Completed False, Completed False] (Finished budget) E"
proof -
  note b = demo_engine_begun
  have t: "Option.bind (evaluation_begin demo_trait (budget_new Unlimited) demo_inserted) (\<lambda>(c, E).
      map_option (\<lambda>(os, c, E). (os, case c of Finished budget \<Rightarrow> True | _ \<Rightarrow> False)) (turns demo_trait (replicate 7 NotReady) ([], c, E)))
      = Some ([Completed False, Completed False, Completed False], True)"
    unfolding demo_inserted_def demo_built_def by code_simp
  then obtain c E where s: "evaluation_begin demo_trait (budget_new Unlimited) demo_inserted = Some (c, E)" by (auto elim!: bind_SomeE)
  with t obtain c' E' where n: "turns demo_trait (replicate 7 NotReady) ([], c, E) = Some ([Completed False, Completed False, Completed False], c', E')"
    and c': "case c' of Finished budget \<Rightarrow> True | _ \<Rightarrow> False" by auto
  have "driven demo_trait None 16 [Accepted [demo_input] (Some 1), Began 1 [demo_input]] [] c E"
    using dv_begin [OF b(1) b(2) s] by (simp add: b)
  from driven_turns [OF n this] show ?thesis using c' by (cases c') auto
qed

theorem generation_bounded_witness:
  "\<exists>budget (E :: nat user_value engine). driven demo_trait None 16 [Accepted [demo_input] (Some 1), Began 1 [demo_input]]
      [Completed False, Completed False, Completed False] (Finished budget) E
    \<and> length (filter is_preempted [Completed False, Completed False, Completed False]) \<le> 4"
  using empty_generation generation_bounded by blast

end
