(* ===== verification/Phase_Quiet.thy ===== *)
theory Phase_Quiet
  imports Phase_Claims
begin

text \<open>
  What a phase has seen when it completes: unless rows were sent back, no system of the phase with
  a bounded interest has anything left to plan.
\<close>

section \<open>Marks\<close>

text \<open>A system keeps its mark or loses it, when rows are sent back to one that cannot plan them alone.\<close>

definition keeps_mark :: "'v boxed_system \<Rightarrow> 'v boxed_system \<Rightarrow> bool" where
  "keeps_mark s s' \<longleftrightarrow> bs_phase s' = bs_phase s \<and> bs_interest s' = bs_interest s
     \<and> (bs_planned_mark s' = bs_planned_mark s \<or> bs_planned_mark s' = None)"

lemma keeps_mark_refl [simp]: "keeps_mark s s"
  by (simp add: keeps_mark_def)

lemma keeps_mark_trans: "keeps_mark s s1 \<Longrightarrow> keeps_mark s1 s2 \<Longrightarrow> keeps_mark s s2"
  by (auto simp: keeps_mark_def)

lemma force_replan_mark: "keeps_mark s (force_replan keys s)"
  by (simp add: keeps_mark_def force_replan_def reset_full_def)

text \<open>The marks of a phase cover a world, as far as the systems watch none of the stores in \<open>T\<close>.\<close>

definition marks_cover :: "type_id set \<Rightarrow> phase \<Rightarrow> 'v world \<Rightarrow> 'v boxed_system list \<Rightarrow> bool" where
  "marks_cover T ph W defs \<longleftrightarrow> (\<forall>s\<in>set defs. \<forall>tys m. bs_phase s = ph \<longrightarrow> bs_interest s = Some tys \<longrightarrow> bs_planned_mark s = Some m \<longrightarrow>
     set tys \<inter> T = {} \<longrightarrow> interest_mark W tys \<le> m)"

lemma cover_mono: "marks_cover T ph W defs \<Longrightarrow> T \<subseteq> T' \<Longrightarrow> marks_cover T' ph W defs"
  unfolding marks_cover_def by blast

lemma covered_marks:
  assumes "marks_cover T ph W defs" and "list_all2 keeps_mark defs defs'"
  shows "marks_cover T ph W defs'"
  unfolding marks_cover_def
proof (intro ballI allI impI)
  fix s tys m assume s: "s \<in> set defs'" "bs_phase s = ph" "bs_interest s = Some tys" "bs_planned_mark s = Some m" "set tys \<inter> T = {}"
  obtain s0 where "s0 \<in> set defs" "keeps_mark s0 s" using assms(2) s(1) by (metis list_all2_conv_all_nth in_set_conv_nth)
  then show "interest_mark W tys \<le> m" using assms(1) s(2-5) unfolding marks_cover_def keeps_mark_def by auto
qed

text \<open>The stores outside \<open>T\<close> have not moved.\<close>

definition still_off :: "type_id set \<Rightarrow> 'v world \<Rightarrow> 'v world \<Rightarrow> bool" where
  "still_off T W W' \<longleftrightarrow> (\<forall>ty. ty \<notin> T \<longrightarrow> store_watermark W' ty = store_watermark W ty)"

lemma stamps_still_off: "same_stamps ct W W' \<Longrightarrow> still_off T W W'"
  by (simp add: same_stamps_def still_off_def)

lemma still_off_trans: "still_off T W W1 \<Longrightarrow> still_off T W1 W2 \<Longrightarrow> still_off T W W2"
  by (simp add: still_off_def)

lemma still_off_mono: "still_off T W W' \<Longrightarrow> T \<subseteq> T' \<Longrightarrow> still_off T' W W'"
  by (auto simp: still_off_def)

lemma interest_still: "still_off T W W' \<Longrightarrow> set tys \<inter> T = {} \<Longrightarrow> interest_mark W' tys = interest_mark W tys"
proof -
  assume "still_off T W W'" "set tys \<inter> T = {}"
  then have "map (store_watermark W') tys = map (store_watermark W) tys" by (auto simp: still_off_def)
  then show ?thesis unfolding interest_mark_def by (rule arg_cong)
qed

lemma covered_still: "marks_cover T ph W defs \<Longrightarrow> still_off T W W' \<Longrightarrow> marks_cover T ph W' defs"
  by (simp add: marks_cover_def interest_still)

lemma marks_update: "i < length defs \<Longrightarrow> list_all2 keeps_mark defs (defs[i := force_replan keys (defs ! i)])"
  by (auto simp: list_all2_conv_all_nth nth_list_update force_replan_mark)

lemma marks_trans: "list_all2 keeps_mark xs ys \<Longrightarrow> list_all2 keeps_mark ys zs \<Longrightarrow> list_all2 keeps_mark xs zs"
  by (rule list_all2_trans [OF keeps_mark_trans])

lemma marks_refl [simp]: "list_all2 keeps_mark xs xs"
  by (simp add: list_all2_same)

section \<open>Planning waves\<close>

lemma dispatch_loop_mark:
  "dispatch_loop limit runs s = Some s' \<Longrightarrow> keeps_mark (ad_system (snd s)) (ad_system (snd s'))"
proof (induction runs arbitrary: s)
  case (Cons p runs)
  obtain b a where s: "s = (b, a)" by (rule prod.exhaust)
  obtain r res where adm: "admit (psr_owner p) (psr_access p) (ad_reservations a) = Some (r, res)"
    using Cons.prems by (auto simp: s split: option.splits)
  have "\<exists>s1. dispatch_loop limit runs s1 = Some s' \<and> keeps_mark (ad_system a) (ad_system (snd s1))"
    using Cons.prems
    by (auto simp del: split_paired_Ex simp: s adm split: option.splits sum.splits rejected.splits bool.splits)
      ((intro exI conjI, assumption, simp add: force_replan_mark)+)
  then show ?case using Cons.IH keeps_mark_trans by (fastforce simp: s)
qed simp

lemma plan_and_dispatch_mark:
  assumes "plan_and_dispatch workers maximum W memo log epoch s v = Some (s', v')"
  shows "keeps_mark s s'"
proof -
  obtain runs s1 P a where p: "plan_system W memo log epoch s (wv_pool v) = Some (runs, s1, P)"
    and d: "dispatch_rows workers maximum runs \<lparr>ad_system = s1, ad_reservations = wv_reservations v,
           ad_deferred_conflicts = wv_deferred_conflicts v, ad_readers = wv_readers v, ad_writers = wv_writers v\<rparr> = Some a"
    and s': "s' = ad_system a"
    using assms by (auto simp: plan_and_dispatch_def elim!: bind_SomeE)
  have 1: "keeps_mark s s1" using p
    by (cases "bs_delta_eligible s") (auto simp: plan_system_def take_forced_dirty_def Let_def keeps_mark_def elim!: bind_SomeE)
  obtain x where x: "dispatch_loop (grain workers (length runs) maximum) runs (\<lparr>bt_readers = [], bt_writers = []\<rparr>,
      \<lparr>ad_system = s1, ad_reservations = wv_reservations v,
           ad_deferred_conflicts = wv_deferred_conflicts v, ad_readers = wv_readers v, ad_writers = wv_writers v\<rparr>) = Some x"
    and a: "a = submit_rest x" using d by (auto simp: dispatch_rows_def)
  have "ad_system a = ad_system (snd x)" by (simp add: a submit_rest_def split: prod.split)
  then show ?thesis using keeps_mark_trans [OF 1] dispatch_loop_mark [OF x] by (simp add: s')
qed

lemma plan_wave_covers:
  "plan_wave workers maximum ph W memo log epoch ss v = Some (ss', v') \<Longrightarrow> marks_cover T ph W ss'"
proof (induction ss arbitrary: ss' v)
  case (Cons s ss)
  obtain chosen s1 where p: "(if bs_phase s = ph then needs_planning W s else (False, s)) = (chosen, s1)" by (rule prod.exhaust)
  obtain s2 v1 ss1 where v1: "(if chosen then plan_and_dispatch workers maximum W memo log epoch s1 v else Some (s1, v)) = Some (s2, v1)"
    and rest: "plan_wave workers maximum ph W memo log epoch ss v1 = Some (ss1, v')" and ss': "ss' = s2 # ss1"
    using Cons.prems by (auto simp: p elim!: bind_SomeE)
  have 1: "marks_cover T ph W [s1]"
    using p by (auto simp: marks_cover_def needs_planning_def peek_needs_planning_def split: if_splits option.splits)
  have "keeps_mark s1 s2" using v1 plan_and_dispatch_mark by (auto split: if_splits)
  then have "marks_cover T ph W [s2]" using covered_marks [OF 1] by simp
  then show ?case using Cons.IH [OF rest] by (simp add: ss' marks_cover_def)
qed (simp add: marks_cover_def)

section \<open>Commits\<close>

lemma reconcile_owners_marks:
  "reconcile_removed_output_owners systems ows (memo, defs) = Some (gone, memo', defs') \<Longrightarrow> list_all2 keeps_mark defs defs'"
proof (induction systems ows "(memo, defs)" arbitrary: memo defs gone rule: reconcile_removed_output_owners.induct)
  case (2 systems ow ows memo defs)
  show ?case
  proof (cases "(case systems of None \<Rightarrow> False | Some ss \<Rightarrow> inv_system ow \<notin> ss) \<or> map_of memo ow = None")
    case True
    then show ?thesis using "2.hyps"(1) "2.prems" by simp
  next
    case False
    then have i: "inv_system ow < length defs"
      and r: "\<exists>g. reconcile_removed_output_owners systems ows (AList.delete ow memo,
        defs[inv_system ow := force_replan (inv_keys ow) (defs ! inv_system ow)]) = Some (g, memo', defs')"
      using "2.prems" by (auto split: if_splits)
    obtain g where "reconcile_removed_output_owners systems ows (AList.delete ow memo,
        defs[inv_system ow := force_replan (inv_keys ow) (defs ! inv_system ow)]) = Some (g, memo', defs')" using r ..
    from marks_trans [OF marks_update [OF i] "2.hyps"(2) [OF False i this]] show ?thesis .
  qed
qed simp

lemma retire_removed_marks:
  assumes "retire_removed ct (st, memo) = Some (st', memo')"
  shows "list_all2 keeps_mark (st_systems st) (st_systems st')"
proof -
  let ?W = "(st_world st)\<lparr>w_removed_entities := [], w_removed_owners := [], w_removed_component_owners := []\<rparr>"
  let ?st1 = "st\<lparr>st_world := ?W\<rparr>" and ?lists = "(w_removed_entities (st_world st), w_removed_owners (st_world st), w_removed_component_owners (st_world st))"
  note rr = assms [unfolded retire_removed_def Let_def prod.case take_removed_entities_def take_removed_owners_def
      take_removed_component_owners_def, simplified]
  show ?thesis
  proof (cases "?lists = ([], [], [])")
    case True
    then show ?thesis using rr by auto
  next
    case False
    then obtain gone memo1 defs where d: "reconcile_removed_output_owners None (w_removed_component_owners (st_world st)) (memo, st_systems st)
        = Some (gone, memo1, defs)"
      and rest: "(if gone then Some (?st1\<lparr>st_systems := defs, st_normal_clean := False\<rparr>, memo1)
        else map_option (\<lambda>(gone, st3, memo2). (if gone then st3\<lparr>st_normal_clean := False\<rparr> else st3, memo2))
          (reconcile_removed_invocations ct (Some (pair_bound_systems (st_systems st))) (w_removed_entities (st_world st))
            (w_removed_owners (st_world st)) (?st1\<lparr>st_systems := defs\<rparr>, memo1))) = Some (st', memo')"
      using rr by (auto elim!: bind_SomeE split: if_splits)
    note m = reconcile_owners_marks [OF d]
    show ?thesis
    proof (cases gone)
      case True
      then show ?thesis using m rest by auto
    next
      case False
      then obtain gone' st3 where r: "reconcile_removed_invocations ct (Some (pair_bound_systems (st_systems st))) (w_removed_entities (st_world st))
            (w_removed_owners (st_world st)) (?st1\<lparr>st_systems := defs\<rparr>, memo1) = Some (gone', st3, memo')"
        and st': "st' = (if gone' then st3\<lparr>st_normal_clean := False\<rparr> else st3)"
        using rest by auto
      have "list_all2 keeps_mark defs (st_systems st3)"
        using r reconcile_owners_marks by (fastforce simp: reconcile_removed_invocations_def elim!: bind_SomeE)
      then show ?thesis using marks_trans [OF m] by (simp add: st')
    qed
  qed
qed

lemma commit_output_systems:
  assumes "commit_output ct ph memo out st = Some st1"
  shows "st_systems st1 = st_systems st"
proof -
  obtain st0 where st0: "replace_outputs ct (ph = Some Settle) out st = Some st0"
    and "st1 = st0\<lparr>st_world := snd (take_written_derived (st_world st0))\<rparr>"
    using assms by (auto simp: commit_output_def take_written_derived_def elim!: bind_SomeE split: if_splits)
  moreover have "st_systems st0 = st_systems st"
    using st0 by (auto simp: replace_outputs_def Let_def elim!: bind_SomeE split: prod.splits)
  ultimately show ?thesis by simp
qed

lemma commit_run_marks:
  assumes "commit_system_run ct ph run (st, memo) = Some (prog, st', memo')"
  shows "list_all2 keeps_mark (st_systems st) (st_systems st')"
    and "\<not> cp_needs_followup prog \<Longrightarrow> w_revision (st_world st') = w_revision (st_world st)"
proof -
  have "list_all2 keeps_mark (st_systems st) (st_systems st')
      \<and> (\<not> cp_needs_followup prog \<longrightarrow> w_revision (st_world st') = w_revision (st_world st))"
  proof (cases "run_is_current (st_world st) run")
    case False
    then show ?thesis using assms by (auto simp: commit_system_run_def Let_def)
  next
    case True
    then obtain st1 memo2 where st1: "fold_opt (commit_output ct ph memo) (sr_outputs run) st = Some st1"
      and rr: "retire_removed ct (st1\<lparr>st_world := reconcile_written ct (sr_writes run) (st_world st1)\<rparr>, memo2) = Some (st', memo')"
      and needs: "cp_needs_followup prog = world_moved (st_world st) (st_world st')"
      using assms by (auto simp: commit_system_run_def Let_def elim!: bind_SomeE)
    have "st_systems st1 = st_systems st"
      by (rule fold_opt_invariant [OF st1, where P = "\<lambda>st1. st_systems st1 = st_systems st"]) (simp_all add: commit_output_systems)
    then show ?thesis using retire_removed_marks [OF rr] needs by (simp add: world_moved_def)
  qed
  then show "list_all2 keeps_mark (st_systems st) (st_systems st')"
    "\<not> cp_needs_followup prog \<Longrightarrow> w_revision (st_world st') = w_revision (st_world st)" by blast+
qed

lemma commit_run_covered:
  assumes "driver_commit ct ph run E = Some (prog, E')" and ok: "engine_ok ct E" and "\<not> cp_needs_followup prog"
    and cov: "marks_cover T x (st_world (eg_state E)) (st_systems (eg_state E))"
  shows "marks_cover T x (st_world (eg_state E')) (st_systems (eg_state E'))"
proof -
  obtain memo memo' where c: "commit_system_run ct (Some ph) run (eg_state E, memo) = Some (prog, eg_state E', memo')"
    using assms(1) by (auto simp: driver_commit_def elim!: bind_SomeE)
  have later: "world_later ct (st_world (eg_state E)) (st_world (eg_state E'))"
    using commit_run_section [OF c] by (simp add: section_ok_def)
  have "world_settled ct (st_world (eg_state E))" using ok by (simp add: engine_ok_def)
  from leads_still [OF later this] have "same_stamps ct (st_world (eg_state E)) (st_world (eg_state E'))"
    using commit_run_marks(2) [OF c assms(3)] by (simp add: still_def)
  then show ?thesis using covered_still [OF covered_marks [OF cov commit_run_marks(1) [OF c]]] stamps_still_off by blast
qed

section \<open>A phase up to its completion\<close>

text \<open>
  One phase from its first turn, with the stores that other callers have moved since the phase last
  looked at the world for its systems.  Between the turns other callers do what they like, writes
  to the world included; only planning is the driver's, so they leave a system its mark or send
  rows back to it.
\<close>

inductive phase_path :: "'v component_trait \<Rightarrow> nat option \<Rightarrow> nat \<Rightarrow> 'v phase_run \<Rightarrow> 'v engine \<Rightarrow> type_id set \<Rightarrow> 'v phase_run \<Rightarrow> 'v engine \<Rightarrow> bool"
  for ct workers maximum p0 E0 where
  pp_begin: "phase_path ct workers maximum p0 E0 {} p0 E0"
| pp_turn: "phase_path ct workers maximum p0 E0 T p E \<Longrightarrow> phase_turn ct workers maximum ready p E = Some (p', E') \<Longrightarrow>
    phase_path ct workers maximum p0 E0 (if pr_point p = Checking then {} else T) p' E'"
| pp_other: "phase_path ct workers maximum p0 E0 T p E \<Longrightarrow> engine_step ct ev E E' \<Longrightarrow>
    list_all2 keeps_mark (st_systems (eg_state E)) (st_systems (eg_state E')) \<Longrightarrow>
    phase_path ct workers maximum p0 E0
      (T \<union> {ty. store_watermark (st_world (eg_state E')) ty \<noteq> store_watermark (st_world (eg_state E)) ty}) p E'"

definition seen_ok :: "type_id set \<Rightarrow> 'v phase_run \<Rightarrow> 'v engine \<Rightarrow> bool" where
  "seen_ok T p E \<longleftrightarrow> (let cov = marks_cover T (pr_phase p) (st_world (eg_state E)) (st_systems (eg_state E)) in
     case pr_point p of
       AtTop \<Rightarrow> pr_needs_plan p \<or> cov
     | Checking \<Rightarrow> pr_needs_plan p
     | Lending W log epoch \<Rightarrow> still_off T W (st_world (eg_state E))
     | Planning W log epoch P \<Rightarrow> still_off T W (st_world (eg_state E))
     | Awaiting quiet \<Rightarrow> cov \<and> (quiet \<longrightarrow> pr_needs_plan p)
     | Committing quiet batch followup stale \<Rightarrow> if quiet then pr_needs_plan p else followup \<or> cov
     | Ended (Completed changed) \<Rightarrow> cov
     | _ \<Rightarrow> True)"

lemma seen_other:
  assumes "seen_ok T p E" and "list_all2 keeps_mark (st_systems (eg_state E)) (st_systems (eg_state E'))"
    and T': "T' = T \<union> {ty. store_watermark (st_world (eg_state E')) ty \<noteq> store_watermark (st_world (eg_state E)) ty}"
  shows "seen_ok T' p E'"
proof -
  have s: "still_off T' (st_world (eg_state E)) (st_world (eg_state E'))" by (auto simp: still_off_def T')
  have "marks_cover T x (st_world (eg_state E)) (st_systems (eg_state E)) \<Longrightarrow>
      marks_cover T' x (st_world (eg_state E')) (st_systems (eg_state E'))" for x
    using covered_still [OF covered_marks [OF cover_mono assms(2)] s] T' by blast
  moreover have "still_off T W (st_world (eg_state E)) \<Longrightarrow> still_off T' W (st_world (eg_state E'))" for W
    using still_off_trans [OF still_off_mono s] T' by blast
  ultimately show ?thesis using assms(1)
    by (auto simp: seen_ok_def Let_def split: phase_point.splits phase_outcome.splits)
qed

lemma run_rows_same:
  assumes "run_rows qs E = (batch, E')"
  shows "same_stamps ct (st_world (eg_state E)) (st_world (eg_state E')) \<and> st_systems (eg_state E') = st_systems (eg_state E)"
  using assms by (auto simp: run_rows_def same_stamps_def entry_of_def store_watermark_def split: prod.splits)

lemma commit_row_covered:
  assumes "commit_row ct row p E = Some (prog, owner, p', E')" and "engine_ok ct E" and "\<not> cp_needs_followup prog"
    and "marks_cover T x (st_world (eg_state E)) (st_systems (eg_state E))"
  shows "marks_cover T x (st_world (eg_state E')) (st_systems (eg_state E'))"
  using assms(1) by (rule commit_rowE) (rule commit_run_covered [OF _ assms(2-4)])

lemma force_stale_covered:
  assumes "force_stale owner E = Some E'" and "marks_cover T x (st_world (eg_state E)) (st_systems (eg_state E))"
  shows "marks_cover T x (st_world (eg_state E')) (st_systems (eg_state E'))"
  using assms covered_marks [OF assms(2) marks_update] by (auto simp: force_stale_def Let_def split: if_splits)

lemma phase_turn_seen:
  assumes turn: "phase_turn ct workers maximum ready p E = Some (p', E')" and ok: "engine_ok ct E" and seen: "seen_ok T p E"
  shows "seen_ok (if pr_point p = Checking then {} else T) p' E' \<and> pr_phase p' = pr_phase p"
proof (cases "pr_point p")
  case AtTop
  then show ?thesis using turn seen by (auto simp: phase_turn_def phase_top_def seen_ok_def Let_def split: if_splits)
next
  case Checking
  then have c: "phase_check p E = Some (p', E')" and n: "pr_needs_plan p" using turn seen by (simp_all add: phase_turn_def seen_ok_def)
  show ?thesis
  proof (cases "phase_ready (pr_phase p) (eg_state E)")
    case True
    then obtain W st where s: "snapshot_locked (eg_state E) = Some (W, st)" and E': "E' = put_state E st"
      and p': "\<exists>log epoch. p' = p\<lparr>pr_point := Lending W log epoch\<rparr>"
      using c by (auto simp: phase_check_def plan_log_def)
    have "st_world st = st_world (eg_state E)"
      using s by (auto simp: snapshot_locked_def snapshot_fresh_def split: option.splits if_splits)
    then show ?thesis using stamps_still_off [OF conjunct1 [OF snapshot_stamps [OF ok s]]] p' Checking by (auto simp: E' seen_ok_def)
  next
    case False
    then have "marks_cover {} (pr_phase p) (st_world (eg_state E)) (st_systems (eg_state E))"
      by (auto simp: marks_cover_def phase_ready_def list_ex_iff peek_needs_planning_def not_less split: if_splits)
    then show ?thesis using c n False Checking by (auto simp: phase_check_def seen_ok_def)
  qed
next
  case (Lending W log epoch)
  then show ?thesis using turn seen by (auto simp: phase_turn_def phase_lend_def seen_ok_def)
next
  case (Planning W log epoch P)
  then have s: "still_off T W (st_world (eg_state E))" using seen by (simp add: seen_ok_def)
  have "phase_plan workers maximum W log epoch P p E = Some (p', E')" using turn Planning by (simp add: phase_turn_def)
  then show ?thesis
  proof (cases rule: phase_planE)
    case (1 g memo defs v)
    then show ?thesis using covered_still [OF plan_wave_covers [OF 1(2)] s] Planning by (simp add: seen_ok_def)
  qed
next
  case (Awaiting quiet)
  then have s: "marks_cover T (pr_phase p) (st_world (eg_state E)) (st_systems (eg_state E))" "quiet \<Longrightarrow> pr_needs_plan p"
    using seen by (simp_all add: seen_ok_def)
  have "phase_await ready quiet p E = Some (p', E')" using turn Awaiting by (simp add: phase_turn_def)
  then show ?thesis
  proof (cases rule: phase_awaitE)
    case (Finish qs rs ws batch)
    have "marks_cover T (pr_phase p) (st_world (eg_state E')) (st_systems (eg_state E'))"
      using s(1) run_rows_same [OF Finish(2), of ct] covered_still [OF _ stamps_still_off] by metis
    then show ?thesis using s(2) Finish(3) Awaiting by (simp add: seen_ok_def)
  qed (use s Awaiting in \<open>simp_all add: seen_ok_def\<close>)
next
  case (Committing quiet batch followup stale)
  then have "phase_commit ct quiet batch followup stale p E = Some (p', E')" using turn by (simp add: phase_turn_def)
  then show ?thesis
  proof (cases rule: phase_commitE)
    case Done
    then show ?thesis using seen Committing by (auto simp: seen_ok_def Let_def)
  next
    case (Row row others prog owner p1 E1)
    have p1: "pr_phase p1 = pr_phase p" "pr_needs_plan p1 = pr_needs_plan p" using Row(2) by (auto elim!: commit_rowE)
    have "marks_cover T (pr_phase p) (st_world (eg_state E')) (st_systems (eg_state E'))"
      if "\<not> quiet" "\<not> (followup \<or> cp_needs_followup prog)"
    proof -
      have "marks_cover T (pr_phase p) (st_world (eg_state E)) (st_systems (eg_state E))"
        using seen Committing that by (simp add: seen_ok_def)
      then have "marks_cover T (pr_phase p) (st_world (eg_state E1)) (st_systems (eg_state E1))"
        using commit_row_covered [OF Row(2) ok] that by blast
      then show ?thesis using Row(3) force_stale_covered by blast
    qed
    then show ?thesis using Row(4) p1 seen Committing by (auto simp: seen_ok_def Let_def)
  qed
next
  case Draining
  then obtain i where "phase_drain ct i p E = Some (p', E')" using turn by (auto simp: phase_turn_def)
  then show ?thesis
  proof (cases rule: phase_drainE)
    case (Row q ws row E1 prog owner p1)
    have "pr_point p' = Draining" "pr_phase p' = pr_phase p" using Row(3,4) Draining by (auto elim!: commit_rowE)
    then show ?thesis by (simp add: seen_ok_def Let_def)
  qed (simp add: seen_ok_def Let_def)
qed (use turn in \<open>auto simp: phase_turn_def seen_ok_def Let_def split: if_splits\<close>)

lemma phase_path_seen:
  assumes "phase_path ct workers maximum p0 E0 T p E"
    and "engine_ok ct E0" and "lent_ok p0" and "rows_ok p0" and "seen_ok {} p0 E0"
  shows "engine_ok ct E \<and> lent_ok p \<and> rows_ok p \<and> seen_ok T p E \<and> pr_phase p = pr_phase p0"
  using assms(1)
proof (induction rule: phase_path.induct)
  case (pp_turn T p E ready p' E')
  then show ?case
    using phase_turn_steps [OF pp_turn.hyps(2)] quiet_ok phase_turn_rows [OF pp_turn.hyps(2)] phase_turn_seen [OF pp_turn.hyps(2)] by metis
next
  case (pp_other T p E ev E')
  then show ?case using seen_other [OF _ pp_other.hyps(3) refl] good_engine engine_step_good by blast
qed (use assms(2-5) in simp)

section \<open>Property\<close>

text \<open>
  C6. A phase runs to quiescence.  When a phase with systems completes, whatever other callers did
  between its turns, no row is in flight, and a system of the phase does not need planning: its
  mark covers everything the phase and its own commits wrote to the stores it watches.  The
  exceptions are part of the statement: a system without a bounded interest; a system whose rows
  were sent back, singly or by losing its mark; and a system that watches a store which another
  caller moved after the phase last looked (an update from outside, say, which enqueues the next
  generation instead).  Other callers do not plan: that is the driver's alone.
\<close>

theorem phase_runs_to_quiescence:
  assumes "engine_run ct tr E0" and "and (eg_phases E0) (phase_bit ph) \<noteq> 0"
    and "phase_path ct workers maximum (phase_begin ph allow budget E0) E0 moved p E"
    and "pr_point p = Ended (Completed changed)"
  shows "pr_readers p = [] \<and> pr_writers p = []
    \<and> (\<forall>s\<in>set (st_systems (eg_state E)). bs_phase s = ph \<longrightarrow> (\<exists>tys. bs_interest s = Some tys \<and> set tys \<inter> moved = {}) \<longrightarrow>
         bs_planned_mark s \<noteq> None \<longrightarrow> bs_forced_dirty s = [] \<longrightarrow> \<not> peek_needs_planning (st_world (eg_state E)) s)"
proof -
  let ?p0 = "phase_begin ph allow budget E0"
  have ok: "engine_ok ct E0" by (rule run_good(1) [OF assms(1)])
  have "seen_ok {} ?p0 E0" "pr_phase ?p0 = ph" using assms(2) by (simp_all add: seen_ok_def phase_begin_def Let_def)
  with phase_path_seen [OF assms(3) ok phase_begin_lent phase_begin_rows [OF ok]]
  have "rows_ok p" "seen_ok moved p E" "pr_phase p = ph" by simp_all
  then show ?thesis using assms(4)
    by (auto simp: rows_ok_def boundary_ok_def seen_ok_def marks_cover_def peek_needs_planning_def not_less)
qed

section \<open>Witness\<close>

text \<open>The evaluate phase of the bowl with the writer system, over an entity the system does not match.\<close>

fun phase_turns :: "'v component_trait \<Rightarrow> nat \<Rightarrow> 'v phase_run \<times> 'v engine \<Rightarrow> ('v phase_run \<times> 'v engine) option" where
  "phase_turns ct 0 s = Some s"
| "phase_turns ct (Suc n) (p, E) = Option.bind (phase_turn ct None 16 NotReady p E) (phase_turns ct n)"

lemma phase_turns_path:
  "phase_turns ct n (p, E) = Some (p', E') \<Longrightarrow> phase_path ct None 16 p0 E0 {} p E \<Longrightarrow> phase_path ct None 16 p0 E0 {} p' E'"
proof (induction n arbitrary: p E)
  case (Suc n)
  then obtain p1 E1 where t: "phase_turn ct None 16 NotReady p E = Some (p1, E1)" "phase_turns ct n (p1, E1) = Some (p', E')"
    by (auto elim!: bind_SomeE)
  have "phase_path ct None 16 p0 E0 {} p1 E1" using pp_turn [OF Suc.prems(2) t(1)] by simp
  then show ?case by (rule Suc.IH [OF t(2)])
qed simp

definition other_inserted :: "nat user_value engine" where
  "other_inserted = snd (snd (the (insert_inner [(UserTy 1, demo_plain 5)] False None writer_bowl)))"

definition other_begun :: "nat user_value engine" where
  "other_begun = snd (the (begin_generation demo_trait other_inserted))"

lemma other_run: "\<exists>tr. engine_run demo_trait tr other_begun"
proof -
  have "build [] [SystemStep writer_decl] \<noteq> None" by code_simp
  then have b: "engine_run demo_trait [] writer_bowl" unfolding writer_bowl_def by (auto intro: er_build)
  have "map_option (\<lambda>(e, res, E). (e, res)) (insert_inner [(UserTy 1, demo_plain 5)] False None writer_bowl) = Some (0, Queued 1)"
    unfolding writer_bowl_def by code_simp
  then have i: "insert_inner [(UserTy 1, demo_plain 5)] False None writer_bowl = Some (0, Queued 1, other_inserted)"
    unfolding other_inserted_def by auto
  have f: "eg_guard other_inserted = None" unfolding other_inserted_def writer_bowl_def by code_simp
  have "map_option (\<lambda>(started, E). started) (begin_generation demo_trait other_inserted) = Some (Some True)"
    unfolding other_inserted_def writer_bowl_def by code_simp
  then obtain started where "begin_generation demo_trait other_inserted = Some (started, other_begun)"
    unfolding other_begun_def by auto
  from er_step [OF er_step [OF b es_insert [OF i]] es_begin [OF f this]] show ?thesis by blast
qed

theorem phase_runs_to_quiescence_witness:
  "\<exists>p E s. phase_path demo_trait None 16 (phase_begin Evaluate True (budget_new Unlimited) other_begun) other_begun {} p E
    \<and> pr_point p = Ended (Completed False) \<and> st_systems (eg_state E) = [s] \<and> \<not> peek_needs_planning (st_world (eg_state E)) s"
proof -
  have t: "map_option (\<lambda>(p, E). (case pr_point p of Ended out \<Rightarrow> Some out | _ \<Rightarrow> None,
        map (\<lambda>s. (bs_phase s, bs_interest s, bs_planned_mark s, bs_forced_dirty s)) (st_systems (eg_state E))))
      (phase_turns demo_trait 5 (phase_begin Evaluate True (budget_new Unlimited) other_begun, other_begun))
      = Some (Some (Completed False), [(Evaluate, Some [UserTy 0], Some 0, [])])"
    unfolding other_begun_def other_inserted_def writer_bowl_def by code_simp
  then obtain p E where n: "phase_turns demo_trait 5 (phase_begin Evaluate True (budget_new Unlimited) other_begun, other_begun) = Some (p, E)"
    and o: "(case pr_point p of Ended out \<Rightarrow> Some out | _ \<Rightarrow> None) = Some (Completed False)"
    and d: "map (\<lambda>s. (bs_phase s, bs_interest s, bs_planned_mark s, bs_forced_dirty s)) (st_systems (eg_state E))
      = [(Evaluate, Some [UserTy 0], Some 0, [])]" by auto
  have path: "phase_path demo_trait None 16 (phase_begin Evaluate True (budget_new Unlimited) other_begun) other_begun {} p E"
    by (rule phase_turns_path [OF n pp_begin])
  have e: "pr_point p = Ended (Completed False)" using o by (simp split: phase_point.splits)
  obtain s where s: "st_systems (eg_state E) = [s]" and m: "bs_phase s = Evaluate" "bs_interest s \<noteq> None" "bs_planned_mark s \<noteq> None" "bs_forced_dirty s = []"
    using d by (cases "st_systems (eg_state E)") auto
  have b: "and (eg_phases other_begun) (phase_bit Evaluate) \<noteq> 0"
    unfolding other_begun_def other_inserted_def writer_bowl_def by code_simp
  obtain tr where r: "engine_run demo_trait tr other_begun" using other_run ..
  have "\<not> peek_needs_planning (st_world (eg_state E)) s"
    using phase_runs_to_quiescence [OF r b path e] s m by simp
  then show ?thesis using path e s by blast
qed

end
