(* ===== verification/Spec2Isabelle.thy ===== *)
theory Spec2Isabelle
  imports Prelude Reservations Presence World_Claims Relationships Cells Commands Memo Query_Props Param_Props
    Planner_Props Delta Retirement Snapshots External_Props Prepared Declarations Bundles Macro_Props Phase_Quiet
begin

text \<open>
  Porridge, an incremental evaluation engine in the style of an entity-component system, in Rust
  (src/crates/bowl, with the derive macros of src/crates/macros).

  What the program does.  Callers insert facts (components on entities).  Systems derive further
  facts from the rows their parameters match; each invocation is memoized under the entities it is
  keyed by, together with the revisions it observed.  A bowl is settled when nothing is left to
  derive, and queries from outside read a settled snapshot.  An insertion queues an input; a
  settle drives generations until no input is pending.  A generation goes through the phases
  Startup, Evaluate and Complete, each a loop that plans the systems whose stores moved, runs the
  planned rows as far as their accesses allow, and commits what they wrote; a caller may preempt
  it, which drops the readers, drains the writers and restarts it.

  All paths below are in src/crates/bowl/src unless another crate is named.

  Names and conventions (Prelude).  Entities, systems and generations are natural numbers, a
  component type is a \<open>type_id\<close>; a hash map is an association list with distinct keys or a map,
  by whether its order can be seen; an operation that may panic returns an \<open>option\<close>, \<open>None\<close> being
  the panic, and an operation with an error of its own returns a sum.  Words appear where the
  width matters (presence bits, row bounds, commit counts).

  Storage.
  Traits (component.rs, macros/lib.rs): component values, the methods the engine calls on them,
  derived anchors, the Component derive.  Presence (world.rs, \<open>PresenceIndex\<close>): the bitmap of a
  closed schema.  Stores (world.rs, world/stores.rs): one typed store with its fingerprint index,
  and the slot table of all of them.  World (world.rs): every operation that changes the world.
  World_Inv, World_Props and World_Claims keep its invariant through every operation and read off
  the properties of reachable worlds; World_Relations and World_Books state, as locales, what has
  to hold of the primitive steps for a relation between an earlier and a later world to be carried
  along any run, and are interpreted by the memo, the snapshots, the write log, the freshness of
  stamps, the spawn slots and the commit.  Relationships: the inverse of an edge component is
  always the sorted list of its sources.  An inverse is not itself an edge (the derive refuses
  both attributes on one type), which bounds the nesting of maintenance at two: \<open>insert_at\<close> and
  \<open>remove_at\<close> run with that fuel, and a chaining edge written by hand is outside the model.  Cells (world.rs,
  query/guards.rs): the lock of a component cell and the guard stores of an invocation, as
  interleaved steps of threads.  Snapshots (bowl.rs): the cache key of a snapshot.

  Reading.
  Queries (query.rs, declare.rs): facets, query parts, parameters and filters, each a record of
  trait methods with a function for the default bodies.  Params (system.rs, prepared/rows.rs): the
  parameters of a system, the product of a tuple with its bound joins, and the plan of a system
  against the memo.  Prepared (prepared.rs): the same reads through stores resolved once, and the
  items a callback receives.  Externals (query.rs, bowl.rs): scoops with their runtime arguments,
  cursor and drain reads, optimistic and copy-on-write updates.  Query_Props, Param_Props,
  Prepared and External_Props prove enumeration and joins equal to a scan over all entities,
  preparation invisible, and updates confined to the rows they match.

  Writing.
  Commands (commands.rs, commands/arena.rs): buffers, queues and their pool.  Declarations
  (declare.rs): what the compiler admits into a buffer, counted as proofs of the declaration
  traits, and why it passes the check of a commit.  Commit (bowl.rs): replacement of outputs,
  schema and race checks, the memo's update, the retirement of invocations; Commit_Props and
  Retirement.

  Planning and running.
  Memo (system.rs, query.rs): dependencies and memo entries.  Systems (system.rs,
  system/synchronous.rs): function systems and hooks.  Planner (system.rs, bowl.rs,
  dispatch/plan.rs): when a system is planned, from which dirty entities, and how its rows are
  admitted.  Reservations (access.rs): admission, completion and cancellation of rows; its
  counters and its pairwise rule are interpretations of one locale.  Planner_Props and Delta: no
  planned row is lost, and planning from the write log finds what full planning would, also
  beside equality joins on a driving query; a join on a joined query is missed (a theorem of Delta).

  The engine.
  Engine and Settle (bowl.rs): one definition per section under the state lock.  Engine_Steps: the
  transition system of those sections, any number of callers interleaved; Engine_World,
  Engine_Props and Engine_Claims its invariant, the accounts of inputs, and what the start of a
  generation does to the world with the inputs it takes.  Phases (bowl.rs): the
  driver's loop, turn by turn; Phase_Steps, Phase_Rows, Phase_Claims and Phase_Quiet show that a
  driven generation refines the transition system, that its rows in flight are the held
  reservations, that it ends and that a completed phase has nothing left to plan but for stores
  that other callers moved behind it and rows that were sent back.

  The macros.
  Macros and Macro_Props (macros/lib.rs): the scanners, the schema derive and its round trip.
  Bundles: the parameter a bundle of ambient parameters becomes, what it shares with its fields
  and what it does not forward.  The generated code is given by its parts, not by its text.

  Bounds.  A generation may be preempted four times (\<open>preemption_budget\<close>), hence runs at most
  fifteen phases; how many turns a phase takes is not bounded by the code, since systems may
  derive forever, and is cut off by the commit budget only.  The retirement loop and all scans
  terminate without fuel.  Where the code's integers could wrap they are either words (commit
  counts, row bounds, presence masks) or natural numbers, the latter for 64-bit identifiers and
  revisions that only ever count up by one.

  Conditions that recur.  \<open>reachable\<close> is any world the operations lead to.  \<open>allocated\<close>: every
  component is on an id the allocator has handed out; the operations do not check it (a handle of
  another bowl is accepted by the code too), so it is a hypothesis where rows are compared with a
  scan over all ids, and the witnesses discharge it by evaluation.  \<open>anchored\<close>: the query is no
  bare facet handle and its trackers have a facet anchor; where a bare handle behaves differently
  the properties of enumeration say how, and the joins, the skipped plans and the write log leave
  it out.  Members of an inverse are found by a binary search in the code and by membership here,
  which differ only for an inverse list that is not sorted; the maintained ones are.  A guard
  store is cleared in one step, while the code releases its tokens one by one.

  Not modelled, and why.  User code (systems, comparisons, hashes, hooks) is a parameter.  A
  snapshot holds copies here, while in the code it shares cells with the world, so a guard taken
  through an old snapshot sees a later in-place write; dependency checks before a commit are what
  the code relies on there, and they are modelled.  Poisoned locks, arena memory, recycled
  allocations and copy-on-write sharing only save work.  The executor, wakers, task polling and
  timing counters carry no data: their interleavings are the steps of the transition systems.
  Rows within a batch run in the order of the plan.  The playground, the benches and the
  experiments use the library and add nothing to it.  Names of types in error messages are left
  out; the errors themselves are values.

  The order of the work, should it go on: cells shared between snapshots and the world, and
  fairness of the phase loop under a bounded number of commits.
\<close>

end
